(* ===== verification/Mdl_Prelude.thy ===== *)
theory Mdl_Prelude
  imports Main "HOL-Library.Word"
begin

text \<open>
  Shared vocabulary of the development: the machine integer types of the
  firmware (a 32-bit Cortex-M4), the unsigned 32-bit arithmetic the C code does
  on addresses and sizes, little-endian words, and the byte-addressed memory
  that the allocators, the loader and the relocator write into.
\<close>

unbundle bit_operations_syntax

named_theorems mdl_simps \<open>unfolding of the small helpers shared by the components\<close>

type_synonym u8 = "8 word"
type_synonym u16 = "16 word"
type_synonym u32 = "32 word"

text \<open>
  Addresses and sizes (\<open>uintptr_t\<close>, \<open>size_t\<close>) are natural numbers below
  \<open>2 ^ 32\<close>; where a C expression can wrap, the wrap is written with the
  operations below.
\<close>

type_synonym addr = nat

definition add32 :: "nat \<Rightarrow> nat \<Rightarrow> nat" where
  "add32 a b = (a + b) mod 2 ^ 32"

definition sub32 :: "nat \<Rightarrow> nat \<Rightarrow> nat" where
  "sub32 a b = (a + (2 ^ 32 - b)) mod 2 ^ 32"

definition mul32 :: "nat \<Rightarrow> nat \<Rightarrow> nat" where
  "mul32 a b = (a * b) mod 2 ^ 32"

lemma add32_small [simp]: "a + b < 2 ^ 32 \<Longrightarrow> add32 a b = a + b"
  by (simp add: add32_def)

lemma sub32_small [simp]: "b \<le> a \<Longrightarrow> a < 2 ^ 32 \<Longrightarrow> sub32 a b = a - b"
proof -
  assume "b \<le> a" "a < 2 ^ 32"
  then have "a + (2 ^ 32 - b) = (a - b) + 2 ^ 32" and "a - b < 2 ^ 32" by auto
  then show ?thesis by (simp add: sub32_def)
qed

lemma mul32_small [simp]: "a * b < 2 ^ 32 \<Longrightarrow> mul32 a b = a * b"
  by (simp add: mul32_def)

lemma add32_less [simp]: "add32 a b < 2 ^ 32" "sub32 a b < 2 ^ 32" "mul32 a b < 2 ^ 32"
  by (simp_all add: add32_def sub32_def mul32_def)

section \<open>Little-endian words\<close>

definition le32 :: "u8 \<Rightarrow> u8 \<Rightarrow> u8 \<Rightarrow> u8 \<Rightarrow> u32" where
  "le32 b0 b1 b2 b3 =
     ucast b0 OR push_bit 8 (ucast b1)
     OR push_bit 16 (ucast b2) OR push_bit 24 (ucast b3)"

definition byte_of :: "nat \<Rightarrow> u32 \<Rightarrow> u8" where
  "byte_of i w = ucast (drop_bit (8 * i) w)"

definition le32_bytes :: "u32 \<Rightarrow> u8 list" where
  "le32_bytes w = [byte_of 0 w, byte_of 1 w, byte_of 2 w, byte_of 3 w]"

lemma length_le32_bytes [simp]: "length (le32_bytes w) = 4"
  by (simp add: le32_bytes_def)

lemma le32_byte_of [simp]:
  "le32 (byte_of 0 w) (byte_of (Suc 0) w) (byte_of 2 w) (byte_of 3 w) = w"
proof (rule bit_word_eqI)
  fix n
  assume "n < LENGTH(32)"
  then consider "n < 8" | "8 \<le> n" "n < 16" | "16 \<le> n" "n < 24" | "24 \<le> n" "n < 32"
    by force
  then show "bit (le32 (byte_of 0 w) (byte_of (Suc 0) w) (byte_of 2 w) (byte_of 3 w)) n = bit w n"
    by cases (auto simp: le32_def byte_of_def bit_simps)
qed

lemma xor_cancel: "(a XOR c = b XOR c) = (a = (b :: 'a::len word))"
  and xor_cancel_left: "(c XOR a = c XOR b) = (a = (b :: 'a::len word))"
proof -
  have "(x XOR c) XOR c = x" for x :: "'a word" by (simp only: xor.assoc xor_self_eq xor.right_neutral)
  then show r: "(a XOR c = b XOR c) = (a = b)" by metis
  show "(c XOR a = c XOR b) = (a = b)" using r by (simp add: xor.commute)
qed

lemma ucast_u8_eq: "((ucast a :: u32) = ucast b) = (a = (b :: u8))"
proof
  assume eq: "(ucast a :: u32) = ucast b"
  show "a = b"
  proof (rule bit_word_eqI)
    fix n
    assume "n < LENGTH(8)"
    with arg_cong [OF eq, of "\<lambda>w. bit w n"] show "bit a n = bit b n"
      by (simp add: bit_ucast_iff)
  qed
qed simp

section \<open>Byte memory\<close>

text \<open>
  Memory is a total map from byte addresses to bytes; whether an access is
  inside a region the firmware may touch is stated by the properties.
\<close>

type_synonym mem = "nat \<Rightarrow> u8"

definition ld32 :: "mem \<Rightarrow> addr \<Rightarrow> u32" where
  "ld32 m a = le32 (m a) (m (a + 1)) (m (a + 2)) (m (a + 3))"

definition st32 :: "addr \<Rightarrow> u32 \<Rightarrow> mem \<Rightarrow> mem" where
  "st32 a w m =
     m(a := byte_of 0 w, a + 1 := byte_of 1 w, a + 2 := byte_of 2 w, a + 3 := byte_of 3 w)"

text \<open>\<open>memcpy(dst, bytes, n)\<close> and \<open>memset(dst, 0, n)\<close>.\<close>

definition mem_write :: "addr \<Rightarrow> u8 list \<Rightarrow> mem \<Rightarrow> mem" where
  "mem_write dst bs m =
     (\<lambda>a. if dst \<le> a \<and> a < dst + length bs then bs ! (a - dst) else m a)"

definition mem_zero :: "addr \<Rightarrow> nat \<Rightarrow> mem \<Rightarrow> mem" where
  "mem_zero dst n m = (\<lambda>a. if dst \<le> a \<and> a < dst + n then 0 else m a)"

definition mem_read :: "mem \<Rightarrow> addr \<Rightarrow> nat \<Rightarrow> u8 list" where
  "mem_read m a n = map m [a ..< a + n]"

lemma ld32_st32_same [simp]: "ld32 (st32 a w m) a = w"
  by (simp add: ld32_def st32_def)

lemma ld32_st32_other [simp]:
  "a + 4 \<le> b \<or> b + 4 \<le> a \<Longrightarrow> ld32 (st32 a w m) b = ld32 m b"
  by (auto simp: ld32_def st32_def)

lemma st32_other: "b < a \<or> a + 4 \<le> b \<Longrightarrow> st32 a w m b = m b"
  by (auto simp: st32_def)

lemma mem_write_inside [simp]: "i < length bs \<Longrightarrow> mem_write dst bs m (dst + i) = bs ! i"
  by (simp add: mem_write_def)

lemma mem_write_outside: "a < dst \<or> dst + length bs \<le> a \<Longrightarrow> mem_write dst bs m a = m a"
  by (auto simp: mem_write_def)

lemma mem_zero_outside: "a < dst \<or> dst + n \<le> a \<Longrightarrow> mem_zero dst n m a = m a"
  by (auto simp: mem_zero_def)

lemma mem_read_length [simp]: "length (mem_read m a n) = n"
  by (simp add: mem_read_def)

lemma mem_read_nth [simp]: "i < n \<Longrightarrow> mem_read m a n ! i = m (a + i)"
  by (simp add: mem_read_def)

section \<open>C strings\<close>

text \<open>
  A NUL-terminated string in a fixed-size array: the characters before the
  first NUL, at most \<open>n\<close> of them.
\<close>

fun cstr :: "u8 list \<Rightarrow> u8 list" where
  "cstr [] = []"
| "cstr (c # cs) = (if c = 0 then [] else c # cstr cs)"

lemma cstr_no_nul [simp]: "0 \<notin> set (cstr cs)"
  by (induction cs) auto

lemma cstr_idem [simp]: "cstr (cstr cs) = cstr cs"
  by (induction cs) auto

lemma length_cstr [simp]: "length (cstr cs) \<le> length cs"
  by (induction cs) auto

text \<open>\<open>strncmp(a, b, n) == 0\<close> on two arrays.\<close>

definition strncmp_eq :: "nat \<Rightarrow> u8 list \<Rightarrow> u8 list \<Rightarrow> bool" where
  "strncmp_eq n a b \<longleftrightarrow> cstr (take n a) = cstr (take n b)"

section \<open>Lists\<close>

lemma nth_append_length_plus [simp]: "(xs @ ys) ! (length xs + i) = ys ! i"
  by (simp add: nth_append)

end
