(* ===== verification/Crc32.thy ===== *)
theory Crc32
  imports Mdl_Prelude
begin

text \<open>
  \<open>mdl/core/crc32.c\<close>: the bit-at-a-time CRC-32 that guards every module image,
  every protocol frame and every image in the flash store, and the facts the
  components use: the two-buffer form is the checksum of the concatenation, and
  a checksum tells apart any two messages that differ in one byte only.
\<close>

section \<open>Model\<close>

text \<open>One round of the inner loop: \<open>mask = -(crc & 1); crc = (crc >> 1) ^ (poly & mask)\<close>.\<close>

definition crc32_bit :: "u32 \<Rightarrow> u32" where
  "crc32_bit crc =
     (let mask = - (crc AND 1) in drop_bit 1 crc XOR (0xEDB88320 AND mask))"

definition crc32_byte :: "u32 \<Rightarrow> u8 \<Rightarrow> u32" where
  "crc32_byte crc b = (crc32_bit ^^ 8) (crc XOR ucast b)"

fun crc32_update :: "u32 \<Rightarrow> u8 list \<Rightarrow> u32" where
  "crc32_update crc [] = crc"
| "crc32_update crc (b # bs) = crc32_update (crc32_byte crc b) bs"

definition mdl_crc32 :: "u8 list \<Rightarrow> u32" where
  "mdl_crc32 data = NOT (crc32_update 0xFFFFFFFF data)"

definition mdl_crc32_2 :: "u8 list \<Rightarrow> u8 list \<Rightarrow> u32" where
  "mdl_crc32_2 a b = NOT (crc32_update (crc32_update 0xFFFFFFFF a) b)"

section \<open>Concatenation\<close>

lemma crc32_update_append: "crc32_update c (a @ b) = crc32_update (crc32_update c a) b"
  by (induction a arbitrary: c) auto

text \<open>Checksumming two separate buffers is checksumming their concatenation.\<close>

theorem mdl_crc32_2_concat: "mdl_crc32_2 a b = mdl_crc32 (a @ b)"
  by (simp add: mdl_crc32_2_def mdl_crc32_def crc32_update_append)

section \<open>A changed byte changes the checksum\<close>

lemma mask_bit: "bit (- (c AND 1) :: u32) i \<longleftrightarrow> i < 32 \<and> bit c 0"
proof (cases "bit c 0")
  case True
  then have "c AND 1 = 1" by (simp add: and_one_eq bit_0 odd_iff_mod_2_eq_one)
  then show ?thesis using True by simp
next
  case False
  then have "c AND 1 = 0" by (simp add: and_one_eq bit_0 even_iff_mod_2_eq_zero)
  then show ?thesis using False by simp
qed

lemma bit_32 [simp]: "\<not> bit (w :: u32) 32"
  using bit_imp_le_length [of w 32] by auto

lemma bit_crc32_bit:
  "i < 32 \<Longrightarrow> bit (crc32_bit c) i \<longleftrightarrow> bit c (Suc i) \<noteq> (bit c 0 \<and> bit (0xEDB88320 :: u32) i)"
  by (auto simp: crc32_bit_def Let_def bit_xor_iff bit_and_iff mask_bit bit_drop_bit_eq)

lemma inj_crc32_bit: "inj crc32_bit"
proof (rule injI)
  fix c d :: u32
  assume eq: "crc32_bit c = crc32_bit d"
  have top: "bit (crc32_bit x) 31 = bit x 0" for x :: u32
    by (subst bit_crc32_bit) (simp_all add: bit_iff_odd [where a = "3988292384 :: u32"])
  have low: "bit c 0 = bit d 0" using top [of c] top [of d] eq by simp
  show "c = d"
  proof (rule bit_word_eqI)
    fix n
    assume n: "n < LENGTH(32)"
    show "bit c n = bit d n"
    proof (cases n)
      case 0
      with low show ?thesis by simp
    next
      case (Suc i)
      with n have "i < 32" by simp
      from bit_crc32_bit [OF this, of c] bit_crc32_bit [OF this, of d] low eq Suc
      show ?thesis by auto
    qed
  qed
qed

lemma inj_crc32_rounds: "inj (crc32_bit ^^ n)"
proof (induction n)
  case 0
  show ?case by (simp add: inj_def)
next
  case (Suc n)
  from inj_compose [OF inj_crc32_bit Suc.IH] show ?case by (simp add: comp_def)
qed

lemma crc32_byte_inj_state: "crc32_byte c b = crc32_byte d b \<Longrightarrow> c = d"
  unfolding crc32_byte_def by (drule injD [OF inj_crc32_rounds]) (simp add: xor_cancel)

lemma crc32_byte_inj_byte: "crc32_byte c a = crc32_byte c b \<Longrightarrow> a = b"
  unfolding crc32_byte_def by (drule injD [OF inj_crc32_rounds]) (simp add: xor_cancel_left ucast_u8_eq)

lemma crc32_update_inj: "crc32_update c bs = crc32_update d bs \<Longrightarrow> c = d"
  by (induction bs arbitrary: c d) (auto dest: crc32_byte_inj_state)

lemma crc32_update_one_byte:
  assumes "x \<noteq> y"
  shows "crc32_update c (pre @ x # post) \<noteq> crc32_update c (pre @ y # post)"
proof
  assume "crc32_update c (pre @ x # post) = crc32_update c (pre @ y # post)"
  then have "crc32_byte (crc32_update c pre) x = crc32_byte (crc32_update c pre) y"
    by (auto simp: crc32_update_append dest: crc32_update_inj)
  with assms show False by (auto dest: crc32_byte_inj_byte)
qed

lemma mdl_crc32_one_byte: "x \<noteq> y \<Longrightarrow> mdl_crc32 (pre @ x # post) \<noteq> mdl_crc32 (pre @ y # post)"
  using crc32_update_one_byte [of x y] by (simp add: mdl_crc32_def)

lemma crc32_bit_code: "crc32_bit c = (if bit c 0 then drop_bit 1 c XOR 0xEDB88320 else drop_bit 1 c)"
  by (rule bit_word_eqI) (auto simp: bit_crc32_bit bit_xor_iff bit_drop_bit_eq)

text \<open>The standard check value of this CRC variant, \<open>crc32("123456789")\<close>.\<close>

lemma crc32_byte_code:
  "crc32_byte crc b =
     crc32_bit (crc32_bit (crc32_bit (crc32_bit (crc32_bit (crc32_bit (crc32_bit (crc32_bit
       (crc XOR ucast b))))))))"
  by (simp add: crc32_byte_def eval_nat_numeral)

lemmas crc32_eval = mdl_crc32_def mdl_crc32_2_def crc32_byte_code crc32_bit_code

lemma mdl_crc32_check: "mdl_crc32 [0x31, 0x32, 0x33, 0x34, 0x35, 0x36, 0x37, 0x38, 0x39] = 0xCBF43926"
  by (simp add: crc32_eval)

end
