(* ===== verification/Protocol.thy ===== *)
theory Protocol
  imports Crc32 "HOL-Library.Sublist"
begin

text \<open>
  \<open>mdl/transport/protocol.c\<close>: the byte-at-a-time parser that demultiplexes binary
  MDLC frames from typed console text, the one-frame mailbox the supervisor
  empties, and the response writer. A byte of text is handed to
  \<open>mdl_console_rx_byte\<close>; here it is an output of the step, in order.
\<close>

section \<open>Model\<close>

datatype rx_state = RX_MAGIC | RX_CMD | RX_LEN | RX_PAYLOAD | RX_CRC

text \<open>
  The file's statics. \<open>s_payload\<close> is the receive buffer (an index at or past
  \<open>MDL_PROTO_MAX_PAYLOAD\<close> would be a write outside it), \<open>s_notified\<close> counts
  the \<open>xTaskNotifyGive\<close> calls on the supervisor task, which is absent
  (\<open>NULL\<close>) when \<open>s_handle\<close> is \<open>False\<close>.
\<close>

record proto =
  s_state :: rx_state
  s_field_pos :: nat
  s_magic_buf :: "u8 list"
  s_cmd :: u8
  s_len_buf :: "u8 list"
  s_len :: u32
  s_payload :: "nat \<Rightarrow> u8"
  s_crc_buf :: "u8 list"
  s_frame_ready :: bool
  s_ready_cmd :: u8
  s_ready_len :: u32
  s_handle :: bool
  s_notified :: nat

definition proto_init :: proto where
  "proto_init =
     \<lparr>s_state = RX_MAGIC, s_field_pos = 0, s_magic_buf = [0, 0, 0, 0], s_cmd = 0,
      s_len_buf = [0, 0, 0, 0], s_len = 0, s_payload = (\<lambda>_. 0), s_crc_buf = [0, 0, 0, 0],
      s_frame_ready = False, s_ready_cmd = 0, s_ready_len = 0, s_handle = False, s_notified = 0\<rparr>"

definition MDL_PROTO_MAX_PAYLOAD :: u32 where
  "MDL_PROTO_MAX_PAYLOAD = 32 * 1024"

definition MDL_PROTO_MAGIC :: u32 where
  "MDL_PROTO_MAGIC = 0x434C444D"

definition magic_bytes :: "u8 list" where
  "magic_bytes = le32_bytes MDL_PROTO_MAGIC"

definition mdl_proto_set_supervisor_handle :: "bool \<Rightarrow> proto \<Rightarrow> proto" where
  "mdl_proto_set_supervisor_handle h p = p\<lparr>s_handle := h\<rparr>"

definition reset_parser :: "proto \<Rightarrow> proto" where
  "reset_parser p = p\<lparr>s_state := RX_MAGIC, s_field_pos := 0\<rparr>"

definition rx_magic :: "u8 \<Rightarrow> proto \<Rightarrow> proto \<times> u8 list" where
  "rx_magic b p =
     (if b = magic_bytes ! s_field_pos p then
        let p1 = p\<lparr>s_magic_buf := (s_magic_buf p)[s_field_pos p := b],
                   s_field_pos := s_field_pos p + 1\<rparr>
        in if s_field_pos p1 = 4 then (p1\<lparr>s_state := RX_CMD, s_field_pos := 0\<rparr>, []) else (p1, [])
      else
        let held = take (s_field_pos p) (s_magic_buf p); p0 = p\<lparr>s_field_pos := 0\<rparr>
        in if b = magic_bytes ! 0
           then (p0\<lparr>s_magic_buf := (s_magic_buf p0)[0 := b], s_field_pos := 1\<rparr>, held)
           else (p0, held @ [b]))"

definition rx_cmd :: "u8 \<Rightarrow> proto \<Rightarrow> proto" where
  "rx_cmd b p = p\<lparr>s_cmd := b, s_state := RX_LEN, s_field_pos := 0\<rparr>"

definition rx_len :: "u8 \<Rightarrow> proto \<Rightarrow> proto" where
  "rx_len b p =
     (let p1 = p\<lparr>s_len_buf := (s_len_buf p)[s_field_pos p := b], s_field_pos := s_field_pos p + 1\<rparr>
      in if s_field_pos p1 = 4 then
           let l = s_len_buf p1; p2 = p1\<lparr>s_len := le32 (l ! 0) (l ! 1) (l ! 2) (l ! 3)\<rparr>
           in if s_len p2 > MDL_PROTO_MAX_PAYLOAD then reset_parser p2
              else p2\<lparr>s_field_pos := 0, s_state := (if s_len p2 > 0 then RX_PAYLOAD else RX_CRC)\<rparr>
         else p1)"

definition rx_payload :: "u8 \<Rightarrow> proto \<Rightarrow> proto" where
  "rx_payload b p =
     (let p1 = p\<lparr>s_payload := (s_payload p)(s_field_pos p := b), s_field_pos := s_field_pos p + 1\<rparr>
      in if s_field_pos p1 = unat (s_len p1)
         then p1\<lparr>s_field_pos := 0, s_state := RX_CRC\<rparr> else p1)"

definition payload_bytes :: "proto \<Rightarrow> u32 \<Rightarrow> u8 list" where
  "payload_bytes p n = map (s_payload p) [0 ..< unat n]"

definition rx_crc :: "u8 \<Rightarrow> proto \<Rightarrow> proto" where
  "rx_crc b p =
     (let p1 = p\<lparr>s_crc_buf := (s_crc_buf p)[s_field_pos p := b], s_field_pos := s_field_pos p + 1\<rparr>
      in if s_field_pos p1 = 4 then
           let c = s_crc_buf p1;
               got_crc = le32 (c ! 0) (c ! 1) (c ! 2) (c ! 3);
               header = [s_cmd p1, s_len_buf p1 ! 0, s_len_buf p1 ! 1, s_len_buf p1 ! 2, s_len_buf p1 ! 3];
               computed = mdl_crc32_2 header (payload_bytes p1 (s_len p1));
               p2 = (if computed = got_crc
                     then p1\<lparr>s_ready_cmd := s_cmd p1, s_ready_len := s_len p1, s_frame_ready := True,
                             s_notified := s_notified p1 + (if s_handle p1 then 1 else 0)\<rparr>
                     else p1)
           in reset_parser p2
         else p1)"

definition mdl_proto_rx_byte :: "u8 \<Rightarrow> proto \<Rightarrow> proto \<times> u8 list" where
  "mdl_proto_rx_byte b p =
     (case s_state p of
        RX_MAGIC \<Rightarrow> rx_magic b p
      | RX_CMD \<Rightarrow> (rx_cmd b p, [])
      | RX_LEN \<Rightarrow> (rx_len b p, [])
      | RX_PAYLOAD \<Rightarrow> (rx_payload b p, [])
      | RX_CRC \<Rightarrow> (rx_crc b p, []))"

text \<open>The loop of \<open>usb_cdc_rx_task\<close>: one call per received byte.\<close>

fun rx_bytes :: "u8 list \<Rightarrow> proto \<Rightarrow> proto \<times> u8 list" where
  "rx_bytes [] p = (p, [])"
| "rx_bytes (b # bs) p =
     (let (p1, out1) = mdl_proto_rx_byte b p; (p2, out2) = rx_bytes bs p1 in (p2, out1 @ out2))"

definition mdl_proto_take_frame :: "proto \<Rightarrow> ((u8 \<times> u8 list) option) \<times> proto" where
  "mdl_proto_take_frame p =
     (if \<not> s_frame_ready p then (None, p)
      else (Some (s_ready_cmd p, payload_bytes p (s_ready_len p)), p\<lparr>s_frame_ready := False\<rparr>))"

text \<open>\<open>mdl_proto_send_response\<close>: the buffers passed to \<open>mdl_transport_write\<close>, in order.\<close>

definition mdl_proto_send_response :: "u8 \<Rightarrow> u8 list \<Rightarrow> u32 \<Rightarrow> u8 list list" where
  "mdl_proto_send_response resp payload len =
     (let header = le32_bytes MDL_PROTO_MAGIC @ [resp] @ le32_bytes len;
          body = take (unat len) payload;
          crc = mdl_crc32_2 (drop 4 header) body
      in [header] @ (if len > 0 then [body] else []) @ [le32_bytes crc])"

section \<open>The parser's invariant\<close>

text \<open>Bytes held because they may still turn out to be the start of a frame.\<close>

definition held :: "proto \<Rightarrow> u8 list" where
  "held p = (if s_state p = RX_MAGIC then take (s_field_pos p) (s_magic_buf p) else [])"

definition proto_ok :: "proto \<Rightarrow> bool" where
  "proto_ok p \<longleftrightarrow>
     length (s_magic_buf p) = 4 \<and> length (s_len_buf p) = 4 \<and> length (s_crc_buf p) = 4 \<and>
     unat (s_ready_len p) \<le> 32768 \<and>
     (case s_state p of
        RX_MAGIC \<Rightarrow> s_field_pos p < 4 \<and>
          take (s_field_pos p) (s_magic_buf p) = take (s_field_pos p) magic_bytes
      | RX_CMD \<Rightarrow> s_field_pos p = 0
      | RX_LEN \<Rightarrow> s_field_pos p < 4
      | RX_PAYLOAD \<Rightarrow> s_field_pos p < unat (s_len p) \<and> unat (s_len p) \<le> 32768
      | RX_CRC \<Rightarrow> s_field_pos p < 4 \<and> unat (s_len p) \<le> 32768)"

lemma magic_bytes_eq: "magic_bytes = [0x4D, 0x44, 0x4C, 0x43]"
  by (simp add: magic_bytes_def le32_bytes_def byte_of_def MDL_PROTO_MAGIC_def)

lemma length_magic_bytes [simp]: "length magic_bytes = 4"
  by (simp add: magic_bytes_eq)

lemma max_payload_nat: "(w > MDL_PROTO_MAX_PAYLOAD) = (unat w > 32768)"
  by (simp add: MDL_PROTO_MAX_PAYLOAD_def word_less_nat_alt)

lemmas rx_defs = mdl_proto_rx_byte_def rx_magic_def rx_cmd_def rx_len_def rx_payload_def rx_crc_def
  reset_parser_def Let_def

lemma proto_ok_init: "proto_ok proto_init"
  by (simp add: proto_ok_def proto_init_def)

lemma less_4_cases: "n < (4::nat) \<Longrightarrow> n = 0 \<or> n = 1 \<or> n = 2 \<or> n = 3"
  by auto

lemma length_4_exists: "length xs = (4::nat) \<Longrightarrow> \<exists>a b c d. xs = [a, b, c, d]"
  by (auto simp: numeral_eq_Suc length_Suc_conv)

lemma rx_magic_ok:
  assumes "proto_ok p" "s_state p = RX_MAGIC"
  shows "proto_ok (fst (rx_magic b p))"
proof -
  obtain x0 x1 x2 x3 where buf: "s_magic_buf p = [x0, x1, x2, x3]"
    using assms length_4_exists unfolding proto_ok_def by blast
  have "s_field_pos p < 4" using assms by (simp add: proto_ok_def)
  from less_4_cases [OF this] show ?thesis
    using assms buf
    by (elim disjE) (auto simp: proto_ok_def rx_magic_def Let_def magic_bytes_eq)
qed

lemma rx_len_ok: "proto_ok p \<Longrightarrow> s_state p = RX_LEN \<Longrightarrow> proto_ok (rx_len b p)"
  by (auto simp: proto_ok_def rx_len_def Let_def reset_parser_def max_payload_nat
        word_gt_0 unat_gt_0)

lemma rx_payload_ok: "proto_ok p \<Longrightarrow> s_state p = RX_PAYLOAD \<Longrightarrow> proto_ok (rx_payload b p)"
  by (auto simp: proto_ok_def rx_payload_def Let_def)

lemma rx_crc_ok: "proto_ok p \<Longrightarrow> s_state p = RX_CRC \<Longrightarrow> proto_ok (rx_crc b p)"
  by (auto simp: proto_ok_def rx_crc_def Let_def reset_parser_def)

lemma rx_cmd_ok: "proto_ok p \<Longrightarrow> s_state p = RX_CMD \<Longrightarrow> proto_ok (rx_cmd b p)"
  by (simp add: proto_ok_def rx_cmd_def)

lemma rx_byte_ok: "proto_ok p \<Longrightarrow> proto_ok (fst (mdl_proto_rx_byte b p))"
  by (cases "s_state p")
    (simp_all add: mdl_proto_rx_byte_def rx_magic_ok rx_cmd_ok rx_len_ok rx_payload_ok rx_crc_ok)

lemma rx_bytes_Cons:
  "fst (rx_bytes (b # bs) p) = fst (rx_bytes bs (fst (mdl_proto_rx_byte b p)))"
  "snd (rx_bytes (b # bs) p) =
     snd (mdl_proto_rx_byte b p) @ snd (rx_bytes bs (fst (mdl_proto_rx_byte b p)))"
  by (simp_all add: case_prod_unfold Let_def)

lemma rx_bytes_append:
  "fst (rx_bytes (as @ bs) p) = fst (rx_bytes bs (fst (rx_bytes as p)))"
  "snd (rx_bytes (as @ bs) p) = snd (rx_bytes as p) @ snd (rx_bytes bs (fst (rx_bytes as p)))"
  by (induction as arbitrary: p) (simp_all add: rx_bytes_Cons del: rx_bytes.simps(2))

declare rx_bytes.simps(2) [simp del]
declare rx_bytes_Cons [simp]

lemma rx_bytes_ok: "proto_ok p \<Longrightarrow> proto_ok (fst (rx_bytes bs p))"
  by (induction bs arbitrary: p) (simp_all add: rx_byte_ok)

section \<open>Frames\<close>

text \<open>A frame on the wire, with the checksum it carries.\<close>

definition wire_frame :: "u8 \<Rightarrow> u8 list \<Rightarrow> u32 \<Rightarrow> u8 list" where
  "wire_frame c payload crc =
     magic_bytes @ c # le32_bytes (of_nat (length payload)) @ payload @ le32_bytes crc"

definition frame_crc :: "u8 \<Rightarrow> u8 list \<Rightarrow> u32" where
  "frame_crc c payload = mdl_crc32 (c # le32_bytes (of_nat (length payload)) @ payload)"

text \<open>The parser after a frame whose checksum did, or did not, agree.\<close>

definition accepted :: "u8 \<Rightarrow> u8 list \<Rightarrow> proto \<Rightarrow> proto \<Rightarrow> bool" where
  "accepted c payload p p' \<longleftrightarrow>
     s_state p' = RX_MAGIC \<and> s_field_pos p' = 0 \<and> s_frame_ready p' \<and> s_ready_cmd p' = c \<and>
     s_ready_len p' = of_nat (length payload) \<and>
     payload_bytes p' (s_ready_len p') = payload \<and>
     s_notified p' = s_notified p + (if s_handle p then 1 else 0)"

definition rejected :: "proto \<Rightarrow> proto \<Rightarrow> bool" where
  "rejected p p' \<longleftrightarrow>
     s_state p' = RX_MAGIC \<and> s_field_pos p' = 0 \<and> s_frame_ready p' = s_frame_ready p \<and>
     s_ready_cmd p' = s_ready_cmd p \<and> s_ready_len p' = s_ready_len p \<and> s_notified p' = s_notified p"

lemma rx_magic_frame_start:
  assumes "proto_ok p" "s_state p = RX_MAGIC"
  shows "rx_bytes magic_bytes p = (p\<lparr>s_magic_buf := magic_bytes, s_state := RX_CMD, s_field_pos := 0\<rparr>, held p)"
proof -
  obtain x0 x1 x2 x3 where buf: "s_magic_buf p = [x0, x1, x2, x3]"
    using assms length_4_exists unfolding proto_ok_def by blast
  have "s_field_pos p < 4" using assms by (simp add: proto_ok_def)
  from less_4_cases [OF this] show ?thesis
    using assms buf
    by (elim disjE) (simp_all add: rx_bytes.simps(2) mdl_proto_rx_byte_def rx_magic_def Let_def
        magic_bytes_eq held_def proto_ok_def)
qed

lemma rx_header:
  assumes "s_state p = RX_CMD" "length (s_len_buf p) = 4"
  shows "rx_bytes (c # le32_bytes n) p =
     (p\<lparr>s_cmd := c, s_len_buf := le32_bytes n, s_len := n, s_field_pos := 0,
        s_state := (if n > MDL_PROTO_MAX_PAYLOAD then RX_MAGIC
                    else if n > 0 then RX_PAYLOAD else RX_CRC)\<rparr>, [])"
proof -
  obtain x0 x1 x2 x3 where buf: "s_len_buf p = [x0, x1, x2, x3]"
    using assms length_4_exists by blast
  show ?thesis
    using assms buf
    by (simp add: rx_bytes.simps(2) le32_bytes_def mdl_proto_rx_byte_def rx_cmd_def rx_len_def
        reset_parser_def Let_def)
qed

lemma mem_write_Cons: "mem_write d (b # bs) m = mem_write (Suc d) bs (m(d := b))"
  by (rule ext) (auto simp: mem_write_def nth_Cons')

lemma mem_write_Nil [simp]: "mem_write d [] m = m"
  by (rule ext) (auto simp: mem_write_def)

lemma rx_payload_run:
  "bs \<noteq> [] \<Longrightarrow> s_state p = RX_PAYLOAD \<Longrightarrow> s_field_pos p + length bs = unat (s_len p) \<Longrightarrow>
   rx_bytes bs p =
     (p\<lparr>s_payload := mem_write (s_field_pos p) bs (s_payload p), s_field_pos := 0,
        s_state := RX_CRC\<rparr>, [])"
proof (induction bs arbitrary: p)
  case (Cons b bs)
  show ?case
  proof (cases "bs = []")
    case True
    with Cons.prems show ?thesis
      by (simp add: rx_bytes.simps(2) mdl_proto_rx_byte_def rx_payload_def Let_def mem_write_Cons
          fun_upd_def)
  next
    case False
    with Cons.prems have "s_field_pos p + 1 \<noteq> unat (s_len p)" by (cases bs) auto
    with Cons.prems False show ?thesis
      by (simp add: rx_bytes.simps(2) mdl_proto_rx_byte_def rx_payload_def Let_def
          Cons.IH mem_write_Cons fun_upd_def)
  qed
qed simp

lemma rx_checksum:
  assumes "s_state p = RX_CRC" "s_field_pos p = 0" "length (s_crc_buf p) = 4"
    and "s_len_buf p = le32_bytes n" "s_len p = n"
  shows "rx_bytes (le32_bytes k) p =
     (let q = p\<lparr>s_crc_buf := le32_bytes k, s_state := RX_MAGIC, s_field_pos := 0\<rparr>
      in if mdl_crc32 (s_cmd p # le32_bytes n @ payload_bytes p n) = k
         then q\<lparr>s_ready_cmd := s_cmd p, s_ready_len := n, s_frame_ready := True,
                s_notified := s_notified p + (if s_handle p then 1 else 0)\<rparr>
         else q, [])"
proof -
  obtain x0 x1 x2 x3 where buf: "s_crc_buf p = [x0, x1, x2, x3]"
    using assms length_4_exists by blast
  have hdr: "[s_cmd p, le32_bytes n ! 0, le32_bytes n ! 1, le32_bytes n ! 2, le32_bytes n ! 3]
      = s_cmd p # le32_bytes n"
    by (simp add: le32_bytes_def)
  show ?thesis
    using assms buf hdr
    by (simp add: rx_bytes.simps(2) le32_bytes_def [of k] mdl_proto_rx_byte_def rx_crc_def
        reset_parser_def Let_def mdl_crc32_2_def mdl_crc32_def crc32_update_append payload_bytes_def)
qed

lemma map_mem_write [simp]: "map (mem_write 0 bs m) [0 ..< length bs] = bs"
  by (auto simp: mem_write_def intro: nth_equalityI)

lemma unat_length_small: "length bs \<le> 32768 \<Longrightarrow> unat (of_nat (length bs) :: u32) = length bs"
  by (simp add: unat_of_nat)

lemma rx_frame:
  fixes c :: u8 and crc :: u32
  assumes ok: "proto_ok p" "s_state p = RX_MAGIC" and len: "length payload \<le> 32768"
  defines "r \<equiv> rx_bytes (wire_frame c payload crc) p"
  shows "snd r = held p"
    and "crc = frame_crc c payload \<Longrightarrow> accepted c payload p (fst r)"
    and "crc \<noteq> frame_crc c payload \<Longrightarrow> rejected p (fst r)"
proof -
  let ?n = "of_nat (length payload) :: u32"
  let ?q = "p\<lparr>s_magic_buf := magic_bytes, s_state := RX_CMD, s_field_pos := 0, s_cmd := c,
    s_len_buf := le32_bytes ?n, s_len := ?n, s_state := RX_CRC,
    s_payload := mem_write 0 payload (s_payload p)\<rparr>"
  have n: "unat ?n = length payload" using len by (rule unat_length_small)
  have small: "\<not> ?n > MDL_PROTO_MAX_PAYLOAD" using len n by (simp add: max_payload_nat)
  have bufs: "length (s_len_buf p) = 4" "length (s_crc_buf p) = 4" using ok by (simp_all add: proto_ok_def)
  have "rx_bytes ((c # le32_bytes ?n) @ payload) (fst (rx_bytes magic_bytes p)) = (?q, [])"
  proof (cases "payload = []")
    case True
    then show ?thesis
      by (simp add: rx_magic_frame_start [OF ok] rx_header bufs)
  next
    case False
    then have "0 < ?n" using n by (simp add: word_gt_0 unat_eq_0 [symmetric])
    with False small n show ?thesis
      by (intro prod_eqI) (simp_all only: rx_bytes_append, simp_all add: rx_magic_frame_start [OF ok] rx_header bufs
          rx_payload_run del: rx_bytes_Cons)
  qed
  then have hd: "fst (rx_bytes (magic_bytes @ (c # le32_bytes ?n) @ payload) p) = ?q"
    "snd (rx_bytes (magic_bytes @ (c # le32_bytes ?n) @ payload) p) = held p"
    by (simp_all only: rx_bytes_append) (simp_all add: rx_magic_frame_start [OF ok])
  have wf: "wire_frame c payload crc = (magic_bytes @ (c # le32_bytes ?n) @ payload) @ le32_bytes crc"
    by (simp add: wire_frame_def)
  have chk: "rx_bytes (le32_bytes crc) ?q =
     (let q = ?q\<lparr>s_crc_buf := le32_bytes crc, s_state := RX_MAGIC, s_field_pos := 0\<rparr>
      in if frame_crc c payload = crc
         then q\<lparr>s_ready_cmd := c, s_ready_len := ?n, s_frame_ready := True,
                s_notified := s_notified p + (if s_handle p then 1 else 0)\<rparr>
         else q, [])"
    using bufs n by (subst rx_checksum [where n = ?n])
      (simp_all add: frame_crc_def payload_bytes_def Let_def)
  note app = rx_bytes_append [of "magic_bytes @ (c # le32_bytes ?n) @ payload" "le32_bytes crc" p]
  show "snd r = held p" unfolding r_def wf app hd chk by simp
  show "crc = frame_crc c payload \<Longrightarrow> accepted c payload p (fst r)"
    unfolding r_def wf app hd chk using n
    by (simp add: accepted_def Let_def payload_bytes_def)
  show "crc \<noteq> frame_crc c payload \<Longrightarrow> rejected p (fst r)"
    unfolding r_def wf app hd chk by (simp add: rejected_def Let_def)
qed

lemma send_response_wire:
  assumes "length payload \<le> 32768"
  shows "concat (mdl_proto_send_response c payload (of_nat (length payload))) =
    wire_frame c payload (frame_crc c payload)"
  using unat_length_small [OF assms] assms
  by (auto simp: mdl_proto_send_response_def wire_frame_def frame_crc_def mdl_crc32_2_def mdl_crc32_def
      crc32_update_append Let_def magic_bytes_def word_gt_0 of_nat_eq_0_iff)

section \<open>Text\<close>

lemma rx_magic_text:
  fixes b :: u8
  assumes "proto_ok p" "s_state p = RX_MAGIC"
  defines "r \<equiv> mdl_proto_rx_byte b p"
  shows "snd r @ (if s_state (fst r) = RX_CMD then magic_bytes else held (fst r)) = held p @ [b]"
    and "s_state (fst r) = RX_MAGIC \<or> s_state (fst r) = RX_CMD"
    and "s_frame_ready (fst r) = s_frame_ready p"
proof -
  obtain x0 x1 x2 x3 where buf: "s_magic_buf p = [x0, x1, x2, x3]"
    using assms length_4_exists unfolding proto_ok_def by blast
  have pos: "s_field_pos p < 4" using assms by (simp add: proto_ok_def)
  from less_4_cases [OF pos]
  show "snd r @ (if s_state (fst r) = RX_CMD then magic_bytes else held (fst r)) = held p @ [b]"
    using assms buf
    by (elim disjE) (simp_all add: r_def mdl_proto_rx_byte_def rx_magic_def Let_def
        magic_bytes_eq held_def proto_ok_def)
  show "s_state (fst r) = RX_MAGIC \<or> s_state (fst r) = RX_CMD"
    and "s_frame_ready (fst r) = s_frame_ready p"
    using assms by (simp_all add: r_def mdl_proto_rx_byte_def rx_magic_def Let_def)
qed

lemma rx_text:
  "proto_ok p \<Longrightarrow> s_state p = RX_MAGIC \<Longrightarrow> \<not> sublist magic_bytes (held p @ bs) \<Longrightarrow>
   s_state (fst (rx_bytes bs p)) = RX_MAGIC \<and>
   snd (rx_bytes bs p) @ held (fst (rx_bytes bs p)) = held p @ bs \<and>
   s_frame_ready (fst (rx_bytes bs p)) = s_frame_ready p"
proof (induction bs arbitrary: p)
  case (Cons b bs)
  let ?r = "mdl_proto_rx_byte b p"
  have eq: "snd ?r @ (if s_state (fst ?r) = RX_CMD then magic_bytes else held (fst ?r)) @ bs
      = held p @ b # bs"
    using rx_magic_text(1) [OF Cons.prems(1,2), of b]
    by (metis append.assoc append_Cons append_Nil)
  have "s_state (fst ?r) \<noteq> RX_CMD"
  proof
    assume "s_state (fst ?r) = RX_CMD"
    with eq have "held p @ b # bs = snd ?r @ magic_bytes @ bs" by simp
    with Cons.prems(3) show False unfolding sublist_def by blast
  qed
  with rx_magic_text(2) [OF Cons.prems(1,2), of b] have st: "s_state (fst ?r) = RX_MAGIC" by blast
  with eq have eq': "snd ?r @ held (fst ?r) @ bs = held p @ b # bs" by simp
  have "\<not> sublist magic_bytes (held (fst ?r) @ bs)"
  proof
    assume "sublist magic_bytes (held (fst ?r) @ bs)"
    then obtain ps ss where "held (fst ?r) @ bs = ps @ magic_bytes @ ss"
      by (auto simp: sublist_def)
    with eq' have "held p @ b # bs = (snd ?r @ ps) @ magic_bytes @ ss" by simp
    with Cons.prems(3) show False unfolding sublist_def by blast
  qed
  from Cons.IH [OF rx_byte_ok [OF Cons.prems(1)] st this] eq'
    rx_magic_text(3) [OF Cons.prems(1,2), of b]
  show ?case by simp
qed simp

lemma accepted_take:
  "accepted c payload p p' \<Longrightarrow> fst (mdl_proto_take_frame p') = Some (c, payload)"
  by (auto simp: accepted_def mdl_proto_take_frame_def)

lemma accepted_state:
  "accepted c payload p p' \<Longrightarrow> s_state p' = RX_MAGIC \<and>
     s_notified p' = s_notified p + (if s_handle p then 1 else 0)"
  by (auto simp: accepted_def)

section \<open>Properties\<close>

text \<open>C30: the receiver undoes the sender. A response with any command byte and any payload the
  receive buffer can hold, written by \<open>mdl_proto_send_response\<close> and fed byte by byte to a parser
  waiting for a frame, leaves exactly that command and payload in the mailbox, notifies the
  supervisor once, and gives the console only the bytes that were held back before the frame.\<close>

theorem proto_roundtrip:
  assumes "proto_ok p" and "s_state p = RX_MAGIC" and "length payload \<le> 32768"
  shows "let (p', out) = rx_bytes (concat (mdl_proto_send_response c payload (of_nat (length payload)))) p
     in fst (mdl_proto_take_frame p') = Some (c, payload) \<and> out = held p \<and>
        s_state p' = RX_MAGIC \<and> s_notified p' = s_notified p + (if s_handle p then 1 else 0)"
  using rx_frame(1) [OF assms, of c "frame_crc c payload"] rx_frame(2) [OF assms refl, of c]
  by (simp add: send_response_wire [OF assms(3)] case_prod_unfold accepted_take accepted_state)

theorem proto_roundtrip_witness:
  "let (p', out) = rx_bytes (concat (mdl_proto_send_response 3 [1, 2] (of_nat (length [1, 2 :: u8])))) proto_init
     in fst (mdl_proto_take_frame p') = Some (3, [1, 2]) \<and> out = held proto_init \<and>
        s_state p' = RX_MAGIC \<and>
        s_notified p' = s_notified proto_init + (if s_handle proto_init then 1 else 0)"
  by (rule proto_roundtrip [OF proto_ok_init]) (simp_all add: proto_init_def)

text \<open>C31: text and frames share one pipe without loss. Any text that does not contain the four
  magic bytes, followed by a frame, reaches the console byte for byte and in order, and the frame
  still arrives whole, even when the text ends in a prefix of the magic.\<close>

theorem proto_demux:
  assumes "proto_ok p" and "s_state p = RX_MAGIC" and "s_field_pos p = 0"
    and "\<not> sublist magic_bytes chars" and "length payload \<le> 32768"
  shows "let (p', out) = rx_bytes (chars @ concat (mdl_proto_send_response c payload (of_nat (length payload)))) p
     in out = chars \<and> fst (mdl_proto_take_frame p') = Some (c, payload)"
proof -
  let ?p1 = "fst (rx_bytes chars p)"
  have h: "held p = []" using assms by (simp add: held_def)
  from rx_text [OF assms(1,2), of chars] assms(4) h
  have st: "s_state ?p1 = RX_MAGIC" and out: "snd (rx_bytes chars p) @ held ?p1 = chars" by simp_all
  have ok: "proto_ok ?p1" using assms(1) by (rule rx_bytes_ok)
  from rx_frame(1) [OF ok st assms(5), of c "frame_crc c payload"]
    rx_frame(2) [OF ok st assms(5) refl, of c] out
  show ?thesis
    by (simp add: case_prod_unfold rx_bytes_append send_response_wire [OF assms(5)] accepted_take)
qed

theorem proto_demux_witness:
  "let (p', out) = rx_bytes ([0x68, 0x4D, 0x44, 0x4C] @
       concat (mdl_proto_send_response 1 [7] (of_nat (length [7 :: u8])))) proto_init
     in out = [0x68, 0x4D, 0x44, 0x4C] \<and> fst (mdl_proto_take_frame p') = Some (1, [7])"
  by (rule proto_demux [OF proto_ok_init])
    (simp_all add: proto_init_def magic_bytes_eq sublist_code)

text \<open>A frame damaged in one byte of its command or payload is never delivered: the mailbox and
  the supervisor's wake count stay as they were, and the parser is back in text mode.\<close>

theorem proto_corrupt_rejected:
  assumes "proto_ok p" and "s_state p = RX_MAGIC" and "length (pre @ x # post) \<le> 32768" and "x \<noteq> y"
  shows "rejected p (fst (rx_bytes (wire_frame c (pre @ y # post) (frame_crc c (pre @ x # post))) p)) \<and>
    rejected p (fst (rx_bytes (wire_frame y (pre @ x # post) (frame_crc x (pre @ x # post))) p))"
proof

  have "frame_crc c (pre @ y # post) \<noteq> frame_crc c (pre @ x # post)"
    using mdl_crc32_one_byte [OF assms(4) [symmetric],
        of "c # le32_bytes (of_nat (length (pre @ x # post))) @ pre" post]
    by (simp add: frame_crc_def)
  moreover have "length (pre @ y # post) \<le> 32768" using assms(3) by simp
  ultimately show "rejected p (fst (rx_bytes (wire_frame c (pre @ y # post) (frame_crc c (pre @ x # post))) p))"
    using rx_frame(3) [OF assms(1,2)] by metis
  have "frame_crc y (pre @ x # post) \<noteq> frame_crc x (pre @ x # post)"
    using mdl_crc32_one_byte [OF assms(4) [symmetric], of "[]"] by (simp add: frame_crc_def)
  then show "rejected p (fst (rx_bytes (wire_frame y (pre @ x # post) (frame_crc x (pre @ x # post))) p))"
    using rx_frame(3) [OF assms(1,2,3)] by metis
qed

theorem proto_corrupt_rejected_witness:
  "rejected proto_init (fst (rx_bytes (wire_frame 1 ([5] @ 9 # []) (frame_crc 1 ([5] @ 6 # []))) proto_init))"
  by (rule proto_corrupt_rejected [OF proto_ok_init, THEN conjunct1]) (simp_all add: proto_init_def)

text \<open>Whatever arrives, the parser never indexes outside its buffers, and a length field above
  \<open>MDL_PROTO_MAX_PAYLOAD\<close> is never acted on.\<close>

theorem proto_rx_bounds:
  "let p = fst (rx_bytes bs proto_init)
   in case s_state p of
        RX_CMD \<Rightarrow> True
      | RX_PAYLOAD \<Rightarrow> s_field_pos p < unat (s_len p) \<and> unat (s_len p) \<le> unat MDL_PROTO_MAX_PAYLOAD
      | RX_CRC \<Rightarrow> s_field_pos p < length (s_crc_buf p) \<and> unat (s_len p) \<le> unat MDL_PROTO_MAX_PAYLOAD
      | RX_LEN \<Rightarrow> s_field_pos p < length (s_len_buf p)
      | RX_MAGIC \<Rightarrow> s_field_pos p < length (s_magic_buf p)"
  using rx_bytes_ok [OF proto_ok_init, of bs]
  by (simp add: Let_def proto_ok_def MDL_PROTO_MAX_PAYLOAD_def split: rx_state.splits)

text \<open>The mailbox does not protect its payload. When a frame has been accepted and not yet
  taken, the first payload byte of the next frame already changes what
  \<open>mdl_proto_take_frame\<close> returns, long before that next frame completes.\<close>

theorem proto_pending_payload_overwritten:
  "let p1 = fst (rx_bytes (wire_frame 1 [10] (frame_crc 1 [10])) proto_init);
       p2 = fst (rx_bytes (magic_bytes @ 1 # le32_bytes 2 @ [99]) p1)
   in fst (mdl_proto_take_frame p1) = Some (1, [10]) \<and>
      s_state p2 = RX_PAYLOAD \<and> fst (mdl_proto_take_frame p2) = Some (1, [99])"
proof -
  let ?p1 = "fst (rx_bytes (wire_frame 1 [10] (frame_crc 1 [10])) proto_init)"
  have ok: "proto_ok ?p1" by (rule rx_bytes_ok [OF proto_ok_init])
  have acc: "accepted 1 [10] proto_init ?p1"
    by (rule rx_frame(2) [OF proto_ok_init]) (simp_all add: proto_init_def)
  then have st: "s_state ?p1 = RX_MAGIC" by (simp add: accepted_def)
  have bufs: "length (s_len_buf ?p1) = 4" using ok by (simp add: proto_ok_def)
  have "fst (rx_bytes (magic_bytes @ 1 # le32_bytes 2 @ [99]) ?p1) =
      fst (rx_bytes [99] (fst (rx_bytes (1 # le32_bytes 2) (fst (rx_bytes magic_bytes ?p1)))))"
    by (simp only: rx_bytes_append append_Cons [symmetric] append_assoc [symmetric])
  also have "\<dots> = ?p1\<lparr>s_magic_buf := magic_bytes, s_cmd := 1, s_len_buf := le32_bytes 2, s_len := 2,
      s_payload := (s_payload ?p1)(0 := 99), s_state := RX_PAYLOAD, s_field_pos := 1\<rparr>"
    using bufs
    by (simp add: rx_magic_frame_start [OF ok st] rx_header max_payload_nat mdl_proto_rx_byte_def
        rx_payload_def Let_def)
  finally show ?thesis
    using acc accepted_take [OF acc]
    by (simp add: Let_def accepted_def mdl_proto_take_frame_def payload_bytes_def)
qed

end
