(* ===== verification/Usb_Cdc.thy ===== *)
theory Usb_Cdc
  imports Protocol
begin

text \<open>
  \<open>src/mdl/transport/usb_cdc.c\<close>: the USB serial port under the console and the frames. Writes from the supervisor and from the
  receiving task share the port through a mutex; the vendor's USB stack is a parameter: whether the \<open>k\<close>-th call of
  \<open>usb_vcp_send_data\<close> with these bytes is accepted.
\<close>

section \<open>State\<close>

datatype cdc_op = NvicGroup | UsbPins | OtgClock | UsbClock | CreateMutex | OtgIrq | UsbdInit

record cdc =
  s_tx_lock :: bool
  tx_held :: bool
  s_host_opened_port :: bool
  usb_configured :: bool
  cdc_ops :: "cdc_op list"
  cdc_tries :: nat
  cdc_sent :: "u8 list list"

type_synonym sender = "nat \<Rightarrow> u8 list \<Rightarrow> bool"

text \<open>How often the busy-wait counts, on 32 bits.\<close>

definition usb_delay_us :: "u32 \<Rightarrow> u32 \<Rightarrow> u32" where
  "usb_delay_us clock us = (clock div 1000000) * us div 4"

text \<open>\<open>usb_delay_ms\<close>: the rounds of all its calls.\<close>

fun usb_delay_ms :: "u32 \<Rightarrow> nat \<Rightarrow> u32 list" where
  "usb_delay_ms clock 0 = []"
| "usb_delay_ms clock (Suc ms) = usb_delay_us clock 1000 # usb_delay_ms clock ms"

section \<open>The link\<close>

definition usb_usart_config :: "cdc \<Rightarrow> cdc" where
  "usb_usart_config s = s\<lparr>s_host_opened_port := True\<rparr>"

definition usb_cdc_link_up :: "cdc \<Rightarrow> bool" where
  "usb_cdc_link_up s = usb_configured s"

definition usb_cdc_take_host_open_event :: "cdc \<Rightarrow> bool \<times> cdc" where
  "usb_cdc_take_host_open_event s =
     (if \<not> s_host_opened_port s then (False, s) else (True, s\<lparr>s_host_opened_port := False\<rparr>))"

text \<open>The mutex may not be there: then the assertion stops the board.\<close>

definition usb_cdc_init :: "bool \<Rightarrow> cdc \<Rightarrow> cdc option" where
  "usb_cdc_init created s = (let s1 = s\<lparr>cdc_ops := cdc_ops s @ [NvicGroup, UsbPins, OtgClock, UsbClock, CreateMutex], s_tx_lock := created\<rparr>
     in if \<not> created then None else Some (s1\<lparr>cdc_ops := cdc_ops s1 @ [OtgIrq, UsbdInit]\<rparr>))"

section \<open>Writing\<close>

abbreviation TX_RETRIES :: nat where "TX_RETRIES \<equiv> 50000"

text \<open>The retry loop. Lengths are cut to 16 bits.\<close>

fun send_retry :: "sender \<Rightarrow> u8 list \<Rightarrow> nat \<Rightarrow> cdc \<Rightarrow> cdc" where
  "send_retry snd_data bs 0 s = s"
| "send_retry snd_data bs (Suc n) s =
     (let s1 = s\<lparr>cdc_tries := Suc (cdc_tries s)\<rparr> in
      if snd_data (cdc_tries s) bs then s1\<lparr>cdc_sent := cdc_sent s1 @ [bs]\<rparr> else send_retry snd_data bs n s1)"

definition cdc_transport_write :: "sender \<Rightarrow> u8 list \<Rightarrow> cdc \<Rightarrow> cdc" where
  "cdc_transport_write snd_data bs s =
     (if bs = [] then s
      else let s1 = (if s_tx_lock s then s\<lparr>tx_held := True\<rparr> else s);
               s2 = send_retry snd_data (take (length bs mod 2 ^ 16) bs) TX_RETRIES s1
           in if s_tx_lock s then s2\<lparr>tx_held := False\<rparr> else s2)"

lemma send_retry_outcome:
  "(\<exists>k < n. snd_data (cdc_tries s + k) bs \<and> (\<forall>j < k. \<not> snd_data (cdc_tries s + j) bs)
      \<and> send_retry snd_data bs n s = s\<lparr>cdc_tries := cdc_tries s + Suc k, cdc_sent := cdc_sent s @ [bs]\<rparr>)
   \<or> ((\<forall>j < n. \<not> snd_data (cdc_tries s + j) bs) \<and> send_retry snd_data bs n s = s\<lparr>cdc_tries := cdc_tries s + n\<rparr>)"
proof (induction n arbitrary: s)
  case (Suc n)
  let ?s1 = "s\<lparr>cdc_tries := Suc (cdc_tries s)\<rparr>"
  show ?case
  proof (cases "snd_data (cdc_tries s) bs")
    case True
    then show ?thesis by (intro disjI1 exI [of _ 0]) simp
  next
    case False
    have less: "(\<forall>j < Suc k. \<not> snd_data (cdc_tries s + j) bs) \<longleftrightarrow> (\<forall>j < k. \<not> snd_data (cdc_tries ?s1 + j) bs)" for k
      using False by (auto simp: less_Suc_eq_0_disj)
    from Suc.IH [of ?s1] show ?thesis
    proof
      assume "\<exists>k < n. snd_data (cdc_tries ?s1 + k) bs \<and> (\<forall>j < k. \<not> snd_data (cdc_tries ?s1 + j) bs)
        \<and> send_retry snd_data bs n ?s1 = ?s1\<lparr>cdc_tries := cdc_tries ?s1 + Suc k, cdc_sent := cdc_sent ?s1 @ [bs]\<rparr>"
      then obtain k where k: "k < n" "snd_data (cdc_tries ?s1 + k) bs" "\<forall>j < k. \<not> snd_data (cdc_tries ?s1 + j) bs"
        "send_retry snd_data bs n ?s1 = ?s1\<lparr>cdc_tries := cdc_tries ?s1 + Suc k, cdc_sent := cdc_sent ?s1 @ [bs]\<rparr>" by blast
      then show ?thesis using False less [of k] by (intro disjI1 exI [of _ "Suc k"]) simp
    next
      assume "(\<forall>j < n. \<not> snd_data (cdc_tries ?s1 + j) bs) \<and> send_retry snd_data bs n ?s1 = ?s1\<lparr>cdc_tries := cdc_tries ?s1 + n\<rparr>"
      then show ?thesis using False less [of n] by (intro disjI2) simp
    qed
  qed
qed simp

text \<open>A write ends: after at most 50000 calls of the USB stack it returns with the mutex free, and the bytes either went out
  once, in one piece, at the first call that took them, or were dropped because no call did. What was sent before stays.\<close>

theorem transport_write_ends:
  assumes "bs \<noteq> []" "length bs < 2 ^ 16" "\<not> tx_held s"
  shows "\<exists>k \<le> TX_RETRIES. cdc_tries (cdc_transport_write snd_data bs s) = cdc_tries s + k \<and> \<not> tx_held (cdc_transport_write snd_data bs s)
    \<and> (if \<exists>j < TX_RETRIES. snd_data (cdc_tries s + j) bs
       then 0 < k \<and> snd_data (cdc_tries s + (k - 1)) bs \<and> cdc_sent (cdc_transport_write snd_data bs s) = cdc_sent s @ [bs]
       else k = TX_RETRIES \<and> cdc_sent (cdc_transport_write snd_data bs s) = cdc_sent s)"
proof -
  define s1 where "s1 = (if s_tx_lock s then s\<lparr>tx_held := True\<rparr> else s)"
  have f: "cdc_tries s1 = cdc_tries s" "cdc_sent s1 = cdc_sent s" "\<not> s_tx_lock s \<Longrightarrow> \<not> tx_held s1" using assms(3) by (simp_all add: s1_def)
  have len: "length bs mod 2 ^ 16 = length bs" using assms(2) by simp
  have w: "cdc_transport_write snd_data bs s = (let s2 = send_retry snd_data bs TX_RETRIES s1 in if s_tx_lock s then s2\<lparr>tx_held := False\<rparr> else s2)"
    using assms(1) unfolding cdc_transport_write_def len s1_def Let_def by simp
  from send_retry_outcome [of TX_RETRIES snd_data s1 bs] show ?thesis
  proof
    assume "\<exists>k < TX_RETRIES. snd_data (cdc_tries s1 + k) bs \<and> (\<forall>j < k. \<not> snd_data (cdc_tries s1 + j) bs)
      \<and> send_retry snd_data bs TX_RETRIES s1 = s1\<lparr>cdc_tries := cdc_tries s1 + Suc k, cdc_sent := cdc_sent s1 @ [bs]\<rparr>"
    then obtain k where k: "k < TX_RETRIES" "snd_data (cdc_tries s + k) bs"
      "send_retry snd_data bs TX_RETRIES s1 = s1\<lparr>cdc_tries := cdc_tries s + Suc k, cdc_sent := cdc_sent s @ [bs]\<rparr>" unfolding f by blast
    then have "\<exists>j < TX_RETRIES. snd_data (cdc_tries s + j) bs" by blast
    then show ?thesis using k f(3) by (intro exI [of _ "Suc k"]) (simp add: w Let_def)
  next
    assume a: "(\<forall>j < TX_RETRIES. \<not> snd_data (cdc_tries s1 + j) bs)
      \<and> send_retry snd_data bs TX_RETRIES s1 = s1\<lparr>cdc_tries := cdc_tries s1 + TX_RETRIES\<rparr>"
    then have "\<not> (\<exists>j < TX_RETRIES. snd_data (cdc_tries s + j) bs)" unfolding f by blast
    then show ?thesis using a f by (intro exI [of _ TX_RETRIES]) (simp add: w Let_def)
  qed
qed

theorem transport_write_ends_witness:
  "cdc_sent (cdc_transport_write (\<lambda>k _. 2 \<le> k) [0x41] \<lparr>s_tx_lock = True, tx_held = False, s_host_opened_port = False, usb_configured = True,
     cdc_ops = [], cdc_tries = 0, cdc_sent = []\<rparr>) = [[0x41]]"
proof -
  let ?s = "\<lparr>s_tx_lock = True, tx_held = False, s_host_opened_port = False, usb_configured = True, cdc_ops = [], cdc_tries = 0, cdc_sent = []\<rparr>"
  have "\<exists>j < TX_RETRIES. 2 \<le> cdc_tries ?s + j" by (intro exI [of _ 2]) simp
  then show ?thesis using transport_write_ends [of "[0x41]" ?s "\<lambda>k _. 2 \<le> k"] by auto
qed

section \<open>Several writers\<close>

text \<open>Tasks that write at the same time, each at its place in \<open>mdl_transport_write\<close>; \<open>owner\<close> is the mutex.\<close>

datatype writer = Away | Wants "u8 list" | Sending "u8 list" nat | Giving

record port =
  writers :: "nat \<Rightarrow> writer"
  owner :: "nat option"
  calls :: nat
  wire :: "(nat \<times> u8 list) list"

inductive tx_step :: "sender \<Rightarrow> port \<Rightarrow> port \<Rightarrow> bool" for snd_data where
  enter: "writers p t = Away \<Longrightarrow> bs \<noteq> [] \<Longrightarrow> tx_step snd_data p (p\<lparr>writers := (writers p)(t := Wants bs)\<rparr>)"
| take_lock: "writers p t = Wants bs \<Longrightarrow> owner p = None \<Longrightarrow>
    tx_step snd_data p (p\<lparr>writers := (writers p)(t := Sending bs TX_RETRIES), owner := Some t\<rparr>)"
| retry: "writers p t = Sending bs (Suc n) \<Longrightarrow> \<not> snd_data (calls p) bs \<Longrightarrow>
    tx_step snd_data p (p\<lparr>writers := (writers p)(t := Sending bs n), calls := Suc (calls p)\<rparr>)"
| sent: "writers p t = Sending bs (Suc n) \<Longrightarrow> snd_data (calls p) bs \<Longrightarrow>
    tx_step snd_data p (p\<lparr>writers := (writers p)(t := Giving), calls := Suc (calls p), wire := wire p @ [(t, bs)]\<rparr>)"
| give_up: "writers p t = Sending bs 0 \<Longrightarrow> tx_step snd_data p (p\<lparr>writers := (writers p)(t := Giving)\<rparr>)"
| give_lock: "writers p t = Giving \<Longrightarrow> tx_step snd_data p (p\<lparr>writers := (writers p)(t := Away), owner := None\<rparr>)"

inductive tx_reach :: "sender \<Rightarrow> port \<Rightarrow> bool" for snd_data where
  tx_start: "tx_reach snd_data \<lparr>writers = \<lambda>_. Away, owner = None, calls = 0, wire = []\<rparr>"
| tx_next: "tx_reach snd_data p \<Longrightarrow> tx_step snd_data p q \<Longrightarrow> tx_reach snd_data q"

fun holds_lock :: "writer \<Rightarrow> bool" where
  "holds_lock (Sending _ _) = True"
| "holds_lock Giving = True"
| "holds_lock _ = False"

lemma reach_owner: "tx_reach snd_data p \<Longrightarrow> holds_lock (writers p t) \<longleftrightarrow> owner p = Some t"
proof (induction arbitrary: t rule: tx_reach.induct)
  case (tx_next p q)
  note IH = tx_next.IH
  from tx_next.hyps(2) show ?case
  proof (cases rule: tx_step.cases)
    case (enter u bs)
    then show ?thesis using IH [of u] IH [of t] by auto
  next
    case (take_lock u bs)
    then show ?thesis using IH [of t] by auto
  next
    case (retry u bs n)
    then show ?thesis using IH [of u] IH [of t] by auto
  next
    case (sent u bs n)
    then show ?thesis using IH [of u] IH [of t] by auto
  next
    case (give_up u bs)
    then show ?thesis using IH [of u] IH [of t] by auto
  next
    case (give_lock u)
    then show ?thesis using IH [of u] IH [of t] by auto
  qed
qed simp

text \<open>C29: Output is never spliced. However the tasks interleave, only the owner of the mutex is inside the retry loop, so the USB
  stack is called by one task at a time; and whoever owns it can always take its next step, with at most 50000 calls left.\<close>

theorem writers_exclusive:
  assumes "tx_reach snd_data p"
  shows "(holds_lock (writers p t) \<and> holds_lock (writers p u) \<longrightarrow> t = u)
    \<and> (owner p = Some t \<longrightarrow> (\<exists>q. tx_step snd_data p q \<and> writers q t \<noteq> writers p t))"
proof -
  have "\<exists>q. tx_step snd_data p q \<and> writers q t \<noteq> writers p t" if "owner p = Some t"
  proof -
    have "holds_lock (writers p t)" using reach_owner [OF assms] that by blast
    then consider (send) bs n where "writers p t = Sending bs n" | (give) "writers p t = Giving" by (cases "writers p t") auto
    then show ?thesis
    proof cases
      case (send bs n)
      show ?thesis
      proof (cases n)
        case 0
        then have "tx_step snd_data p (p\<lparr>writers := (writers p)(t := Giving)\<rparr>)" using send by (auto intro: give_up)
        then show ?thesis using send by (intro exI conjI) auto
      next
        case (Suc m)
        show ?thesis
        proof (cases "snd_data (calls p) bs")
          case True
          have "tx_step snd_data p (p\<lparr>writers := (writers p)(t := Giving), calls := Suc (calls p), wire := wire p @ [(t, bs)]\<rparr>)"
            by (rule sent) (use send Suc True in auto)
          then show ?thesis using send by (intro exI conjI) auto
        next
          case False
          have "tx_step snd_data p (p\<lparr>writers := (writers p)(t := Sending bs m), calls := Suc (calls p)\<rparr>)"
            by (rule retry) (use send Suc False in auto)
          then show ?thesis using send Suc by (intro exI conjI) auto
        qed
      qed
    next
      case give
      then have "tx_step snd_data p (p\<lparr>writers := (writers p)(t := Away), owner := None\<rparr>)" by (rule give_lock)
      then show ?thesis using give by (intro exI conjI) auto
    qed
  qed
  then show ?thesis using reach_owner [OF assms] by auto
qed

theorem writers_exclusive_witness:
  "\<exists>p q. tx_reach (\<lambda>_ _. True) p \<and> writers p 0 = Sending [0x41] TX_RETRIES \<and> writers p 1 = Wants [0x42]
     \<and> tx_step (\<lambda>_ _. True) p q \<and> writers q 0 \<noteq> writers p 0"
proof -
  let ?s = "\<lambda>_ _. True" and ?p0 = "\<lparr>writers = \<lambda>_. Away, owner = None, calls = 0, wire = []\<rparr>"
  let ?p1 = "?p0\<lparr>writers := (writers ?p0)(0 := Wants [0x41])\<rparr>"
  let ?p2 = "?p1\<lparr>writers := (writers ?p1)(1 := Wants [0x42])\<rparr>"
  let ?p3 = "?p2\<lparr>writers := (writers ?p2)(0 := Sending [0x41] TX_RETRIES), owner := Some 0\<rparr>"
  have "tx_reach ?s ?p1" by (rule tx_next [OF tx_start enter]) simp_all
  then have "tx_reach ?s ?p2" by (rule tx_next [OF _ enter]) simp_all
  then have r: "tx_reach ?s ?p3" by (rule tx_next [OF _ take_lock]) simp_all
  have "\<exists>q. tx_step ?s ?p3 q \<and> writers q 0 \<noteq> writers ?p3 0" using writers_exclusive [OF r, of 0 0] by simp
  then obtain q where "tx_step ?s ?p3 q" "writers q 0 \<noteq> writers ?p3 0" by blast
  moreover have "writers ?p3 0 = Sending [0x41] TX_RETRIES" "writers ?p3 1 = Wants [0x42]" by simp_all
  ultimately show ?thesis using r by blast
qed

end
