(* ===== verification/Buddy_Spec.thy ===== *)
theory Buddy_Spec
  imports Mdl_Prelude
begin

text \<open>
  The abstract specification of the arena's buddy allocator: the pool is at
  every moment a \<^emph>\<open>tiling\<close> by blocks \<open>(order, address)\<close>, each naturally
  aligned, pairwise disjoint and together covering the pool. Splitting a block
  and merging two partner halves preserve a tiling; a tiling by free blocks of
  which no two are partners is the whole pool as one block.
\<close>

type_synonym block = "nat \<times> addr"

definition blk :: "block \<Rightarrow> nat set" where
  "blk p = {snd p ..< snd p + 2 ^ fst p}"

lemma blk_pair [simp]: "blk (k, a) = {a ..< a + 2 ^ k}"
  by (simp add: blk_def)

lemma blk_nonempty: "a \<in> blk (k, a)"
  by simp

definition tiling :: "addr \<Rightarrow> block set \<Rightarrow> bool" where
  "tiling base B \<longleftrightarrow>
     (\<forall>(k, a) \<in> B. 10 \<le> k \<and> k \<le> 17 \<and> 2 ^ k dvd a)
     \<and> (\<forall>p \<in> B. \<forall>q \<in> B. p \<noteq> q \<longrightarrow> blk p \<inter> blk q = {})
     \<and> (\<Union> (blk ` B)) = {base ..< base + 2 ^ 17}"

text \<open>The partner half of a block.\<close>

definition partner :: "nat \<Rightarrow> addr \<Rightarrow> addr" where
  "partner k a = (if even (a div 2 ^ k) then a + 2 ^ k else a - 2 ^ k)"

lemma tilingD:
  assumes "tiling base B" "(k, a) \<in> B"
  shows "10 \<le> k" "k \<le> 17" "2 ^ k dvd a" "base \<le> a" "a + 2 ^ k \<le> base + 2 ^ 17"
proof -
  show "10 \<le> k" "k \<le> 17" "2 ^ k dvd a" using assms by (auto simp: tiling_def)
  have sub: "blk (k, a) \<subseteq> {base ..< base + 2 ^ 17}" using assms by (fastforce simp: tiling_def)
  have "0 < (2::nat) ^ k" by simp
  then have "a \<in> blk (k, a)" "a + 2 ^ k - 1 \<in> blk (k, a)" unfolding blk_pair atLeastLessThan_iff by linarith+
  with sub have "a \<in> {base ..< base + 2 ^ 17}" "a + 2 ^ k - 1 \<in> {base ..< base + 2 ^ 17}" by blast+
  then show "base \<le> a" "a + 2 ^ k \<le> base + 2 ^ 17" by auto
qed

lemma tiling_disjoint:
  assumes "tiling base B" "p \<in> B" "q \<in> B" "p \<noteq> q"
  shows "blk p \<inter> blk q = {}"
  using assms unfolding tiling_def by blast

text \<open>Two different blocks of a tiling start at different addresses.\<close>

lemma tiling_inj:
  assumes "tiling base B" "(k, a) \<in> B" "(j, a) \<in> B"
  shows "k = j"
proof (rule ccontr)
  assume "k \<noteq> j"
  then have "blk (k, a) \<inter> blk (j, a) = {}" using tiling_disjoint [OF assms] by blast
  moreover have "a \<in> blk (k, a) \<inter> blk (j, a)" by simp
  ultimately show False by blast
qed

lemma tiling_init: "2 ^ 17 dvd base \<Longrightarrow> tiling base {(17, base)}"
  by (simp add: tiling_def)

text \<open>Replacing a set of blocks by another with the same union keeps the tiling.\<close>

lemma tiling_replace:
  assumes t: "tiling base B" and sub: "X \<subseteq> B"
    and cover: "\<Union> (blk ` Y) = \<Union> (blk ` X)"
    and ok: "\<And>k a. (k, a) \<in> Y \<Longrightarrow> 10 \<le> k \<and> k \<le> 17 \<and> 2 ^ k dvd a"
    and dis: "\<And>p q. p \<in> Y \<Longrightarrow> q \<in> Y \<Longrightarrow> p \<noteq> q \<Longrightarrow> blk p \<inter> blk q = {}"
  shows "tiling base (B - X \<union> Y)"
  unfolding tiling_def
proof (intro conjI ballI impI)
  fix p assume "p \<in> B - X \<union> Y"
  then show "case p of (k, a) \<Rightarrow> 10 \<le> k \<and> k \<le> 17 \<and> 2 ^ k dvd a"
    using ok tilingD [OF t] by (cases p) auto
next
  have xy: "blk p \<inter> blk q = {}" if "p \<in> B - X" "q \<in> Y" for p q
  proof -
    have "blk p \<inter> blk r = {}" if "r \<in> X" for r
      using tiling_disjoint [OF t] that sub \<open>p \<in> B - X\<close> by blast
    then have "blk p \<inter> \<Union> (blk ` X) = {}" by blast
    with cover that(2) show ?thesis by blast
  qed
  fix p q assume "p \<in> B - X \<union> Y" "q \<in> B - X \<union> Y" "p \<noteq> q"
  then consider "p \<in> B - X" "q \<in> B - X" | "p \<in> B - X" "q \<in> Y" | "p \<in> Y" "q \<in> B - X"
    | "p \<in> Y" "q \<in> Y" by blast
  then show "blk p \<inter> blk q = {}"
  proof cases
    case 1 then show ?thesis using tiling_disjoint [OF t] \<open>p \<noteq> q\<close> by blast
  next
    case 2 then show ?thesis using xy by blast
  next
    case 3 then show ?thesis using xy [of q p] by blast
  next
    case 4 then show ?thesis using dis \<open>p \<noteq> q\<close> by blast
  qed
next
  have "\<Union> (blk ` (B - X \<union> Y)) = \<Union> (blk ` (B - X)) \<union> \<Union> (blk ` X)" using cover by auto
  also have "\<dots> = \<Union> (blk ` B)" using sub by blast
  also have "\<dots> = {base ..< base + 2 ^ 17}" using t unfolding tiling_def by blast
  finally show "\<Union> (blk ` (B - X \<union> Y)) = {base ..< base + 2 ^ 17}" .
qed

lemma blk_split: "blk (Suc k, a) = blk (k, a) \<union> blk (k, a + 2 ^ k)"
  by auto

lemma tiling_split:
  assumes t: "tiling base B" and mem: "(Suc k, a) \<in> B" and k: "10 \<le> k"
  shows "tiling base (B - {(Suc k, a)} \<union> {(k, a), (k, a + 2 ^ k)})"
proof (rule tiling_replace [OF t])
  show "\<Union> (blk ` {(k, a), (k, a + 2 ^ k)}) = \<Union> (blk ` {(Suc k, a)})"
    using blk_split [of k a] by auto
  have d: "2 ^ Suc k dvd a" "Suc k \<le> 17" using tilingD [OF t mem] by auto
  then have dk: "2 ^ k dvd a" by (meson dvd_trans le_imp_power_dvd le_SucI order_refl)
  show "10 \<le> k' \<and> k' \<le> 17 \<and> 2 ^ k' dvd a'" if "(k', a') \<in> {(k, a), (k, a + 2 ^ k)}" for k' a'
    using that dk k d(2) by auto
qed (use mem in auto)

lemma partner_mult: "partner k (2 ^ k * q) = 2 ^ k * (if even q then q + 1 else q - 1)"
  by (simp add: partner_def algebra_simps)

lemma partner_dvd [simp]: "2 ^ k dvd a \<Longrightarrow> 2 ^ k dvd partner k a"
  by (elim dvdE) (simp add: partner_mult)

lemma partner_partner [simp]: "2 ^ k dvd a \<Longrightarrow> partner k (partner k a) = a"
  by (elim dvdE) (simp add: partner_mult)

lemma partner_neq: "2 ^ k dvd a \<Longrightarrow> partner k a \<noteq> a"
  by (elim dvdE) (auto simp: partner_mult elim: oddE)

lemma min_partner_aligned:
  assumes "2 ^ k dvd a"
  shows "2 ^ Suc k dvd min a (partner k a)" "max a (partner k a) = min a (partner k a) + 2 ^ k"
proof -
  obtain q where a: "a = 2 ^ k * q" using assms by (auto elim: dvdE)
  have "2 ^ Suc k dvd min a (partner k a) \<and> max a (partner k a) = min a (partner k a) + 2 ^ k"
  proof (cases "even q")
    case True
    then obtain r where "q = 2 * r" by blast
    then show ?thesis using True a by (simp add: partner_def)
  next
    case False
    then obtain r where q: "q = 2 * r + 1" by (elim oddE)
    then have p: "partner k a = 2 ^ k * (2 * r)" using False a
      by (simp add: partner_def algebra_simps)
    have "2 ^ k * (2 * r) \<le> a" using a q by simp
    then have m: "min a (partner k a) = 2 ^ k * (2 * r)" and x: "max a (partner k a) = a"
      using p by auto
    show ?thesis unfolding m x using a q by (simp add: algebra_simps)
  qed
  then show "2 ^ Suc k dvd min a (partner k a)" "max a (partner k a) = min a (partner k a) + 2 ^ k" by auto
qed

lemma tiling_merge:
  assumes t: "tiling base B" and a: "(k, a) \<in> B" and b: "(k, partner k a) \<in> B" and k: "k < 17"
  shows "tiling base (B - {(k, a), (k, partner k a)} \<union> {(Suc k, min a (partner k a))})"
proof (rule tiling_replace [OF t])
  have al: "2 ^ k dvd a" "10 \<le> k" using tilingD [OF t a] by auto
  note mp = min_partner_aligned [OF al(1)]
  have "blk (Suc k, min a (partner k a)) = blk (k, min a (partner k a)) \<union> blk (k, max a (partner k a))"
    using blk_split mp(2) by simp
  also have "\<dots> = blk (k, a) \<union> blk (k, partner k a)" by (auto simp: min_def max_def)
  finally show "\<Union> (blk ` {(Suc k, min a (partner k a))}) = \<Union> (blk ` {(k, a), (k, partner k a)})"
    by auto
  show "10 \<le> k' \<and> k' \<le> 17 \<and> 2 ^ k' dvd a'" if "(k', a') \<in> {(Suc k, min a (partner k a))}" for k' a'
    using that al k mp(1) by auto
qed (use a b in auto)

section \<open>Coalescing is complete\<close>

text \<open>
  If no two blocks of a tiling are partners, the tiling is the pool itself:
  the partner range of a smallest block can be covered by nothing else.
\<close>

lemma aligned_block_contains:
  assumes "k < j" "2 ^ j dvd c" "2 ^ k dvd a" "partner k a \<in> blk (j, c)"
  shows "a \<in> blk (j, (c :: nat))"
proof -
  let ?m = "min a (partner k a)"
  note mp = min_partner_aligned [OF assms(3)]
  obtain q where c: "c = 2 ^ j * q" using assms(2) by (auto elim: dvdE)
  obtain e where j: "j = Suc k + e" using assms(1) less_imp_Suc_add by blast
  obtain r where m: "?m = 2 ^ Suc k * r" using mp(1) by (auto elim: dvdE)
  have c': "c = 2 ^ Suc k * (2 ^ e * q)" by (simp add: c j power_add)
  have pc: "c \<le> partner k a" "partner k a < c + 2 ^ j" using assms(4) by auto
  have hi: "partner k a < ?m + 2 ^ Suc k" using mp(2) by (auto simp: min_def max_def split: if_splits)
  have "2 ^ Suc k * (2 ^ e * q) < 2 ^ Suc k * (r + 1)" using pc(1) hi m c' by (simp add: algebra_simps)
  then have "2 ^ e * q \<le> r" by (simp only: mult_less_cancel1) simp
  then have lo: "c \<le> ?m" using m c' by simp
  have j': "(2::nat) ^ j = 2 ^ Suc k * 2 ^ e" by (simp add: j power_add)
  have "2 ^ Suc k * r < 2 ^ Suc k * (2 ^ e * q + 2 ^ e)"
    using pc(2) m c' j' by (simp add: algebra_simps min_def split: if_splits)
  then have "r + 1 \<le> 2 ^ e * q + 2 ^ e" by (simp only: mult_less_cancel1) simp
  then have "2 ^ Suc k * (r + 1) \<le> 2 ^ Suc k * (2 ^ e * q + 2 ^ e)" by (rule mult_le_mono2)
  then have "?m + 2 ^ Suc k \<le> c + 2 ^ j" using m c' j' by (simp add: algebra_simps)
  moreover have "?m \<le> a" "a < ?m + 2 ^ Suc k" using mp(2) by (auto simp: min_def max_def split: if_splits)
  ultimately show ?thesis using lo by simp
qed

lemma partner_in_pool:
  assumes "2 ^ 17 dvd base" "2 ^ k dvd a" "k < 17" "base \<le> a" "a < base + 2 ^ 17"
  shows "base \<le> partner k a" "partner k a < base + 2 ^ 17"
proof -
  have "partner k (partner k a) = a" "2 ^ k dvd partner k a"
    using assms(2) by auto
  then have "partner k a \<in> blk (17, base)"
    using aligned_block_contains [of k 17 base "partner k a"] assms by simp
  then show "base \<le> partner k a" "partner k a < base + 2 ^ 17" by auto
qed

theorem tiling_coalesced:
  assumes t: "tiling base B" and base: "2 ^ 17 dvd base"
    and no: "\<And>k a. (k, a) \<in> B \<Longrightarrow> k < 17 \<Longrightarrow> (k, partner k a) \<notin> B"
  shows "B = {(17, base)}"
proof -
  have all17: "k = 17" if "(k, a) \<in> B" for k a
  proof (rule ccontr)
    assume "k \<noteq> 17"
    define K where "K = (LEAST k. \<exists>a. (k, a) \<in> B)"
    have "\<exists>a. (k, a) \<in> B" using that by blast
    then have "\<exists>c. (K, c) \<in> B" unfolding K_def by (rule LeastI)
    then obtain c where c: "(K, c) \<in> B" by blast
    have least: "K \<le> j" if "(j, d) \<in> B" for j d unfolding K_def by (rule Least_le) (use that in blast)
    have K17: "K < 17" using least [OF that] tilingD(2) [OF t that] \<open>k \<noteq> 17\<close> by simp
    note cD = tilingD [OF t c]
    have "c < base + 2 ^ 17" using cD(5) zero_less_power [of "2::nat" K] by linarith
    then have "partner K c \<in> {base ..< base + 2 ^ 17}"
      using partner_in_pool [OF base cD(3) K17 cD(4)] by simp
    then have "partner K c \<in> \<Union> (blk ` B)" using t by (simp add: tiling_def)
    then obtain j d where jd: "(j, d) \<in> B" "partner K c \<in> blk (j, d)" by auto
    have "K \<le> j" using least jd(1) by blast
    then consider "K = j" | "K < j" by linarith
    then show False
    proof cases
      case 1
      have "2 ^ K dvd d" using tilingD(3) [OF t jd(1)] 1 by simp
      moreover have "2 ^ K dvd partner K c" using cD(3) by simp
      ultimately obtain q r where q: "d = 2 ^ K * q" "partner K c = 2 ^ K * r" by (elim dvdE) blast
      have "2 ^ K * q \<le> 2 ^ K * r" "2 ^ K * r < 2 ^ K * Suc q" using jd(2) 1 q by auto
      then have "q \<le> r" "r < Suc q" by (simp_all only: mult_le_cancel1 mult_less_cancel1)
      then have "partner K c = d" using q by simp
      then show False using no [OF c K17] jd(1) 1 by simp
    next
      case 2
      have "c \<in> blk (j, d)" using aligned_block_contains [OF 2 _ cD(3) jd(2)] tilingD(3) [OF t jd(1)] by simp
      moreover have "c \<in> blk (K, c)" by simp
      ultimately show False using tiling_disjoint [OF t c jd(1)] 2 by auto
    qed
  qed
  have start: "a = base" if "(k, a) \<in> B" for k a
    using tilingD [OF t that] all17 [OF that] by simp
  have "B \<noteq> {}" using t by (auto simp: tiling_def)
  then show ?thesis using all17 start by auto
qed

section \<open>The abstract allocator\<close>

text \<open>
  A configuration is a set \<open>S\<close> of free blocks, a set \<open>L\<close> of live blocks and a
  set \<open>H\<close> of blocks \<^emph>\<open>in hand\<close>: popped by an operation that has not yet decided
  what becomes of them. Between operations \<open>H\<close> is empty. No two free blocks are
  partners: a free never leaves two halves that could have been one block.
\<close>

definition pool_ok :: "addr \<Rightarrow> bool" where
  "pool_ok base \<longleftrightarrow> 0 < base \<and> 2 ^ 17 dvd base \<and> base + 2 ^ 17 < 2 ^ 32"

definition no_partners :: "block set \<Rightarrow> bool" where
  "no_partners S \<longleftrightarrow> (\<forall>(k, a) \<in> S. k < 17 \<longrightarrow> (k, partner k a) \<notin> S)"

definition config :: "addr \<Rightarrow> block set \<Rightarrow> block set \<Rightarrow> block set \<Rightarrow> bool" where
  "config base S L H \<longleftrightarrow>
     tiling base (S \<union> L \<union> H) \<and> S \<inter> L = {} \<and> S \<inter> H = {} \<and> L \<inter> H = {} \<and> no_partners S"

lemma no_partnersD: "no_partners S \<Longrightarrow> (k, a) \<in> S \<Longrightarrow> k < 17 \<Longrightarrow> (k, partner k a) \<notin> S"
  by (auto simp: no_partners_def)

lemma no_partners_subset: "no_partners S \<Longrightarrow> T \<subseteq> S \<Longrightarrow> no_partners T"
  by (fastforce simp: no_partners_def)

lemma config_init: "2 ^ 17 dvd base \<Longrightarrow> config base {(17, base)} {} {}"
  by (simp add: config_def no_partners_def tiling_init)

lemma config_take:
  assumes "config base S L H" "p \<in> S"
  shows "config base (S - {p}) L (insert p H)"
proof -
  have "S - {p} \<union> L \<union> insert p H = S \<union> L \<union> H" using assms(2) by blast
  then show ?thesis using assms no_partners_subset [of S "S - {p}"] by (auto simp: config_def)
qed

lemma config_give:
  assumes c: "config base S L (insert (k, a) H)" and new: "(k, a) \<notin> H"
    and no: "k < 17 \<Longrightarrow> (k, partner k a) \<notin> S"
  shows "config base (insert (k, a) S) L H"
proof -
  have t: "tiling base (S \<union> L \<union> insert (k, a) H)" using c by (simp add: config_def)
  have d: "2 ^ k dvd a" using tilingD(3) [OF t, of k a] by blast
  have eq: "insert (k, a) S \<union> L \<union> H = S \<union> L \<union> insert (k, a) H" by blast
  have "no_partners (insert (k, a) S)"
    unfolding no_partners_def
  proof (intro ballI, clarify)
    fix j b assume jb: "(j, b) \<in> insert (k, a) S" "j < 17" "(j, partner j b) \<in> insert (k, a) S"
    have np: "no_partners S" using c by (simp add: config_def)
    show False
    proof (cases "(j, b) = (k, a)")
      case True
      then show False using jb no partner_neq [OF d] by auto
    next
      case False
      then have inS: "(j, b) \<in> S" using jb by blast
      then have db: "2 ^ j dvd b" using tilingD(3) [OF t, of j b] by blast
      from jb(3) consider "(j, partner j b) = (k, a)" | "(j, partner j b) \<in> S" by blast
      then show False
      proof cases
        case 1
        then have "b = partner k a" using partner_partner [OF db] by auto
        then show False using no inS 1 jb(2) by simp
      next
        case 2 then show False using no_partnersD [OF np inS jb(2)] by blast
      qed
    qed
  qed
  then show ?thesis using c new eq by (auto simp: config_def)
qed

lemma config_live: "config base S L (insert p H) \<Longrightarrow> p \<notin> H \<Longrightarrow> config base S (insert p L) H"
  by (auto simp: config_def)

lemma config_unlive:
  assumes "config base S L H" "p \<in> L"
  shows "config base S (L - {p}) (insert p H)"
proof -
  have "S \<union> (L - {p}) \<union> insert p H = S \<union> L \<union> H" using assms(2) by blast
  then show ?thesis using assms by (auto simp: config_def)
qed

lemma tiling_replace_fresh:
  assumes t: "tiling base B" and sub: "X \<subseteq> B" and cover: "\<Union> (blk ` Y) = \<Union> (blk ` X)"
  shows "(B - X) \<inter> Y = {}"
proof -
  { fix y assume y: "y \<in> B - X" "y \<in> Y"
    then have "snd y \<in> \<Union> (blk ` Y)" by (cases y) force
    with cover obtain x where x: "x \<in> X" "snd y \<in> blk x" by blast
    moreover have "snd y \<in> blk y" by (cases y) simp
    ultimately have False using tiling_disjoint [OF t, of x y] sub y by blast }
  then show ?thesis by blast
qed

lemma config_replace:
  assumes c: "config base S L X" and t: "tiling base (S \<union> L \<union> X - X \<union> Y)"
    and cover: "\<Union> (blk ` Y) = \<Union> (blk ` X)"
  shows "config base S L Y"
proof -
  have eq: "S \<union> L \<union> X - X = S \<union> L" using c by (auto simp: config_def)
  have "(S \<union> L) \<inter> Y = {}"
    using tiling_replace_fresh [of base "S \<union> L \<union> X" X Y] c cover unfolding eq by (simp add: config_def)
  then show ?thesis using c t unfolding eq by (auto simp: config_def)
qed

lemma config_split:
  assumes c: "config base S L {(Suc k, a)}" and k: "10 \<le> k"
  shows "config base S L {(k, a), (k, a + 2 ^ k)}"
proof (rule config_replace [OF c])
  show "tiling base (S \<union> L \<union> {(Suc k, a)} - {(Suc k, a)} \<union> {(k, a), (k, a + 2 ^ k)})"
    using c k by (intro tiling_split) (auto simp: config_def)
  show "\<Union> (blk ` {(k, a), (k, a + 2 ^ k)}) = \<Union> (blk ` {(Suc k, a)})"
    using blk_split [of k a] by auto
qed

lemma config_merge:
  assumes c: "config base S L {(k, a), (k, partner k a)}" and k: "k < 17"
  shows "config base S L {(Suc k, min a (partner k a))}"
proof (rule config_replace [OF c])
  have t: "tiling base (S \<union> L \<union> {(k, a), (k, partner k a)})" using c by (simp add: config_def)
  then show "tiling base (S \<union> L \<union> {(k, a), (k, partner k a)} - {(k, a), (k, partner k a)}
      \<union> {(Suc k, min a (partner k a))})"
    using k by (intro tiling_merge) auto
  have al: "2 ^ k dvd a" using tilingD(3) [OF t, of k a] by blast
  have "blk (Suc k, min a (partner k a)) = blk (k, min a (partner k a)) \<union> blk (k, max a (partner k a))"
    using blk_split min_partner_aligned(2) [OF al] by simp
  also have "\<dots> = blk (k, a) \<union> blk (k, partner k a)" by (auto simp: min_def max_def)
  finally show "\<Union> (blk ` {(Suc k, min a (partner k a))}) = \<Union> (blk ` {(k, a), (k, partner k a)})"
    by simp
qed

text \<open>Everything freed: one block, the whole pool.\<close>

lemma config_all_free:
  assumes "config base S {} {}" "2 ^ 17 dvd base"
  shows "S = {(17, base)}"
  using tiling_coalesced [of base S] assms no_partnersD [of S] by (auto simp: config_def)

lemma config_blockD:
  assumes "config base S L H" "(k, a) \<in> S \<union> L \<union> H"
  shows "10 \<le> k" "k \<le> 17" "2 ^ k dvd a" "base \<le> a" "a + 2 ^ k \<le> base + 2 ^ 17"
  using tilingD [of base "S \<union> L \<union> H" k a] assms by (simp_all add: config_def)

lemma config_start_unique:
  assumes "config base S L H" "(k, a) \<in> S \<union> L \<union> H" "(j, a) \<in> S \<union> L \<union> H"
  shows "k = j"
  using tiling_inj [of base "S \<union> L \<union> H" k a j] assms by (simp add: config_def)

lemma config_disjoint:
  assumes "config base S L H" "p \<in> S \<union> L \<union> H" "q \<in> S \<union> L \<union> H" "p \<noteq> q"
  shows "blk p \<inter> blk q = {}"
  using tiling_disjoint [of base "S \<union> L \<union> H" p q] assms by (simp add: config_def)

text \<open>Free and live bytes always add up to the pool.\<close>

lemma config_bytes:
  assumes c: "config base S L {}" and f: "finite S" "finite L"
  shows "(\<Sum>p \<in> S. 2 ^ fst p) + (\<Sum>p \<in> L. 2 ^ fst p) = (2 ^ 17 :: nat)"
proof -
  have t: "tiling base (S \<union> L)" and dis: "S \<inter> L = {}" using c by (auto simp: config_def)
  have "(\<Sum>p \<in> S \<union> L. 2 ^ fst p) = (\<Sum>p \<in> S \<union> L. card (blk p))"
    by (intro sum.cong) (auto simp: blk_def)
  also have "\<dots> = card (\<Union> (blk ` (S \<union> L)))"
    using f tiling_disjoint [OF t]
    by (intro card_UN_disjoint [symmetric]) (auto simp: blk_def)
  also have "\<dots> = 2 ^ 17" using t by (simp add: tiling_def)
  finally show ?thesis using sum.union_disjoint [OF f dis, of "\<lambda>p. 2 ^ fst p :: nat"] by simp
qed

end
