(* ===== verification/Buddy.thy ===== *)
theory Buddy
  imports Buddy_Spec
begin

text \<open>
  \<open>src/mdl/core/buddy.c\<close>: the arena's buddy allocator, statement by statement on
  the byte memory. The free lists are intrusive: a free block stores the
  address of the next one in its first word (\<open>free_node_t\<close>). A list walk follows
  those words, so it need not end on a corrupted memory: the walks are
  \<open>partial_function\<close>s whose value \<open>None\<close> is a walk that does not end, and the
  theorems show it does not happen on any reachable state.

  The invariant \<open>buddy_ok\<close> relates a state to the abstract configuration of
  \<open>Buddy_Spec\<close>: the lists in memory represent the free blocks, the side table
  \<open>s_order\<close> the live ones.
\<close>

abbreviation MIN_ORDER :: nat where "MIN_ORDER \<equiv> 10"
abbreviation MAX_ORDER :: nat where "MAX_ORDER \<equiv> 17"
abbreviation POOL_SIZE :: nat where "POOL_SIZE \<equiv> 2 ^ 17"
abbreviation MIN_SIZE :: nat where "MIN_SIZE \<equiv> 2 ^ 10"

text \<open>\<open>ORDER_COUNT\<close> is 8 and \<open>MDL_BUDDY_SLOTS\<close> is 128.\<close>

abbreviation ORDER_COUNT :: nat where "ORDER_COUNT \<equiv> 8"
abbreviation SLOTS :: nat where "SLOTS \<equiv> 128"

record buddy =
  s_base :: addr
  s_free :: "addr list"
  s_order :: "u8 list"

type_synonym bstate = "buddy \<times> mem"

definition idx_of :: "buddy \<Rightarrow> addr \<Rightarrow> nat" where
  "idx_of s a = drop_bit MIN_ORDER (sub32 a (s_base s))"

text \<open>\<open>order_for\<close>: \<open>None\<close> stands for -1.\<close>

function order_loop :: "nat \<Rightarrow> nat \<Rightarrow> nat option" where
  "order_loop sz k =
     (if 2 ^ k < sz then (if MAX_ORDER < k + 1 then None else order_loop sz (k + 1)) else Some k)"
  by auto
termination by (relation "measure (\<lambda>(_, k). 18 - k)") auto

declare order_loop.simps [simp del]

definition order_for :: "nat \<Rightarrow> nat option" where
  "order_for sz = order_loop sz MIN_ORDER"

definition head :: "buddy \<Rightarrow> nat \<Rightarrow> addr" where
  "head s k = s_free s ! (k - MIN_ORDER)"

definition set_head :: "nat \<Rightarrow> addr \<Rightarrow> buddy \<Rightarrow> buddy" where
  "set_head k a s = s\<lparr>s_free := (s_free s)[k - MIN_ORDER := a]\<rparr>"

text \<open>\<open>n->next\<close>.\<close>

definition next_of :: "mem \<Rightarrow> addr \<Rightarrow> addr" where
  "next_of m a = unat (ld32 m a)"

definition push :: "nat \<Rightarrow> addr \<Rightarrow> bstate \<Rightarrow> bstate" where
  "push k a st = (case st of (s, m) \<Rightarrow> (set_head k a s, st32 a (of_nat (head s k)) m))"

text \<open>The walk of \<open>unlink_at\<close> from \<open>pp = &prev->next\<close> on.\<close>

partial_function (option) unlink_walk :: "addr \<Rightarrow> addr \<Rightarrow> mem \<Rightarrow> (bool \<times> mem) option" where
  "unlink_walk a prev m =
     (if next_of m prev = 0 then Some (False, m)
      else if next_of m prev = a then Some (True, st32 prev (ld32 m a) m)
      else unlink_walk a (next_of m prev) m)"

declare unlink_walk.simps [code]

definition unlink_at :: "nat \<Rightarrow> addr \<Rightarrow> bstate \<Rightarrow> (bool \<times> bstate) option" where
  "unlink_at k a st = (case st of (s, m) \<Rightarrow>
     if head s k = 0 then Some (False, s, m)
     else if head s k = a then Some (True, set_head k (next_of m a) s, m)
     else map_option (\<lambda>(found, m'). (found, s, m')) (unlink_walk a (head s k) m))"

definition pop :: "nat \<Rightarrow> bstate \<Rightarrow> addr \<times> bstate" where
  "pop k st = (case st of (s, m) \<Rightarrow>
     if head s k = 0 then (0, s, m) else (head s k, set_head k (next_of m (head s k)) s, m))"

definition mdl_buddy_init :: "addr \<Rightarrow> mem \<Rightarrow> bstate" where
  "mdl_buddy_init base m =
     push MAX_ORDER base
       (\<lparr>s_base = base, s_free = replicate ORDER_COUNT 0, s_order = replicate SLOTS 0\<rparr>, m)"

definition mdl_buddy_block_size :: "nat \<Rightarrow> nat" where
  "mdl_buddy_block_size sz = (case order_for sz of None \<Rightarrow> 0 | Some k \<Rightarrow> 2 ^ k)"

text \<open>The search for the smallest order with a free block.\<close>

function find_have :: "buddy \<Rightarrow> nat \<Rightarrow> nat option" where
  "find_have s k =
     (if MAX_ORDER < k then None else if head s k \<noteq> 0 then Some k else find_have s (k + 1))"
  by auto
termination by (relation "measure (\<lambda>(_, k). 18 - k)") auto

declare find_have.simps [simp del]

text \<open>The splitting loop: the upper half is freed at each step.\<close>

function split_down :: "nat \<Rightarrow> nat \<Rightarrow> addr \<Rightarrow> bstate \<Rightarrow> bstate" where
  "split_down want have a st =
     (if want < have then split_down want (have - 1) a (push (have - 1) (add32 a (2 ^ (have - 1))) st)
      else st)"
  by auto
termination by (relation "measure (\<lambda>(_, have, _, _). have)") auto

declare split_down.simps [simp del]

definition mdl_buddy_alloc :: "nat \<Rightarrow> bstate \<Rightarrow> addr \<times> bstate" where
  "mdl_buddy_alloc sz st =
     (if sz = 0 then (0, st)
      else case order_for sz of None \<Rightarrow> (0, st)
      | Some want \<Rightarrow>
        (case find_have (fst st) want of None \<Rightarrow> (0, st)
         | Some have \<Rightarrow>
           (let (a, st1) = pop have st;
                (s2, m2) = split_down want have a st1
            in (a, s2\<lparr>s_order := (s_order s2)[idx_of s2 a := of_nat want]\<rparr>, m2))))"

text \<open>The coalescing loop of \<open>mdl_buddy_free\<close>.\<close>

function coalesce :: "nat \<Rightarrow> addr \<Rightarrow> bstate \<Rightarrow> (nat \<times> addr \<times> bstate) option" where
  "coalesce k a st =
     (if k < MAX_ORDER then
        (let base = s_base (fst st);
             bud = add32 base ((sub32 a base) XOR (2 ^ k))
         in case unlink_at k bud st of
              None \<Rightarrow> None
            | Some (False, st1) \<Rightarrow> Some (k, a, st1)
            | Some (True, st1) \<Rightarrow> coalesce (k + 1) (if bud < a then bud else a) st1)
      else Some (k, a, st))"
  by pat_completeness auto
termination by (relation "measure (\<lambda>(k, _). 17 - k)") auto

declare coalesce.simps [simp del]

text \<open>The guards of \<open>mdl_buddy_free\<close>: the live block's index and order, if there is one.\<close>

definition free_target :: "addr \<Rightarrow> buddy \<Rightarrow> (nat \<times> nat) option" where
  "free_target p s =
     (if p = 0 then None
      else if p < s_base s \<or> add32 (s_base s) POOL_SIZE \<le> p then None
      else if sub32 p (s_base s) mod MIN_SIZE \<noteq> 0 then None
      else let k = unat (s_order s ! idx_of s p) in
        if k < MIN_ORDER \<or> MAX_ORDER < k then None else Some (idx_of s p, k))"

definition mdl_buddy_free :: "addr \<Rightarrow> bstate \<Rightarrow> bstate option" where
  "mdl_buddy_free p st = (case st of (s, m) \<Rightarrow>
     (case free_target p s of None \<Rightarrow> Some (s, m)
      | Some (i, k) \<Rightarrow>
        (case coalesce k p (s\<lparr>s_order := (s_order s)[i := 0]\<rparr>, m) of
           None \<Rightarrow> None
         | Some (k', a, st') \<Rightarrow> Some (push k' a st'))))"

text \<open>\<open>mdl_buddy_stats\<close>: the walk of one list, then the loop over the orders.\<close>

partial_function (option) stats_walk ::
  "mem \<Rightarrow> nat \<Rightarrow> addr \<Rightarrow> nat \<Rightarrow> nat \<Rightarrow> (nat \<times> nat) option" where
  "stats_walk m bs n tot big =
     (if n = 0 then Some (tot, big)
      else stats_walk m bs (next_of m n) (add32 tot bs) (if big < bs then bs else big))"

declare stats_walk.simps [code]

function stats_orders :: "buddy \<Rightarrow> mem \<Rightarrow> nat \<Rightarrow> nat \<Rightarrow> nat \<Rightarrow> (nat \<times> nat) option" where
  "stats_orders s m k tot big =
     (if MAX_ORDER < k then Some (tot, big)
      else case stats_walk m (2 ^ k) (head s k) tot big of
             None \<Rightarrow> None
           | Some (t, b) \<Rightarrow> stats_orders s m (k + 1) t b)"
  by auto
termination by (relation "measure (\<lambda>(_, _, k, _). 18 - k)") auto

declare stats_orders.simps [simp del]

definition mdl_buddy_stats :: "bstate \<Rightarrow> (nat \<times> nat) option" where
  "mdl_buddy_stats st = stats_orders (fst st) (snd st) MIN_ORDER 0 0"

section \<open>Sizes and orders\<close>

lemma order_loop_spec:
  assumes "k \<le> 17" "k = 10 \<or> 2 ^ (k - 1) < sz"
  shows "case order_loop sz k of None \<Rightarrow> 2 ^ 17 < sz
     | Some j \<Rightarrow> k \<le> j \<and> j \<le> 17 \<and> sz \<le> 2 ^ j \<and> (j = 10 \<or> 2 ^ (j - 1) < sz)"
  using assms
proof (induction sz k rule: order_loop.induct)
  case (1 sz k)
  show ?case
  proof (cases "2 ^ k < sz")
    case False
    then show ?thesis using 1 by (simp add: order_loop.simps [of sz k])
  next
    case True
    then have "k = 17 \<or> k + 1 \<le> 17" using 1 by linarith
    then show ?thesis
    proof
      assume "k = 17" moreover have "order_loop sz 17 = None" using True \<open>k = 17\<close> by (subst order_loop.simps) simp
      ultimately show ?thesis using True by simp
    next
      assume "k + 1 \<le> 17"
      then show ?thesis using 1 True
        by (auto simp: order_loop.simps [of sz k] split: option.splits)
    qed
  qed
qed

lemma order_for_Some:
  assumes "order_for sz = Some k"
  shows "10 \<le> k" "k \<le> 17" "sz \<le> 2 ^ k" "k = 10 \<or> 2 ^ (k - 1) < sz"
  using order_loop_spec [of 10 sz] assms by (simp_all add: order_for_def)

lemma order_for_None: "(order_for sz = None) = (2 ^ 17 < sz)"
proof
  show "order_for sz = None \<Longrightarrow> 2 ^ 17 < sz" using order_loop_spec [of 10 sz] by (simp add: order_for_def)
next
  assume big: "2 ^ 17 < sz"
  show "order_for sz = None"
  proof (rule ccontr)
    assume "order_for sz \<noteq> None"
    then obtain k where "order_for sz = Some k" by blast
    then have "sz \<le> 2 ^ k" "k \<le> 17" using order_for_Some by auto
    then have "sz \<le> 2 ^ 17" by (meson le_trans one_le_numeral power_increasing)
    then show False using big by simp
  qed
qed

lemma order_for_fit:
  assumes "order_for sz = Some w" "sz \<le> 2 ^ j" "10 \<le> j"
  shows "w \<le> j"
proof (rule ccontr)
  assume "\<not> w \<le> j"
  then have "j \<le> w - 1" and w: "w \<noteq> 10" using assms(3) by auto
  then have "(2::nat) ^ j \<le> 2 ^ (w - 1)" by (intro power_increasing) auto
  then show False using order_for_Some(4) [OF assms(1)] w assms(2) by linarith
qed

lemma find_have_spec:
  "(find_have s k = Some j \<longrightarrow> k \<le> j \<and> j \<le> 17 \<and> head s j \<noteq> 0 \<and> (\<forall>i. k \<le> i \<and> i < j \<longrightarrow> head s i = 0))
   \<and> (find_have s k = None \<longrightarrow> (\<forall>i. k \<le> i \<and> i \<le> 17 \<longrightarrow> head s i = 0))"
proof (induction s k rule: find_have.induct)
  case (1 s k)
  have step: "i = k \<or> k + 1 \<le> i" if "k \<le> i" for i using that by auto
  show ?case
  proof (cases "17 < k \<or> head s k \<noteq> 0")
    case True
    then show ?thesis by (auto simp: find_have.simps [of s k])
  next
    case False
    then have e: "find_have s k = find_have s (k + 1)" by (simp add: find_have.simps [of s k])
    show ?thesis unfolding e using 1 False step by (metis add_leD1 not_less)
  qed
qed

section \<open>The free lists in memory\<close>

fun chain :: "mem \<Rightarrow> addr \<Rightarrow> addr list \<Rightarrow> bool" where
  "chain m h [] \<longleftrightarrow> h = 0"
| "chain m h (x # xs) \<longleftrightarrow> h = x \<and> x \<noteq> 0 \<and> chain m (next_of m x) xs"

lemma chain_frame:
  "(\<And>x. x \<in> set xs \<Longrightarrow> next_of m' x = next_of m x) \<Longrightarrow> chain m' h xs = chain m h xs"
  by (induction xs arbitrary: h) auto

lemma chain_head: "chain m h xs \<Longrightarrow> h = (case xs of [] \<Rightarrow> 0 | x # _ \<Rightarrow> x)"
  by (cases xs) auto

lemma chain_nz: "chain m h xs \<Longrightarrow> x \<in> set xs \<Longrightarrow> x \<noteq> 0"
  by (induction xs arbitrary: h) auto

lemma next_of_st32_same [simp]: "next_of (st32 a w m) a = unat w"
  by (simp add: next_of_def)

text \<open>Link words sit at multiples of 1024, so different ones do not overlap.\<close>

lemma next_of_st32_other:
  assumes "1024 dvd a" "1024 dvd b" "a \<noteq> b"
  shows "next_of (st32 a w m) b = next_of m b"
proof -
  obtain i where i: "a = 1024 * i" using assms(1) by (rule dvdE)
  obtain j where j: "b = 1024 * j" using assms(2) by (rule dvdE)
  note ij = i j
  with assms(3) have "i < j \<or> j < i" by auto
  then have "a + 4 \<le> b \<or> b + 4 \<le> a" using ij by auto
  then show ?thesis by (simp add: next_of_def)
qed

lemma unlink_walk_chain:
  assumes "chain m (next_of m prev) xs" "distinct (prev # xs)"
    "\<And>x. x \<in> set (prev # xs) \<Longrightarrow> 1024 dvd x \<and> x < 2 ^ 32"
  shows "\<exists>m'. unlink_walk a prev m = Some (a \<in> set xs, m')
     \<and> chain m' (next_of m' prev) (remove1 a xs)
     \<and> (m' = m \<or> (\<exists>p w. p \<in> set (prev # xs) \<and> p \<noteq> a \<and> m' = st32 p w m))"
  using assms
proof (induction xs arbitrary: prev)
  case Nil
  then show ?case by (simp add: unlink_walk.simps)
next
  case (Cons x xs)
  then have nx: "next_of m prev = x" and x0: "x \<noteq> 0" and ch: "chain m (next_of m x) xs" by auto
  show ?case
  proof (cases "x = a")
    case True
    let ?m = "st32 prev (ld32 m a) m"
    have fr: "next_of ?m y = next_of m y" if "y \<in> set xs" for y
      using Cons.prems(2,3) that by (intro next_of_st32_other) auto
    have "chain ?m (next_of ?m prev) xs"
      using ch True chain_frame [OF fr, of xs] by (simp add: next_of_def)
    then show ?thesis using nx x0 True Cons.prems(2)
      by (intro exI [of _ ?m]) (auto simp: unlink_walk.simps [of a prev])
  next
    case False
    have IH: "\<exists>m'. unlink_walk a x m = Some (a \<in> set xs, m')
       \<and> chain m' (next_of m' x) (remove1 a xs)
       \<and> (m' = m \<or> (\<exists>p w. p \<in> set (x # xs) \<and> p \<noteq> a \<and> m' = st32 p w m))"
      using Cons.prems ch by (intro Cons.IH) auto
    then obtain m' where m': "unlink_walk a x m = Some (a \<in> set xs, m')"
      "chain m' (next_of m' x) (remove1 a xs)"
      "m' = m \<or> (\<exists>p w. p \<in> set (x # xs) \<and> p \<noteq> a \<and> m' = st32 p w m)" by blast
    have "next_of m' prev = x"
      using m'(3) nx Cons.prems(2,3) next_of_st32_other [of _ prev] by auto
    then show ?thesis using m' nx x0 False
      by (intro exI [of _ m']) (auto simp: unlink_walk.simps [of a prev])
  qed
qed

section \<open>The invariant\<close>

definition frees :: "(nat \<Rightarrow> addr list) \<Rightarrow> block set" where
  "frees F = {(k, a). a \<in> set (F k)}"

definition lives :: "buddy \<Rightarrow> block set" where
  "lives s = {(k, a). \<exists>i < SLOTS. a = s_base s + MIN_SIZE * i \<and> k = unat (s_order s ! i) \<and> k \<noteq> 0}"

definition buddy_rep :: "addr \<Rightarrow> buddy \<Rightarrow> mem \<Rightarrow> (nat \<Rightarrow> addr list) \<Rightarrow> bool" where
  "buddy_rep base s m F \<longleftrightarrow>
     s_base s = base \<and> length (s_free s) = ORDER_COUNT \<and> length (s_order s) = SLOTS
     \<and> (\<forall>k. if MIN_ORDER \<le> k \<and> k \<le> MAX_ORDER then chain m (head s k) (F k) \<and> distinct (F k) else F k = [])"

definition buddy_inv :: "addr \<Rightarrow> buddy \<Rightarrow> mem \<Rightarrow> (nat \<Rightarrow> addr list) \<Rightarrow> block set \<Rightarrow> bool" where
  "buddy_inv base s m F H \<longleftrightarrow>
     pool_ok base \<and> buddy_rep base s m F \<and> config base (frees F) (lives s) H"

definition buddy_ok :: "bstate \<Rightarrow> bool" where
  "buddy_ok st \<longleftrightarrow> (\<exists>F. buddy_inv (s_base (fst st)) (fst st) (snd st) F {})"

lemma buddy_inv_config: "buddy_inv base s m F H \<Longrightarrow> config base (frees F) (lives s) H"
  by (simp add: buddy_inv_def)

lemma buddy_inv_rep:
  assumes "buddy_inv base s m F H"
  shows "s_base s = base" "length (s_free s) = ORDER_COUNT" "length (s_order s) = SLOTS"
    "MIN_ORDER \<le> k \<Longrightarrow> k \<le> MAX_ORDER \<Longrightarrow> chain m (head s k) (F k)"
    "distinct (F k)" "F k \<noteq> [] \<Longrightarrow> MIN_ORDER \<le> k \<and> k \<le> MAX_ORDER"
proof -
  have r: "buddy_rep base s m F" using assms by (simp add: buddy_inv_def)
  have f: "if MIN_ORDER \<le> k \<and> k \<le> MAX_ORDER then chain m (head s k) (F k) \<and> distinct (F k) else F k = []"
    using r unfolding buddy_rep_def by blast
  show "s_base s = base" "length (s_free s) = ORDER_COUNT" "length (s_order s) = SLOTS"
    using r by (simp_all add: buddy_rep_def)
  show "MIN_ORDER \<le> k \<Longrightarrow> k \<le> MAX_ORDER \<Longrightarrow> chain m (head s k) (F k)"
    "distinct (F k)" "F k \<noteq> [] \<Longrightarrow> MIN_ORDER \<le> k \<and> k \<le> MAX_ORDER"
    using f by (auto split: if_splits)
qed

lemma buddy_inv_pool:
  assumes "buddy_inv base s m F H"
  shows "0 < base" "2 ^ 17 dvd base" "base + 2 ^ 17 < 2 ^ 32" "1024 dvd base"
proof -
  show "0 < base" "2 ^ 17 dvd base" "base + 2 ^ 17 < 2 ^ 32"
    using assms by (auto simp: buddy_inv_def pool_ok_def)
  then obtain q where "base = 2 ^ 17 * q" by (auto elim: dvdE)
  then have "base = 1024 * (128 * q)" by simp
  then show "1024 dvd base" by (rule dvdI)
qed

lemma buddy_inv_block:
  assumes "buddy_inv base s m F H" "(k, a) \<in> frees F \<union> lives s \<union> H"
  shows "10 \<le> k" "k \<le> 17" "2 ^ k dvd a" "base \<le> a" "a + 2 ^ k \<le> base + 2 ^ 17" "1024 dvd a" "a < 2 ^ 32" "0 < a"
    "a < base + 2 ^ 17"
proof -
  note b = config_blockD [OF buddy_inv_config [OF assms(1)] assms(2)]
  show "10 \<le> k" "k \<le> 17" "2 ^ k dvd a" "base \<le> a" "a + 2 ^ k \<le> base + 2 ^ 17" by (fact b)+
  have "(2::nat) ^ 10 dvd 2 ^ k" using b(1) by (rule le_imp_power_dvd)
  then show "1024 dvd a" using b(3) by (simp add: dvd_trans)
  have "0 < (2::nat) ^ k" by simp
  then show "a < 2 ^ 32" "0 < a" "a < base + 2 ^ 17" using b(4,5) buddy_inv_pool(1,3) [OF assms(1)] by linarith+
qed

lemma frees_mem: "((k, a) \<in> frees F) = (a \<in> set (F k))"
  by (simp add: frees_def)

lemma frees_cons: "frees (F(k := a # F k)) = insert (k, a) (frees F)"
  by (auto simp: frees_def split: if_splits)

lemma frees_remove1: "distinct (F k) \<Longrightarrow> frees (F(k := remove1 a (F k))) = frees F - {(k, a)}"
  by (auto simp: frees_def split: if_splits dest: notin_set_remove1)

lemma lives_set_head [simp]: "lives (set_head k a s) = lives s"
  by (simp add: lives_def set_head_def)

lemma head_set_head:
  "length (s_free s) = ORDER_COUNT \<Longrightarrow> 10 \<le> k \<Longrightarrow> k \<le> 17 \<Longrightarrow> 10 \<le> j \<Longrightarrow> j \<le> 17 \<Longrightarrow>
   head (set_head k a s) j = (if j = k then a else head s j)"
  by (auto simp: head_def set_head_def nth_list_update)

text \<open>Memory outside a set of addresses is untouched.\<close>

definition mem_eq_outside :: "nat set \<Rightarrow> mem \<Rightarrow> mem \<Rightarrow> bool" where
  "mem_eq_outside A m m' \<longleftrightarrow> (\<forall>x. x \<notin> A \<longrightarrow> m' x = m x)"

lemma mem_eq_outside_refl [simp]: "mem_eq_outside A m m"
  by (simp add: mem_eq_outside_def)

lemma mem_eq_outside_trans:
  "mem_eq_outside A m m1 \<Longrightarrow> mem_eq_outside B m1 m2 \<Longrightarrow> A \<subseteq> C \<Longrightarrow> B \<subseteq> C \<Longrightarrow> mem_eq_outside C m m2"
  unfolding mem_eq_outside_def by (metis subsetD)

lemma mem_eq_outside_st32: "{a ..< a + 4} \<subseteq> A \<Longrightarrow> mem_eq_outside A m (st32 a w m)"
  unfolding mem_eq_outside_def by (metis atLeastLessThan_iff not_le st32_other subsetD)

lemma push_inv:
  assumes inv: "buddy_inv base s m F (insert (k, a) H)" and new: "(k, a) \<notin> H"
    and no: "k < 17 \<Longrightarrow> (k, partner k a) \<notin> frees F"
    and p: "push k a (s, m) = (s', m')"
  shows "buddy_inv base s' m' (F(k := a # F k)) H" "lives s' = lives s"
    "mem_eq_outside (blk (k, a)) m m'" "s_order s' = s_order s" "s_base s' = s_base s"
proof -
  have s': "s' = set_head k a s" and m': "m' = st32 a (of_nat (head s k)) m" using p by (auto simp: push_def)
  note c = buddy_inv_config [OF inv]
  note b = buddy_inv_block [OF inv, of k a, simplified]
  note r = buddy_inv_rep [OF inv]
  have notin: "a \<notin> set (F j)" for j
  proof
    assume "a \<in> set (F j)"
    then have "(j, a) \<in> frees F" by (simp add: frees_def)
    then have "(k, a) \<in> frees F" using config_start_unique [OF c, of k a j] by auto
    then show False using c by (auto simp: config_def)
  qed
  have far: "next_of m' x = next_of m x" if "x \<in> set (F j)" for x j
    unfolding m' using that notin buddy_inv_block(6) [OF inv, of j x] b(6)
    by (intro next_of_st32_other) (auto simp: frees_mem)
  have ch: "chain m' h (F j) = chain m h (F j)" for h j by (rule chain_frame) (rule far)
  have hd: "head s k < 2 ^ 32"
    using chain_head [OF r(4) [OF b(1,2)]] buddy_inv_block(7) [OF inv, of k]
    by (auto simp: frees_mem split: list.splits)
  have "chain m' (head s' j) ((F(k := a # F k)) j) \<and> distinct ((F(k := a # F k)) j)"
    if "10 \<le> j" "j \<le> 17" for j
    using that r(4) [OF that] r(4) [OF b(1,2)] r(5) notin b hd ch
    by (auto simp: s' head_set_head r(2) m' take_bit_nat_eq_self unat_of_nat)
  moreover have "(F(k := a # F k)) j = []" if "\<not> (10 \<le> j \<and> j \<le> 17)" for j
    using that r(6) [of j] b by auto
  ultimately have "buddy_rep base s' m' (F(k := a # F k))"
    using r(1-3) by (simp add: buddy_rep_def s') (simp add: set_head_def)
  moreover have "config base (frees (F(k := a # F k))) (lives s') H"
    unfolding frees_cons s' lives_set_head by (rule config_give [OF c new no])
  ultimately show "buddy_inv base s' m' (F(k := a # F k)) H" using inv by (simp add: buddy_inv_def)
  have "(2::nat) ^ 2 \<le> 2 ^ k" using b(1) by (intro power_increasing) auto
  then show "mem_eq_outside (blk (k, a)) m m'" unfolding m' by (intro mem_eq_outside_st32) auto
qed (use p in \<open>auto simp: push_def set_head_def lives_def\<close>)

lemma buddy_inv_set_head:
  assumes inv: "buddy_inv base s m F H" and k: "10 \<le> k" "k \<le> 17" and a: "a \<in> set (F k)"
    and ch: "chain m' h (remove1 a (F k))"
    and fr: "\<And>j. j \<noteq> k \<Longrightarrow> 10 \<le> j \<Longrightarrow> j \<le> 17 \<Longrightarrow> chain m' (head s j) (F j)"
    and s': "s' = set_head k h s"
  shows "buddy_inv base s' m' (F(k := remove1 a (F k))) (insert (k, a) H)"
proof -
  note r = buddy_inv_rep [OF inv]
  have "chain m' (head s' j) ((F(k := remove1 a (F k))) j) \<and> distinct ((F(k := remove1 a (F k))) j)"
    if "10 \<le> j" "j \<le> 17" for j
    using that k ch fr [of j] r(5) by (simp add: s' head_set_head r(2) distinct_remove1)
  moreover have "(F(k := remove1 a (F k))) j = []" if "\<not> (10 \<le> j \<and> j \<le> 17)" for j
    using that r(6) [of j] k by auto
  ultimately have "buddy_rep base s' m' (F(k := remove1 a (F k)))"
    using r(1-3) by (simp add: buddy_rep_def s') (simp add: set_head_def)
  moreover have "config base (frees (F(k := remove1 a (F k)))) (lives s') (insert (k, a) H)"
    unfolding s' lives_set_head frees_remove1 [where F = F and k = k, OF r(5)]
    by (rule config_take [OF buddy_inv_config [OF inv]]) (simp add: frees_mem a)
  ultimately show ?thesis using inv by (simp add: buddy_inv_def)
qed

lemma pop_inv:
  assumes inv: "buddy_inv base s m F H" and k: "10 \<le> k" "k \<le> 17" and hd: "head s k \<noteq> 0"
  shows "\<exists>a s'. pop k (s, m) = (a, s', m) \<and> (k, a) \<in> frees F
    \<and> buddy_inv base s' m (F(k := remove1 a (F k))) (insert (k, a) H)
    \<and> lives s' = lives s \<and> s_order s' = s_order s \<and> s_base s' = s_base s"
proof -
  note ch = buddy_inv_rep(4) [OF inv k]
  then obtain xs where F: "F k = head s k # xs" using hd by (cases "F k") auto
  then have c2: "chain m (next_of m (head s k)) xs" using ch by simp
  show ?thesis
    using buddy_inv_set_head [OF inv k, of "head s k" m "next_of m (head s k)"] F c2 hd
      buddy_inv_rep(4) [OF inv]
    by (intro exI [of _ "head s k"] exI [of _ "set_head k (next_of m (head s k)) s"])
      (auto simp: pop_def frees_mem, simp_all add: set_head_def)
qed

lemma set_head_same: "head s k = h \<Longrightarrow> set_head k h s = s"
  by (auto simp: set_head_def head_def)

lemma unlink_inv:
  assumes inv: "buddy_inv base s m F H" and k: "10 \<le> k" "k \<le> 17"
  shows "\<exists>s' m'. unlink_at k a (s, m) = Some (a \<in> set (F k), s', m')
    \<and> buddy_inv base s' m' (if a \<in> set (F k) then F(k := remove1 a (F k)) else F)
        (if a \<in> set (F k) then insert (k, a) H else H)
    \<and> lives s' = lives s \<and> s_base s' = s_base s \<and> s_order s' = s_order s
    \<and> mem_eq_outside (\<Union> (blk ` frees F)) m m' \<and> (a \<notin> set (F k) \<longrightarrow> s' = s \<and> m' = m)"
proof -
  note ch = buddy_inv_rep(4) [OF inv k]
  consider "F k = []" | xs where "F k = a # xs" | x xs where "F k = x # xs" "x \<noteq> a" by (cases "F k") auto
  then show ?thesis
  proof cases
    case 1
    then have "unlink_at k a (s, m) = Some (False, s, m)" using ch by (simp add: unlink_at_def)
    then show ?thesis using 1 inv by simp
  next
    case (2 xs)
    then have h: "head s k = a" "a \<noteq> 0" and c2: "chain m (next_of m a) xs" using ch by auto
    then show ?thesis
      using buddy_inv_set_head [OF inv k, of a m "next_of m a"] 2 buddy_inv_rep(4) [OF inv]
      by (intro exI [of _ "set_head k (next_of m a) s"] exI [of _ m])
        (auto simp: unlink_at_def, simp_all add: set_head_def)
  next
    case (3 x xs)
    then have h: "head s k = x" "x \<noteq> 0" and c2: "chain m (next_of m x) xs" using ch by auto
    have nodes: "1024 dvd y \<and> y < 2 ^ 32 \<and> (k, y) \<in> frees F" if "y \<in> set (x # xs)" for y
      using buddy_inv_block(6,7) [OF inv, of k y] that 3(1) by (auto simp: frees_mem)
    have dist: "distinct (x # xs)" using buddy_inv_rep(5) [OF inv, of k] 3(1) by simp
    obtain m' where m': "unlink_walk a x m = Some (a \<in> set xs, m')"
      "chain m' (next_of m' x) (remove1 a xs)"
      "m' = m \<or> (\<exists>p w. p \<in> set (x # xs) \<and> p \<noteq> a \<and> m' = st32 p w m)"
      using unlink_walk_chain [OF c2 dist, of a] nodes by blast
    have ul: "unlink_at k a (s, m) = Some (a \<in> set xs, s, m')" using m'(1) h 3(2) by (simp add: unlink_at_def)
    have out: "mem_eq_outside (\<Union> (blk ` frees F)) m m'"
      using m'(3)
    proof
      assume "\<exists>p w. p \<in> set (x # xs) \<and> p \<noteq> a \<and> m' = st32 p w m"
      then obtain p w where p: "(k, p) \<in> frees F" "m' = st32 p w m" using nodes by blast
      have "(2::nat) ^ 2 \<le> 2 ^ k" using k by (intro power_increasing) auto
      then have "{p ..< p + 4} \<subseteq> blk (k, p)" by auto
      with p(1) have "{p ..< p + 4} \<subseteq> \<Union> (blk ` frees F)" by blast
      then show ?thesis unfolding p(2) by (rule mem_eq_outside_st32)
    qed simp
    show ?thesis
    proof (cases "a \<in> set xs")
      case False
      have "m' = m"
        using m'(1) False c2 dist nodes
      proof (induction xs arbitrary: x)
        case Nil then show ?case by (simp add: unlink_walk.simps)
      next
        case (Cons y ys)
        have "unlink_walk a y m = Some (a \<in> set ys, m')" using Cons.prems(1,2,3)
          by (auto simp: unlink_walk.simps [of a x])
        then show ?case using Cons.prems by (intro Cons.IH [of y]) auto
      qed
      then show ?thesis using ul inv False 3 by simp
    next
      case True
      have other: "chain m' (head s j) (F j)" if j: "j \<noteq> k" "10 \<le> j" "j \<le> 17" for j
      proof -
        have "next_of m' y = next_of m y" if y: "y \<in> set (F j)" for y
        proof -
          have ynode: "1024 dvd y" using buddy_inv_block(6) [OF inv, of j y] y by (simp add: frees_mem)
          have "y \<notin> set (x # xs)"
            using config_start_unique [OF buddy_inv_config [OF inv], of k y j] nodes y j(1)
            by (auto simp: frees_mem)
          then show ?thesis using m'(3) nodes ynode next_of_st32_other by metis
        qed
        then show ?thesis using chain_frame [of "F j" m' m] buddy_inv_rep(4) [OF inv j(2,3)] by simp
      qed
      have "chain m' x (remove1 a (F k))" using m'(2) 3 h by simp
      then show ?thesis
        using buddy_inv_set_head [OF inv k, of a m' x s] True 3 ul other out set_head_same [OF h(1)]
        by (intro exI [of _ s] exI [of _ m']) simp
    qed
  qed
qed

section \<open>Allocation\<close>

lemma buddy_inv_hand:
  "buddy_inv base s m F H \<Longrightarrow> config base (frees F) (lives s) H' \<Longrightarrow> buddy_inv base s m F H'"
  by (simp add: buddy_inv_def)

lemma split_down_inv:
  assumes "buddy_inv base s m F {(have, a)}" "10 \<le> want" "want \<le> have"
    "split_down want have a (s, m) = (s', m')"
  shows "\<exists>F'. buddy_inv base s' m' F' {(want, a)} \<and> lives s' = lives s \<and> s_order s' = s_order s
    \<and> s_base s' = s_base s \<and> mem_eq_outside (blk (have, a)) m m'
    \<and> frees F' = frees F \<union> {(j, a + 2 ^ j) |j. want \<le> j \<and> j < have}"
  using assms
proof (induction want "have" a "(s, m)" arbitrary: s m F s' m' rule: split_down.induct)
  case (1 want hav a s m)
  note inv = "1.prems"(1) and want = "1.prems"(2,3) and run = "1.prems"(4)
  show ?case
  proof (cases "want < hav")
    case False
    moreover from this have "split_down want hav a (s, m) = (s, m)" by (subst split_down.simps) simp
    ultimately show ?thesis using 1 by (intro exI [of _ F]) auto
  next
    case True
    define h where "h = hav - 1"
    have hv: "hav = Suc h" and h10: "10 \<le> h" using True want by (auto simp: h_def)
    obtain s1 m1 where p: "push h (a + 2 ^ h) (s, m) = (s1, m1)" by fastforce
    note c = config_split [OF buddy_inv_config [OF inv, unfolded hv] h10]
    have b: "a + 2 ^ Suc h \<le> base + 2 ^ 17" "2 ^ Suc h dvd a" "h < 17"
      using buddy_inv_block [OF inv, of hav a] hv by auto
    have pw: "(2::nat) ^ Suc h = 2 ^ h + 2 ^ h" by simp
    have no_wrap: "add32 a (2 ^ h) = a + 2 ^ h"
      using b(1) buddy_inv_pool(3) [OF inv] pw by (intro add32_small) linarith
    have inv': "buddy_inv base s m F (insert (h, a + 2 ^ h) {(h, a)})"
      using buddy_inv_hand [OF inv c] by (simp add: insert_commute)
    obtain q where q: "a = 2 ^ Suc h * q" using b(2) by (auto elim: dvdE)
    then have "a + 2 ^ h = 2 ^ h * (2 * q + 1)" by (simp add: algebra_simps)
    then have pa: "partner h (a + 2 ^ h) = a" using q by (simp only: partner_mult) simp
    have "(h, a) \<notin> frees F" using buddy_inv_config [OF inv'] by (auto simp: config_def)
    then have P: "buddy_inv base s1 m1 (F(h := (a + 2 ^ h) # F h)) {(h, a)}" "lives s1 = lives s"
      "mem_eq_outside (blk (h, a + 2 ^ h)) m m1" "s_order s1 = s_order s" "s_base s1 = s_base s"
      using push_inv [OF inv' _ _ p] pa by auto
    have run': "split_down want h a (s1, m1) = (s', m')"
      using run True p no_wrap by (subst (asm) split_down.simps) (simp add: h_def)
    have "\<exists>F'. buddy_inv base s' m' F' {(want, a)} \<and> lives s' = lives s1 \<and> s_order s' = s_order s1
        \<and> s_base s' = s_base s1 \<and> mem_eq_outside (blk (h, a)) m1 m'
        \<and> frees F' = frees (F(h := (a + 2 ^ h) # F h)) \<union> {(j, a + 2 ^ j) |j. want \<le> j \<and> j < h}"
      using "1.hyps" [OF True, of s1 m1] p no_wrap P(1) run' want True by (simp add: h_def)
    then obtain F' where F': "buddy_inv base s' m' F' {(want, a)}" "lives s' = lives s1"
      "s_order s' = s_order s1" "s_base s' = s_base s1" "mem_eq_outside (blk (h, a)) m1 m'"
      "frees F' = frees (F(h := (a + 2 ^ h) # F h)) \<union> {(j, a + 2 ^ j) |j. want \<le> j \<and> j < h}" by blast
    have "{(j, a + 2 ^ j) |j. want \<le> j \<and> j < hav} =
        insert (h, a + 2 ^ h) {(j, a + 2 ^ j) |j. want \<le> j \<and> j < h}"
      using True hv by (auto simp: less_Suc_eq)
    then have "frees F' = frees F \<union> {(j, a + 2 ^ j) |j. want \<le> j \<and> j < hav}"
      using F'(6) by (simp add: frees_cons)
    moreover have "mem_eq_outside (blk (hav, a)) m m'"
      using mem_eq_outside_trans [OF P(3) F'(5), of "blk (hav, a)"] by (auto simp: hv)
    ultimately show ?thesis using F' P by auto
  qed
qed

text \<open>The side table entry written by an allocation, and cleared by a free.\<close>

lemma idx_of_block:
  assumes "buddy_inv base s m F H" "(k, a) \<in> frees F \<union> lives s \<union> H"
  shows "idx_of s a < 128" "a = base + 1024 * idx_of s a"
proof -
  note b = buddy_inv_block [OF assms] and r = buddy_inv_rep(1) [OF assms(1)]
  note p = buddy_inv_pool [OF assms(1)]
  have e: "idx_of s a = (a - base) div 1024"
    using b(4,7) r by (simp add: idx_of_def drop_bit_eq_div)
  have "1024 dvd a - base" using b(6) p(4) by (simp add: dvd_diff_nat)
  then show "a = base + 1024 * idx_of s a" using b(4) by (simp add: e)
  have "0 < (2::nat) ^ k" by simp
  then have "a - base < 2 ^ 17" using b(4,5) by linarith
  then show "idx_of s a < 128" by (simp add: e less_mult_imp_div_less)
qed

lemma lives_at:
  assumes "length (s_order s) = SLOTS" "i < SLOTS"
  shows "((k, s_base s + 1024 * i) \<in> lives s) = (k = unat (s_order s ! i) \<and> k \<noteq> 0)"
  using assms by (auto simp: lives_def)

lemma lives_update:
  assumes len: "length (s_order s) = SLOTS" and i: "i < SLOTS"
  shows "lives (s\<lparr>s_order := (s_order s)[i := v]\<rparr>) =
    {(k, a) \<in> lives s. a \<noteq> s_base s + 1024 * i} \<union> (if v = 0 then {} else {(unat v, s_base s + 1024 * i)})"
    (is "?L = ?R")
proof (rule set_eqI, clarify)
  fix k a
  show "(k, a) \<in> ?L \<longleftrightarrow> (k, a) \<in> ?R"
    using len i by (auto simp: lives_def nth_list_update unat_eq_0 unat_gt_0 split: if_splits)
qed

lemma buddy_rep_order:
  "length os = SLOTS \<Longrightarrow> buddy_rep base s m F \<Longrightarrow> buddy_rep base (s\<lparr>s_order := os\<rparr>) m F"
  unfolding buddy_rep_def head_def by simp

lemma unat_order: "k \<le> 17 \<Longrightarrow> unat (of_nat k :: u8) = k"
  by (simp add: unat_of_nat take_bit_nat_eq_self)

lemma order_neq_0: "10 \<le> k \<Longrightarrow> k \<le> 17 \<Longrightarrow> (of_nat k :: u8) \<noteq> 0"
  using unat_order by fastforce

lemma mark_live_inv:
  assumes inv: "buddy_inv base s m F {(k, a)}"
    and s': "s' = s\<lparr>s_order := (s_order s)[idx_of s a := of_nat k]\<rparr>"
  shows "buddy_inv base s' m F {}" "lives s' = insert (k, a) (lives s)"
proof -
  note i = idx_of_block [OF inv, of k a, simplified] and r = buddy_inv_rep [OF inv]
  note b = buddy_inv_block [OF inv, of k a, simplified]
  have fresh: "(j, a) \<notin> lives s" for j
    using config_start_unique [OF buddy_inv_config [OF inv], of k a j] buddy_inv_config [OF inv]
    by (auto simp: config_def)
  have "lives s' = {(j, x) \<in> lives s. x \<noteq> a} \<union> {(k, a)}"
    using lives_update [OF r(3) i(1), of "of_nat k"] i(2) r(1) b unat_order order_neq_0 by (simp add: s')
  then show L: "lives s' = insert (k, a) (lives s)" using fresh by auto
  have "config base (frees F) (lives s') {}"
    unfolding L by (rule config_live) (use buddy_inv_config [OF inv] in auto)
  moreover have "buddy_rep base s' m F"
    using inv r(3) unfolding s' by (intro buddy_rep_order) (auto simp: buddy_inv_def)
  ultimately show "buddy_inv base s' m F {}" using inv by (simp add: buddy_inv_def)
qed

text \<open>The free blocks of a state, read off its lists.\<close>

inductive on_list :: "mem \<Rightarrow> addr \<Rightarrow> addr \<Rightarrow> bool" for m where
  here: "h \<noteq> 0 \<Longrightarrow> on_list m h h"
| there: "h \<noteq> 0 \<Longrightarrow> on_list m (next_of m h) a \<Longrightarrow> on_list m h a"

inductive_cases on_list_zeroE: "on_list m 0 a"
inductive_simps on_list_iff: "on_list m h a"

definition free_blocks :: "bstate \<Rightarrow> block set" where
  "free_blocks st = {(k, a). MIN_ORDER \<le> k \<and> k \<le> MAX_ORDER \<and> on_list (snd st) (head (fst st) k) a}"

definition live_blocks :: "bstate \<Rightarrow> block set" where
  "live_blocks st = lives (fst st)"

lemma on_list_chain: "chain m h xs \<Longrightarrow> on_list m h a = (a \<in> set xs)"
proof (induction xs arbitrary: h)
  case Nil then show ?case by (auto elim: on_list_zeroE)
next
  case (Cons x xs) then show ?case by (subst on_list_iff) auto
qed

lemma free_blocks_frees:
  assumes "buddy_inv base s m F H"
  shows "free_blocks (s, m) = frees F"
proof (rule set_eqI, clarify)
  fix k a
  show "(k, a) \<in> free_blocks (s, m) \<longleftrightarrow> (k, a) \<in> frees F"
    using on_list_chain [OF buddy_inv_rep(4) [OF assms]] buddy_inv_rep(6) [OF assms, of k]
    by (cases "F k = []") (auto simp: free_blocks_def frees_def)
qed

lemma buddy_okE:
  assumes "buddy_ok (s, m)"
  obtains F where "buddy_inv (s_base s) s m F {}" "free_blocks (s, m) = frees F"
  using assms free_blocks_frees by (auto simp: buddy_ok_def)

lemma buddy_okI: "buddy_inv base s m F {} \<Longrightarrow> buddy_ok (s, m)"
  using buddy_inv_rep(1) by (fastforce simp: buddy_ok_def)

lemma buddy_ok_config:
  "buddy_ok st \<Longrightarrow> config (s_base (fst st)) (free_blocks st) (live_blocks st) {}"
  by (cases st) (auto elim!: buddy_okE simp: live_blocks_def buddy_inv_def)

lemma head_none:
  assumes "buddy_inv base s m F H" "10 \<le> k" "k \<le> 17"
  shows "(head s k = 0) = (\<forall>a. (k, a) \<notin> frees F)"
  using buddy_inv_rep(4) [OF assms] by (cases "F k") (auto simp: frees_def)

lemma alloc_inv:
  assumes ok: "buddy_ok (s, m)" and want: "order_for sz = Some want" "sz \<noteq> 0"
    and j: "(j, b) \<in> free_blocks (s, m)" "want \<le> j"
  shows "\<exists>k a s' m'. mdl_buddy_alloc sz (s, m) = (a, s', m') \<and> buddy_ok (s', m')
    \<and> want \<le> k \<and> k \<le> j \<and> (k, a) \<in> free_blocks (s, m)
    \<and> live_blocks (s', m') = insert (want, a) (live_blocks (s, m))
    \<and> free_blocks (s', m') = free_blocks (s, m) - {(k, a)} \<union> {(i, a + 2 ^ i) |i. want \<le> i \<and> i < k}
    \<and> mem_eq_outside (blk (k, a)) m m' \<and> s_base s' = s_base s"
proof -
  obtain F where inv: "buddy_inv (s_base s) s m F {}" and fb: "free_blocks (s, m) = frees F"
    using ok by (rule buddy_okE)
  have w: "10 \<le> want" "want \<le> 17" using order_for_Some [OF want(1)] by auto
  have jb: "10 \<le> j" "j \<le> 17" using buddy_inv_block(1,2) [OF inv, of j b] j(1) fb by auto
  have hj: "head s j \<noteq> 0" using head_none [OF inv jb] j(1) fb by auto
  obtain k where k: "find_have s want = Some k"
    using find_have_spec [of s want] hj j(2) jb(2) by (cases "find_have s want") auto
  have kk: "want \<le> k" "k \<le> 17" "head s k \<noteq> 0" "k \<le> j"
    using find_have_spec [of s want j] find_have_spec [of s want k] k hj j(2) not_le by auto
  obtain a s1 where pop: "pop k (s, m) = (a, s1, m)" and ka: "(k, a) \<in> frees F"
    and P: "buddy_inv (s_base s) s1 m (F(k := remove1 a (F k))) (insert (k, a) {})"
      "lives s1 = lives s" "s_order s1 = s_order s" "s_base s1 = s_base s"
    using pop_inv [OF inv, of k] kk w by auto
  obtain s2 m2 where sd: "split_down want k a (s1, m) = (s2, m2)" by fastforce
  obtain F2 where F2: "buddy_inv (s_base s) s2 m2 F2 {(want, a)}" "lives s2 = lives s1"
    "s_base s2 = s_base s1" "mem_eq_outside (blk (k, a)) m m2"
    "frees F2 = frees (F(k := remove1 a (F k))) \<union> {(i, a + 2 ^ i) |i. want \<le> i \<and> i < k}"
    using split_down_inv [OF P(1) w(1) kk(1) sd] by blast
  let ?s = "s2\<lparr>s_order := (s_order s2)[idx_of s2 a := of_nat want]\<rparr>"
  note M = mark_live_inv [OF F2(1) refl]
  have run: "mdl_buddy_alloc sz (s, m) = (a, ?s, m2)"
    using want k pop sd by (simp add: mdl_buddy_alloc_def)
  have fr: "frees F2 = frees F - {(k, a)} \<union> {(i, a + 2 ^ i) |i. want \<le> i \<and> i < k}"
    using F2(5) frees_remove1 [where F = F and k = k, OF buddy_inv_rep(5) [OF inv]] by simp
  show ?thesis
    unfolding fb
    using run buddy_okI [OF M(1)] kk(1,4) ka M(2) F2 P(2,4) fr free_blocks_frees [OF M(1)]
    by (intro exI [of _ k] exI [of _ a] exI [of _ ?s] exI [of _ m2]) (simp add: live_blocks_def)
qed

lemma alloc_none:
  assumes ok: "buddy_ok (s, m)"
    and no: "sz = 0 \<or> order_for sz = None \<or> (\<exists>want. order_for sz = Some want \<and> (\<forall>(k, a) \<in> free_blocks (s, m). k < want))"
  shows "mdl_buddy_alloc sz (s, m) = (0, s, m)"
proof -
  obtain F where inv: "buddy_inv (s_base s) s m F {}" and fb: "free_blocks (s, m) = frees F"
    using ok by (rule buddy_okE)
  have "find_have s want = None"
    if "order_for sz = Some want" "\<forall>(k, a) \<in> free_blocks (s, m). k < want" for want
  proof (rule ccontr)
    assume "find_have s want \<noteq> None"
    then obtain k where "find_have s want = Some k" by blast
    then have k: "want \<le> k" "k \<le> 17" "head s k \<noteq> 0" using find_have_spec [of s want k] by auto
    then have "\<exists>a. (k, a) \<in> frees F" using head_none [OF inv, of k] order_for_Some(1) [OF that(1)] by auto
    then show False using that(2) k(1) fb by auto
  qed
  then show ?thesis using no by (auto simp: mdl_buddy_alloc_def)
qed

section \<open>Freeing\<close>

text \<open>The partner computed with \<open>XOR\<close> is the partner half.\<close>

lemma nat_xor_bit:
  assumes "2 ^ k dvd (x :: nat)"
  shows "x XOR 2 ^ k = partner k x"
proof -
  obtain q where q: "x = push_bit k q" using assms by (auto simp: push_bit_eq_mult mult.commute elim: dvdE)
  have "x XOR 2 ^ k = push_bit k q XOR push_bit k 1" by (simp add: q push_bit_of_1)
  also have "\<dots> = push_bit k (q XOR 1)" by (simp only: push_bit_xor)
  also have "q XOR 1 = (if even q then q + 1 else q - 1)" by (cases "even q") (simp_all only: xor_one_eq, simp_all)
  finally show ?thesis using partner_mult [of k q] q by (simp add: push_bit_eq_mult mult.commute)
qed

lemma partner_shift:
  assumes "2 ^ Suc k dvd (base :: nat)" "2 ^ k dvd a" "base \<le> a"
  shows "base + partner k (a - base) = partner k a"
proof -
  obtain b where b: "base = 2 ^ Suc k * b" using assms(1) by (auto elim: dvdE)
  then have b2: "base = 2 ^ k * (2 * b)" by simp
  obtain q where q: "a = 2 ^ k * q" using assms(2) by (auto elim: dvdE)
  have le: "2 * b \<le> q" using assms(3) b2 q by simp
  then obtain r where r: "q = 2 * b + r" using le_Suc_ex by blast
  have ab: "a - base = 2 ^ k * r" using b2 q r by (simp add: distrib_left)
  have "base + partner k (a - base) = 2 ^ k * (2 * b + (if even r then r + 1 else r - 1))"
    unfolding ab partner_mult using b2 by (simp add: distrib_left)
  also have "2 * b + (if even r then r + 1 else r - 1) = (if even q then q + 1 else q - 1)"
    unfolding r by (auto elim: oddE)
  finally show ?thesis unfolding q partner_mult .
qed

lemma buddy_xor:
  assumes "pool_ok base" "2 ^ k dvd a" "k < 17" "base \<le> a" "a < base + 2 ^ 17"
  shows "add32 base (sub32 a base XOR 2 ^ k) = partner k a"
proof -
  have d: "2 ^ 17 dvd base" and lim: "base + 2 ^ 17 < 2 ^ 32" using assms(1) by (auto simp: pool_ok_def)
  have dk: "2 ^ Suc k dvd base" "2 ^ k dvd base"
    using d assms(3) by (meson dvd_trans le_imp_power_dvd Suc_leI less_imp_le)+
  have s: "sub32 a base = a - base" using assms(4,5) lim by simp
  have x: "(a - base) XOR 2 ^ k = partner k (a - base)"
    using dk assms(2) by (intro nat_xor_bit) (simp add: dvd_diff_nat)
  have sh: "base + partner k (a - base) = partner k a" by (rule partner_shift [OF dk(1) assms(2,4)])
  have "partner k a < base + 2 ^ 17" using partner_in_pool [OF d assms(2-5)] by simp
  then show ?thesis unfolding s x using sh lim by simp
qed

lemma cover_chain: "B = D \<union> E \<Longrightarrow> E \<subseteq> G \<Longrightarrow> C \<subseteq> G \<Longrightarrow> A \<subseteq> B \<union> C \<Longrightarrow> A \<subseteq> D \<union> (G :: nat set)"
  by blast

lemma coalesce_inv:
  assumes "buddy_inv base s m F {(k, a)}"
  shows "\<exists>k' a' s' m' F'. coalesce k a (s, m) = Some (k', a', s', m')
    \<and> buddy_inv base s' m' F' {(k', a')} \<and> (k' < 17 \<longrightarrow> (k', partner k' a') \<notin> frees F')
    \<and> lives s' = lives s \<and> s_base s' = s_base s \<and> s_order s' = s_order s
    \<and> frees F' \<subseteq> frees F
    \<and> mem_eq_outside (\<Union> (blk ` frees F)) m m' \<and> blk (k', a') \<subseteq> blk (k, a) \<union> \<Union> (blk ` frees F)"
  using assms
proof (induction k a "(s, m)" arbitrary: s m F rule: coalesce.induct)
  case (1 k a s m)
  note inv = "1.prems"
  note b = buddy_inv_block [OF inv, of k a, simplified] and r = buddy_inv_rep [OF inv]
  note c = buddy_inv_config [OF inv]
  show ?case
  proof (cases "k < 17")
    case False
    then have "coalesce k a (s, m) = Some (k, a, s, m)" by (simp add: coalesce.simps [of k a])
    then show ?thesis using inv False by (intro exI [of _ k] exI [of _ a] exI [of _ s] exI [of _ m] exI [of _ F]) auto
  next
    case True
    define p where "p = partner k a"
    have "0 < (2::nat) ^ k" by simp
    then have "a < a + 2 ^ k" by (rule less_add_same_cancel1 [THEN iffD2])
    then have lt: "a < base + 2 ^ 17" using buddy_inv_block(5) [OF inv, of k a] by (meson UnI2 insertI1 less_le_trans)
    have bud: "add32 (s_base s) (sub32 a (s_base s) XOR 2 ^ k) = p"
      unfolding r(1) p_def using inv b True lt by (intro buddy_xor) (auto simp: buddy_inv_def)
    obtain s1 m1 where U: "unlink_at k p (s, m) = Some (p \<in> set (F k), s1, m1)"
      "buddy_inv base s1 m1 (if p \<in> set (F k) then F(k := remove1 p (F k)) else F)
          (if p \<in> set (F k) then insert (k, p) {(k, a)} else {(k, a)})"
      "lives s1 = lives s" "s_base s1 = s_base s" "s_order s1 = s_order s"
      "mem_eq_outside (\<Union> (blk ` frees F)) m m1"
      using unlink_inv [OF inv b(1,2), of p] by blast
    show ?thesis
    proof (cases "p \<in> set (F k)")
      case False
      then have "coalesce k a (s, m) = Some (k, a, s1, m1)"
        using U(1) True bud by (simp add: coalesce.simps [of k a] Let_def)
      then show ?thesis using U False
        by (intro exI [of _ k] exI [of _ a] exI [of _ s1] exI [of _ m1] exI [of _ F])
          (auto simp: p_def frees_mem)
    next
      case pin: True
      let ?F1 = "F(k := remove1 p (F k))"
      let ?a = "if p < a then p else a"
      have fr: "frees ?F1 = frees F - {(k, p)}" by (rule frees_remove1 [where F = F and k = k, OF r(5)])
      have pk: "(k, p) \<in> frees F" using pin by (simp add: frees_mem)
      have i1: "buddy_inv base s1 m1 ?F1 {(k, a), (k, p)}" using U(2) pin by (simp add: insert_commute)
      have mn: "?a = min a p" by auto
      have i2: "buddy_inv base s1 m1 ?F1 {(Suc k, ?a)}"
        unfolding mn
        by (rule buddy_inv_hand [OF i1], unfold p_def)
          (rule config_merge [OF buddy_inv_config [OF i1, unfolded p_def] True])
      have step: "coalesce k a (s, m) = coalesce (Suc k) ?a (s1, m1)"
        using U(1) True bud pin by (simp add: coalesce.simps [of k a] Let_def)
      have "\<exists>k' a' s' m' F'. coalesce (k + 1) ?a (s1, m1) = Some (k', a', s', m')
        \<and> buddy_inv base s' m' F' {(k', a')} \<and> (k' < 17 \<longrightarrow> (k', partner k' a') \<notin> frees F')
        \<and> lives s' = lives s1 \<and> s_base s' = s_base s1 \<and> s_order s' = s_order s1
        \<and> frees F' \<subseteq> frees ?F1
        \<and> mem_eq_outside (\<Union> (blk ` frees ?F1)) m1 m' \<and> blk (k', a') \<subseteq> blk (k + 1, ?a) \<union> \<Union> (blk ` frees ?F1)"
        using True bud U(1) pin i2 by (intro "1.hyps") auto
      then obtain k' a' s' m' F' where R: "coalesce (k + 1) ?a (s1, m1) = Some (k', a', s', m')"
        "buddy_inv base s' m' F' {(k', a')}" "k' < 17 \<longrightarrow> (k', partner k' a') \<notin> frees F'"
        "lives s' = lives s1" "s_base s' = s_base s1" "s_order s' = s_order s1"
        "frees F' \<subseteq> frees ?F1" "mem_eq_outside (\<Union> (blk ` frees ?F1)) m1 m'"
        "blk (k', a') \<subseteq> blk (k + 1, ?a) \<union> \<Union> (blk ` frees ?F1)" by blast
      have "blk (Suc k, ?a) = blk (k, a) \<union> blk (k, p)"
        using blk_split [of k ?a] min_partner_aligned(2) [OF b(3)] unfolding mn p_def
        by (auto simp: min_def max_def)
      moreover have "blk (k, p) \<subseteq> \<Union> (blk ` frees F)" "\<Union> (blk ` frees ?F1) \<subseteq> \<Union> (blk ` frees F)"
        using pk fr by blast+
      moreover have "blk (k', a') \<subseteq> blk (Suc k, ?a) \<union> \<Union> (blk ` frees ?F1)"
        using R(9) by (simp only: Suc_eq_plus1)
      ultimately have e1: "blk (k', a') \<subseteq> blk (k, a) \<union> \<Union> (blk ` frees F)"
        using cover_chain by metis
      have e2: "mem_eq_outside (\<Union> (blk ` frees F)) m m'"
        by (rule mem_eq_outside_trans [OF U(6) R(8)]) (use fr in blast)+
      have e3: "coalesce k a (s, m) = Some (k', a', s', m')" using step R(1) by simp
      have e4: "lives s' = lives s" "s_base s' = s_base s" "s_order s' = s_order s"
        using R(4-6) U(3-5) by simp_all
      have e5: "frees F' \<subseteq> frees F" using R(7) fr by blast
      show ?thesis by (intro exI conjI) (rule e3 R(2,3) e4 e5 e2 e1)+
    qed
  qed
qed

lemma free_target_live:
  assumes "buddy_inv base s m F {}"
  shows "case free_target p s of
      None \<Rightarrow> (\<forall>k. (k, p) \<notin> lives s)
    | Some (i, k) \<Rightarrow> (k, p) \<in> lives s \<and> i = idx_of s p"
proof -
  note r = buddy_inv_rep [OF assms] and pl = buddy_inv_pool [OF assms]
  have add: "add32 base (2 ^ 17) = base + 2 ^ 17" using pl(3) by simp
  show ?thesis
  proof (cases "p = 0 \<or> p < base \<or> base + 2 ^ 17 \<le> p \<or> sub32 p base mod 1024 \<noteq> 0")
    case True
    have "(k, p) \<notin> lives s" for k
    proof
      assume live: "(k, p) \<in> lives s"
      note b = buddy_inv_block [OF assms, of k p] and i = idx_of_block [OF assms, of k p]
      have "p < base + 2 ^ 17" "base \<le> p" "0 < p" using b live by auto
      moreover have "sub32 p base = p - base" using b(4,7) live by simp
      moreover have "p - base = 1024 * idx_of s p" using i(2) live by (metis UnI1 UnI2 add_diff_cancel_left')
      ultimately have "sub32 p base mod 1024 = 0" by simp
      then show False using True \<open>p < base + 2 ^ 17\<close> \<open>base \<le> p\<close> \<open>0 < p\<close> by auto
    qed
    moreover have "free_target p s = None" using True add r(1) by (auto simp: free_target_def)
    ultimately show ?thesis by simp
  next
    case False
    then have rng: "p \<noteq> 0" "base \<le> p" "p < base + 2 ^ 17" and md: "(p - base) mod 1024 = 0"
      using pl by auto
    let ?i = "idx_of s p"
    have e: "?i = (p - base) div 1024" using rng pl r(1) by (simp add: idx_of_def drop_bit_eq_div)
    then have i: "?i < 128" "p = base + 1024 * ?i" using rng md by (auto simp: less_mult_imp_div_less)
    have at: "((k, p) \<in> lives s) = (k = unat (s_order s ! ?i) \<and> k \<noteq> 0)" for k
      using lives_at [OF r(3) i(1), of k] i(2) r(1) by simp
    have ft: "free_target p s = (let k = unat (s_order s ! ?i) in if k < 10 \<or> 17 < k then None else Some (?i, k))"
      using False add r(1) unfolding free_target_def by simp
    let ?k = "unat (s_order s ! ?i)"
    show ?thesis
    proof (cases "?k = 0")
      case True
      then have "free_target p s = None" using ft by simp
      then show ?thesis using at True by auto
    next
      case False
      then have lk: "(?k, p) \<in> lives s" using at [of ?k] by blast
      have "\<not> (?k < 10 \<or> 17 < ?k)" using buddy_inv_block(1,2) [OF assms UnI1 [OF UnI2 [OF lk]]] by linarith
      then have "free_target p s = Some (?i, ?k)" using ft by (simp only: Let_def if_False)
      then show ?thesis using lk by simp
    qed
  qed
qed

lemma free_inv:
  assumes ok: "buddy_ok (s, m)" and live: "(k, p) \<in> live_blocks (s, m)"
  shows "\<exists>s' m'. mdl_buddy_free p (s, m) = Some (s', m') \<and> buddy_ok (s', m')
    \<and> live_blocks (s', m') = live_blocks (s, m) - {(k, p)} \<and> s_base s' = s_base s
    \<and> mem_eq_outside (blk (k, p) \<union> \<Union> (blk ` free_blocks (s, m))) m m'"
proof -
  obtain F where inv: "buddy_inv (s_base s) s m F {}" and fb: "free_blocks (s, m) = frees F"
    using ok by (rule buddy_okE)
  have lv: "(k, p) \<in> lives s" using live by (simp add: live_blocks_def)
  note c = buddy_inv_config [OF inv] and r = buddy_inv_rep [OF inv]
  have uniq: "j = k" if "(j, p) \<in> lives s" for j using config_start_unique [OF c, of j p k] that lv by simp
  have ft: "free_target p s = Some (idx_of s p, k)"
  proof (cases "free_target p s")
    case None
    then show ?thesis using free_target_live [OF inv, of p] lv by auto
  next
    case (Some ik)
    then obtain i' k' where "free_target p s = Some (i', k')" by (cases ik) auto
    then show ?thesis using free_target_live [OF inv, of p] uniq [of k'] by auto
  qed
  note i = idx_of_block [OF inv UnI1 [OF UnI2 [OF lv]]]
  let ?s = "s\<lparr>s_order := (s_order s)[idx_of s p := 0]\<rparr>"
  have "lives ?s = {(j, x) \<in> lives s. x \<noteq> p}"
    using lives_update [OF r(3) i(1), of 0] i(2) by simp
  then have lv': "lives ?s = lives s - {(k, p)}" by (auto dest: uniq)
  have inv1: "buddy_inv (s_base s) ?s m F {(k, p)}"
    using inv config_unlive [OF c lv] lv' buddy_rep_order [of "(s_order s)[idx_of s p := 0]"] r(3)
    by (simp add: buddy_inv_def)
  obtain k' a' s1 m1 F1 where C: "coalesce k p (?s, m) = Some (k', a', s1, m1)"
    "buddy_inv (s_base s) s1 m1 F1 {(k', a')}" "k' < 17 \<longrightarrow> (k', partner k' a') \<notin> frees F1"
    "lives s1 = lives ?s" "s_base s1 = s_base s" "mem_eq_outside (\<Union> (blk ` frees F)) m m1"
    "blk (k', a') \<subseteq> blk (k, p) \<union> \<Union> (blk ` frees F)"
    using coalesce_inv [OF inv1] by auto
  obtain s2 m2 where pu: "push k' a' (s1, m1) = (s2, m2)" by fastforce
  note P = push_inv [OF C(2) _ _ pu]
  have run: "mdl_buddy_free p (s, m) = Some (s2, m2)" using ft C(1) pu by (simp add: mdl_buddy_free_def)
  have "mem_eq_outside (blk (k, p) \<union> \<Union> (blk ` frees F)) m m2"
    by (rule mem_eq_outside_trans [OF C(6) P(3)]) (use C(3,7) in auto)
  moreover have "buddy_inv (s_base s) s2 m2 (F1(k' := a' # F1 k')) {}" "lives s2 = lives s1" "s_base s2 = s_base s1"
    using P C(3) by auto
  ultimately show ?thesis using run buddy_okI lv' C(4,5) by (auto simp: live_blocks_def fb)
qed

lemma free_ignored:
  assumes ok: "buddy_ok (s, m)" and dead: "\<And>k. (k, p) \<notin> live_blocks (s, m)"
  shows "mdl_buddy_free p (s, m) = Some (s, m)"
proof -
  obtain F where inv: "buddy_inv (s_base s) s m F {}" using ok by (rule buddy_okE)
  have "free_target p s = None"
    using free_target_live [OF inv, of p] dead by (auto simp: live_blocks_def split: option.splits)
  then show ?thesis by (simp add: mdl_buddy_free_def)
qed

section \<open>Statistics, initialisation, writes by the modules\<close>

lemma stats_walk_chain:
  assumes "chain m h xs" "tot + length xs * bs < 2 ^ 32"
  shows "stats_walk m bs h tot big = Some (tot + length xs * bs, if xs = [] then big else max big bs)"
  using assms
proof (induction xs arbitrary: h tot big)
  case Nil then show ?case by (simp add: stats_walk.simps)
next
  case (Cons x xs)
  have "add32 tot bs = tot + bs" using Cons.prems(2) by (intro add32_small) simp
  then show ?case using Cons by (subst stats_walk.simps) (auto simp: max_def)
qed

lemma Max_insert2: "finite A \<Longrightarrow> Max (insert a (insert b A)) = Max (insert (max a b) (A :: nat set))"
  by (cases "A = {}") (simp_all add: max.assoc)

lemma stats_orders_inv:
  assumes "\<And>j. 10 \<le> j \<Longrightarrow> j \<le> 17 \<Longrightarrow> chain m (head s j) (F j)" "10 \<le> k"
    "tot + (\<Sum>j = k..17. length (F j) * 2 ^ j) < 2 ^ 32"
  shows "stats_orders s m k tot big = Some (tot + (\<Sum>j = k..17. length (F j) * 2 ^ j),
    Max (insert big {2 ^ j |j. k \<le> j \<and> j \<le> 17 \<and> F j \<noteq> []}))"
  using assms
proof (induction s m k tot big rule: stats_orders.induct)
  case (1 s m k tot big)
  show ?case
  proof (cases "17 < k")
    case True
    then have "{(2::nat) ^ j |j. k \<le> j \<and> j \<le> 17 \<and> F j \<noteq> []} = {}" by auto
    then have "Max (insert big {2 ^ j |j. k \<le> j \<and> j \<le> 17 \<and> F j \<noteq> []}) = big" by (metis Max_singleton)
    with True show ?thesis by (simp add: stats_orders.simps [of s m k])
  next
    case False
    then have S: "(\<Sum>j = k..17. length (F j) * 2 ^ j) =
        length (F k) * 2 ^ k + (\<Sum>j = k + 1..17. length (F j) * 2 ^ j)"
      by (simp add: sum.atLeast_Suc_atMost)
    let ?big = "if F k = [] then big else max big (2 ^ k)"
    have w: "stats_walk m (2 ^ k) (head s k) tot big = Some (tot + length (F k) * 2 ^ k, ?big)"
      using "1.prems" False S by (intro stats_walk_chain) auto
    have fin: "finite {2 ^ j |j. k + 1 \<le> j \<and> j \<le> 17 \<and> F j \<noteq> []}" by simp
    have split: "{2 ^ j |j. k \<le> j \<and> j \<le> 17 \<and> F j \<noteq> []} =
        (if F k = [] then {} else {2 ^ k}) \<union> {(2::nat) ^ j |j. k + 1 \<le> j \<and> j \<le> 17 \<and> F j \<noteq> []}"
      using False by (auto simp: Suc_le_eq order.order_iff_strict)
    have mx: "Max (insert big {2 ^ j |j. k \<le> j \<and> j \<le> 17 \<and> F j \<noteq> []}) =
        Max (insert ?big {2 ^ j |j. k + 1 \<le> j \<and> j \<le> 17 \<and> F j \<noteq> []})"
    proof (cases "F k = []")
      case True then show ?thesis unfolding split by simp
    next
      case False
      then show ?thesis unfolding split using Max_insert2 [OF fin, of big "2 ^ k"] by simp
    qed
    have "stats_orders s m (k + 1) (tot + length (F k) * 2 ^ k) ?big =
        Some (tot + length (F k) * 2 ^ k + (\<Sum>j = k + 1..17. length (F j) * 2 ^ j),
          Max (insert ?big {2 ^ j |j. k + 1 \<le> j \<and> j \<le> 17 \<and> F j \<noteq> []}))"
      using "1.prems" False S by (intro "1.IH" [OF _ w refl]) auto
    then show ?thesis using w False S mx by (simp add: stats_orders.simps [of s m k])
  qed
qed

lemma frees_Sigma:
  assumes "buddy_inv base s m F H"
  shows "frees F = (SIGMA k : {10..17}. set (F k))"
proof -
  have "10 \<le> k \<and> k \<le> 17" if "a \<in> set (F k)" for k a
    using buddy_inv_rep(6) [OF assms, of k] that by force
  then show ?thesis by (auto simp: frees_def)
qed

lemma frees_sum:
  assumes "buddy_inv base s m F H"
  shows "(\<Sum>p \<in> frees F. 2 ^ fst p) = (\<Sum>j = 10..17. length (F j) * 2 ^ j)"
proof -
  have "(\<Sum>p \<in> frees F. 2 ^ fst p) = (\<Sum>(k, a) \<in> (SIGMA k : {10..17}. set (F k)). 2 ^ k)"
    unfolding frees_Sigma [OF assms] by (intro sum.cong) auto
  also have "\<dots> = (\<Sum>k = 10..17. \<Sum>a \<in> set (F k). 2 ^ k)" by (rule sum.Sigma [symmetric]) auto
  also have "\<dots> = (\<Sum>j = 10..17. length (F j) * 2 ^ j)"
    using buddy_inv_rep(5) [OF assms] by (simp add: distinct_card)
  finally show ?thesis .
qed

lemma finite_lives: "finite (lives s)"
proof -
  have "lives s \<subseteq> (\<lambda>i. (unat (s_order s ! i), s_base s + 1024 * i)) ` {..<128}"
    by (auto simp: lives_def)
  then show ?thesis by (rule finite_subset) simp
qed

lemma stats_ok:
  assumes ok: "buddy_ok (s, m)"
  shows "finite (free_blocks (s, m))"
    "(\<Sum>p \<in> free_blocks (s, m). 2 ^ fst p) + (\<Sum>p \<in> live_blocks (s, m). 2 ^ fst p) = (2 ^ 17 :: nat)"
    "mdl_buddy_stats (s, m) = Some (\<Sum>p \<in> free_blocks (s, m). 2 ^ fst p,
       Max (insert 0 ((\<lambda>p. 2 ^ fst p) ` free_blocks (s, m))))"
proof -
  obtain F where inv: "buddy_inv (s_base s) s m F {}" and fb: "free_blocks (s, m) = frees F"
    using ok by (rule buddy_okE)
  show fin: "finite (free_blocks (s, m))" unfolding fb frees_Sigma [OF inv] by simp
  show bytes: "(\<Sum>p \<in> free_blocks (s, m). 2 ^ fst p) + (\<Sum>p \<in> live_blocks (s, m). 2 ^ fst p) = (2 ^ 17 :: nat)"
    using config_bytes [OF buddy_ok_config [OF ok] fin] finite_lives by (simp add: live_blocks_def)
  have lim: "(\<Sum>j = 10..17. length (F j) * 2 ^ j) < (2::nat) ^ 32"
    using bytes fb frees_sum [OF inv] by simp
  have ne: "F j \<noteq> [] \<longleftrightarrow> (\<exists>a. a \<in> set (F j))" for j by (cases "F j") auto
  have "{(2::nat) ^ j |j. 10 \<le> j \<and> j \<le> 17 \<and> F j \<noteq> []} = (\<lambda>p. 2 ^ fst p) ` frees F"
    unfolding frees_Sigma [OF inv] ne by (force simp: image_iff)
  then show "mdl_buddy_stats (s, m) = Some (\<Sum>p \<in> free_blocks (s, m). 2 ^ fst p,
       Max (insert 0 ((\<lambda>p. 2 ^ fst p) ` free_blocks (s, m))))"
    using stats_orders_inv [of m s F 10 0 0, OF buddy_inv_rep(4) [OF inv]] lim frees_sum [OF inv]
    by (simp add: mdl_buddy_stats_def fb)
qed

lemma init_inv:
  assumes "pool_ok base"
  shows "buddy_ok (mdl_buddy_init base m)" "live_blocks (mdl_buddy_init base m) = {}"
    "free_blocks (mdl_buddy_init base m) = {(17, base)}" "s_base (fst (mdl_buddy_init base m)) = base"
proof -
  let ?s0 = "\<lparr>s_base = base, s_free = replicate 8 0, s_order = replicate 128 0\<rparr>"
  have head0: "head ?s0 k = 0" if "10 \<le> k" "k \<le> 17" for k using that by (simp add: head_def)
  have lv0: "lives ?s0 = {}" by (auto simp: lives_def)
  have rep: "buddy_rep base ?s0 m (\<lambda>_. [])" using head0 by (simp add: buddy_rep_def)
  have "config base {} {} {(17, base)}"
    using assms config_init [of base] by (auto simp: pool_ok_def config_def no_partners_def)
  then have inv: "buddy_inv base ?s0 m (\<lambda>_. []) (insert (17, base) {})"
    using assms rep lv0 by (simp add: buddy_inv_def frees_def)
  obtain s' m' where p: "push 17 base (?s0, m) = (s', m')" by fastforce
  have i: "mdl_buddy_init base m = (s', m')" using p by (simp add: mdl_buddy_init_def)
  note P = push_inv [OF inv _ _ p, simplified]
  show "buddy_ok (mdl_buddy_init base m)" unfolding i using buddy_okI P(1) by blast
  show "live_blocks (mdl_buddy_init base m) = {}" unfolding i using P(2) lv0 by (simp add: live_blocks_def)
  show "free_blocks (mdl_buddy_init base m) = {(17, base)}"
    unfolding i free_blocks_frees [OF P(1)] by (auto simp: frees_def split: if_splits)
  show "s_base (fst (mdl_buddy_init base m)) = base" unfolding i using P(5) by simp
qed

text \<open>
  Modules write into their live blocks between the allocator's operations. No
  link word lies in a live block, so such writes keep the invariant.
\<close>

lemma client_write_inv:
  assumes ok: "buddy_ok (s, m)" and out: "mem_eq_outside (\<Union> (blk ` live_blocks (s, m))) m m'"
  shows "buddy_ok (s, m')" "free_blocks (s, m') = free_blocks (s, m)"
proof -
  obtain F where inv: "buddy_inv (s_base s) s m F {}" and fb: "free_blocks (s, m) = frees F"
    using ok by (rule buddy_okE)
  have nx: "next_of m' x = next_of m x" if "x \<in> set (F j)" for x j
  proof -
    have fx: "(j, x) \<in> frees F" using that by (simp add: frees_mem)
    have "10 \<le> j" using buddy_inv_block(1) [OF inv] fx by blast
    then have "(2::nat) ^ 2 \<le> 2 ^ j" by (intro power_increasing) auto
    then have w: "{x, x + 1, x + 2, x + 3} \<subseteq> blk (j, x)" by auto
    have dis: "blk (j, x) \<inter> blk q = {}" if "q \<in> lives s" for q
      using config_disjoint [OF buddy_inv_config [OF inv], of "(j, x)" q] fx that
        buddy_inv_config [OF inv] unfolding config_def by blast
    have "y \<notin> \<Union> (blk ` live_blocks (s, m))" if y: "y \<in> {x, x + 1, x + 2, x + 3}" for y
    proof -
      have "y \<in> blk (j, x)" using w y by (rule subsetD)
      then show ?thesis using dis unfolding live_blocks_def fst_conv by blast
    qed
    then show ?thesis using out by (simp add: next_of_def ld32_def mem_eq_outside_def)
  qed
  have "chain m' h (F j) = chain m h (F j)" for h j by (rule chain_frame) (rule nx)
  then have "buddy_inv (s_base s) s m' F {}" using inv by (simp add: buddy_inv_def buddy_rep_def)
  then show "buddy_ok (s, m')" "free_blocks (s, m') = free_blocks (s, m)"
    using buddy_okI free_blocks_frees fb by auto
qed

section \<open>The contract\<close>

text \<open>
  What the arena and the loader rely on. \<open>spare want\<close>: some free block is at
  least as large as the request.
\<close>

definition spare :: "nat \<Rightarrow> bstate \<Rightarrow> bool" where
  "spare sz st \<longleftrightarrow> (\<exists>(k, a) \<in> free_blocks st. sz \<le> 2 ^ k)"

lemma alloc_full:
  assumes "buddy_ok st" "mdl_buddy_alloc sz st = (a, st')"
  shows "buddy_ok st' \<and> s_base (fst st') = s_base (fst st)
    \<and> (if sz = 0 \<or> \<not> spare sz st then a = 0 \<and> st' = st
       else \<exists>k. mdl_buddy_block_size sz = 2 ^ k \<and> sz \<le> 2 ^ k \<and> (k = 10 \<or> 2 ^ (k - 1) < sz)
              \<and> a \<noteq> 0 \<and> 2 ^ k dvd a \<and> s_base (fst st) \<le> a \<and> a + 2 ^ k \<le> s_base (fst st) + 2 ^ 17
              \<and> (\<forall>b \<in> live_blocks st. blk (k, a) \<inter> blk b = {})
              \<and> live_blocks st' = insert (k, a) (live_blocks st)
              \<and> mem_eq_outside (\<Union> (blk ` free_blocks st)) (snd st) (snd st'))"
proof -
  obtain s m where st: "st = (s, m)" by fastforce
  have mono: "2 ^ want \<le> (2::nat) ^ k" if "want \<le> k" for want k using that by (intro power_increasing) auto
  note fit = order_for_fit
  have k10: "10 \<le> k" if "(k, x) \<in> free_blocks st" for k x using that by (simp add: free_blocks_def)
  have k17: "k \<le> 17" if "(k, x) \<in> free_blocks st" for k x using that by (simp add: free_blocks_def)
  show ?thesis
  proof (cases "sz = 0 \<or> \<not> spare sz st")
    case True
    have lt: "k < want" if "sz \<noteq> 0" "order_for sz = Some want" "(k, x) \<in> free_blocks st" for want k x
    proof (rule ccontr)
      assume "\<not> k < want"
      then have "sz \<le> 2 ^ k" using order_for_Some(3) [OF that(2)] mono [of want k] by linarith
      then show False using True that(1,3) by (auto simp: spare_def)
    qed
    have "mdl_buddy_alloc sz (s, m) = (0, s, m)"
    proof (rule alloc_none)
      show "buddy_ok (s, m)" using assms(1) st by simp
      show "sz = 0 \<or> order_for sz = None
          \<or> (\<exists>want. order_for sz = Some want \<and> (\<forall>(k, a) \<in> free_blocks (s, m). k < want))"
        using lt st by (cases "order_for sz") blast+
    qed
    then show ?thesis using True assms st by auto
  next
    case False
    then obtain j b where j: "(j, b) \<in> free_blocks st" "sz \<le> 2 ^ j" by (auto simp: spare_def)
    have "sz \<le> 2 ^ 17" using j(2) mono [OF k17 [OF j(1)]] by linarith
    then obtain want where want: "order_for sz = Some want" using order_for_None [of sz] by (cases "order_for sz") auto
    obtain k s' m' where A: "mdl_buddy_alloc sz (s, m) = (a, s', m')" "buddy_ok (s', m')"
      "want \<le> k" "(k, a) \<in> free_blocks (s, m)"
      "live_blocks (s', m') = insert (want, a) (live_blocks (s, m))"
      "mem_eq_outside (blk (k, a)) m m'" "s_base s' = s_base s" "st' = (s', m')"
      using alloc_inv [of s m sz want j b] assms st want False j fit [OF want j(2) k10 [OF j(1)]] by auto
    note c = buddy_ok_config [OF assms(1)] and c' = buddy_ok_config [OF A(2)]
    have wa: "(want, a) \<in> live_blocks (s', m')" using A(5) by blast
    note b = config_blockD [OF c' UnI1 [OF UnI2 [OF wa]], simplified A(7) fst_conv]
    have sub: "blk (want, a) \<subseteq> blk (k, a)" using mono [OF A(3)] by auto
    have dis: "blk (want, a) \<inter> blk q = {}" if "q \<in> live_blocks st" for q
    proof -
      have "(k, a) \<noteq> q" using c that A(4) st by (auto simp: config_def)
      then have "blk (k, a) \<inter> blk q = {}" using config_disjoint [OF c] that A(4) st by blast
      then show ?thesis using sub by blast
    qed
    have a0: "a \<noteq> 0" using assms(1) st b(4) by (auto simp: buddy_ok_def buddy_inv_def pool_ok_def)
    have mo: "mem_eq_outside (\<Union> (blk ` free_blocks st)) m m'"
      using A(4,6) st unfolding mem_eq_outside_def by blast
    show ?thesis
      using False A b dis a0 mo st want order_for_Some(3,4) [OF want]
      by (auto simp: mdl_buddy_block_size_def)
  qed
qed

lemma free_full:
  assumes "buddy_ok st"
  shows "\<exists>st'. mdl_buddy_free p st = Some st' \<and> buddy_ok st' \<and> s_base (fst st') = s_base (fst st)
    \<and> live_blocks st' = {b \<in> live_blocks st. snd b \<noteq> p}
    \<and> (\<forall>b \<in> live_blocks st'. \<forall>x \<in> blk b. snd st' x = snd st x)
    \<and> (p \<notin> snd ` live_blocks st \<longrightarrow> st' = st)"
proof -
  obtain s m where st: "st = (s, m)" by fastforce
  note c = buddy_ok_config [OF assms]
  have dj: "free_blocks st \<inter> live_blocks st = {}" using c unfolding config_def by blast
  show ?thesis
  proof (cases "p \<in> snd ` live_blocks st")
    case False
    then have "mdl_buddy_free p (s, m) = Some (s, m)"
      using assms st by (intro free_ignored) (auto simp: image_iff)
    moreover have "{b \<in> live_blocks st. snd b \<noteq> p} = live_blocks st" using False by auto
    ultimately show ?thesis using assms st by simp
  next
    case True
    then obtain k where k: "(k, p) \<in> live_blocks st" by auto
    obtain s' m' where F: "mdl_buddy_free p (s, m) = Some (s', m')" "buddy_ok (s', m')"
      "live_blocks (s', m') = live_blocks (s, m) - {(k, p)}" "s_base s' = s_base s"
      "mem_eq_outside (blk (k, p) \<union> \<Union> (blk ` free_blocks (s, m))) m m'"
      using free_inv [of s m k p] assms k st by blast
    have uniq: "q = (k, p)" if "q \<in> live_blocks st" "snd q = p" for q
      using config_start_unique [OF c, of "fst q" p k] that k by (cases q) auto
    have L: "live_blocks (s', m') = {b \<in> live_blocks st. snd b \<noteq> p}"
      unfolding F(3) st [symmetric]
    proof (rule set_eqI)
      fix q
      show "q \<in> live_blocks st - {(k, p)} \<longleftrightarrow> q \<in> {b \<in> live_blocks st. snd b \<noteq> p}"
        using uniq [of q] k by (cases "q = (k, p)") auto
    qed
    have "m' x = m x" if q: "q \<in> live_blocks (s', m')" "x \<in> blk q" for q x
    proof -
      have ql: "q \<in> live_blocks st" "q \<noteq> (k, p)" using q(1) F(3) st by auto
      have "blk (k, p) \<inter> blk q = {}" using config_disjoint [OF c, of "(k, p)" q] ql k by blast
      moreover have "blk f \<inter> blk q = {}" if "f \<in> free_blocks st" for f
        using config_disjoint [OF c, of f q] ql that dj by blast
      ultimately have "x \<notin> blk (k, p) \<union> \<Union> (blk ` free_blocks (s, m))" using q(2) st by blast
      then show ?thesis using F(5) by (simp add: mem_eq_outside_def)
    qed
    then show ?thesis using F L st True by auto
  qed
qed

lemma stats_full:
  assumes "buddy_ok st"
  shows "\<exists>free_total largest. mdl_buddy_stats st = Some (free_total, largest)
    \<and> free_total + (\<Sum>b \<in> live_blocks st. 2 ^ fst b) = 2 ^ 17
    \<and> (\<forall>sz. fst (mdl_buddy_alloc sz st) \<noteq> 0 \<longleftrightarrow> 0 < sz \<and> sz \<le> largest)"
proof -
  obtain s m where st: "st = (s, m)" by fastforce
  note S = stats_ok [OF assms [unfolded st], folded st]
  let ?L = "Max (insert 0 ((\<lambda>p. 2 ^ fst p) ` free_blocks st)) :: nat"
  have "fst (mdl_buddy_alloc sz st) \<noteq> 0 \<longleftrightarrow> 0 < sz \<and> sz \<le> ?L" for sz
  proof -
    obtain a st' where r: "mdl_buddy_alloc sz st = (a, st')" by (cases "mdl_buddy_alloc sz st")
    have "a \<noteq> 0 \<longleftrightarrow> 0 < sz \<and> spare sz st" using alloc_full [OF assms r] by (auto split: if_splits)
    moreover have "spare sz st \<longleftrightarrow> (\<exists>p \<in> free_blocks st. sz \<le> 2 ^ fst p)" by (force simp: spare_def)
    ultimately have "a \<noteq> 0 \<longleftrightarrow> 0 < sz \<and> sz \<le> ?L" using S(1) by (auto simp: Max_ge_iff)
    then show ?thesis using r by simp
  qed
  then show ?thesis using S by auto
qed

section \<open>Whole runs\<close>

text \<open>
  Any history: allocations and frees with arbitrary arguments, interleaved with
  writes by the modules to bytes of blocks they own.
\<close>

datatype bop = Alloc nat | Free addr | Write addr u8

definition in_live :: "buddy \<Rightarrow> addr \<Rightarrow> bool" where
  "in_live s x \<longleftrightarrow> (\<exists>i \<in> set [0 ..< SLOTS]. s_order s ! i \<noteq> 0
     \<and> s_base s + MIN_SIZE * i \<le> x \<and> x < s_base s + MIN_SIZE * i + 2 ^ unat (s_order s ! i))"

definition exec_bop :: "bop \<Rightarrow> bstate \<Rightarrow> bstate option" where
  "exec_bop op st = (case op of
     Alloc sz \<Rightarrow> Some (snd (mdl_buddy_alloc sz st))
   | Free p \<Rightarrow> mdl_buddy_free p st
   | Write x v \<Rightarrow>
       Some (if in_live (fst st) x then (fst st, (snd st)(x := v)) else st))"

fun exec_bops :: "bop list \<Rightarrow> bstate \<Rightarrow> bstate option" where
  "exec_bops [] st = Some st"
| "exec_bops (op # ops) st = (case exec_bop op st of None \<Rightarrow> None | Some st' \<Rightarrow> exec_bops ops st')"

lemma in_live_iff: "in_live (fst st) x \<longleftrightarrow> x \<in> \<Union> (blk ` live_blocks st)"
proof
  assume "in_live (fst st) x"
  then obtain i where i: "i < SLOTS" "s_order (fst st) ! i \<noteq> 0" "s_base (fst st) + MIN_SIZE * i \<le> x"
    "x < s_base (fst st) + MIN_SIZE * i + 2 ^ unat (s_order (fst st) ! i)" by (auto simp: in_live_def)
  then have "(unat (s_order (fst st) ! i), s_base (fst st) + MIN_SIZE * i) \<in> live_blocks st"
    by (auto simp: live_blocks_def lives_def unat_gt_0)
  then show "x \<in> \<Union> (blk ` live_blocks st)" using i(3,4) by (auto intro!: bexI)
next
  assume "x \<in> \<Union> (blk ` live_blocks st)"
  then show "in_live (fst st) x"
    by (auto simp: live_blocks_def lives_def in_live_def unat_gt_0 intro!: bexI)
qed

lemma exec_bop_ok: "buddy_ok st \<Longrightarrow> \<exists>st'. exec_bop op st = Some st' \<and> buddy_ok st' \<and> s_base (fst st') = s_base (fst st)"
proof (cases op)
  case (Alloc sz)
  then show "buddy_ok st \<Longrightarrow> ?thesis"
    using alloc_full [of st sz] by (cases "mdl_buddy_alloc sz st") (auto simp: exec_bop_def)
next
  case (Free p)
  then show "buddy_ok st \<Longrightarrow> ?thesis" using free_full [of st p] by (auto simp: exec_bop_def)
next
  case (Write x v)
  assume ok: "buddy_ok st"
  obtain s m where st: "st = (s, m)" by fastforce
  show ?thesis
  proof (cases "x \<in> \<Union> (blk ` live_blocks st)")
    case True
    then have "mem_eq_outside (\<Union> (blk ` live_blocks (s, m))) m (m(x := v))"
      by (auto simp: mem_eq_outside_def st)
    then show ?thesis using Write True in_live_iff [of st x] client_write_inv(1) ok st
      by (auto simp: exec_bop_def)
  next
    case False
    then show ?thesis using Write in_live_iff [of st x] ok by (simp add: exec_bop_def)
  qed
qed

lemma exec_bops_ok: "buddy_ok st \<Longrightarrow> \<exists>st'. exec_bops ops st = Some st' \<and> buddy_ok st' \<and> s_base (fst st') = s_base (fst st)"
proof (induction ops arbitrary: st)
  case (Cons op ops)
  then obtain st1 where "exec_bop op st = Some st1" "buddy_ok st1" "s_base (fst st1) = s_base (fst st)"
    using exec_bop_ok by blast
  then show ?case using Cons.IH [of st1] by auto
qed simp

text \<open>C3: coalescing is complete, whatever happened before. After any history of allocations, frees
  (valid or not) and module writes, if no block is live any more then the pool is again one
  single block: the statistics report the whole pool as the largest block, and a request for the
  whole pool is served with its base address. No history can make an operation loop.\<close>

theorem mdl_buddy_coalesces_fully:
  assumes "pool_ok base"
  shows "\<exists>st. exec_bops ops (mdl_buddy_init base m) = Some st
    \<and> (live_blocks st = {} \<longrightarrow>
        mdl_buddy_stats st = Some (2 ^ 17, 2 ^ 17) \<and> fst (mdl_buddy_alloc (2 ^ 17) st) = base)"
proof -
  obtain st where st: "exec_bops ops (mdl_buddy_init base m) = Some st" "buddy_ok st"
    "s_base (fst st) = base"
    using exec_bops_ok [OF init_inv(1) [OF assms], of ops m] init_inv(4) [OF assms, of m] by metis
  have "mdl_buddy_stats st = Some (2 ^ 17, 2 ^ 17)" "fst (mdl_buddy_alloc (2 ^ 17) st) = base"
    if none: "live_blocks st = {}"
  proof -
    obtain s mm where sm: "st = (s, mm)" by fastforce
    have "config base (free_blocks st) {} {}" using buddy_ok_config [OF st(2)] none st(3) by simp
    then have one: "free_blocks st = {(17, base)}"
      using assms by (intro config_all_free) (auto simp: pool_ok_def)
    show "mdl_buddy_stats st = Some (2 ^ 17, 2 ^ 17)"
      using stats_ok(3) [of s mm] st(2) sm one by simp
    obtain a st' where r: "mdl_buddy_alloc (2 ^ 17) st = (a, st')" by (cases "mdl_buddy_alloc (2 ^ 17) st")
    have "spare (2 ^ 17) st" using one by (simp add: spare_def)
    then obtain k where "(2::nat) ^ 17 \<le> 2 ^ k" "base \<le> a" "a + 2 ^ k \<le> base + 2 ^ 17"
      using alloc_full [OF st(2) r] st(3) by auto
    then show "fst (mdl_buddy_alloc (2 ^ 17) st) = base" using r by auto
  qed
  then show ?thesis using st by blast
qed

section \<open>The allocator's guarantees\<close>

text \<open>C1: a request is served exactly when it is not empty and some free block is large enough. The
  block returned is aligned to its own power-of-two size, lies in the pool, overlaps no live
  block, is recorded as live with the smallest order that fits, and the allocator writes
  nothing outside the free memory; a refusal changes nothing.\<close>

theorem mdl_buddy_alloc_spec:
  assumes "buddy_ok st" "mdl_buddy_alloc sz st = (a, st')"
  shows "buddy_ok st' \<and> s_base (fst st') = s_base (fst st)
    \<and> (if sz = 0 \<or> \<not> spare sz st then a = 0 \<and> st' = st
       else \<exists>k. mdl_buddy_block_size sz = 2 ^ k \<and> sz \<le> 2 ^ k \<and> (k = 10 \<or> 2 ^ (k - 1) < sz)
              \<and> a \<noteq> 0 \<and> 2 ^ k dvd a \<and> s_base (fst st) \<le> a \<and> a + 2 ^ k \<le> s_base (fst st) + 2 ^ 17
              \<and> (\<forall>b \<in> live_blocks st. blk (k, a) \<inter> blk b = {})
              \<and> live_blocks st' = insert (k, a) (live_blocks st)
              \<and> mem_eq_outside (\<Union> (blk ` free_blocks st)) (snd st) (snd st'))"
  by (rule alloc_full [OF assms])

text \<open>C2: freeing the base of a live block ends (no list walk can loop), removes exactly that
  block from the live ones, keeps the invariant and never writes to the memory of another live
  block; any other argument (\<open>NULL\<close>, a pointer outside the pool or into a block, a stale pointer,
  a second free) changes nothing at all.\<close>

theorem mdl_buddy_free_spec:
  assumes "buddy_ok st"
  shows "\<exists>st'. mdl_buddy_free p st = Some st' \<and> buddy_ok st' \<and> s_base (fst st') = s_base (fst st)
    \<and> live_blocks st' = {b \<in> live_blocks st. snd b \<noteq> p}
    \<and> (\<forall>b \<in> live_blocks st'. \<forall>x \<in> blk b. snd st' x = snd st x)
    \<and> (p \<notin> snd ` live_blocks st \<longrightarrow> st' = st)"
  by (rule free_full [OF assms])

text \<open>The statistics are exact and meaningful. The walk ends; the free total and the live bytes
  add up to the pool; and the largest block reported is the exact bound of what an
  allocation can still get.\<close>

theorem mdl_buddy_stats_spec:
  assumes "buddy_ok st"
  shows "\<exists>free_total largest. mdl_buddy_stats st = Some (free_total, largest)
    \<and> free_total + (\<Sum>b \<in> live_blocks st. 2 ^ fst b) = 2 ^ 17
    \<and> (\<forall>sz. fst (mdl_buddy_alloc sz st) \<noteq> 0 \<longleftrightarrow> 0 < sz \<and> sz \<le> largest)"
  by (rule stats_full [OF assms])

section \<open>Concrete runs\<close>

abbreviation ARENA :: addr where "ARENA \<equiv> 0x20020000"

lemma pool_ok_ARENA: "pool_ok ARENA"
  by (simp add: pool_ok_def)

abbreviation st0 :: bstate where "st0 \<equiv> mdl_buddy_init ARENA (\<lambda>_. 0)"

lemmas st0_facts = init_inv [OF pool_ok_ARENA, of "\<lambda>_. 0"]

lemma order_1000: "order_for 1000 = Some 10"
  by (simp add: order_for_def order_loop.simps)

lemma st0_alloc:
  "fst (mdl_buddy_alloc 1000 st0) = ARENA" "live_blocks (snd (mdl_buddy_alloc 1000 st0)) = {(10, ARENA)}"
  "buddy_ok (snd (mdl_buddy_alloc 1000 st0))"
proof -
  obtain s m where st: "st0 = (s, m)" by (cases st0)
  have "(17, ARENA) \<in> free_blocks (s, m)" using st0_facts(3) st by simp
  then show "fst (mdl_buddy_alloc 1000 st0) = ARENA"
    "live_blocks (snd (mdl_buddy_alloc 1000 st0)) = {(10, ARENA)}" "buddy_ok (snd (mdl_buddy_alloc 1000 st0))"
    using alloc_inv [OF _ order_1000, of s m 17 ARENA] st0_facts st by auto
qed

theorem mdl_buddy_alloc_spec_witness:
  "let (a, st) = mdl_buddy_alloc 1000 st0 in a \<noteq> 0 \<and> 1024 dvd a \<and> buddy_ok st \<and> mdl_buddy_block_size 1000 = 1024"
proof -
  obtain a st where r: "mdl_buddy_alloc 1000 st0 = (a, st)" by (cases "mdl_buddy_alloc 1000 st0")
  have "spare 1000 st0" using st0_facts(3) by (simp add: spare_def)
  then show ?thesis
    using mdl_buddy_alloc_spec [OF st0_facts(1) r] order_1000 r by (auto simp: mdl_buddy_block_size_def)
qed

theorem mdl_buddy_free_spec_witness:
  "\<exists>st. mdl_buddy_free ARENA (snd (mdl_buddy_alloc 1000 st0)) = Some st \<and> live_blocks st = {}"
  using mdl_buddy_free_spec [OF st0_alloc(3), of ARENA] st0_alloc(2) by auto

theorem mdl_buddy_stats_spec_witness:
  "\<exists>t l. mdl_buddy_stats (snd (mdl_buddy_alloc 1000 st0)) = Some (t, l) \<and> t + 1024 = 2 ^ 17"
  using mdl_buddy_stats_spec [OF st0_alloc(3)] st0_alloc(2) by auto

theorem mdl_buddy_coalesces_fully_witness:
  "\<exists>st. exec_bops [Alloc 1000, Write ARENA 7, Free 5, Free ARENA] st0 = Some st
    \<and> mdl_buddy_stats st = Some (2 ^ 17, 2 ^ 17)"
proof -
  let ?st1 = "snd (mdl_buddy_alloc 1000 st0)"
  let ?st2 = "(fst ?st1, (snd ?st1)(ARENA := 7))"
  have live: "in_live (fst ?st1) ARENA" using st0_alloc(2) by (simp add: in_live_iff)
  obtain st2' where e2: "exec_bop (Write ARENA 7) ?st1 = Some ?st2" "buddy_ok ?st2"
    using exec_bop_ok [OF st0_alloc(3), of "Write ARENA 7"] live by (auto simp: exec_bop_def)
  have l2: "live_blocks ?st2 = {(10, ARENA)}" using st0_alloc(2) by (simp add: live_blocks_def)
  have e3: "exec_bop (Free 5) ?st2 = Some ?st2"
    using free_full [OF e2(2), of 5] l2 by (auto simp: exec_bop_def)
  obtain st3 where e4: "exec_bop (Free ARENA) ?st2 = Some st3" "live_blocks st3 = {}"
    using free_full [OF e2(2), of ARENA] l2 by (auto simp: exec_bop_def)
  have e1: "exec_bop (Alloc 1000) st0 = Some ?st1" by (simp add: exec_bop_def)
  have "exec_bops [Alloc 1000, Write ARENA 7, Free 5, Free ARENA] st0 = Some st3"
    using e1 e2(1) e3 e4(1) by simp
  then show ?thesis
    using mdl_buddy_coalesces_fully [OF pool_ok_ARENA, of "[Alloc 1000, Write ARENA 7, Free 5, Free ARENA]" "\<lambda>_. 0"]
      e4(2) by (metis option.inject)
qed

section \<open>The allocator as an interface\<close>

text \<open>
  What the arena layer uses: blocks are live from the allocation to the free,
  an allocation never disturbs another live block, and freeing a live block is
  total. The client lemmas are proved from these laws alone.
\<close>

locale block_allocator =
  fixes ok :: "'s \<Rightarrow> bool"
    and live :: "'s \<Rightarrow> (nat \<times> addr) set"
    and alloc :: "nat \<Rightarrow> 's \<Rightarrow> addr \<times> 's"
    and free :: "addr \<Rightarrow> 's \<Rightarrow> 's option"
  assumes alloc_ok: "ok st \<Longrightarrow> alloc sz st = (a, st') \<Longrightarrow> ok st'"
    and alloc_fail: "ok st \<Longrightarrow> alloc sz st = (0, st') \<Longrightarrow> st' = st"
    and alloc_live: "ok st \<Longrightarrow> alloc sz st = (a, st') \<Longrightarrow> a \<noteq> 0 \<Longrightarrow>
      \<exists>k. sz \<le> 2 ^ k \<and> (k, a) \<notin> live st \<and> live st' = insert (k, a) (live st)
          \<and> (\<forall>b \<in> live st. blk (k, a) \<inter> blk b = {})"
    and live_disjoint: "ok st \<Longrightarrow> p \<in> live st \<Longrightarrow> q \<in> live st \<Longrightarrow> p \<noteq> q \<Longrightarrow> blk p \<inter> blk q = {}"
    and live_nonnull: "ok st \<Longrightarrow> (k, a) \<in> live st \<Longrightarrow> a \<noteq> 0"
    and free_live: "ok st \<Longrightarrow> \<exists>st'. free a st = Some st' \<and> ok st' \<and> live st' = {b \<in> live st. snd b \<noteq> a}"
begin

lemma live_start_unique:
  assumes "ok st" "(k, a) \<in> live st" "(j, a) \<in> live st"
  shows "k = j"
proof (rule ccontr)
  assume "k \<noteq> j"
  then have "blk (k, a) \<inter> blk (j, a) = {}" using live_disjoint [OF assms] by blast
  moreover have "a \<in> blk (k, a)" "a \<in> blk (j, a)" by simp_all
  ultimately show False by blast
qed

lemma alloc_fresh:
  assumes "ok st" "alloc sz st = (a, st')" "a \<noteq> 0" "(k, a) \<in> live st"
  shows False
proof -
  obtain j where "\<forall>b \<in> live st. blk (j, a) \<inter> blk b = {}" using alloc_live [OF assms(1-3)] by blast
  then have "blk (j, a) \<inter> blk (k, a) = {}" using assms(4) by blast
  moreover have "a \<in> blk (k, a)" "a \<in> blk (j, a)" by simp_all
  ultimately show False by blast
qed

lemma free_undoes_alloc:
  assumes "ok st" "alloc sz st = (a, st')" "a \<noteq> 0"
  shows "\<exists>st''. free a st' = Some st'' \<and> ok st'' \<and> live st'' = live st"
proof -
  obtain k where k: "live st' = insert (k, a) (live st)" using alloc_live [OF assms] by blast
  obtain st'' where f: "free a st' = Some st''" "ok st''" "live st'' = {b \<in> live st'. snd b \<noteq> a}"
    using free_live [OF alloc_ok [OF assms(1,2)], of a] by blast
  have "{b \<in> live st'. snd b \<noteq> a} = live st" unfolding k using alloc_fresh [OF assms] by auto
  then show ?thesis using f by simp
qed

lemma free_null: "ok st \<Longrightarrow> \<exists>st'. free 0 st = Some st' \<and> ok st' \<and> live st' = live st"
  using free_live [of st 0] live_nonnull [of st] by fastforce

lemma two_allocs_disjoint:
  assumes "ok st" "alloc s1 st = (a, st1)" "a \<noteq> 0" "alloc s2 st1 = (b, st2)" "b \<noteq> 0"
  shows "a + s1 \<le> b \<or> b + s2 \<le> a"
proof -
  obtain k where k: "s1 \<le> 2 ^ k" "live st1 = insert (k, a) (live st)" using alloc_live [OF assms(1-3)] by blast
  obtain j where j: "s2 \<le> 2 ^ j" "\<forall>p \<in> live st1. blk (j, b) \<inter> blk p = {}"
    using alloc_live [OF alloc_ok [OF assms(1,2)] assms(4,5)] by blast
  have "blk (j, b) \<inter> blk (k, a) = {}" using j(2) k(2) by blast
  moreover have "b \<in> blk (j, b)" "a \<in> blk (k, a)" by simp_all
  ultimately have "b \<notin> blk (k, a)" "a \<notin> blk (j, b)" by blast+
  then have "\<not> (a \<le> b \<and> b < a + 2 ^ k)" "\<not> (b \<le> a \<and> a < b + 2 ^ j)" by simp_all
  then show ?thesis using k(1) j(1) by linarith
qed

end

lemma alloc_live_block:
  assumes "buddy_ok st" "mdl_buddy_alloc sz st = (a, st')" "a \<noteq> 0"
  shows "\<exists>k. sz \<le> 2 ^ k \<and> (k, a) \<notin> live_blocks st \<and> live_blocks st' = insert (k, a) (live_blocks st)
    \<and> (\<forall>b \<in> live_blocks st. blk (k, a) \<inter> blk b = {})"
proof -
  obtain k where k: "sz \<le> 2 ^ k" "live_blocks st' = insert (k, a) (live_blocks st)"
    "\<forall>b \<in> live_blocks st. blk (k, a) \<inter> blk b = {}"
    using alloc_full [OF assms(1,2)] assms(3) by (auto split: if_splits)
  have "a \<in> blk (k, a)" by simp
  then have "(k, a) \<notin> live_blocks st" using k(3) by blast
  then show ?thesis using k by blast
qed

lemma buddy_live_disjoint:
  "buddy_ok st \<Longrightarrow> p \<in> live_blocks st \<Longrightarrow> q \<in> live_blocks st \<Longrightarrow> p \<noteq> q \<Longrightarrow> blk p \<inter> blk q = {}"
  using config_disjoint [OF buddy_ok_config] by blast

lemma buddy_live_bounds:
  assumes "buddy_ok st" "(k, a) \<in> live_blocks st"
  shows "10 \<le> k" "k \<le> 17" "2 ^ k dvd a" "a \<noteq> 0" "s_base (fst st) \<le> a" "a + 2 ^ k \<le> s_base (fst st) + 2 ^ 17"
    "s_base (fst st) + 2 ^ 17 < 2 ^ 32"
proof -
  note b = config_blockD [OF buddy_ok_config [OF assms(1)], of k a]
  have pool: "pool_ok (s_base (fst st))" using assms(1) by (auto simp: buddy_ok_def buddy_inv_def)
  show "10 \<le> k" "k \<le> 17" "2 ^ k dvd a" "s_base (fst st) \<le> a" "a + 2 ^ k \<le> s_base (fst st) + 2 ^ 17"
    using b assms(2) by simp_all
  then show "a \<noteq> 0" "s_base (fst st) + 2 ^ 17 < 2 ^ 32" using pool by (auto simp: pool_ok_def)
qed

interpretation bud: block_allocator buddy_ok live_blocks mdl_buddy_alloc mdl_buddy_free
proof unfold_locales
  fix st :: bstate and sz a st'
  show "buddy_ok st \<Longrightarrow> mdl_buddy_alloc sz st = (a, st') \<Longrightarrow> buddy_ok st'"
    using alloc_full by blast
  show "buddy_ok st \<Longrightarrow> mdl_buddy_alloc sz st = (0, st') \<Longrightarrow> st' = st"
    using alloc_full [of st sz 0 st'] by (auto split: if_splits)
  show "buddy_ok st \<Longrightarrow> mdl_buddy_alloc sz st = (a, st') \<Longrightarrow> a \<noteq> 0 \<Longrightarrow>
      \<exists>k. sz \<le> 2 ^ k \<and> (k, a) \<notin> live_blocks st \<and> live_blocks st' = insert (k, a) (live_blocks st)
        \<and> (\<forall>b \<in> live_blocks st. blk (k, a) \<inter> blk b = {})"
    by (rule alloc_live_block)
next
  fix st p q
  show "buddy_ok st \<Longrightarrow> p \<in> live_blocks st \<Longrightarrow> q \<in> live_blocks st \<Longrightarrow> p \<noteq> q \<Longrightarrow> blk p \<inter> blk q = {}"
    by (rule buddy_live_disjoint)
next
  fix st k a
  show "buddy_ok st \<Longrightarrow> (k, a) \<in> live_blocks st \<Longrightarrow> a \<noteq> 0" by (rule buddy_live_bounds(4))
next
  fix st a
  show "buddy_ok st \<Longrightarrow> \<exists>st'. mdl_buddy_free a st = Some st' \<and> buddy_ok st'
      \<and> live_blocks st' = {b \<in> live_blocks st. snd b \<noteq> a}"
    using free_full [of st a] by blast
qed

end
