(* ===== verification/Buddy_Selftest.thy ===== *)
theory Buddy_Selftest
  imports Buddy "HOL-Library.Monad_Syntax"
begin

text \<open>
  \<open>mdl_buddy_selftest\<close>: the self-check behind the console command. It runs the
  real allocator on the real pool, with the allocator's variables saved and
  restored around it. The model is the whole function; what it writes to memory
  is part of the result.
\<close>

text \<open>\<open>st_str\<close> and \<open>st_u32\<close>: \<open>w\<close> is the text written so far, \<open>cap\<close> is \<open>detail_len\<close>.\<close>

fun st_str :: "nat \<Rightarrow> string \<Rightarrow> string \<Rightarrow> string" where
  "st_str cap [] w = w"
| "st_str cap (c # t) w = (if length w + 1 < cap then st_str cap t (w @ [c]) else w)"

lemma st_str_fits: "length w + length t < cap \<Longrightarrow> st_str cap t w = w @ t"
  by (induction t arbitrary: w) auto

text \<open>The digits, least significant first, at most 12 of them (\<open>tmp\<close>).\<close>

fun st_digits :: "nat \<Rightarrow> nat \<Rightarrow> string" where
  "st_digits 0 v = []"
| "st_digits (Suc n) v =
     char_of (48 + v mod 10) # (if v div 10 \<noteq> 0 then st_digits n (v div 10) else [])"

definition st_u32 :: "nat \<Rightarrow> nat \<Rightarrow> string \<Rightarrow> string" where
  "st_u32 cap v w = st_str cap (rev (st_digits 12 v)) w"

text \<open>One check: a failure is counted and its name appended.\<close>

definition note_if :: "nat \<Rightarrow> bool \<Rightarrow> string \<Rightarrow> nat \<times> string \<Rightarrow> nat \<times> string" where
  "note_if cap bad name acc = (if bad then (fst acc + 1, st_str cap name (snd acc)) else acc)"

lemma note_if_False [simp]: "note_if cap False name acc = acc"
  by (simp add: note_if_def)

definition alloc_checks :: "nat \<Rightarrow> addr \<Rightarrow> addr \<Rightarrow> addr \<Rightarrow> nat \<times> string \<Rightarrow> nat \<times> string" where
  "alloc_checks cap a b c acc =
     (if a = 0 \<or> b = 0 \<or> c = 0 then note_if cap True ''alloc-null '' acc
      else note_if cap (a = b \<or> b = c \<or> a = c) ''overlap ''
          (note_if cap (c mod 4096 \<noteq> 0) ''align-c ''
            (note_if cap (b mod 4096 \<noteq> 0) ''align-b ''
              (note_if cap (a mod 1024 \<noteq> 0) ''align-a '' acc))))"

definition summary :: "nat \<Rightarrow> string \<Rightarrow> string" where
  "summary cap w =
     (if w = [] then st_str cap ''K'' (st_u32 cap (POOL_SIZE div 1024) (st_str cap ''all checks passed, pool '' w))
      else w)"

definition mdl_buddy_selftest :: "nat \<Rightarrow> bstate \<Rightarrow> (nat \<times> string \<times> bstate) option" where
  "mdl_buddy_selftest cap saved =
     (let base = s_base (fst saved); acc = (0, []); st = mdl_buddy_init base (snd saved) in
     do {
       (tot, big) \<leftarrow> mdl_buddy_stats st;
       let acc = note_if cap (tot \<noteq> POOL_SIZE \<or> big \<noteq> POOL_SIZE) ''init-stats '' acc;
       let (a, st) = mdl_buddy_alloc 1024 st;
       let (b, st) = mdl_buddy_alloc 4096 st;
       let (c, st) = mdl_buddy_alloc 3000 st;
       let acc = alloc_checks cap a b c acc;
       let acc = note_if cap (mdl_buddy_block_size 3000 \<noteq> 4096) ''round '' acc;
       st \<leftarrow> mdl_buddy_free a st;
       st \<leftarrow> mdl_buddy_free b st;
       st \<leftarrow> mdl_buddy_free c st;
       (tot, big) \<leftarrow> mdl_buddy_stats st;
       let acc = note_if cap (tot \<noteq> POOL_SIZE) ''leak '' acc;
       let acc = note_if cap (big \<noteq> POOL_SIZE) ''no-coalesce '' acc;
       st \<leftarrow> mdl_buddy_free 0 st;
       st \<leftarrow> mdl_buddy_free (add32 base 7) st;
       st \<leftarrow> mdl_buddy_free (add32 base (POOL_SIZE + 4096)) st;
       let (d, st) = mdl_buddy_alloc 2048 st;
       st \<leftarrow> mdl_buddy_free d st;
       st \<leftarrow> mdl_buddy_free d st;
       (tot, big) \<leftarrow> mdl_buddy_stats st;
       let acc = note_if cap (tot \<noteq> POOL_SIZE \<or> big \<noteq> POOL_SIZE) ''bad-free-damaged '' acc;
       let (whole, st) = mdl_buddy_alloc POOL_SIZE st;
       let acc = note_if cap (whole = 0) ''whole-pool '' acc;
       let (over, st) = mdl_buddy_alloc MIN_SIZE st;
       let acc = note_if cap (over \<noteq> 0) ''overcommit '' acc;
       st \<leftarrow> mdl_buddy_free whole st;
       let (huge, st) = mdl_buddy_alloc (POOL_SIZE * 2) st;
       let acc = note_if cap (huge \<noteq> 0) ''oversize '' acc;
       Some (fst acc, summary cap (snd acc), st)
     } \<bind> (\<lambda>(fails, detail, st'). Some (fails, detail, fst saved, snd st')))"

section \<open>The self-check passes\<close>

definition empty_pool :: "addr \<Rightarrow> bstate \<Rightarrow> bool" where
  "empty_pool base st \<longleftrightarrow> buddy_ok st \<and> live_blocks st = {} \<and> s_base (fst st) = base"

lemma empty_pool_init: "pool_ok base \<Longrightarrow> empty_pool base (mdl_buddy_init base m)"
  using init_inv [of base m] by (simp add: empty_pool_def)

lemma empty_pool_free_blocks:
  assumes "empty_pool base st" "pool_ok base"
  shows "free_blocks st = {(17, base)}"
  using buddy_ok_config [of st] assms
  by (intro config_all_free) (auto simp: empty_pool_def pool_ok_def)

lemma empty_pool_stats:
  assumes "empty_pool base st" "pool_ok base"
  shows "mdl_buddy_stats st = Some (2 ^ 17, 2 ^ 17)"
  using stats_ok(3) [of "fst st" "snd st"] empty_pool_free_blocks [OF assms] assms(1)
  by (simp add: empty_pool_def)

lemma free_dead:
  "buddy_ok st \<Longrightarrow> p \<notin> snd ` live_blocks st \<Longrightarrow> mdl_buddy_free p st = Some st"
  using free_full [of st p] by blast

lemma free_last:
  assumes "buddy_ok st" "live_blocks st = {(k, p)}"
  shows "\<exists>st'. mdl_buddy_free p st = Some st' \<and> empty_pool (s_base (fst st)) st'"
  using free_full [OF assms(1), of p] assms(2) by (auto simp: empty_pool_def)

lemma order_3000: "order_for 3000 = Some 12" and order_4096: "order_for 4096 = Some 12"
  and order_whole: "order_for (2 ^ 17) = Some 17" and order_1024: "order_for 1024 = Some 10" and order_2048: "order_for 2048 = Some 11"
  by (simp_all add: order_for_def order_loop.simps)

lemma alloc_served:
  assumes "buddy_ok st" "order_for sz = Some k" "sz \<noteq> 0" "(j, b) \<in> free_blocks st" "k \<le> j"
  shows "\<exists>a st'. mdl_buddy_alloc sz st = (a, st') \<and> buddy_ok st' \<and> a \<noteq> 0 \<and> 2 ^ k dvd a
    \<and> live_blocks st' = insert (k, a) (live_blocks st) \<and> s_base (fst st') = s_base (fst st)
    \<and> (\<forall>b \<in> live_blocks st. snd b \<noteq> a)"
proof -
  obtain a st' where r: "mdl_buddy_alloc sz st = (a, st')" by (cases "mdl_buddy_alloc sz st")
  have "sz \<le> 2 ^ k" by (rule order_for_Some(3) [OF assms(2)])
  also have "(2::nat) ^ k \<le> 2 ^ j" using assms(5) by (intro power_increasing) auto
  finally have "spare sz st" using assms(4) by (auto simp: spare_def)
  moreover have "mdl_buddy_block_size sz = 2 ^ k" using assms(2) by (simp add: mdl_buddy_block_size_def)
  ultimately have A: "buddy_ok st'" "a \<noteq> 0" "2 ^ k dvd a" "live_blocks st' = insert (k, a) (live_blocks st)"
    "s_base (fst st') = s_base (fst st)"
    using alloc_full [OF assms(1) r] assms(3) by auto
  have "snd b \<noteq> a" if "b \<in> live_blocks st" for b
    using bud.alloc_fresh [OF assms(1) r A(2), of "fst b"] that by auto
  then show ?thesis using r A by blast
qed

lemma three_allocs:
  assumes e: "empty_pool base st" and p: "pool_ok base"
  shows "\<exists>a b c st1 st2 st3. mdl_buddy_alloc 1024 st = (a, st1) \<and> mdl_buddy_alloc 4096 st1 = (b, st2)
    \<and> mdl_buddy_alloc 3000 st2 = (c, st3) \<and> a \<noteq> 0 \<and> b \<noteq> 0 \<and> c \<noteq> 0 \<and> a \<noteq> b \<and> b \<noteq> c \<and> a \<noteq> c
    \<and> a mod 1024 = 0 \<and> b mod 4096 = 0 \<and> c mod 4096 = 0 \<and> buddy_ok st3 \<and> s_base (fst st3) = base
    \<and> live_blocks st3 = {(10, a), (12, b), (12, c)}"
proof -
  have ok: "buddy_ok st" "live_blocks st = {}" "s_base (fst st) = base" using e by (auto simp: empty_pool_def)
  have fb: "(17, base) \<in> free_blocks st" using empty_pool_free_blocks [OF e p] by simp
  obtain a st1 where A: "mdl_buddy_alloc 1024 st = (a, st1)" "buddy_ok st1" "a \<noteq> 0" "2 ^ 10 dvd a"
    "live_blocks st1 = {(10, a)}" "s_base (fst st1) = base"
    using alloc_served [OF ok(1) order_1024 _ fb] ok(2,3) by auto
  obtain k where "(k, a) \<in> free_blocks st"
    "free_blocks st1 = free_blocks st - {(k, a)} \<union> {(i, a + 2 ^ i) |i. 10 \<le> i \<and> i < k}"
    using alloc_inv [of "fst st" "snd st", OF _ order_1024 _ _, of 17 base] ok(1) fb A(1) by auto
  then have fb1: "free_blocks st1 = {(i, a + 2 ^ i) |i. 10 \<le> i \<and> i < 17}"
    using empty_pool_free_blocks [OF e p] by auto
  then have in1: "(12, a + 2 ^ 12) \<in> free_blocks st1" by auto
  obtain b st2 where B: "mdl_buddy_alloc 4096 st1 = (b, st2)" "buddy_ok st2" "b \<noteq> 0" "2 ^ 12 dvd b"
    "live_blocks st2 = insert (12, b) (live_blocks st1)" "s_base (fst st2) = base" "a \<noteq> b"
    using alloc_served [OF A(2) order_4096 _ in1] A(5,6) by auto
  obtain k where k: "12 \<le> k" "k \<le> 12"
    "free_blocks st2 = free_blocks st1 - {(k, b)} \<union> {(i, b + 2 ^ i) |i. 12 \<le> i \<and> i < k}"
    using alloc_inv [of "fst st1" "snd st1", OF _ order_4096 _ _, of 12 "a + 2 ^ 12"] A(2) in1 B(1) by auto
  then have in2: "(13, a + 2 ^ 13) \<in> free_blocks st2" using fb1 by auto
  obtain c st3 where C: "mdl_buddy_alloc 3000 st2 = (c, st3)" "buddy_ok st3" "c \<noteq> 0" "2 ^ 12 dvd c"
    "live_blocks st3 = insert (12, c) (live_blocks st2)" "s_base (fst st3) = base" "a \<noteq> c" "b \<noteq> c"
    using alloc_served [OF B(2) order_3000 _ in2] A(5) B(5,6) by auto
  have "live_blocks st3 = {(10, a), (12, b), (12, c)}" using A(5) B(5) C(5) by auto
  moreover have "a mod 1024 = 0" "b mod 4096 = 0" "c mod 4096 = 0"
    using A(4) B(4) C(4) by (simp_all add: dvd_eq_mod_eq_0)
  ultimately show ?thesis
    by (intro exI conjI) (rule A(1) B(1) C(1) A(3) B(3) C(3) B(7) C(8) C(7) C(2,6) | assumption)+
qed

lemma free_step:
  assumes "buddy_ok st" "live_blocks st = insert (k, p) R" "\<And>b. b \<in> R \<Longrightarrow> snd b \<noteq> p"
  shows "\<exists>st'. mdl_buddy_free p st = Some st' \<and> buddy_ok st' \<and> s_base (fst st') = s_base (fst st)
    \<and> live_blocks st' = R"
proof -
  have "{b \<in> live_blocks st. snd b \<noteq> p} = R" using assms(2,3) by auto
  then show ?thesis using free_full [OF assms(1), of p] by auto
qed

lemma three_frees:
  assumes "buddy_ok st" "live_blocks st = {(i, a), (j, b), (k, c)}" "a \<noteq> b" "b \<noteq> c" "a \<noteq> c"
  shows "\<exists>st1 st2 st3. mdl_buddy_free a st = Some st1 \<and> mdl_buddy_free b st1 = Some st2
    \<and> mdl_buddy_free c st2 = Some st3 \<and> empty_pool (s_base (fst st)) st3"
proof -
  have n: "snd x \<noteq> a" if "x \<in> {(j, b), (k, c)}" for x using that assms(3,5) by auto
  have n2: "snd x \<noteq> b" if "x \<in> {(k, c)}" for x using that assms(4) by auto
  obtain st1 where 1: "mdl_buddy_free a st = Some st1" "buddy_ok st1" "s_base (fst st1) = s_base (fst st)"
    "live_blocks st1 = {(j, b), (k, c)}"
    using free_step [OF assms(1,2) n] by blast
  obtain st2 where 2: "mdl_buddy_free b st1 = Some st2" "buddy_ok st2" "s_base (fst st2) = s_base (fst st1)"
    "live_blocks st2 = {(k, c)}"
    using free_step [OF 1(2,4) n2] by blast
  obtain st3 where "mdl_buddy_free c st2 = Some st3" "empty_pool (s_base (fst st2)) st3"
    using free_last [OF 2(2,4)] by blast
  then show ?thesis using 1(1,3) 2(1,3) by metis
qed

lemma pool_exhausted:
  assumes "buddy_ok st" "live_blocks st = {(17, a)}"
  shows "mdl_buddy_alloc 1024 st = (0, st)"
proof -
  have z: "(\<Sum>p \<in> free_blocks st. 2 ^ fst p) = (0 :: nat)" and f: "finite (free_blocks st)"
    using stats_ok(1,2) [of "fst st" "snd st"] assms by auto
  have "free_blocks st = {}"
  proof (rule ccontr)
    assume "free_blocks st \<noteq> {}"
    then obtain p where "p \<in> free_blocks st" by blast
    then have "(2::nat) ^ fst p \<le> (\<Sum>p \<in> free_blocks st. 2 ^ fst p)" using f by (intro member_le_sum) auto
    then show False using z by simp
  qed
  then have "\<not> spare 1024 st" by (simp add: spare_def)
  then show ?thesis using alloc_full [OF assms(1), of 1024] by (cases "mdl_buddy_alloc 1024 st") auto
qed

text \<open>After everything is freed the first word of the pool is the end of a list.\<close>

lemma empty_pool_word:
  assumes "empty_pool base st" "pool_ok base"
  shows "ld32 (snd st) base = 0"
proof -
  obtain s m where st: "st = (s, m)" by fastforce
  obtain F where inv: "buddy_inv base s m F {}" and fb: "free_blocks (s, m) = frees F"
    using assms st buddy_okE [of s m] by (auto simp: empty_pool_def)
  have F: "set (F 17) = {base}" using empty_pool_free_blocks [OF assms] fb st by (auto simp: frees_def)
  moreover have "distinct (F 17)" by (rule buddy_inv_rep(5) [OF inv])
  ultimately have "F 17 = [base]" by (cases "F 17"; cases "tl (F 17)") auto
  then have "next_of m base = 0" using buddy_inv_rep(4) [OF inv, of 17] by simp
  then show ?thesis using st by (simp add: next_of_def unat_eq_0)
qed

lemma selftest_run:
  assumes p: "pool_ok (s_base (fst saved))"
  shows "\<exists>m'. mdl_buddy_selftest cap saved = Some (0, summary cap [], fst saved, m')
    \<and> ld32 m' (s_base (fst saved)) = 0"
proof -
  define base where "base = s_base (fst saved)"
  have pb: "pool_ok base" using p by (simp add: base_def)
  let ?st0 = "mdl_buddy_init base (snd saved)"
  have e0: "empty_pool base ?st0" by (rule empty_pool_init [OF pb])
  obtain a b c st1 st2 st3 where A: "mdl_buddy_alloc 1024 ?st0 = (a, st1)" "mdl_buddy_alloc 4096 st1 = (b, st2)"
    "mdl_buddy_alloc 3000 st2 = (c, st3)" "a \<noteq> 0" "b \<noteq> 0" "c \<noteq> 0" "a \<noteq> b" "b \<noteq> c" "a \<noteq> c"
    "a mod 1024 = 0" "b mod 4096 = 0" "c mod 4096 = 0" "buddy_ok st3" "s_base (fst st3) = base"
    "live_blocks st3 = {(10, a), (12, b), (12, c)}"
    using three_allocs [OF e0 pb] by (elim exE conjE) (rule that)
  obtain st4 st5 st6 where B: "mdl_buddy_free a st3 = Some st4" "mdl_buddy_free b st4 = Some st5"
    "mdl_buddy_free c st5 = Some st6" "empty_pool base st6"
    using three_frees [OF A(13,15,7,8,9)] unfolding A(14) by (elim exE conjE) (rule that)
  have ok6: "buddy_ok st6" "live_blocks st6 = {}" "s_base (fst st6) = base" using B(4) by (auto simp: empty_pool_def)
  have ign: "mdl_buddy_free x st6 = Some st6" for x using free_dead [OF ok6(1), of x] ok6(2) by simp
  have fb6: "(17, base) \<in> free_blocks st6" using empty_pool_free_blocks [OF B(4) pb] by simp
  obtain d st7 where D: "mdl_buddy_alloc 2048 st6 = (d, st7)" "buddy_ok st7" "live_blocks st7 = {(11, d)}"
    "s_base (fst st7) = base"
    using alloc_served [OF ok6(1) order_2048 _ fb6] ok6(2,3) by auto
  obtain st8 where E: "mdl_buddy_free d st7 = Some st8" "empty_pool base st8"
    using free_last [OF D(2,3)] D(4) by auto
  have ok8: "buddy_ok st8" "live_blocks st8 = {}" "s_base (fst st8) = base" using E(2) by (auto simp: empty_pool_def)
  have dbl: "mdl_buddy_free d st8 = Some st8" using free_dead [OF ok8(1), of d] ok8(2) by simp
  have fb8: "(17, base) \<in> free_blocks st8" using empty_pool_free_blocks [OF E(2) pb] by simp
  obtain w st9 where W: "mdl_buddy_alloc (2 ^ 17) st8 = (w, st9)" "buddy_ok st9" "w \<noteq> 0"
    "live_blocks st9 = {(17, w)}" "s_base (fst st9) = base"
    using alloc_served [OF ok8(1) order_whole _ fb8] unfolding ok8(2,3) by auto
  have over: "mdl_buddy_alloc (2 ^ 10) st9 = (0, st9)" using pool_exhausted [OF W(2,4)] by simp
  obtain st10 where G: "mdl_buddy_free w st9 = Some st10" "empty_pool base st10"
    using free_last [OF W(2,4)] W(5) by auto
  have huge: "mdl_buddy_alloc (2 ^ 17 * 2) st10 = (0, st10)"
    by (simp add: mdl_buddy_alloc_def order_for_def order_loop.simps)
  have bs: "mdl_buddy_block_size 3000 = 4096" using order_3000 by (simp add: mdl_buddy_block_size_def)
  have checks: "alloc_checks cap a b c acc = acc" for acc using A(4-12) by (simp add: alloc_checks_def)
  note stats = empty_pool_stats [OF e0 pb] empty_pool_stats [OF B(4) pb] empty_pool_stats [OF E(2) pb]
  have "mdl_buddy_selftest cap saved = Some (0, summary cap [], fst saved, snd st10)"
    unfolding mdl_buddy_selftest_def base_def [symmetric] Let_def
    by (simp only: stats A(1-3) B(1-3) D(1) E(1) W(1,3) over G(1) huge ign dbl bs checks note_if_False
        Option.bind.simps prod.case simp_thms fst_conv snd_conv)
  then show ?thesis using empty_pool_word [OF G(2) pb] unfolding base_def by blast
qed

lemma summary_64: "summary 64 [] = ''all checks passed, pool 128K''"
proof -
  have c: "char_of (48 + 1 :: nat) = CHR ''1''" "char_of (48 + 2 :: nat) = CHR ''2''"
    "char_of (48 + 8 :: nat) = CHR ''8''" by (simp_all add: char_of_def bit_0)
  have v: "(128::nat) mod 10 = 8" "(128::nat) div 10 = 12" "(12::nat) mod 10 = 2" "(12::nat) div 10 = 1"
    "(1::nat) mod 10 = 1" "(1::nat) div 10 = 0" "(12::nat) \<noteq> 0" "(1::nat) \<noteq> 0" by simp_all
  have n: "(12::nat) = Suc (Suc (Suc 9))" by simp
  have "st_digits 12 128 = ''821''"
    unfolding n by (simp only: st_digits.simps v c simp_thms if_True if_False)
  then have d: "st_digits 12 (2 ^ 17 div 1024) = ''821''" by simp
  show ?thesis unfolding summary_def st_u32_def d by (simp add: st_str_fits)
qed

text \<open>On any pool and any previous history the self-check ends and reports no failure: all
  its checks (initial statistics, alignment, no overlap, rounding, no leak, full coalescing, bad
  frees ignored, exhaustion and oversize refused) succeed, the text says so, and the allocator's
  variables are those from before.\<close>

theorem mdl_buddy_selftest_passes:
  assumes "pool_ok (s_base s)"
  shows "\<exists>m'. mdl_buddy_selftest 64 (s, m) = Some (0, ''all checks passed, pool 128K'', s, m')"
proof -
  show ?thesis using summary_64 selftest_run [of "(s, m)" 64] assms by auto
qed

text \<open>The self-check is not harmless to a loaded module. The variables are restored, the
  memory is not: if a block at the start of the pool is live, its first word has been replaced by a
  list end, whatever the module had stored there.\<close>

theorem mdl_buddy_selftest_clobbers_live_block:
  assumes "buddy_ok st" "(k, s_base (fst st)) \<in> live_blocks st"
  shows "\<exists>m'. mdl_buddy_selftest 64 st = Some (0, ''all checks passed, pool 128K'', fst st, m')
    \<and> live_blocks (fst st, m') = live_blocks st \<and> ld32 m' (s_base (fst st)) = 0"
proof -
  have "pool_ok (s_base (fst st))" using assms(1) by (auto simp: buddy_ok_def buddy_inv_def)
  then show ?thesis using summary_64 selftest_run [of st 64] by (auto simp: live_blocks_def)
qed

theorem mdl_buddy_selftest_passes_witness:
  "\<exists>m'. mdl_buddy_selftest 64 st0 = Some (0, ''all checks passed, pool 128K'', fst st0, m')"
  using mdl_buddy_selftest_passes [of "fst st0" "snd st0"] st0_facts(4) pool_ok_ARENA by simp

text \<open>A module in the first block has written 7 to its first byte; after the self-check the word is 0.\<close>

theorem mdl_buddy_selftest_clobbers_live_block_witness:
  "\<exists>st m'. exec_bops [Alloc 1000, Write ARENA 7] st0 = Some st \<and> snd st ARENA = 7
    \<and> mdl_buddy_selftest 64 st = Some (0, ''all checks passed, pool 128K'', fst st, m') \<and> ld32 m' ARENA = 0"
proof -
  let ?st1 = "snd (mdl_buddy_alloc 1000 st0)"
  let ?st2 = "(fst ?st1, (snd ?st1)(ARENA := 7))"
  have live: "in_live (fst ?st1) ARENA" using st0_alloc(2) by (simp add: in_live_iff)
  have b: "s_base (fst ?st1) = ARENA"
    using exec_bop_ok [OF st0_facts(1), of "Alloc 1000"] st0_facts(4) by (simp add: exec_bop_def)
  have w: "exec_bop (Write ARENA 7) ?st1 = Some ?st2" "buddy_ok ?st2"
    using exec_bop_ok [OF st0_alloc(3), of "Write ARENA 7"] live by (auto simp: exec_bop_def)
  have "(10, s_base (fst ?st2)) \<in> live_blocks ?st2" using st0_alloc(2) b by (simp add: live_blocks_def)
  from mdl_buddy_selftest_clobbers_live_block [OF w(2) this] b
  obtain m' where "mdl_buddy_selftest 64 ?st2 = Some (0, ''all checks passed, pool 128K'', fst ?st2, m')"
    "ld32 m' ARENA = 0" by auto
  moreover have "exec_bops [Alloc 1000, Write ARENA 7] st0 = Some ?st2"
    using w(1) by (simp add: exec_bop_def [of "Alloc 1000"])
  ultimately show ?thesis by (intro exI [of _ ?st2] exI [of _ m']) auto
qed

end
