(* ===== verification/Registry.thy ===== *)
theory Registry
  imports Mdl_Prelude
begin

text \<open>
  \<open>src/mdl/core/registry.h\<close> and \<open>registry.c\<close>: the slot table, caller identity
  (\<open>mdl_caller_slot\<close>, \<open>mdl_caller_declared\<close> of \<open>module_task.c\<close>), fault
  classification, and the MemManage handler of \<open>arch/arm_cm4/fault_arm.c\<close> that
  acts on it. A slot is a \<open>module\<close> record; the table is a list of four.
\<close>

datatype slot_state = SLOT_EMPTY | SLOT_LOADED | SLOT_RUNNING | SLOT_FAULTED

text \<open>\<open>mdl_res_t\<close>: one declared claim.\<close>

record res =
  r_kind :: u8
  r_id :: u8
  r_edge :: u8
  r_rsv :: u8

abbreviation KIND_NONE :: u8 where "KIND_NONE \<equiv> 0"
abbreviation KIND_GPIO :: u8 where "KIND_GPIO \<equiv> 1"
abbreviation KIND_I2C :: u8 where "KIND_I2C \<equiv> 2"
abbreviation KIND_UART :: u8 where "KIND_UART \<equiv> 3"
abbreviation KIND_TIMER :: u8 where "KIND_TIMER \<equiv> 4"
abbreviation KIND_ADC :: u8 where "KIND_ADC \<equiv> 5"
abbreviation KIND_SPI :: u8 where "KIND_SPI \<equiv> 6"
abbreviation KIND_MAX :: u8 where "KIND_MAX \<equiv> 6"

text \<open>\<open>struct module\<close>. Pointers are addresses, \<open>NULL\<close> is 0; a task handle is a
  number; \<open>cmd_ret\<close> is an \<open>int\<close>, read with \<open>sint\<close>.\<close>

record module =
  m_state :: slot_state
  text_lo :: addr
  text_hi :: addr
  data_lo :: addr
  data_hi :: addr
  hs_lo :: addr
  hs_hi :: addr
  guard_lo :: addr
  guard_hi :: addr
  arena_held :: bool
  m_entry :: addr
  task_handle :: nat
  last_active_tick :: u32
  pool_next :: addr
  pool_end :: addr
  free_list :: addr
  parked_until_tick :: u32
  cmd_entry :: addr
  evt_entry :: addr
  cmd_name :: "u8 list"
  m_name :: "u8 list"
  gpio_claimed :: u32
  m_res :: "res list"
  res_count :: nat
  evt_queue_depth :: u16
  evt_rate_hz :: u16
  cmd_ret :: u32
  cmd_pending :: bool

abbreviation PARKED_FOREVER :: u32 where "PARKED_FOREVER \<equiv> 0xFFFFFFFF"
abbreviation MAX_SLOTS :: nat where "MAX_SLOTS \<equiv> 4"
abbreviation MAX_RES :: nat where "MAX_RES \<equiv> 8"
abbreviation CMD_NAME_MAX :: nat where "CMD_NAME_MAX \<equiv> 16"
abbreviation NAME_MAX :: nat where "NAME_MAX \<equiv> 16"

type_synonym slots = "module list"

record fault_info =
  f_occurred :: bool
  f_pc :: u32
  f_lr :: u32
  f_mmfar :: u32
  f_cfsr :: u32
  f_text_offset :: u32

text \<open>The table as the C runtime leaves it: all bytes zero.\<close>

definition zero_module :: module where
  "zero_module = \<lparr>m_state = SLOT_EMPTY, text_lo = 0, text_hi = 0, data_lo = 0, data_hi = 0, hs_lo = 0,
     hs_hi = 0, guard_lo = 0, guard_hi = 0, arena_held = False, m_entry = 0, task_handle = 0,
     last_active_tick = 0, pool_next = 0, pool_end = 0, free_list = 0, parked_until_tick = 0, cmd_entry = 0,
     evt_entry = 0, cmd_name = replicate CMD_NAME_MAX 0, m_name = replicate NAME_MAX 0, gpio_claimed = 0,
     m_res = replicate MAX_RES \<lparr>r_kind = 0, r_id = 0, r_edge = 0, r_rsv = 0\<rparr>, res_count = 0,
     evt_queue_depth = 0, evt_rate_hz = 0, cmd_ret = 0, cmd_pending = False\<rparr>"

lemma zero_module_simps [simp]:
  "m_state zero_module = SLOT_EMPTY" "text_lo zero_module = 0" "text_hi zero_module = 0"
  "task_handle zero_module = 0" "arena_held zero_module = False" "res_count zero_module = 0"
  "gpio_claimed zero_module = 0" "data_lo zero_module = 0" "hs_lo zero_module = 0"
  "length (m_res zero_module) = MAX_RES" "length (m_name zero_module) = NAME_MAX"
  by (simp_all add: zero_module_def)

lemma all_less_4: "(\<forall>i < 4. P i) \<longleftrightarrow> P 0 \<and> P 1 \<and> P 2 \<and> P (3 :: nat)"
  by (auto simp: numeral_eq_Suc less_Suc_eq)

definition g_mdl_slots :: slots where
  "g_mdl_slots = replicate MAX_SLOTS zero_module"

text \<open>\<open>registry_init\<close>: every slot, then the remaining fields of slot zero.\<close>

definition clear_slot :: "module \<Rightarrow> module" where
  "clear_slot m = m\<lparr>m_state := SLOT_EMPTY, m_entry := 0, task_handle := 0, arena_held := False\<rparr>"

definition registry_init :: "slots \<times> fault_info \<Rightarrow> slots \<times> fault_info" where
  "registry_init st = (case st of (ms, f) \<Rightarrow>
     ((map clear_slot ms)[0 := (clear_slot (ms ! 0))\<lparr>last_active_tick := 0\<rparr>], f\<lparr>f_occurred := False\<rparr>))"

definition arch_pc_in_range :: "nat \<Rightarrow> addr \<Rightarrow> addr \<Rightarrow> bool" where
  "arch_pc_in_range pc lo hi \<longleftrightarrow> lo \<le> pc \<and> pc < hi"

text \<open>The index of the first element that satisfies a condition: the shape of every slot search.\<close>

fun find_idx :: "('a \<Rightarrow> bool) \<Rightarrow> 'a list \<Rightarrow> nat option" where
  "find_idx P [] = None"
| "find_idx P (x # xs) = (if P x then Some 0 else map_option Suc (find_idx P xs))"

definition pc_owner :: "u32 \<Rightarrow> slots \<Rightarrow> nat option" where
  "pc_owner pc ms =
     find_idx (\<lambda>m. m_state m \<noteq> SLOT_EMPTY \<and> arch_pc_in_range (unat pc) (text_lo m) (text_hi m)) ms"

definition mdl_record_fault ::
  "u32 \<Rightarrow> u32 \<Rightarrow> u32 \<Rightarrow> u32 \<Rightarrow> slots \<times> fault_info \<Rightarrow> bool \<times> slots \<times> fault_info" where
  "mdl_record_fault pc lr mmfar cfsr st = (case st of (ms, f) \<Rightarrow>
     let f1 = f\<lparr>f_occurred := True, f_pc := pc, f_lr := lr, f_mmfar := mmfar, f_cfsr := cfsr\<rparr>
     in case pc_owner pc ms of
          None \<Rightarrow> (False, ms, f1\<lparr>f_text_offset := 0xFFFFFFFF\<rparr>)
        | Some i \<Rightarrow> (True, ms[i := (ms ! i)\<lparr>m_state := SLOT_FAULTED\<rparr>],
                    f1\<lparr>f_text_offset := pc - of_nat (text_lo (ms ! i))\<rparr>))"

text \<open>\<open>mdl_slot_index\<close> is the position in the table: slots are named by it here.\<close>

definition mdl_caller_slot :: "nat \<Rightarrow> slots \<Rightarrow> nat option" where
  "mdl_caller_slot me ms =
     find_idx (\<lambda>m. m_state m \<noteq> SLOT_EMPTY \<and> task_handle m \<noteq> 0 \<and> task_handle m = me) ms"

text \<open>\<open>mdl_caller_declared\<close>: the first \<open>res_count\<close> claims of the caller's slot.\<close>

definition declares :: "module \<Rightarrow> u8 \<Rightarrow> u8 \<Rightarrow> bool" where
  "declares m kind rid \<longleftrightarrow> (\<exists>r \<in> set (take (res_count m) (m_res m)). r_kind r = kind \<and> r_id r = rid)"

definition mdl_caller_declared :: "nat \<Rightarrow> slots \<Rightarrow> u8 \<Rightarrow> u8 \<Rightarrow> bool" where
  "mdl_caller_declared me ms kind rid =
     (case mdl_caller_slot me ms of None \<Rightarrow> False | Some i \<Rightarrow> declares (ms ! i) kind rid)"

section \<open>The MemManage handler\<close>

text \<open>
  \<open>mdl_memmanage_handler_c\<close>: \<open>stacked\<close> is the hardware exception frame (r0 r1 r2 r3
  r12 lr pc xpsr), \<open>SCB_CFSR\<close> and \<open>SCB_MMFAR\<close> the fault registers. What the handler
  asks of the rest of the system is recorded: the board's persistent record
  (\<open>arch_fault_persist\<close>), a reset, a wake-up of the supervisor.
\<close>

record fault_state =
  fs_slots :: slots
  fs_info :: fault_info
  fs_stacked :: "u32 list"
  SCB_CFSR :: u32
  SCB_MMFAR :: u32
  fs_persisted :: "(bool \<times> u32 \<times> u32) option"
  fs_reset :: bool
  fs_woken :: bool

abbreviation MSTKERR :: u32 where "MSTKERR \<equiv> 0x10"
abbreviation MMARVALID :: u32 where "MMARVALID \<equiv> 0x80"

text \<open>\<open>trap\<close> is the address of \<open>mdl_module_trap\<close>; clearing a status bit is writing 1 to it.\<close>

definition mdl_memmanage_handler_c :: "u32 \<Rightarrow> fault_state \<Rightarrow> fault_state" where
  "mdl_memmanage_handler_c trap s = (let cfsr = SCB_CFSR s in
     if cfsr AND MSTKERR \<noteq> 0 then
       s\<lparr>fs_persisted := Some (False, cfsr, 0xFFFFFFFF), fs_reset := True\<rparr>
     else
       let mmfar = (if cfsr AND MMARVALID \<noteq> 0 then SCB_MMFAR s else 0);
           pc = fs_stacked s ! 6;
           lr = fs_stacked s ! 5;
           (is_module, ms, info) = mdl_record_fault pc lr mmfar cfsr (fs_slots s, fs_info s);
           s1 = s\<lparr>fs_slots := ms, fs_info := info, SCB_CFSR := SCB_CFSR s AND NOT cfsr\<rparr>
       in if \<not> is_module then s1\<lparr>fs_persisted := Some (True, cfsr, mmfar), fs_reset := True\<rparr>
          else s1\<lparr>fs_stacked := (fs_stacked s)[6 := trap OR 1], fs_woken := True\<rparr>)"

section \<open>Slot searches\<close>

lemma find_idx_Some:
  assumes "find_idx P xs = Some i"
  shows "i < length xs \<and> P (xs ! i) \<and> (\<forall>j < i. \<not> P (xs ! j))"
  using assms
proof (induction xs arbitrary: i)
  case (Cons x xs)
  show ?case
  proof (cases "P x")
    case True then show ?thesis using Cons.prems by simp
  next
    case False
    then obtain k where "find_idx P xs = Some k" "i = Suc k" using Cons.prems by auto
    then show ?thesis using Cons.IH [of k] False by (auto simp: nth_Cons split: nat.splits)
  qed
qed simp

lemma find_idx_None: "find_idx P xs = None \<longleftrightarrow> (\<forall>x \<in> set xs. \<not> P x)"
  by (induction xs) auto

lemma find_idx_ex: "x \<in> set xs \<Longrightarrow> P x \<Longrightarrow> \<exists>i. find_idx P xs = Some i"
  using find_idx_None [of P xs] by (cases "find_idx P xs") auto

lemma find_idx_unique:
  assumes "i < length xs" "P (xs ! i)" "\<And>j. j < length xs \<Longrightarrow> P (xs ! j) \<Longrightarrow> j = i"
  shows "find_idx P xs = Some i"
proof -
  obtain k where "find_idx P xs = Some k" using find_idx_ex [of "xs ! i" xs P] assms(1,2) by auto
  then show ?thesis using find_idx_Some [of P xs k] assms(3) [of k] by auto
qed

lemma find_idx_update: "i < length xs \<Longrightarrow> P y = P (xs ! i) \<Longrightarrow> find_idx P (xs[i := y]) = find_idx P xs"
proof (induction xs arbitrary: i)
  case (Cons x xs)
  then show ?case by (cases i) auto
qed simp

text \<open>Loaded modules have pairwise disjoint text regions.\<close>

definition text_disjoint :: "slots \<Rightarrow> bool" where
  "text_disjoint ms \<longleftrightarrow> (\<forall>i < length ms. \<forall>j < length ms. i \<noteq> j
     \<and> m_state (ms ! i) \<noteq> SLOT_EMPTY \<and> m_state (ms ! j) \<noteq> SLOT_EMPTY \<longrightarrow>
     {text_lo (ms ! i) ..< text_hi (ms ! i)} \<inter> {text_lo (ms ! j) ..< text_hi (ms ! j)} = {})"

text \<open>Live task handles are distinct: the kernel gives every task its own.\<close>

definition handles_distinct :: "slots \<Rightarrow> bool" where
  "handles_distinct ms \<longleftrightarrow> (\<forall>i < length ms. \<forall>j < length ms.
     task_handle (ms ! i) \<noteq> 0 \<and> task_handle (ms ! i) = task_handle (ms ! j) \<longrightarrow> i = j)"

lemma pc_owner_eq:
  assumes "text_disjoint ms" "i < length ms" "m_state (ms ! i) \<noteq> SLOT_EMPTY"
    "text_lo (ms ! i) \<le> unat pc" "unat pc < text_hi (ms ! i)"
  shows "pc_owner pc ms = Some i"
  unfolding pc_owner_def
proof (rule find_idx_unique)
  fix j
  assume j: "j < length ms" "m_state (ms ! j) \<noteq> SLOT_EMPTY
      \<and> arch_pc_in_range (unat pc) (text_lo (ms ! j)) (text_hi (ms ! j))"
  show "j = i"
  proof (rule ccontr)
    assume "j \<noteq> i"
    then have "{text_lo (ms ! j) ..< text_hi (ms ! j)} \<inter> {text_lo (ms ! i) ..< text_hi (ms ! i)} = {}"
      using assms j by (auto simp: text_disjoint_def)
    moreover have "unat pc \<in> {text_lo (ms ! j) ..< text_hi (ms ! j)}"
      "unat pc \<in> {text_lo (ms ! i) ..< text_hi (ms ! i)}"
      using j assms(4,5) by (simp_all add: arch_pc_in_range_def)
    ultimately show False by blast
  qed
qed (use assms in \<open>auto simp: arch_pc_in_range_def\<close>)

text \<open>C24: a fault inside a module's code stops that module and nothing else. With a usable exception
  frame and a program counter in the text of the loaded module in slot \<open>i\<close>, the handler does
  not reset the board: only slot \<open>i\<close> becomes faulted, its saved program counter is redirected to
  the trap, the supervisor is woken, and the offset recorded is the position inside its text.\<close>

theorem module_fault_contained:
  assumes "SCB_CFSR s AND MSTKERR = 0" "text_disjoint (fs_slots s)" "length (fs_stacked s) = 8"
    and "i < length (fs_slots s)" "m_state (fs_slots s ! i) \<noteq> SLOT_EMPTY" "text_hi (fs_slots s ! i) < 2 ^ 32"
    and "text_lo (fs_slots s ! i) \<le> unat (fs_stacked s ! 6)" "unat (fs_stacked s ! 6) < text_hi (fs_slots s ! i)"
  shows "let s' = mdl_memmanage_handler_c trap s in
    fs_reset s' = fs_reset s \<and> fs_woken s' \<and> SCB_CFSR s' = 0
    \<and> fs_slots s' = (fs_slots s)[i := (fs_slots s ! i)\<lparr>m_state := SLOT_FAULTED\<rparr>]
    \<and> fs_stacked s' ! 6 = trap OR 1 \<and> (\<forall>j < 8. j \<noteq> 6 \<longrightarrow> fs_stacked s' ! j = fs_stacked s ! j)
    \<and> text_lo (fs_slots s ! i) + unat (f_text_offset (fs_info s')) = unat (fs_stacked s ! 6)"
proof -
  have own: "pc_owner (fs_stacked s ! 6) (fs_slots s) = Some i"
    using pc_owner_eq [OF assms(2,4,5,7,8)] .
  have lo: "of_nat (text_lo (fs_slots s ! i)) \<le> fs_stacked s ! 6"
    using assms(6-8) by (simp add: word_le_nat_alt unat_of_nat take_bit_nat_eq_self)
  have off: "unat (fs_stacked s ! 6 - of_nat (text_lo (fs_slots s ! i))) =
      unat (fs_stacked s ! 6) - text_lo (fs_slots s ! i)"
    using lo assms(6-8) by (simp add: unat_sub unat_of_nat take_bit_nat_eq_self)
  show ?thesis
    using own off assms(1,3,7)
    by (simp add: mdl_memmanage_handler_c_def mdl_record_fault_def Let_def)
qed

text \<open>A fault outside every loaded module's text is a host fault: every slot is left as it was, the
  fault is recorded with the offset \<open>0xFFFFFFFF\<close> and persisted, and the board resets. Without a
  usable frame the frame is not looked at.\<close>

theorem host_fault_resets:
  assumes "SCB_CFSR s AND MSTKERR \<noteq> 0 \<or>
    (\<forall>m \<in> set (fs_slots s). m_state m = SLOT_EMPTY \<or> unat (fs_stacked s ! 6) < text_lo m
       \<or> text_hi m \<le> unat (fs_stacked s ! 6))"
  shows "let s' = mdl_memmanage_handler_c trap s in
    fs_reset s' \<and> fs_slots s' = fs_slots s \<and> fs_stacked s' = fs_stacked s \<and> fs_woken s' = fs_woken s
    \<and> fs_persisted s' \<noteq> None
    \<and> (SCB_CFSR s AND MSTKERR = 0 \<longrightarrow> f_text_offset (fs_info s') = 0xFFFFFFFF)"
proof -
  have "pc_owner (fs_stacked s ! 6) (fs_slots s) = None" if "SCB_CFSR s AND MSTKERR = 0"
    unfolding pc_owner_def find_idx_None using that assms by (auto simp: arch_pc_in_range_def)
  then show ?thesis by (auto simp: mdl_memmanage_handler_c_def mdl_record_fault_def Let_def)
qed

text \<open>Caller identity cannot be confused. When live handles are distinct, the slot found for a
  task is exactly the one that holds its handle, whatever the others are; a task that belongs to no
  loaded module gets no slot and has declared nothing.\<close>

theorem caller_slot_exact:
  assumes "handles_distinct ms"
  shows "(mdl_caller_slot me ms = Some i) =
      (i < length ms \<and> m_state (ms ! i) \<noteq> SLOT_EMPTY \<and> me \<noteq> 0 \<and> task_handle (ms ! i) = me)
    \<and> (mdl_caller_declared me ms kind rid =
        (\<exists>j < length ms. m_state (ms ! j) \<noteq> SLOT_EMPTY \<and> me \<noteq> 0 \<and> task_handle (ms ! j) = me
           \<and> declares (ms ! j) kind rid))"
proof -
  have eq: "(mdl_caller_slot me ms = Some i) =
      (i < length ms \<and> m_state (ms ! i) \<noteq> SLOT_EMPTY \<and> me \<noteq> 0 \<and> task_handle (ms ! i) = me)" for i
  proof
    assume "mdl_caller_slot me ms = Some i"
    then show "i < length ms \<and> m_state (ms ! i) \<noteq> SLOT_EMPTY \<and> me \<noteq> 0 \<and> task_handle (ms ! i) = me"
      using find_idx_Some unfolding mdl_caller_slot_def by fastforce
  next
    assume "i < length ms \<and> m_state (ms ! i) \<noteq> SLOT_EMPTY \<and> me \<noteq> 0 \<and> task_handle (ms ! i) = me"
    then show "mdl_caller_slot me ms = Some i"
      using assms unfolding mdl_caller_slot_def
      by (intro find_idx_unique) (auto simp: handles_distinct_def)
  qed
  have "mdl_caller_declared me ms kind rid = (\<exists>j. mdl_caller_slot me ms = Some j \<and> declares (ms ! j) kind rid)"
    by (auto simp: mdl_caller_declared_def split: option.splits)
  then show ?thesis unfolding eq by auto
qed

section \<open>Concrete instances\<close>

abbreviation wit_module :: "addr \<Rightarrow> addr \<Rightarrow> nat \<Rightarrow> module" where
  "wit_module lo hi h \<equiv> zero_module\<lparr>m_state := SLOT_RUNNING, text_lo := lo, text_hi := hi, task_handle := h\<rparr>"

abbreviation wit_slots :: slots where
  "wit_slots \<equiv> [wit_module 0x20020000 0x20020400 7, wit_module 0x20020400 0x20020800 9, zero_module, zero_module]"

abbreviation wit_info :: fault_info where
  "wit_info \<equiv> \<lparr>f_occurred = False, f_pc = 0, f_lr = 0, f_mmfar = 0, f_cfsr = 0, f_text_offset = 0\<rparr>"

abbreviation wit_fault :: "u32 \<Rightarrow> fault_state" where
  "wit_fault pc \<equiv> \<lparr>fs_slots = wit_slots, fs_info = wit_info, fs_stacked = [0, 0, 0, 0, 0, 0, pc, 0],
     SCB_CFSR = 2, SCB_MMFAR = 0, fs_persisted = None, fs_reset = False, fs_woken = False\<rparr>"

lemma wit_slots_ok: "text_disjoint wit_slots" "handles_distinct wit_slots"
proof -
  have len: "length wit_slots = 4" by simp
  show "text_disjoint wit_slots" unfolding text_disjoint_def len all_less_4 by simp
  show "handles_distinct wit_slots" unfolding handles_distinct_def len all_less_4 by simp
qed

theorem module_fault_contained_witness:
  "let s' = mdl_memmanage_handler_c 0x08001000 (wit_fault 0x20020410)
   in \<not> fs_reset s' \<and> fs_woken s' \<and> m_state (fs_slots s' ! 1) = SLOT_FAULTED
      \<and> m_state (fs_slots s' ! 0) = SLOT_RUNNING \<and> fs_stacked s' ! 6 = 0x08001001"
  using module_fault_contained [of "wit_fault 0x20020410" 1 "0x08001000"] wit_slots_ok
  by (simp add: Let_def)

theorem host_fault_resets_witness:
  "let s' = mdl_memmanage_handler_c 0x08001000 (wit_fault 0x08000000)
   in fs_reset s' \<and> fs_slots s' = wit_slots"
  using host_fault_resets [of "wit_fault 0x08000000" "0x08001000"] by (simp add: Let_def)

theorem caller_slot_exact_witness: "mdl_caller_slot 9 wit_slots = Some 1"
  using caller_slot_exact [OF wit_slots_ok(2), of 9 1] by simp

end
