(* ===== verification/Arena.thy ===== *)
theory Arena
  imports Registry Buddy "HOL-Library.Multiset"
begin

text \<open>
  \<open>src/mdl/core/arena.c\<close>: a module's memory is three buddy blocks, text, data and
  heap-plus-stack. The invariant \<open>arena_inv\<close> relates the slot table to the
  allocator: the regions recorded in the slots that hold memory are exactly the
  allocator's live blocks, each once. Isolation between modules, and the absence
  of leaks, are consequences.
\<close>

abbreviation HEAP_SIZE :: nat where "HEAP_SIZE \<equiv> 4 * 1024"
abbreviation GUARD_SIZE :: nat where "GUARD_SIZE \<equiv> 2 * 1024"
abbreviation STACK_SIZE :: nat where "STACK_SIZE \<equiv> 2 * 1024"
abbreviation HEAPSTACK_BYTES :: nat where "HEAPSTACK_BYTES \<equiv> HEAP_SIZE + GUARD_SIZE + STACK_SIZE"

text \<open>The result is the answer and \<open>*need_out\<close>.\<close>

definition mdl_arena_would_fit :: "nat \<Rightarrow> nat \<Rightarrow> bstate \<Rightarrow> (bool \<times> nat) option" where
  "mdl_arena_would_fit text_bytes data_bytes st =
     (let t = mdl_buddy_block_size text_bytes;
          d = mdl_buddy_block_size data_bytes;
          h = mdl_buddy_block_size HEAPSTACK_BYTES;
          need = add32 (add32 t d) h
      in if t = 0 \<or> d = 0 \<or> h = 0 then Some (False, need)
         else case mdl_buddy_stats st of
                None \<Rightarrow> None
              | Some (_, largest) \<Rightarrow>
                 (let b = (if d < t then t else d); b = (if b < h then h else b)
                  in Some (b \<le> largest, need)))"

definition set_bounds :: "addr \<Rightarrow> addr \<Rightarrow> addr \<Rightarrow> nat \<Rightarrow> nat \<Rightarrow> module \<Rightarrow> module" where
  "set_bounds t d h text_bytes data_bytes m =
     m\<lparr>text_lo := t, text_hi := add32 t (mdl_buddy_block_size text_bytes),
       data_lo := d, data_hi := add32 d (mdl_buddy_block_size data_bytes),
       hs_lo := h, hs_hi := add32 h (mdl_buddy_block_size HEAPSTACK_BYTES),
       guard_lo := add32 h HEAP_SIZE, guard_hi := add32 (add32 h HEAP_SIZE) GUARD_SIZE,
       arena_held := True\<rparr>"

definition mdl_arena_acquire :: "nat \<Rightarrow> nat \<Rightarrow> module \<Rightarrow> bstate \<Rightarrow> (bool \<times> module \<times> bstate) option" where
  "mdl_arena_acquire text_bytes data_bytes m st =
     (let (t, st1) = mdl_buddy_alloc text_bytes st;
          (d, st2) = mdl_buddy_alloc data_bytes st1;
          (h, st3) = mdl_buddy_alloc HEAPSTACK_BYTES st2
      in if t = 0 \<or> d = 0 \<or> h = 0 then
           (case mdl_buddy_free t st3 of None \<Rightarrow> None
            | Some st4 \<Rightarrow> (case mdl_buddy_free d st4 of None \<Rightarrow> None
               | Some st5 \<Rightarrow> map_option (\<lambda>st6. (False, m, st6)) (mdl_buddy_free h st5)))
         else Some (True, set_bounds t d h text_bytes data_bytes m, st3))"

definition clear_bounds :: "module \<Rightarrow> module" where
  "clear_bounds m = m\<lparr>text_lo := 0, text_hi := 0, data_lo := 0, data_hi := 0, hs_lo := 0, hs_hi := 0,
     guard_lo := 0, guard_hi := 0, arena_held := False\<rparr>"

definition mdl_arena_release :: "module \<Rightarrow> bstate \<Rightarrow> (module \<times> bstate) option" where
  "mdl_arena_release m st =
     (if \<not> arena_held m then Some (m, st)
      else case mdl_buddy_free (text_lo m) st of None \<Rightarrow> None
        | Some st1 \<Rightarrow> (case mdl_buddy_free (data_lo m) st1 of None \<Rightarrow> None
           | Some st2 \<Rightarrow> map_option (\<lambda>st3. (clear_bounds m, st3)) (mdl_buddy_free (hs_lo m) st2)))"

text \<open>\<open>sandbox_bounds_init\<close> of \<open>sandbox.c\<close>, on slot zero; \<open>pool\<close> is \<open>__mdl_pool_start\<close>.\<close>

definition sandbox_bounds_init :: "addr \<Rightarrow> slots \<Rightarrow> mem \<Rightarrow> slots \<times> bstate" where
  "sandbox_bounds_init pool ms m = (ms[0 := clear_bounds (ms ! 0)], mdl_buddy_init pool m)"

section \<open>Regions\<close>

type_synonym region = "addr \<times> addr"

definition region_of :: "block \<Rightarrow> region" where
  "region_of b = (snd b, snd b + 2 ^ fst b)"

definition live_regions :: "bstate \<Rightarrow> region set" where
  "live_regions st = region_of ` live_blocks st"

definition regions_of :: "module \<Rightarrow> region list" where
  "regions_of m = (if arena_held m then [(text_lo m, text_hi m), (data_lo m, data_hi m), (hs_lo m, hs_hi m)] else [])"

definition arena_inv :: "slots \<Rightarrow> bstate \<Rightarrow> bool" where
  "arena_inv ms st \<longleftrightarrow> buddy_ok st \<and> mset (concat (map regions_of ms)) = mset_set (live_regions st)"

lemma region_of_inj: "region_of p = region_of q \<longleftrightarrow> p = q"
  by (cases p; cases q) (auto simp: region_of_def)

lemma finite_live_blocks: "finite (live_blocks st)"
  using finite_lives by (simp add: live_blocks_def)

lemma finite_live_regions: "finite (live_regions st)"
  using finite_live_blocks by (simp add: live_regions_def)

text \<open>One block more, one block less.\<close>

lemma regions_alloc:
  assumes "buddy_ok st" "mdl_buddy_alloc sz st = (a, st')" "a \<noteq> 0"
  shows "mset_set (live_regions st') = add_mset (a, add32 a (mdl_buddy_block_size sz)) (mset_set (live_regions st))"
    "sz \<le> mdl_buddy_block_size sz" "a + mdl_buddy_block_size sz < 2 ^ 32"
    "\<exists>k. mdl_buddy_block_size sz = 2 ^ k \<and> 10 \<le> k \<and> 2 ^ k dvd a"
proof -
  obtain k where k: "mdl_buddy_block_size sz = 2 ^ k" "sz \<le> 2 ^ k" "live_blocks st' = insert (k, a) (live_blocks st)"
    using alloc_full [OF assms(1,2)] assms(3) by (auto split: if_splits)
  have ok': "buddy_ok st'" by (rule bud.alloc_ok [OF assms(1,2)])
  note b = buddy_live_bounds [OF ok', of k a]
  have lim: "a + 2 ^ k < 2 ^ 32" using b(6,7) k(3) by auto
  have new: "(k, a) \<notin> live_blocks st" using bud.alloc_fresh [OF assms] by blast
  have "(a, a + 2 ^ k) \<notin> live_regions st"
    using new region_of_inj [of "(k, a)"] by (auto simp: live_regions_def region_of_def)
  moreover have "live_regions st' = insert (a, a + 2 ^ k) (live_regions st)"
    by (simp add: live_regions_def k(3) region_of_def)
  ultimately show "mset_set (live_regions st') =
      add_mset (a, add32 a (mdl_buddy_block_size sz)) (mset_set (live_regions st))"
    using finite_live_regions k(1) lim by simp
  show "sz \<le> mdl_buddy_block_size sz" "a + mdl_buddy_block_size sz < 2 ^ 32"
    "\<exists>k. mdl_buddy_block_size sz = 2 ^ k \<and> 10 \<le> k \<and> 2 ^ k dvd a"
    using k lim b(1,3) by auto
qed

lemma regions_free:
  assumes "buddy_ok st" "(a, h) \<in> live_regions st"
  shows "\<exists>st'. mdl_buddy_free a st = Some st' \<and> buddy_ok st'
    \<and> mset_set (live_regions st') = mset_set (live_regions st) - {#(a, h)#}
    \<and> live_regions st' = live_regions st - {(a, h)}"
proof -
  obtain k where k: "(k, a) \<in> live_blocks st" "h = a + 2 ^ k"
    using assms(2) by (auto simp: live_regions_def region_of_def)
  obtain st' where f: "mdl_buddy_free a st = Some st'" "buddy_ok st'" "live_blocks st' = {b \<in> live_blocks st. snd b \<noteq> a}"
    using bud.free_live [OF assms(1), of a] by blast
  have uniq: "j = k" if "(j, a) \<in> live_blocks st" for j using bud.live_start_unique [OF assms(1) that k(1)] .
  have "live_blocks st' = live_blocks st - {(k, a)}" unfolding f(3) by (auto dest: uniq)
  then have L: "live_regions st' = live_regions st - {(a, h)}"
    using region_of_inj k(2) by (auto simp: live_regions_def region_of_def)
  then show ?thesis using f mset_set_Diff [OF finite_live_regions, of "{(a, h)}" st] assms(2) by auto
qed

lemma regions_free_null: "buddy_ok st \<Longrightarrow> mdl_buddy_free 0 st = Some st"
  by (cases st) (simp add: mdl_buddy_free_def free_target_def)

section \<open>Acquire and release\<close>

lemma alloc_undo:
  assumes "buddy_ok st" "mdl_buddy_alloc sz st = (a, st')"
  shows "buddy_ok st'" "live_blocks st = {b \<in> live_blocks st'. snd b \<noteq> a}"
proof -
  show "buddy_ok st'" by (rule bud.alloc_ok [OF assms])
  show "live_blocks st = {b \<in> live_blocks st'. snd b \<noteq> a}"
  proof (cases "a = 0")
    case True
    then have "st' = st" using bud.alloc_fail assms by blast
    then show ?thesis using True buddy_live_bounds(4) [OF assms(1)] by auto
  next
    case False
    then obtain k where k: "live_blocks st' = insert (k, a) (live_blocks st)" using bud.alloc_live [OF assms] by blast
    have "snd b \<noteq> a" if "b \<in> live_blocks st" for b
      using bud.alloc_fresh [OF assms False, of "fst b"] that by auto
    then show ?thesis unfolding k by auto
  qed
qed

lemma acquire_total:
  assumes ok: "buddy_ok st"
  obtains (granted) t d h st' where
      "mdl_arena_acquire text_bytes data_bytes m st = Some (True, set_bounds t d h text_bytes data_bytes m, st')"
      "buddy_ok st'"
      "mset_set (live_regions st') = mset (regions_of (set_bounds t d h text_bytes data_bytes m)) + mset_set (live_regions st)"
      "\<forall>(a, sz) \<in> {(t, text_bytes), (d, data_bytes), (h, HEAPSTACK_BYTES)}.
         sz \<le> mdl_buddy_block_size sz \<and> a + mdl_buddy_block_size sz < 2 ^ 32
         \<and> (\<exists>k. mdl_buddy_block_size sz = 2 ^ k \<and> 10 \<le> k \<and> 2 ^ k dvd a)"
      "t \<noteq> 0" "d \<noteq> 0" "h \<noteq> 0"
  | (refused) st' where "mdl_arena_acquire text_bytes data_bytes m st = Some (False, m, st')"
      "buddy_ok st'" "live_blocks st' = live_blocks st"
proof -
  obtain t st1 where A: "mdl_buddy_alloc text_bytes st = (t, st1)" by (cases "mdl_buddy_alloc text_bytes st")
  obtain d st2 where B: "mdl_buddy_alloc data_bytes st1 = (d, st2)" by (cases "mdl_buddy_alloc data_bytes st1")
  obtain h st3 where C: "mdl_buddy_alloc HEAPSTACK_BYTES st2 = (h, st3)"
    by (cases "mdl_buddy_alloc HEAPSTACK_BYTES st2")
  note a = alloc_undo [OF ok A] note b = alloc_undo [OF a(1) B] note c = alloc_undo [OF b(1) C]
  show thesis
  proof (cases "t = 0 \<or> d = 0 \<or> h = 0")
    case False
    then have nz: "t \<noteq> 0" "d \<noteq> 0" "h \<noteq> 0" by auto
    note ra = regions_alloc [OF ok A nz(1)] and rb = regions_alloc [OF a(1) B nz(2)]
      and rc = regions_alloc [OF b(1) C nz(3)]
    show thesis
    proof (rule granted)
      show "mdl_arena_acquire text_bytes data_bytes m st = Some (True, set_bounds t d h text_bytes data_bytes m, st3)"
        using A B C False by (simp add: mdl_arena_acquire_def)
      show "mset_set (live_regions st3) =
          mset (regions_of (set_bounds t d h text_bytes data_bytes m)) + mset_set (live_regions st)"
        unfolding rc(1) rb(1) ra(1) by (simp add: regions_of_def set_bounds_def)
      show "\<forall>(a, sz) \<in> {(t, text_bytes), (d, data_bytes), (h, HEAPSTACK_BYTES)}.
         sz \<le> mdl_buddy_block_size sz \<and> a + mdl_buddy_block_size sz < 2 ^ 32
         \<and> (\<exists>k. mdl_buddy_block_size sz = 2 ^ k \<and> 10 \<le> k \<and> 2 ^ k dvd a)"
        using ra(2-4) rb(2-4) rc(2-4) by blast
    qed (use c nz in auto)
  next
    case True
    obtain st4 where 4: "mdl_buddy_free t st3 = Some st4" "buddy_ok st4"
      "live_blocks st4 = {b \<in> live_blocks st3. snd b \<noteq> t}" using bud.free_live [OF c(1), of t] by blast
    obtain st5 where 5: "mdl_buddy_free d st4 = Some st5" "buddy_ok st5"
      "live_blocks st5 = {b \<in> live_blocks st4. snd b \<noteq> d}" using bud.free_live [OF 4(2), of d] by blast
    obtain st6 where 6: "mdl_buddy_free h st5 = Some st6" "buddy_ok st6"
      "live_blocks st6 = {b \<in> live_blocks st5. snd b \<noteq> h}" using bud.free_live [OF 5(2), of h] by blast
    show thesis
    proof (rule refused)
      show "mdl_arena_acquire text_bytes data_bytes m st = Some (False, m, st6)"
        using A B C True 4(1) 5(1) 6(1) by (simp add: mdl_arena_acquire_def)
      show "live_blocks st6 = live_blocks st" unfolding 6(3) 5(3) 4(3) a(2) b(2) c(2) by blast
    qed (rule 6)
  qed
qed

lemma mset_concat_update:
  assumes "i < length ms"
  shows "mset (concat (map f (ms[i := x]))) + mset (f (ms ! i)) = mset (concat (map f ms)) + mset (f x)"
  using assms
proof (induction ms arbitrary: i)
  case (Cons y ys)
  then show ?case by (cases i) (auto simp: ac_simps)
qed simp

lemma arena_inv_acquire:
  assumes inv: "arena_inv ms st" and i: "i < length ms" "\<not> arena_held (ms ! i)"
    and run: "mdl_arena_acquire tb db (ms ! i) st = Some (ok, m', st')"
  shows "arena_inv (ms[i := m']) st'" "ok \<longleftrightarrow> arena_held m'" "\<not> ok \<Longrightarrow> m' = ms ! i"
proof -
  have b: "buddy_ok st" using inv by (simp add: arena_inv_def)
  have empty: "regions_of (ms ! i) = []" using i by (simp add: regions_of_def)
  have upd: "mset (concat (map regions_of (ms[i := m']))) = mset_set (live_regions st) + mset (regions_of m')"
    using mset_concat_update [OF i(1), of regions_of m'] inv empty by (simp add: arena_inv_def)
  have "arena_inv (ms[i := m']) st' \<and> (ok \<longleftrightarrow> arena_held m') \<and> (\<not> ok \<longrightarrow> m' = ms ! i)"
    using b
  proof (cases rule: acquire_total [where text_bytes = tb and data_bytes = db and m = "ms ! i"])
    case (granted t d h st'')
    then show ?thesis using run upd by (auto simp: arena_inv_def set_bounds_def ac_simps)
  next
    case (refused st'')
    then have "live_regions st'' = live_regions st" by (simp add: live_regions_def)
    then show ?thesis using refused run upd empty i(2) by (auto simp: arena_inv_def)
  qed
  then show "arena_inv (ms[i := m']) st'" "ok \<longleftrightarrow> arena_held m'" "\<not> ok \<Longrightarrow> m' = ms ! i" by auto
qed

lemma arena_inv_release:
  assumes inv: "arena_inv ms st" and i: "i < length ms"
  shows "\<exists>m' st'. mdl_arena_release (ms ! i) st = Some (m', st') \<and> arena_inv (ms[i := m']) st'
    \<and> (m' = (if arena_held (ms ! i) then clear_bounds (ms ! i) else ms ! i))
    \<and> mset_set (live_regions st) = mset_set (live_regions st') + mset (regions_of (ms ! i))"
proof (cases "arena_held (ms ! i)")
  case False
  then show ?thesis using inv i by (simp add: mdl_arena_release_def regions_of_def)
next
  case True
  let ?m = "ms ! i"
  let ?T = "(text_lo ?m, text_hi ?m)" and ?D = "(data_lo ?m, data_hi ?m)" and ?H = "(hs_lo ?m, hs_hi ?m)"
  have b: "buddy_ok st" and ms: "mset (concat (map regions_of ms)) = mset_set (live_regions st)"
    using inv by (auto simp: arena_inv_def)
  have r: "regions_of ?m = [?T, ?D, ?H]" using True by (simp add: regions_of_def)
  have "mset (regions_of ?m) \<subseteq># mset (concat (map regions_of ms))"
    using mset_concat_update [OF i, of regions_of "clear_bounds ?m"]
    by (metis mset_subset_eq_add_right regions_of_def clear_bounds_def module.select_convs(10)
        module.update_convs(10) mset.simps(1) add.right_neutral module.surjective)
  then have sub: "{#?T, ?D, ?H#} \<subseteq># mset_set (live_regions st)" using ms r by simp
  then have inT: "?T \<in> live_regions st" using finite_live_regions
    by (metis finite_set_mset_mset_set insert_subset_eq_iff mset_subset_eq_insertD)
  obtain s1 where 1: "mdl_buddy_free (text_lo ?m) st = Some s1" "buddy_ok s1"
    "mset_set (live_regions s1) = mset_set (live_regions st) - {#?T#}" using regions_free [OF b inT] by blast
  have sub1: "{#?D, ?H#} \<subseteq># mset_set (live_regions s1)" unfolding 1(3) using sub
    by (simp add: insert_subset_eq_iff)
  then have inD: "?D \<in> live_regions s1" using finite_live_regions by (simp add: insert_subset_eq_iff)
  obtain s2 where 2: "mdl_buddy_free (data_lo ?m) s1 = Some s2" "buddy_ok s2"
    "mset_set (live_regions s2) = mset_set (live_regions s1) - {#?D#}" using regions_free [OF 1(2) inD] by blast
  have "{#?H#} \<subseteq># mset_set (live_regions s2)" unfolding 2(3) using sub1 by (simp add: insert_subset_eq_iff)
  then have inH: "?H \<in> live_regions s2" using finite_live_regions by simp
  obtain s3 where 3: "mdl_buddy_free (hs_lo ?m) s2 = Some s3" "buddy_ok s3"
    "mset_set (live_regions s3) = mset_set (live_regions s2) - {#?H#}" using regions_free [OF 2(2) inH] by blast
  have run: "mdl_arena_release ?m st = Some (clear_bounds ?m, s3)"
    using True 1(1) 2(1) 3(1) by (simp add: mdl_arena_release_def)
  have tot: "mset_set (live_regions st) = mset_set (live_regions s3) + {#?T, ?D, ?H#}"
  proof -
    have e: "mset_set (live_regions s3) = mset_set (live_regions st) - {#?T, ?D, ?H#}"
      unfolding 3(3) 2(3) 1(3) by (simp add: add_mset_commute)
    show ?thesis unfolding e by (rule subset_mset.diff_add [OF sub, symmetric])
  qed
  have "regions_of (clear_bounds ?m) = []" by (simp add: regions_of_def clear_bounds_def)
  then have "mset (concat (map regions_of (ms[i := clear_bounds ?m]))) + {#?T, ?D, ?H#} = mset_set (live_regions st)"
    using mset_concat_update [OF i, of regions_of "clear_bounds ?m"] ms r by simp
  then have "mset (concat (map regions_of (ms[i := clear_bounds ?m]))) = mset_set (live_regions s3)"
    unfolding tot by simp
  then show ?thesis using run True 3(2) tot r by (auto simp: arena_inv_def)
qed

section \<open>Isolation\<close>

text \<open>Different live regions do not overlap, so neither do the regions of different slots.\<close>

lemma live_regions_disjoint:
  assumes "buddy_ok st" "(a, b) \<in> live_regions st" "(c, d) \<in> live_regions st" "(a, b) \<noteq> (c, d)"
  shows "{a ..< b} \<inter> {c ..< d} = {}"
proof -
  obtain p where p: "p \<in> live_blocks st" "(a, b) = region_of p" using assms(2) by (auto simp: live_regions_def)
  obtain q where q: "q \<in> live_blocks st" "(c, d) = region_of q" using assms(3) by (auto simp: live_regions_def)
  have "p \<noteq> q" using p(2) q(2) assms(4) by metis
  then have "blk p \<inter> blk q = {}" using buddy_live_disjoint [OF assms(1) p(1) q(1)] by blast
  then show ?thesis using p(2) q(2) by (simp add: region_of_def blk_def)
qed

lemma arena_inv_set: "arena_inv ms st \<Longrightarrow> set (concat (map regions_of ms)) = live_regions st"
  unfolding arena_inv_def by (metis finite_live_regions finite_set_mset_mset_set set_mset_mset)

lemma arena_inv_live:
  assumes "arena_inv ms st" "m \<in> set ms" "r \<in> set (regions_of m)"
  shows "r \<in> live_regions st"
  unfolding arena_inv_set [OF assms(1), symmetric] using assms(2,3) by auto

lemma distinct_concat_nth:
  assumes "distinct (concat (map f xs))" "i < length xs" "j < length xs" "i \<noteq> j"
  shows "set (f (xs ! i)) \<inter> set (f (xs ! j)) = {}"
  using assms
proof (induction xs arbitrary: i j)
  case (Cons x xs)
  have step: "set (f x) \<inter> set (f (xs ! k)) = {}" if "k < length xs" for k
    using Cons.prems(1) nth_mem [OF that] by auto
  show ?case
    using Cons.prems Cons.IH [of "i - 1" "j - 1"] step by (cases i; cases j) auto
qed simp

lemma arena_inv_distinct:
  assumes "arena_inv ms st"
  shows "distinct (concat (map regions_of ms))"
proof (rule card_distinct)
  have "length (concat (map regions_of ms)) = size (mset_set (live_regions st))"
    using assms unfolding arena_inv_def by (metis size_mset)
  then show "card (set (concat (map regions_of ms))) = length (concat (map regions_of ms))"
    unfolding arena_inv_set [OF assms] by simp
qed

lemma arena_inv_isolation:
  assumes inv: "arena_inv ms st" and ij: "i < length ms" "j < length ms" "i \<noteq> j"
    and r: "(a, b) \<in> set (regions_of (ms ! i))" "(c, d) \<in> set (regions_of (ms ! j))"
  shows "{a ..< b} \<inter> {c ..< d} = {}"
proof -
  have "(a, b) \<noteq> (c, d)" using distinct_concat_nth [OF arena_inv_distinct [OF inv] ij] r by blast
  moreover have "(a, b) \<in> live_regions st" "(c, d) \<in> live_regions st"
    using arena_inv_live [OF inv nth_mem] ij r by blast+
  moreover have "buddy_ok st" using inv by (simp add: arena_inv_def)
  ultimately show ?thesis using live_regions_disjoint by blast
qed

text \<open>Any history of the table: a slot that holds nothing acquires, any slot releases.\<close>

datatype aop = Acquire nat nat nat | Release nat

definition exec_aop :: "aop \<Rightarrow> slots \<times> bstate \<Rightarrow> (slots \<times> bstate) option" where
  "exec_aop op st = (case st of (ms, b) \<Rightarrow> (case op of
     Acquire i tb db \<Rightarrow>
       if i < length ms \<and> \<not> arena_held (ms ! i)
       then map_option (\<lambda>(ok, m, b'). (ms[i := m], b')) (mdl_arena_acquire tb db (ms ! i) b)
       else Some (ms, b)
   | Release i \<Rightarrow>
       if i < length ms then map_option (\<lambda>(m, b'). (ms[i := m], b')) (mdl_arena_release (ms ! i) b)
       else Some (ms, b)))"

fun exec_aops :: "aop list \<Rightarrow> slots \<times> bstate \<Rightarrow> (slots \<times> bstate) option" where
  "exec_aops [] st = Some st"
| "exec_aops (op # ops) st = (case exec_aop op st of None \<Rightarrow> None | Some st' \<Rightarrow> exec_aops ops st')"

lemma exec_aop_inv: "arena_inv ms b \<Longrightarrow> \<exists>ms' b'. exec_aop op (ms, b) = Some (ms', b') \<and> arena_inv ms' b' \<and> length ms' = length ms"
proof (cases op)
  case (Acquire i tb db)
  assume inv: "arena_inv ms b"
  show ?thesis
  proof (cases "i < length ms \<and> \<not> arena_held (ms ! i)")
    case True
    have ok: "buddy_ok b" using inv by (simp add: arena_inv_def)
    obtain g m b' where r: "mdl_arena_acquire tb db (ms ! i) b = Some (g, m, b')"
      using acquire_total [OF ok, of tb db "ms ! i"] by metis
    then show ?thesis using arena_inv_acquire(1) [OF inv _ _ r] True Acquire by (simp add: exec_aop_def)
  qed (use inv Acquire in \<open>cases b, auto simp: exec_aop_def\<close>)
next
  case (Release i)
  assume inv: "arena_inv ms b"
  then show ?thesis using arena_inv_release [OF inv, of i] Release by (cases "i < length ms") (auto simp: exec_aop_def)
qed

lemma exec_aops_inv:
  "arena_inv ms b \<Longrightarrow> \<exists>ms' b'. exec_aops ops (ms, b) = Some (ms', b') \<and> arena_inv ms' b' \<and> length ms' = length ms"
proof (induction ops arbitrary: ms b)
  case (Cons op ops)
  then obtain ms1 b1 where "exec_aop op (ms, b) = Some (ms1, b1)" "arena_inv ms1 b1" "length ms1 = length ms"
    using exec_aop_inv by blast
  then show ?case using Cons.IH [of ms1 b1] by auto
qed simp

lemma arena_inv_init: "pool_ok pool \<Longrightarrow> arena_inv g_mdl_slots (mdl_buddy_init pool m)"
  using init_inv [of pool m]
  by (simp add: arena_inv_def g_mdl_slots_def regions_of_def live_regions_def numeral_eq_Suc)

text \<open>C11: isolation and no leak, after any history of acquisitions (with any sizes, granted or
  refused) and releases on the four slots. The allocator's live regions are exactly the regions
  recorded in the slots that hold memory, each once, so nothing is lost and nothing is shared; the
  regions of two different slots never overlap; and releasing every slot gives the whole pool back.\<close>

theorem arena_isolation:
  assumes "pool_ok pool"
  shows "\<exists>ms b. exec_aops ops (g_mdl_slots, mdl_buddy_init pool m) = Some (ms, b)
    \<and> mset (concat (map regions_of ms)) = mset_set (live_regions b)
    \<and> (\<forall>i < 4. \<forall>j < 4. \<forall>(x, y) \<in> set (regions_of (ms ! i)). \<forall>(u, v) \<in> set (regions_of (ms ! j)).
         i \<noteq> j \<longrightarrow> {x ..< y} \<inter> {u ..< v} = {})
    \<and> (\<exists>b'. map_option snd (exec_aops [Release 0, Release 1, Release 2, Release 3] (ms, b)) = Some b'
         \<and> live_blocks b' = {})"
proof -
  obtain ms b where r: "exec_aops ops (g_mdl_slots, mdl_buddy_init pool m) = Some (ms, b)" "arena_inv ms b" "length ms = 4"
    using exec_aops_inv [OF arena_inv_init [OF assms], of ops m] by (auto simp: g_mdl_slots_def)
  have step: "\<exists>ms' b'. exec_aop (Release i) (ms, b) = Some (ms', b') \<and> arena_inv ms' b' \<and> length ms' = 4
      \<and> (\<forall>j < 4. arena_held (ms' ! j) \<longrightarrow> j \<noteq> i \<and> arena_held (ms ! j))"
    if "arena_inv ms b" "length ms = 4" "i < 4" for ms b i
    using arena_inv_release [OF that(1), of i] that
    by (auto simp: exec_aop_def nth_list_update clear_bounds_def)
  obtain m1 b1 where 1: "exec_aop (Release 0) (ms, b) = Some (m1, b1)" "arena_inv m1 b1" "length m1 = 4"
    "\<forall>j < 4. arena_held (m1 ! j) \<longrightarrow> j \<noteq> 0 \<and> arena_held (ms ! j)" using step [OF r(2,3), of 0] by auto
  obtain m2 b2 where 2: "exec_aop (Release 1) (m1, b1) = Some (m2, b2)" "arena_inv m2 b2" "length m2 = 4"
    "\<forall>j < 4. arena_held (m2 ! j) \<longrightarrow> j \<noteq> 1 \<and> arena_held (m1 ! j)" using step [OF 1(2,3), of 1] by auto
  obtain m3 b3 where 3: "exec_aop (Release 2) (m2, b2) = Some (m3, b3)" "arena_inv m3 b3" "length m3 = 4"
    "\<forall>j < 4. arena_held (m3 ! j) \<longrightarrow> j \<noteq> 2 \<and> arena_held (m2 ! j)" using step [OF 2(2,3), of 2] by auto
  obtain m4 b4 where 4: "exec_aop (Release 3) (m3, b3) = Some (m4, b4)" "arena_inv m4 b4" "length m4 = 4"
    "\<forall>j < 4. arena_held (m4 ! j) \<longrightarrow> j \<noteq> 3 \<and> arena_held (m3 ! j)" using step [OF 3(2,3), of 3] by auto
  have none: "\<not> arena_held (m4 ! j)" if "j < 4" for j
  proof
    assume held: "arena_held (m4 ! j)"
    then have "j \<noteq> 0 \<and> j \<noteq> 1 \<and> j \<noteq> 2 \<and> j \<noteq> 3" using 1(4) 2(4) 3(4) 4(4) that by blast
    then show False using that by linarith
  qed
  have "\<not> arena_held x" if "x \<in> set m4" for x using none that 4(3) by (auto simp: in_set_conv_nth)
  then have "concat (map regions_of m4) = []" by (auto simp: regions_of_def)
  then have "live_regions b4 = {}" using arena_inv_set [OF 4(2)] by simp
  then have "live_blocks b4 = {}" by (simp add: live_regions_def)
  then have all: "map_option snd (exec_aops [Release 0, Release 1, Release 2, Release 3] (ms, b)) = Some b4
      \<and> live_blocks b4 = {}"
    using 1(1) 2(1) 3(1) 4(1) by simp
  have iso: "\<forall>i < 4. \<forall>j < 4. \<forall>(x, y) \<in> set (regions_of (ms ! i)). \<forall>(u, v) \<in> set (regions_of (ms ! j)).
      i \<noteq> j \<longrightarrow> {x ..< y} \<inter> {u ..< v} = {}"
  proof clarify
    fix i j x y u v :: nat
    assume a: "i < 4" "j < 4" "(x, y) \<in> set (regions_of (ms ! i))" "(u, v) \<in> set (regions_of (ms ! j))" "i \<noteq> j"
    then have "i < length ms" "j < length ms" using r(3) by simp_all
    then show "{x ..< y} \<inter> {u ..< v} = {}" using arena_inv_isolation [OF r(2) _ _ a(5,3,4)] by blast
  qed
  have "mset (concat (map regions_of ms)) = mset_set (live_regions b)" using r(2) by (simp add: arena_inv_def)
  then show ?thesis using r(1) iso all by blast
qed

section \<open>One acquisition\<close>

text \<open>An acquisition is all or nothing, and what it grants fits the MPU. Granted: text, data and
  heap-stack regions at least as large as asked, each a power of two in size, at least 1K, and
  aligned to its own size, none overlapping another or a region that was live before, with the 2K guard band
  inside the heap-stack block between the 4K heap and the 2K stack. Refused: the module is
  untouched and the live blocks are those from before.\<close>

theorem mdl_arena_acquire_spec:
  assumes "buddy_ok st"
  shows "\<exists>ok m' st'. mdl_arena_acquire text_bytes data_bytes m st = Some (ok, m', st') \<and> buddy_ok st'
    \<and> (if ok then
         (\<forall>(lo, hi) \<in> set (regions_of m'). \<exists>k. hi = lo + 2 ^ k \<and> 10 \<le> k \<and> 2 ^ k dvd lo \<and> lo \<noteq> 0)
         \<and> text_lo m' + text_bytes \<le> text_hi m' \<and> data_lo m' + data_bytes \<le> data_hi m'
         \<and> hs_hi m' = hs_lo m' + 8192 \<and> guard_lo m' = hs_lo m' + 4096 \<and> guard_hi m' + 2048 = hs_hi m'
         \<and> mset_set (live_regions st') = mset (regions_of m') + mset_set (live_regions st)
         \<and> (\<forall>p \<in> live_regions st'. \<forall>q \<in> live_regions st'. p \<noteq> q \<longrightarrow> {fst p ..< snd p} \<inter> {fst q ..< snd q} = {})
       else m' = m \<and> live_blocks st' = live_blocks st)"
  using assms
proof (cases rule: acquire_total [where text_bytes = text_bytes and data_bytes = data_bytes and m = m])
  case (granted t d h st')
  let ?m = "set_bounds t d h text_bytes data_bytes m"
  have hb: "mdl_buddy_block_size HEAPSTACK_BYTES = 8192"
    by (simp add: mdl_buddy_block_size_def order_for_def order_loop.simps)
  have b: "text_lo ?m = t" "text_hi ?m = t + mdl_buddy_block_size text_bytes"
    "data_lo ?m = d" "data_hi ?m = d + mdl_buddy_block_size data_bytes" "hs_lo ?m = h" "hs_hi ?m = h + 8192"
    "guard_lo ?m = h + 4096" "guard_hi ?m = h + 6144"
    using granted(4) hb by (auto simp: set_bounds_def)
  have regs: "set (regions_of ?m) = {(t, t + mdl_buddy_block_size text_bytes),
      (d, d + mdl_buddy_block_size data_bytes), (h, h + mdl_buddy_block_size HEAPSTACK_BYTES)}"
    using b hb by (auto simp: regions_of_def) (simp_all add: set_bounds_def)
  have pow: "\<exists>k. hi = lo + 2 ^ k \<and> 10 \<le> k \<and> 2 ^ k dvd lo \<and> lo \<noteq> 0" if r: "(lo, hi) \<in> set (regions_of ?m)" for lo hi
  proof -
    obtain sz where "(lo, sz) \<in> {(t, text_bytes), (d, data_bytes), (h, HEAPSTACK_BYTES)}"
      "hi = lo + mdl_buddy_block_size sz" using r unfolding regs by blast
    then show ?thesis using granted(4-7) by auto
  qed
  have dis: "{fst p ..< snd p} \<inter> {fst q ..< snd q} = {}"
    if "p \<in> live_regions st'" "q \<in> live_regions st'" "p \<noteq> q" for p q
    using live_regions_disjoint [OF granted(2), of "fst p" "snd p" "fst q" "snd q"] that by simp
  have szs: "t + text_bytes \<le> text_hi ?m" "d + data_bytes \<le> data_hi ?m" using granted(4) b by auto
  show ?thesis
    using granted(1,2,3) b(1,3,5-8) pow dis szs by (intro exI [of _ True] exI [of _ ?m] exI [of _ st']) auto
next
  case (refused st')
  then show ?thesis by auto
qed

lemma spare_mono:
  assumes "buddy_ok st" "mdl_buddy_alloc sz st = (a, st')" "spare s2 st'"
  shows "spare s2 st"
proof (cases "a = 0")
  case True
  then show ?thesis using bud.alloc_fail assms by blast
next
  case False
  then have sp: "sz \<noteq> 0" "spare sz st" using alloc_full [OF assms(1,2)] by (auto split: if_splits)
  then obtain j b where j: "(j, b) \<in> free_blocks st" "sz \<le> 2 ^ j" by (auto simp: spare_def)
  have jb: "10 \<le> j" "j \<le> 17" using j(1) by (auto simp: free_blocks_def)
  have "(2::nat) ^ j \<le> 2 ^ 17" using jb(2) by (intro power_increasing) auto
  then have "sz \<le> 2 ^ 17" using j(2) by (rule order_trans [rotated])
  then obtain want where w: "order_for sz = Some want" using order_for_None [of sz] by (cases "order_for sz") auto
  have wj: "want \<le> j" by (rule order_for_fit [OF w j(2) jb(1)])
  obtain k where k: "(k, a) \<in> free_blocks st"
    "free_blocks st' = free_blocks st - {(k, a)} \<union> {(i, a + 2 ^ i) |i. want \<le> i \<and> i < k}"
    using alloc_inv [of "fst st" "snd st", OF _ w sp(1) _ wj, of b] assms(1,2) j(1) by auto
  obtain i c where i: "(i, c) \<in> free_blocks st'" "s2 \<le> 2 ^ i" using assms(3) by (auto simp: spare_def)
  show ?thesis
  proof (cases "(i, c) \<in> free_blocks st")
    case True then show ?thesis using i(2) by (auto simp: spare_def)
  next
    case False
    then have "i < k" using i(1) k(2) by auto
    then have "(2::nat) ^ i \<le> 2 ^ k" by (intro power_increasing) auto
    then have "s2 \<le> 2 ^ k" using i(2) by (rule order_trans [rotated])
    then show ?thesis using k(1) by (auto simp: spare_def)
  qed
qed

lemma spare_block:
  assumes "buddy_ok st" "spare sz st" "mdl_buddy_stats st = Some (tot, largest)"
  shows "mdl_buddy_block_size sz \<noteq> 0" "mdl_buddy_block_size sz \<le> largest"
proof -
  obtain j b where j: "(j, b) \<in> free_blocks st" "sz \<le> 2 ^ j" using assms(2) by (auto simp: spare_def)
  have jb: "10 \<le> j" "j \<le> 17" using j(1) by (auto simp: free_blocks_def)
  have "(2::nat) ^ j \<in> (\<lambda>p. 2 ^ fst p) ` free_blocks st" using j(1) by force
  then have big: "2 ^ j \<le> largest"
    using stats_ok(1,3) [of "fst st" "snd st"] assms(1,3) by (auto intro!: Max_ge)
  have "(2::nat) ^ j \<le> 2 ^ 17" using jb(2) by (intro power_increasing) auto
  then have "sz \<le> 2 ^ 17" using j(2) by (rule order_trans [rotated])
  then obtain w where w: "order_for sz = Some w" using order_for_None [of sz] by (cases "order_for sz") auto
  have "w \<le> j" by (rule order_for_fit [OF w j(2) jb(1)])
  then have "(2::nat) ^ w \<le> 2 ^ j" by (intro power_increasing) auto
  from this big have "2 ^ w \<le> largest" by (rule order_trans)
  then show "mdl_buddy_block_size sz \<noteq> 0" "mdl_buddy_block_size sz \<le> largest"
    using w by (simp_all add: mdl_buddy_block_size_def)
qed

lemma acquire_granted_fits:
  assumes ok: "buddy_ok st" and g: "mdl_arena_acquire text_bytes data_bytes m st = Some (True, m', st')"
  shows "\<exists>need. mdl_arena_would_fit text_bytes data_bytes st = Some (True, need)"
proof -
  obtain t st1 where A: "mdl_buddy_alloc text_bytes st = (t, st1)" by (cases "mdl_buddy_alloc text_bytes st")
  obtain d st2 where B: "mdl_buddy_alloc data_bytes st1 = (d, st2)" by (cases "mdl_buddy_alloc data_bytes st1")
  obtain h st3 where C: "mdl_buddy_alloc HEAPSTACK_BYTES st2 = (h, st3)"
    by (cases "mdl_buddy_alloc HEAPSTACK_BYTES st2")
  have nz: "t \<noteq> 0" "d \<noteq> 0" "h \<noteq> 0"
    using g A B C by (auto simp: mdl_arena_acquire_def split: if_splits option.splits)
  note ok1 = bud.alloc_ok [OF ok A] and ok2 = bud.alloc_ok [OF bud.alloc_ok [OF ok A] B]
  have sp: "spare text_bytes st" "spare data_bytes st1" "spare HEAPSTACK_BYTES st2"
    using alloc_full [OF ok A] alloc_full [OF ok1 B] alloc_full [OF ok2 C] nz by (auto split: if_splits)
  have sp2: "spare data_bytes st" "spare HEAPSTACK_BYTES st"
    using spare_mono [OF ok A] sp(2) spare_mono [OF ok1 B sp(3)] by blast+
  obtain tot l where s: "mdl_buddy_stats st = Some (tot, l)" using stats_full [OF ok] by blast
  note x = spare_block [OF ok sp(1) s] and y = spare_block [OF ok sp2(1) s] and z = spare_block [OF ok sp2(2) s]
  show ?thesis unfolding mdl_arena_would_fit_def using x y z s by (auto simp: Let_def)
qed

text \<open>The early check never rejects what could have been placed. When \<open>mdl_arena_would_fit\<close> says no,
  the acquisition with the same sizes is refused.\<close>

theorem would_fit_conservative:
  assumes "buddy_ok st" "mdl_arena_would_fit text_bytes data_bytes st = Some (False, need)"
  shows "\<exists>st'. mdl_arena_acquire text_bytes data_bytes m st = Some (False, m, st') \<and> live_blocks st' = live_blocks st"
  using assms(1)
proof (cases rule: acquire_total [where text_bytes = text_bytes and data_bytes = data_bytes and m = m])
  case (refused st')
  then show ?thesis by blast
next
  case (granted t d h st')
  then show ?thesis using acquire_granted_fits [OF assms(1)] assms(2) by (metis Pair_inject option.inject)
qed

section \<open>Concrete instances\<close>

theorem arena_isolation_witness:
  "\<exists>ms b. exec_aops [Acquire 0 1000 500, Acquire 1 3000 100, Release 0] (g_mdl_slots, st0) = Some (ms, b)
    \<and> mset (concat (map regions_of ms)) = mset_set (live_regions b)"
  using arena_isolation [OF pool_ok_ARENA, of "[Acquire 0 1000 500, Acquire 1 3000 100, Release 0]" "\<lambda>_. 0"] by blast

theorem mdl_arena_acquire_spec_witness:
  "\<exists>ok m' st'. mdl_arena_acquire 1000 500 zero_module st0 = Some (ok, m', st') \<and> buddy_ok st'"
  using mdl_arena_acquire_spec [OF st0_facts(1), of 1000 500 zero_module] by blast

theorem would_fit_conservative_witness:
  "\<exists>st'. mdl_arena_acquire 200000 500 zero_module st0 = Some (False, zero_module, st') \<and> live_blocks st' = {}"
proof -
  have "mdl_buddy_block_size 200000 = 0"
    using order_for_None [of 200000] by (simp add: mdl_buddy_block_size_def)
  then have "\<exists>need. mdl_arena_would_fit 200000 500 st0 = Some (False, need)"
    by (simp add: mdl_arena_would_fit_def Let_def)
  then show ?thesis using would_fit_conservative [OF st0_facts(1)] st0_facts(2) by metis
qed

text \<open>The first acquisition from a fresh pool, as concrete addresses: other theories start from it.\<close>

lemma block_size_examples:
  "order_for 500 = Some 10" "order_for 8192 = Some 13" "mdl_buddy_block_size 1000 = 1024"
  "mdl_buddy_block_size 500 = 1024" "mdl_buddy_block_size 8192 = 8192"
  by (simp_all add: mdl_buddy_block_size_def order_for_def order_loop.simps)

lemma acquire_example:
  obtains st where "mdl_arena_acquire 1000 500 m (mdl_buddy_init ARENA mm) =
      Some (True, set_bounds ARENA (ARENA + 1024) (ARENA + 8192) 1000 500 m, st)"
proof -
  obtain s0 m0 where s0: "mdl_buddy_init ARENA mm = (s0, m0)" by (cases "mdl_buddy_init ARENA mm")
  have f0: "free_blocks (s0, m0) = {(17, ARENA)}" "buddy_ok (s0, m0)"
    using init_inv [OF pool_ok_ARENA, of mm] s0 by auto
  obtain s1 m1 where r1: "mdl_buddy_alloc 1000 (s0, m0) = (ARENA, s1, m1)" "buddy_ok (s1, m1)"
    "free_blocks (s1, m1) = {(i, ARENA + 2 ^ i) |i. 10 \<le> i \<and> i < 17}"
    using alloc_inv [OF f0(2) order_1000, of 17 ARENA] f0(1) by auto
  have j1: "(10, ARENA + 1024) \<in> free_blocks (s1, m1)" unfolding r1(3) by (intro CollectI exI [of _ 10]) simp
  obtain k2 a2 s2 m2 where r2: "mdl_buddy_alloc 500 (s1, m1) = (a2, s2, m2)" "buddy_ok (s2, m2)"
    "10 \<le> k2" "k2 \<le> 10" "(k2, a2) \<in> free_blocks (s1, m1)"
    "free_blocks (s2, m2) = free_blocks (s1, m1) - {(k2, a2)} \<union> {(i, a2 + 2 ^ i) |i. 10 \<le> i \<and> i < k2}"
    using alloc_inv [OF r1(2) block_size_examples(1) _ j1] by auto
  have a2: "k2 = 10" "a2 = ARENA + 1024" using r2(3-5) unfolding r1(3) by auto
  have j2: "(13, ARENA + 8192) \<in> free_blocks (s2, m2)"
    unfolding r2(6) r1(3) a2 by (intro UnI1 DiffI CollectI exI [of _ 13]) simp_all
  obtain k3 a3 s3 m3 where r3: "mdl_buddy_alloc 8192 (s2, m2) = (a3, s3, m3)"
    "13 \<le> k3" "k3 \<le> 13" "(k3, a3) \<in> free_blocks (s2, m2)"
    using alloc_inv [OF r2(2) block_size_examples(2) _ j2] by auto
  have a3: "a3 = ARENA + 8192" using r3(2-4) unfolding r2(6) r1(3) a2 by auto
  show thesis
    by (rule that [of "(s3, m3)"]) (simp add: mdl_arena_acquire_def s0 r1(1) r2(1) r3(1) a2 a3)
qed

text \<open>Slot 0 of the table after it, running as task 7.\<close>

definition held_module :: module where
  "held_module = (set_bounds ARENA (ARENA + 1024) (ARENA + 8192) 1000 500 zero_module)
     \<lparr>m_state := SLOT_RUNNING, task_handle := 7\<rparr>"

lemma held_module_simps [simp]:
  "m_state held_module = SLOT_RUNNING" "task_handle held_module = 7" "arena_held held_module"
  "text_lo held_module = 0x20020000" "text_hi held_module = 0x20020400"
  "data_lo held_module = 0x20020400" "data_hi held_module = 0x20020800"
  "hs_lo held_module = 0x20022000" "hs_hi held_module = 0x20024000"
  by (simp_all add: held_module_def set_bounds_def block_size_examples)

lemma held_arena_inv: "\<exists>st. arena_inv [held_module, zero_module, zero_module, zero_module] st"
proof -
  obtain st where a: "mdl_arena_acquire 1000 500 (g_mdl_slots ! 0) st0 =
      Some (True, set_bounds ARENA (ARENA + 1024) (ARENA + 8192) 1000 500 (g_mdl_slots ! 0), st)"
    by (rule acquire_example)
  have "arena_inv (g_mdl_slots[0 := set_bounds ARENA (ARENA + 1024) (ARENA + 8192) 1000 500 (g_mdl_slots ! 0)]) st"
    by (rule arena_inv_acquire(1) [OF arena_inv_init [OF pool_ok_ARENA] _ _ a]) (simp_all add: g_mdl_slots_def)
  moreover have g4: "g_mdl_slots = [zero_module, zero_module, zero_module, zero_module]"
    by (simp add: g_mdl_slots_def numeral_eq_Suc)
  moreover have "map regions_of (g_mdl_slots[0 := set_bounds ARENA (ARENA + 1024) (ARENA + 8192) 1000 500 (g_mdl_slots ! 0)])
      = map regions_of [held_module, zero_module, zero_module, zero_module]"
    by (simp add: g4 regions_of_def held_module_def set_bounds_def)
  ultimately have "arena_inv [held_module, zero_module, zero_module, zero_module] st"
    unfolding arena_inv_def by metis
  then show ?thesis ..
qed

end
