(* ===== verification/Host_Gpio.thy ===== *)
theory Host_Gpio
  imports Registry
begin

text \<open>
  The GPIO part of \<open>src/mdl/host/host_api.c\<close>: the pin whitelist, who owns each
  pin, the claim check at every call, and the hand-back of a module's pins. The
  hardware is a record of pin modes and levels, indexed by the physical pin
  (\<open>port << 4 | number\<close>).
\<close>

datatype pin_mode = PM_RESET | PM_OUTPUT | PM_INPUT

record gpio_hw =
  g_mode :: "u8 \<Rightarrow> pin_mode"
  g_out :: "u8 \<Rightarrow> bool"
  g_in :: "u8 \<Rightarrow> bool"

definition MDL_PIN :: "u8 \<Rightarrow> u8 \<Rightarrow> u8" where
  "MDL_PIN port num = push_bit 4 port OR num"

text \<open>
  A whitelist entry. The EXINT wiring of a pin that can raise an interrupt is the
  number \<open>n\<close> of its line \<open>EXINT_LINE_n\<close>, which is also that of its own vector
  \<open>EXINTn_IRQn\<close>; \<open>None\<close> stands for \<open>exti_irqn = -1\<close>.
\<close>

record wl_entry =
  is_output :: bool
  configure :: bool
  exti :: "nat option"
  pin_id :: u8

definition g_gpio_whitelist :: "wl_entry list" where
  "g_gpio_whitelist =
    [\<lparr>is_output = True, configure = True, exti = None, pin_id = MDL_PIN 3 10\<rparr>,
     \<lparr>is_output = True, configure = True, exti = None, pin_id = MDL_PIN 4 15\<rparr>,
     \<lparr>is_output = False, configure = True, exti = Some 3, pin_id = MDL_PIN 0 3\<rparr>,
     \<lparr>is_output = False, configure = True, exti = Some 2, pin_id = MDL_PIN 4 2\<rparr>,
     \<lparr>is_output = False, configure = False, exti = None, pin_id = MDL_PIN 0 9\<rparr>,
     \<lparr>is_output = True, configure = True, exti = None, pin_id = MDL_PIN 4 3\<rparr>]"

definition g_gpio_names :: "string list" where
  "g_gpio_names =
    [''LEDB (PD10, LED3 blue,  out, 0=lit)'',
     ''LEDG (PE15, LED4 green, out, 0=lit)'',
     ''BTN0 (PA3,  SW3, in,  1=idle)'',
     ''BTN1 (PE2,  SW4, in,  1=idle)'',
     ''U1TX (PA9,  DAP debug UART -- never a module's to take)'',
     ''FLASH_NCS (PE3, W25Q32 chip select, out, 1=idle)'']"

abbreviation GPIO_WHITELIST_COUNT :: nat where "GPIO_WHITELIST_COUNT \<equiv> 6"

datatype gpio_ownership = GPIO_FREE | GPIO_HOST_YIELDS | GPIO_HOST_HARD

text \<open>The sixth entry has no initialiser: it is all zero.\<close>

definition g_gpio_owner :: "(gpio_ownership \<times> string option) list" where
  "g_gpio_owner =
    [(GPIO_HOST_YIELDS, Some ''host alive-blink (yields if you declare it)''),
     (GPIO_HOST_YIELDS, Some ''host USB-link LED (yields if you declare it)''),
     (GPIO_FREE, None), (GPIO_FREE, None),
     (GPIO_HOST_HARD, Some ''the DAP debug UART (PA9/PA10)''),
     (GPIO_FREE, None)]"

text \<open>\<open>gpio_claimed & (1u << pin)\<close>.\<close>

definition claim_bit :: "u32 \<Rightarrow> nat \<Rightarrow> bool" where
  "claim_bit claimed pin \<longleftrightarrow> claimed AND push_bit pin 1 \<noteq> 0"

definition host_gpio_yielded_to_module :: "int \<Rightarrow> slots \<Rightarrow> bool" where
  "host_gpio_yielded_to_module pin ms =
     (if pin < 0 \<or> int GPIO_WHITELIST_COUNT \<le> pin then False
      else if fst (g_gpio_owner ! nat pin) \<noteq> GPIO_HOST_YIELDS then False
      else (\<exists>m \<in> set ms. m_state m \<noteq> SLOT_EMPTY \<and> claim_bit (gpio_claimed m) (nat pin)))"

definition mdl_res_owner :: "u8 \<Rightarrow> u8 \<Rightarrow> string option" where
  "mdl_res_owner kind rid =
     (if kind \<noteq> KIND_GPIO then Some ''an unknown resource class''
      else if GPIO_WHITELIST_COUNT \<le> unat rid then Some ''nothing -- that pin is not on the whitelist at all''
      else if fst (g_gpio_owner ! unat rid) = GPIO_HOST_HARD then snd (g_gpio_owner ! unat rid) else None)"

definition gpio_lookup :: "int \<Rightarrow> wl_entry option" where
  "gpio_lookup pin = (if pin < 0 \<or> int GPIO_WHITELIST_COUNT \<le> pin then None else Some (g_gpio_whitelist ! nat pin))"

definition host_gpio_exti_info :: "int \<Rightarrow> nat option" where
  "host_gpio_exti_info pin = (case gpio_lookup pin of None \<Rightarrow> None
     | Some e \<Rightarrow> if \<not> configure e then None else exti e)"

definition host_gpio_pin_id :: "int \<Rightarrow> u8 option" where
  "host_gpio_pin_id pin = map_option pin_id (gpio_lookup pin)"

definition host_gpio_host_owner :: "int \<Rightarrow> string option" where
  "host_gpio_host_owner pin =
     (if pin < 0 \<or> int GPIO_WHITELIST_COUNT \<le> pin then None else snd (g_gpio_owner ! nat pin))"

definition host_gpio_name :: "int \<Rightarrow> string option" where
  "host_gpio_name pin =
     (if pin < 0 \<or> int GPIO_WHITELIST_COUNT \<le> pin then None else Some (g_gpio_names ! nat pin))"

text \<open>\<open>module_claimed\<close>: did the \<^emph>\<open>calling\<close> module claim it. \<open>me\<close> is the current task.\<close>

definition module_claimed :: "nat \<Rightarrow> slots \<Rightarrow> int \<Rightarrow> bool" where
  "module_claimed me ms pin =
     (if pin < 0 \<or> 32 \<le> pin then False
      else case mdl_caller_slot me ms of None \<Rightarrow> False
           | Some i \<Rightarrow> claim_bit (gpio_claimed (ms ! i)) (nat pin))"

text \<open>The default state of a pin: outputs high (an active-low LED off), inputs pulled up.\<close>

definition gpio_set_default :: "wl_entry \<Rightarrow> gpio_hw \<Rightarrow> gpio_hw" where
  "gpio_set_default e hw =
     (if \<not> configure e then hw
      else if is_output e then hw\<lparr>g_mode := (g_mode hw)(pin_id e := PM_OUTPUT), g_out := (g_out hw)(pin_id e := True)\<rparr>
      else hw\<lparr>g_mode := (g_mode hw)(pin_id e := PM_INPUT)\<rparr>)"

definition gpio_whitelist_init :: "gpio_hw \<Rightarrow> gpio_hw" where
  "gpio_whitelist_init hw = fold gpio_set_default g_gpio_whitelist hw"

text \<open>The release loop, from index \<open>i\<close> on; the result includes the pins restored.\<close>

fun release_from :: "u32 \<Rightarrow> nat \<Rightarrow> wl_entry list \<Rightarrow> u32 \<times> gpio_hw \<Rightarrow> u32 \<times> gpio_hw" where
  "release_from claimed i [] acc = acc"
| "release_from claimed i (e # es) acc = release_from claimed (Suc i) es
     (if claim_bit claimed i then (fst acc OR push_bit i 1, gpio_set_default e (snd acc)) else acc)"

definition host_gpio_release_claims :: "u32 \<Rightarrow> gpio_hw \<Rightarrow> u32 \<times> gpio_hw" where
  "host_gpio_release_claims claimed hw = release_from claimed 0 g_gpio_whitelist (0, hw)"

definition host_gpio_set_impl :: "int \<Rightarrow> int \<Rightarrow> gpio_hw \<Rightarrow> int \<times> gpio_hw" where
  "host_gpio_set_impl pin level hw = (case gpio_lookup pin of
     None \<Rightarrow> (-1, hw)
   | Some e \<Rightarrow> if \<not> configure e then (-1, hw) else (0, hw\<lparr>g_out := (g_out hw)(pin_id e := (level \<noteq> 0))\<rparr>))"

definition host_gpio_get_impl :: "int \<Rightarrow> gpio_hw \<Rightarrow> int" where
  "host_gpio_get_impl pin hw = (case gpio_lookup pin of
     None \<Rightarrow> -1
   | Some e \<Rightarrow> if \<not> configure e then -1 else if g_in hw (pin_id e) then 1 else 0)"

text \<open>The two gated entries of the vtable, and the host's own, ungated ones.\<close>

definition host_gpio_set :: "nat \<Rightarrow> slots \<Rightarrow> int \<Rightarrow> int \<Rightarrow> gpio_hw \<Rightarrow> int \<times> gpio_hw" where
  "host_gpio_set me ms pin level hw = (if module_claimed me ms pin then host_gpio_set_impl pin level hw else (-1, hw))"

definition host_gpio_get :: "nat \<Rightarrow> slots \<Rightarrow> int \<Rightarrow> gpio_hw \<Rightarrow> int" where
  "host_gpio_get me ms pin hw = (if module_claimed me ms pin then host_gpio_get_impl pin hw else -1)"

definition host_gpio_direct_set :: "int \<Rightarrow> int \<Rightarrow> gpio_hw \<Rightarrow> int \<times> gpio_hw" where
  "host_gpio_direct_set pin level hw = host_gpio_set_impl pin level hw"

definition host_gpio_direct_get :: "int \<Rightarrow> gpio_hw \<Rightarrow> int" where
  "host_gpio_direct_get pin hw = host_gpio_get_impl pin hw"

section \<open>Facts\<close>

lemma claim_bit_iff: "claim_bit w i \<longleftrightarrow> bit w i"
  by (simp add: claim_bit_def push_bit_of_1 and_exp_eq_0_iff_not_bit)

lemma whitelist_length [simp]: "length g_gpio_whitelist = GPIO_WHITELIST_COUNT"
  by (simp add: g_gpio_whitelist_def)

lemma whitelist_pins: "map pin_id g_gpio_whitelist = [0x3A, 0x4F, 0x03, 0x42, 0x09, 0x43]"
  by (simp add: g_gpio_whitelist_def MDL_PIN_def)

lemma whitelist_pins_distinct: "distinct (map pin_id g_gpio_whitelist)"
  unfolding whitelist_pins by simp

lemma release_from_bits:
  assumes "i + length es \<le> 32"
  shows "bit (fst (release_from claimed i es acc)) n \<longleftrightarrow>
      bit (fst acc) n \<or> (i \<le> n \<and> n < i + length es \<and> bit claimed n)"
  using assms
proof (induction claimed i es acc rule: release_from.induct)
  case (2 claimed i e es acc)
  let ?acc = "if claim_bit claimed i then (fst acc OR push_bit i 1, gpio_set_default e (snd acc)) else acc"
  have "i < 32" using "2.prems" by simp
  then have b: "bit (fst ?acc) n \<longleftrightarrow> bit (fst acc) n \<or> (n = i \<and> bit claimed n)"
    by (auto simp: claim_bit_iff bit_or_iff bit_exp_iff push_bit_of_1 split: if_splits)
  have r: "i \<le> n \<and> n < i + length (e # es) \<longleftrightarrow> n = i \<or> (Suc i \<le> n \<and> n < Suc i + length es)" by auto
  have "bit (fst (release_from claimed i (e # es) acc)) n \<longleftrightarrow>
      bit (fst ?acc) n \<or> (Suc i \<le> n \<and> n < Suc i + length es \<and> bit claimed n)"
    using "2.IH" "2.prems" by simp
  then show ?case using b r by blast
qed auto

text \<open>What the loop does to one pin: the last claimed entry for it decides, and there is at most one.\<close>

lemma release_from_pin:
  assumes "distinct (map pin_id es)"
  shows "(\<forall>j < length es. claim_bit claimed (i + j) \<and> configure (es ! j) \<longrightarrow>
      g_mode (snd (release_from claimed i es acc)) (pin_id (es ! j)) = (if is_output (es ! j) then PM_OUTPUT else PM_INPUT)
      \<and> (is_output (es ! j) \<longrightarrow> g_out (snd (release_from claimed i es acc)) (pin_id (es ! j))))
    \<and> (\<forall>p. (\<forall>j < length es. claim_bit claimed (i + j) \<and> configure (es ! j) \<longrightarrow> pin_id (es ! j) \<noteq> p) \<longrightarrow>
      g_mode (snd (release_from claimed i es acc)) p = g_mode (snd acc) p
      \<and> g_out (snd (release_from claimed i es acc)) p = g_out (snd acc) p)"
  using assms
proof (induction claimed i es acc rule: release_from.induct)
  case (2 claimed i e es acc)
  let ?acc = "if claim_bit claimed i then (fst acc OR push_bit i 1, gpio_set_default e (snd acc)) else acc"
  let ?r = "snd (release_from claimed (Suc i) es ?acc)"
  have d: "distinct (map pin_id es)" and e: "\<And>j. j < length es \<Longrightarrow> pin_id (es ! j) \<noteq> pin_id e"
    using "2.prems" by (auto simp: image_iff) (metis nth_mem)
  note IH = "2.IH" [OF d]
  have head: "g_mode ?r (pin_id e) = g_mode (snd ?acc) (pin_id e) \<and> g_out ?r (pin_id e) = g_out (snd ?acc) (pin_id e)"
    using IH e by blast
  show ?case
  proof (intro conjI allI impI)
    fix j assume j: "j < length (e # es)" "claim_bit claimed (i + j) \<and> configure ((e # es) ! j)"
    show "g_mode (snd (release_from claimed i (e # es) acc)) (pin_id ((e # es) ! j)) =
        (if is_output ((e # es) ! j) then PM_OUTPUT else PM_INPUT)"
      using j head IH by (cases j) (auto simp: gpio_set_default_def)
    assume "is_output ((e # es) ! j)"
    then show "g_out (snd (release_from claimed i (e # es) acc)) (pin_id ((e # es) ! j))"
      using j head IH by (cases j) (auto simp: gpio_set_default_def)
  next
    fix p assume p: "\<forall>j < length (e # es). claim_bit claimed (i + j) \<and> configure ((e # es) ! j) \<longrightarrow> pin_id ((e # es) ! j) \<noteq> p"
    then have tl: "\<forall>j < length es. claim_bit claimed (Suc i + j) \<and> configure (es ! j) \<longrightarrow> pin_id (es ! j) \<noteq> p"
      by (metis Suc_less_eq add_Suc_shift length_Cons nth_Cons_Suc)
    have hd: "claim_bit claimed i \<and> configure e \<longrightarrow> pin_id e \<noteq> p" using p by (metis add_0_right length_greater_0_conv list.distinct(1) nth_Cons_0)
    show "g_mode (snd (release_from claimed i (e # es) acc)) p = g_mode (snd acc) p"
      "g_out (snd (release_from claimed i (e # es) acc)) p = g_out (snd acc) p"
      using IH tl hd by (auto simp: gpio_set_default_def)
  qed
qed auto

section \<open>Properties\<close>

lemma gpio_lookup_Some: "gpio_lookup pin = Some e \<longleftrightarrow> 0 \<le> pin \<and> pin < 6 \<and> e = g_gpio_whitelist ! nat pin"
  by (auto simp: gpio_lookup_def)

text \<open>The manifest is a rule, not documentation. Whatever index and level a module task passes to
  \<open>gpio_set\<close>, the hardware changes only if its own slot claimed that whitelisted, configurable
  pin, and then only the level of that pin; every other call, and every call from a task that is no
  module's, is refused with -1 and changes nothing.\<close>

theorem gpio_set_confined:
  shows "case host_gpio_set me ms pin level hw of (r, hw') \<Rightarrow>
    (r = 0 \<and> (\<exists>i < length ms. m_state (ms ! i) \<noteq> SLOT_EMPTY \<and> me \<noteq> 0 \<and> task_handle (ms ! i) = me
         \<and> 0 \<le> pin \<and> pin < 6 \<and> bit (gpio_claimed (ms ! i)) (nat pin)
         \<and> configure (g_gpio_whitelist ! nat pin)
         \<and> hw' = hw\<lparr>g_out := (g_out hw)(pin_id (g_gpio_whitelist ! nat pin) := (level \<noteq> 0))\<rparr>))
    \<or> (r = -1 \<and> hw' = hw)"
proof (cases "module_claimed me ms pin")
  case False
  then show ?thesis by (simp add: host_gpio_set_def)
next
  case True
  then obtain i where i: "mdl_caller_slot me ms = Some i" "claim_bit (gpio_claimed (ms ! i)) (nat pin)"
    by (auto simp: module_claimed_def split: if_splits option.splits)
  have own: "i < length ms \<and> m_state (ms ! i) \<noteq> SLOT_EMPTY \<and> me \<noteq> 0 \<and> task_handle (ms ! i) = me"
    using i(1) find_idx_Some unfolding mdl_caller_slot_def by fastforce
  show ?thesis
  proof (cases "gpio_lookup pin")
    case None
    then show ?thesis by (simp add: host_gpio_set_def host_gpio_set_impl_def)
  next
    case (Some e)
    then show ?thesis using True own i(2) gpio_lookup_Some [of pin e]
      by (auto simp: host_gpio_set_def host_gpio_set_impl_def claim_bit_iff)
  qed
qed

text \<open>Nothing a module left on a pin outlives it. Releasing a claim bitmap puts every claimed
  configurable pin in its default mode, outputs at the level that leaves the LEDs off, touches no other pin, and
  reports exactly the claimed whitelist bits.\<close>

theorem gpio_release_restores:
  shows "let (restored, hw') = host_gpio_release_claims claimed hw in
    (\<forall>n. bit restored n = (n < 6 \<and> bit claimed n))
    \<and> (\<forall>j < 6. bit claimed j \<and> configure (g_gpio_whitelist ! j) \<longrightarrow>
        (let p = pin_id (g_gpio_whitelist ! j) in
          g_mode hw' p = (if is_output (g_gpio_whitelist ! j) then PM_OUTPUT else PM_INPUT)
          \<and> (is_output (g_gpio_whitelist ! j) \<longrightarrow> g_out hw' p)))
    \<and> (\<forall>p. (\<forall>j < 6. bit claimed j \<longrightarrow> pin_id (g_gpio_whitelist ! j) \<noteq> p) \<longrightarrow>
        g_mode hw' p = g_mode hw p \<and> g_out hw' p = g_out hw p)"
proof -
  note R = release_from_pin [OF whitelist_pins_distinct, of claimed 0 "(0, hw)", unfolded whitelist_length]
  have B: "bit (fst (host_gpio_release_claims claimed hw)) n \<longleftrightarrow> n < 6 \<and> bit claimed n" for n
    using release_from_bits [of 0 g_gpio_whitelist claimed "(0, hw)" n] by (simp add: host_gpio_release_claims_def)
  have "\<forall>p. (\<forall>j < 6. bit claimed j \<longrightarrow> pin_id (g_gpio_whitelist ! j) \<noteq> p) \<longrightarrow>
        g_mode (snd (host_gpio_release_claims claimed hw)) p = g_mode hw p
        \<and> g_out (snd (host_gpio_release_claims claimed hw)) p = g_out hw p"
    using R unfolding host_gpio_release_claims_def by (simp add: claim_bit_iff)
  moreover have "\<forall>j < 6. bit claimed j \<and> configure (g_gpio_whitelist ! j) \<longrightarrow>
        g_mode (snd (host_gpio_release_claims claimed hw)) (pin_id (g_gpio_whitelist ! j)) =
          (if is_output (g_gpio_whitelist ! j) then PM_OUTPUT else PM_INPUT)
        \<and> (is_output (g_gpio_whitelist ! j) \<longrightarrow>
             g_out (snd (host_gpio_release_claims claimed hw)) (pin_id (g_gpio_whitelist ! j)))"
    using R unfolding host_gpio_release_claims_def by (simp add: claim_bit_iff)
  ultimately show ?thesis using B by (auto simp: Let_def split: prod.splits)
qed

theorem gpio_release_restores_witness:
  "let (restored, hw') = host_gpio_release_claims 3 \<lparr>g_mode = \<lambda>_. PM_RESET, g_out = \<lambda>_. False, g_in = \<lambda>_. False\<rparr>
   in bit restored 0 \<and> g_mode hw' 0x3A = PM_OUTPUT \<and> g_out hw' 0x3A \<and> g_mode hw' 0x42 = PM_RESET"
proof -
  let ?hw = "\<lparr>g_mode = \<lambda>_. PM_RESET, g_out = \<lambda>_. False, g_in = \<lambda>_. False\<rparr> :: gpio_hw"
  obtain r hw' where r: "host_gpio_release_claims 3 ?hw = (r, hw')" by fastforce
  have three: "(3 :: u32) = mask 2" by (simp add: mask_eq_exp_minus_1)
  have b3: "bit (3 :: u32) j \<longleftrightarrow> j = 0 \<or> j = 1" for j
    unfolding three bit_mask_iff by (simp add: less_2_cases_iff) fastforce
  have "pin_id (g_gpio_whitelist ! 0) \<noteq> 0x42" "pin_id (g_gpio_whitelist ! 1) \<noteq> 0x42"
    by (simp_all add: g_gpio_whitelist_def MDL_PIN_def)
  then have "\<forall>j < 6. bit (3 :: u32) j \<longrightarrow> pin_id (g_gpio_whitelist ! j) \<noteq> 0x42"
    unfolding b3 by auto
  moreover have "configure (g_gpio_whitelist ! 0)" "is_output (g_gpio_whitelist ! 0)" "pin_id (g_gpio_whitelist ! 0) = 0x3A"
    by (simp_all add: g_gpio_whitelist_def MDL_PIN_def)
  ultimately show ?thesis using gpio_release_restores [of 3 ?hw] b3 unfolding r by (simp add: Let_def) (metis zero_less_numeral)
qed

end
