(* ===== verification/Host_Resources.thy ===== *)
theory Host_Resources
  imports Host_Gpio
begin

text \<open>
  \<open>src/mdl/host/host_resources.c\<close> with the board's pin facts of
  \<open>src/mdl/host/board_pins.def\<close>: claims are expanded to the physical pins they
  occupy and compared there. \<open>mdl_res_check\<close> is the load-time decision; the
  global invariant \<open>pins_exclusive\<close> says what it protects: no two loaded modules,
  and no two claims of one, share a wire, and none has a wire the host cannot
  give up.
\<close>

datatype pin_hold = PIN_FREE | PIN_HOST_YIELDS | PIN_HOST_HARD

definition g_pin_owner :: "(u8 \<times> pin_hold \<times> string) list" where
  "g_pin_owner =
    [(MDL_PIN 0 9, PIN_HOST_HARD, ''the DAP debug UART, PA9 TX''),
     (MDL_PIN 0 10, PIN_HOST_HARD, ''the DAP debug UART, PA10 RX''),
     (MDL_PIN 0 11, PIN_HOST_HARD, ''USB OTGFS1 D-, PA11''),
     (MDL_PIN 0 12, PIN_HOST_HARD, ''USB OTGFS1 D+, PA12''),
     (MDL_PIN 3 10, PIN_HOST_YIELDS, ''the host alive-blink LED''),
     (MDL_PIN 4 15, PIN_HOST_YIELDS, ''the host USB-link LED'')]"

record periph_pins =
  pp_kind :: u8
  pp_id :: u8
  pp_name :: string
  pp_pins :: "u8 list"

text \<open>\<open>npins\<close> is the length of \<open>pp_pins\<close>: the slots marked \<open>NONE\<close> come last.\<close>

definition g_periph :: "periph_pins list" where
  "g_periph =
    [\<lparr>pp_kind = KIND_I2C, pp_id = 1, pp_name = ''I2C1 (PB8 SCL, PB9 SDA)'',
       pp_pins = [MDL_PIN 1 8, MDL_PIN 1 9]\<rparr>,
     \<lparr>pp_kind = KIND_UART, pp_id = 1, pp_name = ''USART1 (PA9 TX, PA10 RX)'',
       pp_pins = [MDL_PIN 0 9, MDL_PIN 0 10]\<rparr>,
     \<lparr>pp_kind = KIND_UART, pp_id = 2, pp_name = ''USART2 (PA2 TX, PA3 RX -- PA3 has no header)'',
       pp_pins = [MDL_PIN 0 2, MDL_PIN 0 3]\<rparr>,
     \<lparr>pp_kind = KIND_UART, pp_id = 4, pp_name = ''USART2 on PD5 TX / PD6 RX (board routing)'',
       pp_pins = [MDL_PIN 3 5, MDL_PIN 3 6]\<rparr>,
     \<lparr>pp_kind = KIND_UART, pp_id = 3, pp_name = ''USART3 (PB10 TX, PB11 RX)'',
       pp_pins = [MDL_PIN 1 10, MDL_PIN 1 11]\<rparr>,
     \<lparr>pp_kind = KIND_TIMER, pp_id = 3, pp_name = ''TMR3 (PA6 CH1, PA7 CH2, PB0 CH3, PB1 CH4)'',
       pp_pins = [MDL_PIN 0 6, MDL_PIN 0 7, MDL_PIN 1 0, MDL_PIN 1 1]\<rparr>,
     \<lparr>pp_kind = KIND_SPI, pp_id = 3, pp_name = ''SPI3 (PB3 SCK, PB4 MISO, PB5 MOSI)'',
       pp_pins = [MDL_PIN 1 3, MDL_PIN 1 4, MDL_PIN 1 5]\<rparr>,
     \<lparr>pp_kind = KIND_ADC, pp_id = 0, pp_name = ''ADC1 CH0 (PA0)'',
       pp_pins = [MDL_PIN 0 0]\<rparr>,
     \<lparr>pp_kind = KIND_ADC, pp_id = 1, pp_name = ''ADC1 CH1 (PA1)'',
       pp_pins = [MDL_PIN 0 1]\<rparr>,
     \<lparr>pp_kind = KIND_ADC, pp_id = 4, pp_name = ''ADC1 CH4 (PA4)'',
       pp_pins = [MDL_PIN 0 4]\<rparr>,
     \<lparr>pp_kind = KIND_ADC, pp_id = 5, pp_name = ''ADC1 CH5 (PA5)'',
       pp_pins = [MDL_PIN 0 5]\<rparr>,
     \<lparr>pp_kind = KIND_ADC, pp_id = 10, pp_name = ''ADC1 CH10 (PC0)'',
       pp_pins = [MDL_PIN 2 0]\<rparr>,
     \<lparr>pp_kind = KIND_ADC, pp_id = 11, pp_name = ''ADC1 CH11 (PC1)'',
       pp_pins = [MDL_PIN 2 1]\<rparr>,
     \<lparr>pp_kind = KIND_ADC, pp_id = 12, pp_name = ''ADC1 CH12 (PC2)'',
       pp_pins = [MDL_PIN 2 2]\<rparr>,
     \<lparr>pp_kind = KIND_ADC, pp_id = 13, pp_name = ''ADC1 CH13 (PC3)'',
       pp_pins = [MDL_PIN 2 3]\<rparr>,
     \<lparr>pp_kind = KIND_ADC, pp_id = 14, pp_name = ''ADC1 CH14 (PC4)'',
       pp_pins = [MDL_PIN 2 4]\<rparr>,
     \<lparr>pp_kind = KIND_ADC, pp_id = 15, pp_name = ''ADC1 CH15 (PC5)'',
       pp_pins = [MDL_PIN 2 5]\<rparr>]"

definition g_header :: "(u8 \<times> int) list" where
  "g_header =
    [(MDL_PIN 1 3, 5), (MDL_PIN 1 4, 5), (MDL_PIN 1 5, 5), (MDL_PIN 1 8, 5),
     (MDL_PIN 1 9, 5), (MDL_PIN 1 10, 5), (MDL_PIN 2 0, 5), (MDL_PIN 2 2, 5),
     (MDL_PIN 2 3, 5), (MDL_PIN 2 13, 5), (MDL_PIN 3 3, 5), (MDL_PIN 3 4, 5),
     (MDL_PIN 3 5, 5), (MDL_PIN 3 6, 5), (MDL_PIN 3 7, 5), (MDL_PIN 3 11, 5),
     (MDL_PIN 3 12, 5), (MDL_PIN 3 13, 5), (MDL_PIN 3 14, 5), (MDL_PIN 3 15, 5),
     (MDL_PIN 4 7, 5), (MDL_PIN 4 8, 5), (MDL_PIN 4 9, 5), (MDL_PIN 4 10, 5),
     (MDL_PIN 4 11, 5), (MDL_PIN 4 12, 5), (MDL_PIN 4 13, 5), (MDL_PIN 0 8, 5),
     (MDL_PIN 0 1, 6), (MDL_PIN 0 2, 6), (MDL_PIN 0 4, 6), (MDL_PIN 0 5, 6),
     (MDL_PIN 0 6, 6), (MDL_PIN 0 7, 6), (MDL_PIN 1 0, 6), (MDL_PIN 1 6, 6),
     (MDL_PIN 1 7, 6), (MDL_PIN 1 11, 6), (MDL_PIN 1 12, 6), (MDL_PIN 1 13, 6),
     (MDL_PIN 2 1, 6), (MDL_PIN 2 4, 6), (MDL_PIN 2 5, 6), (MDL_PIN 2 6, 6),
     (MDL_PIN 2 7, 6), (MDL_PIN 3 0, 6), (MDL_PIN 3 1, 6), (MDL_PIN 4 0, 6),
     (MDL_PIN 4 1, 6), (MDL_PIN 4 4, 6), (MDL_PIN 4 5, 6), (MDL_PIN 4 6, 6)]"

text \<open>The pin's connector, 0 when it is on no header.\<close>

definition mdl_pin_connector :: "u8 \<Rightarrow> int" where
  "mdl_pin_connector pin = (case find (\<lambda>h. fst h = pin) g_header of None \<Rightarrow> 0 | Some h \<Rightarrow> snd h)"

definition periph_lookup :: "u8 \<Rightarrow> u8 \<Rightarrow> periph_pins option" where
  "periph_lookup kind rid = find (\<lambda>p. pp_kind p = kind \<and> pp_id p = rid) g_periph"

text \<open>The first pin of the peripheral that is on no header, or 0.\<close>

definition mdl_periph_unreachable_pin :: "u8 \<Rightarrow> u8 \<Rightarrow> u8" where
  "mdl_periph_unreachable_pin kind rid = (case periph_lookup kind rid of None \<Rightarrow> 0
     | Some p \<Rightarrow> (case find (\<lambda>pin. mdl_pin_connector pin = 0) (pp_pins p) of None \<Rightarrow> 0 | Some pin \<Rightarrow> pin))"

definition pin_owner :: "u8 \<Rightarrow> (u8 \<times> pin_hold \<times> string) option" where
  "pin_owner pin = find (\<lambda>h. fst h = pin) g_pin_owner"

text \<open>\<open>res_pins\<close>: the pins a claim occupies and its name; no pins for a claim this board cannot place.\<close>

definition res_pins :: "res \<Rightarrow> u8 list \<times> string" where
  "res_pins r =
     (if r_kind r = KIND_GPIO then
        (case host_gpio_pin_id (int (unat (r_id r))) of None \<Rightarrow> ([], ''(unnamed)'')
         | Some pin \<Rightarrow> ([pin], the (host_gpio_name (int (unat (r_id r))))))
      else (case periph_lookup (r_kind r) (r_id r) of None \<Rightarrow> ([], ''(unnamed)'')
            | Some p \<Rightarrow> (pp_pins p, pp_name p)))"

section \<open>The message\<close>

text \<open>\<open>w\<close> is the text written so far, \<open>cap\<close> the size of the buffer.\<close>

fun put_str :: "nat \<Rightarrow> string \<Rightarrow> string \<Rightarrow> string" where
  "put_str cap [] w = w"
| "put_str cap (c # t) w = (if length w + 1 < cap then put_str cap t (w @ [c]) else w)"

definition put_pin :: "nat \<Rightarrow> u8 \<Rightarrow> string \<Rightarrow> string" where
  "put_pin cap pin w =
     (if length w + 5 < cap then
        let n = unat (pin AND 0xF); p = unat (drop_bit 4 pin)
        in w @ [CHR ''P'', char_of (65 + p)] @ (if 10 \<le> n then ''1'' @ [char_of (48 + (n - 10))] else [char_of (48 + n)])
      else w)"

definition kind_name :: "u8 \<Rightarrow> string" where
  "kind_name kind =
     (if kind = KIND_GPIO then ''gpio'' else if kind = KIND_I2C then ''i2c''
      else if kind = KIND_UART then ''uart'' else if kind = KIND_TIMER then ''timer''
      else if kind = KIND_ADC then ''adc'' else if kind = KIND_SPI then ''spi'' else ''unknown'')"

section \<open>The decision\<close>

definition chars_of :: "u8 list \<Rightarrow> string" where
  "chars_of bs = map (\<lambda>b. char_of (unat b)) (cstr bs)"

text \<open>The claims of a slot that count: the first \<open>res_count\<close>.\<close>

definition claims :: "module \<Rightarrow> res list" where
  "claims m = take (res_count m) (m_res m)"

text \<open>\<open>pin_held_by_module\<close>: who holds the pin, and for which claim; slot \<open>excl\<close> is not looked at.\<close>

definition pin_held_by_module :: "u8 \<Rightarrow> nat option \<Rightarrow> slots \<Rightarrow> (string \<times> string) option" where
  "pin_held_by_module pin excl ms =
     (case find (\<lambda>(i, m). m_state m \<noteq> SLOT_EMPTY \<and> Some i \<noteq> excl
                  \<and> (\<exists>r \<in> set (claims m). pin \<in> set (fst (res_pins r)))) (enumerate 0 ms) of
        None \<Rightarrow> None
      | Some (i, m) \<Rightarrow>
         Some (if m_name m ! 0 \<noteq> 0 then chars_of (m_name m) else ''another module'',
               case find (\<lambda>r. pin \<in> set (fst (res_pins r))) (claims m) of None \<Rightarrow> ''(unnamed)'' | Some r \<Rightarrow> snd (res_pins r)))"

text \<open>The pins of one claim; \<open>seen\<close> holds the pins claimed so far, at most \<open>MDL_MAX_RES * 4\<close>.\<close>

fun check_pins :: "nat \<Rightarrow> nat option \<Rightarrow> slots \<Rightarrow> string \<Rightarrow> u8 list \<Rightarrow> (u8 \<times> string) list \<Rightarrow> string + (u8 \<times> string) list" where
  "check_pins cap excl ms name [] seen = Inr seen"
| "check_pins cap excl ms name (pin # pins) seen =
     (case pin_owner pin of
        Some (_, PIN_HOST_HARD, who) \<Rightarrow>
          Inl (put_str cap who (put_str cap '', held by '' (put_pin cap pin (put_str cap '' needs '' (put_str cap name [])))))
      | _ \<Rightarrow>
       (case pin_held_by_module pin excl ms of
          Some (other, what) \<Rightarrow>
            Inl (put_str cap what (put_str cap '' for '' (put_str cap other (put_str cap '', already held by ''
              (put_pin cap pin (put_str cap '' needs '' (put_str cap name [])))))))
        | None \<Rightarrow>
          (case find (\<lambda>s. fst s = pin) seen of
             Some (_, by) \<Rightarrow>
               Inl (put_pin cap pin (put_str cap '' are both '' (put_str cap by (put_str cap '' and '' (put_str cap name [])))))
           | None \<Rightarrow>
               check_pins cap excl ms name pins
                 (if length seen < MAX_RES * 4 then seen @ [(pin, name)] else seen))))"

fun check_claims :: "nat \<Rightarrow> nat option \<Rightarrow> slots \<Rightarrow> res list \<Rightarrow> (u8 \<times> string) list \<Rightarrow> string option" where
  "check_claims cap excl ms [] seen = None"
| "check_claims cap excl ms (r # rs) seen =
     (let (pins, name) = res_pins r in
      if pins = [] then Some (put_str cap '' instance not known on this board'' (put_str cap (kind_name (r_kind r)) []))
      else case check_pins cap excl ms name pins seen of
             Inl msg \<Rightarrow> Some msg
           | Inr seen' \<Rightarrow> check_claims cap excl ms rs seen')"

text \<open>\<open>mdl_res_check\<close>: the answer and the text left in \<open>detail\<close>.\<close>

definition mdl_res_check :: "res list \<Rightarrow> nat option \<Rightarrow> slots \<Rightarrow> nat \<Rightarrow> bool \<times> string" where
  "mdl_res_check rs excl ms detail_len =
     (case check_claims detail_len excl ms rs [] of None \<Rightarrow> (True, []) | Some msg \<Rightarrow> (False, msg))"

section \<open>What acceptance means\<close>

definition pins_of :: "res list \<Rightarrow> u8 list" where
  "pins_of rs = concat (map (\<lambda>r. fst (res_pins r)) rs)"

definition host_holds :: "u8 \<Rightarrow> bool" where
  "host_holds pin \<longleftrightarrow> (\<exists>a who. pin_owner pin = Some (a, PIN_HOST_HARD, who))"

definition held_elsewhere :: "u8 \<Rightarrow> nat option \<Rightarrow> slots \<Rightarrow> bool" where
  "held_elsewhere pin excl ms \<longleftrightarrow>
     (\<exists>i < length ms. m_state (ms ! i) \<noteq> SLOT_EMPTY \<and> Some i \<noteq> excl \<and> pin \<in> set (pins_of (claims (ms ! i))))"

definition claims_ok :: "nat option \<Rightarrow> slots \<Rightarrow> res list \<Rightarrow> bool" where
  "claims_ok excl ms rs \<longleftrightarrow>
     (\<forall>r \<in> set rs. fst (res_pins r) \<noteq> []) \<and> distinct (pins_of rs)
     \<and> (\<forall>pin \<in> set (pins_of rs). \<not> host_holds pin \<and> \<not> held_elsewhere pin excl ms)"

lemma find_Some_iff: "(\<exists>x. find P xs = Some x) \<longleftrightarrow> (\<exists>x \<in> set xs. P x)"
  by (induction xs) auto

lemma find_None: "find P xs = None \<longleftrightarrow> (\<forall>x \<in> set xs. \<not> P x)"
  by (induction xs) auto

lemma pins_of_mem: "pin \<in> set (pins_of rs) \<longleftrightarrow> (\<exists>r \<in> set rs. pin \<in> set (fst (res_pins r)))"
  by (auto simp: pins_of_def)

lemma pin_held_iff: "pin_held_by_module pin excl ms = None \<longleftrightarrow> \<not> held_elsewhere pin excl ms"
proof -
  have "pin_held_by_module pin excl ms = None \<longleftrightarrow>
      (\<forall>x \<in> set (enumerate 0 ms). \<not> (case x of (i, m) \<Rightarrow> m_state m \<noteq> SLOT_EMPTY \<and> Some i \<noteq> excl
         \<and> (\<exists>r \<in> set (claims m). pin \<in> set (fst (res_pins r)))))"
    unfolding pin_held_by_module_def find_None [symmetric] by (auto split: option.splits)
  also have "\<dots> \<longleftrightarrow> \<not> held_elsewhere pin excl ms"
    by (auto simp: held_elsewhere_def pins_of_mem in_set_enumerate_eq)
  finally show ?thesis .
qed

text \<open>The scan of one claim's pins.\<close>

lemma check_pins_spec:
  assumes "length seen + length pins \<le> 32"
  shows "(\<exists>seen'. check_pins cap excl ms name pins seen = Inr seen') \<longleftrightarrow>
      distinct pins \<and> set pins \<inter> fst ` set seen = {} \<and> (\<forall>pin \<in> set pins. \<not> host_holds pin \<and> \<not> held_elsewhere pin excl ms)"
    "check_pins cap excl ms name pins seen = Inr seen' \<Longrightarrow> seen' = seen @ map (\<lambda>p. (p, name)) pins"
proof -
  have "((\<exists>seen'. check_pins cap excl ms name pins seen = Inr seen') \<longleftrightarrow>
      distinct pins \<and> set pins \<inter> fst ` set seen = {} \<and> (\<forall>pin \<in> set pins. \<not> host_holds pin \<and> \<not> held_elsewhere pin excl ms))
    \<and> (\<forall>seen'. check_pins cap excl ms name pins seen = Inr seen' \<longrightarrow> seen' = seen @ map (\<lambda>p. (p, name)) pins)"
    using assms
  proof (induction pins arbitrary: seen)
    case (Cons pin pins)
    consider (hard) "host_holds pin" | (held) "\<not> host_holds pin" "held_elsewhere pin excl ms"
      | (dup) "\<not> host_holds pin" "\<not> held_elsewhere pin excl ms" "pin \<in> fst ` set seen"
      | (new) "\<not> host_holds pin" "\<not> held_elsewhere pin excl ms" "pin \<notin> fst ` set seen" by blast
    then show ?case
    proof cases
      case hard
      then show ?thesis by (auto simp: host_holds_def)
    next
      case held
      then obtain x where "pin_held_by_module pin excl ms = Some x"
        using pin_held_iff [of pin excl ms] by (cases "pin_held_by_module pin excl ms") auto
      then have "\<not> (\<exists>s. check_pins cap excl ms name (pin # pins) seen = Inr s)"
        using held(1) by (cases x) (auto simp: host_holds_def split: option.splits pin_hold.splits)
      then show ?thesis using held(2) by auto
    next
      case dup
      have n: "pin_held_by_module pin excl ms = None" using pin_held_iff dup(2) by blast
      obtain x where "find (\<lambda>s. fst s = pin) seen = Some x"
        using dup(3) find_None [of "\<lambda>s. fst s = pin" seen] by (cases "find (\<lambda>s. fst s = pin) seen") auto
      then have "\<not> (\<exists>s. check_pins cap excl ms name (pin # pins) seen = Inr s)"
        using dup(1) n by (cases x) (auto simp: host_holds_def split: option.splits pin_hold.splits)
      then show ?thesis using dup(3) by auto
    next
      case new
      have n: "pin_held_by_module pin excl ms = None" using pin_held_iff new(2) by blast
      have f: "find (\<lambda>s. fst s = pin) seen = None" using new(3) by (force simp: find_None)
      have step: "check_pins cap excl ms name (pin # pins) seen =
          check_pins cap excl ms name pins (seen @ [(pin, name)])"
        using new(1) n f Cons.prems by (auto simp: host_holds_def split: option.splits pin_hold.splits)
      show ?thesis
        unfolding step using Cons.IH [of "seen @ [(pin, name)]"] Cons.prems new by auto
    qed
  qed simp
  then show "(\<exists>seen'. check_pins cap excl ms name pins seen = Inr seen') \<longleftrightarrow>
      distinct pins \<and> set pins \<inter> fst ` set seen = {} \<and> (\<forall>pin \<in> set pins. \<not> host_holds pin \<and> \<not> held_elsewhere pin excl ms)"
    "check_pins cap excl ms name pins seen = Inr seen' \<Longrightarrow> seen' = seen @ map (\<lambda>p. (p, name)) pins"
    by blast+
qed

lemma periph_pins_le: "p \<in> set g_periph \<Longrightarrow> length (pp_pins p) \<le> 4"
  by (auto simp: g_periph_def)

lemma find_in: "find P xs = Some x \<Longrightarrow> x \<in> set xs \<and> P x"
  by (induction xs) (auto split: if_splits)

lemma res_pins_le: "length (fst (res_pins r)) \<le> 4"
  using find_in periph_pins_le
  by (fastforce simp: res_pins_def periph_lookup_def split: option.splits)

lemma check_claims_spec:
  assumes "length seen + 4 * length rs \<le> 32"
  shows "check_claims cap excl ms rs seen = None \<longleftrightarrow>
    (\<forall>r \<in> set rs. fst (res_pins r) \<noteq> []) \<and> distinct (pins_of rs) \<and> set (pins_of rs) \<inter> fst ` set seen = {}
    \<and> (\<forall>pin \<in> set (pins_of rs). \<not> host_holds pin \<and> \<not> held_elsewhere pin excl ms)"
  using assms
proof (induction rs arbitrary: seen)
  case (Cons r rs)
  obtain pins name where rp: "res_pins r = (pins, name)" by fastforce
  have len: "length pins \<le> 4" using res_pins_le [of r] rp by simp
  have po: "pins_of (r # rs) = pins @ pins_of rs" using rp by (simp add: pins_of_def)
  have fits: "length seen + length pins \<le> 32" using Cons.prems len by simp
  note S = check_pins_spec [OF fits, of cap excl ms name]
  show ?case
  proof (cases "pins = [] \<or> \<not> (\<exists>s. check_pins cap excl ms name pins seen = Inr s)")
    case True
    then have "check_claims cap excl ms (r # rs) seen \<noteq> None"
      using rp by (cases "check_pins cap excl ms name pins seen") auto
    moreover have "pins = [] \<or> \<not> (distinct pins \<and> set pins \<inter> fst ` set seen = {}
        \<and> (\<forall>pin \<in> set pins. \<not> host_holds pin \<and> \<not> held_elsewhere pin excl ms))" using True S(1) by blast
    ultimately show ?thesis unfolding po using rp by auto
  next
    case False
    then obtain s where s: "check_pins cap excl ms name pins seen = Inr s" by blast
    note seen' = S(2) [OF s]
    have ok: "distinct pins" "set pins \<inter> fst ` set seen = {}"
      "\<forall>pin \<in> set pins. \<not> host_holds pin \<and> \<not> held_elsewhere pin excl ms" using S(1) s by blast+
    have "check_claims cap excl ms (r # rs) seen = check_claims cap excl ms rs s" using rp False s by simp
    moreover have "fst ` set s = fst ` set seen \<union> set pins" unfolding seen' by force
    ultimately show ?thesis
      unfolding po using Cons.IH [of s] Cons.prems len seen' rp False ok by auto
  qed
qed (simp add: pins_of_def)

section \<open>The message stays inside its buffer\<close>

lemma put_str_length: "length w < cap \<Longrightarrow> length (put_str cap t w) < cap"
  by (induction cap t w rule: put_str.induct) auto

lemma put_pin_length: "length w < cap \<Longrightarrow> length (put_pin cap pin w) < cap"
  by (auto simp: put_pin_def Let_def)

lemma check_pins_msg: "0 < cap \<Longrightarrow> check_pins cap excl ms name pins seen = Inl msg \<Longrightarrow> length msg < cap"
proof (induction pins arbitrary: seen)
  case (Cons pin pins)
  then show ?case
    by (auto simp del: put_str.simps intro!: put_str_length put_pin_length
        split: option.splits prod.splits pin_hold.splits)
qed simp

lemma check_claims_msg: "0 < cap \<Longrightarrow> check_claims cap excl ms rs seen = Some msg \<Longrightarrow> length msg < cap"
proof (induction rs arbitrary: seen)
  case (Cons r rs)
  obtain pins name where rp: "res_pins r = (pins, name)" by fastforce
  show ?case
  proof (cases "pins = []")
    case True
    then show ?thesis using Cons.prems rp by (auto simp del: put_str.simps intro!: put_str_length)
  next
    case False
    then show ?thesis using Cons rp check_pins_msg [OF Cons.prems(1)]
      by (cases "check_pins cap excl ms name pins seen") auto
  qed
qed simp

section \<open>Properties\<close>

text \<open>C28: the load-time decision is exact, in the space of physical pins. A manifest of at most eight
  claims is accepted precisely when every claim can be placed on this board, its pins are pairwise
  different, none is one the host cannot give up and none is held by another loaded module; and on
  a refusal the explanation with its NUL fits the buffer.\<close>

theorem mdl_res_check_exact:
  assumes "length rs \<le> MAX_RES" "0 < detail_len"
  shows "(fst (mdl_res_check rs excl ms detail_len) \<longleftrightarrow> claims_ok excl ms rs)
    \<and> length (snd (mdl_res_check rs excl ms detail_len)) < detail_len"
proof -
  have "check_claims detail_len excl ms rs [] = None \<longleftrightarrow> claims_ok excl ms rs"
    using check_claims_spec [of "[]" rs] assms(1) by (simp add: claims_ok_def)
  moreover have "length msg < detail_len" if "check_claims detail_len excl ms rs [] = Some msg" for msg
    by (rule check_claims_msg [OF assms(2) that])
  ultimately show ?thesis using assms(2) by (auto simp: mdl_res_check_def split: option.splits)
qed

text \<open>No two loaded modules share a wire, nor two claims of one, and no module has one the host needs.\<close>

definition pins_exclusive :: "slots \<Rightarrow> bool" where
  "pins_exclusive ms \<longleftrightarrow>
     (\<forall>i < length ms. m_state (ms ! i) \<noteq> SLOT_EMPTY \<longrightarrow> claims_ok (Some i) ms (claims (ms ! i)))"

text \<open>The invariant survives every load. If the resident modules hold their pins exclusively and the
  check accepts the manifest of an image for slot \<open>i\<close> (with that slot left out of the comparison, as
  the loader does), then they still do after the module with those claims is in slot \<open>i\<close>.\<close>

lemma load_keeps_pins_exclusive:
  assumes "pins_exclusive ms" "i < length ms"
    and "claims m = rs" "length rs \<le> MAX_RES" "fst (mdl_res_check rs (Some i) ms detail_len)"
  shows "pins_exclusive (ms[i := m])"
proof -
  have ok: "claims_ok (Some i) ms rs"
    using assms(4,5) check_claims_spec [of "[]" rs]
    by (auto simp: mdl_res_check_def claims_ok_def split: option.splits)
  have self: "held_elsewhere pin (Some i) (ms[i := m]) \<longleftrightarrow> held_elsewhere pin (Some i) ms" for pin
    by (auto simp: held_elsewhere_def)
  show ?thesis
    unfolding pins_exclusive_def
  proof (intro allI impI)
    fix j
    assume j: "j < length (ms[i := m])" "m_state (ms[i := m] ! j) \<noteq> SLOT_EMPTY"
    show "claims_ok (Some j) (ms[i := m]) (claims (ms[i := m] ! j))"
    proof (cases "j = i")
      case True
      then show ?thesis using ok self assms(2,3) by (simp add: claims_ok_def)
    next
      case False
      then have cj: "claims_ok (Some j) ms (claims (ms ! j))" and lj: "m_state (ms ! j) \<noteq> SLOT_EMPTY" "j < length ms"
        using assms(1) j by (auto simp: pins_exclusive_def)
      have "\<not> held_elsewhere pin (Some j) (ms[i := m])" if p: "pin \<in> set (pins_of (claims (ms ! j)))" for pin
      proof
        assume "held_elsewhere pin (Some j) (ms[i := m])"
        then obtain k where k: "k < length ms" "m_state (ms[i := m] ! k) \<noteq> SLOT_EMPTY" "k \<noteq> j"
          "pin \<in> set (pins_of (claims (ms[i := m] ! k)))" by (auto simp: held_elsewhere_def)
        show False
        proof (cases "k = i")
          case True
          then have "pin \<in> set (pins_of rs)" using k(4) assms(2,3) by simp
          then have "\<not> held_elsewhere pin (Some i) ms" using ok by (simp add: claims_ok_def)
          moreover have "held_elsewhere pin (Some i) ms" using lj p False by (auto simp: held_elsewhere_def)
          ultimately show False by simp
        next
          case False
          then have "held_elsewhere pin (Some j) ms" using k by (auto simp: held_elsewhere_def)
          then show False using cj p by (simp add: claims_ok_def)
        qed
      qed
      then show ?thesis using cj False by (simp add: claims_ok_def)
    qed
  qed
qed

text \<open>The reachability report has a blind spot. Pin PA0 is on no header, and is encoded as 0, which is
  also the answer for \<^emph>\<open>every pin is reachable\<close>: for the ADC channel on PA0 the report says so.\<close>

theorem periph_unreachable_misses_PA0:
  "res_pins \<lparr>r_kind = KIND_ADC, r_id = 0, r_edge = 0, r_rsv = 0\<rparr> = ([MDL_PIN 0 0], ''ADC1 CH0 (PA0)'')
   \<and> mdl_pin_connector (MDL_PIN 0 0) = 0 \<and> mdl_periph_unreachable_pin KIND_ADC 0 = 0"
  by (simp add: res_pins_def periph_lookup_def g_periph_def mdl_pin_connector_def g_header_def MDL_PIN_def
      mdl_periph_unreachable_pin_def)

section \<open>Concrete instances\<close>

abbreviation gpio_claim :: "u8 \<Rightarrow> res" where
  "gpio_claim i \<equiv> \<lparr>r_kind = KIND_GPIO, r_id = i, r_edge = 0, r_rsv = 0\<rparr>"

abbreviation uart_claim :: "u8 \<Rightarrow> res" where
  "uart_claim i \<equiv> \<lparr>r_kind = KIND_UART, r_id = i, r_edge = 0, r_rsv = 0\<rparr>"

lemma BTN0_pins: "fst (res_pins (gpio_claim 2)) = [3]" "fst (res_pins (uart_claim 2)) = [2, 3]"
  "fst (res_pins (gpio_claim 3)) = [0x42]"
  by (simp_all add: res_pins_def host_gpio_pin_id_def gpio_lookup_def g_gpio_whitelist_def MDL_PIN_def
      periph_lookup_def g_periph_def)

text \<open>The button and USART2's receiver are the same wire.\<close>

theorem mdl_res_check_exact_witness:
  "\<not> fst (mdl_res_check [gpio_claim 2, uart_claim 2] None g_mdl_slots 96)"
proof -
  have "pins_of [gpio_claim 2, uart_claim 2] = [3, 2, 3]" using BTN0_pins by (simp add: pins_of_def)
  then have "\<not> claims_ok None g_mdl_slots [gpio_claim 2, uart_claim 2]" by (simp add: claims_ok_def)
  then show ?thesis using mdl_res_check_exact [of "[gpio_claim 2, uart_claim 2]" 96 None g_mdl_slots] by simp
qed

lemma load_keeps_pins_exclusive_example:
  "pins_exclusive (g_mdl_slots[1 := zero_module\<lparr>m_state := SLOT_LOADED, m_res := [gpio_claim 3], res_count := 1\<rparr>])"
proof -
  let ?m = "zero_module\<lparr>m_state := SLOT_LOADED, m_res := [gpio_claim 3], res_count := 1\<rparr>"
  have e: "pins_exclusive g_mdl_slots" by (simp add: pins_exclusive_def g_mdl_slots_def)
  have po: "pins_of [gpio_claim 3] = [0x42]" using BTN0_pins by (simp add: pins_of_def)
  have "\<not> host_holds 0x42" by (simp add: host_holds_def pin_owner_def g_pin_owner_def MDL_PIN_def)
  moreover have "\<not> held_elsewhere 0x42 (Some 1) g_mdl_slots" by (auto simp: held_elsewhere_def g_mdl_slots_def)
  ultimately have "claims_ok (Some 1) g_mdl_slots [gpio_claim 3]" using po BTN0_pins by (simp add: claims_ok_def)
  then have "check_claims 96 (Some 1) g_mdl_slots [gpio_claim 3] [] = None"
    using check_claims_spec [of "[]" "[gpio_claim 3]" 96 "Some 1" g_mdl_slots]
    by (simp del: check_claims.simps add: claims_ok_def)
  then have "fst (mdl_res_check [gpio_claim 3] (Some 1) g_mdl_slots 96)"
    by (simp del: check_claims.simps add: mdl_res_check_def)
  then show ?thesis
    using load_keeps_pins_exclusive [OF e, of 1 ?m "[gpio_claim 3]" 96] by (simp add: g_mdl_slots_def claims_def)
qed

end
