(* ===== verification/Queue_Spec.thy ===== *)
theory Queue_Spec
  imports Mdl_Prelude
begin

text \<open>
  The contract of a bounded first-in first-out queue, stated once and used for
  the event queues of the modules and for the receive ring of a UART: what was
  accepted is exactly what was delivered, in order, followed by what is still
  waiting. The ring index arithmetic both share is here too.
\<close>

datatype 'e qop = Put 'e | Get

text \<open>A history: what was accepted, what was delivered, and the state afterwards.\<close>

fun run_queue ::
  "('e \<Rightarrow> 'q \<Rightarrow> bool \<times> 'q) \<Rightarrow> ('q \<Rightarrow> 'e option \<times> 'q) \<Rightarrow> 'e qop list \<Rightarrow> 'q \<Rightarrow> 'e list \<times> 'e list \<times> 'q" where
  "run_queue put get [] q = ([], [], q)"
| "run_queue put get (Put e # ops) q =
     (let (ok, q1) = put e q; (a, d, q2) = run_queue put get ops q1 in (if ok then e # a else a, d, q2))"
| "run_queue put get (Get # ops) q =
     (let (r, q1) = get q; (a, d, q2) = run_queue put get ops q1
      in (a, (case r of None \<Rightarrow> d | Some e \<Rightarrow> e # d), q2))"

locale bounded_queue =
  fixes ok :: "'q \<Rightarrow> bool"
    and items :: "'q \<Rightarrow> 'e list"
    and room :: "'q \<Rightarrow> nat"
    and put :: "'e \<Rightarrow> 'q \<Rightarrow> bool \<times> 'q"
    and get :: "'q \<Rightarrow> 'e option \<times> 'q"
  assumes put_ok: "ok q \<Longrightarrow> ok (snd (put e q))"
    and put_items: "ok q \<Longrightarrow> items (snd (put e q)) = items q @ (if fst (put e q) then [e] else [])"
    and put_accepts: "ok q \<Longrightarrow> fst (put e q) \<longleftrightarrow> length (items q) < room q"
    and put_room: "ok q \<Longrightarrow> room (snd (put e q)) = room q"
    and get_ok: "ok q \<Longrightarrow> ok (snd (get q))"
    and get_empty: "ok q \<Longrightarrow> items q = [] \<Longrightarrow> get q = (None, q)"
    and get_items: "ok q \<Longrightarrow> items q = e # es \<Longrightarrow> fst (get q) = Some e \<and> items (snd (get q)) = es"
    and get_room: "ok q \<Longrightarrow> room (snd (get q)) = room q"
    and within: "ok q \<Longrightarrow> length (items q) \<le> room q"
begin

lemma fifo:
  "ok q \<Longrightarrow> run_queue put get ops q = (a, d, q') \<Longrightarrow> ok q' \<and> items q @ a = d @ items q' \<and> room q' = room q"
proof (induction ops arbitrary: q a d)
  case (Cons op ops)
  note okq = Cons.prems(1) and IH = Cons.IH
  show ?case
  proof (cases op)
    case (Put e)
    obtain b q1 where p: "put e q = (b, q1)" by fastforce
    obtain a1 d1 q2 where r: "run_queue put get ops q1 = (a1, d1, q2)" by (cases "run_queue put get ops q1")
    have s: "a = (if b then e # a1 else a1)" "d = d1" "q' = q2" using Cons.prems(2) p r Put by auto
    have q1: "ok q1" "items q1 = items q @ (if b then [e] else [])" "room q1 = room q"
      using put_ok [OF Cons.prems(1), of e] put_items [OF Cons.prems(1), of e]
        put_room [OF Cons.prems(1), of e] p by auto
    show ?thesis using Cons.IH [OF q1(1)] r s q1 by auto
  next
    case Get
    obtain x q1 where g: "get q = (x, q1)" by fastforce
    obtain a1 d1 q2 where r: "run_queue put get ops q1 = (a1, d1, q2)" by (cases "run_queue put get ops q1")
    have s: "a = a1" "d = (case x of None \<Rightarrow> d1 | Some e \<Rightarrow> e # d1)" "q' = q2" using Cons.prems(2) g r Get by auto
    have q1: "ok q1" "room q1 = room q" using get_ok [OF Cons.prems(1)] get_room [OF Cons.prems(1)] g by auto
    show ?thesis
    proof (cases "items q")
      case Nil
      then show ?thesis using get_empty [OF Cons.prems(1)] g Cons.IH [OF q1(1)] r s q1 by auto
    next
      case (Cons e es)
      then show ?thesis using get_items [OF okq Cons] g IH [OF q1(1)] r s q1 by auto
    qed
  qed
qed simp

lemma delivered_prefix:
  assumes "ok q" "items q = []" "run_queue put get ops q = (a, d, q')"
  shows "d = take (length d) a" "length a - length d \<le> room q"
proof -
  have f: "ok q'" "a = d @ items q'" "room q' = room q" using fifo [OF assms(1,3)] assms(2) by auto
  then show "d = take (length d) a" by simp
  show "length a - length d \<le> room q" using f within [OF f(1)] by simp
qed

end

section \<open>Ring indices\<close>

definition ring_idx :: "nat \<Rightarrow> nat \<Rightarrow> nat \<Rightarrow> nat list" where
  "ring_idx n h c = map (\<lambda>i. (h + i) mod n) [0 ..< c]"

lemma ring_idx_0 [simp]: "ring_idx n h 0 = []"
  by (simp add: ring_idx_def)

lemma length_ring_idx [simp]: "length (ring_idx n h c) = c"
  by (simp add: ring_idx_def)

lemma ring_idx_Suc: "ring_idx n h (Suc c) = ring_idx n h c @ [(h + c) mod n]"
  by (simp add: ring_idx_def)

lemma ring_idx_Cons: "ring_idx n h (Suc c) = h mod n # ring_idx n ((h + 1) mod n) c"
proof -
  have "[0 ..< Suc c] = 0 # map Suc [0 ..< c]" by (simp add: upt_conv_Cons map_Suc_upt del: upt_Suc)
  then have "ring_idx n h (Suc c) = h mod n # map (\<lambda>i. (h + Suc i) mod n) [0 ..< c]"
    by (simp add: ring_idx_def comp_def)
  also have "map (\<lambda>i. (h + Suc i) mod n) [0 ..< c] = ring_idx n ((h + 1) mod n) c"
    unfolding ring_idx_def by (rule map_cong) (simp_all add: mod_simps)
  finally show ?thesis .
qed

lemma ring_idx_less: "0 < n \<Longrightarrow> i \<in> set (ring_idx n h c) \<Longrightarrow> i < n"
  by (auto simp: ring_idx_def)

lemma ring_offset_inj:
  assumes "i < n" "j < n" "(h + i) mod n = (h + j) mod (n :: nat)"
  shows "i = j"
proof -
  have *: "x = y" if "x \<le> y" "y < n" "(h + x) mod n = (h + y) mod n" for x y
  proof -
    have "n dvd (h + y) - (h + x)" using that(1,3) by (metis add_le_cancel_left mod_eq_dvd_iff_nat)
    then have "n dvd y - x" by simp
    then show ?thesis using that(1,2) by (metis dvd_imp_le diff_le_self le_antisym less_le_trans not_le zero_less_diff order.strict_trans2)
  qed
  show ?thesis using * [of i j] * [of j i] assms by (cases "i \<le> j") auto
qed

lemma distinct_ring_idx: "c \<le> n \<Longrightarrow> distinct (ring_idx n h c)"
  unfolding ring_idx_def distinct_map inj_on_def
  by (intro conjI ballI impI) (auto intro!: ring_offset_inj [of _ n _ h])

lemma ring_idx_tail: "c < n \<Longrightarrow> (h + c) mod n \<notin> set (ring_idx n h c)"
  using distinct_ring_idx [of "Suc c" n h] by (simp add: ring_idx_Suc)

lemma map_list_update_notin:
  assumes "i \<notin> set is"
  shows "map ((!) (xs[i := x])) is = map ((!) xs) is"
  using assms by (induction "is") (auto simp: nth_list_update)

end
