(* ===== verification/Host_Events.thy ===== *)
theory Host_Events
  imports Host_Gpio Queue_Spec
begin

text \<open>
  \<open>src/mdl/host/host_events.c\<close>: one event queue per slot. Interrupt handlers
  record an event in the queue of the slot that owns the source and wake its
  task; the module takes from its own queue only. Ticks and cycle counts are
  arguments (\<open>xTaskGetTickCount\<close>, \<open>host_cycles_now\<close>); the interrupt hardware is
  the sets of enabled EXINT lines and vectors; tasks that were notified are
  appended to a log.
\<close>

abbreviation EVT_QUEUE_MAX :: nat where "EVT_QUEUE_MAX \<equiv> 16"
abbreviation EVT_NONE :: u8 where "EVT_NONE \<equiv> 0"
abbreviation EVT_GPIO :: u8 where "EVT_GPIO \<equiv> 1"
abbreviation EVT_CONSOLE :: u8 where "EVT_CONSOLE \<equiv> 2"
abbreviation EVT_UART :: u8 where "EVT_UART \<equiv> 3"
abbreviation EDGE_NONE :: u8 where "EDGE_NONE \<equiv> 0"

text \<open>\<open>mdl_event_t\<close>.\<close>

record event =
  e_source :: u8
  e_id :: u8
  e_coalesced :: u16
  e_payload :: u32
  e_tick :: u32
  e_cycles :: u32

record evt_slot =
  eq_buf :: "event list"
  e_head :: nat
  e_tail :: nat
  e_count :: nat
  e_depth :: nat
  delivered :: u32
  lost :: u32
  coalesced :: u32
  declared_hz :: u16
  window_start :: u32
  window_count :: u32
  peak_hz :: u32
  e_task :: nat
  armed_lines :: "nat set"

record events =
  s_evt :: "evt_slot list"
  s_pin_slot :: "int list"
  exint_on :: "nat set"
  nvic_on :: "nat set"
  woken :: "nat list"

definition slot_ok :: "int \<Rightarrow> bool" where
  "slot_ok slot \<longleftrightarrow> 0 \<le> slot \<and> slot < int MAX_SLOTS"

definition upd_slot :: "int \<Rightarrow> (evt_slot \<Rightarrow> evt_slot) \<Rightarrow> events \<Rightarrow> events" where
  "upd_slot slot f ev = ev\<lparr>s_evt := (s_evt ev)[nat slot := f (s_evt ev ! nat slot)]\<rparr>"

definition reset_slot :: "u16 \<Rightarrow> u16 \<Rightarrow> nat \<Rightarrow> u32 \<Rightarrow> evt_slot \<Rightarrow> evt_slot" where
  "reset_slot depth rate_hz task now e =
     e\<lparr>e_head := 0, e_tail := 0, e_count := 0, delivered := 0, lost := 0, coalesced := 0,
       window_start := now, window_count := 0, peak_hz := 0, declared_hz := rate_hz,
       e_depth := (if depth = 0 \<or> EVT_QUEUE_MAX < unat depth then EVT_QUEUE_MAX else unat depth),
       e_task := task\<rparr>"

definition mdl_events_reset :: "int \<Rightarrow> u16 \<Rightarrow> u16 \<Rightarrow> nat \<Rightarrow> u32 \<Rightarrow> events \<Rightarrow> events" where
  "mdl_events_reset slot depth rate_hz task now ev =
     (if \<not> slot_ok slot then ev else upd_slot slot (reset_slot depth rate_hz task now) ev)"

text \<open>\<open>mdl_events_stats_t\<close>: delivered, lost, coalesced, declared rate, peak rate.\<close>

definition mdl_events_get_stats :: "int \<Rightarrow> events \<Rightarrow> u32 \<times> u32 \<times> u32 \<times> u16 \<times> u32" where
  "mdl_events_get_stats slot ev =
     (if \<not> slot_ok slot then (0, 0, 0, 0, 0)
      else let e = s_evt ev ! nat slot in (delivered e, lost e, coalesced e, declared_hz e, peak_hz e))"

text \<open>The one-second window.\<close>

definition roll_window :: "u32 \<Rightarrow> evt_slot \<Rightarrow> evt_slot" where
  "roll_window now e =
     (let e1 = (if 1000 \<le> now - window_start e
                then e\<lparr>peak_hz := (if peak_hz e < window_count e then window_count e else peak_hz e),
                       window_start := now, window_count := 0\<rparr>
                else e)
      in e1\<lparr>window_count := window_count e1 + 1\<rparr>)"

definition queue_idx :: "evt_slot \<Rightarrow> nat list" where
  "queue_idx e = ring_idx EVT_QUEUE_MAX (e_head e) (e_count e)"

definition same_source :: "u8 \<Rightarrow> u8 \<Rightarrow> event \<Rightarrow> bool" where
  "same_source source sid x \<longleftrightarrow> e_source x = source \<and> e_id x = sid"

text \<open>Merging one event into a waiting one: the newest payload, a saturating merge count.\<close>

definition merge_event :: "u32 \<Rightarrow> event \<Rightarrow> event" where
  "merge_event payload x =
     x\<lparr>e_payload := payload, e_coalesced := (if e_coalesced x < 0xFFFF then e_coalesced x + 1 else e_coalesced x)\<rparr>"

text \<open>Appending at the tail.\<close>

definition enqueue :: "event \<Rightarrow> evt_slot \<Rightarrow> evt_slot" where
  "enqueue x e = e\<lparr>eq_buf := (eq_buf e)[e_tail e := x], e_tail := (e_tail e + 1) mod EVT_QUEUE_MAX,
     e_count := e_count e + 1\<rparr>"

definition post_event :: "u8 \<Rightarrow> u8 \<Rightarrow> u32 \<Rightarrow> u32 \<Rightarrow> u32 \<Rightarrow> evt_slot \<Rightarrow> evt_slot" where
  "post_event source sid payload now cycles e0 =
     (let e = roll_window now e0 in
      case find (\<lambda>i. same_source source sid (eq_buf e ! i)) (queue_idx e) of
        Some i \<Rightarrow> e\<lparr>eq_buf := (eq_buf e)[i := merge_event payload (eq_buf e ! i)], coalesced := coalesced e + 1\<rparr>
      | None \<Rightarrow>
          if e_depth e \<le> e_count e then e\<lparr>lost := lost e + 1\<rparr>
          else enqueue \<lparr>e_source = source, e_id = sid, e_coalesced = 1, e_payload = payload,
                         e_tick = now, e_cycles = cycles\<rparr> e)"

definition wake :: "int \<Rightarrow> events \<Rightarrow> events" where
  "wake slot ev = (if e_task (s_evt ev ! nat slot) \<noteq> 0 then ev\<lparr>woken := woken ev @ [e_task (s_evt ev ! nat slot)]\<rparr> else ev)"

definition post_from_isr :: "int \<Rightarrow> u8 \<Rightarrow> u8 \<Rightarrow> u32 \<Rightarrow> u32 \<Rightarrow> u32 \<Rightarrow> events \<Rightarrow> events" where
  "post_from_isr slot source sid payload now cycles ev =
     (if \<not> slot_ok slot then ev
      else wake slot (upd_slot slot (post_event source sid payload now cycles) ev))"

text \<open>A UART's slot: the first loaded one that declared the instance.\<close>

definition mdl_events_post_uart :: "slots \<Rightarrow> u8 \<Rightarrow> u16 \<Rightarrow> u32 \<Rightarrow> u32 \<Rightarrow> events \<Rightarrow> events" where
  "mdl_events_post_uart ms inst waiting now cycles ev =
     (case find_idx (\<lambda>m. m_state m \<noteq> SLOT_EMPTY \<and> declares m KIND_UART inst) ms of
        None \<Rightarrow> ev
      | Some i \<Rightarrow> post_from_isr (int i) EVT_UART inst (ucast waiting) now cycles ev)"

definition dequeue :: "evt_slot \<Rightarrow> event option \<times> evt_slot" where
  "dequeue e =
     (if 0 < e_count e then
        (Some (eq_buf e ! e_head e),
         e\<lparr>e_head := (e_head e + 1) mod EVT_QUEUE_MAX, e_count := e_count e - 1, delivered := delivered e + 1\<rparr>)
      else (None, e))"

text \<open>\<open>mdl_events_take\<close>: the queue of the calling task's slot.\<close>

definition mdl_events_take :: "nat \<Rightarrow> slots \<Rightarrow> events \<Rightarrow> event option \<times> events" where
  "mdl_events_take me ms ev =
     (case mdl_caller_slot me ms of None \<Rightarrow> (None, ev)
      | Some i \<Rightarrow> let (r, e) = dequeue (s_evt ev ! i) in (r, ev\<lparr>s_evt := (s_evt ev)[i := e]\<rparr>))"

text \<open>An event is appended when there is room.\<close>

definition try_enqueue :: "event \<Rightarrow> evt_slot \<Rightarrow> bool \<times> evt_slot" where
  "try_enqueue x e = (if e_count e < e_depth e then (True, enqueue x e) else (False, e))"

definition mdl_events_post_console :: "int \<Rightarrow> u32 \<Rightarrow> u32 \<Rightarrow> events \<Rightarrow> bool \<times> events" where
  "mdl_events_post_console slot now cycles ev =
     (if \<not> slot_ok slot then (False, ev)
      else let (ok, e) = try_enqueue \<lparr>e_source = EVT_CONSOLE, e_id = 0, e_coalesced = 1, e_payload = 0,
                            e_tick = now, e_cycles = cycles\<rparr> (s_evt ev ! nat slot);
               ev1 = ev\<lparr>s_evt := (s_evt ev)[nat slot := e]\<rparr>
           in (ok, if ok then wake slot ev1 else ev1))"

text \<open>The interrupt handlers; clearing the pending flag is the hardware's business.\<close>

definition gpio_isr :: "int \<Rightarrow> gpio_hw \<Rightarrow> u32 \<Rightarrow> u32 \<Rightarrow> events \<Rightarrow> events" where
  "gpio_isr pin hw now cycles ev =
     post_from_isr (if 0 \<le> pin \<and> pin < 32 then s_pin_slot ev ! nat pin else -1) EVT_GPIO (word_of_int pin)
       (word_of_int (host_gpio_direct_get pin hw)) now cycles ev"

definition EXINT3_IRQHandler :: "gpio_hw \<Rightarrow> u32 \<Rightarrow> u32 \<Rightarrow> events \<Rightarrow> events" where
  "EXINT3_IRQHandler = gpio_isr 2"

definition EXINT2_IRQHandler :: "gpio_hw \<Rightarrow> u32 \<Rightarrow> u32 \<Rightarrow> events \<Rightarrow> events" where
  "EXINT2_IRQHandler = gpio_isr 3"

definition mdl_events_arm_gpio :: "int \<Rightarrow> int \<Rightarrow> u8 \<Rightarrow> events \<Rightarrow> bool \<times> events" where
  "mdl_events_arm_gpio slot pin edge ev =
     (if edge = EDGE_NONE then (True, ev)
      else if \<not> slot_ok slot \<or> pin < 0 \<or> 32 \<le> pin then (False, ev)
      else case host_gpio_exti_info pin of
             None \<Rightarrow> (False, ev)
           | Some line \<Rightarrow>
               (True, upd_slot slot (\<lambda>e. e\<lparr>armed_lines := insert line (armed_lines e)\<rparr>)
                  (ev\<lparr>exint_on := insert line (exint_on ev), nvic_on := insert line (nvic_on ev),
                      s_pin_slot := (s_pin_slot ev)[nat pin := slot]\<rparr>)))"

definition drop_queue :: "evt_slot \<Rightarrow> evt_slot" where
  "drop_queue e = e\<lparr>e_count := 0, e_head := 0, e_tail := 0\<rparr>"

definition mdl_events_disarm_slot :: "int \<Rightarrow> events \<Rightarrow> events" where
  "mdl_events_disarm_slot slot ev =
     (if \<not> slot_ok slot then ev
      else let e = (s_evt ev ! nat slot)\<lparr>e_task := 0\<rparr> in
        if armed_lines e = {} then ev\<lparr>s_evt := (s_evt ev)[nat slot := drop_queue e]\<rparr>
        else ev\<lparr>s_evt := (s_evt ev)[nat slot := drop_queue (e\<lparr>armed_lines := {}\<rparr>)],
                exint_on := exint_on ev - armed_lines e,
                nvic_on := nvic_on ev - (armed_lines e \<inter> {2, 3}),
                s_pin_slot := map (\<lambda>s. if s = slot then -1 else s) (s_pin_slot ev)\<rparr>)"

definition mdl_events_init :: "events \<Rightarrow> events" where
  "mdl_events_init ev =
     ev\<lparr>s_pin_slot := replicate 32 (-1),
        s_evt := map (\<lambda>e. (drop_queue e)\<lparr>e_task := 0, armed_lines := {}, e_depth := EVT_QUEUE_MAX\<rparr>) (s_evt ev)\<rparr>"

section \<open>The queue as a list\<close>

definition pending :: "evt_slot \<Rightarrow> event list" where
  "pending e = map ((!) (eq_buf e)) (queue_idx e)"

definition queue_inv :: "evt_slot \<Rightarrow> bool" where
  "queue_inv e \<longleftrightarrow> length (eq_buf e) = EVT_QUEUE_MAX \<and> e_head e < EVT_QUEUE_MAX \<and> 0 < e_depth e
     \<and> e_depth e \<le> EVT_QUEUE_MAX \<and> e_count e \<le> e_depth e \<and> e_tail e = (e_head e + e_count e) mod EVT_QUEUE_MAX"

lemma length_pending [simp]: "length (pending e) = e_count e"
  by (simp add: pending_def queue_idx_def)

lemma enqueue_spec:
  assumes "queue_inv e" "e_count e < e_depth e"
  shows "queue_inv (enqueue x e)" "pending (enqueue x e) = pending e @ [x]"
proof -
  have c: "e_count e < 16" "e_head e < 16" "length (eq_buf e) = 16" "e_tail e = (e_head e + e_count e) mod 16"
    using assms by (auto simp: queue_inv_def)
  show "queue_inv (enqueue x e)" using assms by (auto simp: queue_inv_def enqueue_def mod_simps)
  have "e_tail e \<notin> set (queue_idx e)" using ring_idx_tail [OF c(1)] c(4) by (simp add: queue_idx_def)
  then have "map ((!) ((eq_buf e)[e_tail e := x])) (queue_idx e) = pending e"
    unfolding pending_def by (rule map_list_update_notin)
  then show "pending (enqueue x e) = pending e @ [x]"
    using c by (simp add: pending_def queue_idx_def enqueue_def ring_idx_Suc)
qed

lemma dequeue_spec:
  assumes "queue_inv e"
  shows "queue_inv (snd (dequeue e))" "pending e = [] \<Longrightarrow> dequeue e = (None, e)"
    "pending e = x # xs \<Longrightarrow> fst (dequeue e) = Some x \<and> pending (snd (dequeue e)) = xs"
proof -
  show "queue_inv (snd (dequeue e))"
    using assms by (cases "e_count e") (auto simp: queue_inv_def dequeue_def mod_simps)
  have len: "length (pending e) = e_count e" by simp
  show "pending e = [] \<Longrightarrow> dequeue e = (None, e)" using len by (simp add: dequeue_def)
  assume p: "pending e = x # xs"
  then obtain c where c: "e_count e = Suc c" using len by (cases "e_count e") auto
  have h: "e_head e mod 16 = e_head e" using assms by (simp add: queue_inv_def)
  have "pending e = eq_buf e ! e_head e # map ((!) (eq_buf e)) (ring_idx 16 ((e_head e + 1) mod 16) c)"
    unfolding pending_def queue_idx_def c ring_idx_Cons h by simp
  then show "fst (dequeue e) = Some x \<and> pending (snd (dequeue e)) = xs"
    using p c by (simp add: dequeue_def pending_def queue_idx_def)
qed

text \<open>The module's queue is a bounded queue.\<close>

interpretation evq: bounded_queue queue_inv pending e_depth try_enqueue dequeue
proof unfold_locales
  fix e :: evt_slot and x :: event and xs
  assume inv: "queue_inv e"
  show "queue_inv (snd (try_enqueue x e))" using inv enqueue_spec(1) [OF inv] by (simp add: try_enqueue_def)
  show "pending (snd (try_enqueue x e)) = pending e @ (if fst (try_enqueue x e) then [x] else [])"
    using enqueue_spec(2) [OF inv] by (simp add: try_enqueue_def)
  show "fst (try_enqueue x e) = (length (pending e) < e_depth e)" by (simp add: try_enqueue_def)
  show "e_depth (snd (try_enqueue x e)) = e_depth e" by (simp add: try_enqueue_def enqueue_def)
  show "queue_inv (snd (dequeue e))" by (rule dequeue_spec(1) [OF inv])
  show "pending e = [] \<Longrightarrow> dequeue e = (None, e)" by (rule dequeue_spec(2) [OF inv])
  show "pending e = x # xs \<Longrightarrow> fst (dequeue e) = Some x \<and> pending (snd (dequeue e)) = xs"
    by (rule dequeue_spec(3) [OF inv])
  show "e_depth (snd (dequeue e)) = e_depth e" by (simp add: dequeue_def)
  show "length (pending e) \<le> e_depth e" using inv by (simp add: queue_inv_def)
qed

section \<open>Posting\<close>

text \<open>The first waiting event of the same source takes the new payload.\<close>

fun merge_first :: "u8 \<Rightarrow> u8 \<Rightarrow> u32 \<Rightarrow> event list \<Rightarrow> event list" where
  "merge_first source sid payload [] = []"
| "merge_first source sid payload (x # xs) =
     (if same_source source sid x then merge_event payload x # xs else x # merge_first source sid payload xs)"

lemma find_merge:
  assumes "distinct is" "\<forall>i \<in> set is. i < length buf"
  shows "case find (\<lambda>i. same_source source sid (buf ! i)) is of
      None \<Rightarrow> (\<forall>x \<in> set (map ((!) buf) is). \<not> same_source source sid x)
    | Some i \<Rightarrow> i \<in> set is \<and> (\<exists>x \<in> set (map ((!) buf) is). same_source source sid x)
        \<and> map ((!) (buf[i := merge_event payload (buf ! i)])) is = merge_first source sid payload (map ((!) buf) is)"
  using assms
proof (induction "is")
  case (Cons j js)
  show ?case
  proof (cases "same_source source sid (buf ! j)")
    case True
    then show ?thesis using Cons.prems by (simp add: map_list_update_notin)
  next
    case False
    have IH: "case find (\<lambda>i. same_source source sid (buf ! i)) js of
      None \<Rightarrow> (\<forall>x \<in> set (map ((!) buf) js). \<not> same_source source sid x)
    | Some i \<Rightarrow> i \<in> set js \<and> (\<exists>x \<in> set (map ((!) buf) js). same_source source sid x)
        \<and> map ((!) (buf[i := merge_event payload (buf ! i)])) js = merge_first source sid payload (map ((!) buf) js)"
      using Cons by simp
    show ?thesis
    proof (cases "find (\<lambda>i. same_source source sid (buf ! i)) js")
      case None
      then show ?thesis using IH False by simp
    next
      case (Some i)
      then have "i \<noteq> j" using IH Cons.prems(1) by auto
      then show ?thesis using Some IH False by (auto simp: nth_list_update)
    qed
  qed
qed simp

lemma roll_window_queue:
  "queue_inv (roll_window now e) = queue_inv e" "pending (roll_window now e) = pending e"
  "e_depth (roll_window now e) = e_depth e" "e_count (roll_window now e) = e_count e"
  "lost (roll_window now e) = lost e" "coalesced (roll_window now e) = coalesced e"
  "delivered (roll_window now e) = delivered e" "e_task (roll_window now e) = e_task e"
  "armed_lines (roll_window now e) = armed_lines e"
  by (auto simp: roll_window_def Let_def queue_inv_def pending_def queue_idx_def)

lemma post_event_spec:
  fixes e :: evt_slot and source sid :: u8 and payload now cycles :: u32
  assumes inv: "queue_inv e"
  defines "e' \<equiv> post_event source sid payload now cycles e"
  defines "x \<equiv> \<lparr>e_source = source, e_id = sid, e_coalesced = 1, e_payload = payload, e_tick = now, e_cycles = cycles\<rparr>"
  shows "queue_inv e'" "e_depth e' = e_depth e" "delivered e' = delivered e"
    "if \<exists>y \<in> set (pending e). same_source source sid y then
       pending e' = merge_first source sid payload (pending e) \<and> coalesced e' = coalesced e + 1 \<and> lost e' = lost e
     else if e_count e < e_depth e then
       pending e' = pending e @ [x] \<and> coalesced e' = coalesced e \<and> lost e' = lost e
     else pending e' = pending e \<and> coalesced e' = coalesced e \<and> lost e' = lost e + 1"
    "e_task e' = e_task e" "armed_lines e' = armed_lines e"
proof -
  let ?r = "roll_window now e"
  note R = roll_window_queue [of now e]
  have ri: "queue_inv ?r" using inv R(1) by simp
  have idx: "distinct (queue_idx ?r)" "\<forall>i \<in> set (queue_idx ?r). i < length (eq_buf ?r)"
    using ri ring_idx_less [of 16] by (auto simp: queue_inv_def queue_idx_def intro!: distinct_ring_idx)
  note F = find_merge [OF idx, of source sid payload]
  have "queue_inv e' \<and> e_depth e' = e_depth e \<and> delivered e' = delivered e \<and> e_task e' = e_task e
    \<and> armed_lines e' = armed_lines e
    \<and> (if \<exists>y \<in> set (pending e). same_source source sid y then
       pending e' = merge_first source sid payload (pending e) \<and> coalesced e' = coalesced e + 1 \<and> lost e' = lost e
     else if e_count e < e_depth e then
       pending e' = pending e @ [x] \<and> coalesced e' = coalesced e \<and> lost e' = lost e
     else pending e' = pending e \<and> coalesced e' = coalesced e \<and> lost e' = lost e + 1)"
  proof (cases "find (\<lambda>i. same_source source sid (eq_buf ?r ! i)) (queue_idx ?r)")
    case (Some i)
    let ?m = "?r\<lparr>eq_buf := (eq_buf ?r)[i := merge_event payload (eq_buf ?r ! i)], coalesced := coalesced ?r + 1\<rparr>"
    have e': "e' = ?m" using Some by (simp add: e'_def post_event_def Let_def)
    have ex: "\<exists>y \<in> set (pending e). same_source source sid y"
      and pm: "map ((!) ((eq_buf ?r)[i := merge_event payload (eq_buf ?r ! i)])) (queue_idx ?r) =
        merge_first source sid payload (pending e)"
      using F unfolding Some option.case pending_def [symmetric] R(2) by blast+
    have "pending e' = merge_first source sid payload (pending e)"
      using pm unfolding e' by (simp add: pending_def queue_idx_def)
    moreover have "queue_inv e'" using ri unfolding e' by (simp add: queue_inv_def)
    ultimately show ?thesis using ex R e' by simp
  next
    case None
    have no: "\<not> (\<exists>y \<in> set (pending e). same_source source sid y)"
      using F unfolding None option.case pending_def [symmetric] R(2) by blast
    show ?thesis
    proof (cases "e_count e < e_depth e")
      case True
      then have e': "e' = enqueue x ?r" using None R by (simp add: e'_def x_def post_event_def Let_def)
      have "e_count ?r < e_depth ?r" using True R by simp
      then show ?thesis using enqueue_spec [OF ri, of x] no R True unfolding e' by (simp add: enqueue_def)
    next
      case False
      then have e': "e' = ?r\<lparr>lost := lost ?r + 1\<rparr>" using None R by (simp add: e'_def post_event_def Let_def)
      have "queue_inv e'" "pending e' = pending ?r"
        using ri unfolding e' by (simp_all add: queue_inv_def pending_def queue_idx_def)
      then show ?thesis using no R False unfolding e' by simp
    qed
  qed
  then show "queue_inv e'" "e_depth e' = e_depth e" "delivered e' = delivered e"
    "if \<exists>y \<in> set (pending e). same_source source sid y then
       pending e' = merge_first source sid payload (pending e) \<and> coalesced e' = coalesced e + 1 \<and> lost e' = lost e
     else if e_count e < e_depth e then
       pending e' = pending e @ [x] \<and> coalesced e' = coalesced e \<and> lost e' = lost e
     else pending e' = pending e \<and> coalesced e' = coalesced e \<and> lost e' = lost e + 1"
    "e_task e' = e_task e" "armed_lines e' = armed_lines e" by blast+
qed

text \<open>A history of one queue: interrupts, console commands, the module taking events. The count is of the
  events that were presented to the queue and, for a console command, accepted.\<close>

datatype evop = Isr u8 u8 u32 u32 u32 | Console u32 u32 | Take

definition exec_evop :: "evop \<Rightarrow> nat \<times> evt_slot \<Rightarrow> nat \<times> evt_slot" where
  "exec_evop op st = (case st of (n, e) \<Rightarrow> (case op of
     Isr source sid payload now cycles \<Rightarrow> (n + 1, post_event source sid payload now cycles e)
   | Console now cycles \<Rightarrow>
       (case try_enqueue \<lparr>e_source = EVT_CONSOLE, e_id = 0, e_coalesced = 1, e_payload = 0,
                          e_tick = now, e_cycles = cycles\<rparr> e of (ok, e') \<Rightarrow> (if ok then n + 1 else n, e'))
   | Take \<Rightarrow> (n, snd (dequeue e))))"

definition accounted :: "evt_slot \<Rightarrow> u32" where
  "accounted e = delivered e + lost e + coalesced e + of_nat (e_count e)"

lemma exec_evop_accounted:
  assumes "queue_inv e" "exec_evop op (n, e) = (n', e')"
  shows "queue_inv e' \<and> accounted e' = accounted e + of_nat n' - of_nat n \<and> e_depth e' = e_depth e"
proof (cases op)
  case (Isr source sid payload now cycles)
  note P = post_event_spec [OF assms(1), of source sid payload now cycles]
  let ?e = "post_event source sid payload now cycles e"
  have e': "n' = n + 1" "e' = ?e" using assms(2) Isr by (auto simp: exec_evop_def)
  have ml: "length (merge_first source sid payload xs) = length xs" for xs by (induction xs) auto
  have "accounted ?e = accounted e + 1"
  proof -
    consider "\<exists>y \<in> set (pending e). same_source source sid y"
      | "\<not> (\<exists>y \<in> set (pending e). same_source source sid y)" "e_count e < e_depth e"
      | "\<not> (\<exists>y \<in> set (pending e). same_source source sid y)" "\<not> e_count e < e_depth e" by blast
    then show ?thesis
    proof cases
      case 1
      then have p: "pending ?e = merge_first source sid payload (pending e)" "coalesced ?e = coalesced e + 1" "lost ?e = lost e"
        using P(4) by simp_all
      have "e_count ?e = e_count e" using arg_cong [OF p(1), of length] ml by simp
      then show ?thesis using p P(3) by (simp add: accounted_def)
    next
      case 2
      then have p: "\<exists>x. pending ?e = pending e @ [x]" "coalesced ?e = coalesced e" "lost ?e = lost e"
        using P(4) by auto
      then have "e_count ?e = e_count e + 1" by (metis length_append_singleton length_pending Suc_eq_plus1)
      then show ?thesis using p P(3) by (simp add: accounted_def)
    next
      case 3
      then have p: "pending ?e = pending e" "coalesced ?e = coalesced e" "lost ?e = lost e + 1"
        using P(4) by auto
      have "e_count ?e = e_count e" using arg_cong [OF p(1), of length] by simp
      then show ?thesis using p P(3) by (simp add: accounted_def)
    qed
  qed
  then show ?thesis using P(1,2) e' by simp
next
  case (Console now cycles)
  let ?x = "\<lparr>e_source = EVT_CONSOLE, e_id = 0, e_coalesced = 1, e_payload = 0, e_tick = now, e_cycles = cycles\<rparr>"
  show ?thesis
    using assms(2) Console enqueue_spec(1) [OF assms(1), of ?x] assms(1)
    by (auto simp: exec_evop_def try_enqueue_def accounted_def enqueue_def split: if_splits)
next
  case Take
  have "queue_inv (snd (dequeue e))" by (rule dequeue_spec(1) [OF assms(1)])
  then show ?thesis using assms(2) Take
    by (cases "e_count e") (auto simp: exec_evop_def dequeue_def accounted_def)
qed

section \<open>Properties\<close>

lemma reset_slot_inv:
  assumes "length (eq_buf e) = EVT_QUEUE_MAX"
  shows "queue_inv (reset_slot depth rate_hz task now e)"
    "accounted (reset_slot depth rate_hz task now e) = 0" "pending (reset_slot depth rate_hz task now e) = []"
  using assms by (auto simp: queue_inv_def reset_slot_def accounted_def pending_def queue_idx_def unat_gt_0)

text \<open>C32: posting from an interrupt implements the abstract queue. A waiting event of the same source and
  id is merged in place (newest payload, merge count incremented), otherwise the event is appended
  while there is room within the declared depth, otherwise it is counted as lost and the queue is
  unchanged; exactly one of the three counters moves, and never an index out of the buffer.\<close>

theorem post_from_isr_refines:
  assumes "queue_inv (s_evt ev ! nat slot)" "slot_ok slot" "length (s_evt ev) = MAX_SLOTS"
  shows "let e = s_evt ev ! nat slot;
             e' = s_evt (post_from_isr slot source sid payload now cycles ev) ! nat slot
    in queue_inv e' \<and> delivered e' = delivered e
       \<and> (if \<exists>y \<in> set (pending e). same_source source sid y then
            pending e' = merge_first source sid payload (pending e) \<and> coalesced e' = coalesced e + 1 \<and> lost e' = lost e
          else if e_count e < e_depth e then
            pending e' = pending e @ [\<lparr>e_source = source, e_id = sid, e_coalesced = 1, e_payload = payload,
                                       e_tick = now, e_cycles = cycles\<rparr>]
            \<and> coalesced e' = coalesced e \<and> lost e' = lost e
          else pending e' = pending e \<and> coalesced e' = coalesced e \<and> lost e' = lost e + 1)"
proof -
  have i: "nat slot < length (s_evt ev)" using assms(2,3) by (auto simp: slot_ok_def)
  have "s_evt (post_from_isr slot source sid payload now cycles ev) ! nat slot =
      post_event source sid payload now cycles (s_evt ev ! nat slot)"
    using i assms(2) by (simp add: post_from_isr_def wake_def upd_slot_def)
  then show ?thesis using post_event_spec [OF assms(1), of source sid payload now cycles] by (simp add: Let_def)
qed

fun exec_evops :: "evop list \<Rightarrow> nat \<times> evt_slot \<Rightarrow> nat \<times> evt_slot" where
  "exec_evops [] st = st"
| "exec_evops (op # ops) st = exec_evops ops (exec_evop op st)"

lemma exec_evops_accounted:
  assumes "queue_inv e" "exec_evops ops (n, e) = (n', e')"
  shows "queue_inv e' \<and> accounted e' = accounted e + of_nat n' - of_nat n \<and> e_depth e' = e_depth e"
  using assms
proof (induction ops arbitrary: n e)
  case (Cons op ops)
  obtain n1 e1 where s: "exec_evop op (n, e) = (n1, e1)" by fastforce
  note S = exec_evop_accounted [OF Cons.prems(1) s]
  then have "queue_inv e' \<and> accounted e' = accounted e1 + of_nat n' - of_nat n1 \<and> e_depth e' = e_depth e1"
    using Cons.IH [of e1 n1] Cons.prems(2) s by simp
  then show ?case using S by simp
qed simp

text \<open>No event disappears without being counted. After a slot's queue is set up with any declared
  depth, for any history of interrupts, console commands and takes, the number of events presented
  is exactly the sum of those delivered, lost, coalesced and still waiting (in 32-bit arithmetic, as the
  counters are), and the queue never exceeds its depth.\<close>

theorem events_accounted:
  assumes "length (eq_buf e0) = EVT_QUEUE_MAX"
  shows "case exec_evops ops (0, reset_slot depth rate_hz task now e0) of (n, e) \<Rightarrow>
    of_nat n = delivered e + lost e + coalesced e + of_nat (length (pending e))
    \<and> length (pending e) \<le> e_depth e \<and> e_depth e \<le> EVT_QUEUE_MAX"
proof -
  obtain n e where r: "exec_evops ops (0, reset_slot depth rate_hz task now e0) = (n, e)" by fastforce
  note R = reset_slot_inv [OF assms, of depth rate_hz task now]
  have "queue_inv e \<and> accounted e = of_nat n" using exec_evops_accounted [OF R(1) r] R(2) by simp
  then show ?thesis unfolding r by (simp add: accounted_def queue_inv_def)
qed

text \<open>The pin map and the armed lines agree: a mapped pin has an interrupt line, armed by its slot, and
  every armed line belongs to a pin mapped to that slot.\<close>

definition events_inv :: "events \<Rightarrow> bool" where
  "events_inv ev \<longleftrightarrow> length (s_evt ev) = MAX_SLOTS \<and> length (s_pin_slot ev) = 32
     \<and> (\<forall>p < 32. s_pin_slot ev ! p = -1 \<or>
          (slot_ok (s_pin_slot ev ! p) \<and>
           (\<exists>l. host_gpio_exti_info (int p) = Some l \<and> l \<in> armed_lines (s_evt ev ! nat (s_pin_slot ev ! p)))))
     \<and> (\<forall>j < MAX_SLOTS. \<forall>l \<in> armed_lines (s_evt ev ! j).
          \<exists>p < 32. host_gpio_exti_info (int p) = Some l \<and> s_pin_slot ev ! p = int j)"

lemma exti_lines:
  assumes "host_gpio_exti_info p = Some l"
  shows "(p = 2 \<and> l = 3) \<or> (p = 3 \<and> l = 2)"
proof -
  have "p = 0 \<or> p = 1 \<or> p = 2 \<or> p = 3 \<or> p = 4 \<or> p = 5"
    using assms by (auto simp: host_gpio_exti_info_def gpio_lookup_def split: if_splits)
  then show ?thesis using assms
    by (auto simp: host_gpio_exti_info_def gpio_lookup_def g_gpio_whitelist_def)
qed

lemma armed_disjoint:
  assumes "events_inv ev" "i < MAX_SLOTS" "j < MAX_SLOTS" "i \<noteq> j"
  shows "armed_lines (s_evt ev ! i) \<inter> armed_lines (s_evt ev ! j) = {}"
proof -
  have False if l: "l \<in> armed_lines (s_evt ev ! i)" "l \<in> armed_lines (s_evt ev ! j)" for l
  proof -
    obtain p where p: "p < 32" "host_gpio_exti_info (int p) = Some l" "s_pin_slot ev ! p = int i"
      using assms(1,2) l(1) unfolding events_inv_def by blast
    obtain q where q: "q < 32" "host_gpio_exti_info (int q) = Some l" "s_pin_slot ev ! q = int j"
      using assms(1,3) l(2) unfolding events_inv_def by blast
    have "int p = int q" using exti_lines [OF p(2)] exti_lines [OF q(2)] by auto
    then show False using p(3) q(3) assms(4) by simp
  qed
  then show ?thesis by blast
qed

lemma events_inv_disarm:
  assumes inv: "events_inv ev" and ok: "slot_ok slot"
  defines "ev' \<equiv> mdl_events_disarm_slot slot ev"
  shows "events_inv ev'"
    "e_task (s_evt ev' ! nat slot) = 0" "pending (s_evt ev' ! nat slot) = []"
    "armed_lines (s_evt ev' ! nat slot) = {}"
    "j < MAX_SLOTS \<Longrightarrow> int j \<noteq> slot \<Longrightarrow> s_evt ev' ! j = s_evt ev ! j"
    "p < 32 \<Longrightarrow> s_pin_slot ev' ! p = (if s_pin_slot ev ! p = slot then -1 else s_pin_slot ev ! p)"
    "j < MAX_SLOTS \<Longrightarrow> int j \<noteq> slot \<Longrightarrow> armed_lines (s_evt ev ! j) \<subseteq> exint_on ev \<Longrightarrow>
      armed_lines (s_evt ev' ! j) \<subseteq> exint_on ev'"
    "armed_lines (s_evt ev ! nat slot) \<inter> exint_on ev' = {}"
proof -
  let ?i = "nat slot"
  have i: "?i < 4" "int ?i = slot" using ok by (auto simp: slot_ok_def)
  have len: "length (s_evt ev) = 4" "length (s_pin_slot ev) = 32" using inv by (auto simp: events_inv_def)
  have unmapped: "s_pin_slot ev ! p \<noteq> slot" if "p < 32" "armed_lines (s_evt ev ! ?i) = {}" for p
    using inv ok that unfolding events_inv_def slot_ok_def by (metis empty_iff not_one_le_zero zero_le_numeral
        neg_0_le_iff_le le_minus_one_simps(1))
  show E: "e_task (s_evt ev' ! ?i) = 0" "pending (s_evt ev' ! ?i) = []" "armed_lines (s_evt ev' ! ?i) = {}"
    using ok i len by (auto simp: ev'_def mdl_events_disarm_slot_def Let_def drop_queue_def pending_def queue_idx_def)
  show J: "s_evt ev' ! j = s_evt ev ! j" if "j < MAX_SLOTS" "int j \<noteq> slot" for j
  proof -
    have "nat slot \<noteq> j" using that(2) i(2) by auto
    then show ?thesis using ok by (simp add: ev'_def mdl_events_disarm_slot_def Let_def)
  qed
  show P: "s_pin_slot ev' ! p = (if s_pin_slot ev ! p = slot then -1 else s_pin_slot ev ! p)" if "p < 32" for p
    using ok that len unmapped [OF that] by (auto simp: ev'_def mdl_events_disarm_slot_def Let_def)
  have X: "exint_on ev' = exint_on ev - armed_lines (s_evt ev ! ?i)"
    using ok by (auto simp: ev'_def mdl_events_disarm_slot_def Let_def)
  then show "armed_lines (s_evt ev ! nat slot) \<inter> exint_on ev' = {}" by blast
  show "armed_lines (s_evt ev' ! j) \<subseteq> exint_on ev'"
    if "j < MAX_SLOTS" "int j \<noteq> slot" "armed_lines (s_evt ev ! j) \<subseteq> exint_on ev" for j
    using J [OF that(1,2)] X that(3) armed_disjoint [OF inv that(1) i(1)] i(2) that(2) by auto
  have len': "length (s_evt ev') = 4" "length (s_pin_slot ev') = 32"
    using len ok by (auto simp: ev'_def mdl_events_disarm_slot_def Let_def)
  show "events_inv ev'"
    unfolding events_inv_def
  proof (intro conjI allI impI ballI)
    fix p assume p: "p < (32 :: nat)"
    consider "s_pin_slot ev ! p = slot" | "s_pin_slot ev ! p = -1"
      | "s_pin_slot ev ! p \<noteq> slot" "slot_ok (s_pin_slot ev ! p)"
        "\<exists>l. host_gpio_exti_info (int p) = Some l \<and> l \<in> armed_lines (s_evt ev ! nat (s_pin_slot ev ! p))"
      using inv p unfolding events_inv_def by blast
    then show "s_pin_slot ev' ! p = -1 \<or> (slot_ok (s_pin_slot ev' ! p) \<and>
        (\<exists>l. host_gpio_exti_info (int p) = Some l \<and> l \<in> armed_lines (s_evt ev' ! nat (s_pin_slot ev' ! p))))"
    proof cases
      case 3
      then have "nat (s_pin_slot ev ! p) < 4" "int (nat (s_pin_slot ev ! p)) \<noteq> slot" by (auto simp: slot_ok_def)
      then show ?thesis using 3 P [OF p] J [of "nat (s_pin_slot ev ! p)"] by simp
    qed (use P [OF p] in auto)
  next
    fix j l assume j: "j < (4 :: nat)" "l \<in> armed_lines (s_evt ev' ! j)"
    have ne: "int j \<noteq> slot" using E(3) j(2) i(2) by auto
    then have "l \<in> armed_lines (s_evt ev ! j)" using J j by simp
    then obtain p where "p < 32" "host_gpio_exti_info (int p) = Some l" "s_pin_slot ev ! p = int j"
      using inv j(1) unfolding events_inv_def by blast
    then show "\<exists>p < 32. host_gpio_exti_info (int p) = Some l \<and> s_pin_slot ev' ! p = int j" using P ne by auto
  qed (use len' in auto)
qed

text \<open>Reclaiming one slot silences it completely and takes nothing from the others. Afterwards its
  queue is empty, its task handle gone, its lines disabled and no pin maps to it, so an interrupt on any
  pin neither reaches its queue nor wakes anybody for it; the queues, pins and enabled lines of every other
  slot are what they were.\<close>

theorem disarm_slot_isolated:
  assumes "events_inv ev" "slot_ok slot"
  shows "let ev' = mdl_events_disarm_slot slot ev in
    events_inv ev' \<and> pending (s_evt ev' ! nat slot) = [] \<and> e_task (s_evt ev' ! nat slot) = 0
    \<and> armed_lines (s_evt ev ! nat slot) \<inter> exint_on ev' = {}
    \<and> (\<forall>pin hw now cycles. s_evt (gpio_isr pin hw now cycles ev') ! nat slot = s_evt ev' ! nat slot)
    \<and> (\<forall>j < MAX_SLOTS. int j \<noteq> slot \<longrightarrow> s_evt ev' ! j = s_evt ev ! j
         \<and> (armed_lines (s_evt ev ! j) \<subseteq> exint_on ev \<longrightarrow> armed_lines (s_evt ev' ! j) \<subseteq> exint_on ev'))
    \<and> (\<forall>p < 32. s_pin_slot ev ! p \<noteq> slot \<longrightarrow> s_pin_slot ev' ! p = s_pin_slot ev ! p)"
proof -
  let ?ev' = "mdl_events_disarm_slot slot ev"
  note D = events_inv_disarm [OF assms]
  have "s_evt (gpio_isr pin hw now cycles ?ev') ! nat slot = s_evt ?ev' ! nat slot" for pin hw now cycles
  proof -
    have other: "s_evt (post_from_isr k src sid pl n c ?ev') ! nat slot = s_evt ?ev' ! nat slot"
      if "k \<noteq> slot" for k src sid pl n c
      using that assms(2) by (auto simp: post_from_isr_def wake_def upd_slot_def slot_ok_def nth_list_update)
    show ?thesis
    proof (cases "0 \<le> pin \<and> pin < 32")
      case True
      have "s_pin_slot ?ev' ! nat pin \<noteq> slot"
      proof -
        have "s_pin_slot ?ev' ! nat pin = (if s_pin_slot ev ! nat pin = slot then -1 else s_pin_slot ev ! nat pin)"
          by (rule D(6)) (use True in auto)
        then show ?thesis using assms(2) by (simp add: slot_ok_def split: if_splits)
      qed
      then show ?thesis using other True by (simp add: gpio_isr_def)
    next
      case False
      have "(-1 :: int) \<noteq> slot" using assms(2) by (auto simp: slot_ok_def)
      have "gpio_isr pin hw now cycles ?ev' = post_from_isr (-1) EVT_GPIO (word_of_int pin)
          (word_of_int (host_gpio_direct_get pin hw)) now cycles ?ev'"
        using False by (simp only: gpio_isr_def if_False)
      then show ?thesis using other [OF \<open>-1 \<noteq> slot\<close>] by simp
    qed
  qed
  then show ?thesis using D by (simp add: Let_def)
qed

text \<open>Events come out in order and only to the module they belong to. A task's \<open>take\<close> returns the
  oldest waiting event of its own slot and leaves every other slot's queue as it is; a task that is no
  module's gets nothing; and over any history of appended and taken events what was delivered is
  the beginning of what was accepted, with at most \<open>depth\<close> still to come.\<close>

theorem take_own_queue_in_order:
  assumes "queue_inv q" "pending q = []" "run_queue try_enqueue dequeue ops q = (accepted, taken, q')"
  shows "taken = take (length taken) accepted \<and> length accepted - length taken \<le> e_depth q
    \<and> (case mdl_events_take me ms ev of (r, ev') \<Rightarrow>
         (case mdl_caller_slot me ms of
            None \<Rightarrow> r = None \<and> ev' = ev
          | Some i \<Rightarrow> r = fst (dequeue (s_evt ev ! i)) \<and> (\<forall>j. j \<noteq> i \<longrightarrow> s_evt ev' ! j = s_evt ev ! j)))"
  using evq.delivered_prefix [OF assms]
  by (auto simp: mdl_events_take_def split: option.splits prod.splits)

section \<open>Concrete instances\<close>

abbreviation zero_event :: event where
  "zero_event \<equiv> \<lparr>e_source = 0, e_id = 0, e_coalesced = 0, e_payload = 0, e_tick = 0, e_cycles = 0\<rparr>"

abbreviation zero_evt_slot :: evt_slot where
  "zero_evt_slot \<equiv> \<lparr>eq_buf = replicate 16 zero_event, e_head = 0, e_tail = 0, e_count = 0, e_depth = 16, delivered = 0,
     lost = 0, coalesced = 0, declared_hz = 0, window_start = 0, window_count = 0, peak_hz = 0, e_task = 0, armed_lines = {}\<rparr>"

definition ev0 :: events where
  "ev0 = mdl_events_init \<lparr>s_evt = replicate 4 zero_evt_slot, s_pin_slot = replicate 32 0, exint_on = {}, nvic_on = {}, woken = []\<rparr>"

lemma ev0_slots: "s_evt ev0 = replicate 4 zero_evt_slot" "s_pin_slot ev0 = replicate 32 (-1)"
  by (simp_all add: ev0_def mdl_events_init_def drop_queue_def)

lemma ev0_inv: "events_inv ev0"
  by (simp add: events_inv_def ev0_slots)

theorem post_from_isr_refines_witness:
  "pending (s_evt (post_from_isr 1 EVT_GPIO 2 1 5 7 ev0) ! 1) =
     [\<lparr>e_source = EVT_GPIO, e_id = 2, e_coalesced = 1, e_payload = 1, e_tick = 5, e_cycles = 7\<rparr>]"
proof -
  have q: "queue_inv (s_evt ev0 ! nat 1)" "pending (s_evt ev0 ! 1) = []" "e_count (s_evt ev0 ! 1) < e_depth (s_evt ev0 ! 1)"
    by (simp_all add: ev0_slots queue_inv_def pending_def queue_idx_def)
  have "slot_ok 1" "length (s_evt ev0) = 4" by (simp_all add: slot_ok_def ev0_slots)
  from post_from_isr_refines [OF q(1) this, of EVT_GPIO 2 1 5 7] q(2,3) show ?thesis by (simp add: Let_def)
qed

theorem events_accounted_witness:
  "case exec_evops [Isr 1 2 0 5 7, Isr 1 2 1 6 8, Console 7 9, Take] (0, reset_slot 1 10 42 0 zero_evt_slot) of (n, e) \<Rightarrow>
    of_nat n = delivered e + lost e + coalesced e + of_nat (length (pending e))"
  using events_accounted [of zero_evt_slot "[Isr 1 2 0 5 7, Isr 1 2 1 6 8, Console 7 9, Take]" 1 10 42 0]
  by (simp split: prod.splits)

theorem disarm_slot_isolated_witness:
  "let ev1 = snd (mdl_events_arm_gpio 1 2 3 ev0); ev2 = mdl_events_disarm_slot 1 ev1
   in s_pin_slot ev1 ! 2 = 1 \<and> events_inv ev2 \<and> pending (s_evt ev2 ! 1) = []"
proof -
  let ?ev1 = "snd (mdl_events_arm_gpio 1 2 3 ev0)"
  have x: "host_gpio_exti_info 2 = Some 3"
    by (simp add: host_gpio_exti_info_def gpio_lookup_def g_gpio_whitelist_def)
  have e: "s_evt ?ev1 = (replicate 4 zero_evt_slot)[1 := zero_evt_slot\<lparr>armed_lines := {3}\<rparr>]"
    "s_pin_slot ?ev1 = (replicate 32 (-1))[2 := 1]"
    using x by (simp_all add: mdl_events_arm_gpio_def slot_ok_def upd_slot_def ev0_slots)
  have "events_inv ?ev1"
    unfolding events_inv_def e using x
    by (auto simp: nth_list_update slot_ok_def intro!: exI [of _ 2])
  then show ?thesis using disarm_slot_isolated [of ?ev1 1] e by (simp add: Let_def slot_ok_def)
qed

theorem take_own_queue_in_order_witness:
  "case run_queue try_enqueue dequeue [Put zero_event, Get] zero_evt_slot of (a, t, q) \<Rightarrow> t = take (length t) a"
proof -
  obtain a t q where r: "run_queue try_enqueue dequeue [Put zero_event, Get] zero_evt_slot = (a, t, q)"
    by (cases "run_queue try_enqueue dequeue [Put zero_event, Get] zero_evt_slot")
  have "queue_inv zero_evt_slot" "pending zero_evt_slot = []" by (simp_all add: queue_inv_def pending_def queue_idx_def)
  from take_own_queue_in_order [OF this r, where ev = ev0 and me = 0 and ms = "[]"] show ?thesis unfolding r by simp
qed

end
