(* ===== verification/Host_Api.thy ===== *)
theory Host_Api
  imports Arena Host_Gpio "HOL-Library.Monad_Syntax"
begin

text \<open>
  \<open>src/mdl/host/host_api.c\<close> without its GPIO part: the privilege gate around every
  call, the check that a pointer lies in the calling module's own memory, the log,
  the clock calls that feed the watchdog, the per-module heap (a bump pointer and a
  free list threaded through module memory), and the decimal parser.
\<close>

section \<open>The state a gated call sees\<close>

text \<open>\<open>me\<close> is the running task, \<open>tick\<close> the kernel's tick count, \<open>cyccnt\<close> the DWT cycle
  counter, \<open>privileged\<close> the mode the processor is in.\<close>

record host =
  h_slots :: slots
  h_mem :: mem
  me :: nat
  tick :: u32
  cyccnt :: u32
  privileged :: bool

text \<open>\<open>xPortRaisePrivilege\<close> returns whether the caller was privileged; \<open>vPortResetPrivilege\<close> drops the
  privilege unless it was.\<close>

definition xPortRaisePrivilege :: "'a host_scheme \<Rightarrow> bool \<times> 'a host_scheme" where
  "xPortRaisePrivilege s = (privileged s, s\<lparr>privileged := True\<rparr>)"

definition vPortResetPrivilege :: "bool \<Rightarrow> 'a host_scheme \<Rightarrow> 'a host_scheme" where
  "vPortResetPrivilege was s = (if was then s else s\<lparr>privileged := False\<rparr>)"

definition upd_module :: "nat \<Rightarrow> (module \<Rightarrow> module) \<Rightarrow> 'a host_scheme \<Rightarrow> 'a host_scheme" where
  "upd_module i f s = s\<lparr>h_slots := (h_slots s)[i := f (h_slots s ! i)]\<rparr>"

definition caller :: "'a host_scheme \<Rightarrow> nat option" where
  "caller s = mdl_caller_slot (me s) (h_slots s)"

definition feed_watchdog :: "'a host_scheme \<Rightarrow> 'a host_scheme" where
  "feed_watchdog s = (case caller s of None \<Rightarrow> s
     | Some i \<Rightarrow> upd_module i (\<lambda>m. m\<lparr>last_active_tick := tick s\<rparr>) s)"

text \<open>The shape of every gated entry: \<open>body\<close> runs privileged, between the two port calls.\<close>

definition syscall_gate :: "('a host_scheme \<Rightarrow> 'r \<times> 'a host_scheme) \<Rightarrow> 'a host_scheme \<Rightarrow> 'r \<times> 'a host_scheme" where
  "syscall_gate body s = (case xPortRaisePrivilege s of (was, s1) \<Rightarrow>
     case body s1 of (r, s2) \<Rightarrow> (r, vPortResetPrivilege was s2))"

text \<open>The same with the watchdog fed before returning, as the peripheral entries do.\<close>

definition fed_gate :: "('a host_scheme \<Rightarrow> 'r \<times> 'a host_scheme) \<Rightarrow> 'a host_scheme \<Rightarrow> 'r \<times> 'a host_scheme" where
  "fed_gate body = syscall_gate (\<lambda>s. case body s of (r, s') \<Rightarrow> (r, feed_watchdog s'))"

section \<open>Pointer validation\<close>

definition ptr_in_range :: "addr \<Rightarrow> nat \<Rightarrow> addr \<Rightarrow> addr \<Rightarrow> bool" where
  "ptr_in_range p len lo hi =
     (if sub32 hi lo < len then False else lo \<le> p \<and> p \<le> sub32 hi len)"

definition ptr_owned_by_module :: "'a host_scheme \<Rightarrow> addr \<Rightarrow> nat \<Rightarrow> bool" where
  "ptr_owned_by_module s p len =
     (if len = 0 then True
      else case caller s of None \<Rightarrow> False
        | Some i \<Rightarrow> let m = h_slots s ! i; stack_lo = add32 (hs_lo m) (HEAP_SIZE + GUARD_SIZE) in
            ptr_in_range p len (text_lo m) (text_hi m) \<or> ptr_in_range p len (data_lo m) (data_hi m)
            \<or> ptr_in_range p len (hs_lo m) (add32 (hs_lo m) HEAP_SIZE)
            \<or> ptr_in_range p len stack_lo (hs_hi m))"

definition host_ptr_owned_by_module :: "'a host_scheme \<Rightarrow> addr \<Rightarrow> nat \<Rightarrow> bool" where
  "host_ptr_owned_by_module s p len = ptr_owned_by_module s p len"

section \<open>Log\<close>

abbreviation LOG_MAX_LEN :: nat where "LOG_MAX_LEN \<equiv> 127"

text \<open>The copy loop from index \<open>LOG_MAX_LEN - k\<close> on; the result is what \<open>buf\<close> gets.\<close>

fun log_copy :: "'a host_scheme \<Rightarrow> addr \<Rightarrow> nat \<Rightarrow> u8 list" where
  "log_copy s p 0 = []"
| "log_copy s p (Suc k) =
     (if ptr_owned_by_module s p 1 \<and> h_mem s p \<noteq> 0 then h_mem s p # log_copy s (add32 p 1) k else [])"

definition host_log_impl :: "addr \<Rightarrow> 'a host_scheme \<Rightarrow> u8 list + string" where
  "host_log_impl msg s =
     (if \<not> ptr_owned_by_module s msg 1 then Inr ''[host] log() rejected: msg not in module's own memory''
      else Inl (log_copy s msg LOG_MAX_LEN))"

definition host_log :: "addr \<Rightarrow> 'a host_scheme \<Rightarrow> (u8 list + string) \<times> 'a host_scheme" where
  "host_log msg = syscall_gate (\<lambda>s. (host_log_impl msg s, s))"

section \<open>Clock and watchdog\<close>

definition host_uptime_ms :: "'a host_scheme \<Rightarrow> u32 \<times> 'a host_scheme" where
  "host_uptime_ms = syscall_gate (\<lambda>s. (tick s, s))"

definition host_cycles :: "'a host_scheme \<Rightarrow> u32 \<times> 'a host_scheme" where
  "host_cycles = syscall_gate (\<lambda>s. (cyccnt s, s))"

definition host_watchdog_feed :: "'a host_scheme \<Rightarrow> unit \<times> 'a host_scheme" where
  "host_watchdog_feed = syscall_gate (\<lambda>s. ((), feed_watchdog s))"

text \<open>
  \<open>host_delay_ms\<close> blocks in the middle, so it is two parts with other tasks between them:
  the park, whose result is the pointer \<open>parked\<close>, and the wake-up.
\<close>

definition delay_park :: "u32 \<Rightarrow> 'a host_scheme \<Rightarrow> nat option \<times> 'a host_scheme" where
  "delay_park ms = syscall_gate (\<lambda>s. (caller s, case caller s of None \<Rightarrow> s
     | Some i \<Rightarrow> upd_module i (\<lambda>m. m\<lparr>parked_until_tick := tick s + ms + 1\<rparr>) s))"

definition delay_wake :: "nat option \<Rightarrow> 'a host_scheme \<Rightarrow> unit \<times> 'a host_scheme" where
  "delay_wake parked = syscall_gate (\<lambda>s. ((), feed_watchdog (case parked of None \<Rightarrow> s
     | Some i \<Rightarrow> upd_module i (\<lambda>m. m\<lparr>parked_until_tick := 0\<rparr>) s)))"

text \<open>\<open>others\<close> is what the rest of the system does to the state while this task is blocked.\<close>

definition host_delay_ms :: "('a host_scheme \<Rightarrow> 'a host_scheme) \<Rightarrow> u32 \<Rightarrow> 'a host_scheme \<Rightarrow> unit \<times> 'a host_scheme" where
  "host_delay_ms others ms s = (case delay_park ms s of (parked, s1) \<Rightarrow> delay_wake parked (others s1))"

section \<open>The module heap\<close>

abbreviation BLK_HDR_SIZE :: nat where "BLK_HDR_SIZE \<equiv> 8"
abbreviation ARGBLOCK_SIZE :: nat where "ARGBLOCK_SIZE \<equiv> 128"

text \<open>\<open>struct free_block\<close>: the link at offset 0, the usable size at offset 4.\<close>

definition blk_next :: "mem \<Rightarrow> addr \<Rightarrow> addr" where
  "blk_next m b = unat (ld32 m b)"

definition blk_size :: "mem \<Rightarrow> addr \<Rightarrow> u32" where
  "blk_size m b = ld32 m (b + 4)"

definition host_api_pool_reset :: "module \<Rightarrow> module" where
  "host_api_pool_reset m = m\<lparr>pool_next := add32 (hs_lo m) ARGBLOCK_SIZE, pool_end := add32 (hs_lo m) HEAP_SIZE,
     free_list := 0\<rparr>"

text \<open>
  The search: \<open>prev\<close> is the block whose link is being followed, 0 standing for the
  local \<open>head\<close>. \<open>None\<close> is a search that never ends, which a cyclic list gives.
\<close>

partial_function (option) first_fit :: "mem \<Rightarrow> u32 \<Rightarrow> addr \<Rightarrow> addr \<Rightarrow> (addr \<times> addr) option option" where
  "first_fit m n prev b =
     (if b = 0 then Some None
      else if n \<le> blk_size m b then Some (Some (prev, b))
      else first_fit m n b (blk_next m b))"

definition round8 :: "u32 \<Rightarrow> u32" where
  "round8 n = (n + 7) AND NOT 7"

definition host_alloc_impl :: "u32 \<Rightarrow> 'a host_scheme \<Rightarrow> (addr \<times> 'a host_scheme) option" where
  "host_alloc_impl n0 s =
     (if n0 = 0 then Some (0, s)
      else let n = round8 n0 in
        case caller s of None \<Rightarrow> Some (0, s)
        | Some i \<Rightarrow> let m = h_slots s ! i in
            case first_fit (h_mem s) n 0 (free_list m) of
              None \<Rightarrow> None
            | Some (Some (prev, b)) \<Rightarrow> Some (add32 b BLK_HDR_SIZE,
                if prev = 0 then upd_module i (\<lambda>m. m\<lparr>free_list := blk_next (h_mem s) b\<rparr>) s
                else s\<lparr>h_mem := st32 prev (of_nat (blk_next (h_mem s) b)) (h_mem s)\<rparr>)
            | Some None \<Rightarrow>
                if sub32 (pool_end m) (pool_next m) < unat (n + of_nat BLK_HDR_SIZE) then Some (0, s)
                else let nb = pool_next m in Some (add32 nb BLK_HDR_SIZE,
                  upd_module i (\<lambda>m. m\<lparr>pool_next := add32 nb (unat (n + of_nat BLK_HDR_SIZE))\<rparr>)
                    (s\<lparr>h_mem := st32 (nb + 4) n (st32 nb 0 (h_mem s))\<rparr>)))"

definition host_free_impl :: "addr \<Rightarrow> 'a host_scheme \<Rightarrow> 'a host_scheme" where
  "host_free_impl p s =
     (if p = 0 then s
      else case caller s of None \<Rightarrow> s
      | Some i \<Rightarrow> let m = h_slots s ! i; hdr = sub32 p BLK_HDR_SIZE in
          if hdr < hs_lo m \<or> \<not> ptr_in_range hdr BLK_HDR_SIZE (hs_lo m) (add32 (hs_lo m) HEAP_SIZE) then s
          else upd_module i (\<lambda>m. m\<lparr>free_list := hdr\<rparr>) (s\<lparr>h_mem := st32 hdr (of_nat (free_list m)) (h_mem s)\<rparr>))"

text \<open>A gate around a body that may not return.\<close>

definition host_alloc :: "u32 \<Rightarrow> 'a host_scheme \<Rightarrow> (addr \<times> 'a host_scheme) option" where
  "host_alloc n s = (case xPortRaisePrivilege s of (was, s1) \<Rightarrow>
     do { (r, s2) \<leftarrow> host_alloc_impl n s1; Some (r, vPortResetPrivilege was s2) })"

definition host_free :: "addr \<Rightarrow> 'a host_scheme \<Rightarrow> unit \<times> 'a host_scheme" where
  "host_free p = syscall_gate (\<lambda>s. ((), host_free_impl p s))"

section \<open>Decimal arguments\<close>

definition is_digit :: "u8 \<Rightarrow> bool" where
  "is_digit c \<longleftrightarrow> 0x30 \<le> c \<and> c \<le> 0x39"

text \<open>
  One step of \<open>v = v * 10 + (s[i] - '0')\<close> on a 32-bit \<open>long\<close>: \<open>None\<close> is a signed overflow,
  which C leaves undefined. The test for saturation follows, \<open>Inl\<close> being the \<open>break\<close>.
\<close>

definition atoi_step :: "int \<Rightarrow> u8 \<Rightarrow> (int + int) option" where
  "atoi_step v c = (let v' = v * 10 + (uint c - 0x30) in
     if 2 ^ 31 \<le> v' then None
     else if 2147483647 < v' then Some (Inl 2147483647) else Some (Inr v'))"

text \<open>The digit loop: \<open>None\<close> would be a loop that does not end, \<open>Some None\<close> an undefined step.\<close>

partial_function (option) atoi_loop :: "'a host_scheme \<Rightarrow> addr \<Rightarrow> int \<Rightarrow> int option option" where
  "atoi_loop s p v =
     (if ptr_owned_by_module s p 1 \<and> is_digit (h_mem s p) then
        case atoi_step v (h_mem s p) of
          None \<Rightarrow> Some None
        | Some (Inl w) \<Rightarrow> Some (Some w)
        | Some (Inr w) \<Rightarrow> atoi_loop s (add32 p 1) w
      else Some (Some v))"

definition host_atoi_impl :: "addr \<Rightarrow> 'a host_scheme \<Rightarrow> int option option" where
  "host_atoi_impl p s =
     (if \<not> ptr_owned_by_module s p 1 then Some (Some 0)
      else let c = h_mem s p; signed = (c = 0x2D \<or> c = 0x2B) in
        map_option (map_option (\<lambda>v. (if c = 0x2D then - 1 else 1) * v))
          (atoi_loop s (if signed then add32 p 1 else p) 0))"

definition host_atoi :: "addr \<Rightarrow> 'a host_scheme \<Rightarrow> (int option \<times> 'a host_scheme) option" where
  "host_atoi p s = (case xPortRaisePrivilege s of (was, s1) \<Rightarrow>
     do { r \<leftarrow> host_atoi_impl p s1; Some (r, vPortResetPrivilege was s1) })"

section \<open>Boot\<close>

text \<open>\<open>host_api_init\<close>: start the cycle counter and configure the whitelisted pins.\<close>

definition host_api_init :: "'a host_scheme \<times> gpio_hw \<Rightarrow> 'a host_scheme \<times> gpio_hw" where
  "host_api_init st = (case st of (s, hw) \<Rightarrow> (s\<lparr>cyccnt := 0\<rparr>, gpio_whitelist_init hw))"

section \<open>The pointer check\<close>

text \<open>The regions of a slot are ordered and end below the top of the address space.\<close>

definition bounds_ok :: "module \<Rightarrow> bool" where
  "bounds_ok m \<longleftrightarrow> text_lo m \<le> text_hi m \<and> text_hi m < 2 ^ 32 \<and> data_lo m \<le> data_hi m \<and> data_hi m < 2 ^ 32
     \<and> hs_hi m = hs_lo m + HEAPSTACK_BYTES \<and> hs_hi m < 2 ^ 32"

text \<open>What a module may name in a call: its code, its data, its heap and its stack.\<close>

definition user_regions :: "module \<Rightarrow> region set" where
  "user_regions m = {(text_lo m, text_hi m), (data_lo m, data_hi m), (hs_lo m, hs_lo m + HEAP_SIZE),
     (hs_lo m + HEAP_SIZE + GUARD_SIZE, hs_hi m)}"

lemma ptr_in_range_iff:
  assumes "lo \<le> hi" "hi < 2 ^ 32"
  shows "ptr_in_range p len lo hi = (lo \<le> p \<and> p + len \<le> hi)"
  using assms by (auto simp: ptr_in_range_def)

lemma ptr_owned_iff:
  assumes "\<And>i. caller s = Some i \<Longrightarrow> bounds_ok (h_slots s ! i)" "0 < len"
  shows "ptr_owned_by_module s p len =
    (\<exists>i. caller s = Some i \<and> (\<exists>(lo, hi) \<in> user_regions (h_slots s ! i). lo \<le> p \<and> p + len \<le> hi))"
proof (cases "caller s")
  case None
  then show ?thesis using assms(2) by (simp add: ptr_owned_by_module_def)
next
  case (Some i)
  let ?m = "h_slots s ! i"
  have b: "text_lo ?m \<le> text_hi ?m" "text_hi ?m < 2 ^ 32" "data_lo ?m \<le> data_hi ?m" "data_hi ?m < 2 ^ 32"
    "hs_hi ?m = hs_lo ?m + HEAPSTACK_BYTES" "hs_hi ?m < 2 ^ 32"
    using assms(1) [OF Some] unfolding bounds_ok_def by blast+
  have add: "add32 (hs_lo ?m) HEAP_SIZE = hs_lo ?m + HEAP_SIZE"
    "add32 (hs_lo ?m) (HEAP_SIZE + GUARD_SIZE) = hs_lo ?m + HEAP_SIZE + GUARD_SIZE"
    using b(5,6) by simp_all
  have r: "ptr_in_range p len (text_lo ?m) (text_hi ?m) = (text_lo ?m \<le> p \<and> p + len \<le> text_hi ?m)"
    "ptr_in_range p len (data_lo ?m) (data_hi ?m) = (data_lo ?m \<le> p \<and> p + len \<le> data_hi ?m)"
    "ptr_in_range p len (hs_lo ?m) (hs_lo ?m + HEAP_SIZE) = (hs_lo ?m \<le> p \<and> p + len \<le> hs_lo ?m + HEAP_SIZE)"
    "ptr_in_range p len (hs_lo ?m + HEAP_SIZE + GUARD_SIZE) (hs_hi ?m) =
      (hs_lo ?m + HEAP_SIZE + GUARD_SIZE \<le> p \<and> p + len \<le> hs_hi ?m)"
    using b by (simp_all add: ptr_in_range_iff)
  show ?thesis
    using Some assms(2) by (simp add: ptr_owned_by_module_def Let_def add [simplified] r [simplified] user_regions_def del: add32_small)
qed

definition caller_bounds_ok :: "'a host_scheme \<Rightarrow> bool" where
  "caller_bounds_ok s \<longleftrightarrow> (\<forall>i. caller s = Some i \<longrightarrow> i < length (h_slots s) \<and> arena_held (h_slots s ! i)
     \<and> bounds_ok (h_slots s ! i))"

lemma ptr_owned_caller:
  assumes "caller_bounds_ok s" "0 < len"
  shows "ptr_owned_by_module s p len =
    (\<exists>i. caller s = Some i \<and> (\<exists>(lo, hi) \<in> user_regions (h_slots s ! i). lo \<le> p \<and> p + len \<le> hi))"
  by (rule ptr_owned_iff) (use assms in \<open>auto simp: caller_bounds_ok_def\<close>)

lemma ptr_owned_small:
  assumes "caller_bounds_ok s" "ptr_owned_by_module s p len" "0 < len"
  shows "p + len < 2 ^ 32"
proof -
  obtain i lo hi where i: "caller s = Some i" "(lo, hi) \<in> user_regions (h_slots s ! i)" "p + len \<le> hi"
    using ptr_owned_caller [OF assms(1,3), of p] assms(2) by blast
  have "bounds_ok (h_slots s ! i)" using assms(1) i(1) by (simp add: caller_bounds_ok_def)
  then have "hi < 2 ^ 32" using i(2) by (auto simp: bounds_ok_def user_regions_def)
  then show ?thesis using i(3) by simp
qed

text \<open>Every region a module may name lies in one of the blocks its slot holds.\<close>

lemma user_region_inside:
  assumes "arena_held m" "bounds_ok m" "(lo, hi) \<in> user_regions m"
  shows "\<exists>l h. (l, h) \<in> set (regions_of m) \<and> l \<le> lo \<and> hi \<le> h"
proof -
  have r: "(text_lo m, text_hi m) \<in> set (regions_of m)" "(data_lo m, data_hi m) \<in> set (regions_of m)"
    "(hs_lo m, hs_hi m) \<in> set (regions_of m)" using assms(1) by (simp_all add: regions_of_def)
  from assms(3) consider "lo = text_lo m" "hi = text_hi m" | "lo = data_lo m" "hi = data_hi m"
    | "hs_lo m \<le> lo" "hi \<le> hs_hi m"
    using assms(2) by (auto simp: user_regions_def bounds_ok_def)
  then show ?thesis using r by cases blast+
qed

lemma own_regions_disjoint:
  assumes "arena_inv ms st" "i < length ms" "arena_held (ms ! i)"
  shows "{text_lo (ms ! i) ..< text_hi (ms ! i)} \<inter> {hs_lo (ms ! i) ..< hs_hi (ms ! i)} = {}"
    "{data_lo (ms ! i) ..< data_hi (ms ! i)} \<inter> {hs_lo (ms ! i) ..< hs_hi (ms ! i)} = {}"
    "{text_lo (ms ! i) ..< text_hi (ms ! i)} \<inter> {data_lo (ms ! i) ..< data_hi (ms ! i)} = {}"
proof -
  have "distinct (regions_of (ms ! i))"
    using arena_inv_distinct [OF assms(1)] assms(2) by (auto simp: distinct_concat_iff)
  then have ne: "(text_lo (ms ! i), text_hi (ms ! i)) \<noteq> (hs_lo (ms ! i), hs_hi (ms ! i))"
    "(data_lo (ms ! i), data_hi (ms ! i)) \<noteq> (hs_lo (ms ! i), hs_hi (ms ! i))"
    "(text_lo (ms ! i), text_hi (ms ! i)) \<noteq> (data_lo (ms ! i), data_hi (ms ! i))"
    using assms(3) by (simp_all add: regions_of_def)
  have live: "r \<in> live_regions st" if "r \<in> set (regions_of (ms ! i))" for r
    using arena_inv_live [OF assms(1) nth_mem [OF assms(2)] that] .
  have ok: "buddy_ok st" using assms(1) by (simp add: arena_inv_def)
  note d = live_regions_disjoint [OF ok]
  show "{text_lo (ms ! i) ..< text_hi (ms ! i)} \<inter> {hs_lo (ms ! i) ..< hs_hi (ms ! i)} = {}"
    by (rule d [OF live live ne(1)]) (use assms(3) in \<open>simp_all add: regions_of_def\<close>)
  show "{data_lo (ms ! i) ..< data_hi (ms ! i)} \<inter> {hs_lo (ms ! i) ..< hs_hi (ms ! i)} = {}"
    by (rule d [OF live live ne(2)]) (use assms(3) in \<open>simp_all add: regions_of_def\<close>)
  show "{text_lo (ms ! i) ..< text_hi (ms ! i)} \<inter> {data_lo (ms ! i) ..< data_hi (ms ! i)} = {}"
    by (rule d [OF live live ne(3)]) (use assms(3) in \<open>simp_all add: regions_of_def\<close>)
qed

text \<open>C22: a buffer the host accepts is the caller's and nobody else's. When the slots' regions are the
  allocator's live blocks, the check accepts a non-empty range exactly when it lies inside the caller's
  code, data, heap or stack; an accepted range misses the guard band and every byte of every other
  module's memory; and a task that is no module's has no buffer accepted.\<close>

theorem ptr_owned_confined:
  assumes "arena_inv (h_slots s) st" "caller_bounds_ok s" "0 < len" "ptr_owned_by_module s p len"
  shows "\<exists>i. caller s = Some i
    \<and> (\<exists>(lo, hi) \<in> user_regions (h_slots s ! i). lo \<le> p \<and> p + len \<le> hi)
    \<and> (\<forall>j < length (h_slots s). j \<noteq> i \<longrightarrow>
         (\<forall>(l, h) \<in> set (regions_of (h_slots s ! j)). {p ..< p + len} \<inter> {l ..< h} = {}))
    \<and> {p ..< p + len} \<inter> {hs_lo (h_slots s ! i) + HEAP_SIZE ..< hs_lo (h_slots s ! i) + HEAP_SIZE + GUARD_SIZE} = {}"
proof -
  obtain i lo hi where i: "caller s = Some i" "(lo, hi) \<in> user_regions (h_slots s ! i)" "lo \<le> p" "p + len \<le> hi"
    using ptr_owned_caller [OF assms(2,3), of p] assms(4) by blast
  let ?m = "h_slots s ! i"
  have m: "i < length (h_slots s)" "arena_held ?m" "bounds_ok ?m"
    using assms(2) i(1) by (simp_all add: caller_bounds_ok_def)
  obtain l h where lh: "(l, h) \<in> set (regions_of ?m)" "l \<le> lo" "hi \<le> h"
    using user_region_inside [OF m(2,3) i(2)] by blast
  have sub: "{p ..< p + len} \<subseteq> {l ..< h}" using i lh by auto
  have other: "{p ..< p + len} \<inter> {c ..< d} = {}"
    if "j < length (h_slots s)" "j \<noteq> i" "(c, d) \<in> set (regions_of (h_slots s ! j))" for j c d
    using arena_inv_isolation [OF assms(1) m(1) that(1) that(2) [symmetric] lh(1) that(3)] sub by blast
  have hs: "(hs_lo ?m, hs_hi ?m) \<in> set (regions_of ?m)" using m(2) by (simp add: regions_of_def)
  have guard: "{p ..< p + len} \<inter> {hs_lo ?m + HEAP_SIZE ..< hs_lo ?m + HEAP_SIZE + GUARD_SIZE} = {}"
  proof -
    note d = own_regions_disjoint [OF assms(1) m(1,2)]
    have "hs_lo ?m + HEAP_SIZE + GUARD_SIZE \<le> hs_hi ?m" using m(3) by (simp add: bounds_ok_def)
    then have g: "{hs_lo ?m + HEAP_SIZE ..< hs_lo ?m + HEAP_SIZE + GUARD_SIZE} \<subseteq> {hs_lo ?m ..< hs_hi ?m}" by auto
    from i(2) consider "lo = text_lo ?m" "hi = text_hi ?m" | "lo = data_lo ?m" "hi = data_hi ?m"
      | "hi = hs_lo ?m + HEAP_SIZE" | "lo = hs_lo ?m + HEAP_SIZE + GUARD_SIZE"
      by (auto simp: user_regions_def)
    then show ?thesis
    proof cases
      case 1
      have "{p ..< p + len} \<subseteq> {text_lo ?m ..< text_hi ?m}" using 1 i by auto
      then show ?thesis using d(1) g by blast
    next
      case 2
      have "{p ..< p + len} \<subseteq> {data_lo ?m ..< data_hi ?m}" using 2 i by auto
      then show ?thesis using d(2) g by blast
    qed (use i in auto)
  qed
  show ?thesis using i other guard by blast
qed

section \<open>The log\<close>

lemma log_copy_spec:
  assumes "caller_bounds_ok s"
  shows "let bs = log_copy s p k in length bs \<le> k
    \<and> (\<forall>j < length bs. ptr_owned_by_module s (p + j) 1 \<and> bs ! j = h_mem s (p + j) \<and> bs ! j \<noteq> 0)
    \<and> (length bs = k \<or> \<not> ptr_owned_by_module s (p + length bs) 1 \<or> h_mem s (p + length bs) = 0)"
proof (induction k arbitrary: p)
  case (Suc k)
  show ?case
  proof (cases "ptr_owned_by_module s p 1 \<and> h_mem s p \<noteq> 0")
    case True
    then have "add32 p 1 = p + 1" using ptr_owned_small [OF assms, of p 1] by simp
    then have eq: "log_copy s p (Suc k) = h_mem s p # log_copy s (p + 1) k" using True by simp
    show ?thesis unfolding eq Let_def using Suc.IH [of "p + 1"] True
      by (auto simp: Let_def nth_Cons less_Suc_eq_0_disj split: nat.split)
  qed auto
qed (simp add: Let_def)

text \<open>\<open>log\<close> cannot be used to read memory that is not the module's. What reaches the sink is at
  most 127 characters, each of them a non-NUL byte at its own address inside the caller's own memory,
  and the text stops at the limit, at a NUL or at the end of the region. A message that does not start in
  the module's memory is replaced by the host's own text, nothing is read, and either way the call
  leaves the state as it was.\<close>

theorem host_log_confined:
  assumes "caller_bounds_ok s"
  shows "case host_log_impl msg s of
      Inr err \<Rightarrow> \<not> ptr_owned_by_module s msg 1
    | Inl bs \<Rightarrow> length bs \<le> LOG_MAX_LEN
        \<and> (\<forall>j < length bs. ptr_owned_by_module s (msg + j) 1 \<and> bs ! j = h_mem s (msg + j) \<and> bs ! j \<noteq> 0)
        \<and> (length bs = LOG_MAX_LEN \<or> \<not> ptr_owned_by_module s (msg + length bs) 1 \<or> h_mem s (msg + length bs) = 0)"
  using log_copy_spec [OF assms, of msg LOG_MAX_LEN] by (auto simp: host_log_impl_def Let_def)

section \<open>Numbers\<close>

text \<open>The value of a string of decimal digits.\<close>

definition dec_value :: "int \<Rightarrow> u8 list \<Rightarrow> int" where
  "dec_value v ds = foldl (\<lambda>v c. v * 10 + (uint c - 0x30)) v ds"

lemma dec_value_simps [simp]:
  "dec_value v [] = v" "dec_value v (c # ds) = dec_value (v * 10 + (uint c - 0x30)) ds"
  by (simp_all add: dec_value_def)

lemma is_digit_uint: "is_digit c \<Longrightarrow> 0 \<le> uint c - 0x30 \<and> uint c - 0x30 \<le> 9"
  by (simp add: is_digit_def word_le_def)

lemma dec_value_ge: "0 \<le> v \<Longrightarrow> (\<forall>c \<in> set ds. is_digit c) \<Longrightarrow> v \<le> dec_value v ds"
proof (induction ds arbitrary: v)
  case (Cons c ds)
  have d: "0 \<le> uint c - 0x30" using Cons.prems(2) is_digit_uint by simp
  then have "v * 10 + (uint c - 0x30) \<le> dec_value (v * 10 + (uint c - 0x30)) ds"
    using Cons by simp
  then show ?case using d Cons.prems(1) by simp
qed simp

text \<open>The digits \<open>ds\<close> lie at \<open>p\<close> in memory the module may name, and no further digit follows.\<close>

definition digits_at :: "'a host_scheme \<Rightarrow> addr \<Rightarrow> u8 list \<Rightarrow> bool" where
  "digits_at s p ds \<longleftrightarrow> (\<forall>j < length ds. ptr_owned_by_module s (p + j) 1 \<and> h_mem s (p + j) = ds ! j \<and> is_digit (ds ! j))
     \<and> \<not> (ptr_owned_by_module s (p + length ds) 1 \<and> is_digit (h_mem s (p + length ds)))"

lemma digits_at_Cons:
  assumes "digits_at s p (c # ds)"
  shows "ptr_owned_by_module s p 1" "h_mem s p = c" "is_digit c" "digits_at s (p + 1) ds"
proof -
  have all: "ptr_owned_by_module s (p + j) 1 \<and> h_mem s (p + j) = (c # ds) ! j \<and> is_digit ((c # ds) ! j)"
    if "j < length (c # ds)" for j
    using assms that by (simp only: digits_at_def)
  show "ptr_owned_by_module s p 1" "h_mem s p = c" "is_digit c" using all [of 0] by simp_all
  show "digits_at s (p + 1) ds"
    unfolding digits_at_def
  proof (intro conjI allI impI)
    fix j
    assume "j < length ds"
    then show "ptr_owned_by_module s (p + 1 + j) 1" "h_mem s (p + 1 + j) = ds ! j" "is_digit (ds ! j)"
      using all [of "Suc j"] by simp_all
  qed (use assms in \<open>simp add: digits_at_def\<close>)
qed

lemma digits_at_all: "digits_at s p ds \<Longrightarrow> c \<in> set ds \<Longrightarrow> is_digit c"
  by (auto simp: digits_at_def in_set_conv_nth)

lemma atoi_loop_digits:
  assumes "caller_bounds_ok s" "digits_at s p ds" "0 \<le> v" "dec_value v ds < 2 ^ 31"
  shows "atoi_loop s p v = Some (Some (dec_value v ds))"
  using assms(2-)
proof (induction ds arbitrary: p v)
  case Nil
  then show ?case by (subst atoi_loop.simps) (auto simp: digits_at_def)
next
  case (Cons c ds)
  note d = digits_at_Cons [OF Cons.prems(1)]
  let ?w = "v * 10 + (uint c - 0x30)"
  have w: "0 \<le> ?w" using is_digit_uint [OF d(3)] Cons.prems(2) by simp
  have "\<forall>c \<in> set ds. is_digit c" using digits_at_all [OF Cons.prems(1)] by simp
  then have "?w \<le> dec_value ?w ds" by (rule dec_value_ge [OF w])
  then have "?w < 2 ^ 31" using Cons.prems(3) by simp
  then have step: "atoi_step v c = Some (Inr ?w)" by (simp add: atoi_step_def Let_def)
  have "add32 p 1 = p + 1" using ptr_owned_small [OF assms(1) d(1)] by simp
  then show ?case
    using Cons.IH [OF d(4) w] Cons.prems(3) step d(1-3) by (subst atoi_loop.simps) simp
qed

lemma atoi_loop_overflow:
  assumes "caller_bounds_ok s" "digits_at s p (ds @ rest)" "0 \<le> v" "dec_value v ds < 2 ^ 31" "rest = c # cs"
    "2 ^ 31 \<le> dec_value v (ds @ [c])"
  shows "atoi_loop s p v = Some None"
  using assms(2-)
proof (induction ds arbitrary: p v)
  case Nil
  note d = digits_at_Cons [OF Nil.prems(1) [unfolded append_Nil Nil.prems(4)]]
  have "atoi_step v c = None" using Nil.prems(5) by (simp add: atoi_step_def Let_def)
  then show ?case using d(1-3) by (subst atoi_loop.simps) simp
next
  case (Cons e ds)
  note d = digits_at_Cons [OF Cons.prems(1) [unfolded append_Cons]]
  let ?w = "v * 10 + (uint e - 0x30)"
  have w: "0 \<le> ?w" using is_digit_uint [OF d(3)] Cons.prems(2) by simp
  have "\<forall>c \<in> set ds. is_digit c" using digits_at_all [OF Cons.prems(1)] by simp
  then have "?w \<le> dec_value ?w ds" by (rule dec_value_ge [OF w])
  then have "?w < 2 ^ 31" using Cons.prems(3) by simp
  then have step: "atoi_step v e = Some (Inr ?w)" by (simp add: atoi_step_def Let_def)
  have "add32 p 1 = p + 1" using ptr_owned_small [OF assms(1) d(1)] by simp
  then show ?case
    using Cons.IH [OF d(4) w _ Cons.prems(4)] Cons.prems(3,5) step d(1-3) by (subst atoi_loop.simps) simp
qed

text \<open>\<open>atoi\<close> reads exactly the decimal number the module's memory holds: an optional sign, then
  digits, as far as memory of the module goes. For a magnitude below \<open>2 ^ 31\<close> the loop ends and the result is
  the number with its sign; the first digit that takes it to \<open>2 ^ 31\<close> or more is a signed overflow of the
  32-bit \<open>long\<close>, before the test for saturation is reached.\<close>

theorem host_atoi_value:
  assumes "caller_bounds_ok s" "ptr_owned_by_module s p 1" "h_mem s p \<in> {0x2D, 0x2B} \<longrightarrow> q = p + 1"
    "h_mem s p \<notin> {0x2D, 0x2B} \<longrightarrow> q = p" "digits_at s q ds"
  shows "(dec_value 0 ds < 2 ^ 31 \<longrightarrow>
      host_atoi_impl p s = Some (Some ((if h_mem s p = 0x2D then - 1 else 1) * dec_value 0 ds)))
    \<and> (\<forall>pre c cs. ds = pre @ c # cs \<and> dec_value 0 pre < 2 ^ 31 \<and> 2 ^ 31 \<le> dec_value 0 (pre @ [c]) \<longrightarrow>
        host_atoi_impl p s = Some None)"
proof -
  have p1: "add32 p 1 = p + 1" using ptr_owned_small [OF assms(1,2)] by simp
  have impl: "host_atoi_impl p s =
      map_option (map_option (\<lambda>v. (if h_mem s p = 0x2D then - 1 else 1) * v)) (atoi_loop s q 0)"
    using assms(2-4) p1 by (auto simp: host_atoi_impl_def Let_def mult_1_left [abs_def])
  have "host_atoi_impl p s = Some None"
    if "ds = pre @ c # cs" "dec_value 0 pre < 2 ^ 31" "2 ^ 31 \<le> dec_value 0 (pre @ [c])" for pre c cs
    using atoi_loop_overflow [OF assms(1), of q pre "c # cs" 0 c cs] assms(5) that impl by simp
  then show ?thesis using atoi_loop_digits [OF assms(1,5), of 0] impl by auto
qed

section \<open>Concrete instances\<close>

text \<open>A running module with its memory, and the text of a number at the start of its data.\<close>

definition host0 :: "u8 list \<Rightarrow> host" where
  "host0 bytes = \<lparr>h_slots = [held_module, zero_module, zero_module, zero_module],
     h_mem = mem_write 0x20020400 bytes (\<lambda>_. 0), me = 7, tick = 100, cyccnt = 0, privileged = False\<rparr>"

lemma host0_simps [simp]:
  "h_slots (host0 b) = [held_module, zero_module, zero_module, zero_module]"
  "h_mem (host0 b) = mem_write 0x20020400 b (\<lambda>_. 0)"
  "me (host0 b) = 7" "tick (host0 b) = 100"
  by (simp_all add: host0_def)

lemma host0_caller [simp]: "caller (host0 b) = Some 0"
  by (simp add: caller_def mdl_caller_slot_def)

lemma held_bounds_ok: "bounds_ok held_module"
  by (simp add: bounds_ok_def)

lemma host0_ok: "caller_bounds_ok (host0 b)"
  by (simp add: caller_bounds_ok_def held_bounds_ok)

lemma host0_owned: "ptr_owned_by_module (host0 b) p 1 \<longleftrightarrow> (0x20020000 \<le> p \<and> p < 0x20020800)
    \<or> (0x20022000 \<le> p \<and> p < 0x20023000) \<or> (0x20023800 \<le> p \<and> p < 0x20024000)"
  using ptr_owned_caller [OF host0_ok [of b], of 1 p] by (auto simp: user_regions_def)

theorem ptr_owned_confined_witness:
  "\<exists>st. arena_inv (h_slots (host0 [])) st \<and> {0x20023FFC ..< 0x20023FFC + 4} \<inter> {0x20022000 + HEAP_SIZE ..< 0x20022000 + HEAP_SIZE + GUARD_SIZE} = ({} :: nat set)"
proof -
  obtain st where inv: "arena_inv (h_slots (host0 [])) st" using held_arena_inv by auto
  have own: "ptr_owned_by_module (host0 []) 0x20023FFC 4"
    using ptr_owned_caller [OF host0_ok [of "[]"], of 4 "0x20023FFC"] by (simp add: user_regions_def)
  obtain i where i: "caller (host0 []) = Some i" "{0x20023FFC ..< 0x20023FFC + 4}
      \<inter> {hs_lo (h_slots (host0 []) ! i) + HEAP_SIZE ..< hs_lo (h_slots (host0 []) ! i) + HEAP_SIZE + GUARD_SIZE} = {}"
    using ptr_owned_confined [OF inv host0_ok _ own] by auto
  then have "i = 0" by simp
  then show ?thesis using i(2) inv by (intro exI [of _ st]) simp
qed

theorem host_log_confined_witness:
  "\<exists>bs. host_log_impl 0x20020400 (host0 [72, 105]) = Inl bs \<and> length bs \<le> 127"
  using host_log_confined [OF host0_ok [of "[72, 105]"], of "0x20020400"] host0_owned [of "[72, 105]" "0x20020400"]
  by (cases "host_log_impl 0x20020400 (host0 [72, 105])") auto

theorem host_atoi_value_witness:
  "host_atoi_impl 0x20020400 (host0 [0x2D, 0x34, 0x32]) = Some (Some (- 42))"
proof -
  let ?s = "host0 [0x2D, 0x34, 0x32]"
  have m: "h_mem ?s 0x20020400 = 0x2D" "h_mem ?s 0x20020401 = 0x34" "h_mem ?s 0x20020402 = 0x32" "h_mem ?s 0x20020403 = 0"
    by (simp_all add: mem_write_def)
  have "digits_at ?s 0x20020401 [0x34, 0x32]"
    using m by (simp add: digits_at_def host0_owned [simplified] is_digit_def less_Suc_eq all_conj_distrib)
  then show ?thesis
    using host_atoi_value [OF host0_ok [of "[0x2D, 0x34, 0x32]"], of "0x20020400" "0x20020401" "[0x34, 0x32]"] m
      host0_owned [of "[0x2D, 0x34, 0x32]" "0x20020400"]
    by (simp add: host0_owned [simplified])
qed

end
