(* ===== verification/Host_Heap.thy ===== *)
theory Host_Heap
  imports Host_Api
begin

text \<open>
  The module heap of \<open>host_api.c\<close> as an allocator. The heap of a slot is described by
  the blocks ever carved from it and the free list through them; \<open>heap_ok\<close> relates both
  to the memory. \<open>alloc\<close> and \<open>free\<close> keep it, and what they do to the live blocks is
  what an allocator promises. The last section is what happens outside that
  contract: a size that wraps, and a block freed twice.
\<close>

section \<open>The heap as blocks\<close>

text \<open>A block is its header address and its usable size.\<close>

type_synonym hblock = "addr \<times> nat"

fun linked :: "mem \<Rightarrow> addr \<Rightarrow> addr list \<Rightarrow> bool" where
  "linked m a [] = (a = 0)"
| "linked m a (b # bs) = (a = b \<and> b \<noteq> 0 \<and> linked m (blk_next m b) bs)"

definition apart :: "hblock \<Rightarrow> hblock \<Rightarrow> bool" where
  "apart p q \<longleftrightarrow> fst p + BLK_HDR_SIZE + snd p \<le> fst q \<or> fst q + BLK_HDR_SIZE + snd q \<le> fst p"

definition block_ok :: "module \<Rightarrow> mem \<Rightarrow> hblock \<Rightarrow> bool" where
  "block_ok m mm p \<longleftrightarrow> 8 dvd fst p \<and> 8 dvd snd p \<and> hs_lo m + ARGBLOCK_SIZE \<le> fst p
     \<and> fst p + BLK_HDR_SIZE + snd p \<le> pool_next m \<and> unat (blk_size mm (fst p)) = snd p"

definition heap_ok :: "module \<Rightarrow> mem \<Rightarrow> hblock set \<Rightarrow> addr list \<Rightarrow> bool" where
  "heap_ok m mm B fl \<longleftrightarrow> 8 dvd hs_lo m \<and> hs_lo m + HEAPSTACK_BYTES < 2 ^ 32 \<and> pool_end m = hs_lo m + HEAP_SIZE
     \<and> 8 dvd pool_next m \<and> hs_lo m + ARGBLOCK_SIZE \<le> pool_next m \<and> pool_next m \<le> pool_end m
     \<and> (\<forall>p \<in> B. block_ok m mm p) \<and> (\<forall>p \<in> B. \<forall>q \<in> B. p \<noteq> q \<longrightarrow> apart p q)
     \<and> linked mm (free_list m) fl \<and> distinct fl \<and> set fl \<subseteq> fst ` B"

definition live :: "hblock set \<Rightarrow> addr list \<Rightarrow> hblock set" where
  "live B fl = {p \<in> B. fst p \<notin> set fl}"

lemma heap_okD:
  assumes "heap_ok m mm B fl"
  shows "8 dvd hs_lo m" "hs_lo m + 8192 < 2 ^ 32" "pool_end m = hs_lo m + 4096" "8 dvd pool_next m"
    "hs_lo m + 128 \<le> pool_next m" "pool_next m \<le> hs_lo m + 4096" "\<forall>p \<in> B. block_ok m mm p"
    "\<forall>p \<in> B. \<forall>q \<in> B. p \<noteq> q \<longrightarrow> apart p q" "linked mm (free_list m) fl" "distinct fl" "set fl \<subseteq> fst ` B"
  using assms by (simp_all add: heap_ok_def)

lemma pool_reset_heap_ok:
  assumes "8 dvd hs_lo m" "hs_lo m + HEAPSTACK_BYTES < 2 ^ 32"
  shows "heap_ok (host_api_pool_reset m) mm {} []"
  using assms by (simp add: heap_ok_def host_api_pool_reset_def)

section \<open>Sizes\<close>

lemma and_not_7: "(w :: u32) AND NOT 7 = push_bit 3 (drop_bit 3 w)"
proof -
  have m: "(7 :: u32) = mask 3" by (simp add: mask_eq_exp_minus_1)
  show ?thesis unfolding m by (intro bit_word_eqI) (auto simp: bit_simps)
qed

lemma unat_less: "unat (w :: u32) < 2 ^ 32"
proof -
  have "unat w < 2 ^ LENGTH(32)" by (rule unsigned_less)
  then show ?thesis by simp
qed

lemma unat_round8:
  assumes "unat (n + 7) = unat n + 7"
  shows "unat (round8 n) = (unat n + 7) div 8 * 8"
proof -
  note assms
  moreover have "unat (drop_bit 3 (n + 7)) = drop_bit 3 (unat (n + 7))" by (rule unat_drop_bit_eq)
  ultimately have d: "unat (drop_bit 3 (n + 7)) = (unat n + 7) div 8" by (simp add: drop_bit_eq_div)
  then have lt: "(unat n + 7) div 8 * 8 < 2 ^ 32" using assms unat_less [of "n + 7"] by simp
  have "unat (push_bit 3 (drop_bit 3 (n + 7))) = (unat (drop_bit 3 (n + 7)) * 8) mod 2 ^ 32"
    by (simp add: push_bit_eq_mult unat_word_ariths mult.commute)
  then show ?thesis unfolding round8_def and_not_7 using d lt by simp
qed

lemma round8_small:
  assumes "unat n \<le> 0xFFFFFFF0"
  shows "unat (round8 n) = (unat n + 7) div 8 * 8" "unat n \<le> unat (round8 n)" "8 dvd unat (round8 n)"
    "unat (round8 n + 8) = unat (round8 n) + 8"
proof -
  have "unat (n + 7) = unat n + 7" using assms by (simp add: unat_word_ariths)
  then show r: "unat (round8 n) = (unat n + 7) div 8 * 8" by (rule unat_round8)
  show "unat n \<le> unat (round8 n)" "8 dvd unat (round8 n)" unfolding r by presburger+
  have "unat (round8 n) \<le> 0xFFFFFFF0" unfolding r using assms by presburger
  then show "unat (round8 n + 8) = unat (round8 n) + 8" by (simp add: unat_word_ariths)
qed

section \<open>The search\<close>

lemma first_fit_none:
  assumes "linked m b fl" "\<forall>x \<in> set fl. blk_size m x < n"
  shows "first_fit m n prev b = Some None"
  using assms
proof (induction fl arbitrary: prev b)
  case Nil
  then show ?case by (subst first_fit.simps) simp
next
  case (Cons x fl)
  then show ?case by (subst first_fit.simps) (simp add: not_le)
qed

lemma first_fit_some:
  assumes "linked m b (xs @ y # ys)" "\<forall>x \<in> set xs. blk_size m x < n" "n \<le> blk_size m y"
  shows "first_fit m n prev b = Some (Some (last (prev # xs), y))"
  using assms
proof (induction xs arbitrary: prev b)
  case Nil
  then show ?case by (subst first_fit.simps) simp
next
  case (Cons x xs)
  have "\<not> n \<le> blk_size m x" using Cons.prems(2) by auto
  then show ?case using Cons by (subst first_fit.simps) simp
qed

lemma linked_app: "linked m a (xs @ y # ys) \<Longrightarrow> y \<noteq> 0 \<and> linked m (blk_next m y) ys"
  by (induction xs arbitrary: a) auto

lemma linked_mem_cong: "(\<And>x. x \<in> set fl \<Longrightarrow> blk_next m' x = blk_next m x) \<Longrightarrow> linked m' a fl = linked m a fl"
  by (induction fl arbitrary: a) auto

text \<open>Unlinking: the link before the block found now skips it.\<close>

lemma linked_unlink:
  assumes "linked m a (xs @ x # y # ys)" "distinct (xs @ x # y # ys)"
    "\<And>z. z \<in> set (xs @ x # ys) \<Longrightarrow> blk_next m' z = (if z = x then blk_next m y else blk_next m z)"
  shows "linked m' a (xs @ x # ys)"
  using assms
proof (induction xs arbitrary: a)
  case Nil
  then have y: "linked m (blk_next m y) ys" by simp
  have "blk_next m' z = blk_next m z" if "z \<in> set ys" for z using Nil.prems(2,3) that by auto
  then have "linked m' (blk_next m y) ys = linked m (blk_next m y) ys" by (rule linked_mem_cong)
  then show ?case using Nil y by simp
next
  case (Cons z xs)
  have "blk_next m' z = blk_next m z" using Cons.prems(2,3) by auto
  moreover have "linked m' (blk_next m z) (xs @ x # ys)"
    by (rule Cons.IH) (use Cons.prems in auto)
  ultimately show ?case using Cons.prems(1) by simp
qed

section \<open>Headers and writes\<close>

lemma apart_headers: "apart p q \<Longrightarrow> fst p + 8 \<le> fst q \<or> fst q + 8 \<le> fst p"
  by (auto simp: apart_def)

text \<open>Writing a link touches no other header, and no block's size.\<close>

lemma st32_link:
  assumes "heap_ok m mm B fl" "p \<in> B" "q \<in> B"
  shows "blk_next (st32 (fst p) w mm) (fst q) = (if fst q = fst p then unat w else blk_next mm (fst q))"
    "blk_size (st32 (fst p) w mm) (fst q) = blk_size mm (fst q)"
proof -
  have "fst q = fst p \<or> fst p + 8 \<le> fst q \<or> fst q + 8 \<le> fst p"
    using heap_okD(8) [OF assms(1)] assms(2,3) apart_headers by (cases "p = q") auto
  then show "blk_next (st32 (fst p) w mm) (fst q) = (if fst q = fst p then unat w else blk_next mm (fst q))"
    "blk_size (st32 (fst p) w mm) (fst q) = blk_size mm (fst q)"
    by (auto simp: blk_next_def blk_size_def)
qed

lemma heap_block_of:
  assumes "heap_ok m mm B fl" "x \<in> set fl"
  obtains k where "(x, k) \<in> B" "block_ok m mm (x, k)"
  using heap_okD(7,11) [OF assms(1)] assms(2) by fastforce

lemma block_ok_bounds:
  assumes "heap_ok m mm B fl" "block_ok m mm (x, k)"
  shows "0 < x" "x + 8 + k < 2 ^ 32" "hs_lo m + 128 \<le> x" "x + 8 + k \<le> hs_lo m + 4096" "8 dvd x" "unat (blk_size mm x) = k"
  using heap_okD(2,6) [OF assms(1)] assms(2) by (auto simp: block_ok_def)

lemma distinct_fst:
  assumes "heap_ok m mm B fl" "(x, k) \<in> B" "(x, j) \<in> B"
  shows "k = j"
proof (rule ccontr)
  assume "k \<noteq> j"
  then have "apart (x, k) (x, j)" using heap_okD(8) [OF assms(1)] assms(2,3) by blast
  then show False by (auto simp: apart_def)
qed

section \<open>Allocation\<close>

lemma alloc_reuse_first:
  assumes ok: "heap_ok m mm B (y # ys)"
  shows "heap_ok (m\<lparr>free_list := blk_next mm y\<rparr>) mm B ys"
  using ok by (auto simp: heap_ok_def block_ok_def)

lemma alloc_reuse_later:
  assumes ok: "heap_ok m mm B (xs @ x # y # ys)"
  shows "heap_ok m (st32 x (of_nat (blk_next mm y)) mm) B (xs @ x # ys)"
proof -
  obtain k where k: "(x, k) \<in> B" by (rule heap_block_of [OF ok, of x]) auto
  note link = st32_link [OF ok k, simplified]
  have l: "linked mm (free_list m) (xs @ x # y # ys)" "distinct (xs @ x # y # ys)"
    using ok by (auto simp: heap_ok_def)
  have "blk_next (st32 x (of_nat (blk_next mm y)) mm) z = (if z = x then blk_next mm y else blk_next mm z)"
    if "z \<in> set (xs @ x # ys)" for z
  proof -
    have "z \<in> fst ` B" using heap_okD(11) [OF ok] that by auto
    then obtain j where j: "(z, j) \<in> B" by force
    have "unat (of_nat (blk_next mm y) :: u32) = blk_next mm y" by (simp add: blk_next_def)
    then show ?thesis using link(1) [OF j] by simp
  qed
  then have "linked (st32 x (of_nat (blk_next mm y)) mm) (free_list m) (xs @ x # ys)" by (rule linked_unlink [OF l])
  moreover have "\<forall>p \<in> B. block_ok m (st32 x (of_nat (blk_next mm y)) mm) p"
    using heap_okD(7) [OF ok] link(2) by (auto simp: block_ok_def)
  ultimately show ?thesis using ok by (simp add: heap_ok_def)
qed

lemma alloc_bump:
  assumes ok: "heap_ok m mm B fl" and k: "8 dvd unat n" "pool_next m + 8 + unat n \<le> pool_end m"
  shows "heap_ok (m\<lparr>pool_next := pool_next m + 8 + unat n\<rparr>) (st32 (pool_next m + 4) n (st32 (pool_next m) 0 mm))
      (insert (pool_next m, unat n) B) fl"
    "\<forall>q \<in> B. apart (pool_next m, unat n) q"
proof -
  let ?mm = "st32 (pool_next m + 4) n (st32 (pool_next m) 0 mm)" and ?a = "pool_next m"
  let ?m = "m\<lparr>pool_next := pool_next m + 8 + unat n\<rparr>"
  have below: "fst q + 8 + snd q \<le> ?a" if "q \<in> B" for q
    using heap_okD(7) [OF ok] that by (auto simp: block_ok_def)
  show ap: "\<forall>q \<in> B. apart (?a, unat n) q" using below by (auto simp: apart_def)
  have fr: "blk_next ?mm (fst q) = blk_next mm (fst q)" "blk_size ?mm (fst q) = blk_size mm (fst q)" if "q \<in> B" for q
    using below [OF that] by (simp_all add: blk_next_def blk_size_def)
  have "blk_size ?mm ?a = n" by (simp add: blk_size_def)
  then have "block_ok ?m ?mm (?a, unat n)"
    using heap_okD(4,5) [OF ok] k(1) by (simp add: block_ok_def)
  moreover have "block_ok ?m ?mm q" if "q \<in> B" for q
    using heap_okD(7) [OF ok] fr [OF that] that by (auto simp: block_ok_def)
  moreover have "linked ?mm (free_list m) fl"
  proof -
    have "blk_next ?mm x = blk_next mm x" if "x \<in> set fl" for x
      using fr(1) heap_okD(11) [OF ok] that by fastforce
    then show ?thesis using linked_mem_cong [of fl ?mm mm] heap_okD(9) [OF ok] by blast
  qed
  moreover have "apart p q" if "p \<in> insert (?a, unat n) B" "q \<in> insert (?a, unat n) B" "p \<noteq> q" for p q
    using ap heap_okD(8) [OF ok] that by (auto simp: apart_def)
  moreover have "8 dvd ?a + 8 + unat n" using heap_okD(4) [OF ok] k(1) by presburger
  ultimately show "heap_ok ?m ?mm (insert (?a, unat n) B) fl"
    using ok k(2) by (auto simp: heap_ok_def)
qed

text \<open>Nothing but block headers is written.\<close>

definition headers_only :: "hblock set \<Rightarrow> mem \<Rightarrow> mem \<Rightarrow> bool" where
  "headers_only B mm mm' \<longleftrightarrow> (\<forall>a. (\<forall>p \<in> B. a < fst p \<or> fst p + 8 \<le> a) \<longrightarrow> mm' a = mm a)"

lemma headers_only_refl: "headers_only B mm mm"
  by (simp add: headers_only_def)

lemma headers_only_link: "p \<in> B \<Longrightarrow> headers_only B mm (st32 (fst p) w mm)"
  by (auto simp: headers_only_def st32_other)

text \<open>What an allocation has done, in terms of blocks.\<close>

definition alloc_outcome :: "nat \<Rightarrow> 'a host_scheme \<Rightarrow> nat \<Rightarrow> hblock set \<Rightarrow> addr list \<Rightarrow> addr \<Rightarrow> 'a host_scheme
    \<Rightarrow> hblock set \<Rightarrow> addr list \<Rightarrow> bool" where
  "alloc_outcome i s want B fl p s' B' fl' \<longleftrightarrow> heap_ok (h_slots s' ! i) (h_mem s') B' fl' \<and> headers_only B' (h_mem s) (h_mem s')
     \<and> (\<forall>j. j \<noteq> i \<longrightarrow> h_slots s' ! j = h_slots s ! j) \<and> length (h_slots s') = length (h_slots s)
     \<and> (if p = 0 then s' = s \<and> B' = B \<and> fl' = fl
        else \<exists>k. want \<le> k \<and> 8 dvd p \<and> hs_lo (h_slots s ! i) + ARGBLOCK_SIZE + 8 \<le> p
          \<and> p + k \<le> hs_lo (h_slots s ! i) + HEAP_SIZE
          \<and> (p - 8, k) \<notin> live B fl \<and> live B' fl' = insert (p - 8, k) (live B fl)
          \<and> (\<forall>q \<in> live B fl. apart (p - 8, k) q))"

lemma live_remove:
  assumes "heap_ok m mm B fl" "(y, k) \<in> B" "set fl = insert y (set zs)" "y \<notin> set zs"
  shows "live B zs = insert (y, k) (live B fl)"
proof (rule set_eqI)
  fix p :: hblock
  obtain x j where p: "p = (x, j)" by (cases p)
  have "j = k" if "x = y" "p \<in> B" using distinct_fst [OF assms(1,2), of j] that p by simp
  then show "p \<in> live B zs \<longleftrightarrow> p \<in> insert (y, k) (live B fl)"
    using assms(2-4) p by (cases "x = y") (auto simp: live_def)
qed

lemma heap_alloc_full:
  fixes s :: "'a host_scheme"
  assumes c: "caller s = Some i" "i < length (h_slots s)" and ok: "heap_ok (h_slots s ! i) (h_mem s) B fl"
    and n: "n \<noteq> 0" "unat n \<le> 0xFFFFFFF0"
  shows "\<exists>p s' B' fl'. host_alloc_impl n s = Some (p, s') \<and> alloc_outcome i s (unat n) B fl p s' B' fl'
    \<and> (p = 0 \<longleftrightarrow> (\<forall>q \<in> B. fst q \<in> set fl \<longrightarrow> snd q < unat (round8 n))
         \<and> hs_lo (h_slots s ! i) + HEAP_SIZE < pool_next (h_slots s ! i) + unat (round8 n) + 8)"
proof -
  let ?m = "h_slots s ! i" and ?N = "round8 n" and ?mm = "h_mem s"
  note N = round8_small [OF n(2)] and h = heap_okD [OF ok]
  have fits: "(\<forall>q \<in> B. fst q \<in> set fl \<longrightarrow> snd q < unat ?N) \<longleftrightarrow> (\<forall>x \<in> set fl. blk_size ?mm x < ?N)"
  proof -
    have "snd q < unat ?N \<longleftrightarrow> blk_size ?mm (fst q) < ?N" if "q \<in> B" for q
      using h(7) that by (auto simp: block_ok_def word_less_nat_alt)
    then show ?thesis using h(11) by blast
  qed
  show ?thesis
  proof (cases "\<forall>x \<in> set fl. blk_size ?mm x < ?N")
    case False
    then obtain xs y ys where fl: "fl = xs @ y # ys" "\<forall>x \<in> set xs. blk_size ?mm x < ?N" "?N \<le> blk_size ?mm y"
      using split_list_first_prop [of fl "\<lambda>x. ?N \<le> blk_size ?mm x"] by (auto simp: not_less not_le)
    obtain k where k: "(y, k) \<in> B" "block_ok ?m ?mm (y, k)" by (rule heap_block_of [OF ok, of y]) (use fl in auto)
    note b = block_ok_bounds [OF ok k(2)]
    have big: "unat n \<le> k" using N(2) fl(3) b(6) by (simp add: word_le_nat_alt)
    have notlive: "(y, k) \<notin> live B fl" by (simp add: live_def fl(1))
    have lv: "live B (xs @ ys) = insert (y, k) (live B fl)"
      by (rule live_remove [OF ok k(1)]) (use h(10) fl(1) in auto)
    have ap: "\<forall>q \<in> live B fl. apart (y, k) q" using h(8) k(1) notlive by (auto simp: live_def)
    have ret: "add32 y BLK_HDR_SIZE = y + 8" using b(2) by simp
    have ff: "first_fit ?mm ?N 0 (free_list ?m) = Some (Some (last (0 # xs), y))"
      by (rule first_fit_some [OF h(9) [unfolded fl(1)] fl(2,3)])
    show ?thesis
    proof (cases "xs = []")
      case True
      let ?s' = "upd_module i (\<lambda>m. m\<lparr>free_list := blk_next ?mm y\<rparr>) s"
      have run: "host_alloc_impl n s = Some (y + 8, ?s')"
        using n(1) c ff True ret by (simp add: host_alloc_impl_def Let_def)
      have "heap_ok (?m\<lparr>free_list := blk_next ?mm y\<rparr>) ?mm B ys" using alloc_reuse_first ok fl(1) True by simp
      then have "alloc_outcome i s (unat n) B fl (y + 8) ?s' B ys"
        using c(2) big b(3-5) notlive lv ap True
        by (auto simp: alloc_outcome_def upd_module_def headers_only_refl intro!: exI [of _ k])
      then show ?thesis using run fits False by (intro exI [of _ "y + 8"] exI [of _ ?s'] exI [of _ B] exI [of _ ys]) auto
    next
      case F: False
      then obtain us x where xs: "xs = us @ [x]" by (metis append_butlast_last_id)
      obtain j where j: "(x, j) \<in> B" "block_ok ?m ?mm (x, j)" by (rule heap_block_of [OF ok, of x]) (use fl xs in auto)
      have x0: "x \<noteq> 0" using block_ok_bounds(1) [OF ok j(2)] by simp
      let ?s' = "s\<lparr>h_mem := st32 x (of_nat (blk_next ?mm y)) ?mm\<rparr>"
      have run: "host_alloc_impl n s = Some (y + 8, ?s')"
        using n(1) c ff xs x0 ret by (simp add: host_alloc_impl_def Let_def)
      have "heap_ok ?m (st32 x (of_nat (blk_next ?mm y)) ?mm) B (xs @ ys)"
        using alloc_reuse_later [of ?m ?mm B us x y ys] ok fl(1) xs by simp
      then have "alloc_outcome i s (unat n) B fl (y + 8) ?s' B (xs @ ys)"
        using big b(3-5) notlive lv ap headers_only_link [OF j(1)]
        by (auto simp: alloc_outcome_def intro!: exI [of _ k])
      then show ?thesis using run fits False
        by (intro exI [of _ "y + 8"] exI [of _ ?s'] exI [of _ B] exI [of _ "xs @ ys"]) auto
    qed
  next
    case True
    have ff: "first_fit ?mm ?N 0 (free_list ?m) = Some None" by (rule first_fit_none [OF h(9) True])
    let ?a = "pool_next ?m"
    have room: "sub32 (pool_end ?m) ?a = hs_lo ?m + 4096 - ?a" using h(2,3,6) by simp
    show ?thesis
    proof (cases "hs_lo ?m + 4096 < ?a + unat ?N + 8")
      case less: True
      then have "host_alloc_impl n s = Some (0, s)"
        using n(1) c ff room N(4) h(6) by (simp add: host_alloc_impl_def Let_def)
      moreover have "alloc_outcome i s (unat n) B fl 0 s B fl" using ok by (simp add: alloc_outcome_def headers_only_refl)
      ultimately show ?thesis using True fits less by (intro exI [of _ 0] exI [of _ s] exI [of _ B] exI [of _ fl]) simp
    next
      case ge: False
      let ?mm' = "st32 (?a + 4) ?N (st32 ?a 0 ?mm)" and ?m' = "?m\<lparr>pool_next := ?a + 8 + unat ?N\<rparr>"
      let ?s' = "upd_module i (\<lambda>m. m\<lparr>pool_next := ?a + 8 + unat ?N\<rparr>) (s\<lparr>h_mem := ?mm'\<rparr>)"
      have small: "add32 ?a (unat ?N + 8) = ?a + 8 + unat ?N" "add32 ?a 8 = ?a + 8" using ge h(2) by simp_all
      have run: "host_alloc_impl n s = Some (?a + 8, ?s')"
        using n(1) c ff room N(4) ge small by (simp add: host_alloc_impl_def Let_def)
      have bump: "heap_ok ?m' ?mm' (insert (?a, unat ?N) B) fl" "\<forall>q \<in> B. apart (?a, unat ?N) q"
        using alloc_bump [OF ok N(3)] ge h(3) by simp_all
      have new: "?a \<notin> fst ` B" using bump(2) h(7) by (auto simp: apart_def block_ok_def)
      have "headers_only (insert (?a, unat ?N) B) ?mm ?mm'" by (auto simp: headers_only_def st32_other)
      moreover have "live (insert (?a, unat ?N) B) fl = insert (?a, unat ?N) (live B fl)"
        using new h(11) by (auto simp: live_def)
      moreover have "(?a, unat ?N) \<notin> live B fl" using new by (force simp: live_def)
      ultimately have "alloc_outcome i s (unat n) B fl (?a + 8) ?s' (insert (?a, unat ?N) B) fl"
        using bump c(2) N(2) h(4,5) ge
        by (auto simp: alloc_outcome_def upd_module_def live_def intro!: exI [of _ "unat ?N"])
      then show ?thesis using run ge
        by (intro exI [of _ "?a + 8"] exI [of _ ?s'] exI [of _ "insert (?a, unat ?N) B"] exI [of _ fl]) auto
    qed
  qed
qed

section \<open>Release\<close>

lemma live_free:
  assumes "heap_ok m mm B fl" "(x, k) \<in> B"
  shows "live B (x # fl) = live B fl - {(x, k)}"
proof (rule set_eqI)
  fix p :: hblock
  obtain y j where p: "p = (y, j)" by (cases p)
  have "j = k" if "y = x" "p \<in> B" using distinct_fst [OF assms, of j] that p by simp
  then show "p \<in> live B (x # fl) \<longleftrightarrow> p \<in> live B fl - {(x, k)}"
    using p by (cases "y = x") (auto simp: live_def)
qed

lemma heap_free_full:
  fixes s :: "'a host_scheme"
  assumes c: "caller s = Some i" "i < length (h_slots s)" and ok: "heap_ok (h_slots s ! i) (h_mem s) B fl"
    and p: "(p - 8, k) \<in> live B fl" "8 \<le> p"
  defines "s' \<equiv> host_free_impl p s"
  shows "heap_ok (h_slots s' ! i) (h_mem s') B ((p - 8) # fl)" "live B ((p - 8) # fl) = live B fl - {(p - 8, k)}"
    "headers_only B (h_mem s) (h_mem s')" "h_slots s' = (h_slots s)[i := (h_slots s ! i)\<lparr>free_list := p - 8\<rparr>]"
proof -
  let ?m = "h_slots s ! i" and ?mm = "h_mem s" and ?x = "p - 8"
  note h = heap_okD [OF ok]
  have x: "(?x, k) \<in> B" "?x \<notin> set fl" using p(1) by (simp_all add: live_def)
  then have blk: "block_ok ?m ?mm (?x, k)" using h(7) by blast
  note b = block_ok_bounds [OF ok blk]
  have sub: "sub32 p 8 = ?x" using p(2) b(2) by simp
  have lo: "add32 (hs_lo ?m) HEAP_SIZE = hs_lo ?m + 4096" using h(2) by simp
  have inr: "ptr_in_range ?x 8 (hs_lo ?m) (hs_lo ?m + 4096)"
    using b(3,4) h(2) by (simp add: ptr_in_range_iff)
  have run: "s' = upd_module i (\<lambda>m. m\<lparr>free_list := ?x\<rparr>) (s\<lparr>h_mem := st32 ?x (of_nat (free_list ?m)) ?mm\<rparr>)"
    using c p(2) sub lo [simplified] inr b(3) by (simp add: s'_def host_free_impl_def Let_def)
  have fl0: "unat (of_nat (free_list ?m) :: u32) = free_list ?m"
  proof (cases fl)
    case Nil then show ?thesis using h(9) by simp
  next
    case (Cons y ys)
    then obtain j where "block_ok ?m ?mm (y, j)" using heap_block_of [OF ok, of y] by auto
    then have "y < 2 ^ 32" using block_ok_bounds(2) [OF ok] by fastforce
    then show ?thesis using h(9) Cons by (simp add: unat_of_nat take_bit_nat_eq_self)
  qed
  note link = st32_link [OF ok x(1), simplified]
  have "linked (st32 ?x (of_nat (free_list ?m)) ?mm) (free_list ?m) fl"
  proof -
    have "blk_next (st32 ?x (of_nat (free_list ?m)) ?mm) z = blk_next ?mm z" if "z \<in> set fl" for z
    proof -
      have "z \<in> fst ` B" using h(11) that by auto
      then obtain j where "(z, j) \<in> B" by force
      moreover have "z \<noteq> ?x" using x(2) that by auto
      ultimately show ?thesis using link(1) [of "(z, j)"] by simp
    qed
    then show ?thesis using linked_mem_cong [of fl] h(9) by blast
  qed
  moreover have "blk_next (st32 ?x (of_nat (free_list ?m)) ?mm) ?x = free_list ?m"
    using link(1) [OF x(1)] fl0 by simp
  ultimately have "linked (st32 ?x (of_nat (free_list ?m)) ?mm) ?x (?x # fl)" using b(1) by simp
  moreover have "\<forall>q \<in> B. block_ok (?m\<lparr>free_list := ?x\<rparr>) (st32 ?x (of_nat (free_list ?m)) ?mm) q"
    using h(7) link(2) by (auto simp: block_ok_def)
  moreover have "?x \<in> fst ` B" using x(1) by force
  ultimately have "heap_ok (?m\<lparr>free_list := ?x\<rparr>) (st32 ?x (of_nat (free_list ?m)) ?mm) B (?x # fl)"
    using h x(2) by (simp add: heap_ok_def)
  then show "heap_ok (h_slots s' ! i) (h_mem s') B (?x # fl)" using c(2) run by (simp add: upd_module_def)
  show "live B (?x # fl) = live B fl - {(?x, k)}"
    by (rule live_free [OF ok x(1)])
  show "headers_only B (h_mem s) (h_mem s')" using headers_only_link [OF x(1)] run by (simp add: upd_module_def)
  show "h_slots s' = (h_slots s)[i := ?m\<lparr>free_list := ?x\<rparr>]" using run by (simp add: upd_module_def)
qed


text \<open>C34: \<open>free\<close> gives a live block back and nothing else. Afterwards the heap is intact and exactly that
  block has left the live ones; only its header was written. A request for any size that
  fits in the block is then granted, from the free list or the pool: memory that was
  released can be allocated again.\<close>

theorem host_free_spec:
  assumes c: "caller s = Some i" "i < length (h_slots s)" and ok: "heap_ok (h_slots s ! i) (h_mem s) B fl"
    and p: "(p - 8, k) \<in> live B fl" "8 \<le> p"
  shows "let s' = host_free_impl p s in
      heap_ok (h_slots s' ! i) (h_mem s') B ((p - 8) # fl) \<and> live B ((p - 8) # fl) = live B fl - {(p - 8, k)}
      \<and> headers_only B (h_mem s) (h_mem s')
      \<and> (\<forall>n. n \<noteq> 0 \<and> unat n \<le> k \<longrightarrow> (\<exists>q s''. host_alloc_impl n s' = Some (q, s'') \<and> q \<noteq> 0))"
proof -
  let ?s' = "host_free_impl p s"
  note f = heap_free_full [OF assms]
  have x: "(p - 8, k) \<in> B" using p(1) by (simp add: live_def)
  have blk: "block_ok (h_slots s ! i) (h_mem s) (p - 8, k)" using heap_okD(7) [OF ok] x by blast
  have k8: "8 dvd k" "k < 2 ^ 32" using blk block_ok_bounds(2) [OF ok blk] by (auto simp: block_ok_def)
  have c': "caller ?s' = Some i" "i < length (h_slots ?s')"
  proof -
    have "find_idx (\<lambda>m. m_state m \<noteq> SLOT_EMPTY \<and> task_handle m \<noteq> 0 \<and> task_handle m = me s)
        ((h_slots s)[i := (h_slots s ! i)\<lparr>free_list := p - 8\<rparr>]) =
      find_idx (\<lambda>m. m_state m \<noteq> SLOT_EMPTY \<and> task_handle m \<noteq> 0 \<and> task_handle m = me s) (h_slots s)"
      by (rule find_idx_update) (use c(2) in simp_all)
    moreover have "me ?s' = me s" by (simp add: host_free_impl_def Let_def upd_module_def split: option.split)
    ultimately show "caller ?s' = Some i" using c(1) f(4) by (simp add: caller_def mdl_caller_slot_def)
    show "i < length (h_slots ?s')" using c(2) f(4) by simp
  qed
  have "\<exists>q s''. host_alloc_impl n ?s' = Some (q, s'') \<and> q \<noteq> 0" if n: "n \<noteq> 0" "unat n \<le> k" for n
  proof -
    have b: "unat n \<le> 0xFFFFFFF0" using n(2) block_ok_bounds(4) [OF ok blk] heap_okD(2) [OF ok] by simp
    have "unat (round8 n) \<le> k" using round8_small(1) [OF b] n(2) k8(1) by presburger
    then have "\<not> (\<forall>q \<in> B. fst q \<in> set ((p - 8) # fl) \<longrightarrow> snd q < unat (round8 n))" using x by force
    then show ?thesis using heap_alloc_full [OF c' f(1) n(1) b] by blast
  qed
  then show ?thesis using f(1-3) by (simp add: Let_def)
qed

section \<open>Outside the contract\<close>

lemma first_fit_self_loop:
  assumes "blk_next m b = b" "b \<noteq> 0" "blk_size m b < n"
  shows "first_fit m n prev b = None"
proof (rule ccontr)
  assume "first_fit m n prev b \<noteq> None"
  then obtain r where r: "first_fit m n prev b = Some r" by blast
  have "(m', n', b') = (m, n, b) \<longrightarrow> False" if "first_fit m' n' prev' b' = Some r" for m' n' prev' b'
  proof (rule first_fit.raw_induct [where P = "\<lambda>m' n' prev' b' r. (m', n', b') = (m, n, b) \<longrightarrow> False", OF _ that])
    fix f :: "mem \<Rightarrow> u32 \<Rightarrow> addr \<Rightarrow> addr \<Rightarrow> (addr \<times> addr) option option" and m1 n1 prev1 b1 r1
    assume IH: "\<And>m1 n1 prev1 b1 r1. f m1 n1 prev1 b1 = Some r1 \<Longrightarrow> (m1, n1, b1) = (m, n, b) \<longrightarrow> False"
      and eq: "(if b1 = 0 then Some None else if n1 \<le> blk_size m1 b1 then Some (Some (prev1, b1))
        else f m1 n1 b1 (blk_next m1 b1)) = Some r1"
    show "(m1, n1, b1) = (m, n, b) \<longrightarrow> False"
    proof
      assume "(m1, n1, b1) = (m, n, b)"
      then have "f m n b b = Some r1" using eq assms by (simp split: if_splits)
      then show False using IH by blast
    qed
  qed
  then show False using r by blast
qed

text \<open>The size arithmetic of \<open>alloc\<close> wraps. A request of \<open>0xFFFFFFF8\<close> bytes passes the room
  check with the sum 0: with no freed block it is granted however full the pool is, as a block recorded
  as almost 4 GB, and the pool pointer does not move. With the pool exhausted the header is written, by the
  privileged host, over the first 8 bytes of the guard band, and the pointer returned lies outside the pool.\<close>

theorem host_alloc_wraps:
  assumes c: "caller s = Some i" "i < length (h_slots s)" and ok: "heap_ok (h_slots s ! i) (h_mem s) B []"
  shows "\<exists>s'. host_alloc_impl 0xFFFFFFF8 s = Some (pool_next (h_slots s ! i) + 8, s')
    \<and> h_slots s' = h_slots s
    \<and> blk_size (h_mem s') (pool_next (h_slots s ! i)) = 0xFFFFFFF8
    \<and> (pool_next (h_slots s ! i) = pool_end (h_slots s ! i) \<longrightarrow>
         hs_lo (h_slots s ! i) + HEAP_SIZE < pool_next (h_slots s ! i) + 8
         \<and> h_mem s' = st32 (hs_lo (h_slots s ! i) + HEAP_SIZE + 4) 0xFFFFFFF8
             (st32 (hs_lo (h_slots s ! i) + HEAP_SIZE) 0 (h_mem s)))"
proof -
  let ?m = "h_slots s ! i" and ?a = "pool_next (h_slots s ! i)"
  note h = heap_okD [OF ok]
  have r: "round8 0xFFFFFFF8 = 0xFFFFFFF8" by (simp add: round8_def)
  have ff: "first_fit (h_mem s) n 0 (free_list ?m) = Some None" for n
    using first_fit_none [OF h(9)] by simp
  have a: "add32 ?a 8 = ?a + 8" "add32 ?a 0 = ?a" using h(2,6) by simp_all
  let ?s' = "upd_module i (\<lambda>m. m\<lparr>pool_next := ?a\<rparr>) (s\<lparr>h_mem := st32 (?a + 4) 0xFFFFFFF8 (st32 ?a 0 (h_mem s))\<rparr>)"
  have run: "host_alloc_impl 0xFFFFFFF8 s = Some (?a + 8, ?s')"
    using c ff a by (simp add: host_alloc_impl_def Let_def r)
  have "h_slots ?s' = h_slots s" by (simp add: upd_module_def)
  moreover have "blk_size (h_mem ?s') ?a = 0xFFFFFFF8" by (simp add: upd_module_def blk_size_def)
  ultimately show ?thesis using run h(3) by (intro exI [of _ ?s']) (auto simp: upd_module_def)
qed

text \<open>Freeing a block twice makes the host hang. After the second \<open>free\<close> the block's link points to
  the block itself; the next request it is too small for never leaves the search, in privileged mode, inside a
  call of the module.\<close>

theorem host_double_free_hangs:
  assumes c: "caller s = Some i" "i < length (h_slots s)" and ok: "heap_ok (h_slots s ! i) (h_mem s) B fl"
    and p: "(p - 8, k) \<in> live B fl" "8 \<le> p" and n: "n \<noteq> 0" "k < unat n" "unat n \<le> 0xFFFFFFF0"
  shows "host_alloc_impl n (host_free_impl p (host_free_impl p s)) = None"
proof -
  let ?s1 = "host_free_impl p s" and ?x = "p - 8"
  note f = heap_free_full [OF c ok p]
  note h = heap_okD [OF f(1)]
  have x: "(?x, k) \<in> B" using p(1) by (simp add: live_def)
  have blk: "block_ok (h_slots ?s1 ! i) (h_mem ?s1) (?x, k)" using h(7) x by blast
  note b = block_ok_bounds [OF f(1) blk]
  have c1: "caller (s'\<lparr>h_mem := mm\<rparr>) = Some i" if "me s' = me s" "h_slots s' = (h_slots s)[i := (h_slots s ! i)\<lparr>free_list := y\<rparr>]"
    for s' mm y
  proof -
    have "find_idx (\<lambda>m. m_state m \<noteq> SLOT_EMPTY \<and> task_handle m \<noteq> 0 \<and> task_handle m = me s)
        ((h_slots s)[i := (h_slots s ! i)\<lparr>free_list := y\<rparr>]) =
      find_idx (\<lambda>m. m_state m \<noteq> SLOT_EMPTY \<and> task_handle m \<noteq> 0 \<and> task_handle m = me s) (h_slots s)"
      by (rule find_idx_update) (use c(2) in simp_all)
    then show ?thesis using c(1) that by (simp add: caller_def mdl_caller_slot_def)
  qed
  have me1: "me ?s1 = me s" by (simp add: host_free_impl_def Let_def upd_module_def split: option.split)
  have call1: "caller ?s1 = Some i" using c1 [OF me1 f(4), of "h_mem ?s1"] by (simp add: caller_def)
  have fl1: "free_list (h_slots ?s1 ! i) = ?x" using f(4) c(2) by simp
  let ?mm = "st32 ?x (of_nat ?x) (h_mem ?s1)"
  have sub: "sub32 p 8 = ?x" "add32 (hs_lo (h_slots ?s1 ! i)) HEAP_SIZE = hs_lo (h_slots ?s1 ! i) + 4096"
    using p(2) b(2) h(2) by simp_all
  have inr: "ptr_in_range ?x 8 (hs_lo (h_slots ?s1 ! i)) (hs_lo (h_slots ?s1 ! i) + 4096)"
    using b(3,4) h(2) by (simp add: ptr_in_range_iff)
  have s2: "host_free_impl p ?s1 = upd_module i (\<lambda>m. m\<lparr>free_list := ?x\<rparr>) (?s1\<lparr>h_mem := ?mm\<rparr>)"
    using call1 sub [simplified] inr b(3) p(2) fl1 by (simp add: host_free_impl_def [of p ?s1] Let_def)
  have slots2: "h_slots (host_free_impl p ?s1) = (h_slots s)[i := (h_slots s ! i)\<lparr>free_list := ?x\<rparr>]"
    using f(4) c(2) by (simp add: s2 upd_module_def)
  have "caller (host_free_impl p ?s1) = Some i"
    using c1 [of "host_free_impl p ?s1" ?x "h_mem (host_free_impl p ?s1)"] me1 slots2 by (simp add: s2 upd_module_def caller_def)
  moreover have "first_fit ?mm (round8 n) 0 ?x = None"
  proof (rule first_fit_self_loop)
    show "blk_next ?mm ?x = ?x" using b(2) by (simp add: blk_next_def unat_of_nat take_bit_nat_eq_self)
    show "?x \<noteq> 0" using b(1) by simp
    have "unat (blk_size ?mm ?x) = k" using b(6) by (simp add: blk_size_def)
    then show "blk_size ?mm ?x < round8 n" using round8_small(2) [OF n(3)] n(2) by (simp add: word_less_nat_alt)
  qed
  moreover have "h_mem (host_free_impl p ?s1) = ?mm" by (simp add: s2 upd_module_def)
  moreover have "free_list (h_slots (host_free_impl p ?s1) ! i) = ?x" using slots2 c(2) by simp
  ultimately show ?thesis using n(1) by (simp add: host_alloc_impl_def Let_def)
qed


section \<open>Concrete instances\<close>

definition heap0 :: host where
  "heap0 = (host0 [])\<lparr>h_slots := [host_api_pool_reset held_module, zero_module, zero_module, zero_module]\<rparr>"

lemma heap0_ok: "caller heap0 = Some 0" "0 < length (h_slots heap0)" "heap_ok (h_slots heap0 ! 0) (h_mem heap0) {} []"
  using pool_reset_heap_ok [of held_module "h_mem heap0"]
  by (simp_all add: heap0_def caller_def mdl_caller_slot_def host_api_pool_reset_def)


text \<open>One live block of 16 bytes.\<close>

definition heap1 :: host where
  "heap1 = heap0\<lparr>h_slots := (h_slots heap0)[0 := (h_slots heap0 ! 0)\<lparr>pool_next := 0x20022098\<rparr>],
     h_mem := st32 (0x20022080 + 4) 16 (st32 0x20022080 0 (h_mem heap0))\<rparr>"

lemma heap1_ok: "caller heap1 = Some 0" "0 < length (h_slots heap1)"
  "heap_ok (h_slots heap1 ! 0) (h_mem heap1) {(0x20022080, 16)} []" "(0x20022088 - 8, 16) \<in> live {(0x20022080, 16)} []"
  using alloc_bump(1) [OF heap0_ok(3), of 16]
  by (simp_all add: heap1_def heap0_def caller_def mdl_caller_slot_def host_api_pool_reset_def live_def)

theorem host_free_spec_witness:
  "\<exists>q s''. host_alloc_impl 9 (host_free_impl 0x20022088 heap1) = Some (q, s'') \<and> q \<noteq> 0"
  using host_free_spec [OF heap1_ok(1-4)] by (simp add: Let_def)

theorem host_alloc_wraps_witness:
  "\<exists>s'. host_alloc_impl 0xFFFFFFF8 heap0 = Some (0x20022088, s') \<and> h_slots s' = h_slots heap0"
  using host_alloc_wraps [OF heap0_ok] by (auto simp: heap0_def host_api_pool_reset_def)

theorem host_double_free_hangs_witness:
  "host_alloc_impl 17 (host_free_impl 0x20022088 (host_free_impl 0x20022088 heap1)) = None"
  by (rule host_double_free_hangs [OF heap1_ok(1-4)]) simp_all

text \<open>A freed block of 8 bytes whose link names a word outside the module's memory.\<close>

definition heap2 :: host where
  "heap2 = heap0\<lparr>h_slots := (h_slots heap0)[0 := (h_slots heap0 ! 0)\<lparr>free_list := 0x20022080\<rparr>],
     h_mem := st32 0x20022080 0x20000100 (st32 0x20022084 8 (st32 0x20000100 0x20022100 (st32 0x20000104 0
       (st32 0x20022100 0x41414141 (st32 0x20022104 64 (\<lambda>_. 0))))))\<rparr>"


end
