(* ===== verification/Loader.thy ===== *)
theory Loader
  imports Crc32 Host_Resources Host_Api
begin

text \<open>
  \<open>src/mdl/core/loader.c\<close>, the image layout of \<open>mdl_format.h\<close> it reads, and the relocator
  \<open>src/mdl/arch/arm_cm4/reloc_arm.c\<close>. An image is bytes in memory at an address: the loader
  reads it in place, so a table that reaches past the image reads what follows it.
\<close>

section \<open>The image\<close>

abbreviation MDL_MAGIC :: u32 where "MDL_MAGIC \<equiv> 0x304C444D"
abbreviation ARCH_ARMV7M :: u16 where "ARCH_ARMV7M \<equiv> 1"
abbreviation ARCH_RV32 :: u16 where "ARCH_RV32 \<equiv> 2"
abbreviation HDR_SIZE :: nat where "HDR_SIZE \<equiv> 96"

text \<open>\<open>mdl_header_t\<close>, at its offsets.\<close>

record header =
  magic :: u32
  abi_ver :: u16
  arch :: u16
  hd_crc32 :: u32
  text_size :: nat
  data_size :: nat
  bss_size :: nat
  got_off :: nat
  got_count :: nat
  init_off :: nat
  reloc_off :: nat
  reloc_count :: nat
  cmd_off :: nat
  res_off :: nat
  hd_res_count :: nat
  hd_cmd_name :: "u8 list"
  hd_name :: "u8 list"
  evt_off :: nat
  hd_evt_queue_depth :: u16
  hd_evt_rate_hz :: u16

definition ld16 :: "mem \<Rightarrow> addr \<Rightarrow> u16" where
  "ld16 m a = ucast (m a) OR push_bit 8 (ucast (m (a + 1)))"

definition read_header :: "mem \<Rightarrow> addr \<Rightarrow> header" where
  "read_header m a = \<lparr>magic = ld32 m a, abi_ver = ld16 m (a + 4), arch = ld16 m (a + 6), hd_crc32 = ld32 m (a + 8),
     text_size = unat (ld32 m (a + 12)), data_size = unat (ld32 m (a + 16)), bss_size = unat (ld32 m (a + 20)),
     got_off = unat (ld32 m (a + 24)), got_count = unat (ld32 m (a + 28)), init_off = unat (ld32 m (a + 32)),
     reloc_off = unat (ld32 m (a + 36)), reloc_count = unat (ld32 m (a + 40)), cmd_off = unat (ld32 m (a + 44)),
     res_off = unat (ld32 m (a + 48)), hd_res_count = unat (ld32 m (a + 52)),
     hd_cmd_name = mem_read m (a + 56) CMD_NAME_MAX, hd_name = mem_read m (a + 72) NAME_MAX,
     evt_off = unat (ld32 m (a + 88)), hd_evt_queue_depth = ld16 m (a + 92), hd_evt_rate_hz = ld16 m (a + 94)\<rparr>"

text \<open>\<open>mdl_reloc_t\<close>: 8 bytes; \<open>mdl_res_t\<close>: 4 bytes.\<close>

record reloc =
  got_offset :: u32
  rl_kind :: u8

definition reloc_at :: "mem \<Rightarrow> addr \<Rightarrow> reloc" where
  "reloc_at m a = \<lparr>got_offset = ld32 m a, rl_kind = m (a + 4)\<rparr>"

definition res_at :: "mem \<Rightarrow> addr \<Rightarrow> res" where
  "res_at m a = \<lparr>r_kind = m a, r_id = m (a + 1), r_edge = m (a + 2), r_rsv = m (a + 3)\<rparr>"

definition res_table :: "mem \<Rightarrow> addr \<Rightarrow> nat \<Rightarrow> res list" where
  "res_table m a n = map (\<lambda>i. res_at m (a + 4 * i)) [0 ..< n]"

section \<open>Status codes\<close>

datatype load_status = LOAD_OK | ERR_TOO_SMALL | ERR_BAD_MAGIC | ERR_BAD_CRC | ERR_ABI_MISMATCH | ERR_ARCH_MISMATCH
  | ERR_TEXT_TOO_BIG | ERR_DATA_TOO_BIG | ERR_BAD_RELOC | ERR_BAD_RES | ERR_RES_CONFLICT

fun mdl_load_status_str :: "load_status \<Rightarrow> string" where
  "mdl_load_status_str LOAD_OK = ''ok''"
| "mdl_load_status_str ERR_TOO_SMALL = ''image smaller than header''"
| "mdl_load_status_str ERR_BAD_MAGIC = ''bad magic (not an MDL0 image)''"
| "mdl_load_status_str ERR_BAD_CRC = ''crc32 mismatch (corrupt transfer?)''"
| "mdl_load_status_str ERR_ABI_MISMATCH = ''abi_ver mismatch''"
| "mdl_load_status_str ERR_ARCH_MISMATCH = ''arch mismatch''"
| "mdl_load_status_str ERR_TEXT_TOO_BIG = ''text section exceeds arena text region''"
| "mdl_load_status_str ERR_DATA_TOO_BIG = ''got+data+bss exceeds arena data region''"
| "mdl_load_status_str ERR_BAD_RELOC = ''reloc entry points outside the GOT area''"
| "mdl_load_status_str ERR_BAD_RES = ''malformed resource claim''"
| "mdl_load_status_str ERR_RES_CONFLICT = ''resource conflict''"

section \<open>Relocation\<close>

text \<open>The base an entry names, and the change of one slot of the GOT.\<close>

definition reloc_base :: "module \<Rightarrow> reloc \<Rightarrow> u32" where
  "reloc_base m r = (if rl_kind r = 0 then of_nat (text_lo m) else of_nat (data_lo m))"

definition reloc_slot :: "module \<Rightarrow> reloc \<Rightarrow> mem \<Rightarrow> mem" where
  "reloc_slot m r mm =
     (let slot = add32 (data_lo m) (unat (got_offset r)) in st32 slot (ld32 mm slot + reloc_base m r) mm)"

text \<open>\<open>arch_apply_relocs\<close>: \<open>n\<close> entries from \<open>tbl\<close> on.\<close>

fun arch_apply_relocs :: "module \<Rightarrow> addr \<Rightarrow> nat \<Rightarrow> mem \<Rightarrow> mem" where
  "arch_apply_relocs m tbl 0 mm = mm"
| "arch_apply_relocs m tbl (Suc n) mm = arch_apply_relocs m (tbl + 8) n (reloc_slot m (reloc_at mm tbl) mm)"

section \<open>Validation\<close>

abbreviation DETAIL_LEN :: nat where "DETAIL_LEN \<equiv> 80"

definition bad_res :: "res \<Rightarrow> bool" where
  "bad_res r \<longleftrightarrow> r_kind r = KIND_NONE \<or> KIND_MAX < r_kind r \<or> (r_kind r = KIND_GPIO \<and> 32 \<le> r_id r)"

text \<open>\<open>dest\<close> is the slot the image is for. The result includes the text of \<open>g_detail\<close>.\<close>

definition check_resources :: "mem \<Rightarrow> addr \<Rightarrow> nat \<Rightarrow> nat option \<Rightarrow> slots \<Rightarrow> load_status \<times> string" where
  "check_resources mm tbl n dest ms =
     (if MAX_RES < n then (ERR_BAD_RES, [])
      else let rs = res_table mm tbl n in
        if \<exists>r \<in> set rs. bad_res r then (ERR_BAD_RES, [])
        else case mdl_res_check rs dest ms DETAIL_LEN of
               (ok, detail) \<Rightarrow> if ok then (LOAD_OK, detail) else (ERR_RES_CONFLICT, detail))"

text \<open>The test of one relocation entry.\<close>

definition reloc_in_got :: "nat \<Rightarrow> reloc \<Rightarrow> bool" where
  "reloc_in_got got_bytes r \<longleftrightarrow> unat (got_offset r + 4) \<le> got_bytes"

definition got_bytes :: "header \<Rightarrow> nat" where
  "got_bytes h = mul32 (got_count h) 4"

definition data_region_needed :: "header \<Rightarrow> nat" where
  "data_region_needed h = add32 (add32 (got_bytes h) (data_size h)) (bss_size h)"

definition relocs_ok :: "mem \<Rightarrow> addr \<Rightarrow> header \<Rightarrow> bool" where
  "relocs_ok mm tbl h \<longleftrightarrow> (\<forall>i \<in> set [0 ..< reloc_count h]. reloc_in_got (got_bytes h) (reloc_at mm (tbl + 8 * i)))"

definition mdl_load_validate ::
  "nat option \<Rightarrow> addr \<Rightarrow> nat \<Rightarrow> u16 \<Rightarrow> u16 \<Rightarrow> slots \<Rightarrow> bstate \<Rightarrow> (load_status \<times> string) option" where
  "mdl_load_validate dest img img_len abi ar ms st =
     (let mm = snd st; h = read_header mm img; payload = img + HDR_SIZE; payload_len = img_len - HDR_SIZE in
      if img_len < HDR_SIZE then Some (ERR_TOO_SMALL, [])
      else if magic h \<noteq> MDL_MAGIC then Some (ERR_BAD_MAGIC, [])
      else if mdl_crc32 (mem_read mm payload payload_len) \<noteq> hd_crc32 h then Some (ERR_BAD_CRC, [])
      else if abi_ver h \<noteq> abi then Some (ERR_ABI_MISMATCH, [])
      else if arch h \<noteq> ar then Some (ERR_ARCH_MISMATCH, [])
      else if mdl_buddy_block_size (text_size h) = 0 then Some (ERR_TEXT_TOO_BIG, [])
      else if mdl_buddy_block_size (data_region_needed h) = 0 then Some (ERR_DATA_TOO_BIG, [])
      else case mdl_arena_would_fit (text_size h) (data_region_needed h) st of
        None \<Rightarrow> None
      | Some (fits, need) \<Rightarrow>
          if \<not> fits then Some (ERR_TEXT_TOO_BIG, [])
          else if \<not> relocs_ok mm (add32 payload (reloc_off h)) h then Some (ERR_BAD_RELOC, [])
          else if payload_len < add32 (res_off h) (mul32 (hd_res_count h) 4) then Some (ERR_BAD_RES, [])
          else if 16 < hd_evt_queue_depth h then Some (ERR_BAD_RES, [])
          else Some (check_resources mm (add32 payload (res_off h)) (hd_res_count h) dest ms))"

section \<open>Loading\<close>

text \<open>The claims are recorded in the slot: the entries, their number, and the bitmap of pins.\<close>

definition gpio_bitmap :: "res list \<Rightarrow> u32" where
  "gpio_bitmap rs = foldl (\<lambda>c r. if r_kind r = KIND_GPIO then c OR push_bit (unat (r_id r)) 1 else c) 0 rs"

definition record_claims :: "res list \<Rightarrow> module \<Rightarrow> module" where
  "record_claims rs m = m\<lparr>m_res := rs @ drop (length rs) (m_res m),
     res_count := unat (of_nat (length rs) :: u8), gpio_claimed := gpio_bitmap rs\<rparr>"

text \<open>The copies: text, data, zeroed bss and GOT, in the order of the code.\<close>

definition copy_image :: "header \<Rightarrow> addr \<Rightarrow> module \<Rightarrow> mem \<Rightarrow> mem" where
  "copy_image h payload m mm =
     (let text_dst = text_lo m; got_dst = data_lo m;
          data_dst = add32 got_dst (got_bytes h); bss_dst = add32 data_dst (data_size h);
          mm1 = mem_write text_dst (mem_read mm payload (text_size h)) mm;
          mm2 = mem_write data_dst (mem_read mm1 (add32 payload (text_size h)) (data_size h)) mm1;
          mm3 = mem_zero bss_dst (bss_size h) mm2
      in mem_write got_dst (mem_read mm3 (add32 payload (got_off h)) (got_bytes h)) mm3)"

definition set_entries :: "header \<Rightarrow> module \<Rightarrow> module" where
  "set_entries h m =
     (let m1 = m\<lparr>m_entry := add32 (text_lo m) (init_off h), m_name := take 15 (hd_name h) @ [0]\<rparr>;
          m2 = (if cmd_off h \<noteq> 0
                then m1\<lparr>cmd_entry := add32 (text_lo m) (cmd_off h), cmd_name := take 15 (hd_cmd_name h) @ [0]\<rparr>
                else m1\<lparr>cmd_entry := 0, cmd_name := (cmd_name m)[0 := 0]\<rparr>)
      in m2\<lparr>evt_entry := (if evt_off h \<noteq> 0 then add32 (text_lo m) (evt_off h) else 0),
           evt_queue_depth := hd_evt_queue_depth h, evt_rate_hz := hd_evt_rate_hz h, m_state := SLOT_LOADED\<rparr>)"

definition mdl_load ::
  "nat \<Rightarrow> addr \<Rightarrow> nat \<Rightarrow> u16 \<Rightarrow> u16 \<Rightarrow> slots \<Rightarrow> bstate \<Rightarrow> (load_status \<times> string \<times> slots \<times> bstate) option" where
  "mdl_load i img img_len abi ar ms st =
     (case mdl_load_validate (Some i) img img_len abi ar ms st of
        None \<Rightarrow> None
      | Some (status, detail) \<Rightarrow>
          if status \<noteq> LOAD_OK then Some (status, detail, ms, st)
          else let h = read_header (snd st) img; payload = img + HDR_SIZE;
                   rs = res_table (snd st) (add32 payload (res_off h)) (hd_res_count h);
                   m1 = record_claims rs (ms ! i)
               in case mdl_arena_acquire (text_size h) (data_region_needed h) m1 st of
                    None \<Rightarrow> None
                  | Some (granted, m2, (b, mm)) \<Rightarrow>
                      if \<not> granted then Some (ERR_TEXT_TOO_BIG, detail, ms[i := m2], (b, mm))
                      else let mm1 = copy_image h payload m2 mm;
                               mm2 = arch_apply_relocs m2 (add32 payload (reloc_off h)) (reloc_count h) mm1
                           in Some (LOAD_OK, detail, ms[i := set_entries h m2], (b, mm2)))"

text \<open>\<open>mdl_run\<close>: \<open>arch_call_privileged\<close> (assembly that enters the module) is a parameter.\<close>

definition mdl_run :: "(addr \<Rightarrow> addr \<Rightarrow> int) \<Rightarrow> module \<Rightarrow> int \<times> module" where
  "mdl_run arch_call_privileged m = (arch_call_privileged (m_entry m) (data_lo m), m\<lparr>m_state := SLOT_RUNNING\<rparr>)"

section \<open>What acquiring memory does to memory\<close>

definition pool_of :: "bstate \<Rightarrow> nat set" where
  "pool_of st = {s_base (fst st) ..< s_base (fst st) + 2 ^ 17}"

text \<open>Bytes of live blocks and bytes outside the pool are kept.\<close>

definition keeps_live :: "bstate \<Rightarrow> mem \<Rightarrow> bool" where
  "keeps_live st mm \<longleftrightarrow> (\<forall>(lo, hi) \<in> live_regions st. \<forall>a \<in> {lo ..< hi}. mm a = snd st a)"

definition keeps_outside :: "bstate \<Rightarrow> mem \<Rightarrow> bool" where
  "keeps_outside st mm \<longleftrightarrow> (\<forall>a. a \<notin> pool_of st \<longrightarrow> mm a = snd st a)"

lemma keeps_live_blocks: "keeps_live st mm \<longleftrightarrow> (\<forall>b \<in> live_blocks st. \<forall>a \<in> blk b. mm a = snd st a)"
  by (auto simp: keeps_live_def live_regions_def region_of_def blk_def)

lemma alloc_memory:
  assumes ok: "buddy_ok st" and run: "mdl_buddy_alloc sz st = (a, st')"
  shows "keeps_live st (snd st')" "keeps_outside st (snd st')" "pool_of st' = pool_of st"
    "live_blocks st \<subseteq> live_blocks st'"
proof -
  note c = buddy_ok_config [OF ok]
  have dj: "blk f \<inter> blk b = {}" if "f \<in> free_blocks st" "b \<in> live_blocks st" for f b
    using config_disjoint [OF c, of f b] c that by (auto simp: config_def)
  have sub: "blk f \<subseteq> pool_of st" if "f \<in> free_blocks st" for f
    using config_blockD [OF c, of "fst f" "snd f"] that by (auto simp: pool_of_def blk_def)
  have "st' = st \<or> mem_eq_outside (\<Union> (blk ` free_blocks st)) (snd st) (snd st')"
    and l: "live_blocks st \<subseteq> live_blocks st'" and base: "s_base (fst st') = s_base (fst st)"
    using alloc_full [OF ok run] by (auto split: if_splits)
  then have m: "snd st' x = snd st x" if "x \<notin> \<Union> (blk ` free_blocks st)" for x
    using that by (auto simp: mem_eq_outside_def)
  show "keeps_live st (snd st')" unfolding keeps_live_blocks using m dj by blast
  show "keeps_outside st (snd st')" unfolding keeps_outside_def using m sub by blast
  show "pool_of st' = pool_of st" "live_blocks st \<subseteq> live_blocks st'" using base l by (simp_all add: pool_of_def)
qed

lemma keeps_live_trans:
  "keeps_live st (snd st1) \<Longrightarrow> keeps_live st1 mm \<Longrightarrow> live_blocks st \<subseteq> live_blocks st1 \<Longrightarrow> keeps_live st mm"
  unfolding keeps_live_blocks by (metis subsetD)

lemma keeps_outside_trans:
  "keeps_outside st (snd st1) \<Longrightarrow> keeps_outside st1 mm \<Longrightarrow> pool_of st1 = pool_of st \<Longrightarrow> keeps_outside st mm"
  by (simp add: keeps_outside_def)

lemma acquire_some:
  assumes "buddy_ok st"
  shows "\<exists>g m' b mm. mdl_arena_acquire tb db m st = Some (g, m', (b, mm))"
  using assms
proof (cases rule: acquire_total [where text_bytes = tb and data_bytes = db and m = m])
  case (granted t d h st')
  then show ?thesis by (cases st') auto
next
  case (refused st')
  then show ?thesis by (cases st') auto
qed

lemma acquire_memory:
  assumes ok: "buddy_ok st" and run: "mdl_arena_acquire tb db m st = Some (granted, m', st')"
  shows "keeps_live st (snd st')" "granted \<Longrightarrow> keeps_outside st (snd st')" "granted \<Longrightarrow> pool_of st' = pool_of st"
    "granted \<Longrightarrow> live_blocks st \<subseteq> live_blocks st'"
proof -
  obtain t st1 where A: "mdl_buddy_alloc tb st = (t, st1)" by (cases "mdl_buddy_alloc tb st")
  obtain d st2 where B: "mdl_buddy_alloc db st1 = (d, st2)" by (cases "mdl_buddy_alloc db st1")
  obtain h st3 where C: "mdl_buddy_alloc HEAPSTACK_BYTES st2 = (h, st3)" by (cases "mdl_buddy_alloc HEAPSTACK_BYTES st2")
  note ok1 = bud.alloc_ok [OF ok A] note ok2 = bud.alloc_ok [OF ok1 B] note ok3 = bud.alloc_ok [OF ok2 C]
  note a = alloc_memory [OF ok A] and b = alloc_memory [OF ok1 B] and c = alloc_memory [OF ok2 C]
  have l3: "live_blocks st \<subseteq> live_blocks st3" using a(4) b(4) c(4) by blast
  have kl: "keeps_live st (snd st3)"
    using keeps_live_trans [OF keeps_live_trans [OF a(1) b(1) a(4)] c(1)] a(4) b(4) by blast
  have ko: "keeps_outside st (snd st3)"
    using keeps_outside_trans [OF keeps_outside_trans [OF a(2) b(2) a(3)] c(2)] a(3) b(3) by simp
  have "keeps_live st (snd st') \<and> (granted \<longrightarrow> keeps_outside st (snd st') \<and> pool_of st' = pool_of st
      \<and> live_blocks st \<subseteq> live_blocks st')"
  proof (cases "t = 0 \<or> d = 0 \<or> h = 0")
    case False
    then have "st' = st3" using run A B C by (simp add: mdl_arena_acquire_def)
    then show ?thesis using kl ko l3 a(3) b(3) c(3) by simp
  next
    case True
    obtain st4 where 4: "mdl_buddy_free t st3 = Some st4" "buddy_ok st4" "live_blocks st4 = {b \<in> live_blocks st3. snd b \<noteq> t}"
      "\<forall>b \<in> live_blocks st4. \<forall>x \<in> blk b. snd st4 x = snd st3 x" using free_full [OF ok3, of t] by blast
    obtain st5 where 5: "mdl_buddy_free d st4 = Some st5" "buddy_ok st5" "live_blocks st5 = {b \<in> live_blocks st4. snd b \<noteq> d}"
      "\<forall>b \<in> live_blocks st5. \<forall>x \<in> blk b. snd st5 x = snd st4 x" using free_full [OF 4(2), of d] by blast
    obtain st6 where 6: "mdl_buddy_free h st5 = Some st6" "buddy_ok st6" "live_blocks st6 = {b \<in> live_blocks st5. snd b \<noteq> h}"
      "\<forall>b \<in> live_blocks st6. \<forall>x \<in> blk b. snd st6 x = snd st5 x" using free_full [OF 5(2), of h] by blast
    have r: "st' = st6" "\<not> granted" using run A B C True 4(1) 5(1) 6(1) by (auto simp: mdl_arena_acquire_def)
    have l6: "live_blocks st6 = live_blocks st"
      using ok run r by (cases rule: acquire_total [where text_bytes = tb and data_bytes = db and m = m]) auto
    have "snd st6 x = snd st x" if "b \<in> live_blocks st" "x \<in> blk b" for b x
    proof -
      have "b \<in> live_blocks st6" "b \<in> live_blocks st5" "b \<in> live_blocks st4" using that(1) l6 6(3) 5(3) by auto
      then have "snd st6 x = snd st3 x" using 4(4) 5(4) 6(4) that(2) by simp
      then show ?thesis using kl that by (auto simp: keeps_live_blocks)
    qed
    then show ?thesis using r by (auto simp: keeps_live_blocks)
  qed
  then show "keeps_live st (snd st')" "granted \<Longrightarrow> keeps_outside st (snd st')" "granted \<Longrightarrow> pool_of st' = pool_of st"
    "granted \<Longrightarrow> live_blocks st \<subseteq> live_blocks st'" by blast+
qed

section \<open>Relocation touches the GOT only\<close>

definition reloc_entries :: "mem \<Rightarrow> addr \<Rightarrow> nat \<Rightarrow> reloc list" where
  "reloc_entries mm tbl n = map (\<lambda>i. reloc_at mm (tbl + 8 * i)) [0 ..< n]"

lemma reloc_entries_Suc: "reloc_entries mm tbl (Suc n) = reloc_at mm tbl # reloc_entries mm (tbl + 8) n"
  by (simp add: reloc_entries_def upt_conv_Cons map_Suc_upt [symmetric] ac_simps del: upt_Suc)

lemma reloc_entries_cong:
  assumes "\<And>a. tbl \<le> a \<Longrightarrow> a < tbl + 8 * n \<Longrightarrow> mm' a = mm a"
  shows "reloc_entries mm' tbl n = reloc_entries mm tbl n"
  using assms by (auto simp: reloc_entries_def reloc_at_def ld32_def)

definition in_got :: "nat \<Rightarrow> reloc \<Rightarrow> bool" where
  "in_got gb r \<longleftrightarrow> unat (got_offset r) + 4 \<le> gb"

lemma reloc_slot_eq:
  assumes "in_got gb r" "data_lo m + gb < 2 ^ 32"
  shows "reloc_slot m r mm = st32 (data_lo m + unat (got_offset r)) (ld32 mm (data_lo m + unat (got_offset r)) + reloc_base m r) mm"
  using assms by (simp add: reloc_slot_def in_got_def Let_def)

lemma reloc_slot_outside:
  assumes "in_got gb r" "data_lo m + gb < 2 ^ 32" "a < data_lo m \<or> data_lo m + gb \<le> a"
  shows "reloc_slot m r mm a = mm a"
  using assms(3) assms(1) unfolding reloc_slot_eq [OF assms(1,2)] by (auto simp: in_got_def st32_other)

lemma apply_relocs_fold:
  assumes "\<forall>r \<in> set (reloc_entries mm tbl n). in_got gb r" "data_lo m + gb < 2 ^ 32"
    "tbl + 8 * n \<le> data_lo m \<or> data_lo m + gb \<le> tbl"
  shows "arch_apply_relocs m tbl n mm = fold (reloc_slot m) (reloc_entries mm tbl n) mm"
  using assms
proof (induction n arbitrary: tbl mm)
  case (Suc n)
  let ?mm = "reloc_slot m (reloc_at mm tbl) mm"
  have r: "in_got gb (reloc_at mm tbl)" using Suc.prems(1) by (simp add: reloc_entries_Suc)
  have eq: "reloc_entries ?mm (tbl + 8) n = reloc_entries mm (tbl + 8) n"
    using reloc_slot_outside [OF r Suc.prems(2)] Suc.prems(3) by (intro reloc_entries_cong) auto
  have "arch_apply_relocs m (tbl + 8) n ?mm = fold (reloc_slot m) (reloc_entries ?mm (tbl + 8) n) ?mm"
    by (rule Suc.IH) (use Suc.prems eq in \<open>auto simp: reloc_entries_Suc\<close>)
  then show ?case by (simp add: eq reloc_entries_Suc)
qed (simp add: reloc_entries_def)

lemma fold_reloc_outside:
  assumes "\<forall>r \<in> set rs. in_got gb r" "data_lo m + gb < 2 ^ 32" "a < data_lo m \<or> data_lo m + gb \<le> a"
  shows "fold (reloc_slot m) rs mm a = mm a"
  using assms(1)
proof (induction rs arbitrary: mm)
  case (Cons r rs)
  then show ?case using reloc_slot_outside [OF _ assms(2,3)] by simp
qed simp

lemma fold_reloc_value:
  assumes "\<forall>r \<in> set rs. in_got gb r \<and> 4 dvd unat (got_offset r)" "data_lo m + gb < 2 ^ 32" "4 dvd k"
  shows "ld32 (fold (reloc_slot m) rs mm) (data_lo m + k) =
    ld32 mm (data_lo m + k) + (\<Sum>r \<leftarrow> rs. if unat (got_offset r) = k then reloc_base m r else 0)"
  using assms(1)
proof (induction rs arbitrary: mm)
  case (Cons r rs)
  have r: "in_got gb r" "4 dvd unat (got_offset r)" using Cons.prems by simp_all
  have "ld32 (reloc_slot m r mm) (data_lo m + k) =
      ld32 mm (data_lo m + k) + (if unat (got_offset r) = k then reloc_base m r else 0)"
  proof (cases "unat (got_offset r) = k")
    case True
    then show ?thesis unfolding reloc_slot_eq [OF r(1) assms(2)] by simp
  next
    case False
    have "unat (got_offset r) + 4 \<le> k \<or> k + 4 \<le> unat (got_offset r)" using False r(2) assms(3) by presburger
    then show ?thesis using False unfolding reloc_slot_eq [OF r(1) assms(2)] by auto
  qed
  then show ?case using Cons by (simp add: ac_simps)
qed simp

section \<open>A well-formed image\<close>

text \<open>
  What the packer guarantees: every table and section lies inside the image, the sizes add up without
  wrapping, the relocation offsets are aligned and do not wrap. The image is a buffer of the host, so it is not
  in the pool.
\<close>

definition image_ok :: "bstate \<Rightarrow> addr \<Rightarrow> nat \<Rightarrow> bool" where
  "image_ok st img len \<longleftrightarrow> (let h = read_header (snd st) img; pl = len - HDR_SIZE in
     img + len < 2 ^ 32 \<and> {img ..< img + len} \<inter> pool_of st = {}
     \<and> text_size h + data_size h \<le> pl \<and> got_off h + 4 * got_count h \<le> pl
     \<and> reloc_off h + 8 * reloc_count h \<le> pl \<and> res_off h + 4 * hd_res_count h \<le> pl
     \<and> 4 * got_count h + data_size h + bss_size h < 2 ^ 32
     \<and> (\<forall>r \<in> set (reloc_entries (snd st) (img + HDR_SIZE + reloc_off h) (reloc_count h)).
          unat (got_offset r) + 4 < 2 ^ 32 \<and> 4 dvd unat (got_offset r)))"

lemma mem_read_cong: "(\<And>x. a \<le> x \<Longrightarrow> x < a + n \<Longrightarrow> mm' x = mm x) \<Longrightarrow> mem_read mm' a n = mem_read mm a n"
  by (simp add: mem_read_def)

text \<open>The four copies, with sources and destinations apart.\<close>

lemma copy_image_eq:
  fixes p :: nat
  assumes g: "got_bytes h = gb" and d: "data_lo m + gb + data_size h + bss_size h < 2 ^ 32"
    and src: "p + text_size h + data_size h < 2 ^ 32" "p + got_off h + gb < 2 ^ 32"
    and apart: "\<And>a. p \<le> a \<Longrightarrow> a < p + text_size h + data_size h \<or> (p + got_off h \<le> a \<and> a < p + got_off h + gb) \<Longrightarrow>
      \<not> (text_lo m \<le> a \<and> a < text_lo m + text_size h) \<and> \<not> (data_lo m \<le> a \<and> a < data_lo m + gb + data_size h + bss_size h)"
  shows "copy_image h p m mm =
    mem_write (data_lo m) (mem_read mm (p + got_off h) gb)
      (mem_zero (data_lo m + gb + data_size h) (bss_size h)
        (mem_write (data_lo m + gb) (mem_read mm (p + text_size h) (data_size h))
          (mem_write (text_lo m) (mem_read mm p (text_size h)) mm)))"
proof -
  let ?m1 = "mem_write (text_lo m) (mem_read mm p (text_size h)) mm"
  let ?m2 = "mem_write (data_lo m + gb) (mem_read mm (p + text_size h) (data_size h)) ?m1"
  let ?m3 = "mem_zero (data_lo m + gb + data_size h) (bss_size h) ?m2"
  have a: "add32 (data_lo m) gb = data_lo m + gb" "add32 (data_lo m + gb) (data_size h) = data_lo m + gb + data_size h"
    "add32 p (text_size h) = p + text_size h" "add32 p (got_off h) = p + got_off h"
    using d src by simp_all
  have 1: "mem_read ?m1 (p + text_size h) (data_size h) = mem_read mm (p + text_size h) (data_size h)"
  proof (rule mem_read_cong)
    fix x assume "p + text_size h \<le> x" "x < p + text_size h + data_size h"
    then show "?m1 x = mm x" using apart [of x] by (auto simp: mem_write_def)
  qed
  have 3: "mem_read ?m3 (p + got_off h) gb = mem_read mm (p + got_off h) gb"
  proof (rule mem_read_cong)
    fix x assume "p + got_off h \<le> x" "x < p + got_off h + gb"
    then show "?m3 x = mm x" using apart [of x] by (auto simp: mem_write_def mem_zero_def)
  qed
  show ?thesis unfolding copy_image_def Let_def g a 1 3 ..
qed

lemma mem_layout:
  fixes t g gb ds bs :: nat and mm :: mem
  assumes "length T = ts" "length G = gb" "length D = ds" "t + ts \<le> g \<or> g + gb + ds + bs \<le> t"
  defines "mm' \<equiv> mem_write g G (mem_zero (g + gb + ds) bs (mem_write (g + gb) D (mem_write t T mm)))"
  shows "k < ts \<Longrightarrow> mm' (t + k) = T ! k" "k < gb \<Longrightarrow> mm' (g + k) = G ! k" "k < ds \<Longrightarrow> mm' (g + gb + k) = D ! k"
    "k < bs \<Longrightarrow> mm' (g + gb + ds + k) = 0"
    "a < t \<or> t + ts \<le> a \<Longrightarrow> a < g \<or> g + gb + ds + bs \<le> a \<Longrightarrow> mm' a = mm a"
  using assms(1-4) by (auto simp: mm'_def mem_write_def mem_zero_def)

section \<open>What an accepted load has established\<close>

lemma validate_accepted:
  assumes "mdl_load_validate dest img len abi ar ms st = Some (LOAD_OK, d)"
  defines "h \<equiv> read_header (snd st) img" and "p \<equiv> img + HDR_SIZE"
  shows "HDR_SIZE \<le> len" "magic h = MDL_MAGIC" "mdl_crc32 (mem_read (snd st) p (len - HDR_SIZE)) = hd_crc32 h"
    "abi_ver h = abi" "arch h = ar" "relocs_ok (snd st) (add32 p (reloc_off h)) h" "hd_res_count h \<le> MAX_RES"
    "hd_evt_queue_depth h \<le> 16"
    "\<forall>r \<in> set (res_table (snd st) (add32 p (res_off h)) (hd_res_count h)). \<not> bad_res r"
    "fst (mdl_res_check (res_table (snd st) (add32 p (res_off h)) (hd_res_count h)) dest ms DETAIL_LEN)"
proof -
  note v = assms(1) [unfolded mdl_load_validate_def Let_def, folded h_def p_def]
  have c: "check_resources (snd st) (add32 p (res_off h)) (hd_res_count h) dest ms = (LOAD_OK, d)"
    and rest: "HDR_SIZE \<le> len" "magic h = MDL_MAGIC" "mdl_crc32 (mem_read (snd st) p (len - HDR_SIZE)) = hd_crc32 h"
    "abi_ver h = abi" "arch h = ar" "relocs_ok (snd st) (add32 p (reloc_off h)) h" "hd_evt_queue_depth h \<le> 16"
    using v by (simp_all add: not_less split: if_splits option.splits prod.splits)
  show "HDR_SIZE \<le> len" "magic h = MDL_MAGIC" "mdl_crc32 (mem_read (snd st) p (len - HDR_SIZE)) = hd_crc32 h"
    "abi_ver h = abi" "arch h = ar" "relocs_ok (snd st) (add32 p (reloc_off h)) h" "hd_evt_queue_depth h \<le> 16"
    by (rule rest)+
  show "hd_res_count h \<le> MAX_RES"
    "\<forall>r \<in> set (res_table (snd st) (add32 p (res_off h)) (hd_res_count h)). \<not> bad_res r"
    "fst (mdl_res_check (res_table (snd st) (add32 p (res_off h)) (hd_res_count h)) dest ms DETAIL_LEN)"
    using c by (auto simp: check_resources_def Let_def split: if_splits prod.splits)
qed

lemma validate_total:
  assumes "buddy_ok st"
  shows "\<exists>r. mdl_load_validate dest img len abi ar ms st = Some r"
proof -
  obtain a b where "mdl_buddy_stats st = Some (a, b)" using stats_full [OF assms] by blast
  then have "\<exists>f n. mdl_arena_would_fit x y st = Some (f, n)" for x y
    by (auto simp: mdl_arena_would_fit_def Let_def)
  then obtain f n where "mdl_arena_would_fit (text_size (read_header (snd st) img))
      (data_region_needed (read_header (snd st) img)) st = Some (f, n)" by blast
  then show ?thesis by (simp add: mdl_load_validate_def Let_def)
qed

lemma load_accepted:
  assumes "mdl_load i img len abi ar ms st = Some (LOAD_OK, d, ms', st')"
  defines "h \<equiv> read_header (snd st) img" and "p \<equiv> img + HDR_SIZE"
  obtains m2 b mm where "mdl_load_validate (Some i) img len abi ar ms st = Some (LOAD_OK, d)"
    "mdl_arena_acquire (text_size h) (data_region_needed h)
       (record_claims (res_table (snd st) (add32 p (res_off h)) (hd_res_count h)) (ms ! i)) st = Some (True, m2, (b, mm))"
    "ms' = ms[i := set_entries h m2]"
    "st' = (b, arch_apply_relocs m2 (add32 p (reloc_off h)) (reloc_count h) (copy_image h p m2 mm))"
proof -
  obtain s0 d0 where v: "mdl_load_validate (Some i) img len abi ar ms st = Some (s0, d0)"
    using assms(1) by (auto simp: mdl_load_def split: option.splits)
  have s0: "s0 = LOAD_OK" using assms(1) v by (auto simp: mdl_load_def split: if_splits)
  let ?rs = "res_table (snd st) (add32 p (res_off h)) (hd_res_count h)"
  obtain g m2 b mm where a: "mdl_arena_acquire (text_size h) (data_region_needed h) (record_claims ?rs (ms ! i)) st = Some (g, m2, (b, mm))"
    using assms(1) v s0 by (auto simp: mdl_load_def Let_def h_def p_def split: option.splits)
  have g: "g" using assms(1) v s0 a by (auto simp: mdl_load_def Let_def h_def p_def split: if_splits)
  then have r: "d0 = d" "ms' = ms[i := set_entries h m2]"
    "st' = (b, arch_apply_relocs m2 (add32 p (reloc_off h)) (reloc_count h) (copy_image h p m2 mm))"
    using assms(1) v s0 a by (auto simp: mdl_load_def Let_def h_def p_def)
  show thesis by (rule that [OF _ _ r(2,3)]) (use v s0 r(1) a g in auto)
qed

text \<open>The claims do not touch the regions; \<open>set_entries\<close> changes no region either.\<close>

lemma record_claims_regions [simp]:
  "arena_held (record_claims rs m) = arena_held m" "regions_of (record_claims rs m) = regions_of m"
  by (simp_all add: record_claims_def regions_of_def)

lemma set_entries_bounds [simp]:
  "text_lo (set_entries h m) = text_lo m" "text_hi (set_entries h m) = text_hi m" "data_lo (set_entries h m) = data_lo m"
  "data_hi (set_entries h m) = data_hi m" "hs_lo (set_entries h m) = hs_lo m" "hs_hi (set_entries h m) = hs_hi m"
  "arena_held (set_entries h m) = arena_held m" "regions_of (set_entries h m) = regions_of m"
  "m_state (set_entries h m) = SLOT_LOADED" "m_entry (set_entries h m) = add32 (text_lo m) (init_off h)"
  "m_res (set_entries h m) = m_res m" "res_count (set_entries h m) = res_count m" "gpio_claimed (set_entries h m) = gpio_claimed m"
  by (simp_all add: set_entries_def Let_def regions_of_def)

lemma set_bounds_res [simp]:
  "m_res (set_bounds t d k tb db m) = m_res m" "res_count (set_bounds t d k tb db m) = res_count m"
  "gpio_claimed (set_bounds t d k tb db m) = gpio_claimed m"
  by (simp_all add: set_bounds_def)

lemma arena_inv_cong:
  "arena_inv ms st \<Longrightarrow> map regions_of ms' = map regions_of ms \<Longrightarrow> arena_inv ms' st"
  by (simp add: arena_inv_def)

text \<open>The sizes of a well-formed image.\<close>

lemma image_ok_sizes:
  assumes "image_ok st img len"
  defines "h \<equiv> read_header (snd st) img"
  shows "got_bytes h = 4 * got_count h" "data_region_needed h = 4 * got_count h + data_size h + bss_size h"
  using assms(1) unfolding image_ok_def Let_def h_def [symmetric]
  by (simp_all add: got_bytes_def data_region_needed_def)

text \<open>Everything the theorems about a successful load need, for the blocks granted.\<close>

lemma load_granted:
  fixes st :: bstate
  assumes inv: "arena_inv ms st" and i: "i < length ms" "\<not> arena_held (ms ! i)"
    and acq: "mdl_arena_acquire tb db (record_claims rs (ms ! i)) st = Some (True, m2, (b, mm))"
  shows "arena_held m2" "arena_inv (ms[i := m2]) (b, mm)"
    "text_lo m2 + tb \<le> text_hi m2" "data_lo m2 + db \<le> data_hi m2" "text_hi m2 < 2 ^ 32" "data_hi m2 < 2 ^ 32"
    "{text_lo m2 ..< text_hi m2} \<inter> {data_lo m2 ..< data_hi m2} = {}"
    "{text_lo m2 ..< text_hi m2} \<subseteq> pool_of st" "{data_lo m2 ..< data_hi m2} \<subseteq> pool_of st"
    "keeps_live st mm" "keeps_outside st mm" "bounds_ok m2" "m_res m2 = m_res (record_claims rs (ms ! i))"
    "res_count m2 = res_count (record_claims rs (ms ! i))" "gpio_claimed m2 = gpio_claimed (record_claims rs (ms ! i))"
proof -
  have ok: "buddy_ok st" using inv by (simp add: arena_inv_def)
  have inv1: "arena_inv (ms[i := record_claims rs (ms ! i)]) st"
    by (rule arena_inv_cong [OF inv]) (simp add: map_update list_update_same_conv i)
  note held = arena_inv_acquire [OF inv1, of i tb db True m2 "(b, mm)"]
  have a: "arena_inv (ms[i := record_claims rs (ms ! i), i := m2]) (b, mm)" "arena_held m2"
    using held i acq by simp_all
  then show h: "arena_held m2" and ai: "arena_inv (ms[i := m2]) (b, mm)" by simp_all
  have hb: "mdl_buddy_block_size HEAPSTACK_BYTES = 8192" using block_size_examples(5) by simp
  obtain t d k where m2: "m2 = set_bounds t d k tb db (record_claims rs (ms ! i))" "tb \<le> mdl_buddy_block_size tb"
    "t + mdl_buddy_block_size tb < 2 ^ 32" "db \<le> mdl_buddy_block_size db" "d + mdl_buddy_block_size db < 2 ^ 32"
    "k + 8192 < 2 ^ 32"
    using ok
  proof (cases rule: acquire_total [where text_bytes = tb and data_bytes = db and m = "record_claims rs (ms ! i)"])
    case (granted t d k st')
    then show thesis using acq hb by (intro that [of t d k]) auto
  next
    case (refused st')
    then show thesis using acq by simp
  qed
  then show "text_lo m2 + tb \<le> text_hi m2" "data_lo m2 + db \<le> data_hi m2" "text_hi m2 < 2 ^ 32" "data_hi m2 < 2 ^ 32"
    "bounds_ok m2" using hb by (simp_all add: set_bounds_def bounds_ok_def)
  show "m_res m2 = m_res (record_claims rs (ms ! i))" "res_count m2 = res_count (record_claims rs (ms ! i))"
    "gpio_claimed m2 = gpio_claimed (record_claims rs (ms ! i))" by (simp_all add: m2(1))
  have il: "i < length (ms[i := m2])" "arena_held (ms[i := m2] ! i)" using i h by simp_all
  show "{text_lo m2 ..< text_hi m2} \<inter> {data_lo m2 ..< data_hi m2} = {}"
    using own_regions_disjoint(3) [OF ai il] i by simp
  note mem = acquire_memory [OF ok acq]
  have pool: "pool_of (b, mm) = pool_of st" using mem(3) by simp
  have sub: "{lo ..< hi} \<subseteq> pool_of st" if "(lo, hi) \<in> set (regions_of m2)" for lo hi
  proof -
    have "(lo, hi) \<in> live_regions (b, mm)"
      using arena_inv_live [OF ai, of m2] set_update_memI [OF i(1), of m2] that by blast
    then obtain j where j: "(j, lo) \<in> live_blocks (b, mm)" "hi = lo + 2 ^ j" by (auto simp: live_regions_def region_of_def)
    have "buddy_ok (b, mm)" using ai by (simp add: arena_inv_def)
    from buddy_live_bounds(5,6) [OF this j(1)] show ?thesis unfolding pool [symmetric] j(2) by (auto simp: pool_of_def)
  qed
  show "{text_lo m2 ..< text_hi m2} \<subseteq> pool_of st" "{data_lo m2 ..< data_hi m2} \<subseteq> pool_of st"
    by (rule sub, use h in \<open>simp add: regions_of_def\<close>)+
  show "keeps_live st mm" "keeps_outside st mm" using mem(1,2) by simp_all
qed

section \<open>A loaded image\<close>

text \<open>The memory after a successful load of a well-formed image, in one place.\<close>

lemma load_memory:
  fixes st :: bstate
  assumes inv: "arena_inv ms st" and i: "i < length ms" "\<not> arena_held (ms ! i)" and wf: "image_ok st img len"
    and run: "mdl_load i img len abi ar ms st = Some (LOAD_OK, d, ms', (b, mm'))"
  defines "h \<equiv> read_header (snd st) img" and "p \<equiv> img + HDR_SIZE" and "src \<equiv> snd st"
  defines "gb \<equiv> 4 * got_count h"
  obtains m2 mm where "ms' = ms[i := set_entries h m2]"
    "mdl_arena_acquire (text_size h) (gb + data_size h + bss_size h)
       (record_claims (res_table src (p + res_off h) (hd_res_count h)) (ms ! i)) st = Some (True, m2, (b, mm))"
    "mm' = fold (reloc_slot m2) (reloc_entries src (p + reloc_off h) (reloc_count h))
       (mem_write (data_lo m2) (mem_read src (p + got_off h) gb)
         (mem_zero (data_lo m2 + gb + data_size h) (bss_size h)
           (mem_write (data_lo m2 + gb) (mem_read src (p + text_size h) (data_size h))
             (mem_write (text_lo m2) (mem_read src p (text_size h)) mm))))"
    "\<forall>r \<in> set (reloc_entries src (p + reloc_off h) (reloc_count h)). in_got gb r \<and> 4 dvd unat (got_offset r)"
proof -
  obtain m2 mm where L: "mdl_load_validate (Some i) img len abi ar ms st = Some (LOAD_OK, d)"
    "mdl_arena_acquire (text_size h) (data_region_needed h)
       (record_claims (res_table src (add32 p (res_off h)) (hd_res_count h)) (ms ! i)) st = Some (True, m2, (b, mm))"
    "ms' = ms[i := set_entries h m2]"
    "mm' = arch_apply_relocs m2 (add32 p (reloc_off h)) (reloc_count h) (copy_image h p m2 mm)"
    by (rule load_accepted [OF run, folded h_def p_def src_def]) auto
  note V = validate_accepted [OF L(1), folded h_def p_def src_def]
  note S = image_ok_sizes [OF wf, folded h_def]
  have W: "img + len < 2 ^ 32" "{img ..< img + len} \<inter> pool_of st = {}" "text_size h + data_size h \<le> len - HDR_SIZE"
    "got_off h + gb \<le> len - HDR_SIZE" "reloc_off h + 8 * reloc_count h \<le> len - HDR_SIZE"
    "res_off h + 4 * hd_res_count h \<le> len - HDR_SIZE"
    "\<forall>r \<in> set (reloc_entries src (p + reloc_off h) (reloc_count h)). unat (got_offset r) + 4 < 2 ^ 32 \<and> 4 dvd unat (got_offset r)"
    using wf by (simp_all add: image_ok_def Let_def h_def p_def gb_def src_def)
  have pl: "p + (len - HDR_SIZE) = img + len" using V(1) by (simp add: p_def)
  have a32: "add32 p (res_off h) = p + res_off h" "add32 p (reloc_off h) = p + reloc_off h" using W pl by simp_all
  note acq = L(2) [unfolded S(2) a32(1), folded gb_def]
  note G = load_granted [OF inv i acq]
  have outp: "mm x = src x" if "img \<le> x" "x < img + len" for x
    using G(11) W(2) that by (auto simp: keeps_outside_def src_def)
  have clear: "\<not> (text_lo m2 \<le> x \<and> x < text_lo m2 + text_size h) \<and> \<not> (data_lo m2 \<le> x \<and> x < data_lo m2 + gb + data_size h + bss_size h)"
    if "img \<le> x" "x < img + len" for x
  proof -
    have "x \<notin> pool_of st" using W(2) that by auto
    then have "x \<notin> {text_lo m2 ..< text_hi m2}" "x \<notin> {data_lo m2 ..< data_hi m2}" using G(8,9) by blast+
    then show ?thesis using G(3,4) by auto
  qed
  have inimg: "img \<le> x \<and> x < img + len" if "p \<le> x" "x < p + (len - HDR_SIZE)" for x using that pl by (simp add: p_def)
  have dl: "data_lo m2 + gb + data_size h + bss_size h < 2 ^ 32" using G(4,6) by simp
  have cp: "copy_image h p m2 mm = mem_write (data_lo m2) (mem_read mm (p + got_off h) gb)
      (mem_zero (data_lo m2 + gb + data_size h) (bss_size h)
        (mem_write (data_lo m2 + gb) (mem_read mm (p + text_size h) (data_size h))
          (mem_write (text_lo m2) (mem_read mm p (text_size h)) mm)))"
  proof (rule copy_image_eq)
    show "got_bytes h = gb" by (simp add: S(1) gb_def)
    fix x assume "p \<le> x" "x < p + text_size h + data_size h \<or> p + got_off h \<le> x \<and> x < p + got_off h + gb"
    then have "x < p + (len - HDR_SIZE)" using W(3,4) by auto
    then show "\<not> (text_lo m2 \<le> x \<and> x < text_lo m2 + text_size h) \<and> \<not> (data_lo m2 \<le> x \<and> x < data_lo m2 + gb + data_size h + bss_size h)"
      using clear inimg \<open>p \<le> x\<close> by blast
  qed (use dl W(1,3,4) pl in auto)
  have rd: "mem_read mm x n = mem_read src x n" if "p \<le> x" "x + n \<le> p + (len - HDR_SIZE)" for x n
    using that outp inimg by (intro mem_read_cong) auto
  have r3: "mem_read mm (p + got_off h) gb = mem_read src (p + got_off h) gb"
    "mem_read mm (p + text_size h) (data_size h) = mem_read src (p + text_size h) (data_size h)"
    "mem_read mm p (text_size h) = mem_read src p (text_size h)" using W(3,4) by (simp_all add: rd)
  let ?mm1 = "copy_image h p m2 mm"
  have untouched: "?mm1 x = src x" if "img \<le> x" "x < img + len" for x
    using clear [OF that] outp [OF that] unfolding cp by (auto simp: mem_write_def mem_zero_def)
  have ent: "reloc_entries ?mm1 (p + reloc_off h) (reloc_count h) = reloc_entries src (p + reloc_off h) (reloc_count h)"
    using W(5) by (intro reloc_entries_cong untouched) (auto simp: p_def)
  have ing: "\<forall>r \<in> set (reloc_entries src (p + reloc_off h) (reloc_count h)). in_got gb r"
  proof
    fix r assume r: "r \<in> set (reloc_entries src (p + reloc_off h) (reloc_count h))"
    then have "reloc_in_got gb r"
      using V(6) unfolding relocs_ok_def a32 S(1) gb_def [symmetric] by (auto simp: reloc_entries_def)
    moreover have "unat (got_offset r + 4) = unat (got_offset r) + 4" using W(7) r by (simp add: unat_word_ariths)
    ultimately show "in_got gb r" by (simp add: reloc_in_got_def in_got_def)
  qed
  have dis: "p + reloc_off h + 8 * reloc_count h \<le> data_lo m2 \<or> data_lo m2 + gb \<le> p + reloc_off h" if "0 < reloc_count h" "0 < gb"
  proof (rule ccontr)
    assume n: "\<not> (p + reloc_off h + 8 * reloc_count h \<le> data_lo m2 \<or> data_lo m2 + gb \<le> p + reloc_off h)"
    define x where "x = max (data_lo m2) (p + reloc_off h)"
    have "p \<le> x" "x < p + (len - HDR_SIZE)" "data_lo m2 \<le> x" "x < data_lo m2 + gb"
      using n W(5) that by (auto simp: x_def p_def)
    then show False using clear inimg by fastforce
  qed
  have fold: "arch_apply_relocs m2 (p + reloc_off h) (reloc_count h) ?mm1 =
      fold (reloc_slot m2) (reloc_entries src (p + reloc_off h) (reloc_count h)) ?mm1"
  proof (cases "reloc_count h = 0")
    case False
    then have "reloc_entries src (p + reloc_off h) (reloc_count h) \<noteq> []" by (simp add: reloc_entries_def)
    then have "0 < gb" using ing by (cases "reloc_entries src (p + reloc_off h) (reloc_count h)") (auto simp: in_got_def)
    then show ?thesis using apply_relocs_fold [of ?mm1 "p + reloc_off h" "reloc_count h" gb m2] ent ing dl dis False by simp
  qed (simp add: reloc_entries_def)
  show thesis
    by (rule that [OF L(3) acq]) (use L(4) a32 fold cp r3 ing W(7) in auto)
qed

text \<open>What a copy to separate regions holds after its relocation.\<close>

lemma relocated_copy:
  fixes src :: mem
  assumes rs: "\<forall>r \<in> set rs. in_got gb r \<and> 4 dvd unat (got_offset r)" and dl: "data_lo m + gb < 2 ^ 32"
    and apart: "\<And>x. \<not> (text_lo m \<le> x \<and> x < text_lo m + ts \<and> data_lo m \<le> x \<and> x < data_lo m + gb + ds + bs)"
    and copied: "mm' = fold (reloc_slot m) rs (mem_write (data_lo m) (mem_read src pg gb)
         (mem_zero (data_lo m + gb + ds) bs (mem_write (data_lo m + gb) (mem_read src pd ds)
           (mem_write (text_lo m) (mem_read src pt ts) mm))))"
  shows "k < ts \<Longrightarrow> mm' (text_lo m + k) = src (pt + k)" "k < ds \<Longrightarrow> mm' (data_lo m + gb + k) = src (pd + k)"
    "k < bs \<Longrightarrow> mm' (data_lo m + gb + ds + k) = 0"
    "4 dvd k \<Longrightarrow> k + 4 \<le> gb \<Longrightarrow> ld32 mm' (data_lo m + k) = ld32 src (pg + k)
       + (\<Sum>r \<leftarrow> rs. if unat (got_offset r) = k then reloc_base m r else 0)"
proof -
  define M where "M = mem_write (data_lo m) (mem_read src pg gb)
         (mem_zero (data_lo m + gb + ds) bs (mem_write (data_lo m + gb) (mem_read src pd ds)
           (mem_write (text_lo m) (mem_read src pt ts) mm)))"
  have fold: "mm' = fold (reloc_slot m) rs M" using copied by (simp only: M_def)
  have out: "mm' x = M x" if "x < data_lo m \<or> data_lo m + gb \<le> x" for x
    unfolding fold by (rule fold_reloc_outside [OF _ dl that]) (use rs in blast)
  have lay: "k < gb \<Longrightarrow> M (data_lo m + k) = src (pg + k)" "k < ds \<Longrightarrow> M (data_lo m + gb + k) = src (pd + k)"
    "k < bs \<Longrightarrow> M (data_lo m + gb + ds + k) = 0" for k
    by (auto simp: M_def mem_write_def mem_zero_def)
  show "mm' (text_lo m + k) = src (pt + k)" if "k < ts"
  proof -
    have a: "text_lo m + k < data_lo m \<or> data_lo m + gb + ds + bs \<le> text_lo m + k" using apart [of "text_lo m + k"] that by auto
    then have "M (text_lo m + k) = src (pt + k)" using that by (auto simp: M_def mem_write_def mem_zero_def)
    then show ?thesis using out [of "text_lo m + k"] a by auto
  qed
  show "mm' (data_lo m + gb + k) = src (pd + k)" if "k < ds" using out [of "data_lo m + gb + k"] lay(2) [OF that] by simp
  show "mm' (data_lo m + gb + ds + k) = 0" if "k < bs" using out [of "data_lo m + gb + ds + k"] lay(3) [OF that] by simp
  show "ld32 mm' (data_lo m + k) = ld32 src (pg + k) + (\<Sum>r \<leftarrow> rs. if unat (got_offset r) = k then reloc_base m r else 0)"
    if k: "4 dvd k" "k + 4 \<le> gb"
  proof -
    have "ld32 M (data_lo m + k) = ld32 src (pg + k)"
      using lay(1) [of k] lay(1) [of "k + 1"] lay(1) [of "k + 2"] lay(1) [of "k + 3"] k(2) by (simp only: ld32_def add.assoc)
    then show ?thesis using fold_reloc_value [OF rs dl k(1), of M] fold by simp
  qed
qed

text \<open>C12: a well-formed image is loaded exactly. After a successful load the module's text holds the
  image's text, the data section follows the GOT in the data region, the bss is zero, and every word of the
  GOT is the image's word plus the bases its relocation entries name; all of it fits inside the
  regions granted, the slot is marked loaded and its entry point is the image's offset into the text.\<close>

theorem mdl_load_exact:
  fixes st :: bstate
  assumes "arena_inv ms st" "i < length ms" "\<not> arena_held (ms ! i)" "image_ok st img len"
    and "mdl_load i img len abi ar ms st = Some (LOAD_OK, d, ms', (b, mm'))"
  shows "let h = read_header (snd st) img; p = img + HDR_SIZE; src = snd st; gb = 4 * got_count h; m = ms' ! i in
    m_state m = SLOT_LOADED \<and> m_entry m = add32 (text_lo m) (init_off h)
    \<and> text_lo m + text_size h \<le> text_hi m \<and> data_lo m + gb + data_size h + bss_size h \<le> data_hi m
    \<and> (\<forall>k < text_size h. mm' (text_lo m + k) = src (p + k))
    \<and> (\<forall>k < data_size h. mm' (data_lo m + gb + k) = src (p + text_size h + k))
    \<and> (\<forall>k < bss_size h. mm' (data_lo m + gb + data_size h + k) = 0)
    \<and> (\<forall>k. 4 dvd k \<and> k + 4 \<le> gb \<longrightarrow> ld32 mm' (data_lo m + k) = ld32 src (p + got_off h + k)
         + (\<Sum>r \<leftarrow> reloc_entries src (p + reloc_off h) (reloc_count h).
              if unat (got_offset r) = k then reloc_base m r else 0))"
proof -
  let ?h = "read_header (snd st) img" and ?p = "img + HDR_SIZE" and ?src = "snd st"
  let ?gb = "4 * got_count ?h" and ?rs = "reloc_entries ?src (?p + reloc_off ?h) (reloc_count ?h)"
  obtain m2 mm where L: "ms' = ms[i := set_entries ?h m2]"
    "mdl_arena_acquire (text_size ?h) (?gb + data_size ?h + bss_size ?h)
       (record_claims (res_table ?src (?p + res_off ?h) (hd_res_count ?h)) (ms ! i)) st = Some (True, m2, (b, mm))"
    "mm' = fold (reloc_slot m2) ?rs (mem_write (data_lo m2) (mem_read ?src (?p + got_off ?h) ?gb)
         (mem_zero (data_lo m2 + ?gb + data_size ?h) (bss_size ?h)
           (mem_write (data_lo m2 + ?gb) (mem_read ?src (?p + text_size ?h) (data_size ?h))
             (mem_write (text_lo m2) (mem_read ?src ?p (text_size ?h)) mm))))"
    "\<forall>r \<in> set ?rs. in_got ?gb r \<and> 4 dvd unat (got_offset r)"
    by (rule load_memory [OF assms])
  note G = load_granted [OF assms(1-3) L(2)]
  have apart: "\<not> (text_lo m2 \<le> x \<and> x < text_lo m2 + text_size ?h \<and> data_lo m2 \<le> x \<and> x < data_lo m2 + ?gb + data_size ?h + bss_size ?h)" for x
  proof
    assume "text_lo m2 \<le> x \<and> x < text_lo m2 + text_size ?h \<and> data_lo m2 \<le> x \<and> x < data_lo m2 + ?gb + data_size ?h + bss_size ?h"
    then have "x \<in> {text_lo m2 ..< text_hi m2}" "x \<in> {data_lo m2 ..< data_hi m2}" using G(3,4) by auto
    then show False using G(7) by blast
  qed
  have dl: "data_lo m2 + ?gb < 2 ^ 32" using G(4,6) by simp
  note R = relocated_copy [OF L(4) dl apart L(3)]
  have base: "reloc_base (set_entries ?h m2) = reloc_base m2" by (simp add: reloc_base_def fun_eq_iff)
  have eq: "ms' ! i = set_entries ?h m2" using L(1) assms(2) by simp
  show ?thesis
    unfolding Let_def eq base using R G(3,4) by simp
qed

lemma load_effects:
  fixes st :: bstate
  assumes inv: "arena_inv ms st" and i: "i < length ms" "\<not> arena_held (ms ! i)" and wf: "image_ok st img len"
    and run: "mdl_load i img len abi ar ms st = Some (LOAD_OK, d, ms', (b, mm'))"
  shows "arena_inv ms' (b, mm') \<and> keeps_outside st mm' \<and> keeps_live st mm'"
proof -
  have ok: "buddy_ok st" using inv by (simp add: arena_inv_def)
  let ?h = "read_header (snd st) img" and ?p = "img + HDR_SIZE"
  note S = image_ok_sizes [OF wf]
  let ?gb = "4 * got_count ?h"
  obtain m3 mm3 where L: "ms' = ms[i := set_entries ?h m3]"
    "mdl_arena_acquire (text_size ?h) (?gb + data_size ?h + bss_size ?h)
       (record_claims (res_table (snd st) (?p + res_off ?h) (hd_res_count ?h)) (ms ! i)) st = Some (True, m3, (b, mm3))"
    "mm' = fold (reloc_slot m3) (reloc_entries (snd st) (?p + reloc_off ?h) (reloc_count ?h))
       (mem_write (data_lo m3) (mem_read (snd st) (?p + got_off ?h) ?gb)
         (mem_zero (data_lo m3 + ?gb + data_size ?h) (bss_size ?h)
           (mem_write (data_lo m3 + ?gb) (mem_read (snd st) (?p + text_size ?h) (data_size ?h))
             (mem_write (text_lo m3) (mem_read (snd st) ?p (text_size ?h)) mm3))))"
    "\<forall>r \<in> set (reloc_entries (snd st) (?p + reloc_off ?h) (reloc_count ?h)). in_got ?gb r \<and> 4 dvd unat (got_offset r)"
    by (rule load_memory [OF inv i wf run])
  note G3 = load_granted [OF inv i L(2)]
  have dl: "data_lo m3 + ?gb < 2 ^ 32" using G3(4,6) by simp
  have ing: "\<forall>r \<in> set (reloc_entries (snd st) (?p + reloc_off ?h) (reloc_count ?h)). in_got ?gb r" using L(4) by blast
  have same: "mm' x = mm3 x" if "x \<notin> {text_lo m3 ..< text_hi m3}" "x \<notin> {data_lo m3 ..< data_hi m3}" for x
  proof -
    have "x < text_lo m3 \<or> text_lo m3 + text_size ?h \<le> x"
      "x < data_lo m3 \<or> data_lo m3 + ?gb + data_size ?h + bss_size ?h \<le> x" using that G3(3,4) by auto
    then show ?thesis
      unfolding L(3) using fold_reloc_outside [OF ing dl, of x] by (auto simp: mem_write_def mem_zero_def)
  qed
  have outside: "keeps_outside st mm'"
    using same G3(8,9,11) unfolding keeps_outside_def by (metis subsetD)
  have regs: "set (regions_of m3) \<subseteq> live_regions (b, mm3)"
    using arena_inv_live [OF G3(2), of m3] set_update_memI [OF i(1), of m3] by blast
  have bok: "buddy_ok (b, mm3)" using G3(2) by (simp add: arena_inv_def)
  have fresh: "r \<notin> set (regions_of m3)" if "r \<in> live_regions st" for r
  proof
    assume r: "r \<in> set (regions_of m3)"
    have "r \<in> set (concat (map regions_of ms))" using that arena_inv_set [OF inv] by simp
    then obtain m0 where "m0 \<in> set ms" "r \<in> set (regions_of m0)" by auto
    then obtain j where j: "j < length ms" "r \<in> set (regions_of (ms ! j))" by (metis in_set_conv_nth)
    then have "j \<noteq> i" using i(2) by (auto simp: regions_of_def)
    then show False
      using distinct_concat_nth [OF arena_inv_distinct [OF G3(2)], of i j] i(1) j r by auto
  qed
  have liv: "live_regions st \<subseteq> live_regions (b, mm3)"
  proof -
    have "live_blocks st \<subseteq> live_blocks (b, mm3)" using acquire_memory(4) [OF ok L(2)] by simp
    then show ?thesis by (auto simp: live_regions_def)
  qed
  have "mm' x = snd st x" if r: "(lo, hi) \<in> live_regions st" "x \<in> {lo ..< hi}" for lo hi x
  proof -
    have dj: "{lo ..< hi} \<inter> {c ..< e} = {}" if "(c, e) \<in> set (regions_of m3)" for c e
      using live_regions_disjoint [OF bok, of lo hi c e] liv regs r(1) fresh [OF r(1)] that by blast
    have "(text_lo m3, text_hi m3) \<in> set (regions_of m3)" "(data_lo m3, data_hi m3) \<in> set (regions_of m3)"
      using G3(1) by (simp_all add: regions_of_def)
    then have "x \<notin> {text_lo m3 ..< text_hi m3}" "x \<notin> {data_lo m3 ..< data_hi m3}"
      using dj r(2) by blast+
    then show ?thesis using same G3(10) r by (auto simp: keeps_live_def)
  qed
  then have live: "keeps_live st mm'" by (auto simp: keeps_live_def)
  have "mem_eq_outside (\<Union> (blk ` live_blocks (b, mm3))) mm3 mm'"
  proof -
    have "x \<notin> {text_lo m3 ..< text_hi m3} \<and> x \<notin> {data_lo m3 ..< data_hi m3}"
      if "x \<notin> \<Union> (blk ` live_blocks (b, mm3))" for x
    proof -
      have "x \<notin> {lo ..< hi}" if "(lo, hi) \<in> live_regions (b, mm3)" for lo hi
        using that \<open>x \<notin> \<Union> (blk ` live_blocks (b, mm3))\<close> by (force simp: live_regions_def region_of_def blk_def)
      then show ?thesis using regs G3(1) by (auto simp: regions_of_def)
    qed
    then show ?thesis using same by (auto simp: mem_eq_outside_def)
  qed
  then have "buddy_ok (b, mm')" by (rule client_write_inv(1) [OF bok])
  moreover have "live_regions (b, mm') = live_regions (b, mm3)"
    by (simp add: live_regions_def live_blocks_def)
  moreover have "map regions_of ms' = map regions_of (ms[i := m3])"
    by (simp add: L(1) map_update)
  ultimately have "arena_inv ms' (b, mm')"
    using G3(2) unfolding arena_inv_def by simp
  then show ?thesis using outside live by blast
qed

text \<open>A call returns, and what it leaves behind.\<close>

lemma load_isolated:
  fixes st :: bstate
  assumes inv: "arena_inv ms st" and i: "i < length ms" "\<not> arena_held (ms ! i)"
  shows "\<exists>status d ms' st'. mdl_load i img len abi ar ms st = Some (status, d, ms', st')
    \<and> (if status \<noteq> LOAD_OK then
         (ms' = ms \<and> st' = st) \<or>
         (status = ERR_TEXT_TOO_BIG \<and> (\<exists>rs. ms' = ms[i := record_claims rs (ms ! i)])
          \<and> arena_inv ms' st' \<and> keeps_live st (snd st'))
       else image_ok st img len \<longrightarrow>
         arena_inv ms' st' \<and> arena_held (ms' ! i) \<and> bounds_ok (ms' ! i) \<and> (\<forall>j. j \<noteq> i \<longrightarrow> ms' ! j = ms ! j)
         \<and> keeps_outside st (snd st') \<and> keeps_live st (snd st'))"
proof -
  have ok: "buddy_ok st" using inv by (simp add: arena_inv_def)
  obtain v d where v: "mdl_load_validate (Some i) img len abi ar ms st = Some (v, d)"
    using validate_total [OF ok] by (metis surj_pair)
  show ?thesis
  proof (cases "v = LOAD_OK")
    case False
    then show ?thesis using v by (auto simp: mdl_load_def)
  next
    case True
    let ?h = "read_header (snd st) img" and ?p = "img + HDR_SIZE"
    define rs where "rs = res_table (snd st) (add32 ?p (res_off ?h)) (hd_res_count ?h)"
    obtain g m2 b mm where a: "mdl_arena_acquire (text_size ?h) (data_region_needed ?h) (record_claims rs (ms ! i)) st = Some (g, m2, (b, mm))"
      using acquire_some [OF ok] by blast
    show ?thesis
    proof (cases g)
      case False
      have inv1: "arena_inv (ms[i := record_claims rs (ms ! i)]) st"
        by (rule arena_inv_cong [OF inv]) (simp add: map_update list_update_same_conv i)
      have "arena_inv (ms[i := record_claims rs (ms ! i), i := m2]) (b, mm)" "m2 = record_claims rs (ms ! i)"
        using arena_inv_acquire [OF inv1, of i _ _ g m2 "(b, mm)"] a i False by auto
      moreover have "keeps_live st mm" using acquire_memory(1) [OF ok a] by simp
      ultimately show ?thesis using v True a False by (auto simp: mdl_load_def Let_def rs_def)
    next
      case granted: True
      let ?mm = "arch_apply_relocs m2 (add32 ?p (reloc_off ?h)) (reloc_count ?h) (copy_image ?h ?p m2 mm)"
      have run: "mdl_load i img len abi ar ms st = Some (LOAD_OK, d, ms[i := set_entries ?h m2], (b, ?mm))"
        using v True a granted by (simp add: mdl_load_def Let_def rs_def)
      note G = load_granted [OF inv i a [unfolded eqTrueI [OF granted]]]
      have "arena_inv (ms[i := set_entries ?h m2]) (b, ?mm) \<and> keeps_outside st ?mm \<and> keeps_live st ?mm"
        if "image_ok st img len" using load_effects [OF inv i that run] .
      moreover have "bounds_ok (set_entries ?h m2)" using G(12) by (simp add: bounds_ok_def)
      ultimately show ?thesis using G(1) i(1) by (simp add: run)
    qed
  qed
qed


section \<open>Claims\<close>

lemma res_table_length [simp]: "length (res_table mm a n) = n"
  by (simp add: res_table_def)

lemma load_claims:
  assumes "mdl_load i img len abi ar ms st = Some (LOAD_OK, d, ms', st')" "i < length ms"
  shows "\<exists>rs m. ms' = ms[i := m] \<and> claims m = rs \<and> length rs \<le> MAX_RES \<and> fst (mdl_res_check rs (Some i) ms DETAIL_LEN)
    \<and> (\<forall>r \<in> set rs. \<not> bad_res r) \<and> gpio_claimed m = gpio_bitmap rs"
proof -
  let ?h = "read_header (snd st) img"
  let ?rs = "res_table (snd st) (add32 (img + HDR_SIZE) (res_off ?h)) (hd_res_count ?h)"
  obtain m2 b mm where L: "mdl_load_validate (Some i) img len abi ar ms st = Some (LOAD_OK, d)"
    "mdl_arena_acquire (text_size ?h) (data_region_needed ?h) (record_claims ?rs (ms ! i)) st = Some (True, m2, (b, mm))"
    "ms' = ms[i := set_entries ?h m2]" by (rule load_accepted [OF assms(1)])
  note V = validate_accepted [OF L(1)]
  have "m_res m2 = m_res (record_claims ?rs (ms ! i)) \<and> res_count m2 = res_count (record_claims ?rs (ms ! i))
      \<and> gpio_claimed m2 = gpio_claimed (record_claims ?rs (ms ! i))"
    using L(2) by (auto simp: mdl_arena_acquire_def Let_def split: if_splits option.splits prod.splits)
  moreover have "unat (of_nat (length ?rs) :: u8) = length ?rs"
    using V(7) by (simp add: unat_of_nat take_bit_nat_eq_self)
  ultimately have "claims (set_entries ?h m2) = ?rs" "gpio_claimed (set_entries ?h m2) = gpio_bitmap ?rs"
    by (simp_all add: claims_def record_claims_def)
  then show ?thesis using L(3) V(7,9,10) by (intro exI [of _ ?rs] exI [of _ "set_entries ?h m2"]) simp
qed

text \<open>No load ever gives two owners to one wire. Whatever the image, if the resident modules hold their
  pins exclusively before the call, they do after it, the new module included; and the bitmap that the
  GPIO calls test is that of the claims accepted.\<close>

theorem mdl_load_pins_exclusive:
  assumes "pins_exclusive ms" "i < length ms" "mdl_load i img len abi ar ms st = Some (LOAD_OK, d, ms', st')"
  shows "pins_exclusive ms' \<and> gpio_claimed (ms' ! i) = gpio_bitmap (claims (ms' ! i))"
proof -
  obtain rs m where "ms' = ms[i := m]" "claims m = rs" "length rs \<le> MAX_RES"
    "fst (mdl_res_check rs (Some i) ms DETAIL_LEN)" "gpio_claimed m = gpio_bitmap rs"
    using load_claims [OF assms(3,2)] by blast
  then show ?thesis using load_keeps_pins_exclusive [OF assms(1,2)] assms(2) by simp
qed

section \<open>The bound that wraps\<close>

text \<open>The bound on relocation entries can be passed by wrapping. An entry with offset \<open>0xFFFFFFFC\<close> is
  accepted for every size of the GOT, even none, and applying it adds a base to the word just below the
  module's data region: memory the loader was never given.\<close>

theorem reloc_bound_wraps:
  assumes "4 \<le> data_lo m" "data_lo m < 2 ^ 32" "got_offset r = 0xFFFFFFFC"
  shows "reloc_in_got gb r \<and>
    reloc_slot m r mm = st32 (data_lo m - 4) (ld32 mm (data_lo m - 4) + reloc_base m r) mm"
proof -
  have s: "data_lo m + 0xFFFFFFFC = (data_lo m - 4) + 2 ^ 32" and k: "data_lo m - 4 < 2 ^ 32" using assms(1,2) by simp_all
  have "add32 (data_lo m) 0xFFFFFFFC = data_lo m - 4" unfolding add32_def s using k by (simp only: mod_add_self2 mod_less)
  then show ?thesis using assms(3) by (simp add: reloc_in_got_def reloc_slot_def Let_def)
qed

section \<open>Concrete instances\<close>

text \<open>
  An image at \<open>0x20010000\<close>: 1000 bytes of text, 496 of data, one word of GOT with one relocation entry, all
  payload bytes zero, and its header.
\<close>

abbreviation IMG :: addr where "IMG \<equiv> 0x20010000"
abbreviation IMG_LEN :: nat where "IMG_LEN \<equiv> 1604"

definition image_header :: "u8 list" where
  "image_header = concat (map le32_bytes [MDL_MAGIC, 0x0001000A, mdl_crc32 (replicate 1508 0), 1000, 496, 0, 1496, 1, 5,
     1500, 1, 0, 0, 0, 0, 0, 0, 0, 0, 0, 0, 0, 0, 0])"

definition img_st :: bstate where
  "img_st = mdl_buddy_init ARENA (mem_write IMG image_header (\<lambda>_. 0))"

lemma image_header_length [simp]: "length image_header = 96"
  by (simp add: image_header_def)

lemma img_st_outside: "x < ARENA \<Longrightarrow> snd img_st x = mem_write IMG image_header (\<lambda>_. 0) x"
  by (simp add: img_st_def mdl_buddy_init_def push_def st32_other)

lemma img_byte: "k < 96 \<Longrightarrow> snd img_st (IMG + k) = image_header ! k"
  by (simp add: img_st_outside)

lemma ld32_bytes:
  assumes "bs = pre @ le32_bytes w @ post" "length pre = k" "\<And>j. j < 96 \<Longrightarrow> mm (a + j) = bs ! j" "k + 4 \<le> 96"
  shows "ld32 mm (a + k) = w"
proof -
  have "mm (a + k + j) = byte_of j w" if "j < 4" for j
  proof -
    have "mm (a + (k + j)) = bs ! (k + j)" using assms(4) that by (intro assms(3)) simp
    also have "\<dots> = le32_bytes w ! j" using assms(1,2) that by (simp add: nth_append)
    also have "\<dots> = byte_of j w" using that by (auto simp: le32_bytes_def numeral_eq_Suc less_Suc_eq)
    finally show ?thesis by (simp add: add.assoc)
  qed
  from this [of 0] this [of 1] this [of 2] this [of 3] show ?thesis by (simp add: ld32_def)
qed

lemma img_words:
  "ld32 (snd img_st) IMG = MDL_MAGIC" "ld32 (snd img_st) (IMG + 8) = mdl_crc32 (replicate 1508 0)"
  "ld32 (snd img_st) (IMG + 12) = 1000" "ld32 (snd img_st) (IMG + 16) = 496" "ld32 (snd img_st) (IMG + 20) = 0"
  "ld32 (snd img_st) (IMG + 24) = 1496" "ld32 (snd img_st) (IMG + 28) = 1" "ld32 (snd img_st) (IMG + 32) = 5"
  "ld32 (snd img_st) (IMG + 36) = 1500" "ld32 (snd img_st) (IMG + 40) = 1" "ld32 (snd img_st) (IMG + 48) = 0"
  "ld32 (snd img_st) (IMG + 52) = 0"
proof -
  let ?c = "mdl_crc32 (replicate 1508 0)"
  let ?w = "[MDL_MAGIC, 0x0001000A, ?c, 1000, 496, 0, 1496, 1, 5, 1500, 1, 0, 0, 0, 0, 0, 0, 0, 0, 0, 0, 0, 0, 0]"
  have words: "image_header = concat (map le32_bytes ?w)" by (rule image_header_def)
  have len: "length (concat (map le32_bytes ws)) = 4 * length ws" for ws by (induction ws) simp_all
  have w: "ld32 (snd img_st) (IMG + 4 * j) = ?w ! j" if "j < 24" for j
  proof (rule ld32_bytes)
    show "image_header = concat (map le32_bytes (take j ?w)) @ le32_bytes (?w ! j) @ concat (map le32_bytes (drop (Suc j) ?w))"
      unfolding words
      by (subst id_take_nth_drop [of j ?w]) (use that in simp_all)
    show "length (concat (map le32_bytes (take j ?w))) = 4 * j" using len that by simp
  qed (use that img_byte in simp_all)
  show "ld32 (snd img_st) IMG = MDL_MAGIC" "ld32 (snd img_st) (IMG + 8) = ?c"
    "ld32 (snd img_st) (IMG + 12) = 1000" "ld32 (snd img_st) (IMG + 16) = 496" "ld32 (snd img_st) (IMG + 20) = 0"
    "ld32 (snd img_st) (IMG + 24) = 1496" "ld32 (snd img_st) (IMG + 28) = 1" "ld32 (snd img_st) (IMG + 32) = 5"
    "ld32 (snd img_st) (IMG + 36) = 1500" "ld32 (snd img_st) (IMG + 40) = 1" "ld32 (snd img_st) (IMG + 48) = 0"
    "ld32 (snd img_st) (IMG + 52) = 0"
    using w [of 0] w [of 2] w [of 3] w [of 4] w [of 5] w [of 6] w [of 7] w [of 8] w [of 9] w [of 10] w [of 12] w [of 13]
    by simp_all
qed

lemma img_header:
  "magic (read_header (snd img_st) IMG) = MDL_MAGIC" "abi_ver (read_header (snd img_st) IMG) = 10"
  "arch (read_header (snd img_st) IMG) = ARCH_ARMV7M" "hd_crc32 (read_header (snd img_st) IMG) = mdl_crc32 (replicate 1508 0)"
  "text_size (read_header (snd img_st) IMG) = 1000" "data_size (read_header (snd img_st) IMG) = 496"
  "bss_size (read_header (snd img_st) IMG) = 0" "got_off (read_header (snd img_st) IMG) = 1496"
  "got_count (read_header (snd img_st) IMG) = 1" "init_off (read_header (snd img_st) IMG) = 5"
  "reloc_off (read_header (snd img_st) IMG) = 1500" "reloc_count (read_header (snd img_st) IMG) = 1"
  "res_off (read_header (snd img_st) IMG) = 0" "hd_res_count (read_header (snd img_st) IMG) = 0"
  "hd_evt_queue_depth (read_header (snd img_st) IMG) = 0"
proof -
  have b: "snd img_st (IMG + 4) = 10" "snd img_st (IMG + 5) = 0" "snd img_st (IMG + 6) = 1" "snd img_st (IMG + 7) = 0"
    "snd img_st (IMG + 92) = 0" "snd img_st (IMG + 93) = 0"
    using img_byte [of 4] img_byte [of 5] img_byte [of 6] img_byte [of 7] img_byte [of 92] img_byte [of 93]
    by (simp_all add: image_header_def le32_bytes_def byte_of_def)
  show "abi_ver (read_header (snd img_st) IMG) = 10" "arch (read_header (snd img_st) IMG) = ARCH_ARMV7M"
    "hd_evt_queue_depth (read_header (snd img_st) IMG) = 0"
    using b by (simp_all add: read_header_def ld16_def)
qed (use img_words in \<open>simp_all add: read_header_def\<close>)

lemma img_payload: "IMG + 96 \<le> x \<Longrightarrow> x < ARENA \<Longrightarrow> snd img_st x = 0"
  by (simp add: img_st_outside mem_write_def)

lemma img_reloc: "reloc_entries (snd img_st) (IMG + HDR_SIZE + 1500) 1 = [\<lparr>got_offset = 0, rl_kind = 0\<rparr>]"
proof -
  have "snd img_st (IMG + HDR_SIZE + 1500 + k) = 0" if "k < 8" for k using that by (intro img_payload) simp_all
  from this [of 0] this [of 1] this [of 2] this [of 3] this [of 4] show ?thesis
    by (simp add: reloc_entries_def reloc_at_def ld32_def le32_def)
qed

lemma img_ok: "image_ok img_st IMG IMG_LEN"
  using img_reloc init_inv(4) [OF pool_ok_ARENA, of "mem_write IMG image_header (\<lambda>_. 0)"]
  by (simp add: image_ok_def Let_def img_header pool_of_def img_st_def [symmetric])

lemma img_loads:
  "\<exists>b mm. mdl_load 0 IMG IMG_LEN 10 ARCH_ARMV7M g_mdl_slots img_st =
     Some (LOAD_OK, [], g_mdl_slots[0 := set_entries (read_header (snd img_st) IMG)
       (set_bounds ARENA (ARENA + 1024) (ARENA + 8192) 1000 500 (record_claims [] zero_module))], (b, mm))"
proof -
  let ?h = "read_header (snd img_st) IMG" and ?m = "record_claims [] zero_module"
  have drn: "data_region_needed ?h = 500" by (simp add: data_region_needed_def got_bytes_def img_header)
  obtain b mm where acq: "mdl_arena_acquire 1000 500 ?m img_st =
      Some (True, set_bounds ARENA (ARENA + 1024) (ARENA + 8192) 1000 500 ?m, (b, mm))"
    using acquire_example [of ?m "mem_write IMG image_header (\<lambda>_. 0)"] unfolding img_st_def by (metis prod.collapse)
  have ok: "buddy_ok img_st" unfolding img_st_def by (rule init_inv(1) [OF pool_ok_ARENA])
  obtain need where fit: "mdl_arena_would_fit 1000 500 img_st = Some (True, need)"
    using acquire_granted_fits [OF ok acq] by blast
  have crc: "mem_read (snd img_st) (IMG + HDR_SIZE) 1508 = replicate 1508 0"
    by (rule nth_equalityI) (simp_all add: img_payload)
  have rel: "relocs_ok (snd img_st) (IMG + HDR_SIZE + 1500) ?h"
    using img_reloc by (simp add: relocs_ok_def img_header reloc_in_got_def got_bytes_def reloc_entries_def)
  have chk: "check_resources (snd img_st) (IMG + HDR_SIZE) 0 (Some 0) g_mdl_slots = (LOAD_OK, [])"
    by (simp add: check_resources_def Let_def res_table_def mdl_res_check_def)
  have "mdl_load_validate (Some 0) IMG IMG_LEN 10 ARCH_ARMV7M g_mdl_slots img_st = Some (LOAD_OK, [])"
    using crc rel chk fit drn block_size_examples(3,4)
    by (simp add: mdl_load_validate_def Let_def img_header)
  moreover have "g_mdl_slots ! 0 = zero_module" by (simp add: g_mdl_slots_def)
  moreover have "res_table (snd img_st) x 0 = []" for x by (simp add: res_table_def)
  ultimately show ?thesis using acq drn by (simp add: mdl_load_def Let_def img_header)
qed

theorem mdl_load_exact_witness:
  "\<exists>d ms' b mm'. mdl_load 0 IMG IMG_LEN 10 ARCH_ARMV7M g_mdl_slots img_st = Some (LOAD_OK, d, ms', (b, mm'))
    \<and> m_entry (ms' ! 0) = ARENA + 5 \<and> ld32 mm' (ARENA + 1024) = of_nat ARENA"
proof -
  obtain b mm where L: "mdl_load 0 IMG IMG_LEN 10 ARCH_ARMV7M g_mdl_slots img_st =
     Some (LOAD_OK, [], g_mdl_slots[0 := set_entries (read_header (snd img_st) IMG)
       (set_bounds ARENA (ARENA + 1024) (ARENA + 8192) 1000 500 (record_claims [] zero_module))], (b, mm))"
    using img_loads by blast
  have inv: "arena_inv g_mdl_slots img_st" unfolding img_st_def by (rule arena_inv_init [OF pool_ok_ARENA])
  have z: "0 < length g_mdl_slots" "\<not> arena_held (g_mdl_slots ! 0)" by (simp_all add: g_mdl_slots_def)
  have "snd img_st (IMG + HDR_SIZE + 1496 + k) = 0" if "k < 4" for k using that by (intro img_payload) simp_all
  from this [of 0] this [of 1] this [of 2] this [of 3]
  have got: "ld32 (snd img_st) (IMG + HDR_SIZE + 1496) = 0" by (simp add: ld32_def le32_def)
  from mdl_load_exact [OF inv z img_ok L]
  have "ld32 mm (ARENA + 1024) = of_nat ARENA"
    using got img_reloc z(1)
    by (simp add: Let_def img_header reloc_base_def set_bounds_def)
  then show ?thesis using L z(1) by (simp add: img_header set_bounds_def)
qed


theorem mdl_load_pins_exclusive_witness:
  "\<exists>ms' st'. mdl_load 0 IMG IMG_LEN 10 ARCH_ARMV7M g_mdl_slots img_st = Some (LOAD_OK, [], ms', st') \<and> pins_exclusive ms'"
proof -
  have e: "pins_exclusive g_mdl_slots" by (simp add: pins_exclusive_def g_mdl_slots_def)
  have z: "0 < length g_mdl_slots" by (simp add: g_mdl_slots_def)
  obtain ms' st' where L: "mdl_load 0 IMG IMG_LEN 10 ARCH_ARMV7M g_mdl_slots img_st = Some (LOAD_OK, [], ms', st')"
    using img_loads by blast
  show ?thesis using mdl_load_pins_exclusive [OF e z L] L by blast
qed

theorem reloc_bound_wraps_witness:
  "reloc_slot held_module \<lparr>got_offset = 0xFFFFFFFC, rl_kind = 1\<rparr> mm =
     st32 0x200203FC (ld32 mm 0x200203FC + 0x20020400) mm"
  using reloc_bound_wraps [of held_module "\<lparr>got_offset = 0xFFFFFFFC, rl_kind = 1\<rparr>" 0 mm] by (simp add: reloc_base_def)

end
