(* ===== verification/Module_Task.thy ===== *)
theory Module_Task
  imports Host_Api Host_Events
begin

text \<open>
  \<open>src/mdl/core/module_task.c\<close>: the one task of a module. The trampoline runs unprivileged and
  reaches host state only through gated helpers; it runs the module's init, then, when the module exports an
  event or command handler, drains the queue for ever. The trampoline is a step relation whose steps are the
  gated helpers, the calls into the module, and the moves of the rest of the system; a console command is
  handed over through the argument block at the bottom of the module's heap.
\<close>

text \<open>The host state with the event layer and the two variables of a pending command.\<close>

record mhost = host +
  h_ev :: events
  s_cmd_argc :: nat
  s_cmd_argv :: addr

section \<open>The gated helpers\<close>

text \<open>\<open>module_entry_t\<close> and \<open>module_ctx_t\<close>.\<close>

record entry =
  en_entry :: addr
  en_got :: addr

record ctx =
  cx_cmd :: addr
  cx_evt :: addr
  cx_got :: addr

definition module_task_read_entry :: "mhost \<Rightarrow> entry \<times> mhost" where
  "module_task_read_entry s = (case xPortRaisePrivilege s of (was, s1) \<Rightarrow>
     case caller s1 of
       None \<Rightarrow> (\<lparr>en_entry = 0, en_got = 0\<rparr>, s1)
     | Some i \<Rightarrow> (\<lparr>en_entry = m_entry (h_slots s1 ! i), en_got = data_lo (h_slots s1 ! i)\<rparr>, vPortResetPrivilege was s1))"

text \<open>The result: what \<open>out\<close>, \<open>argc\<close> and \<open>argv\<close> then hold; \<open>argc0\<close> and \<open>argv0\<close> are their values before.\<close>

definition module_task_read_cmd :: "nat \<Rightarrow> addr \<Rightarrow> mhost \<Rightarrow> (entry \<times> nat \<times> addr) \<times> mhost" where
  "module_task_read_cmd argc0 argv0 s = (case xPortRaisePrivilege s of (was, s1) \<Rightarrow>
     case caller s1 of
       None \<Rightarrow> ((\<lparr>en_entry = 0, en_got = 0\<rparr>, argc0, argv0), s1)
     | Some i \<Rightarrow> ((\<lparr>en_entry = cmd_entry (h_slots s1 ! i), en_got = data_lo (h_slots s1 ! i)\<rparr>,
                  s_cmd_argc s1, s_cmd_argv s1), vPortResetPrivilege was s1))"

definition module_task_finish_cmd :: "int \<Rightarrow> mhost \<Rightarrow> unit \<times> mhost" where
  "module_task_finish_cmd ret = syscall_gate (\<lambda>s. ((), case caller s of None \<Rightarrow> s
     | Some i \<Rightarrow> upd_module i (\<lambda>m. m\<lparr>cmd_ret := word_of_int ret, cmd_pending := False\<rparr>) s))"

definition module_task_mark_finished :: "mhost \<Rightarrow> unit \<times> mhost" where
  "module_task_mark_finished = syscall_gate (\<lambda>s. ((), case caller s of None \<Rightarrow> s
     | Some i \<Rightarrow> upd_module i (\<lambda>m. m\<lparr>m_state := SLOT_LOADED, task_handle := 0\<rparr>) s))"

definition module_task_read_ctx :: "mhost \<Rightarrow> ctx \<times> mhost" where
  "module_task_read_ctx s = (case xPortRaisePrivilege s of (was, s1) \<Rightarrow>
     case caller s1 of
       None \<Rightarrow> (\<lparr>cx_cmd = 0, cx_evt = 0, cx_got = 0\<rparr>, s1)
     | Some i \<Rightarrow> (\<lparr>cx_cmd = cmd_entry (h_slots s1 ! i), cx_evt = evt_entry (h_slots s1 ! i),
                  cx_got = data_lo (h_slots s1 ! i)\<rparr>, vPortResetPrivilege was s1))"

definition module_task_take_event :: "mhost \<Rightarrow> event option \<times> mhost" where
  "module_task_take_event = syscall_gate (\<lambda>s.
     case mdl_events_take (me s) (h_slots s) (h_ev s) of (r, ev) \<Rightarrow> (r, s\<lparr>h_ev := ev\<rparr>))"

text \<open>\<open>module_task_wait\<close> blocks in the middle: the part before, whose result is \<open>parked\<close>, and the part after.\<close>

definition wait_park :: "mhost \<Rightarrow> nat option \<times> mhost" where
  "wait_park = syscall_gate (\<lambda>s. (caller s, case caller s of None \<Rightarrow> s
     | Some i \<Rightarrow> upd_module i (\<lambda>m. m\<lparr>parked_until_tick := PARKED_FOREVER\<rparr>) s))"

definition wait_wake :: "nat option \<Rightarrow> mhost \<Rightarrow> unit \<times> mhost" where
  "wait_wake parked = syscall_gate (\<lambda>s. ((), case parked of None \<Rightarrow> s
     | Some i \<Rightarrow> upd_module i (\<lambda>m. m\<lparr>parked_until_tick := 0, last_active_tick := tick s\<rparr>) s))"

section \<open>The trampoline\<close>

text \<open>Where the task is: the points between its steps.\<close>

datatype tpc =
    T_START
  | T_INIT entry
  | T_CTX
  | T_LOOP ctx
  | T_EVENT ctx event
  | T_CMD ctx nat addr
  | T_CMD_DONE ctx int
  | T_WAIT ctx
  | T_BLOCKED ctx "nat option"
  | T_FINISHED
  | T_DELETED

text \<open>What a module function is given besides the API table.\<close>

datatype call_args = ARGS_INIT | ARGS_CMD nat addr | ARGS_EVENT event

text \<open>
  \<open>call e got args s s' ret\<close>: running module code at \<open>e\<close> with the GOT base \<open>got\<close> can take the state
  from \<open>s\<close> to \<open>s'\<close> and return \<open>ret\<close>. \<open>env\<close>: what the rest of the system can do between
  two steps of the task. Both are parameters.
\<close>

inductive tramp :: "(addr \<Rightarrow> addr \<Rightarrow> call_args \<Rightarrow> mhost \<Rightarrow> mhost \<Rightarrow> int \<Rightarrow> bool) \<Rightarrow> (mhost \<Rightarrow> mhost \<Rightarrow> bool) \<Rightarrow>
    tpc \<times> mhost \<Rightarrow> tpc \<times> mhost \<Rightarrow> bool" for call env where
  enter: "module_task_read_entry s = (e, s') \<Longrightarrow> tramp call env (T_START, s) (T_INIT e, s')"
| init: "call (en_entry e) (en_got e) ARGS_INIT s s' ret \<Longrightarrow> tramp call env (T_INIT e, s) (T_CTX, s')"
| resident: "module_task_read_ctx s = (c, s') \<Longrightarrow> cx_cmd c \<noteq> 0 \<or> cx_evt c \<noteq> 0 \<Longrightarrow>
    tramp call env (T_CTX, s) (T_LOOP c, s')"
| one_shot: "module_task_read_ctx s = (c, s') \<Longrightarrow> cx_cmd c = 0 \<Longrightarrow> cx_evt c = 0 \<Longrightarrow>
    tramp call env (T_CTX, s) (T_FINISHED, s')"
| finish: "module_task_mark_finished s = (u, s') \<Longrightarrow> tramp call env (T_FINISHED, s) (T_DELETED, s')"
| take: "module_task_take_event s = (Some x, s') \<Longrightarrow> tramp call env (T_LOOP c, s) (T_EVENT c x, s')"
| drained: "module_task_take_event s = (None, s') \<Longrightarrow> tramp call env (T_LOOP c, s) (T_WAIT c, s')"
| command: "e_source x = EVT_CONSOLE \<Longrightarrow> module_task_read_cmd 0 0 s = ((un, argc, argv), s') \<Longrightarrow>
    tramp call env (T_EVENT c x, s) (T_CMD c argc argv, s')"
| run_command: "cx_cmd c \<noteq> 0 \<Longrightarrow> 0 < argc \<Longrightarrow> call (cx_cmd c) (cx_got c) (ARGS_CMD argc argv) s s' ret \<Longrightarrow>
    tramp call env (T_CMD c argc argv, s) (T_CMD_DONE c ret, s')"
| no_command: "\<not> (cx_cmd c \<noteq> 0 \<and> 0 < argc) \<Longrightarrow> tramp call env (T_CMD c argc argv, s) (T_CMD_DONE c (-1), s)"
| command_done: "module_task_finish_cmd ret s = (u, s') \<Longrightarrow> tramp call env (T_CMD_DONE c ret, s) (T_LOOP c, s')"
| event: "e_source x \<noteq> EVT_CONSOLE \<Longrightarrow> cx_evt c \<noteq> 0 \<Longrightarrow> call (cx_evt c) (cx_got c) (ARGS_EVENT x) s s' ret \<Longrightarrow>
    tramp call env (T_EVENT c x, s) (T_LOOP c, s')"
| ignore: "e_source x \<noteq> EVT_CONSOLE \<Longrightarrow> cx_evt c = 0 \<Longrightarrow> tramp call env (T_EVENT c x, s) (T_LOOP c, s)"
| park: "wait_park s = (p, s') \<Longrightarrow> tramp call env (T_WAIT c, s) (T_BLOCKED c p, s')"
| wakeup: "wait_wake p s = (u, s') \<Longrightarrow> tramp call env (T_BLOCKED c p, s) (T_LOOP c, s')"
| other: "env s s' \<Longrightarrow> tramp call env (pc, s) (pc, s')"

section \<open>Starting the task\<close>

text \<open>The permissions of a region (\<open>ulParameters\<close>), by name.\<close>

datatype region_perm = READ_ONLY | READ_WRITE_XN

record task_def =
  td_stack_base :: addr
  td_stack_depth :: nat
  td_regions :: "(addr \<times> nat \<times> region_perm) list"

definition fill_task_def :: "module \<Rightarrow> task_def" where
  "fill_task_def m =
     (let heap_base = hs_lo m; stack_base = add32 (hs_lo m) (HEAP_SIZE + GUARD_SIZE) in
      \<lparr>td_stack_base = stack_base, td_stack_depth = STACK_SIZE div 4,
       td_regions = [(text_lo m, sub32 (text_hi m) (text_lo m), READ_ONLY),
                     (data_lo m, sub32 (data_hi m) (data_lo m), READ_WRITE_XN),
                     (heap_base, HEAP_SIZE, READ_WRITE_XN)]\<rparr>)"

text \<open>\<open>create\<close> is \<open>xTaskCreateRestricted\<close>: the new handle, or \<open>None\<close>.\<close>

definition mdl_start_module_task :: "(task_def \<Rightarrow> nat option) \<Rightarrow> nat \<Rightarrow> 'a host_scheme \<Rightarrow> bool \<times> 'a host_scheme" where
  "mdl_start_module_task create i s = (case create (fill_task_def (h_slots s ! i)) of
     None \<Rightarrow> (False, s)
   | Some h \<Rightarrow> (True, upd_module i (\<lambda>m. m\<lparr>task_handle := h, last_active_tick := tick s, m_state := SLOT_RUNNING\<rparr>) s))"

section \<open>Handing over a command\<close>

abbreviation CMD_MAX_ARGS :: nat where "CMD_MAX_ARGS \<equiv> 8"

text \<open>One string, from \<open>w\<close> on; the terminating NUL is written without a test. \<open>None\<close>: it does not fit.\<close>

fun copy_arg :: "addr \<Rightarrow> addr \<Rightarrow> u8 list \<Rightarrow> mem \<Rightarrow> addr option \<times> mem" where
  "copy_arg w e [] mm = (Some (w + 1), mm(w := 0))"
| "copy_arg w e (c # cs) mm = (if e - 1 \<le> w then (None, mm) else copy_arg (w + 1) e cs (mm(w := c)))"

fun copy_args :: "addr \<Rightarrow> addr \<Rightarrow> nat \<Rightarrow> addr \<Rightarrow> u8 list list \<Rightarrow> mem \<Rightarrow> bool \<times> mem" where
  "copy_args out e i w [] mm = (True, mm)"
| "copy_args out e i w (s # ss) mm =
     (case copy_arg w e s (st32 (out + 4 * i) (of_nat w) mm) of
        (None, mm') \<Rightarrow> (False, mm')
      | (Some w', mm') \<Rightarrow> copy_args out e (Suc i) w' ss mm')"

text \<open>\<open>argv\<close> as the list of its strings, without their NULs; \<open>argc\<close> is its length.\<close>

definition mdl_post_module_command :: "nat \<Rightarrow> u8 list list \<Rightarrow> 'a mhost_scheme \<Rightarrow> bool \<times> 'a mhost_scheme" where
  "mdl_post_module_command i argv s =
     (let m = h_slots s ! i in
      if cmd_entry m = 0 \<or> m_state m \<noteq> SLOT_RUNNING then (False, s)
      else if argv = [] \<or> CMD_MAX_ARGS < length argv then (False, s)
      else case copy_args (hs_lo m) (hs_lo m + ARGBLOCK_SIZE) 0 (hs_lo m + CMD_MAX_ARGS * 4) argv (h_mem s) of
        (False, mm) \<Rightarrow> (False, s\<lparr>h_mem := mm\<rparr>)
      | (True, mm) \<Rightarrow>
          (case mdl_events_post_console (int i) (tick s) (cyccnt s) (h_ev s) of (ok, ev) \<Rightarrow>
             (ok, upd_module i (\<lambda>m. m\<lparr>cmd_pending := True\<rparr>)
               (s\<lparr>h_mem := mm, s_cmd_argc := length argv, s_cmd_argv := hs_lo m, h_ev := ev\<rparr>))))"

section \<open>Caller identity across the helpers\<close>

lemma caller_upd:
  assumes "i < length (h_slots s)" "m_state (f (h_slots s ! i)) = m_state (h_slots s ! i)"
    "task_handle (f (h_slots s ! i)) = task_handle (h_slots s ! i)"
  shows "caller (upd_module i f s) = caller s"
  using assms by (simp add: caller_def mdl_caller_slot_def upd_module_def find_idx_update)

lemma caller_ext [simp]:
  "caller (s\<lparr>privileged := b\<rparr>) = caller s" "caller (s\<lparr>h_ev := ev\<rparr>) = caller s"
  by (simp_all add: caller_def)

lemma upd_module_simps [simp]:
  "h_slots (upd_module i f s) = (h_slots s)[i := f (h_slots s ! i)]" "privileged (upd_module i f s) = privileged s"
  "me (upd_module i f s) = me s" "tick (upd_module i f s) = tick s" "h_mem (upd_module i f s) = h_mem s"
  by (simp_all add: upd_module_def)

lemma upd_module_ext [simp]:
  "h_ev (upd_module i f s) = h_ev s" "s_cmd_argc (upd_module i f s) = s_cmd_argc s" "s_cmd_argv (upd_module i f s) = s_cmd_argv s"
  by (simp_all add: upd_module_def)

lemma gate_unprivileged:
  assumes "\<not> privileged s" "body (s\<lparr>privileged := True\<rparr>) = (r, s')"
  shows "syscall_gate body s = (r, s'\<lparr>privileged := False\<rparr>)"
  using assms by (simp add: syscall_gate_def xPortRaisePrivilege_def vPortResetPrivilege_def)

section \<open>The task of a slot\<close>

text \<open>The slot \<open>i\<close> is the task's own and its entry points are those of \<open>m0\<close>.\<close>

definition owns :: "nat \<Rightarrow> module \<Rightarrow> mhost \<Rightarrow> bool" where
  "owns i m0 s \<longleftrightarrow> caller s = Some i \<and> i < length (h_slots s) \<and> m_entry (h_slots s ! i) = m_entry m0
     \<and> cmd_entry (h_slots s ! i) = cmd_entry m0 \<and> evt_entry (h_slots s ! i) = evt_entry m0
     \<and> data_lo (h_slots s ! i) = data_lo m0"

lemma owns_upd:
  assumes "owns i m0 s" "m_state (f (h_slots s ! i)) = m_state (h_slots s ! i)"
    "task_handle (f (h_slots s ! i)) = task_handle (h_slots s ! i)" "m_entry (f (h_slots s ! i)) = m_entry (h_slots s ! i)"
    "cmd_entry (f (h_slots s ! i)) = cmd_entry (h_slots s ! i)" "evt_entry (f (h_slots s ! i)) = evt_entry (h_slots s ! i)"
    "data_lo (f (h_slots s ! i)) = data_lo (h_slots s ! i)"
  shows "owns i m0 (upd_module i f s)"
  using assms by (simp add: owns_def caller_upd)

lemma owns_ext [simp]:
  "owns i m0 (s\<lparr>privileged := b\<rparr>) = owns i m0 s" "owns i m0 (s\<lparr>h_ev := ev\<rparr>) = owns i m0 s"
  by (simp_all add: owns_def)

definition own_ctx :: "module \<Rightarrow> ctx" where
  "own_ctx m0 = \<lparr>cx_cmd = cmd_entry m0, cx_evt = evt_entry m0, cx_got = data_lo m0\<rparr>"

fun pc_ok :: "nat \<Rightarrow> module \<Rightarrow> mhost \<Rightarrow> tpc \<Rightarrow> bool" where
  "pc_ok i m0 s (T_INIT e) = (e = \<lparr>en_entry = m_entry m0, en_got = data_lo m0\<rparr>)"
| "pc_ok i m0 s (T_LOOP c) = (c = own_ctx m0)"
| "pc_ok i m0 s (T_EVENT c x) = (c = own_ctx m0)"
| "pc_ok i m0 s (T_CMD c argc argv) = (c = own_ctx m0)"
| "pc_ok i m0 s (T_CMD_DONE c ret) = (c = own_ctx m0)"
| "pc_ok i m0 s (T_WAIT c) = (c = own_ctx m0)"
| "pc_ok i m0 s (T_BLOCKED c p) = (c = own_ctx m0 \<and> p = Some i
     \<and> parked_until_tick (h_slots s ! i) = PARKED_FOREVER)"
| "pc_ok i m0 s pc = True"

definition task_inv :: "nat \<Rightarrow> module \<Rightarrow> tpc \<times> mhost \<Rightarrow> bool" where
  "task_inv i m0 st \<longleftrightarrow> \<not> privileged (snd st) \<and> (fst st \<noteq> T_DELETED \<longrightarrow> owns i m0 (snd st)) \<and> pc_ok i m0 (snd st) (fst st)"

text \<open>What the parameters must respect: the module's code and the rest of the system neither give the task
  privilege nor take its slot away while it lives, and nobody else unparks it.\<close>

definition call_respects :: "nat \<Rightarrow> module \<Rightarrow> (addr \<Rightarrow> addr \<Rightarrow> call_args \<Rightarrow> mhost \<Rightarrow> mhost \<Rightarrow> int \<Rightarrow> bool) \<Rightarrow> bool" where
  "call_respects i m0 call \<longleftrightarrow> (\<forall>e g a s s' r. call e g a s s' r \<and> \<not> privileged s \<and> owns i m0 s \<longrightarrow>
     \<not> privileged s' \<and> owns i m0 s')"

definition env_respects :: "nat \<Rightarrow> module \<Rightarrow> (mhost \<Rightarrow> mhost \<Rightarrow> bool) \<Rightarrow> bool" where
  "env_respects i m0 env \<longleftrightarrow> (\<forall>s s'. env s s' \<and> \<not> privileged s \<longrightarrow> \<not> privileged s'
     \<and> (owns i m0 s \<longrightarrow> owns i m0 s' \<and> parked_until_tick (h_slots s' ! i) = parked_until_tick (h_slots s ! i)))"

text \<open>Each helper, called by the task of slot \<open>i\<close>.\<close>

lemma helpers_owned:
  assumes "owns i m0 s" "\<not> privileged s"
  shows "module_task_read_entry s = (\<lparr>en_entry = m_entry m0, en_got = data_lo m0\<rparr>, s)"
    "module_task_read_ctx s = (own_ctx m0, s)"
    "module_task_read_cmd a v s = ((\<lparr>en_entry = cmd_entry m0, en_got = data_lo m0\<rparr>, s_cmd_argc s, s_cmd_argv s), s)"
  using assms by (auto simp: module_task_read_entry_def module_task_read_ctx_def module_task_read_cmd_def owns_def
      xPortRaisePrivilege_def vPortResetPrivilege_def own_ctx_def)

lemma take_owned:
  assumes "owns i m0 s" "\<not> privileged s" "module_task_take_event s = (r, s')"
  shows "owns i m0 s'" "\<not> privileged s'" "h_slots s' = h_slots s"
proof -
  obtain r' ev where e: "mdl_events_take (me s) (h_slots s) (h_ev s) = (r', ev)"
    by (cases "mdl_events_take (me s) (h_slots s) (h_ev s)")
  have "s' = (s\<lparr>h_ev := ev\<rparr>)\<lparr>privileged := False\<rparr>"
    using assms(2,3) e unfolding module_task_take_event_def by (subst (asm) gate_unprivileged) auto
  then show "owns i m0 s'" "\<not> privileged s'" "h_slots s' = h_slots s"
    using assms(1) by simp_all
qed

lemma gate_upd_owned:
  assumes "owns i m0 s" "\<not> privileged s"
  shows "module_task_finish_cmd ret s = ((), upd_module i (\<lambda>m. m\<lparr>cmd_ret := word_of_int ret, cmd_pending := False\<rparr>) s)"
    "module_task_mark_finished s = ((), upd_module i (\<lambda>m. m\<lparr>m_state := SLOT_LOADED, task_handle := 0\<rparr>) s)"
    "wait_park s = (Some i, upd_module i (\<lambda>m. m\<lparr>parked_until_tick := PARKED_FOREVER\<rparr>) s)"
    "wait_wake (Some i) s = ((), upd_module i (\<lambda>m. m\<lparr>parked_until_tick := 0, last_active_tick := tick s\<rparr>) s)"
  using assms by (simp_all add: module_task_finish_cmd_def module_task_mark_finished_def wait_park_def wait_wake_def
      syscall_gate_def xPortRaisePrivilege_def vPortResetPrivilege_def owns_def upd_module_def)

inductive_cases tramp_elims: "tramp call env (pc, s) (pc', s')"

lemma tramp_inv:
  assumes step: "tramp call env (pc, s) (pc', s')" and inv: "task_inv i m0 (pc, s)"
    and call: "call_respects i m0 call" and env: "env_respects i m0 env"
  shows "task_inv i m0 (pc', s')"
proof -
  have up: "\<not> privileged s" and own: "pc \<noteq> T_DELETED \<Longrightarrow> owns i m0 s" and pc: "pc_ok i m0 s pc"
    using inv by (simp_all add: task_inv_def)
  note C = call [unfolded call_respects_def, rule_format] and E = env [unfolded env_respects_def, rule_format]
  from step show ?thesis
  proof (cases rule: tramp.cases)
    case (enter e)
    then show ?thesis using helpers_owned(1) [of i m0 s] up own by (simp add: task_inv_def)
  next
    case (init e ret)
    then show ?thesis using C [of _ _ _ s s' ret] up own by (simp add: task_inv_def)
  next
    case (resident c)
    then show ?thesis using helpers_owned(2) [of i m0 s] up own by (simp add: task_inv_def)
  next
    case (one_shot c)
    then show ?thesis using helpers_owned(2) [of i m0 s] up own by (simp add: task_inv_def)
  next
    case (finish u)
    then show ?thesis using gate_upd_owned(2) [of i m0 s] up own by (auto simp: task_inv_def)
  next
    case (take x c)
    then show ?thesis using take_owned [of i m0 s _ s'] up own pc by (simp add: task_inv_def)
  next
    case (drained c)
    then show ?thesis using take_owned [of i m0 s _ s'] up own pc by (simp add: task_inv_def)
  next
    case (command x un argc argv c)
    then show ?thesis using helpers_owned(3) [of i m0 s 0 0] up own pc by (simp add: task_inv_def)
  next
    case (run_command c argc argv ret)
    then show ?thesis using C [of _ _ _ s s' ret] up own pc by (simp add: task_inv_def)
  next
    case (no_command c argc argv)
    then show ?thesis using up own pc by (simp add: task_inv_def)
  next
    case (command_done ret u c)
    then show ?thesis using gate_upd_owned(1) [of i m0 s ret] up own pc by (auto simp: task_inv_def owns_upd)
  next
    case (event x c ret)
    then show ?thesis using C [of _ _ _ s s' ret] up own pc by (simp add: task_inv_def)
  next
    case (ignore x c)
    then show ?thesis using up own pc by (simp add: task_inv_def)
  next
    case (park p c)
    then show ?thesis using gate_upd_owned(3) [of i m0 s] up own pc
      by (auto simp: task_inv_def owns_upd) (simp add: owns_def)
  next
    case (wakeup p u c)
    then show ?thesis using gate_upd_owned(4) [of i m0 s] up own pc by (auto simp: task_inv_def owns_upd)
  next
    case other
    have "pc_ok i m0 s' pc" using pc E [of s s'] other up own by (cases pc) auto
    then show ?thesis using E [of s s'] other up own by (auto simp: task_inv_def)
  qed
qed


text \<open>A helper that does not find the caller's slot leaves the task privileged. \<open>module_task_read_entry\<close>,
  \<open>module_task_read_cmd\<close> and \<open>module_task_read_ctx\<close> return early, without dropping the privilege they raised;
  the other helpers, in the same situation, give it back.\<close>

theorem read_helpers_leak_privilege:
  assumes "caller s = None" "\<not> privileged s"
  shows "privileged (snd (module_task_read_entry s)) \<and> privileged (snd (module_task_read_ctx s))
    \<and> privileged (snd (module_task_read_cmd a v s))
    \<and> \<not> privileged (snd (module_task_finish_cmd ret s)) \<and> \<not> privileged (snd (module_task_mark_finished s))
    \<and> \<not> privileged (snd (wait_park s))"
  using assms by (simp add: module_task_read_entry_def module_task_read_ctx_def module_task_read_cmd_def
      module_task_finish_cmd_def module_task_mark_finished_def wait_park_def syscall_gate_def xPortRaisePrivilege_def
      vPortResetPrivilege_def)

section \<open>The queue is drained\<close>

text \<open>Module code that returns, and touches neither its slot nor its queue.\<close>

definition call_returns :: "nat \<Rightarrow> module \<Rightarrow> (addr \<Rightarrow> addr \<Rightarrow> call_args \<Rightarrow> mhost \<Rightarrow> mhost \<Rightarrow> int \<Rightarrow> bool) \<Rightarrow> bool" where
  "call_returns i m0 call \<longleftrightarrow> (\<forall>e g a s. owns i m0 s \<and> \<not> privileged s \<longrightarrow>
     (\<exists>s' r. call e g a s s' r \<and> owns i m0 s' \<and> \<not> privileged s' \<and> h_ev s' = h_ev s))"

definition waiting :: "nat \<Rightarrow> mhost \<Rightarrow> nat" where
  "waiting i s = e_count (s_evt (h_ev s) ! i)"

lemma take_event_cases:
  assumes "owns i m0 s" "\<not> privileged s" "i < length (s_evt (h_ev s))"
  obtains (none) "module_task_take_event s = (None, s)" "waiting i s = 0"
  | (some) x s' where "module_task_take_event s = (Some x, s')" "waiting i s = Suc (waiting i s')" "owns i m0 s'"
      "\<not> privileged s'" "length (s_evt (h_ev s')) = length (s_evt (h_ev s))"
proof -
  obtain r e where d: "dequeue (s_evt (h_ev s) ! i) = (r, e)" by (cases "dequeue (s_evt (h_ev s) ! i)")
  have "mdl_events_take (me s) (h_slots s) (h_ev s) = (r, (h_ev s)\<lparr>s_evt := (s_evt (h_ev s))[i := e]\<rparr>)"
    using assms(1) d by (simp add: mdl_events_take_def owns_def caller_def Let_def)
  then have t: "module_task_take_event s = (r, s\<lparr>h_ev := (h_ev s)\<lparr>s_evt := (s_evt (h_ev s))[i := e]\<rparr>, privileged := False\<rparr>)"
    using assms(2) by (simp add: module_task_take_event_def syscall_gate_def xPortRaisePrivilege_def vPortResetPrivilege_def)
  show thesis
  proof (cases "e_count (s_evt (h_ev s) ! i)")
    case 0
    then have "r = None" "e = s_evt (h_ev s) ! i" using d by (auto simp: dequeue_def)
    then have "module_task_take_event s = (None, s)" using t assms(2) by simp
    then show thesis using 0 by (intro none) (simp_all add: waiting_def)
  next
    case (Suc n)
    then have "r = Some (eq_buf (s_evt (h_ev s) ! i) ! e_head (s_evt (h_ev s) ! i))" "e_count e = n"
      using d by (auto simp: dequeue_def)
    then show thesis
      using t Suc assms
      by (intro some [of _ "s\<lparr>h_ev := (h_ev s)\<lparr>s_evt := (s_evt (h_ev s))[i := e]\<rparr>, privileged := False\<rparr>"])
        (auto simp: waiting_def)
  qed
qed

lemma finish_owned:
  assumes "owns i m0 s" "\<not> privileged s" "module_task_finish_cmd ret s = (u, s')"
  shows "owns i m0 s'" "\<not> privileged s'" "h_ev s' = h_ev s"
  using gate_upd_owned(1) [OF assms(1,2), of ret] assms by (auto simp: owns_upd)

text \<open>One event, from taking it to the top of the loop.\<close>

lemma event_answered:
  assumes "owns i m0 s1" "\<not> privileged s1" "call_returns i m0 call"
  shows "\<exists>s2. (tramp call env)\<^sup>*\<^sup>* (T_EVENT c x, s1) (T_LOOP c, s2) \<and> owns i m0 s2 \<and> \<not> privileged s2 \<and> h_ev s2 = h_ev s1"
proof (cases "e_source x = EVT_CONSOLE")
  case True
  obtain un argc argv where r: "module_task_read_cmd 0 0 s1 = ((un, argc, argv), s1)"
    using helpers_owned(3) [OF assms(1,2)] by blast
  have a: "tramp call env (T_EVENT c x, s1) (T_CMD c argc argv, s1)" using True r by (rule tramp.command)
  have "\<exists>s2 ret. tramp call env (T_CMD c argc argv, s1) (T_CMD_DONE c ret, s2) \<and> owns i m0 s2 \<and> \<not> privileged s2 \<and> h_ev s2 = h_ev s1"
  proof (cases "cx_cmd c \<noteq> 0 \<and> 0 < argc")
    case True
    obtain s2 ret where "call (cx_cmd c) (cx_got c) (ARGS_CMD argc argv) s1 s2 ret" "owns i m0 s2" "\<not> privileged s2" "h_ev s2 = h_ev s1"
      using assms(3,1,2) unfolding call_returns_def by blast
    then show ?thesis using True by (blast intro: tramp.run_command)
  next
    case False
    then show ?thesis using assms(1,2) by (blast intro: tramp.no_command)
  qed
  then obtain s2 ret where b: "tramp call env (T_CMD c argc argv, s1) (T_CMD_DONE c ret, s2)" "owns i m0 s2" "\<not> privileged s2" "h_ev s2 = h_ev s1"
    by blast
  obtain u s3 where f: "module_task_finish_cmd ret s2 = (u, s3)" by (cases "module_task_finish_cmd ret s2")
  have d: "tramp call env (T_CMD_DONE c ret, s2) (T_LOOP c, s3)" using f by (rule tramp.command_done)
  show ?thesis using a b(1) d finish_owned [OF b(2,3) f] b(4)
    by (intro exI [of _ s3]) (auto intro: converse_rtranclp_into_rtranclp)
next
  case False
  show ?thesis
  proof (cases "cx_evt c = 0")
    case True
    then show ?thesis using False assms(1,2) by (blast intro: tramp.ignore)
  next
    case ev: False
    obtain s2 ret where "call (cx_evt c) (cx_got c) (ARGS_EVENT x) s1 s2 ret" "owns i m0 s2" "\<not> privileged s2" "h_ev s2 = h_ev s1"
      using assms(3,1,2) unfolding call_returns_def by blast
    then show ?thesis using False ev by (blast intro: tramp.event)
  qed
qed


section \<open>The argument block\<close>

definition arg_bytes :: "u8 list list \<Rightarrow> nat" where
  "arg_bytes ss = (\<Sum>s \<leftarrow> ss. length s + 1)"

lemma arg_bytes_simps [simp]: "arg_bytes [] = 0" "arg_bytes (s # ss) = length s + 1 + arg_bytes ss"
  by (simp_all add: arg_bytes_def)

fun arg_starts :: "addr \<Rightarrow> u8 list list \<Rightarrow> addr list" where
  "arg_starts w [] = []"
| "arg_starts w (s # ss) = w # arg_starts (w + length s + 1) ss"

lemma arg_starts_bounds:
  "j < length ss \<Longrightarrow> w \<le> arg_starts w ss ! j \<and> arg_starts w ss ! j + length (ss ! j) + 1 \<le> w + arg_bytes ss"
proof (induction ss arbitrary: w j)
  case (Cons s ss)
  show ?case
  proof (cases j)
    case (Suc k)
    then show ?thesis using Cons.IH [of k "w + length s + 1"] Cons.prems by simp
  qed simp
qed simp

text \<open>A string that fits is written whole, with its NUL; one that does not stays below the end.\<close>

lemma copy_arg_fits:
  assumes "cs = [] \<or> w + length cs < e"
  shows "copy_arg w e cs mm = (Some (w + length cs + 1), mem_write w (cs @ [0]) mm)"
  using assms
proof (induction cs arbitrary: w mm)
  case Nil
  then show ?case by (auto simp: mem_write_def fun_eq_iff)
next
  case (Cons c cs)
  have "mem_write (w + 1) (cs @ [0]) (mm(w := c)) = mem_write w ((c # cs) @ [0]) mm"
    by (auto simp: mem_write_def fun_eq_iff nth_Cons')
  moreover have "copy_arg (w + 1) e cs (mm(w := c)) = (Some (w + 1 + length cs + 1), mem_write (w + 1) (cs @ [0]) (mm(w := c)))"
    by (rule Cons.IH) (use Cons.prems in auto)
  moreover have "\<not> e - 1 \<le> w" using Cons.prems by auto
  ultimately show ?case by (simp flip: fun_upd_def)
qed

lemma copy_arg_refused:
  assumes "cs \<noteq> []" "e \<le> w + length cs" "0 < e"
  shows "fst (copy_arg w e cs mm) = None" "\<And>a. a < w \<or> e \<le> a \<Longrightarrow> snd (copy_arg w e cs mm) a = mm a"
proof -
  have "fst (copy_arg w e cs mm) = None \<and> (\<forall>a. a < w \<or> e \<le> a \<longrightarrow> snd (copy_arg w e cs mm) a = mm a)"
    using assms(1,2)
  proof (induction cs arbitrary: w mm)
    case (Cons c cs)
    show ?case
    proof (cases "e - 1 \<le> w")
      case False
      define m1 where "m1 = mm(w := c)"
      have "cs \<noteq> []" "e \<le> w + 1 + length cs" using Cons.prems assms(3) False by auto
      then have "fst (copy_arg (w + 1) e cs m1) = None \<and> (\<forall>a. a < w + 1 \<or> e \<le> a \<longrightarrow> snd (copy_arg (w + 1) e cs m1) a = m1 a)"
        by (rule Cons.IH)
      moreover have "m1 a = mm a" if "a < w \<or> e \<le> a" for a using that False by (auto simp: m1_def)
      moreover have "copy_arg w e (c # cs) mm = copy_arg (w + 1) e cs m1" using False by (simp add: m1_def)
      ultimately show ?thesis by auto
    qed simp
  qed simp
  then show "fst (copy_arg w e cs mm) = None" "\<And>a. a < w \<or> e \<le> a \<Longrightarrow> snd (copy_arg w e cs mm) a = mm a" by auto
qed

lemma copy_args_fit:
  assumes "\<forall>s \<in> set ss. s \<noteq> []" "w + arg_bytes ss \<le> e" "b + 4 * (i + length ss) \<le> w" "e < 2 ^ 32"
  shows "\<exists>mm'. copy_args b e i w ss mm = (True, mm')
    \<and> (\<forall>j < length ss. ld32 mm' (b + 4 * (i + j)) = of_nat (arg_starts w ss ! j)
         \<and> mem_read mm' (arg_starts w ss ! j) (length (ss ! j) + 1) = ss ! j @ [0])
    \<and> (\<forall>a. a < b + 4 * i \<or> (b + 4 * (i + length ss) \<le> a \<and> a < w) \<or> w + arg_bytes ss \<le> a \<longrightarrow> mm' a = mm a)"
  using assms(1-3)
proof (induction ss arbitrary: i w mm)
  case (Cons s ss)
  let ?m1 = "st32 (b + 4 * i) (of_nat w) mm"
  let ?m2 = "mem_write w (s @ [0]) ?m1"
  have fits: "copy_arg w e s ?m1 = (Some (w + length s + 1), ?m2)"
    by (rule copy_arg_fits) (use Cons.prems in simp)
  obtain mm' where m: "copy_args b e (Suc i) (w + length s + 1) ss ?m2 = (True, mm')"
    and rd: "\<And>j. j < length ss \<Longrightarrow> ld32 mm' (b + 4 * (Suc i + j)) = of_nat (arg_starts (w + length s + 1) ss ! j)
         \<and> mem_read mm' (arg_starts (w + length s + 1) ss ! j) (length (ss ! j) + 1) = ss ! j @ [0]"
    and out: "\<And>a. a < b + 4 * Suc i \<or> (b + 4 * (Suc i + length ss) \<le> a \<and> a < w + length s + 1) \<or> w + length s + 1 + arg_bytes ss \<le> a \<Longrightarrow> mm' a = ?m2 a"
    using Cons.IH [of "w + length s + 1" "Suc i" ?m2] Cons.prems by auto
  have ptr: "ld32 mm' (b + 4 * i) = of_nat w"
  proof -
    have "mm' a = ?m1 a" if "b + 4 * i \<le> a" "a < b + 4 * i + 4" for a
      using out [of a] that Cons.prems(3) by (simp add: mem_write_def)
    then have "ld32 mm' (b + 4 * i) = ld32 ?m1 (b + 4 * i)" by (simp add: ld32_def)
    then show ?thesis by simp
  qed
  have str: "mem_read mm' w (length s + 1) = s @ [0]"
  proof (rule nth_equalityI)
    fix k
    assume k: "k < length (mem_read mm' w (length s + 1))"
    then have "mm' (w + k) = ?m2 (w + k)" using out [of "w + k"] Cons.prems(3) by simp
    then show "mem_read mm' w (length s + 1) ! k = (s @ [0]) ! k" using k by (simp add: mem_write_def)
  qed simp
  have "ld32 mm' (b + 4 * (i + j)) = of_nat (arg_starts w (s # ss) ! j)
      \<and> mem_read mm' (arg_starts w (s # ss) ! j) (length ((s # ss) ! j) + 1) = (s # ss) ! j @ [0]" if "j < length (s # ss)" for j
    using ptr str rd [of "j - 1"] that by (cases j) auto
  moreover have "mm' a = mm a" if "a < b + 4 * i \<or> (b + 4 * (i + length (s # ss)) \<le> a \<and> a < w) \<or> w + arg_bytes (s # ss) \<le> a" for a
    using out [of a] that Cons.prems(3) by (auto simp: mem_write_def st32_other)
  moreover have "copy_args b e i w (s # ss) mm = (True, mm')" using fits m by simp
  ultimately show ?case by blast
qed simp

lemma copy_args_refuse:
  assumes "\<forall>s \<in> set ss. s \<noteq> []" "e < w + arg_bytes ss" "w \<le> e" "b + 4 * (i + length ss) \<le> w" "0 < e"
  shows "\<exists>mm'. copy_args b e i w ss mm = (False, mm') \<and> (\<forall>a. a < b \<or> e \<le> a \<longrightarrow> mm' a = mm a)"
  using assms(1-4)
proof (induction ss arbitrary: i w mm)
  case (Cons s ss)
  let ?m1 = "st32 (b + 4 * i) (of_nat w) mm"
  have m1: "?m1 a = mm a" if "a < b \<or> e \<le> a" for a using that Cons.prems(3,4) by (auto simp: st32_other)
  show ?case
  proof (cases "w + length s < e")
    case True
    let ?m2 = "mem_write w (s @ [0]) ?m1"
    have "copy_arg w e s ?m1 = (Some (w + length s + 1), ?m2)" by (rule copy_arg_fits) (use True in simp)
    moreover obtain mm' where "copy_args b e (Suc i) (w + length s + 1) ss ?m2 = (False, mm')"
      "\<forall>a. a < b \<or> e \<le> a \<longrightarrow> mm' a = ?m2 a"
      using Cons.IH [of "w + length s + 1" "Suc i" ?m2] Cons.prems True by auto
    moreover have "?m2 a = mm a" if "a < b \<or> e \<le> a" for a using m1 [OF that] that True Cons.prems(4) by (auto simp: mem_write_def)
    ultimately show ?thesis by simp
  next
    case False
    note r = copy_arg_refused [where cs = s and e = e and w = w and mm = ?m1]
    obtain p mm' where c: "copy_arg w e s ?m1 = (p, mm')" by (cases "copy_arg w e s ?m1")
    have "p = None" "\<And>a. a < w \<or> e \<le> a \<Longrightarrow> mm' a = ?m1 a" using r c Cons.prems(1) False assms(5) by auto
    then show ?thesis using c m1 Cons.prems(4) by auto
  qed
qed simp


section \<open>Concrete instances\<close>

text \<open>A resident module with a command handler, in slot zero, and the state around it; \<open>me\<close> is its task.\<close>

definition resident_module :: module where
  "resident_module = held_module\<lparr>cmd_entry := 0x20020011, m_entry := 0x20020001\<rparr>"

lemma resident_module_simps [simp]:
  "m_state resident_module = SLOT_RUNNING" "task_handle resident_module = 7" "hs_lo resident_module = 0x20022000"
  "cmd_entry resident_module = 0x20020011" "m_entry resident_module = 0x20020001"
  by (simp_all add: resident_module_def)

definition mhost0 :: "nat \<Rightarrow> mhost" where
  "mhost0 t = \<lparr>h_slots = [resident_module, zero_module, zero_module, zero_module], h_mem = \<lambda>_. 0, me = t, tick = 100, cyccnt = 0,
     privileged = False, h_ev = ev0, s_cmd_argc = 0, s_cmd_argv = 0\<rparr>"

lemma mhost0_simps [simp]:
  "h_slots (mhost0 t) = [resident_module, zero_module, zero_module, zero_module]" "\<not> privileged (mhost0 t)" "h_ev (mhost0 t) = ev0"
  by (simp_all add: mhost0_def)

lemma mhost0_caller: "caller (mhost0 7) = Some 0" "caller (mhost0 9) = None"
  by (simp_all add: caller_def mdl_caller_slot_def mhost0_def)

lemma mhost0_owns: "owns 0 resident_module (mhost0 7)"
  by (simp add: owns_def mhost0_caller)

text \<open>Module code that returns 5 and changes nothing; an environment that changes nothing.\<close>

definition idle_call :: "addr \<Rightarrow> addr \<Rightarrow> call_args \<Rightarrow> mhost \<Rightarrow> mhost \<Rightarrow> int \<Rightarrow> bool" where
  "idle_call e g a s s' r \<longleftrightarrow> s' = s \<and> r = 5"

lemma idle_call_ok: "call_respects i m0 idle_call" "call_returns i m0 idle_call" "env_respects i m0 (=)"
  by (auto simp: call_respects_def call_returns_def env_respects_def idle_call_def)


theorem read_helpers_leak_privilege_witness:
  "\<not> privileged (mhost0 9) \<and> privileged (snd (module_task_read_entry (mhost0 9)))"
  using read_helpers_leak_privilege [OF mhost0_caller(2) mhost0_simps(2)] by simp



end
