(* ===== verification/Mpu.thy ===== *)
theory Mpu
  imports Arena "HOL-Library.Monad_Syntax"
begin

text \<open>
  \<open>src/mdl/arch/arm_cm4/mpu_armv7m.c\<close> and \<open>sandbox_init\<close> of \<open>src/mdl/core/sandbox.c\<close>: the four regions
  of the bare-metal sandbox, as register values of the ARMv7-M memory protection unit. What the unit does with its
  registers (the highest-numbered matching region decides, the access permissions of the AP field) is the
  architecture's; it is defined here to state what the values mean.
\<close>

section \<open>Registers and regions\<close>

record mregion =
  rg_base :: u32
  rg_size :: u32
  rg_perm :: u32

abbreviation PERM_NONE :: u32 where "PERM_NONE \<equiv> 0"
abbreviation PERM_READ :: u32 where "PERM_READ \<equiv> 1"
abbreviation PERM_WRITE :: u32 where "PERM_WRITE \<equiv> 2"
abbreviation PERM_EXEC :: u32 where "PERM_EXEC \<equiv> 4"

text \<open>\<open>RBAR\<close> and \<open>RASR\<close> are banked: \<open>RNR\<close> selects the region they belong to.\<close>

record mpu_hw =
  MPU_CTRL :: u32
  MPU_RNR :: u32
  MPU_RBAR :: "u32 \<Rightarrow> u32"
  MPU_RASR :: "u32 \<Rightarrow> u32"
  SCB_SHCSR :: u32

abbreviation MPU_REGION_BASE :: u32 where "MPU_REGION_BASE \<equiv> 4"

text \<open>The loop of \<open>size_field\<close>; \<open>sz\<close> wraps to 0 after \<open>2 ^ 31\<close>.\<close>

partial_function (option) size_loop :: "u32 \<Rightarrow> u32 \<Rightarrow> u32 \<Rightarrow> u32 option" where
  "size_loop bytes sz field = (if sz < bytes then size_loop bytes (push_bit 1 sz) (field + 1) else Some (field + 4))"

definition size_field :: "u32 \<Rightarrow> u32 option" where
  "size_field bytes = size_loop bytes 32 0"

definition perm_to_ap_xn :: "u32 \<Rightarrow> u32 \<times> u32" where
  "perm_to_ap_xn perm =
     (if perm = PERM_NONE then (0, 1)
      else (if perm AND PERM_WRITE \<noteq> 0 then 3 else 6, if perm AND PERM_EXEC \<noteq> 0 then 0 else 1))"

text \<open>AP at bit 24, XN at 28, S at 18, C at 17, B at 16, SIZE at 1, ENABLE at 0.\<close>

definition rasr_value :: "u32 \<Rightarrow> u32 \<Rightarrow> u32 \<Rightarrow> u32" where
  "rasr_value ap xn sf = push_bit 24 ap OR push_bit 28 xn OR push_bit 18 1 OR push_bit 17 1 OR push_bit 16 1
     OR push_bit 1 sf OR push_bit 0 1"

definition mpu_program_region :: "u32 \<Rightarrow> mregion \<Rightarrow> mpu_hw \<Rightarrow> mpu_hw option" where
  "mpu_program_region region_no r hw = (case perm_to_ap_xn (rg_perm r) of (ap, xn) \<Rightarrow>
     do { sf \<leftarrow> size_field (rg_size r);
          Some (hw\<lparr>MPU_RNR := region_no, MPU_RBAR := (MPU_RBAR hw)(region_no := rg_base r AND 0xFFFFFFE0),
                   MPU_RASR := (MPU_RASR hw)(region_no := rasr_value ap xn sf)\<rparr>) })"

text \<open>The loop, from the regions that are left: \<open>length rs\<close> is \<open>n - i\<close>.\<close>

fun program_regions :: "mregion list \<Rightarrow> mpu_hw \<Rightarrow> mpu_hw option" where
  "program_regions [] hw = Some hw"
| "program_regions (r # rs) hw =
     do { hw' \<leftarrow> mpu_program_region (MPU_REGION_BASE + of_nat (length rs)) r hw; program_regions rs hw' }"

text \<open>\<open>CTRL\<close> gets ENABLE, PRIVDEFENA and HFNMIENA; \<open>SHCSR\<close> gets MEMFAULTENA (bit 16).\<close>

definition arch_setup_regions :: "mregion list \<Rightarrow> mpu_hw \<Rightarrow> mpu_hw option" where
  "arch_setup_regions rs hw =
     do { hw' \<leftarrow> program_regions rs (hw\<lparr>MPU_CTRL := 0\<rparr>);
          Some (hw'\<lparr>MPU_CTRL := 7, SCB_SHCSR := SCB_SHCSR hw' OR 0x10000\<rparr>) }"

text \<open>The linker's symbols, by section: start and end.\<close>

record arena_syms =
  sy_guard :: "u32 \<times> u32"
  sy_text :: "u32 \<times> u32"
  sy_data :: "u32 \<times> u32"
  sy_heap_stack :: "u32 \<times> u32"

definition sandbox_regions :: "arena_syms \<Rightarrow> mregion list" where
  "sandbox_regions y =
     [\<lparr>rg_base = fst (sy_guard y), rg_size = snd (sy_guard y) - fst (sy_guard y), rg_perm = PERM_NONE\<rparr>,
      \<lparr>rg_base = fst (sy_text y), rg_size = snd (sy_text y) - fst (sy_text y), rg_perm = PERM_READ OR PERM_EXEC\<rparr>,
      \<lparr>rg_base = fst (sy_data y), rg_size = snd (sy_data y) - fst (sy_data y), rg_perm = PERM_READ OR PERM_WRITE\<rparr>,
      \<lparr>rg_base = fst (sy_heap_stack y), rg_size = snd (sy_heap_stack y) - fst (sy_heap_stack y),
       rg_perm = PERM_READ OR PERM_WRITE\<rparr>]"

definition sandbox_init :: "arena_syms \<Rightarrow> addr \<Rightarrow> slots \<Rightarrow> mem \<Rightarrow> mpu_hw \<Rightarrow> (slots \<times> bstate \<times> mpu_hw) option" where
  "sandbox_init y pool ms m hw =
     do { hw' \<leftarrow> arch_setup_regions (sandbox_regions y) hw;
          (case sandbox_bounds_init pool ms m of (ms', st) \<Rightarrow> Some (ms', st, hw')) }"

section \<open>What the registers mean\<close>

datatype access = Fetch | Load | Store

definition region_matches :: "mpu_hw \<Rightarrow> u32 \<Rightarrow> addr \<Rightarrow> bool" where
  "region_matches hw n a \<longleftrightarrow> bit (MPU_RASR hw n) 0
     \<and> (let k = unat (drop_bit 1 (MPU_RASR hw n) AND 31) + 1 in a div 2 ^ k = unat (MPU_RBAR hw n) div 2 ^ k)"

definition deciding_region :: "mpu_hw \<Rightarrow> addr \<Rightarrow> u32 option" where
  "deciding_region hw a = find (\<lambda>n. region_matches hw n a) [7, 6, 5, 4, 3, 2, 1, 0]"

text \<open>The AP field: nobody, privileged only, read-only for the unprivileged, all, and the read-only values.\<close>

definition ap_allows :: "u32 \<Rightarrow> bool \<Rightarrow> access \<Rightarrow> bool" where
  "ap_allows ap priv acc =
     (if ap = 1 then priv else if ap = 2 then priv \<or> acc \<noteq> Store else if ap = 3 then True
      else if ap = 5 then priv \<and> acc \<noteq> Store else if ap = 6 \<or> ap = 7 then acc \<noteq> Store else False)"

definition mpu_allows :: "mpu_hw \<Rightarrow> bool \<Rightarrow> access \<Rightarrow> addr \<Rightarrow> bool" where
  "mpu_allows hw priv acc a =
     (if \<not> bit (MPU_CTRL hw) 0 then True
      else case deciding_region hw a of
        None \<Rightarrow> priv \<and> bit (MPU_CTRL hw) 2
      | Some n \<Rightarrow> ap_allows (drop_bit 24 (MPU_RASR hw n) AND 7) priv acc
          \<and> (acc = Fetch \<longrightarrow> \<not> bit (MPU_RASR hw n) 28))"

text \<open>What the caller of \<open>arch_setup_regions\<close> asks for.\<close>

definition perm_allows :: "u32 \<Rightarrow> access \<Rightarrow> bool" where
  "perm_allows perm acc \<longleftrightarrow> perm \<noteq> PERM_NONE \<and> (acc = Store \<longrightarrow> perm AND PERM_WRITE \<noteq> 0) \<and> (acc = Fetch \<longrightarrow> perm AND PERM_EXEC \<noteq> 0)"

definition region_ok :: "mregion \<Rightarrow> bool" where
  "region_ok r \<longleftrightarrow> (\<exists>k. 5 \<le> k \<and> k \<le> 31 \<and> unat (rg_size r) = 2 ^ k \<and> 2 ^ k dvd unat (rg_base r))"

definition in_region :: "addr \<Rightarrow> mregion \<Rightarrow> bool" where
  "in_region a r \<longleftrightarrow> unat (rg_base r) \<le> a \<and> a < unat (rg_base r) + unat (rg_size r)"

section \<open>The size field\<close>

lemma unat_pow2: "k \<le> 31 \<Longrightarrow> unat (2 ^ k :: u32) = 2 ^ k"
proof -
  assume "k \<le> 31"
  then have "(2 :: nat) ^ k \<le> 2 ^ 31" by (intro power_increasing) auto
  then have "unat (of_nat (2 ^ k) :: u32) = 2 ^ k" by (simp only: unat_of_nat) simp
  then show ?thesis by simp
qed

lemma size_loop_zero: "size_loop bytes sz field = Some y \<Longrightarrow> sz = 0 \<longrightarrow> bytes = 0"
proof (erule size_loop.raw_induct [rotated, where P = "\<lambda>b s f y. s = 0 \<longrightarrow> b = 0"])
  fix f :: "u32 \<Rightarrow> u32 \<Rightarrow> u32 \<Rightarrow> u32 option" and b s g r
  assume IH: "\<And>b s g r. f b s g = Some r \<Longrightarrow> s = 0 \<longrightarrow> b = 0"
    and eq: "(if s < b then f b (push_bit 1 s) (g + 1) else Some (g + 4)) = Some r"
  show "s = 0 \<longrightarrow> b = 0"
  proof
    assume "s = 0"
    then show "b = 0" using eq IH [of b 0 "g + 1" r] by (auto split: if_splits simp: word_gt_0)
  qed
qed

lemma size_loop_pow:
  assumes "k \<le> 31"
  shows "size_loop bytes (2 ^ k) f = (if unat bytes \<le> 2 ^ k then Some (f + 4)
    else if k = 31 then None else size_loop bytes (2 ^ Suc k) (f + 1))"
proof -
  have u: "unat (2 ^ k :: u32) = 2 ^ k" by (rule unat_pow2 [OF assms])
  have lt: "(2 ^ k :: u32) < bytes \<longleftrightarrow> \<not> unat bytes \<le> 2 ^ k" using u by (simp add: word_less_nat_alt not_le)
  have sh: "push_bit 1 (2 ^ k :: u32) = 2 ^ Suc k" by (simp add: push_bit_eq_mult)
  have "size_loop bytes 0 g = None" if "bytes \<noteq> 0" for g
    using size_loop_zero [of bytes 0 g] that by (cases "size_loop bytes 0 g") auto
  moreover have "bytes \<noteq> 0" if "\<not> unat bytes \<le> 2 ^ k" using that by auto
  moreover have "(2 :: u32) ^ Suc k = 0" if "k = 31" using that by simp
  moreover have "size_loop bytes (2 ^ k) f = (if \<not> unat bytes \<le> 2 ^ k then size_loop bytes (2 ^ Suc k) (f + 1) else Some (f + 4))"
    by (subst size_loop.simps) (simp only: lt sh)
  ultimately show ?thesis by (cases "k = 31") (simp_all only: if_True if_False if_not_P refl split: if_split, blast+)
qed

text \<open>The least exponent, at least 5, of a power of two that holds \<open>b\<close> bytes.\<close>

lemma size_loop_least:
  assumes "5 \<le> k" "k \<le> 31" "k = 5 \<or> 2 ^ (k - 1) < unat bytes"
  shows "case size_loop bytes (2 ^ k) (of_nat (k - 5)) of
      None \<Rightarrow> 2 ^ 31 < unat bytes
    | Some f \<Rightarrow> (\<exists>j. f = of_nat j \<and> 4 \<le> j \<and> j \<le> 30 \<and> unat bytes \<le> 2 ^ (j + 1) \<and> (j = 4 \<or> 2 ^ j < unat bytes))"
  using assms
proof (induction "31 - k" arbitrary: k)
  case 0
  then have k: "k = 31" by simp
  show ?case
    using 0(4) unfolding k by (subst size_loop_pow) (auto intro!: exI [of _ 30])
next
  case (Suc d)
  show ?case
  proof (cases "unat bytes \<le> 2 ^ k")
    case True
    have "(of_nat (k - 5) :: u32) + 4 = of_nat (k - 5 + 4)" by (simp only: of_nat_add of_nat_numeral)
    then have "size_loop bytes (2 ^ k) (of_nat (k - 5)) = Some (of_nat (k - 5 + 4))"
      using Suc.prems(2) True by (simp only: size_loop_pow if_True)
    moreover have "k - 5 + 4 = k - 1" using Suc.prems(1) by simp
    ultimately have eq: "size_loop bytes (2 ^ k) (of_nat (k - 5)) = Some (of_nat (k - 1))" by simp
    have "unat bytes \<le> 2 ^ (k - 1 + 1)" "k - 1 = 4 \<or> 2 ^ (k - 1) < unat bytes"
      using True Suc.prems(1,3) by (auto simp: Suc_diff_le)
    moreover have "4 \<le> k - 1" "k - 1 \<le> 30" using Suc.prems(1,2) by simp_all
    ultimately show ?thesis unfolding eq option.case by blast
  next
    case False
    have "(of_nat (k - 5) :: u32) + 1 = of_nat (Suc k - 5)" using Suc.prems(1) by (simp add: Suc_diff_le)
    moreover have "k \<noteq> 31" using Suc.hyps(2) by auto
    ultimately have eq: "size_loop bytes (2 ^ k) (of_nat (k - 5)) = size_loop bytes (2 ^ Suc k) (of_nat (Suc k - 5))"
      using False Suc.prems(2) by (simp only: size_loop_pow if_False)
    have "d = 31 - Suc k" "5 \<le> Suc k" "Suc k \<le> 31" using Suc.hyps(2) Suc.prems(1) by simp_all
    moreover have "2 ^ (Suc k - 1) < unat bytes" using False by simp
    ultimately show ?thesis unfolding eq by (intro Suc.hyps(1)) simp_all
  qed
qed

lemma size_field_full:
  "case size_field bytes of
      None \<Rightarrow> 2 ^ 31 < unat bytes
    | Some f \<Rightarrow> (\<exists>j. f = of_nat j \<and> 4 \<le> j \<and> j \<le> 30 \<and> unat bytes \<le> 2 ^ (j + 1) \<and> (j = 4 \<or> 2 ^ j < unat bytes))"
  using size_loop_least [of 5 bytes] by (simp add: size_field_def)

text \<open>The SIZE field is exact, and the loop that finds it ends unless the size is above \<open>2 ^ 31\<close>. For every size up
  to \<open>2 ^ 31\<close> the field stands for the smallest region of at least 32 bytes that holds it: a size that is no power of two is rounded up.
  For a larger size the shift wraps to zero and the loop never ends.\<close>

theorem size_field_exact:
  "case size_field bytes of
      None \<Rightarrow> 2 ^ 31 < unat bytes
    | Some f \<Rightarrow> unat bytes \<le> 2 ^ 31 \<and> 4 \<le> unat f \<and> unat f \<le> 30 \<and> unat bytes \<le> 2 ^ (unat f + 1)
        \<and> (unat f = 4 \<or> 2 ^ unat f < unat bytes)"
proof (cases "size_field bytes")
  case (Some f)
  then obtain j where j: "f = of_nat j" "4 \<le> j" "j \<le> 30" "unat bytes \<le> 2 ^ (j + 1)" "j = 4 \<or> 2 ^ j < unat bytes"
    using size_field_full [of bytes] by auto
  have "unat f = j" using j(1,3) by (simp add: unat_of_nat)
  moreover have "(2 :: nat) ^ (j + 1) \<le> 2 ^ 31" using j(3) by (intro power_increasing) auto
  ultimately show ?thesis using j Some by auto
qed (use size_field_full [of bytes] in simp)

section \<open>The register fields\<close>

lemma rasr_fields:
  assumes "ap \<in> {0, 3, 6}" "xn \<in> {0, 1}" "4 \<le> j" "j \<le> 30"
  shows "drop_bit 24 (rasr_value ap xn (of_nat j)) AND 7 = ap" "bit (rasr_value ap xn (of_nat j)) 28 \<longleftrightarrow> xn = 1"
    "unat (drop_bit 1 (rasr_value ap xn (of_nat j)) AND 31) = j" "bit (rasr_value ap xn (of_nat j)) 0"
proof -
  let ?sf = "of_nat j :: u32"
  let ?hi = "push_bit 24 ap OR push_bit 28 xn OR push_bit 18 1 OR push_bit 17 1 OR push_bit 16 1 :: u32"
  have tj: "take_bit 5 j = j" using assms(4) by (simp add: take_bit_nat_eq_self_iff)
  then have j5: "\<not> bit j n" if "5 \<le> n" for n using that bit_take_bit_iff [of 5 j n] by simp
  from tj have sf: "take_bit 5 ?sf = ?sf" by (metis of_nat_take_bit)
  then have sf5: "\<not> bit ?sf n" if "5 \<le> n" for n using that bit_take_bit_iff [of 5 ?sf n] by simp
  define p where "p = push_bit 1 ?sf"
  have p: "bit p n \<longleftrightarrow> 1 \<le> n \<and> n < 32 \<and> bit ?sf (n - 1)" for n
    unfolding p_def by (simp only: bit_push_bit_iff possible_bit_word) auto
  have r: "rasr_value ap xn ?sf = ?hi OR (p OR 1)"
    by (simp only: rasr_value_def or.assoc push_bit_0_id id_apply p_def)
  have hi: "drop_bit 24 ?hi AND 7 = ap" "bit ?hi 28 \<longleftrightarrow> xn = 1" "drop_bit 1 ?hi AND 31 = 0"
    using assms(1,2) by auto
  have lo: "drop_bit 24 (p OR 1) = 0" "\<not> bit (p OR 1) 28" "drop_bit 1 (p OR 1) AND 31 = ?sf"
  proof -
    show "drop_bit 24 (p OR 1) = 0" by (rule bit_word_eqI) (auto simp: bit_simps p sf5 j5)
    show "\<not> bit (p OR 1) 28" by (auto simp: bit_simps p sf5 j5)
    have "drop_bit 1 (p OR 1) = ?sf"
    proof (rule bit_word_eqI)
      fix n
      assume "n < LENGTH(32)"
      then show "bit (drop_bit 1 (p OR 1)) n = bit ?sf n"
        using sf5 [of n] by (cases "n < 31") (auto simp: bit_drop_bit_eq bit_or_iff p bit_1_iff)
    qed
    then show "drop_bit 1 (p OR 1) AND 31 = ?sf" using sf by (simp add: take_bit_eq_mask mask_eq_exp_minus_1)
  qed
  show "drop_bit 24 (rasr_value ap xn ?sf) AND 7 = ap" using hi(1) lo(1) by (simp only: r drop_bit_or or.right_neutral)
  show "bit (rasr_value ap xn ?sf) 28 \<longleftrightarrow> xn = 1" using hi(2) lo(2) by (simp only: r bit_or_iff simp_thms)
  have "unat ?sf = j" using assms(4) by (simp add: unat_of_nat)
  then show "unat (drop_bit 1 (rasr_value ap xn ?sf) AND 31) = j"
    using hi(3) lo(3) by (simp only: r drop_bit_or bit.conj_disj_distrib2 or.left_neutral)
  show "bit (rasr_value ap xn ?sf) 0" by (simp only: r bit_or_iff bit_1_iff simp_thms possible_bit_word len_gt_0)
qed

lemma size_field_pow:
  assumes "unat bytes = 2 ^ k" "5 \<le> k" "k \<le> 31"
  shows "size_field bytes = Some (of_nat (k - 1))"
proof -
  have le: "(2 :: nat) ^ k \<le> 2 ^ 31" using assms(3) by (intro power_increasing) auto
  then obtain f where f: "size_field bytes = Some f"
    using size_field_full [of bytes] assms(1) by (cases "size_field bytes") auto
  then obtain j where j: "f = of_nat j" "4 \<le> j" "(2 :: nat) ^ k \<le> 2 ^ (j + 1)" "j = 4 \<or> (2 :: nat) ^ j < 2 ^ k"
    using size_field_full [of bytes] assms(1) by auto
  have "k \<le> j + 1" using j(3) by (simp only: power_increasing_iff)
  moreover have "j = 4 \<or> j < k" using j(4) by simp
  ultimately have "j = k - 1" using assms(2) by auto
  then show ?thesis using f j(1) by simp
qed

lemma align_mask:
  assumes "2 ^ k dvd unat (b :: u32)" "5 \<le> k"
  shows "b AND 0xFFFFFFE0 = b"
proof -
  have "2 ^ 5 dvd unat b" using dvd_trans [OF le_imp_power_dvd [OF assms(2)] assms(1)] .
  then have "take_bit 5 (unat b) = 0" by (simp only: take_bit_eq_mod dvd_imp_mod_0)
  then have "unat (take_bit 5 b) = 0" by (simp only: unsigned_take_bit_eq)
  then have "take_bit 5 b = 0" by (simp only: unat_eq_zero)
  then have low: "\<not> bit b n" if "n < 5" for n
    using that bit_take_bit_iff [of 5 b n] by simp
  have "(0xFFFFFFE0 :: u32) = NOT (mask 5)" by (simp add: mask_eq_exp_minus_1)
  moreover have "b AND NOT (mask 5) = b"
    by (rule bit_word_eqI) (use low in \<open>auto simp: bit_simps\<close>)
  ultimately show ?thesis by simp
qed

lemma aligned_div:
  assumes "2 ^ k dvd b"
  shows "a div 2 ^ k = b div 2 ^ k \<longleftrightarrow> b \<le> a \<and> a < b + (2 :: nat) ^ k"
proof -
  obtain c where c: "b = 2 ^ k * c" using assms by (rule dvdE)
  have "b div 2 ^ k = c" using c by simp
  moreover have "a div 2 ^ k = c \<longleftrightarrow> 2 ^ k * c \<le> a \<and> a < 2 ^ k * Suc c"
    by (metis div_less_iff_less_mult div_nat_eqI dividend_less_times_div less_eq_div_iff_mult_less_eq mult.commute mult_Suc_right order_refl zero_less_numeral zero_less_power times_div_less_eq_dividend)
  ultimately show ?thesis using c by (simp add: add.commute)
qed

text \<open>What one programmed region says.\<close>

lemma program_region_spec:
  assumes "region_ok r"
  obtains f where "mpu_program_region n r hw = Some (hw\<lparr>MPU_RNR := n, MPU_RBAR := (MPU_RBAR hw)(n := rg_base r),
      MPU_RASR := (MPU_RASR hw)(n := f)\<rparr>)"
    "bit f 0" "\<And>a. a div 2 ^ (unat (drop_bit 1 f AND 31) + 1) = unat (rg_base r) div 2 ^ (unat (drop_bit 1 f AND 31) + 1) \<longleftrightarrow> in_region a r"
    "\<And>priv acc. (ap_allows (drop_bit 24 f AND 7) priv acc \<and> (acc = Fetch \<longrightarrow> \<not> bit f 28)) = perm_allows (rg_perm r) acc"
proof -
  obtain k where k: "5 \<le> k" "k \<le> 31" "unat (rg_size r) = 2 ^ k" "2 ^ k dvd unat (rg_base r)"
    using assms by (auto simp: region_ok_def)
  obtain ap xn where p: "perm_to_ap_xn (rg_perm r) = (ap, xn)" by (cases "perm_to_ap_xn (rg_perm r)")
  have fields: "ap \<in> {0, 3, 6}" "xn \<in> {0, 1}" using p by (auto simp: perm_to_ap_xn_def split: if_splits)
  let ?f = "rasr_value ap xn (of_nat (k - 1))"
  have j: "4 \<le> k - 1" "k - 1 \<le> 30" using k by auto
  note rf = rasr_fields [OF fields j]
  show thesis
  proof
    show "mpu_program_region n r hw = Some (hw\<lparr>MPU_RNR := n, MPU_RBAR := (MPU_RBAR hw)(n := rg_base r),
        MPU_RASR := (MPU_RASR hw)(n := ?f)\<rparr>)"
      using p size_field_pow [OF k(3,1,2)] align_mask [OF k(4,1)] by (simp add: mpu_program_region_def)
    show "bit ?f 0" by (rule rf(4))
    have "unat (drop_bit 1 ?f AND 31) + 1 = k" using rf(3) k(1) by simp
    then show "a div 2 ^ (unat (drop_bit 1 ?f AND 31) + 1) = unat (rg_base r) div 2 ^ (unat (drop_bit 1 ?f AND 31) + 1) \<longleftrightarrow> in_region a r" for a
      using aligned_div [OF k(4), of a] by (simp only: in_region_def k(3))
    show "(ap_allows (drop_bit 24 ?f AND 7) priv acc \<and> (acc = Fetch \<longrightarrow> \<not> bit ?f 28)) = perm_allows (rg_perm r) acc" for priv acc
      unfolding rf(1,2) using p by (cases acc) (auto simp: perm_to_ap_xn_def perm_allows_def ap_allows_def split: if_splits)
  qed
qed

section \<open>The regions together\<close>

lemma program_regions_four:
  assumes "\<forall>r \<in> set [r0, r1, r2, r3]. region_ok r"
  shows "\<exists>hw'. program_regions [r0, r1, r2, r3] hw = Some hw' \<and> MPU_CTRL hw' = MPU_CTRL hw
    \<and> (\<forall>(n, r) \<in> {(7, r0), (6, r1), (5, r2), (4, r3)}. (\<forall>a. region_matches hw' n a = in_region a r)
        \<and> (\<forall>priv acc. (ap_allows (drop_bit 24 (MPU_RASR hw' n) AND 7) priv acc
             \<and> (acc = Fetch \<longrightarrow> \<not> bit (MPU_RASR hw' n) 28)) = perm_allows (rg_perm r) acc))
    \<and> (\<forall>n < 4. MPU_RASR hw' n = MPU_RASR hw n)"
proof -
  have ok: "region_ok r0" "region_ok r1" "region_ok r2" "region_ok r3" using assms by simp_all
  note spec = program_region_spec
  let ?says = "\<lambda>f r. bit f 0 \<and> (\<forall>a. a div 2 ^ (unat (drop_bit 1 f AND 31) + 1) = unat (rg_base r) div 2 ^ (unat (drop_bit 1 f AND 31) + 1) \<longleftrightarrow> in_region a r)
    \<and> (\<forall>priv acc. (ap_allows (drop_bit 24 f AND 7) priv acc \<and> (acc = Fetch \<longrightarrow> \<not> bit f 28)) = perm_allows (rg_perm r) acc)"
  let ?put = "\<lambda>n r f hw. hw\<lparr>MPU_RNR := n, MPU_RBAR := (MPU_RBAR hw)(n := rg_base r), MPU_RASR := (MPU_RASR hw)(n := f)\<rparr>"
  have one: "\<exists>f. mpu_program_region n r hw = Some (?put n r f hw) \<and> ?says f r" if r: "region_ok r" for n r and hw :: mpu_hw
    by (rule program_region_spec [OF r, of n hw]) blast
  obtain f0 where f0: "mpu_program_region 7 r0 hw = Some (?put 7 r0 f0 hw)" "?says f0 r0" using one [OF ok(1)] by blast
  let ?h0 = "?put 7 r0 f0 hw"
  obtain f1 where f1: "mpu_program_region 6 r1 ?h0 = Some (?put 6 r1 f1 ?h0)" "?says f1 r1" using one [OF ok(2)] by blast
  let ?h1 = "?put 6 r1 f1 ?h0"
  obtain f2 where f2: "mpu_program_region 5 r2 ?h1 = Some (?put 5 r2 f2 ?h1)" "?says f2 r2" using one [OF ok(3)] by blast
  let ?h2 = "?put 5 r2 f2 ?h1"
  obtain f3 where f3: "mpu_program_region 4 r3 ?h2 = Some (?put 4 r3 f3 ?h2)" "?says f3 r3" using one [OF ok(4)] by blast
  let ?h3 = "?put 4 r3 f3 ?h2"
  have "program_regions [r0, r1, r2, r3] hw = Some ?h3" using f0(1) f1(1) f2(1) f3(1) by simp
  moreover have "MPU_CTRL ?h3 = MPU_CTRL hw" by simp
  moreover have "region_matches ?h3 7 a = in_region a r0" "region_matches ?h3 6 a = in_region a r1"
    "region_matches ?h3 5 a = in_region a r2" "region_matches ?h3 4 a = in_region a r3" for a
    using f0(2) f1(2) f2(2) f3(2) by (simp_all add: region_matches_def Let_def)
  moreover have "MPU_RASR ?h3 7 = f0" "MPU_RASR ?h3 6 = f1" "MPU_RASR ?h3 5 = f2" "MPU_RASR ?h3 4 = f3" by simp_all
  moreover have "\<forall>n < 4. MPU_RASR ?h3 n = MPU_RASR hw n" by auto
  ultimately show ?thesis using f0(2) f1(2) f2(2) f3(2) by (intro exI [of _ ?h3]) (simp only: ball_simps case_prod_conv simp_thms)
qed

lemma deciding_region_find:
  assumes "region_matches hw' 7 a = in_region a r0" "region_matches hw' 6 a = in_region a r1"
    "region_matches hw' 5 a = in_region a r2" "region_matches hw' 4 a = in_region a r3" "\<forall>n < 4. \<not> bit (MPU_RASR hw' n) 0"
  shows "deciding_region hw' a = (if in_region a r0 then Some 7 else if in_region a r1 then Some 6
    else if in_region a r2 then Some 5 else if in_region a r3 then Some 4 else None)"
  using assms by (simp add: deciding_region_def region_matches_def)

lemma setup_regions_full:
  assumes "\<forall>r \<in> set [r0, r1, r2, r3]. region_ok r" "\<forall>n < 4. \<not> bit (MPU_RASR hw n) 0"
  shows "\<exists>hw'. arch_setup_regions [r0, r1, r2, r3] hw = Some hw'
    \<and> (\<forall>a priv acc. mpu_allows hw' priv acc a =
         (case find (in_region a) [r0, r1, r2, r3] of None \<Rightarrow> priv | Some r \<Rightarrow> perm_allows (rg_perm r) acc))"
proof -
  obtain hw1 where p: "program_regions [r0, r1, r2, r3] (hw\<lparr>MPU_CTRL := 0\<rparr>) = Some hw1"
    and regs: "\<forall>(n, r) \<in> {(7, r0), (6, r1), (5, r2), (4, r3)}. (\<forall>a. region_matches hw1 n a = in_region a r)
        \<and> (\<forall>priv acc. (ap_allows (drop_bit 24 (MPU_RASR hw1 n) AND 7) priv acc
             \<and> (acc = Fetch \<longrightarrow> \<not> bit (MPU_RASR hw1 n) 28)) = perm_allows (rg_perm r) acc)"
    and low: "\<forall>n < 4. MPU_RASR hw1 n = MPU_RASR (hw\<lparr>MPU_CTRL := 0\<rparr>) n"
    using program_regions_four [OF assms(1), of "hw\<lparr>MPU_CTRL := 0\<rparr>"] by blast
  let ?hw = "hw1\<lparr>MPU_CTRL := 7, SCB_SHCSR := SCB_SHCSR hw1 OR 0x10000\<rparr>"
  have same: "region_matches ?hw n a = region_matches hw1 n a" for n a by (simp add: region_matches_def)
  have m: "region_matches ?hw 7 a = in_region a r0" "region_matches ?hw 6 a = in_region a r1"
    "region_matches ?hw 5 a = in_region a r2" "region_matches ?hw 4 a = in_region a r3" for a
    unfolding same using regs by auto
  have "\<forall>n < 4. \<not> bit (MPU_RASR ?hw n) 0" using low assms(2) by simp
  note d = deciding_region_find [OF m this]
  have "mpu_allows ?hw priv acc a = (case find (in_region a) [r0, r1, r2, r3] of None \<Rightarrow> priv | Some r \<Rightarrow> perm_allows (rg_perm r) acc)" for a priv acc
    using regs d [of a] by (auto simp: mpu_allows_def)
  then show ?thesis using p by (intro exI [of _ ?hw]) (simp add: arch_setup_regions_def)
qed

text \<open>C23: The four regions mean what the caller asked for. For regions whose sizes are powers of two
  of at least 32 bytes and whose bases are aligned, with nothing programmed in the lower regions, the setup ends, and then every
  access, privileged or not, is decided by the first region of the array that contains its address, with that
  region's permissions; an address in none of them is for privileged code only.\<close>

theorem arch_setup_regions_enforces:
  assumes "\<forall>r \<in> set [r0, r1, r2, r3]. region_ok r" "\<forall>n < 4. \<not> bit (MPU_RASR hw n) 0"
  shows "\<exists>hw'. arch_setup_regions [r0, r1, r2, r3] hw = Some hw'
    \<and> (\<forall>a priv acc. mpu_allows hw' priv acc a =
         (case find (in_region a) [r0, r1, r2, r3] of None \<Rightarrow> priv | Some r \<Rightarrow> perm_allows (rg_perm r) acc))"
  by (rule setup_regions_full [OF assms])

text \<open>The sandbox at boot. With the arena's sections aligned as the linker script lays them out: nobody,
  not even privileged code, can touch the guard; no address can be both written and executed by
  unprivileged code; unprivileged code reaches the text, the data and the heap-and-stack section only;
  the slot's bounds are zero, and no arena block is held.\<close>

theorem sandbox_init_confines:
  assumes "\<forall>r \<in> set (sandbox_regions y). region_ok r" "\<forall>n < 4. \<not> bit (MPU_RASR hw n) 0"
  shows "case sandbox_init y pool ms m hw of
      None \<Rightarrow> False
    | Some (ms', st, hw') \<Rightarrow>
        (\<forall>a priv acc. in_region a (sandbox_regions y ! 0) \<longrightarrow> \<not> mpu_allows hw' priv acc a)
        \<and> (\<forall>a. \<not> (mpu_allows hw' False Store a \<and> mpu_allows hw' False Fetch a))
        \<and> (\<forall>a acc. mpu_allows hw' False acc a \<longrightarrow> (\<exists>i \<in> {1, 2, 3}. in_region a (sandbox_regions y ! i)))
        \<and> ms' = ms[0 := clear_bounds (ms ! 0)] \<and> st = mdl_buddy_init pool m"
proof -
  obtain r0 r1 r2 r3 where y: "sandbox_regions y = [r0, r1, r2, r3]" by (simp add: sandbox_regions_def)
  have perms: "rg_perm r0 = 0" "rg_perm r1 = 5" "rg_perm r2 = 3" "rg_perm r3 = 3"
    using y by (auto simp: sandbox_regions_def)
  obtain hw' where s: "arch_setup_regions (sandbox_regions y) hw = Some hw'"
    and al: "\<And>a priv acc. mpu_allows hw' priv acc a =
         (case find (in_region a) [r0, r1, r2, r3] of None \<Rightarrow> priv | Some r \<Rightarrow> perm_allows (rg_perm r) acc)"
    using setup_regions_full [of r0 r1 r2 r3 hw] assms y by auto
  have al': "mpu_allows hw' priv acc a = (if in_region a r0 then False else if in_region a r1 then acc \<noteq> Store
      else if in_region a r2 \<or> in_region a r3 then acc \<noteq> Fetch else priv)" for a priv acc
    unfolding al by (cases acc) (auto simp: perm_allows_def perms)
  show ?thesis
    using s by (auto simp: sandbox_init_def sandbox_bounds_init_def al' y split: if_splits)
qed

section \<open>Concrete instances\<close>

text \<open>The linker script's layout at the start of the arena: 16K, 8K, 8K and 32 bytes.\<close>

definition syms0 :: arena_syms where
  "syms0 = \<lparr>sy_guard = (0x20028000, 0x20028020), sy_text = (0x20020000, 0x20024000), sy_data = (0x20024000, 0x20026000),
     sy_heap_stack = (0x20026000, 0x20028000)\<rparr>"

definition mpu0 :: mpu_hw where
  "mpu0 = \<lparr>MPU_CTRL = 0, MPU_RNR = 0, MPU_RBAR = \<lambda>_. 0, MPU_RASR = \<lambda>_. 0, SCB_SHCSR = 0\<rparr>"

lemma syms0_ok: "\<forall>r \<in> set (sandbox_regions syms0). region_ok r"
proof -
  have "region_ok \<lparr>rg_base = b, rg_size = s, rg_perm = p\<rparr>" if "5 \<le> k" "k \<le> 31" "unat s = 2 ^ k" "2 ^ k dvd unat b" for b s p k
    using that by (auto simp: region_ok_def)
  note ok = this
  show ?thesis
    unfolding sandbox_regions_def syms0_def by (simp add: ok [of 5] ok [of 14] ok [of 13])
qed

theorem size_field_exact_witness: "size_field 0x2000 = Some 12 \<and> size_field 0x80000001 = None"
proof -
  have "size_field 0x2000 = Some (of_nat (13 - 1))" by (rule size_field_pow) simp_all
  moreover have "size_field 0x80000001 = None"
    using size_field_exact [of "0x80000001"] by (cases "size_field 0x80000001") auto
  ultimately show ?thesis by simp
qed

theorem arch_setup_regions_enforces_witness:
  "\<exists>hw'. arch_setup_regions (sandbox_regions syms0) mpu0 = Some hw' \<and> \<not> mpu_allows hw' True Load 0x20028010
     \<and> mpu_allows hw' False Store 0x20026000"
proof -
  let ?r0 = "\<lparr>rg_base = 0x20028000, rg_size = 0x20, rg_perm = 0\<rparr>" and ?r1 = "\<lparr>rg_base = 0x20020000, rg_size = 0x4000, rg_perm = 5\<rparr>"
    and ?r2 = "\<lparr>rg_base = 0x20024000, rg_size = 0x2000, rg_perm = 3\<rparr>" and ?r3 = "\<lparr>rg_base = 0x20026000, rg_size = 0x2000, rg_perm = 3\<rparr>"
  have y: "sandbox_regions syms0 = [?r0, ?r1, ?r2, ?r3]" by (simp add: sandbox_regions_def syms0_def)
  have "\<forall>n < 4. \<not> bit (MPU_RASR mpu0 n) 0" by (simp add: mpu0_def)
  from arch_setup_regions_enforces [OF syms0_ok [unfolded y] this] obtain hw' where
    s: "arch_setup_regions (sandbox_regions syms0) mpu0 = Some hw'"
    and al: "\<And>a priv acc. mpu_allows hw' priv acc a =
         (case find (in_region a) [?r0, ?r1, ?r2, ?r3] of None \<Rightarrow> priv | Some r \<Rightarrow> perm_allows (rg_perm r) acc)"
    unfolding y by blast
  have "\<not> mpu_allows hw' True Load 0x20028010" unfolding al by (simp add: in_region_def perm_allows_def)
  moreover have "mpu_allows hw' False Store 0x20026000" unfolding al by (simp add: in_region_def perm_allows_def)
  ultimately show ?thesis using s by blast
qed

theorem sandbox_init_confines_witness:
  "\<exists>ms' st hw'. sandbox_init syms0 0x20020000 g_mdl_slots (\<lambda>_. 0) mpu0 = Some (ms', st, hw') \<and> \<not> mpu_allows hw' True Store 0x20028000"
proof -
  have "\<forall>n < 4. \<not> bit (MPU_RASR mpu0 n) 0" by (simp add: mpu0_def)
  note c = sandbox_init_confines [OF syms0_ok this, where pool = "0x20020000" and ms = g_mdl_slots and m = "\<lambda>_. 0"]
  have "in_region 0x20028000 (sandbox_regions syms0 ! 0)" by (simp add: in_region_def sandbox_regions_def syms0_def)
  then show ?thesis using c by (auto split: option.splits)
qed

end
