(* ===== verification/Console_Line.thy ===== *)
theory Console_Line
  imports Mdl_Prelude
begin

text \<open>
  The first half of \<open>src/mdl/transport/console.c\<close>: the line editor that runs in the USB receive task, the
  formatting helpers and the argument parser. Text is bytes; a command line is the bytes before its
  NUL. The helpers give what they hand to \<open>mdl_console_puts\<close>.
\<close>

type_synonym bytes = "u8 list"

text \<open>A string literal of the source.\<close>

definition ascii :: "string \<Rightarrow> bytes" where
  "ascii s = map (\<lambda>c. of_nat (of_char c)) s"

section \<open>The line editor\<close>

abbreviation CONSOLE_LINE_MAX :: nat where "CONSOLE_LINE_MAX \<equiv> 96"

text \<open>\<open>s_line\<close> up to \<open>s_line_pos\<close>; \<open>s_ready_line\<close> and \<open>s_line_ready\<close>; the static \<open>s_last_was_cr\<close>; whether the
  supervisor's handle is set.\<close>

record line_st =
  s_line :: bytes
  s_ready_line :: bytes
  s_line_ready :: bool
  s_last_was_cr :: bool
  s_con_handle :: bool

text \<open>The bytes written to the transport, whether the supervisor is notified, and the state.\<close>

definition mdl_console_rx_byte :: "u8 \<Rightarrow> line_st \<Rightarrow> bytes \<times> bool \<times> line_st" where
  "mdl_console_rx_byte b l0 =
     (let was_cr = s_last_was_cr l0; l = l0\<lparr>s_last_was_cr := (b = 13)\<rparr> in
      if b = 10 \<and> was_cr then ([], False, l)
      else if b = 13 \<or> b = 10 then
        if s_line l = [] then ([13, 10] @ ascii ''mdl> '', False, l)
        else if \<not> s_line_ready l then
          ([13, 10], s_con_handle l, l\<lparr>s_ready_line := s_line l, s_line_ready := True, s_line := []\<rparr>)
        else ([13, 10], False, l\<lparr>s_line := []\<rparr>)
      else if b = 8 \<or> b = 0x7F then
        if s_line l \<noteq> [] then ([8, 32, 8], False, l\<lparr>s_line := butlast (s_line l)\<rparr>) else ([], False, l)
      else if b < 0x20 \<or> 0x7E < b then ([], False, l)
      else if length (s_line l) < CONSOLE_LINE_MAX then ([b], False, l\<lparr>s_line := s_line l @ [b]\<rparr>)
      else ([], False, l))"

definition mdl_console_set_supervisor_handle :: "bool \<Rightarrow> line_st \<Rightarrow> line_st" where
  "mdl_console_set_supervisor_handle h l = l\<lparr>s_con_handle := h\<rparr>"

definition mdl_console_take_line :: "line_st \<Rightarrow> bytes option \<times> line_st" where
  "mdl_console_take_line l = (if \<not> s_line_ready l then (None, l) else (Some (s_ready_line l), l\<lparr>s_line_ready := False\<rparr>))"

fun console_rx :: "bytes \<Rightarrow> line_st \<Rightarrow> bytes \<times> line_st" where
  "console_rx [] l = ([], l)"
| "console_rx (b # bs) l = (case mdl_console_rx_byte b l of (out, woke, l1) \<Rightarrow>
     case console_rx bs l1 of (out', l2) \<Rightarrow> (out @ out', l2))"

section \<open>Formatting\<close>

text \<open>The digit loop of \<open>put_u32\<close>; \<open>i\<close> is the room left in the buffer.\<close>

fun u32_digits :: "nat \<Rightarrow> u32 \<Rightarrow> bytes \<Rightarrow> bytes" where
  "u32_digits 0 v buf = buf"
| "u32_digits (Suc i) v buf = (if v \<noteq> 0 then u32_digits i (v div 10) (ucast (0x30 + v mod 10) # buf) else buf)"

definition put_u32 :: "u32 \<Rightarrow> bytes" where
  "put_u32 v = (if v = 0 then ascii ''0'' else u32_digits 10 v [])"

definition hex_digits :: bytes where
  "hex_digits = ascii ''0123456789ABCDEF''"

definition put_hex8 :: "u8 \<Rightarrow> bytes" where
  "put_hex8 v = [hex_digits ! unat (drop_bit 4 v AND 0xF), hex_digits ! unat (v AND 0xF)]"

definition put_hex32 :: "u32 \<Rightarrow> bytes" where
  "put_hex32 v = ascii ''0x'' @ map (\<lambda>i. hex_digits ! unat (drop_bit (28 - 4 * i) v AND 0xF)) [0 ..< 8]"

definition json_str :: "bytes \<Rightarrow> bytes" where
  "json_str s = [0x22] @ concat (map (\<lambda>c. if c = 0x22 \<or> c = 0x5C then [0x5C, c] else [c]) (cstr s)) @ [0x22]"

section \<open>Parsing\<close>

text \<open>
  The words of a line. \<open>n\<close> is how many more fit in \<open>argv\<close>. A word is closed by the NUL that replaces the space
  after it, and that NUL is only written when the loop comes round again: the last word that fits keeps
  the rest of the line.
\<close>

fun split_args :: "nat \<Rightarrow> bytes \<Rightarrow> bytes list" where
  "split_args 0 line = []"
| "split_args (Suc n) line =
     (let p = dropWhile (\<lambda>c. c = 32) line in
      if p = [] then []
      else if n = 0 then [p]
      else takeWhile (\<lambda>c. c \<noteq> 32) p # split_args n (dropWhile (\<lambda>c. c \<noteq> 32) p))"

definition hex_digit :: "u8 \<Rightarrow> u32 option" where
  "hex_digit c =
     (if 0x30 \<le> c \<and> c \<le> 0x39 then Some (ucast c - 0x30)
      else if 0x61 \<le> c \<and> c \<le> 0x66 then Some (ucast c - 0x61 + 10)
      else if 0x41 \<le> c \<and> c \<le> 0x46 then Some (ucast c - 0x41 + 10) else None)"

fun parse_hex :: "u32 \<Rightarrow> bytes \<Rightarrow> u32 option" where
  "parse_hex v [] = Some v"
| "parse_hex v (c # s) = (case hex_digit c of None \<Rightarrow> None | Some d \<Rightarrow> parse_hex (push_bit 4 v OR d) s)"

fun parse_dec :: "u32 \<Rightarrow> bytes \<Rightarrow> u32 option" where
  "parse_dec v [] = Some v"
| "parse_dec v (c # s) = (if c < 0x30 \<or> 0x39 < c then None else parse_dec (v * 10 + (ucast c - 0x30)) s)"

definition parse_u32 :: "bytes \<Rightarrow> u32 option" where
  "parse_u32 s =
     (if s = [] then None
      else if s ! 0 = 0x30 \<and> 1 < length s \<and> (s ! 1 = 0x78 \<or> s ! 1 = 0x58) then
        if drop 2 s = [] then None else parse_hex 0 (drop 2 s)
      else parse_dec 0 s)"

section \<open>Numbers round trip\<close>

lemma unat_digit: "unat (v mod 10 :: u32) < 10"
  by (simp add: unat_mod)

lemma digit_byte:
  assumes "d < 10"
  shows "(ucast (0x30 + (of_nat d :: u32)) :: u8) = of_nat (0x30 + d)"
proof -
  have "d \<in> {0, 1, 2, 3, 4, 5, 6, 7, 8, 9}" using assms by auto
  then show ?thesis by auto
qed

lemma digit_value:
  assumes "d < 10"
  shows "\<not> (of_nat (0x30 + d) :: u8) < 0x30" "\<not> (0x39 :: u8) < of_nat (0x30 + d)" "ucast (of_nat (0x30 + d) :: u8) - 0x30 = (of_nat d :: u32)"
    "(of_nat (0x30 + d) :: u8) \<noteq> 0x78" "(of_nat (0x30 + d) :: u8) \<noteq> 0x58"
proof -
  have "d \<in> {0, 1, 2, 3, 4, 5, 6, 7, 8, 9}" using assms by auto
  then show "\<not> (of_nat (0x30 + d) :: u8) < 0x30" "\<not> (0x39 :: u8) < of_nat (0x30 + d)" "ucast (of_nat (0x30 + d) :: u8) - 0x30 = (of_nat d :: u32)"
    "(of_nat (0x30 + d) :: u8) \<noteq> 0x78" "(of_nat (0x30 + d) :: u8) \<noteq> 0x58"
    by auto
qed

text \<open>The decimal digits of a number, most significant first.\<close>

fun dec :: "nat \<Rightarrow> nat list" where
  "dec n = (if n = 0 then [] else dec (n div 10) @ [n mod 10])"

declare dec.simps [simp del]

lemma dec_digit: "d \<in> set (dec n) \<Longrightarrow> d < 10"
  by (induction n rule: dec.induct) (subst (asm) (2) dec.simps, auto split: if_splits)

lemma u32_digits_dec:
  assumes "unat v < 10 ^ i"
  shows "u32_digits i v buf = map (\<lambda>d. of_nat (0x30 + d)) (dec (unat v)) @ buf"
  using assms
proof (induction i arbitrary: v buf)
  case 0
  then show ?case by (simp add: dec.simps)
next
  case (Suc i)
  show ?case
  proof (cases "v = 0")
    case False
    have "unat (v div 10) = unat v div 10" "unat (v mod 10) = unat v mod 10" by (simp_all add: unat_div unat_mod)
    moreover have "v mod 10 = of_nat (unat v mod 10)" unfolding calculation(2) [symmetric] by simp
    moreover have "unat v div 10 < 10 ^ i" using Suc.prems by (simp add: less_mult_imp_div_less mult.commute)
    ultimately have "u32_digits (Suc i) v buf = map (\<lambda>d. of_nat (0x30 + d)) (dec (unat v div 10)) @ of_nat (0x30 + unat v mod 10) # buf"
      using False Suc.IH digit_byte [of "unat v mod 10"] by simp
    then show ?thesis using False by (subst dec.simps) (simp add: unat_eq_zero)
  qed (simp add: dec.simps)
qed

lemma parse_dec_digits:
  assumes "\<forall>d \<in> set ds. d < 10"
  shows "parse_dec v (map (\<lambda>d. of_nat (0x30 + d)) ds) = Some (foldl (\<lambda>v d. v * 10 + of_nat d) v ds)"
  using assms by (induction ds arbitrary: v) (simp_all add: digit_value del: of_nat_add)

lemma foldl_dec: "foldl (\<lambda>v d. v * 10 + of_nat d) (0 :: u32) (dec n) = of_nat n"
proof (induction n rule: dec.induct)
  case (1 n)
  show ?case
  proof (cases "n = 0")
    case False
    have "(of_nat n :: u32) = of_nat (n div 10 * 10 + n mod 10)" by simp
    then show ?thesis using 1 [OF False] False by (subst dec.simps) (simp only: foldl_append foldl.simps if_False of_nat_add of_nat_mult of_nat_numeral)
  qed (simp add: dec.simps)
qed

text \<open>What the console prints it can read back: every number survives the decimal printer and the
  argument parser unchanged.\<close>

lemma parse_put_u32: "parse_u32 (put_u32 v) = Some v"
proof (cases "v = 0")
  case True
  then show ?thesis by (simp add: put_u32_def ascii_def parse_u32_def)
next
  case False
  have "unat v < 2 ^ LENGTH(32)" by (rule unsigned_less)
  then have "unat v < 10 ^ 10" by simp
  then have p: "put_u32 v = map (\<lambda>d. of_nat (0x30 + d)) (dec (unat v))"
    using False by (simp add: put_u32_def u32_digits_dec)
  have ne: "dec (unat v) \<noteq> []" using False by (subst dec.simps) (simp add: unat_eq_zero)
  have "put_u32 v ! 1 \<noteq> 0x78 \<and> put_u32 v ! 1 \<noteq> 0x58" if "1 < length (put_u32 v)"
    using that digit_value(4,5) [of "dec (unat v) ! 1"] dec_digit [of "dec (unat v) ! 1" "unat v"] by (simp add: p del: of_nat_add)
  then have "parse_u32 (put_u32 v) = parse_dec 0 (put_u32 v)"
    using ne by (auto simp: parse_u32_def p)
  also have "\<dots> = Some (of_nat (unat v))"
    unfolding p by (subst parse_dec_digits) (use dec_digit in \<open>simp_all add: foldl_dec\<close>)
  finally show ?thesis by simp
qed

lemma hex_digits_bytes:
  "hex_digits = [0x30, 0x31, 0x32, 0x33, 0x34, 0x35, 0x36, 0x37, 0x38, 0x39, 0x41, 0x42, 0x43, 0x44, 0x45, 0x46]"
  by (simp add: hex_digits_def ascii_def)

lemma hex_digits_byte:
  assumes "d < 16"
  shows "hex_digit (hex_digits ! d) = Some (of_nat d)"
proof -
  have "\<forall>d \<in> set [0 ..< 16]. hex_digit (hex_digits ! d) = Some (of_nat d)"
    by (simp add: hex_digits_bytes hex_digit_def upt_rec)
  then show ?thesis using assms by simp
qed

lemma parse_hex_digits:
  assumes "\<forall>d \<in> set ds. d < 16"
  shows "parse_hex v (map (\<lambda>d. hex_digits ! d) ds) = Some (foldl (\<lambda>v d. push_bit 4 v OR of_nat d) v ds)"
  using assms by (induction ds arbitrary: v) (simp_all add: hex_digits_byte)

lemma nibble: "(v AND 0xF :: u32) = take_bit 4 v"
  by (simp add: take_bit_eq_mask mask_eq_exp_minus_1)

lemma nibble_less: "unat (v AND 0xF :: u32) < 16"
proof -
  have "unat (take_bit 4 v) = take_bit 4 (unat v)" by (rule unsigned_take_bit_eq)
  then show ?thesis by (simp add: nibble take_bit_eq_mod)
qed

lemma nibble_step: "push_bit 4 (drop_bit (k + 4) v) OR (drop_bit k v AND 0xF) = (drop_bit k v :: u32)"
  unfolding nibble by (rule bit_word_eqI) (auto simp: bit_simps add.commute add.left_commute)

lemma nibbles:
  assumes "j \<le> 8"
  shows "foldl (\<lambda>w d. push_bit 4 w OR of_nat d) (0 :: u32) (map (\<lambda>i. unat (drop_bit (28 - 4 * i) v AND 0xF)) [0 ..< j])
    = drop_bit (32 - 4 * j) v"
  using assms
proof (induction j)
  case 0
  have "drop_bit 32 v = 0" by (rule bit_word_eqI) (auto simp: bit_simps dest: bit_imp_le_length)
  then show ?case by simp
next
  case (Suc j)
  have "32 - 4 * j = (28 - 4 * j) + 4" "32 - 4 * Suc j = 28 - 4 * j" using Suc.prems by simp_all
  then show ?case using Suc nibble_step [of "28 - 4 * j" v] by simp
qed

lemma parse_put_hex32: "parse_u32 (put_hex32 v) = Some v"
proof -
  let ?ds = "map (\<lambda>i. unat (drop_bit (28 - 4 * i) v AND 0xF)) [0 ..< 8]"
  have "drop 2 (put_hex32 v) = map (\<lambda>d. hex_digits ! d) ?ds" by (simp add: put_hex32_def ascii_def)
  moreover have "\<forall>d \<in> set ?ds. d < 16" using nibble_less by auto
  moreover have "parse_u32 (put_hex32 v) = parse_hex 0 (drop 2 (put_hex32 v))"
    by (simp add: parse_u32_def put_hex32_def ascii_def)
  ultimately show ?thesis using nibbles [of 8 v] by (simp only: parse_hex_digits) simp
qed

text \<open>What the console prints it can read back: every 32-bit number survives the decimal and the hexadecimal
  printer followed by the argument parser, unchanged.\<close>

theorem console_numbers_roundtrip: "parse_u32 (put_u32 v) = Some v \<and> parse_u32 (put_hex32 v) = Some v"
  by (simp add: parse_put_u32 parse_put_hex32)

section \<open>Words\<close>

text \<open>A line as its words, each after some spaces; and what it is read as.\<close>

fun line_of :: "(nat \<times> bytes) list \<Rightarrow> bytes" where
  "line_of [] = []"
| "line_of ((k, w) # ws) = replicate k 32 @ w @ line_of ws"

definition is_word :: "bytes \<Rightarrow> bool" where
  "is_word w \<longleftrightarrow> w \<noteq> [] \<and> 32 \<notin> set w"

lemma dropWhile_spaces: "is_word w \<Longrightarrow> dropWhile (\<lambda>c. c = 32) (replicate k 32 @ w @ r) = w @ r"
  by (cases w) (auto simp: is_word_def dropWhile_append)

lemma word_then_space:
  assumes "is_word w" "r = [] \<or> hd r = 32"
  shows "takeWhile (\<lambda>c. c \<noteq> 32) (w @ r) = w" "dropWhile (\<lambda>c. c \<noteq> 32) (w @ r) = r"
  using assms by (cases r; auto simp: is_word_def takeWhile_append dropWhile_append)+

lemma line_of_hd: "\<forall>(k, w) \<in> set ws. 0 < k \<Longrightarrow> line_of ws = [] \<or> hd (line_of ws) = 32"
  by (cases ws) (auto simp: gr0_conv_Suc)

text \<open>A line is cut into its words. For words separated by spaces, at most as many as there is room for, the
  arguments are exactly the words. With more words than room, the last argument keeps the whole rest of the line,
  spaces included.\<close>

theorem split_args_words:
  assumes "\<forall>(k, w) \<in> set ((k0, w0) # ws). is_word w" "\<forall>(k, w) \<in> set ws. 0 < k"
  shows "split_args (Suc n) (line_of ((k0, w0) # ws)) =
    (if length ws \<le> n then map snd ((k0, w0) # ws)
     else map snd (take n ((k0, w0) # ws)) @ [dropWhile (\<lambda>c. c = 32) (line_of (drop n ((k0, w0) # ws)))])"
  using assms
proof (induction n arbitrary: k0 w0 ws)
  case 0
  have "dropWhile (\<lambda>c. c = 32) (line_of ((k0, w0) # ws)) = w0 @ line_of ws" "w0 \<noteq> []"
    using dropWhile_spaces [of w0 k0 "line_of ws"] 0(1) by (auto simp: is_word_def)
  then show ?case by (cases ws) (auto simp: Let_def)
next
  case (Suc n)
  have w0: "is_word w0" using Suc.prems(1) by simp
  have d: "dropWhile (\<lambda>c. c = 32) (line_of ((k0, w0) # ws)) = w0 @ line_of ws" using dropWhile_spaces [OF w0] by simp
  have ne: "w0 \<noteq> []" using w0 by (simp add: is_word_def)
  note r = word_then_space [OF w0 line_of_hd [OF Suc.prems(2)]]
  have step: "split_args (Suc (Suc n)) (line_of ((k0, w0) # ws)) = w0 # split_args (Suc n) (line_of ws)"
    using d ne by (subst split_args.simps(2)) (simp only: d r Let_def append_is_Nil_conv if_False nat.distinct simp_thms)
  show ?case
  proof (cases ws)
    case Nil
    then show ?thesis using step by (simp add: Let_def)
  next
    case (Cons a ws')
    obtain k1 w1 where a: "a = (k1, w1)" by fastforce
    have "split_args (Suc n) (line_of ((k1, w1) # ws')) = (if length ws' \<le> n then map snd ((k1, w1) # ws')
     else map snd (take n ((k1, w1) # ws')) @ [dropWhile (\<lambda>c. c = 32) (line_of (drop n ((k1, w1) # ws')))])"
      by (rule Suc.IH) (use Suc.prems Cons a in auto)
    then show ?thesis using step unfolding Cons a by simp
  qed
qed

section \<open>Lines\<close>

definition printable :: "bytes \<Rightarrow> bool" where
  "printable t \<longleftrightarrow> (\<forall>b \<in> set t. 0x20 \<le> b \<and> b \<le> 0x7E)"

lemma rx_printable:
  assumes "0x20 \<le> b" "b \<le> 0x7E"
  shows "mdl_console_rx_byte b l = (if length (s_line l) < CONSOLE_LINE_MAX
     then ([b], False, l\<lparr>s_last_was_cr := False, s_line := s_line l @ [b]\<rparr>) else ([], False, l\<lparr>s_last_was_cr := False\<rparr>))"
proof -
  have "b \<noteq> 13" "b \<noteq> 10" "b \<noteq> 8" "b \<noteq> 0x7F" "\<not> b < 0x20" "\<not> 0x7E < b" using assms by auto
  then show ?thesis by (simp add: mdl_console_rx_byte_def Let_def)
qed

lemma line_rx_text:
  assumes "printable t" "t \<noteq> []" "length (s_line l) \<le> CONSOLE_LINE_MAX"
  shows "console_rx t l = (take (CONSOLE_LINE_MAX - length (s_line l)) t,
    l\<lparr>s_last_was_cr := False, s_line := take CONSOLE_LINE_MAX (s_line l @ t)\<rparr>)"
  using assms
proof (induction t arbitrary: l)
  case (Cons b t)
  have b: "0x20 \<le> b" "b \<le> 0x7E" and pt: "printable t" using Cons.prems(1) by (simp_all add: printable_def)
  define l1 where "l1 = (if length (s_line l) < CONSOLE_LINE_MAX then l\<lparr>s_last_was_cr := False, s_line := s_line l @ [b]\<rparr>
    else l\<lparr>s_last_was_cr := False\<rparr>)"
  have one: "mdl_console_rx_byte b l = (if length (s_line l) < CONSOLE_LINE_MAX then [b] else [], False, l1)"
    by (simp add: rx_printable [OF b] l1_def)
  show ?case
  proof (cases "t = []")
    case True
    then show ?thesis using one Cons.prems(3) by (auto simp: l1_def)
  next
    case False
    have "length (s_line l1) \<le> CONSOLE_LINE_MAX" using Cons.prems(3) by (auto simp: l1_def)
    from Cons.IH [OF pt False this] show ?thesis using one Cons.prems(3) by (auto simp: l1_def take_Cons' Suc_diff_le)
  qed
qed simp

lemma console_rx_append:
  "console_rx (a @ b) l = (case console_rx a l of (o1, l1) \<Rightarrow> case console_rx b l1 of (o2, l2) \<Rightarrow> (o1 @ o2, l2))"
  by (induction a arbitrary: l) (auto split: prod.splits)

lemma rx_ready_kept:
  "s_line_ready l \<Longrightarrow> case mdl_console_rx_byte b l of (out, woke, l') \<Rightarrow> s_line_ready l' \<and> s_ready_line l' = s_ready_line l \<and> \<not> woke"
  by (auto simp: mdl_console_rx_byte_def Let_def)

lemma console_rx_kept:
  "s_line_ready l \<Longrightarrow> s_line_ready (snd (console_rx bs l)) \<and> s_ready_line (snd (console_rx bs l)) = s_ready_line l"
proof (induction bs arbitrary: l)
  case (Cons b bs)
  obtain out woke l1 where b: "mdl_console_rx_byte b l = (out, woke, l1)" by (cases "mdl_console_rx_byte b l")
  have "s_line_ready l1" "s_ready_line l1 = s_ready_line l" using rx_ready_kept [OF Cons.prems, of b] b by simp_all
  then show ?case using Cons.IH [of l1] b by (simp add: case_prod_unfold)
qed simp

text \<open>A typed line arrives whole, once. Printable text ended by CR, by LF or by CR LF is echoed, is
  taken as one line, cut to 96 characters, and leaves the editor empty; and once a line waits for the
  supervisor, nothing that is typed changes it until it is taken.\<close>

theorem console_line_exact:
  assumes "printable t" "t \<noteq> []" "s_line l = []" "\<not> s_line_ready l" "e \<in> {[13], [10], [13, 10]}"
  shows "case console_rx (t @ e) l of (out, l') \<Rightarrow>
      out = take CONSOLE_LINE_MAX t @ [13, 10] \<and> s_line l' = []
      \<and> (\<forall>bs. fst (mdl_console_take_line (snd (console_rx bs l'))) = Some (take CONSOLE_LINE_MAX t))
      \<and> \<not> s_line_ready (snd (mdl_console_take_line l'))"
proof -
  let ?l1 = "l\<lparr>s_last_was_cr := False, s_line := take CONSOLE_LINE_MAX t\<rparr>"
  have t1: "console_rx t l = (take CONSOLE_LINE_MAX t, ?l1)" using line_rx_text [OF assms(1,2), of l] assms(3) by simp
  have ne: "take CONSOLE_LINE_MAX t \<noteq> []" using assms(2) by simp
  have e1: "console_rx e ?l1 = ([13, 10], ?l1\<lparr>s_last_was_cr := (hd e = 13 \<and> length e = 1), s_ready_line := take CONSOLE_LINE_MAX t,
      s_line_ready := True, s_line := []\<rparr>)"
    using assms(4,5) ne by (auto simp: mdl_console_rx_byte_def Let_def)
  let ?l2 = "?l1\<lparr>s_last_was_cr := (hd e = 13 \<and> length e = 1), s_ready_line := take CONSOLE_LINE_MAX t, s_line_ready := True, s_line := []\<rparr>"
  have "console_rx (t @ e) l = (take CONSOLE_LINE_MAX t @ [13, 10], ?l2)" using t1 e1 by (simp add: console_rx_append)
  moreover have "fst (mdl_console_take_line (snd (console_rx bs ?l2))) = Some (take CONSOLE_LINE_MAX t)" for bs
    using console_rx_kept [of ?l2 bs] by (simp add: mdl_console_take_line_def)
  moreover have "\<not> s_line_ready (snd (mdl_console_take_line ?l2))" by (simp add: mdl_console_take_line_def)
  ultimately show ?thesis by simp
qed

theorem split_args_words_witness:
  "split_args (Suc 1) (line_of [(1, [0x61]), (1, [0x62]), (1, [0x63])]) = [[0x61], [0x62, 32, 0x63]]"
  using split_args_words [of 1 "[0x61]" "[(1, [0x62]), (1, [0x63])]" 1] by (simp add: is_word_def)

theorem console_line_exact_witness:
  "fst (console_rx ([0x68, 0x69] @ [13, 10]) \<lparr>s_line = [], s_ready_line = [], s_line_ready = False, s_last_was_cr = False, s_con_handle = True\<rparr>) = [0x68, 0x69, 13, 10]"
  using console_line_exact [of "[0x68, 0x69]" "\<lparr>s_line = [], s_ready_line = [], s_line_ready = False, s_last_was_cr = False, s_con_handle = True\<rparr>" "[13, 10]"]
  by (auto simp: printable_def split: prod.splits)

end
