(* ===== verification/Periph_Spec.thy ===== *)
theory Periph_Spec
  imports Module_Task Console_Line
begin

text \<open>
  What the peripheral drivers of \<open>src/mdl/host/\<close> share. The vendor library and the peripherals behind
  it are not part of the repository: every call that changes a peripheral is recorded, in order, and what a
  peripheral answers (a status, a flag, a data register) is a function of the record, which is a parameter. The
  contract of a driver towards the supervisor, claim and release of one instance, is a locale.
\<close>

section \<open>Calls into the vendor library\<close>

datatype pin_func = FUNC_MUX | FUNC_INPUT | FUNC_ANALOG
datatype pin_out = OUT_PUSH_PULL | OUT_OPEN_DRAIN | OUT_DEFAULT
datatype pin_pull = PULL_NONE | PULL_UP

text \<open>Peripherals and their clocks are named as in the vendor's headers, pins by \<open>MDL_PIN\<close>.\<close>

datatype dev_op =
    Clock string bool
  | PinInit "u8 list" pin_func pin_out pin_pull
  | PinMux u8 nat
  | Nvic string bool
  | I2cConfig u8
  | I2cInit u8 u32
  | I2cOwnAddress u8
  | I2cReset u8
  | I2cDisable u8
  | I2cTransmit u8 u16 bytes
  | I2cReceive u8 u16 nat
  | UsartInit string u32
  | UsartTransmitter string
  | UsartReceiver string
  | UsartRxInt string bool
  | UsartEnable string bool
  | UsartHalfDuplex string bool
  | UsartSend string u8
  | UsartRecv string
  | SpiEnable u8 bool
  | SpiInit u8 bool bool nat
  | SpiCsHigh u8
  | SpiReset u8
  | SpiSend u8 u8
  | SpiRecv u8
  | AdcCommonConfig
  | AdcBaseConfig
  | AdcResolution
  | AdcTrigger
  | AdcEnable bool
  | AdcCalInit
  | AdcCalStart
  | AdcChannel u8
  | AdcClear
  | AdcSoftTrigger bool
  | AdcData

text \<open>\<open>i2c_status_type\<close>, the values the driver tells apart.\<close>

datatype i2c_status = I2C_OK | I2C_ERR_STEP_1 | I2C_ERR_STEP_2 | I2C_ERR_STEP_3 | I2C_ERR_TIMEOUT | I2C_ERR_OTHER

text \<open>
  The answers. Each is asked with the record of the calls so far; \<open>v_flag periph flag ops k\<close> is what the \<open>k\<close>-th
  read of a flag gives since the last call.
\<close>

record vendor =
  v_apb1 :: u32
  v_i2c_tx :: "dev_op list \<Rightarrow> i2c_status"
  v_i2c_rx :: "dev_op list \<Rightarrow> i2c_status \<times> bytes"
  v_flag :: "string \<Rightarrow> string \<Rightarrow> dev_op list \<Rightarrow> nat \<Rightarrow> bool"
  v_data :: "dev_op list \<Rightarrow> u8"
  v_conv :: "dev_op list \<Rightarrow> u16"

section \<open>The drivers' tables\<close>

record i2c_bus =
  ib_instance :: u8
  ib_open :: bool

text \<open>\<open>uart_bus_t\<close>; \<open>ub_head\<close> and \<open>ub_tail\<close> are indices into the ring.\<close>

record uart_bus =
  ub_instance :: u8
  ub_periph :: string
  ub_gpio_clock :: string
  ub_tx_pin :: u8
  ub_rx_pin :: u8
  ub_open :: bool
  ub_baud :: u32
  ub_ring :: bytes
  ub_head :: nat
  ub_tail :: nat
  ub_dropped :: u32

record adc_ch =
  ac_channel :: u8
  ac_pin :: u8
  ac_gpio_clock :: string
  ac_confirmed :: bool
  ac_claimed :: bool

record spi_bus =
  sb_instance :: u8
  sb_open :: bool
  sb_mode :: u8
  sb_hz :: u32

text \<open>The peripherals' side of the host: what was written to the transport, the calls, the tables.\<close>

record devs =
  d_tx :: bytes
  d_ops :: "dev_op list"
  d_i2c :: "i2c_bus list"
  d_uart :: "uart_bus list"
  d_adc :: "adc_ch list"
  s_adc_up :: bool
  d_spi :: "spi_bus list"

text \<open>The host state with the peripherals.\<close>

record dhost = mhost +
  h_devs :: devs

definition hw :: "dev_op list \<Rightarrow> devs \<Rightarrow> devs" where
  "hw ops d = d\<lparr>d_ops := d_ops d @ ops\<rparr>"

definition mdl_transport_write :: "bytes \<Rightarrow> devs \<Rightarrow> devs" where
  "mdl_transport_write bs d = d\<lparr>d_tx := d_tx d @ bs\<rparr>"

definition mdl_console_puts :: "bytes \<Rightarrow> devs \<Rightarrow> devs" where
  "mdl_console_puts s d = mdl_transport_write s d"

definition puts :: "string \<Rightarrow> devs \<Rightarrow> devs" where
  "puts s d = mdl_console_puts (ascii s) d"

definition console_put_u32 :: "u32 \<Rightarrow> devs \<Rightarrow> devs" where
  "console_put_u32 v d = mdl_console_puts (put_u32 v) d"

abbreviation CRLF :: bytes where "CRLF \<equiv> [13, 10]"

text \<open>Several writes, in order.\<close>

definition say :: "(devs \<Rightarrow> devs) list \<Rightarrow> devs \<Rightarrow> devs" where
  "say ps d = fold (\<lambda>p. p) ps d"

lemma say_simps [simp]: "say [] d = d" "say (p # ps) d = say ps (p d)"
  by (simp_all add: say_def)

definition crlf :: "devs \<Rightarrow> devs" where
  "crlf d = mdl_console_puts CRLF d"

lemma dev_simps [simp]:
  "d_ops (hw ops d) = d_ops d @ ops" "d_tx (hw ops d) = d_tx d" "d_i2c (hw ops d) = d_i2c d" "d_uart (hw ops d) = d_uart d"
  "d_adc (hw ops d) = d_adc d" "s_adc_up (hw ops d) = s_adc_up d" "d_spi (hw ops d) = d_spi d"
  "d_ops (mdl_console_puts s d) = d_ops d" "d_tx (mdl_console_puts s d) = d_tx d @ s" "d_i2c (mdl_console_puts s d) = d_i2c d"
  "d_uart (mdl_console_puts s d) = d_uart d" "d_adc (mdl_console_puts s d) = d_adc d" "s_adc_up (mdl_console_puts s d) = s_adc_up d"
  "d_spi (mdl_console_puts s d) = d_spi d"
  "d_ops (puts t d) = d_ops d" "d_tx (puts t d) = d_tx d @ ascii t" "d_i2c (puts t d) = d_i2c d" "d_uart (puts t d) = d_uart d"
  "d_adc (puts t d) = d_adc d" "s_adc_up (puts t d) = s_adc_up d" "d_spi (puts t d) = d_spi d"
  "d_ops (console_put_u32 v d) = d_ops d" "d_tx (console_put_u32 v d) = d_tx d @ put_u32 v" "d_i2c (console_put_u32 v d) = d_i2c d"
  "d_uart (console_put_u32 v d) = d_uart d" "d_adc (console_put_u32 v d) = d_adc d" "s_adc_up (console_put_u32 v d) = s_adc_up d"
  "d_spi (console_put_u32 v d) = d_spi d"
  "d_ops (crlf d) = d_ops d" "d_tx (crlf d) = d_tx d @ CRLF" "d_i2c (crlf d) = d_i2c d" "d_uart (crlf d) = d_uart d"
  "d_adc (crlf d) = d_adc d" "s_adc_up (crlf d) = s_adc_up d" "d_spi (crlf d) = d_spi d"
  by (simp_all add: crlf_def hw_def mdl_console_puts_def mdl_transport_write_def puts_def console_put_u32_def)

text \<open>A gated entry changes the peripherals and the memory as its body does.\<close>

lemma feed_watchdog_ext [simp]:
  "h_mem (feed_watchdog s) = h_mem s" "privileged (feed_watchdog s) = privileged s" "h_devs (feed_watchdog s) = h_devs s"
  "me (feed_watchdog s) = me s"
  by (simp_all add: feed_watchdog_def upd_module_def split: option.split)

lemma fed_gate_run:
  assumes "body (s\<lparr>privileged := True\<rparr>) = (r, s')"
  shows "fst (fed_gate body s) = r" "h_devs (snd (fed_gate body s)) = h_devs s'" "h_mem (snd (fed_gate body s)) = h_mem s'"
    "\<not> privileged s \<Longrightarrow> \<not> privileged (snd (fed_gate body s))"
  using assms by (simp_all add: fed_gate_def syscall_gate_def xPortRaisePrivilege_def vPortResetPrivilege_def)

lemma priv_ext [simp]:
  "ptr_owned_by_module (s\<lparr>privileged := b\<rparr>) p n = ptr_owned_by_module s p n"
  by (auto simp: ptr_owned_by_module_def caller_def split: option.split)

section \<open>Waiting for a flag\<close>

text \<open>\<open>while (flag == RESET) { if (--spin == 0) return -2; }\<close>: whether the flag came.\<close>

fun poll :: "(nat \<Rightarrow> bool) \<Rightarrow> nat \<Rightarrow> nat \<Rightarrow> bool" where
  "poll flag k 0 = False"
| "poll flag k (Suc spin) = (if flag k then True else if spin = 0 then False else poll flag (Suc k) spin)"

lemma poll_iff: "poll flag k spin \<longleftrightarrow> (\<exists>j < spin. flag (k + j))"
proof (induction spin arbitrary: k)
  case (Suc n)
  have "(\<exists>j < Suc n. flag (k + j)) \<longleftrightarrow> flag k \<or> (\<exists>j < n. flag (Suc k + j))"
    by (auto simp: less_Suc_eq_0_disj)
  then show ?case using Suc by auto
qed simp

text \<open>\<open>while (!flag) { }\<close>, which need not end: how often the flag was read.\<close>

partial_function (option) wait_until :: "(nat \<Rightarrow> bool) \<Rightarrow> nat \<Rightarrow> nat option" where
  "wait_until flag k = (if flag k then Some k else wait_until flag (Suc k))"

lemma wait_until_raw: "wait_until flag k = Some j \<Longrightarrow> flag j \<and> k \<le> j"
proof (erule wait_until.raw_induct [rotated, where P = "\<lambda>flag k j. flag j \<and> k \<le> j"])
  fix w :: "(nat \<Rightarrow> bool) \<Rightarrow> nat \<Rightarrow> nat option" and f k j
  assume "\<And>f k j. w f k = Some j \<Longrightarrow> f j \<and> k \<le> j" "(if f k then Some k else w f (Suc k)) = Some j"
  then show "f j \<and> k \<le> j" by (auto split: if_splits dest: Suc_leD)
qed

lemma wait_until_ends: "wait_until flag k \<noteq> None \<longleftrightarrow> (\<exists>j \<ge> k. flag j)"
proof
  assume "wait_until flag k \<noteq> None"
  then show "\<exists>j \<ge> k. flag j" using wait_until_raw by blast
next
  assume "\<exists>j \<ge> k. flag j"
  then obtain n where "flag (k + n)" using le_Suc_ex by blast
  then show "wait_until flag k \<noteq> None"
  proof (induction n arbitrary: k)
    case (Suc n)
    then show ?case by (subst wait_until.simps) (simp del: not_None_eq)
  qed (subst wait_until.simps, simp)
qed

section \<open>The contract of a driver\<close>

text \<open>\<open>claim\<close> may fail to return (\<open>None\<close>).\<close>

locale periph_driver =
  fixes inv :: "'s \<Rightarrow> bool"
    and is_open :: "'i \<Rightarrow> 's \<Rightarrow> bool"
    and claim :: "'i \<Rightarrow> 's \<Rightarrow> (bool \<times> 's) option"
    and release :: "'i \<Rightarrow> 's \<Rightarrow> 's"
  assumes claim_inv: "inv s \<Longrightarrow> claim i s = Some (ok, s') \<Longrightarrow> inv s'"
    and claim_opens: "inv s \<Longrightarrow> claim i s = Some (ok, s') \<Longrightarrow> ok \<longleftrightarrow> is_open i s'"
    and claim_keeps: "inv s \<Longrightarrow> claim i s = Some (ok, s') \<Longrightarrow> j \<noteq> i \<or> is_open j s \<Longrightarrow> is_open j s' = is_open j s"
    and release_inv: "inv s \<Longrightarrow> inv (release i s)"
    and release_closes: "inv s \<Longrightarrow> \<not> is_open i (release i s)"
    and release_keeps: "inv s \<Longrightarrow> j \<noteq> i \<Longrightarrow> is_open j (release i s) = is_open j s"
begin

text \<open>A list of claims, in order; a refused claim does not stop the rest.\<close>

fun claim_all :: "'i list \<Rightarrow> 's \<Rightarrow> 's option" where
  "claim_all [] s = Some s"
| "claim_all (i # is) s = (case claim i s of None \<Rightarrow> None | Some (ok, s1) \<Rightarrow> claim_all is s1)"

definition release_all :: "'i list \<Rightarrow> 's \<Rightarrow> 's" where
  "release_all is s = fold release is s"

lemma claim_all_spec:
  "inv s \<Longrightarrow> claim_all is s = Some s' \<Longrightarrow> inv s' \<and> (\<forall>j. is_open j s \<longrightarrow> is_open j s')
    \<and> (\<forall>j. j \<notin> set is \<longrightarrow> is_open j s' = is_open j s)"
proof (induction "is" arbitrary: s)
  case (Cons i "is")
  obtain ok s1 where c: "claim i s = Some (ok, s1)" using Cons.prems(2) by (auto split: option.splits)
  have s1: "inv s1" using claim_inv [OF Cons.prems(1) c] .
  have r: "inv s'" "\<And>j. is_open j s1 \<Longrightarrow> is_open j s'" "\<And>j. j \<notin> set is \<Longrightarrow> is_open j s' = is_open j s1"
    using Cons.IH [OF s1] Cons.prems(2) c by auto
  have "is_open j s \<Longrightarrow> is_open j s1" "j \<noteq> i \<Longrightarrow> is_open j s1 = is_open j s" for j
    using claim_keeps [OF Cons.prems(1) c, of j] by blast+
  then show ?case using r by auto
qed simp

lemma release_all_spec:
  "inv s \<Longrightarrow> inv (release_all is s) \<and> (\<forall>j. is_open j (release_all is s) \<longleftrightarrow> is_open j s \<and> j \<notin> set is)"
proof (induction "is" arbitrary: s)
  case (Cons i "is")
  have "inv (release i s)" by (rule release_inv [OF Cons.prems])
  note IH = Cons.IH [OF this, unfolded release_all_def]
  have "is_open j (release i s) \<longleftrightarrow> is_open j s \<and> j \<noteq> i" for j
    using release_closes [OF Cons.prems, of i] release_keeps [OF Cons.prems, of j i] by (cases "j = i") simp_all
  then show ?case using IH by (auto simp: release_all_def)
qed (simp add: release_all_def)

end

section \<open>Tables\<close>

text \<open>A row found by its key and replaced by one with the same key.\<close>

lemma table_found:
  assumes "distinct (map key xs)" "find_idx (\<lambda>x. key x = n) xs = Some i"
  shows "(\<exists>x \<in> set xs. key x = n \<and> P x) \<longleftrightarrow> P (xs ! i)"
proof -
  have i: "i < length xs" "key (xs ! i) = n" using find_idx_Some [OF assms(2)] by auto
  have "x = xs ! i" if "x \<in> set xs" "key x = n" for x
    using assms(1) i that by (auto simp: distinct_map dest: inj_onD)
  then show ?thesis using i by auto
qed

lemma table_update:
  assumes "distinct (map key xs)" "find_idx (\<lambda>x. key x = n) xs = Some i" "key y = n"
  shows "(\<exists>x \<in> set (xs[i := y]). key x = j \<and> P x) \<longleftrightarrow> (if j = n then P y else \<exists>x \<in> set xs. key x = j \<and> P x)"
    "map key (xs[i := y]) = map key xs"
proof -
  have i: "i < length xs" "key (xs ! i) = n" using find_idx_Some [OF assms(2)] by auto
  show m: "map key (xs[i := y]) = map key xs" using i assms(3) by (simp add: map_update list_update_same_conv)
  have dis: "distinct xs" using assms(1) by (simp add: distinct_map)
  have s: "set (xs[i := y]) = insert y (set xs - {xs ! i})" by (rule set_update_distinct [OF dis i(1)])
  have other: "key x \<noteq> n" if "x \<in> set xs - {xs ! i}" for x
    using assms(1) i that by (auto simp: distinct_map dest: inj_onD)
  show "(\<exists>x \<in> set (xs[i := y]). key x = j \<and> P x) \<longleftrightarrow> (if j = n then P y else \<exists>x \<in> set xs. key x = j \<and> P x)"
  proof (cases "j = n")
    case True
    then show ?thesis unfolding s using other assms(3) by auto
  next
    case False
    then have "(\<exists>x \<in> set (xs[i := y]). key x = j \<and> P x) \<longleftrightarrow> (\<exists>x \<in> set xs. key x = j \<and> P x)"
      unfolding s using assms(3) i(2) by auto
    then show ?thesis using False by simp
  qed
qed

lemma table_missing: "find_idx (\<lambda>x. key x = n) xs = None \<Longrightarrow> \<not> (\<exists>x \<in> set xs. key x = n \<and> P x)"
  by (auto simp: find_idx_None)

section \<open>Concrete instances\<close>

text \<open>A running module that declared one resource, its task running, and given peripherals.\<close>

definition declaring :: "u8 \<Rightarrow> u8 \<Rightarrow> module" where
  "declaring kind n = held_module\<lparr>m_res := [\<lparr>r_kind = kind, r_id = n, r_edge = 0, r_rsv = 0\<rparr>], res_count := 1\<rparr>"

definition dhost0 :: "u8 \<Rightarrow> u8 \<Rightarrow> devs \<Rightarrow> dhost" where
  "dhost0 kind n d = \<lparr>h_slots = [declaring kind n, zero_module, zero_module, zero_module], h_mem = \<lambda>_. 0, me = 7, tick = 100,
     cyccnt = 0, privileged = False, h_ev = ev0, s_cmd_argc = 0, s_cmd_argv = 0, h_devs = d\<rparr>"

lemma dhost0_simps [simp]:
  "h_slots (dhost0 k n d) = [declaring k n, zero_module, zero_module, zero_module]" "me (dhost0 k n d) = 7"
  "\<not> privileged (dhost0 k n d)" "h_devs (dhost0 k n d) = d" "h_mem (dhost0 k n d) = (\<lambda>_. 0)"
  by (simp_all add: dhost0_def)

lemma declaring_simps [simp]:
  "m_state (declaring k n) = SLOT_RUNNING" "task_handle (declaring k n) = 7" "declares (declaring k n) k n"
  by (simp_all add: declaring_def declares_def)

lemma dhost0_declared: "mdl_caller_declared 7 [declaring k n, zero_module, zero_module, zero_module] k n"
  by (simp add: mdl_caller_declared_def mdl_caller_slot_def)

lemma dhost0_owned:
  assumes "0x20020400 \<le> p" "p + len \<le> 0x20020800" "0 < len"
  shows "ptr_owned_by_module (dhost0 k n d) p len"
proof -
  have b: "bounds_ok (declaring k n)" using held_bounds_ok by (simp add: bounds_ok_def declaring_def)
  have c: "caller (dhost0 k n d) = Some 0" by (simp add: caller_def mdl_caller_slot_def)
  have "(0x20020400, 0x20020800) \<in> user_regions (declaring k n)" by (simp add: user_regions_def declaring_def)
  then show ?thesis
    using ptr_owned_iff [of "dhost0 k n d" len p] b c assms by auto
qed

text \<open>A vendor library whose transfers succeed, with bytes of zero, and whose flags are always set.\<close>

definition vendor0 :: vendor where
  "vendor0 = \<lparr>v_apb1 = 144000000, v_i2c_tx = \<lambda>_. I2C_OK, v_i2c_rx = \<lambda>_. (I2C_OK, []), v_flag = \<lambda>_ _ _ _. True,
     v_data = \<lambda>_. 0, v_conv = \<lambda>_. 0\<rparr>"

end
