(* ===== verification/Host_I2c.thy ===== *)
theory Host_I2c
  imports Periph_Spec
begin

text \<open>
  \<open>src/mdl/host/host_i2c.c\<close> and the gated I2C entries of \<open>host_api.c\<close>: bring-up of the one bus, the console's
  transfers, and the transfers of a module, which must have declared the bus and may only name its own memory.
\<close>

abbreviation I2C_CLKCTRL_100K :: u32 where "I2C_CLKCTRL_100K \<equiv> 0x80504C4E"
abbreviation I2C_CLKCTRL_APB1_HZ :: u32 where "I2C_CLKCTRL_APB1_HZ \<equiv> 144000000"
abbreviation I2C_MAX_LEN :: nat where "I2C_MAX_LEN \<equiv> 256"

definition g_buses :: "i2c_bus list" where
  "g_buses = [\<lparr>ib_instance = 1, ib_open = False\<rparr>]"

text \<open>A row of the table by its instance; the argument is cut to a byte.\<close>

definition bus_lookup :: "int \<Rightarrow> devs \<Rightarrow> nat option" where
  "bus_lookup n d = find_idx (\<lambda>b. ib_instance b = of_int n) (d_i2c d)"

definition set_open :: "nat \<Rightarrow> bool \<Rightarrow> devs \<Rightarrow> devs" where
  "set_open i b d = d\<lparr>d_i2c := (d_i2c d)[i := (d_i2c d ! i)\<lparr>ib_open := b\<rparr>]\<rparr>"

text \<open>The hook \<open>i2c_config\<close> calls, and the call: PB8 and PB9 are the pins of I2C1.\<close>

definition i2c_lowlevel_init :: "i2c_bus \<Rightarrow> dev_op list" where
  "i2c_lowlevel_init b =
     [Clock ''I2C1'' True, Clock ''GPIOB'' True, PinInit [MDL_PIN 1 8, MDL_PIN 1 9] FUNC_MUX OUT_OPEN_DRAIN PULL_UP,
      PinMux (MDL_PIN 1 8) 4, PinMux (MDL_PIN 1 9) 4, I2cInit (ib_instance b) I2C_CLKCTRL_100K, I2cOwnAddress (ib_instance b)]"

definition i2c_config :: "i2c_bus \<Rightarrow> dev_op list" where
  "i2c_config b = I2cConfig (ib_instance b) # i2c_lowlevel_init b"

definition host_i2c_claim :: "vendor \<Rightarrow> int \<Rightarrow> devs \<Rightarrow> bool \<times> devs" where
  "host_i2c_claim v n d = (case bus_lookup n d of
     None \<Rightarrow> (False, d)
   | Some i \<Rightarrow>
       if ib_open (d_i2c d ! i) then (True, d)
       else if v_apb1 v \<noteq> I2C_CLKCTRL_APB1_HZ then
         (False, say [puts ''[host] i2c: APB1 is '', console_put_u32 (v_apb1 v), puts '' Hz, but the 100kHz timing word assumes '',
            console_put_u32 I2C_CLKCTRL_APB1_HZ, puts '' Hz -- refusing rather than running wrong timing'', crlf] d)
       else (True, set_open i True (hw (i2c_config (d_i2c d ! i)) d)))"

definition host_i2c_release :: "int \<Rightarrow> devs \<Rightarrow> devs" where
  "host_i2c_release n d = (case bus_lookup n d of
     None \<Rightarrow> d
   | Some i \<Rightarrow>
       let b = d_i2c d ! i in
       if \<not> ib_open b then d
       else set_open i False (hw [I2cReset (ib_instance b), I2cDisable (ib_instance b), Clock ''I2C1'' False] d))"

definition bus_recover :: "i2c_bus \<Rightarrow> devs \<Rightarrow> devs" where
  "bus_recover b d = hw (I2cReset (ib_instance b) # i2c_config b) d"

fun status_to_ret :: "i2c_status \<Rightarrow> int" where
  "status_to_ret I2C_OK = 0"
| "status_to_ret I2C_ERR_TIMEOUT = -2"
| "status_to_ret I2C_ERR_STEP_1 = -2"
| "status_to_ret I2C_ERR_STEP_2 = -2"
| "status_to_ret I2C_ERR_STEP_3 = -2"
| "status_to_ret I2C_ERR_OTHER = -3"

text \<open>The two vendor calls; the receiver stores at most \<open>len\<close> bytes.\<close>

definition i2c_master_transmit :: "vendor \<Rightarrow> i2c_bus \<Rightarrow> u16 \<Rightarrow> bytes \<Rightarrow> devs \<Rightarrow> i2c_status \<times> devs" where
  "i2c_master_transmit v b a bs d = (let d1 = hw [I2cTransmit (ib_instance b) a bs] d in (v_i2c_tx v (d_ops d1), d1))"

definition i2c_master_receive :: "vendor \<Rightarrow> i2c_bus \<Rightarrow> u16 \<Rightarrow> nat \<Rightarrow> devs \<Rightarrow> (i2c_status \<times> bytes) \<times> devs" where
  "i2c_master_receive v b a len d = (let d1 = hw [I2cReceive (ib_instance b) a len] d in
     case v_i2c_rx v (d_ops d1) of (st, bs) \<Rightarrow> ((st, take len bs), d1))"

definition addr8 :: "int \<Rightarrow> u16" where
  "addr8 addr7 = of_int (addr7 * 2)"

section \<open>The console's transfers\<close>

definition shell_bus_free :: "int \<Rightarrow> slots \<Rightarrow> bool" where
  "shell_bus_free n ms \<longleftrightarrow> \<not> (\<exists>m \<in> set ms. m_state m \<noteq> SLOT_EMPTY \<and> declares m KIND_I2C (of_int n))"

definition recover_unless :: "bool \<Rightarrow> i2c_bus \<Rightarrow> devs \<Rightarrow> devs" where
  "recover_unless ok b d = (if ok then d else bus_recover b d)"

text \<open>The result includes the bytes received; the buffers are the console's own.\<close>

definition host_i2c_shell :: "vendor \<Rightarrow> int \<Rightarrow> int \<Rightarrow> bytes \<Rightarrow> nat \<Rightarrow> slots \<Rightarrow> devs \<Rightarrow> (int \<times> bytes) \<times> devs" where
  "host_i2c_shell v n addr7 tx rxlen ms d =
     (if \<not> shell_bus_free n ms then ((-4, []), d)
      else case bus_lookup n d of
        None \<Rightarrow> ((-1, []), d)
      | Some i \<Rightarrow>
          if addr7 < 0 \<or> 0x7F < addr7 then ((-1, []), d)
          else if I2C_MAX_LEN < length tx \<or> I2C_MAX_LEN < rxlen \<or> (tx = [] \<and> rxlen = 0) then ((-1, []), d)
          else
            let was_open = ib_open (d_i2c d ! i);
                (claimed, d1) = (if was_open then (True, d) else host_i2c_claim v n d)
            in if \<not> claimed then ((-1, []), d1)
            else
              let b = d_i2c d1 ! i;
                  (st1, d2) = (if tx = [] then (I2C_OK, d1)
                    else case i2c_master_transmit v b (addr8 addr7) tx d1 of (st, d2) \<Rightarrow> (st, recover_unless (st = I2C_OK) b d2));
                  ((st2, bs), d3) = (if st1 = I2C_OK \<and> rxlen \<noteq> 0
                    then case i2c_master_receive v b (addr8 addr7) rxlen d2 of ((st, bs), d3) \<Rightarrow> ((st, bs), recover_unless (st = I2C_OK) b d3)
                    else ((st1, []), d2))
              in ((status_to_ret st2, bs), if was_open then d3 else host_i2c_release n d3))"

section \<open>The module's transfers\<close>

definition checked_bus :: "int \<Rightarrow> dhost \<Rightarrow> nat option" where
  "checked_bus n s =
     (if \<not> mdl_caller_declared (me s) (h_slots s) KIND_I2C (of_int n) then None
      else case bus_lookup n (h_devs s) of None \<Rightarrow> None
        | Some i \<Rightarrow> if ib_open (d_i2c (h_devs s) ! i) then Some i else None)"

definition len_ok :: "u32 \<Rightarrow> bool" where
  "len_ok len \<longleftrightarrow> len \<noteq> 0 \<and> unat len \<le> I2C_MAX_LEN"

definition addr7_ok :: "int \<Rightarrow> bool" where
  "addr7_ok a \<longleftrightarrow> 0 \<le> a \<and> a \<le> 0x7F"

definition i2c_send :: "vendor \<Rightarrow> nat \<Rightarrow> int \<Rightarrow> addr \<Rightarrow> u32 \<Rightarrow> dhost \<Rightarrow> i2c_status \<times> dhost" where
  "i2c_send v i addr7 data len s = (let b = d_i2c (h_devs s) ! i in
     case i2c_master_transmit v b (addr8 addr7) (mem_read (h_mem s) data (unat len)) (h_devs s) of (st, d) \<Rightarrow>
       (st, s\<lparr>h_devs := recover_unless (st = I2C_OK) b d\<rparr>))"

definition i2c_recv :: "vendor \<Rightarrow> nat \<Rightarrow> int \<Rightarrow> addr \<Rightarrow> u32 \<Rightarrow> dhost \<Rightarrow> i2c_status \<times> dhost" where
  "i2c_recv v i addr7 data len s = (let b = d_i2c (h_devs s) ! i in
     case i2c_master_receive v b (addr8 addr7) (unat len) (h_devs s) of ((st, bs), d) \<Rightarrow>
       (st, s\<lparr>h_mem := mem_write data bs (h_mem s), h_devs := recover_unless (st = I2C_OK) b d\<rparr>))"

definition host_i2c_write_impl :: "vendor \<Rightarrow> int \<Rightarrow> int \<Rightarrow> addr \<Rightarrow> u32 \<Rightarrow> dhost \<Rightarrow> int \<times> dhost" where
  "host_i2c_write_impl v n addr7 data len s = (case checked_bus n s of
     None \<Rightarrow> (-1, s)
   | Some i \<Rightarrow>
       if \<not> len_ok len \<or> \<not> addr7_ok addr7 then (-1, s)
       else if \<not> host_ptr_owned_by_module s data (unat len) then (-1, s)
       else case i2c_send v i addr7 data len s of (st, s') \<Rightarrow> (status_to_ret st, s'))"

definition host_i2c_read_impl :: "vendor \<Rightarrow> int \<Rightarrow> int \<Rightarrow> addr \<Rightarrow> u32 \<Rightarrow> dhost \<Rightarrow> int \<times> dhost" where
  "host_i2c_read_impl v n addr7 data len s = (case checked_bus n s of
     None \<Rightarrow> (-1, s)
   | Some i \<Rightarrow>
       if \<not> len_ok len \<or> \<not> addr7_ok addr7 then (-1, s)
       else if \<not> host_ptr_owned_by_module s data (unat len) then (-1, s)
       else case i2c_recv v i addr7 data len s of (st, s') \<Rightarrow> (status_to_ret st, s'))"

definition host_i2c_write_read_impl :: "vendor \<Rightarrow> int \<Rightarrow> int \<Rightarrow> addr \<Rightarrow> u32 \<Rightarrow> addr \<Rightarrow> u32 \<Rightarrow> dhost \<Rightarrow> int \<times> dhost" where
  "host_i2c_write_read_impl v n addr7 tx txlen rx rxlen s = (case checked_bus n s of
     None \<Rightarrow> (-1, s)
   | Some i \<Rightarrow>
       if \<not> len_ok txlen \<or> \<not> len_ok rxlen then (-1, s)
       else if \<not> addr7_ok addr7 then (-1, s)
       else if \<not> host_ptr_owned_by_module s tx (unat txlen) \<or> \<not> host_ptr_owned_by_module s rx (unat rxlen) then (-1, s)
       else case i2c_send v i addr7 tx txlen s of (st, s1) \<Rightarrow>
         if st \<noteq> I2C_OK then (status_to_ret st, s1)
         else case i2c_recv v i addr7 rx rxlen s1 of (st2, s2) \<Rightarrow> (status_to_ret st2, s2))"

definition host_i2c_write :: "vendor \<Rightarrow> int \<Rightarrow> int \<Rightarrow> addr \<Rightarrow> u32 \<Rightarrow> dhost \<Rightarrow> int \<times> dhost" where
  "host_i2c_write v n addr7 data len = fed_gate (host_i2c_write_impl v n addr7 data len)"

definition host_i2c_read :: "vendor \<Rightarrow> int \<Rightarrow> int \<Rightarrow> addr \<Rightarrow> u32 \<Rightarrow> dhost \<Rightarrow> int \<times> dhost" where
  "host_i2c_read v n addr7 data len = fed_gate (host_i2c_read_impl v n addr7 data len)"

definition host_i2c_write_read :: "vendor \<Rightarrow> int \<Rightarrow> int \<Rightarrow> addr \<Rightarrow> u32 \<Rightarrow> addr \<Rightarrow> u32 \<Rightarrow> dhost \<Rightarrow> int \<times> dhost" where
  "host_i2c_write_read v n addr7 tx txlen rx rxlen = fed_gate (host_i2c_write_read_impl v n addr7 tx txlen rx rxlen)"

section \<open>The driver's contract\<close>

definition i2c_inv :: "devs \<Rightarrow> bool" where
  "i2c_inv d \<longleftrightarrow> map ib_instance (d_i2c d) = [1]"

definition i2c_open :: "u8 \<Rightarrow> devs \<Rightarrow> bool" where
  "i2c_open n d \<longleftrightarrow> (\<exists>b \<in> set (d_i2c d). ib_instance b = n \<and> ib_open b)"

lemma i2c_invE:
  assumes "i2c_inv d"
  obtains b where "d_i2c d = [b]" "ib_instance b = 1"
  using assms by (auto simp: i2c_inv_def)

lemma set_open_simps [simp]:
  "d_i2c (set_open i b d) = (d_i2c d)[i := (d_i2c d ! i)\<lparr>ib_open := b\<rparr>]" "d_uart (set_open i b d) = d_uart d"
  "d_adc (set_open i b d) = d_adc d" "s_adc_up (set_open i b d) = s_adc_up d" "d_spi (set_open i b d) = d_spi d"
  "d_ops (set_open i b d) = d_ops d" "d_tx (set_open i b d) = d_tx d"
  by (simp_all add: set_open_def)

lemma host_i2c_claim_spec:
  assumes "i2c_inv d" "host_i2c_claim v (uint n) d = (ok, d')"
  shows "i2c_inv d' \<and> (ok \<longleftrightarrow> i2c_open n d') \<and> (\<forall>j. j \<noteq> n \<or> i2c_open j d \<longrightarrow> i2c_open j d' = i2c_open j d)"
proof -
  obtain b where b: "d_i2c d = [b]" "ib_instance b = 1" by (rule i2c_invE [OF assms(1)])
  show ?thesis using assms(2) b
    by (cases "n = 1") (auto simp: host_i2c_claim_def bus_lookup_def i2c_inv_def i2c_open_def split: if_splits)
qed

lemma host_i2c_release_spec:
  assumes "i2c_inv d"
  shows "i2c_inv (host_i2c_release (uint n) d) \<and> \<not> i2c_open n (host_i2c_release (uint n) d)
    \<and> (\<forall>j. j \<noteq> n \<longrightarrow> i2c_open j (host_i2c_release (uint n) d) = i2c_open j d)"
proof -
  obtain b where b: "d_i2c d = [b]" "ib_instance b = 1" by (rule i2c_invE [OF assms])
  show ?thesis using b
    by (cases "n = 1") (auto simp: host_i2c_release_def bus_lookup_def i2c_inv_def i2c_open_def Let_def split: if_splits)
qed

interpretation i2c: periph_driver i2c_inv i2c_open "\<lambda>n d. Some (host_i2c_claim v (uint n) d)" "\<lambda>n. host_i2c_release (uint n)" for v
proof
  fix d d' :: devs and n j :: u8 and ok
  assume inv: "i2c_inv d"
  {
    assume "Some (host_i2c_claim v (uint n) d) = Some (ok, d')"
    then show "i2c_inv d'" "ok = i2c_open n d'" using host_i2c_claim_spec [OF inv] by simp_all
  }
  {
    assume "Some (host_i2c_claim v (uint n) d) = Some (ok, d')" "j \<noteq> n \<or> i2c_open j d"
    then show "i2c_open j d' = i2c_open j d" using host_i2c_claim_spec [OF inv] by simp
  }
  show "i2c_inv (host_i2c_release (uint n) d)" "\<not> i2c_open n (host_i2c_release (uint n) d)"
    using host_i2c_release_spec [OF inv] by simp_all
  show "i2c_open j (host_i2c_release (uint n) d) = i2c_open j d" if "j \<noteq> n"
    using host_i2c_release_spec [OF inv, of n] that by simp
qed

text \<open>The other drivers' tables are not touched.\<close>

lemma i2c_only:
  "d_uart (snd (host_i2c_claim v n d)) = d_uart d" "d_adc (snd (host_i2c_claim v n d)) = d_adc d"
  "s_adc_up (snd (host_i2c_claim v n d)) = s_adc_up d" "d_spi (snd (host_i2c_claim v n d)) = d_spi d"
  "d_uart (host_i2c_release n d) = d_uart d" "d_adc (host_i2c_release n d) = d_adc d"
  "s_adc_up (host_i2c_release n d) = s_adc_up d" "d_spi (host_i2c_release n d) = d_spi d"
  by (simp_all add: host_i2c_claim_def host_i2c_release_def Let_def split: option.split)

section \<open>What a module's transfer can do\<close>

lemma status_0: "status_to_ret st = 0 \<longleftrightarrow> st = I2C_OK" "status_to_ret st \<in> {0, -2, -3}"
  by (cases st; simp)+

text \<open>The calls that reset a bus after a failed transfer.\<close>

definition recovery :: "u8 \<Rightarrow> dev_op list" where
  "recovery n = I2cReset n # i2c_config \<lparr>ib_instance = n, ib_open = True\<rparr>"

definition may_transfer :: "int \<Rightarrow> int \<Rightarrow> (addr \<times> u32) list \<Rightarrow> dhost \<Rightarrow> bool" where
  "may_transfer n addr7 bufs s \<longleftrightarrow> mdl_caller_declared (me s) (h_slots s) KIND_I2C (of_int n)
     \<and> i2c_open (of_int n) (h_devs s) \<and> 0 \<le> addr7 \<and> addr7 \<le> 0x7F
     \<and> (\<forall>(p, len) \<in> set bufs. 0 < unat len \<and> unat len \<le> 256 \<and> ptr_owned_by_module s p (unat len))"

lemma checked_bus_iff:
  assumes "i2c_inv (h_devs s)"
  shows "checked_bus n s = (if mdl_caller_declared (me s) (h_slots s) KIND_I2C (of_int n) \<and> i2c_open (of_int n) (h_devs s) then Some 0 else None)"
proof -
  obtain b where b: "d_i2c (h_devs s) = [b]" "ib_instance b = 1" by (rule i2c_invE [OF assms])
  then show ?thesis by (auto simp: checked_bus_def bus_lookup_def i2c_open_def)
qed

lemma bus_0:
  assumes "i2c_inv d" "i2c_open n d"
  shows "ib_instance (d_i2c d ! 0) = n" "n = 1"
  using assms by (auto simp: i2c_inv_def i2c_open_def)

lemma len_ok_iff: "len_ok len \<longleftrightarrow> 0 < unat len \<and> unat len \<le> 256"
  by (auto simp: len_ok_def unat_gt_0)

lemma recover_ops:
  "d_ops (recover_unless ok b d) = d_ops d @ (if ok then [] else recovery (ib_instance b))"
  "d_i2c (recover_unless ok b d) = d_i2c d"
  by (simp_all add: recover_unless_def bus_recover_def recovery_def i2c_config_def i2c_lowlevel_init_def)

lemma i2c_send_run:
  assumes "i2c_send v i a p len s = (st, s')"
  shows "d_ops (h_devs s') = d_ops (h_devs s) @ I2cTransmit (ib_instance (d_i2c (h_devs s) ! i)) (addr8 a) (mem_read (h_mem s) p (unat len))
      # (if st = I2C_OK then [] else recovery (ib_instance (d_i2c (h_devs s) ! i)))"
    "h_mem s' = h_mem s" "h_slots s' = h_slots s" "d_i2c (h_devs s') = d_i2c (h_devs s)" "me s' = me s"
  using assms by (auto simp: i2c_send_def i2c_master_transmit_def Let_def recover_ops)

lemma i2c_recv_run:
  assumes "i2c_recv v i a p len s = (st, s')"
  shows "d_ops (h_devs s') = d_ops (h_devs s) @ I2cReceive (ib_instance (d_i2c (h_devs s) ! i)) (addr8 a) (unat len)
      # (if st = I2C_OK then [] else recovery (ib_instance (d_i2c (h_devs s) ! i)))"
    "h_mem s' x \<noteq> h_mem s x \<Longrightarrow> p \<le> x \<and> x < p + unat len" "h_slots s' = h_slots s" "d_i2c (h_devs s') = d_i2c (h_devs s)"
  using assms by (auto simp: i2c_recv_def i2c_master_receive_def Let_def recover_ops mem_write_def split: prod.splits if_splits)

text \<open>C25: A module's I2C transfer stays inside what it declared and owns. A write-then-read that is not permitted (the
  bus not declared by the caller, or closed, or an address, a length or a buffer out of bounds) returns -1,
  makes no call to the bus and changes no memory. A permitted one starts by sending exactly the bytes of the module's own buffer
  on the declared bus; memory changes in the receive buffer only; and when it fails, the last thing that
  happens on the bus is the reset and reconfiguration.\<close>

theorem host_i2c_confined:
  assumes "i2c_inv (h_devs s)" "\<not> privileged s"
  shows "case host_i2c_write_read v n addr7 tx txlen rx rxlen s of (r, s') \<Rightarrow>
    \<not> privileged s'
    \<and> (if may_transfer n addr7 [(tx, txlen), (rx, rxlen)] s then
         (\<exists>ops. d_ops (h_devs s') = d_ops (h_devs s) @ I2cTransmit (of_int n) (addr8 addr7) (mem_read (h_mem s) tx (unat txlen)) # ops
            \<and> (r = 0 \<and> ops = [I2cReceive (of_int n) (addr8 addr7) (unat rxlen)]
               \<or> r \<in> {-2, -3} \<and> (\<exists>pre. ops = pre @ recovery (of_int n))))
         \<and> (\<forall>x. h_mem s' x \<noteq> h_mem s x \<longrightarrow> rx \<le> x \<and> x < rx + unat rxlen)
       else r = -1 \<and> h_devs s' = h_devs s \<and> h_mem s' = h_mem s)"
proof -
  let ?s = "s\<lparr>privileged := True\<rparr>"
  obtain r s' where run: "host_i2c_write_read_impl v n addr7 tx txlen rx rxlen ?s = (r, s')"
    by (cases "host_i2c_write_read_impl v n addr7 tx txlen rx rxlen ?s")
  note gate = fed_gate_run [where body = "host_i2c_write_read_impl v n addr7 tx txlen rx rxlen", OF run]
  have inv: "i2c_inv (h_devs ?s)" using assms(1) by simp
  note cb = checked_bus_iff [OF inv, of n]
  have main: "if may_transfer n addr7 [(tx, txlen), (rx, rxlen)] s then
         (\<exists>ops. d_ops (h_devs s') = d_ops (h_devs s) @ I2cTransmit (of_int n) (addr8 addr7) (mem_read (h_mem s) tx (unat txlen)) # ops
            \<and> (r = 0 \<and> ops = [I2cReceive (of_int n) (addr8 addr7) (unat rxlen)]
               \<or> r \<in> {-2, -3} \<and> (\<exists>pre. ops = pre @ recovery (of_int n))))
         \<and> (\<forall>x. h_mem s' x \<noteq> h_mem s x \<longrightarrow> rx \<le> x \<and> x < rx + unat rxlen)
       else r = -1 \<and> h_devs s' = h_devs s \<and> h_mem s' = h_mem s"
  proof (cases "may_transfer n addr7 [(tx, txlen), (rx, rxlen)] s")
    case False
    then have "host_i2c_write_read_impl v n addr7 tx txlen rx rxlen ?s = (-1, ?s)"
      using cb by (auto simp: host_i2c_write_read_impl_def may_transfer_def len_ok_iff addr7_ok_def host_ptr_owned_by_module_def)
    then show ?thesis using False run by simp
  next
    case True
    then have op: "i2c_open (of_int n) (h_devs s)" by (simp add: may_transfer_def)
    have ins: "ib_instance (d_i2c (h_devs s) ! 0) = of_int n" using bus_0(1) [OF assms(1) op] .
    obtain st1 s1 where s1: "i2c_send v 0 addr7 tx txlen ?s = (st1, s1)" by (cases "i2c_send v 0 addr7 tx txlen ?s")
    obtain st2 s2 where s2: "i2c_recv v 0 addr7 rx rxlen s1 = (st2, s2)" by (cases "i2c_recv v 0 addr7 rx rxlen s1")
    have res: "(r, s') = (if st1 \<noteq> I2C_OK then (status_to_ret st1, s1) else (status_to_ret st2, s2))"
      using run True cb s1 s2
      by (auto simp: host_i2c_write_read_impl_def may_transfer_def len_ok_iff addr7_ok_def host_ptr_owned_by_module_def split: if_splits)
    note a = i2c_send_run [OF s1] and b = i2c_recv_run [OF s2]
    show ?thesis
    proof (cases "st1 = I2C_OK")
      case ok1: True
      show ?thesis using True res ok1 a b ins status_0 [of st2] by (cases "st2 = I2C_OK") auto
    next
      case False
      then show ?thesis using True res a ins status_0 [of st1] by auto
    qed
  qed
  obtain g where g: "host_i2c_write_read v n addr7 tx txlen rx rxlen s = (r, g)" "h_devs g = h_devs s'" "h_mem g = h_mem s'" "\<not> privileged g"
    using gate assms(2) by (cases "fed_gate (host_i2c_write_read_impl v n addr7 tx txlen rx rxlen) s") (simp add: host_i2c_write_read_def)
  show ?thesis unfolding g(1) prod.case g(2,3) using main g(4) by (rule conjI [rotated])
qed

theorem host_i2c_confined_witness:
  "case host_i2c_write_read vendor0 1 0x50 0x20020400 1 0x20020500 4
      (dhost0 KIND_I2C 1 \<lparr>d_tx = [], d_ops = [], d_i2c = [\<lparr>ib_instance = 1, ib_open = True\<rparr>], d_uart = [], d_adc = [], s_adc_up = False, d_spi = []\<rparr>) of
    (r, s') \<Rightarrow> hd (d_ops (h_devs s')) = I2cTransmit 1 0xA0 [0] \<and> \<not> privileged s'"
proof -
  let ?d = "\<lparr>d_tx = [], d_ops = [], d_i2c = [\<lparr>ib_instance = 1, ib_open = True\<rparr>], d_uart = [], d_adc = [], s_adc_up = False, d_spi = []\<rparr>"
  let ?s = "dhost0 KIND_I2C 1 ?d"
  have inv: "i2c_inv (h_devs ?s)" by (simp add: i2c_inv_def)
  have "may_transfer 1 0x50 [(0x20020400, 1), (0x20020500, 4)] ?s"
    by (simp add: may_transfer_def dhost0_declared i2c_open_def dhost0_owned)
  then show ?thesis
    using host_i2c_confined [OF inv, where v = vendor0 and n = 1 and ?addr7.0 = "0x50" and tx = "0x20020400" and txlen = 1 and rx = "0x20020500" and rxlen = 4]
    by (auto simp: addr8_def mem_read_def upt_rec split: prod.splits)
qed

end
