(* ===== verification/Host_Uart.thy ===== *)
theory Host_Uart
  imports Periph_Spec Queue_Spec
begin

text \<open>
  \<open>src/mdl/host/host_uart.c\<close> and the gated UART entries of \<open>host_api.c\<close>: reception into a ring from the interrupt
  handler, the module's reads from it, bounded transmission, and the rule that two pin mappings of one
  peripheral are never open together.
\<close>

abbreviation UART_RX_RING :: nat where "UART_RX_RING \<equiv> 256"
abbreviation UART_TX_TIMEOUT_LOOPS :: nat where "UART_TX_TIMEOUT_LOOPS \<equiv> 2000000"
abbreviation UART_MAX_WRITE :: nat where "UART_MAX_WRITE \<equiv> 256"
abbreviation UART_DEFAULT_BAUD :: u32 where "UART_DEFAULT_BAUD \<equiv> 115200"

definition uart_row :: "u8 \<Rightarrow> string \<Rightarrow> string \<Rightarrow> u8 \<Rightarrow> u8 \<Rightarrow> uart_bus" where
  "uart_row n p gc tx rx = \<lparr>ub_instance = n, ub_periph = p, ub_gpio_clock = gc, ub_tx_pin = tx, ub_rx_pin = rx, ub_open = False,
     ub_baud = UART_DEFAULT_BAUD, ub_ring = replicate UART_RX_RING 0, ub_head = 0, ub_tail = 0, ub_dropped = 0\<rparr>"

definition g_uarts :: "uart_bus list" where
  "g_uarts = [uart_row 2 ''USART2'' ''GPIOA'' (MDL_PIN 0 2) (MDL_PIN 0 3),
     uart_row 4 ''USART2'' ''GPIOD'' (MDL_PIN 3 5) (MDL_PIN 3 6),
     uart_row 3 ''USART3'' ''GPIOB'' (MDL_PIN 1 10) (MDL_PIN 1 11)]"

definition uart_lookup :: "int \<Rightarrow> devs \<Rightarrow> nat option" where
  "uart_lookup n d = find_idx (\<lambda>u. ub_instance u = of_int n) (d_uart d)"

definition upd_uart :: "nat \<Rightarrow> (uart_bus \<Rightarrow> uart_bus) \<Rightarrow> devs \<Rightarrow> devs" where
  "upd_uart i f d = d\<lparr>d_uart := (d_uart d)[i := f (d_uart d ! i)]\<rparr>"

definition ring_used :: "uart_bus \<Rightarrow> nat" where
  "ring_used u = sub32 (ub_head u) (ub_tail u) mod UART_RX_RING"

section \<open>The interrupt half\<close>

text \<open>One received byte into the ring, and one byte out of it.\<close>

definition uart_put :: "u8 \<Rightarrow> uart_bus \<Rightarrow> bool \<times> uart_bus" where
  "uart_put b u = (let nxt = (ub_head u + 1) mod UART_RX_RING in
     if nxt = ub_tail u then (False, u\<lparr>ub_dropped := ub_dropped u + 1\<rparr>)
     else (True, u\<lparr>ub_ring := (ub_ring u)[ub_head u := b], ub_head := nxt\<rparr>))"

definition uart_get :: "uart_bus \<Rightarrow> u8 option \<times> uart_bus" where
  "uart_get u = (if ub_tail u = ub_head u then (None, u)
     else (Some (ub_ring u ! ub_tail u), u\<lparr>ub_tail := (ub_tail u + 1) mod UART_RX_RING\<rparr>))"

definition uart_rx_part :: "vendor \<Rightarrow> nat \<Rightarrow> dhost \<Rightarrow> dhost" where
  "uart_rx_part v i s = (let u = d_uart (h_devs s) ! i; p = ub_periph u in
     if v_flag v p ''RDBF'' (d_ops (h_devs s)) 0 then
       let d1 = hw [UsartRecv p] (h_devs s); (ok, u1) = uart_put (v_data v (d_ops d1)) u
       in s\<lparr>h_devs := upd_uart i (\<lambda>_. u1) d1,
            h_ev := if ok then mdl_events_post_uart (h_slots s) (ub_instance u) (of_nat (ring_used u1)) (tick s) (cyccnt s) (h_ev s)
              else h_ev s\<rparr>
     else s)"

definition uart_err_part :: "vendor \<Rightarrow> nat \<Rightarrow> dhost \<Rightarrow> dhost" where
  "uart_err_part v i s = (let p = ub_periph (d_uart (h_devs s) ! i); flag = \<lambda>f. v_flag v p f (d_ops (h_devs s)) 0 in
     if flag ''ROERR'' \<or> flag ''FERR'' \<or> flag ''NERR'' then
       s\<lparr>h_devs := upd_uart i (\<lambda>u. u\<lparr>ub_dropped := ub_dropped u + 1\<rparr>) (hw [UsartRecv p] (h_devs s))\<rparr>
     else s)"

definition uart_isr :: "vendor \<Rightarrow> nat \<Rightarrow> dhost \<Rightarrow> dhost" where
  "uart_isr v i s = uart_err_part v i (uart_rx_part v i s)"

definition USART2_IRQHandler :: "vendor \<Rightarrow> dhost \<Rightarrow> dhost" where
  "USART2_IRQHandler v s = (case find_idx (\<lambda>u. ub_periph u = ''USART2'' \<and> ub_open u) (d_uart (h_devs s)) of
     None \<Rightarrow> s | Some i \<Rightarrow> uart_isr v i s)"

definition USART3_IRQHandler :: "vendor \<Rightarrow> dhost \<Rightarrow> dhost" where
  "USART3_IRQHandler v s = (case find_idx (\<lambda>u. ub_periph u = ''USART3'') (d_uart (h_devs s)) of
     None \<Rightarrow> s | Some i \<Rightarrow> uart_isr v i s)"

section \<open>Bring-up and tear-down\<close>

definition uart_apply :: "uart_bus \<Rightarrow> dev_op list" where
  "uart_apply u = [UsartInit (ub_periph u) (ub_baud u), UsartTransmitter (ub_periph u), UsartReceiver (ub_periph u),
     UsartRxInt (ub_periph u) True, UsartEnable (ub_periph u) True]"

definition host_uart_claim :: "vendor \<Rightarrow> int \<Rightarrow> devs \<Rightarrow> bool \<times> devs" where
  "host_uart_claim v n d = (case uart_lookup n d of
     None \<Rightarrow> (False, d)
   | Some i \<Rightarrow>
       let u = d_uart d ! i in
       if ub_open u then (True, d)
       else if list_ex (\<lambda>j. j \<noteq> i \<and> ub_periph (d_uart d ! j) = ub_periph u \<and> ub_open (d_uart d ! j)) [0 ..< length (d_uart d)] then
         (False, say [puts ''[host] uart: that peripheral is already open on its other pin mapping'', crlf] d)
       else
         (True, upd_uart i (\<lambda>u. u\<lparr>ub_head := 0, ub_tail := 0, ub_dropped := 0, ub_open := True\<rparr>)
            (hw ([Clock (ub_gpio_clock u) True, Clock (ub_periph u) True,
                  PinInit [ub_tx_pin u] FUNC_MUX OUT_PUSH_PULL PULL_NONE, PinInit [ub_rx_pin u] FUNC_MUX OUT_PUSH_PULL PULL_UP,
                  PinMux (ub_tx_pin u) 7, PinMux (ub_rx_pin u) 7] @ uart_apply u @ [Nvic (ub_periph u) True]) d)))"

definition host_uart_release :: "int \<Rightarrow> devs \<Rightarrow> devs" where
  "host_uart_release n d = (case uart_lookup n d of
     None \<Rightarrow> d
   | Some i \<Rightarrow>
       let u = d_uart d ! i in
       if \<not> ub_open u then d
       else upd_uart i (\<lambda>u. u\<lparr>ub_open := False, ub_head := 0, ub_tail := 0\<rparr>)
         (hw [Nvic (ub_periph u) False, UsartRxInt (ub_periph u) False, UsartEnable (ub_periph u) False, Clock (ub_periph u) False] d))"

definition host_uart_dropped :: "int \<Rightarrow> devs \<Rightarrow> u32" where
  "host_uart_dropped n d = (case uart_lookup n d of None \<Rightarrow> 0 | Some i \<Rightarrow> ub_dropped (d_uart d ! i))"

section \<open>The module's half\<close>

definition checked_uart :: "int \<Rightarrow> dhost \<Rightarrow> nat option" where
  "checked_uart n s =
     (if \<not> mdl_caller_declared (me s) (h_slots s) KIND_UART (of_int n) then None
      else case uart_lookup n (h_devs s) of None \<Rightarrow> None
        | Some i \<Rightarrow> if ub_open (d_uart (h_devs s) ! i) then Some i else None)"

definition host_uart_loopback_impl :: "int \<Rightarrow> bool \<Rightarrow> dhost \<Rightarrow> int \<times> dhost" where
  "host_uart_loopback_impl n enable s = (case checked_uart n s of
     None \<Rightarrow> (-1, s)
   | Some i \<Rightarrow> let u = d_uart (h_devs s) ! i in
       (0, s\<lparr>h_devs := upd_uart i (\<lambda>u. u\<lparr>ub_head := 0, ub_tail := 0, ub_dropped := 0\<rparr>)
         (hw [PinInit [ub_tx_pin u] FUNC_MUX (if enable then OUT_OPEN_DRAIN else OUT_PUSH_PULL) (if enable then PULL_UP else PULL_NONE),
              UsartEnable (ub_periph u) False, UsartHalfDuplex (ub_periph u) enable, UsartEnable (ub_periph u) True] (h_devs s))\<rparr>))"

definition host_uart_config_impl :: "int \<Rightarrow> u32 \<Rightarrow> dhost \<Rightarrow> int \<times> dhost" where
  "host_uart_config_impl n baud s = (case checked_uart n s of
     None \<Rightarrow> (-1, s)
   | Some i \<Rightarrow>
       if baud < 1200 \<or> 3000000 < baud then (-1, s)
       else let u = (d_uart (h_devs s) ! i)\<lparr>ub_baud := baud\<rparr> in
         (0, s\<lparr>h_devs := hw (uart_apply u) (upd_uart i (\<lambda>_. u) (h_devs s))\<rparr>))"

fun uart_send_all :: "vendor \<Rightarrow> string \<Rightarrow> bytes \<Rightarrow> devs \<Rightarrow> int \<times> devs" where
  "uart_send_all v p [] d = (0, d)"
| "uart_send_all v p (c # cs) d =
     (if poll (v_flag v p ''TDBE'' (d_ops d)) 0 UART_TX_TIMEOUT_LOOPS then uart_send_all v p cs (hw [UsartSend p c] d)
      else (-2, d))"

definition host_uart_write_impl :: "vendor \<Rightarrow> int \<Rightarrow> addr \<Rightarrow> u32 \<Rightarrow> dhost \<Rightarrow> int \<times> dhost" where
  "host_uart_write_impl v n data len s = (case checked_uart n s of
     None \<Rightarrow> (-1, s)
   | Some i \<Rightarrow>
       if len = 0 \<or> UART_MAX_WRITE < unat len then (-1, s)
       else if \<not> host_ptr_owned_by_module s data (unat len) then (-1, s)
       else case uart_send_all v (ub_periph (d_uart (h_devs s) ! i)) (mem_read (h_mem s) data (unat len)) (h_devs s) of
         (r, d) \<Rightarrow> (r, s\<lparr>h_devs := d\<rparr>))"

fun uart_drain :: "nat \<Rightarrow> uart_bus \<Rightarrow> bytes \<times> uart_bus" where
  "uart_drain 0 u = ([], u)"
| "uart_drain (Suc k) u = (case uart_get u of
     (None, u1) \<Rightarrow> ([], u1)
   | (Some b, u1) \<Rightarrow> (case uart_drain k u1 of (bs, u2) \<Rightarrow> (b # bs, u2)))"

definition host_uart_read_impl :: "int \<Rightarrow> addr \<Rightarrow> u32 \<Rightarrow> dhost \<Rightarrow> int \<times> dhost" where
  "host_uart_read_impl n data maxlen s = (case checked_uart n s of
     None \<Rightarrow> (-1, s)
   | Some i \<Rightarrow>
       if maxlen = 0 \<or> UART_MAX_WRITE < unat maxlen then (-1, s)
       else if \<not> host_ptr_owned_by_module s data (unat maxlen) then (-1, s)
       else case uart_drain (unat maxlen) (d_uart (h_devs s) ! i) of (bs, u1) \<Rightarrow>
         (int (length bs), s\<lparr>h_mem := mem_write data bs (h_mem s), h_devs := upd_uart i (\<lambda>_. u1) (h_devs s)\<rparr>))"

definition host_uart_config :: "int \<Rightarrow> u32 \<Rightarrow> dhost \<Rightarrow> int \<times> dhost" where
  "host_uart_config n baud = fed_gate (host_uart_config_impl n baud)"

definition host_uart_write :: "vendor \<Rightarrow> int \<Rightarrow> addr \<Rightarrow> u32 \<Rightarrow> dhost \<Rightarrow> int \<times> dhost" where
  "host_uart_write v n data len = fed_gate (host_uart_write_impl v n data len)"

definition host_uart_loopback :: "int \<Rightarrow> bool \<Rightarrow> dhost \<Rightarrow> int \<times> dhost" where
  "host_uart_loopback n enable = fed_gate (host_uart_loopback_impl n enable)"

definition host_uart_read :: "int \<Rightarrow> addr \<Rightarrow> u32 \<Rightarrow> dhost \<Rightarrow> int \<times> dhost" where
  "host_uart_read n data maxlen = fed_gate (host_uart_read_impl n data maxlen)"

section \<open>The ring is a bounded queue\<close>

definition ring_ok :: "uart_bus \<Rightarrow> bool" where
  "ring_ok u \<longleftrightarrow> length (ub_ring u) = UART_RX_RING \<and> ub_head u < UART_RX_RING \<and> ub_tail u < UART_RX_RING"

definition ring_items :: "uart_bus \<Rightarrow> bytes" where
  "ring_items u = map ((!) (ub_ring u)) (ring_idx UART_RX_RING (ub_tail u) (ring_used u))"

lemma ring_used_eq:
  assumes "ring_ok u"
  shows "ring_used u = (if ub_tail u \<le> ub_head u then ub_head u - ub_tail u else 256 + ub_head u - ub_tail u)" "ring_used u < 256"
    "(ub_tail u + ring_used u) mod 256 = ub_head u"
proof -
  have b: "ub_head u < 256" "ub_tail u < 256" using assms by (simp_all add: ring_ok_def)
  show e: "ring_used u = (if ub_tail u \<le> ub_head u then ub_head u - ub_tail u else 256 + ub_head u - ub_tail u)"
  proof (cases "ub_tail u \<le> ub_head u")
    case True
    then show ?thesis using b by (simp add: ring_used_def)
  next
    case False
    then have "ub_head u + (2 ^ 32 - ub_tail u) = (256 + ub_head u - ub_tail u) + 256 * (2 ^ 24 - 1)" using b by simp
    moreover have "ub_head u + (2 ^ 32 - ub_tail u) < 2 ^ 32" using False b by simp
    ultimately have "sub32 (ub_head u) (ub_tail u) = (256 + ub_head u - ub_tail u) + 256 * (2 ^ 24 - 1)" by (simp add: sub32_def)
    then have "ring_used u = (256 + ub_head u - ub_tail u) mod 256" by (simp only: ring_used_def mod_mult_self2)
    then show ?thesis using False b by simp
  qed
  show "ring_used u < 256" by (simp add: ring_used_def)
  show "(ub_tail u + ring_used u) mod 256 = ub_head u" unfolding e using b by (auto simp: le_mod_geq)
qed

lemma length_ring_items [simp]: "length (ring_items u) = ring_used u"
  by (simp add: ring_items_def)

lemma uart_put_spec:
  assumes "ring_ok u"
  shows "ring_ok (snd (uart_put b u))" "fst (uart_put b u) \<longleftrightarrow> ring_used u < 255"
    "ring_items (snd (uart_put b u)) = ring_items u @ (if fst (uart_put b u) then [b] else [])"
    "ub_dropped (snd (uart_put b u)) = ub_dropped u + (if fst (uart_put b u) then 0 else 1)"
proof -
  have b: "ub_head u < 256" "ub_tail u < 256" "length (ub_ring u) = 256" using assms by (simp_all add: ring_ok_def)
  note r = ring_used_eq [OF assms]
  show ok: "ring_ok (snd (uart_put b u))" using b by (auto simp: uart_put_def ring_ok_def Let_def)
  have full: "(ub_head u + 1) mod 256 = ub_tail u \<longleftrightarrow> ring_used u = 255"
    unfolding r(1) using b by (auto simp: mod_if split: if_splits)
  show f: "fst (uart_put b u) \<longleftrightarrow> ring_used u < 255" using full r(2) by (auto simp: uart_put_def Let_def)
  show "ub_dropped (snd (uart_put b u)) = ub_dropped u + (if fst (uart_put b u) then 0 else 1)" by (simp add: uart_put_def Let_def)
  show "ring_items (snd (uart_put b u)) = ring_items u @ (if fst (uart_put b u) then [b] else [])"
  proof (cases "ring_used u = 255")
    case True
    then have p: "uart_put b u = (False, u\<lparr>ub_dropped := ub_dropped u + 1\<rparr>)" using full by (simp add: uart_put_def)
    show ?thesis unfolding p by (simp add: ring_items_def ring_used_def)
  next
    case False
    define u1 where "u1 = u\<lparr>ub_ring := (ub_ring u)[ub_head u := b], ub_head := (ub_head u + 1) mod 256\<rparr>"
    have p: "uart_put b u = (True, u1)" using full False by (simp add: uart_put_def u1_def Let_def)
    have used: "ring_used u1 = Suc (ring_used u)"
    proof -
      have ok1: "ring_ok u1" using ok p by simp
      show ?thesis
        unfolding ring_used_eq(1) [OF ok1] r(1) using b full False r(1)
        by (auto simp: u1_def mod_if split: if_splits)
    qed
    have "ub_head u \<notin> set (ring_idx 256 (ub_tail u) (ring_used u))"
      using ring_idx_tail [of "ring_used u" 256 "ub_tail u"] r(2,3) by simp
    then have "map ((!) (ub_ring u1)) (ring_idx 256 (ub_tail u) (ring_used u)) = ring_items u"
      by (simp add: u1_def ring_items_def map_list_update_notin)
    then have "ring_items u1 = ring_items u @ [b]"
      using r(3) b unfolding ring_items_def [of u1] used by (simp add: ring_idx_Suc) (simp add: u1_def)
    then show ?thesis unfolding p by simp
  qed
qed

lemma uart_get_spec:
  assumes "ring_ok u"
  shows "ring_ok (snd (uart_get u))" "ring_items u = [] \<Longrightarrow> uart_get u = (None, u)"
    "ring_items u = e # es \<Longrightarrow> fst (uart_get u) = Some e \<and> ring_items (snd (uart_get u)) = es"
proof -
  have b: "ub_head u < 256" "ub_tail u < 256" using assms by (simp_all add: ring_ok_def)
  note r = ring_used_eq [OF assms]
  have empty: "ring_used u = 0 \<longleftrightarrow> ub_tail u = ub_head u" unfolding r(1) using b by auto
  show ok: "ring_ok (snd (uart_get u))" using assms by (auto simp: uart_get_def ring_ok_def)
  have len: "length (ring_items u) = ring_used u" by simp
  show "ring_items u = [] \<Longrightarrow> uart_get u = (None, u)" using len empty by (simp add: uart_get_def)
  assume it: "ring_items u = e # es"
  then obtain c where c: "ring_used u = Suc c" using len by (cases "ring_used u") auto
  then have ne: "ub_tail u \<noteq> ub_head u" using empty by simp
  define u1 where "u1 = u\<lparr>ub_tail := (ub_tail u + 1) mod 256\<rparr>"
  have g: "uart_get u = (Some (ub_ring u ! ub_tail u), u1)" using ne by (simp add: uart_get_def u1_def)
  have ok1: "ring_ok u1" using ok g by simp
  have used: "ring_used u1 = c"
    using c unfolding ring_used_eq(1) [OF ok1] r(1) using b ne by (auto simp: u1_def mod_if split: if_splits)
  have "ring_items u = ub_ring u ! ub_tail u # map ((!) (ub_ring u)) (ring_idx 256 ((ub_tail u + 1) mod 256) c)"
    unfolding ring_items_def c ring_idx_Cons using b by simp
  moreover have "ring_items u1 = map ((!) (ub_ring u)) (ring_idx 256 ((ub_tail u + 1) mod 256) c)"
    unfolding ring_items_def used by (simp add: u1_def)
  ultimately show "fst (uart_get u) = Some e \<and> ring_items (snd (uart_get u)) = es" using it g by simp
qed

interpretation rxq: bounded_queue ring_ok ring_items "\<lambda>_. 255" uart_put uart_get
proof unfold_locales
  fix u :: uart_bus and b :: u8 and es
  assume ok: "ring_ok u"
  note p = uart_put_spec [OF ok, of b] and g = uart_get_spec [OF ok]
  show "ring_ok (snd (uart_put b u))" by (rule p(1))
  show "ring_items (snd (uart_put b u)) = ring_items u @ (if fst (uart_put b u) then [b] else [])" by (rule p(3))
  show "fst (uart_put b u) = (length (ring_items u) < 255)" using p(2) by simp
  show "ring_ok (snd (uart_get u))" by (rule g(1))
  show "ring_items u = [] \<Longrightarrow> uart_get u = (None, u)" by (rule g(2))
  show "ring_items u = b # es \<Longrightarrow> fst (uart_get u) = Some b \<and> ring_items (snd (uart_get u)) = es" by (rule g(3))
  show "length (ring_items u) \<le> 255" using ring_used_eq(2) [OF ok] by simp
qed simp_all

section \<open>The driver's contract\<close>

text \<open>The table keeps its rows, and no two open rows share a peripheral.\<close>

definition uart_inv :: "devs \<Rightarrow> bool" where
  "uart_inv d \<longleftrightarrow> map (\<lambda>u. (ub_instance u, ub_periph u)) (d_uart d) = [(2, ''USART2''), (4, ''USART2''), (3, ''USART3'')]
     \<and> \<not> (ub_open (d_uart d ! 0) \<and> ub_open (d_uart d ! 1)) \<and> (\<forall>u \<in> set (d_uart d). ring_ok u)"

definition uart_open :: "u8 \<Rightarrow> devs \<Rightarrow> bool" where
  "uart_open n d \<longleftrightarrow> (\<exists>u \<in> set (d_uart d). ub_instance u = n \<and> ub_open u)"

lemma uart_invE:
  assumes "uart_inv d"
  obtains a b c where "d_uart d = [a, b, c]" "ub_instance a = 2" "ub_instance b = 4" "ub_instance c = 3"
    "ub_periph a = ''USART2''" "ub_periph b = ''USART2''" "ub_periph c = ''USART3''" "\<not> (ub_open a \<and> ub_open b)"
    "ring_ok a" "ring_ok b" "ring_ok c"
proof -
  have m: "map (\<lambda>u. (ub_instance u, ub_periph u)) (d_uart d) = [(2, ''USART2''), (4, ''USART2''), (3, ''USART3'')]"
    using assms by (simp add: uart_inv_def)
  have "length (d_uart d) = 0 + Suc 0 + Suc 0 + Suc 0" using arg_cong [OF m, of length] by (simp only: length_map list.size)
  then have "length (d_uart d) = Suc (Suc (Suc 0))" by simp
  then obtain a b c where abc: "d_uart d = [a, b, c]" by (auto simp: length_Suc_conv)
  then show thesis using that [OF abc] m assms by (auto simp: uart_inv_def)
qed

lemma upd_uart_simps [simp]:
  "d_uart (upd_uart i f d) = (d_uart d)[i := f (d_uart d ! i)]" "d_i2c (upd_uart i f d) = d_i2c d"
  "d_adc (upd_uart i f d) = d_adc d" "s_adc_up (upd_uart i f d) = s_adc_up d" "d_spi (upd_uart i f d) = d_spi d"
  "d_ops (upd_uart i f d) = d_ops d" "d_tx (upd_uart i f d) = d_tx d"
  by (simp_all add: upd_uart_def)

lemma ring_ok_fields:
  "ring_ok u \<Longrightarrow> ring_ok (u\<lparr>ub_head := 0, ub_tail := 0, ub_dropped := 0, ub_open := True\<rparr>)"
  "ring_ok u \<Longrightarrow> ring_ok (u\<lparr>ub_open := False, ub_head := 0, ub_tail := 0\<rparr>)"
  by (simp_all add: ring_ok_def)

lemma uart_lookup_rows:
  fixes n :: u8
  assumes "d_uart d = [a, b, c]" "ub_instance a = 2" "ub_instance b = 4" "ub_instance c = 3"
  shows "uart_lookup (uint n) d = (if n = 2 then Some 0 else if n = 4 then Some 1 else if n = 3 then Some 2 else None)"
  using assms by (auto simp: uart_lookup_def)

lemma host_uart_claim_spec:
  assumes "uart_inv d" "host_uart_claim v (uint n) d = (ok, d')"
  shows "uart_inv d' \<and> (ok \<longleftrightarrow> uart_open n d') \<and> (\<forall>j. j \<noteq> n \<or> uart_open j d \<longrightarrow> uart_open j d' = uart_open j d)"
proof -
  obtain a b c where abc: "d_uart d = [a, b, c]" "ub_instance a = 2" "ub_instance b = 4" "ub_instance c = 3"
    "ub_periph a = ''USART2''" "ub_periph b = ''USART2''" "ub_periph c = ''USART3''" "\<not> (ub_open a \<and> ub_open b)"
    "ring_ok a" "ring_ok b" "ring_ok c" by (rule uart_invE [OF assms(1)])
  note look = uart_lookup_rows [OF abc(1-4)]
  consider "n = 2" | "n = 4" | "n = 3" | "n \<noteq> 2" "n \<noteq> 4" "n \<noteq> 3" by blast
  then show ?thesis
  proof cases
    case 4
    then have "ok = False" "d' = d" using assms(2) look [of n] by (simp_all add: host_uart_claim_def)
    then show ?thesis using 4 assms(1) abc by (auto simp: uart_open_def)
  qed (use assms(2) look [of n] abc in
      \<open>auto simp: host_uart_claim_def Let_def uart_inv_def uart_open_def ring_ok_fields split: if_splits\<close>)
qed

lemma host_uart_release_spec:
  assumes "uart_inv d"
  shows "uart_inv (host_uart_release (uint n) d) \<and> \<not> uart_open n (host_uart_release (uint n) d)
    \<and> (\<forall>j. j \<noteq> n \<longrightarrow> uart_open j (host_uart_release (uint n) d) = uart_open j d)"
proof -
  obtain a b c where abc: "d_uart d = [a, b, c]" "ub_instance a = 2" "ub_instance b = 4" "ub_instance c = 3"
    "ub_periph a = ''USART2''" "ub_periph b = ''USART2''" "ub_periph c = ''USART3''" "\<not> (ub_open a \<and> ub_open b)"
    "ring_ok a" "ring_ok b" "ring_ok c" by (rule uart_invE [OF assms(1)])
  note look = uart_lookup_rows [OF abc(1-4)]
  consider "n = 2" | "n = 4" | "n = 3" | "n \<noteq> 2" "n \<noteq> 4" "n \<noteq> 3" by blast
  then show ?thesis
    by cases (use look [of n] abc in
      \<open>auto simp: host_uart_release_def Let_def uart_inv_def uart_open_def ring_ok_fields split: if_splits\<close>)
qed

interpretation uart: periph_driver uart_inv uart_open "\<lambda>n d. Some (host_uart_claim v (uint n) d)" "\<lambda>n. host_uart_release (uint n)" for v
proof
  fix d d' :: devs and n j :: u8 and ok
  assume inv: "uart_inv d"
  {
    assume "Some (host_uart_claim v (uint n) d) = Some (ok, d')"
    then show "uart_inv d'" "ok = uart_open n d'" using host_uart_claim_spec [OF inv] by simp_all
  }
  {
    assume "Some (host_uart_claim v (uint n) d) = Some (ok, d')" "j \<noteq> n \<or> uart_open j d"
    then show "uart_open j d' = uart_open j d" using host_uart_claim_spec [OF inv] by simp
  }
  show "uart_inv (host_uart_release (uint n) d)" "\<not> uart_open n (host_uart_release (uint n) d)"
    using host_uart_release_spec [OF inv] by simp_all
  show "uart_open j (host_uart_release (uint n) d) = uart_open j d" if "j \<noteq> n"
    using host_uart_release_spec [OF inv, of n] that by simp
qed

lemma uart_only:
  "d_i2c (snd (host_uart_claim v n d)) = d_i2c d" "d_adc (snd (host_uart_claim v n d)) = d_adc d"
  "s_adc_up (snd (host_uart_claim v n d)) = s_adc_up d" "d_spi (snd (host_uart_claim v n d)) = d_spi d"
  "d_i2c (host_uart_release n d) = d_i2c d" "d_adc (host_uart_release n d) = d_adc d"
  "s_adc_up (host_uart_release n d) = s_adc_up d" "d_spi (host_uart_release n d) = d_spi d"
  by (simp_all add: host_uart_claim_def host_uart_release_def Let_def split: option.split)

section \<open>The stream a module reads\<close>

text \<open>How many bytes of a history the ring refused.\<close>

lemma uart_put_dropped:
  assumes "ring_ok u"
  shows "ub_dropped (snd (uart_put b u)) = ub_dropped u + (if ring_used u < 255 then 0 else 1)"
  using uart_put_spec(2,4) [OF assms, of b] by simp

lemma uart_get_dropped: "ub_dropped (snd (uart_get u)) = ub_dropped u"
  by (simp add: uart_get_def)

fun arrived :: "u8 qop list \<Rightarrow> bytes" where
  "arrived [] = []"
| "arrived (Put b # ops) = b # arrived ops"
| "arrived (Get # ops) = arrived ops"

lemma uart_history:
  assumes "ring_ok u" "run_queue uart_put uart_get ops u = (a, t, u')"
  shows "ub_dropped u' = ub_dropped u + of_nat (length (arrived ops) - length a) \<and> length a \<le> length (arrived ops)"
  using assms
proof (induction ops arbitrary: u a t u')
  case (Cons op ops)
  show ?case
  proof (cases op)
    case (Put b)
    obtain ok u1 where p: "uart_put b u = (ok, u1)" by fastforce
    obtain a1 t1 u2 where r: "run_queue uart_put uart_get ops u1 = (a1, t1, u2)" by (cases "run_queue uart_put uart_get ops u1")
    have u1: "ring_ok u1" "ub_dropped u1 = ub_dropped u + (if ok then 0 else 1)"
      using uart_put_spec(1,4) [OF Cons.prems(1), of b] p by simp_all
    have res: "u' = u2" "a = (if ok then b # a1 else a1)" using Cons.prems(2) p r Put by auto
    note IH = Cons.IH [OF u1(1) r]
    show ?thesis
    proof (cases ok)
      case True
      then show ?thesis using IH u1(2) res Put by simp
    next
      case False
      have "Suc (length (arrived ops)) - length a1 = Suc (length (arrived ops) - length a1)" using IH by (simp add: Suc_diff_le)
      then show ?thesis using IH u1(2) res Put False by simp
    qed
  next
    case Get
    obtain x u1 where g: "uart_get u = (x, u1)" by fastforce
    obtain a1 t1 u2 where r: "run_queue uart_put uart_get ops u1 = (a1, t1, u2)" by (cases "run_queue uart_put uart_get ops u1")
    have u1: "ring_ok u1" "ub_dropped u1 = ub_dropped u"
      using uart_get_spec(1) [OF Cons.prems(1)] uart_get_dropped [of u] g by simp_all
    show ?thesis using Cons.IH [OF u1(1) r] u1(2) Cons.prems(2) g r Get by simp
  qed
qed simp

text \<open>C26: What a module reads from a UART is a prefix of what was accepted, in order, and every byte that is missing was
  counted. For any interleaving of received bytes and reads on an open, empty ring: nothing is reordered,
  duplicated or invented; at most 255 bytes wait; and \<open>dropped\<close> grew by exactly the number of bytes that arrived
  and were not accepted.\<close>

theorem uart_stream_accounted:
  assumes "ring_ok u" "ring_items u = []" "run_queue uart_put uart_get ops u = (accepted, got, u')"
  shows "got = take (length got) accepted \<and> length accepted - length got \<le> 255
    \<and> ub_dropped u' = ub_dropped u + of_nat (length (arrived ops) - length accepted)"
  using rxq.delivered_prefix [OF assms] uart_history [OF assms(1,3)] by blast

lemma uart_drain_spec:
  assumes "ring_ok u"
  shows "case uart_drain k u of (bs, u') \<Rightarrow> ring_ok u' \<and> bs = take k (ring_items u) \<and> ring_items u' = drop k (ring_items u)
    \<and> ub_instance u' = ub_instance u \<and> ub_open u' = ub_open u"
  using assms
proof (induction k arbitrary: u)
  case (Suc k)
  note g = uart_get_spec [OF Suc.prems]
  show ?case
  proof (cases "ring_items u")
    case Nil
    then show ?thesis using g(2) Suc.prems by simp
  next
    case (Cons b bs)
    obtain u1 where u1: "uart_get u = (Some b, u1)" "ring_items u1 = bs" "ring_ok u1"
      using g(1) g(3) [OF Cons] by (cases "uart_get u") auto
    have "ub_instance u1 = ub_instance u" "ub_open u1 = ub_open u" using u1(1) by (auto simp: uart_get_def split: if_splits)
    then show ?thesis using Suc.IH [OF u1(3)] u1 Cons by (auto split: prod.splits)
  qed
qed simp

text \<open>A read that is permitted.\<close>

definition may_read :: "int \<Rightarrow> addr \<Rightarrow> u32 \<Rightarrow> dhost \<Rightarrow> nat option" where
  "may_read n data len s = (if 0 < unat len \<and> unat len \<le> 256 \<and> ptr_owned_by_module s data (unat len) then checked_uart n s else None)"

lemma checked_uart_priv [simp]: "checked_uart n (s\<lparr>privileged := b\<rparr>) = checked_uart n s"
  by (auto simp: checked_uart_def split: option.split)

text \<open>A module reads exactly the oldest bytes of its own ring. A permitted read returns as many bytes as asked for or
  as there are, whichever is less, puts those bytes at the module's buffer and nothing anywhere else, and
  leaves the later ones in order. A read of a UART the caller did not declare or that is not open, or with
  a bad length or a buffer outside the module's memory, returns -1 and changes no memory, no ring.\<close>

theorem host_uart_read_exact:
  assumes "uart_inv (h_devs s)" "\<not> privileged s"
  shows "case host_uart_read n data len s of (r, s') \<Rightarrow> \<not> privileged s' \<and>
    (case may_read n data len s of
       None \<Rightarrow> r = -1 \<and> h_devs s' = h_devs s \<and> h_mem s' = h_mem s
     | Some i \<Rightarrow>
         let old = ring_items (d_uart (h_devs s) ! i); k = min (unat len) (length old) in
         r = int k \<and> mem_read (h_mem s') data k = take k old
         \<and> (\<forall>x. x < data \<or> data + k \<le> x \<longrightarrow> h_mem s' x = h_mem s x)
         \<and> ring_items (d_uart (h_devs s') ! i) = drop k old
         \<and> (\<forall>j. j \<noteq> i \<longrightarrow> d_uart (h_devs s') ! j = d_uart (h_devs s) ! j) \<and> d_ops (h_devs s') = d_ops (h_devs s))"
proof -
  let ?s = "s\<lparr>privileged := True\<rparr>"
  obtain r s1 where run: "host_uart_read_impl n data len ?s = (r, s1)" by (cases "host_uart_read_impl n data len ?s")
  note gate = fed_gate_run [where body = "host_uart_read_impl n data len", OF run]
  obtain g where g: "host_uart_read n data len s = (r, g)" "h_devs g = h_devs s1" "h_mem g = h_mem s1" "\<not> privileged g"
    using gate assms(2) by (cases "fed_gate (host_uart_read_impl n data len) s") (simp add: host_uart_read_def)
  have len0: "len = 0 \<longleftrightarrow> unat len = 0" by (simp add: unat_eq_zero)
  show ?thesis
  proof (cases "may_read n data len s")
    case None
    then have "host_uart_read_impl n data len ?s = (-1, ?s)"
      using len0 by (auto simp: may_read_def host_uart_read_impl_def host_ptr_owned_by_module_def split: option.split if_splits)
    then show ?thesis using None run g by simp
  next
    case (Some i)
    let ?u = "d_uart (h_devs s) ! i"
    have c: "checked_uart n s = Some i" "0 < unat len" "unat len \<le> 256" "ptr_owned_by_module s data (unat len)"
      using Some by (auto simp: may_read_def split: if_splits)
    have "find_idx (\<lambda>u. ub_instance u = of_int n) (d_uart (h_devs s)) = Some i"
      using c(1) by (auto simp: checked_uart_def uart_lookup_def split: if_splits option.splits)
    then have i: "i < length (d_uart (h_devs s))" by (rule find_idx_Some [THEN conjunct1])
    then have ok: "ring_ok ?u" using assms(1) by (auto simp: uart_inv_def)
    obtain bs u' where d: "uart_drain (unat len) ?u = (bs, u')" by (cases "uart_drain (unat len) ?u")
    have dr: "bs = take (unat len) (ring_items ?u)" "ring_items u' = drop (unat len) (ring_items ?u)"
      using uart_drain_spec [OF ok, of "unat len"] d by simp_all
    have "host_uart_read_impl n data len ?s = (int (length bs), ?s\<lparr>h_mem := mem_write data bs (h_mem s), h_devs := upd_uart i (\<lambda>_. u') (h_devs s)\<rparr>)"
      using c d len0 by (auto simp: host_uart_read_impl_def host_ptr_owned_by_module_def)
    then have r: "r = int (length bs)" "h_mem s1 = mem_write data bs (h_mem s)" "h_devs s1 = upd_uart i (\<lambda>_. u') (h_devs s)"
      using run by auto
    have k: "length bs = min (unat len) (length (ring_items ?u))" using dr(1) by (simp add: min.commute)
    have bs: "bs = take (min (unat len) (length (ring_items ?u))) (ring_items ?u)" using dr(1) by (simp add: min_def)
    have rd: "mem_read (mem_write data bs (h_mem s)) data (length bs) = bs"
      by (rule nth_equalityI) simp_all
    show ?thesis
      unfolding g(1) prod.case Some option.case Let_def g(2,3) r
      using rd k bs dr(2) i g(4) by (auto simp: mem_write_outside min_def)
  qed
qed

section \<open>Concrete instances\<close>

definition uart_devs :: devs where
  "uart_devs = \<lparr>d_tx = [], d_ops = [], d_i2c = [], d_uart = g_uarts, d_adc = [], s_adc_up = False, d_spi = []\<rparr>"

lemma uart_row_simps [simp]:
  "ub_instance (uart_row n p g t r) = n" "ub_periph (uart_row n p g t r) = p" "\<not> ub_open (uart_row n p g t r)"
  "ub_tail (uart_row n p g t r) = 0" "ub_head (uart_row n p g t r) = 0" "ring_ok (uart_row n p g t r)"
  by (simp_all add: uart_row_def ring_ok_def)

lemma uart_devs_inv: "uart_inv uart_devs"
  by (simp add: uart_inv_def uart_devs_def g_uarts_def)

lemma ring_items_empty: "ub_head u = ub_tail u \<Longrightarrow> ub_tail u < 256 \<Longrightarrow> ring_items u = []"
  by (simp add: ring_items_def ring_used_def)

theorem uart_stream_accounted_witness:
  "\<exists>a t u'. run_queue uart_put uart_get [Put 5, Put 6, Get] (g_uarts ! 0) = (a, t, u') \<and> t = take (length t) a"
proof -
  obtain a t u' where r: "run_queue uart_put uart_get [Put 5, Put 6, Get] (g_uarts ! 0) = (a, t, u')"
    by (cases "run_queue uart_put uart_get [Put 5, Put 6, Get] (g_uarts ! 0)")
  have "ring_ok (g_uarts ! 0)" "ring_items (g_uarts ! 0) = []" by (simp_all add: g_uarts_def ring_items_empty)
  from uart_stream_accounted [OF this r] r show ?thesis by blast
qed

theorem host_uart_read_exact_witness:
  "fst (host_uart_read 2 0x20020400 4 (dhost0 KIND_UART 2 (snd (host_uart_claim vendor0 2 uart_devs)))) = 0"
proof -
  let ?d = "snd (host_uart_claim vendor0 2 uart_devs)"
  let ?s = "dhost0 KIND_UART 2 ?d"
  have inv: "uart_inv (h_devs ?s)"
    using host_uart_claim_spec [OF uart_devs_inv, of vendor0 2] by (cases "host_uart_claim vendor0 2 uart_devs") simp
  have d: "d_uart ?d ! 0 = (g_uarts ! 0)\<lparr>ub_head := 0, ub_tail := 0, ub_dropped := 0, ub_open := True\<rparr>" "uart_lookup 2 ?d = Some 0"
    by (simp_all add: host_uart_claim_def uart_lookup_def uart_devs_def g_uarts_def Let_def)
  have may: "may_read 2 0x20020400 4 ?s = Some 0"
    using d by (simp add: may_read_def checked_uart_def dhost0_declared dhost0_owned)
  have "ring_items (d_uart (h_devs ?s) ! 0) = []" unfolding dhost0_simps d(1) by (rule ring_items_empty) simp_all
  then show ?thesis using host_uart_read_exact [OF inv, where n = 2 and data = "0x20020400" and len = 4] may by (auto split: prod.splits)
qed

end
