(* ===== verification/Host_Adc.thy ===== *)
theory Host_Adc
  imports Periph_Spec
begin

text \<open>
  \<open>src/mdl/host/host_adc.c\<close> and the gated ADC entries of \<open>host_api.c\<close>: one converter shared by the claimed channels,
  brought up with the first and shut down with the last, and a reading in millivolts against the
  internal reference. The bring-up waits for the converter without a bound.
\<close>

abbreviation ADC_POLL_LIMIT :: nat where "ADC_POLL_LIMIT \<equiv> 200000"
abbreviation ADC_VREF_CHANNEL :: u8 where "ADC_VREF_CHANNEL \<equiv> 17"
abbreviation ADC_VREF_MV :: u32 where "ADC_VREF_MV \<equiv> 1200"

definition adc_row :: "u8 \<Rightarrow> u8 \<Rightarrow> string \<Rightarrow> bool \<Rightarrow> adc_ch" where
  "adc_row ch pin gc conf = \<lparr>ac_channel = ch, ac_pin = pin, ac_gpio_clock = gc, ac_confirmed = conf, ac_claimed = False\<rparr>"

definition g_chans :: "adc_ch list" where
  "g_chans = [adc_row 0 (MDL_PIN 0 0) ''GPIOA'' True, adc_row 1 (MDL_PIN 0 1) ''GPIOA'' True, adc_row 4 (MDL_PIN 0 4) ''GPIOA'' True,
     adc_row 5 (MDL_PIN 0 5) ''GPIOA'' True, adc_row 10 (MDL_PIN 2 0) ''GPIOC'' False, adc_row 11 (MDL_PIN 2 1) ''GPIOC'' False,
     adc_row 12 (MDL_PIN 2 2) ''GPIOC'' False, adc_row 13 (MDL_PIN 2 3) ''GPIOC'' False, adc_row 14 (MDL_PIN 2 4) ''GPIOC'' False,
     adc_row 15 (MDL_PIN 2 5) ''GPIOC'' False]"

definition chan_lookup :: "int \<Rightarrow> devs \<Rightarrow> nat option" where
  "chan_lookup ch d = find_idx (\<lambda>c. ac_channel c = of_int ch) (d_adc d)"

definition set_claimed :: "nat \<Rightarrow> bool \<Rightarrow> devs \<Rightarrow> devs" where
  "set_claimed i b d = d\<lparr>d_adc := (d_adc d)[i := (d_adc d ! i)\<lparr>ac_claimed := b\<rparr>]\<rparr>"

text \<open>\<open>None\<close>: one of the three waits never ends.\<close>

definition adc_bring_up :: "vendor \<Rightarrow> devs \<Rightarrow> devs option" where
  "adc_bring_up v d =
     (if s_adc_up d then Some d
      else
        let d1 = hw [Clock ''ADC1'' True, AdcCommonConfig, AdcBaseConfig, AdcResolution, AdcTrigger, AdcEnable True] d in
        do {
          _ \<leftarrow> wait_until (v_flag v ''ADC1'' ''RDY'' (d_ops d1)) 0;
          let d2 = hw [AdcCalInit] d1;
          _ \<leftarrow> wait_until (\<lambda>k. \<not> v_flag v ''ADC1'' ''CALINIT'' (d_ops d2) k) 0;
          let d3 = hw [AdcCalStart] d2;
          _ \<leftarrow> wait_until (\<lambda>k. \<not> v_flag v ''ADC1'' ''CAL'' (d_ops d3) k) 0;
          Some (d3\<lparr>s_adc_up := True\<rparr>)
        })"

definition convert_once :: "vendor \<Rightarrow> u8 \<Rightarrow> devs \<Rightarrow> int \<times> devs" where
  "convert_once v ch d =
     (let d1 = hw [AdcChannel ch, AdcClear, AdcSoftTrigger True] d in
      if poll (v_flag v ''ADC1'' ''OCCE'' (d_ops d1)) 0 ADC_POLL_LIMIT then
        let d2 = hw [AdcSoftTrigger False, AdcData] d1 in (uint (v_conv v (d_ops d2)), d2)
      else (-1, hw [AdcSoftTrigger False] d1))"

definition host_adc_claim :: "vendor \<Rightarrow> int \<Rightarrow> devs \<Rightarrow> (bool \<times> devs) option" where
  "host_adc_claim v ch d = (case chan_lookup ch d of
     None \<Rightarrow> Some (False, say [puts ''[host] adc: no such channel on this board'', crlf] d)
   | Some i \<Rightarrow>
       let c = d_adc d ! i in
       if ac_claimed c then Some (True, d)
       else
         let d1 = (if \<not> ac_confirmed c then say [puts ''[host] adc: channel pin mapping not example-confirmed'', crlf] d else d);
             d2 = hw [Clock (ac_gpio_clock c) True, PinInit [ac_pin c] FUNC_ANALOG OUT_DEFAULT PULL_NONE] d1
         in do { d3 \<leftarrow> adc_bring_up v d2; Some (True, set_claimed i True d3) })"

definition host_adc_release :: "int \<Rightarrow> devs \<Rightarrow> devs" where
  "host_adc_release ch d = (case chan_lookup ch d of
     None \<Rightarrow> d
   | Some i \<Rightarrow>
       let c = d_adc d ! i in
       if \<not> ac_claimed c then d
       else
         let d1 = set_claimed i False (hw [PinInit [ac_pin c] FUNC_INPUT OUT_DEFAULT PULL_NONE] d) in
         if \<exists>c \<in> set (d_adc d1). ac_claimed c then d1
         else (hw [AdcEnable False, Clock ''ADC1'' False] d1)\<lparr>s_adc_up := False\<rparr>)"

definition checked_chan :: "int \<Rightarrow> dhost \<Rightarrow> nat option" where
  "checked_chan ch s =
     (if \<not> mdl_caller_declared (me s) (h_slots s) KIND_ADC (of_int ch) then None
      else case chan_lookup ch (h_devs s) of None \<Rightarrow> None
        | Some i \<Rightarrow> if ac_claimed (d_adc (h_devs s) ! i) \<and> s_adc_up (h_devs s) then Some i else None)"

definition host_adc_read_impl :: "vendor \<Rightarrow> int \<Rightarrow> dhost \<Rightarrow> int \<times> dhost" where
  "host_adc_read_impl v ch s = (case checked_chan ch s of
     None \<Rightarrow> (-1, s)
   | Some i \<Rightarrow> (case convert_once v (ac_channel (d_adc (h_devs s) ! i)) (h_devs s) of (raw, d) \<Rightarrow>
       (if raw < 0 then -2 else raw, s\<lparr>h_devs := d\<rparr>)))"

definition host_adc_read_mv_impl :: "vendor \<Rightarrow> int \<Rightarrow> dhost \<Rightarrow> int \<times> dhost" where
  "host_adc_read_mv_impl v ch s = (case checked_chan ch s of
     None \<Rightarrow> (-1, s)
   | Some i \<Rightarrow> (case convert_once v (ac_channel (d_adc (h_devs s) ! i)) (h_devs s) of (raw, d) \<Rightarrow>
       if raw < 0 then (-2, s\<lparr>h_devs := d\<rparr>)
       else (case convert_once v ADC_VREF_CHANNEL d of (ref, d') \<Rightarrow>
         if ref \<le> 0 then (-2, s\<lparr>h_devs := d'\<rparr>)
         else (sint ((of_int raw * ADC_VREF_MV) div (of_int ref :: u32)), s\<lparr>h_devs := d'\<rparr>))))"

definition host_adc_read :: "vendor \<Rightarrow> int \<Rightarrow> dhost \<Rightarrow> int \<times> dhost" where
  "host_adc_read v ch = fed_gate (host_adc_read_impl v ch)"

definition host_adc_read_mv :: "vendor \<Rightarrow> int \<Rightarrow> dhost \<Rightarrow> int \<times> dhost" where
  "host_adc_read_mv v ch = fed_gate (host_adc_read_mv_impl v ch)"

text \<open>For the console: the channel, the port's letter, the pin's number, whether it is confirmed; \<open>None\<close> is -1. The number is
  found by trying the bits of the pin mask.\<close>

definition host_adc_describe :: "int \<Rightarrow> devs \<Rightarrow> (u8 \<times> string \<times> nat option \<times> bool) option" where
  "host_adc_describe k d =
     (if k < 0 \<or> int (length (d_adc d)) \<le> k then None
      else let c = d_adc d ! nat k; mask = push_bit (unat (ac_pin c AND 15)) (1 :: u16) in
        Some (ac_channel c, if drop_bit 4 (ac_pin c) = 0 then ''A'' else ''C'', find (\<lambda>b. mask = push_bit b 1) [0 ..< 16], ac_confirmed c))"

section \<open>The driver's contract\<close>

text \<open>The rows are those of the board, and the converter is up exactly while a channel is claimed.\<close>

definition adc_inv :: "devs \<Rightarrow> bool" where
  "adc_inv d \<longleftrightarrow> map ac_channel (d_adc d) = map ac_channel g_chans \<and> (s_adc_up d \<longleftrightarrow> (\<exists>c \<in> set (d_adc d). ac_claimed c))"

definition adc_open :: "u8 \<Rightarrow> devs \<Rightarrow> bool" where
  "adc_open n d \<longleftrightarrow> (\<exists>c \<in> set (d_adc d). ac_channel c = n \<and> ac_claimed c)"

lemma chan_distinct: "distinct (map ac_channel g_chans)"
  by (simp add: g_chans_def adc_row_def)

lemma chan_lookup_u8: "chan_lookup (uint n) d = find_idx (\<lambda>c. ac_channel c = n) (d_adc d)"
  by (simp add: chan_lookup_def)

lemma set_claimed_simps [simp]:
  "d_adc (set_claimed i b d) = (d_adc d)[i := (d_adc d ! i)\<lparr>ac_claimed := b\<rparr>]" "d_i2c (set_claimed i b d) = d_i2c d"
  "d_uart (set_claimed i b d) = d_uart d" "s_adc_up (set_claimed i b d) = s_adc_up d" "d_spi (set_claimed i b d) = d_spi d"
  "d_ops (set_claimed i b d) = d_ops d" "d_tx (set_claimed i b d) = d_tx d"
  by (simp_all add: set_claimed_def)

lemma adc_bring_up_spec:
  assumes "adc_bring_up v d = Some d'"
  shows "s_adc_up d'" "d_adc d' = d_adc d" "d_i2c d' = d_i2c d" "d_uart d' = d_uart d" "d_spi d' = d_spi d"
  using assms by (auto simp: adc_bring_up_def Let_def split: if_splits bind_splits)

lemma host_adc_claim_cases:
  assumes "host_adc_claim v (uint n) d = Some (ok, d')"
  obtains (missing) "find_idx (\<lambda>c. ac_channel c = n) (d_adc d) = None" "\<not> ok" "d_adc d' = d_adc d" "s_adc_up d' = s_adc_up d"
  | (held) i where "find_idx (\<lambda>c. ac_channel c = n) (d_adc d) = Some i" "ac_claimed (d_adc d ! i)" "ok" "d' = d"
  | (fresh) i where "find_idx (\<lambda>c. ac_channel c = n) (d_adc d) = Some i" "\<not> ac_claimed (d_adc d ! i)" "ok" "s_adc_up d'"
      "d_adc d' = (d_adc d)[i := (d_adc d ! i)\<lparr>ac_claimed := True\<rparr>]"
proof (cases "find_idx (\<lambda>c. ac_channel c = n) (d_adc d)")
  case None
  then show thesis using assms by (intro missing) (auto simp: host_adc_claim_def chan_lookup_u8)
next
  case (Some i)
  show thesis
  proof (cases "ac_claimed (d_adc d ! i)")
    case True
    then show thesis using assms Some by (intro held) (auto simp: host_adc_claim_def chan_lookup_u8)
  next
    case False
    define d1 where "d1 = (if \<not> ac_confirmed (d_adc d ! i) then say [puts ''[host] adc: channel pin mapping not example-confirmed'', crlf] d else d)"
    define d2 where "d2 = hw [Clock (ac_gpio_clock (d_adc d ! i)) True, PinInit [ac_pin (d_adc d ! i)] FUNC_ANALOG OUT_DEFAULT PULL_NONE] d1"
    have d2: "d_adc d2 = d_adc d" by (simp add: d2_def d1_def)
    obtain d3 where u: "adc_bring_up v d2 = Some d3" "ok" "d' = set_claimed i True d3"
      using assms Some False by (auto simp: host_adc_claim_def chan_lookup_u8 d1_def d2_def Let_def split: bind_splits)
    show thesis using adc_bring_up_spec [OF u(1)] u d2 Some False by (intro fresh) simp_all
  qed
qed

lemma host_adc_claim_spec:
  assumes "adc_inv d" "host_adc_claim v (uint n) d = Some (ok, d')"
  shows "adc_inv d' \<and> (ok \<longleftrightarrow> adc_open n d') \<and> (\<forall>j. j \<noteq> n \<or> adc_open j d \<longrightarrow> adc_open j d' = adc_open j d)"
proof -
  have dis: "distinct (map ac_channel (d_adc d))" using assms(1) chan_distinct by (simp add: adc_inv_def)
  from assms(2) show ?thesis
  proof (cases rule: host_adc_claim_cases)
    case missing
    then show ?thesis using assms(1) table_missing [OF missing(1)] by (auto simp: adc_inv_def adc_open_def)
  next
    case (held i)
    have "adc_open n d" using table_found [OF dis held(1), of ac_claimed] held
      by (auto simp: adc_open_def)
    then show ?thesis using held assms(1) by simp
  next
    case (fresh i)
    let ?y = "(d_adc d ! i)\<lparr>ac_claimed := True\<rparr>"
    have y: "ac_channel ?y = n" using find_idx_Some [OF fresh(1)] by simp
    note t = table_update(1) [OF dis fresh(1) y, where P = ac_claimed] table_update(2) [OF dis fresh(1) y]
    have "adc_open j d' = (if j = n then True else adc_open j d)" for j
      using t(1) [of j] fresh by (simp add: adc_open_def)
    moreover have "?y \<in> set (d_adc d')" using fresh find_idx_Some [OF fresh(1)] by (simp add: set_update_memI)
    then have "\<exists>c \<in> set (d_adc d'). ac_claimed c" by force
    moreover have "map ac_channel (d_adc d') = map ac_channel g_chans" using t(2) fresh assms(1) by (simp add: adc_inv_def)
    ultimately show ?thesis using fresh by (auto simp: adc_inv_def)
  qed
qed

lemma host_adc_release_spec:
  assumes "adc_inv d"
  shows "adc_inv (host_adc_release (uint n) d) \<and> \<not> adc_open n (host_adc_release (uint n) d)
    \<and> (\<forall>j. j \<noteq> n \<longrightarrow> adc_open j (host_adc_release (uint n) d) = adc_open j d)"
proof -
  have dis: "distinct (map ac_channel (d_adc d))" using assms chan_distinct by (simp add: adc_inv_def)
  show ?thesis
  proof (cases "find_idx (\<lambda>c. ac_channel c = n) (d_adc d)")
    case None
    then show ?thesis using assms table_missing [OF None] by (auto simp: host_adc_release_def chan_lookup_u8 adc_open_def)
  next
    case (Some i)
    let ?y = "(d_adc d ! i)\<lparr>ac_claimed := False\<rparr>"
    have y: "ac_channel ?y = n" using find_idx_Some [OF Some] by simp
    note t = table_update(1) [OF dis Some y, where P = ac_claimed] table_update(2) [OF dis Some y]
    show ?thesis
    proof (cases "ac_claimed (d_adc d ! i)")
      case False
      then have "host_adc_release (uint n) d = d" using Some by (simp add: host_adc_release_def chan_lookup_u8)
      then show ?thesis using assms table_found [OF dis Some, of ac_claimed] False by (auto simp: adc_open_def)
    next
      case True
      let ?d' = "host_adc_release (uint n) d"
      have tab: "d_adc ?d' = (d_adc d)[i := ?y]" using Some True by (simp add: host_adc_release_def chan_lookup_u8 Let_def)
      have up: "s_adc_up ?d' \<longleftrightarrow> s_adc_up d \<and> (\<exists>c \<in> set (d_adc ?d'). ac_claimed c)"
        using Some True by (auto simp: host_adc_release_def chan_lookup_u8 Let_def)
      have "s_adc_up d" using assms True find_idx_Some [OF Some] by (auto simp: adc_inv_def)
      moreover have "adc_open j ?d' = (if j = n then False else adc_open j d)" for j
        using t(1) [of j] tab by (simp add: adc_open_def)
      ultimately show ?thesis using up tab t(2) assms by (simp add: adc_inv_def)
    qed
  qed
qed

interpretation adc: periph_driver adc_inv adc_open "\<lambda>n. host_adc_claim v (uint n)" "\<lambda>n. host_adc_release (uint n)" for v
proof
  fix d d' :: devs and n j :: u8 and ok
  assume inv: "adc_inv d"
  {
    assume c: "host_adc_claim v (uint n) d = Some (ok, d')"
    show "adc_inv d'" "ok = adc_open n d'" using host_adc_claim_spec [OF inv c] by simp_all
    assume "j \<noteq> n \<or> adc_open j d"
    then show "adc_open j d' = adc_open j d" using host_adc_claim_spec [OF inv c] by simp
  }
  show "adc_inv (host_adc_release (uint n) d)" "\<not> adc_open n (host_adc_release (uint n) d)"
    using host_adc_release_spec [OF inv] by simp_all
  show "adc_open j (host_adc_release (uint n) d) = adc_open j d" if "j \<noteq> n"
    using host_adc_release_spec [OF inv, of n] that by simp
qed

lemma adc_only:
  "host_adc_claim v n d = Some (ok, d') \<Longrightarrow> d_i2c d' = d_i2c d \<and> d_uart d' = d_uart d \<and> d_spi d' = d_spi d"
  "d_i2c (host_adc_release n d) = d_i2c d" "d_uart (host_adc_release n d) = d_uart d" "d_spi (host_adc_release n d) = d_spi d"
proof -
  show "host_adc_claim v n d = Some (ok, d') \<Longrightarrow> d_i2c d' = d_i2c d \<and> d_uart d' = d_uart d \<and> d_spi d' = d_spi d"
    by (auto simp: host_adc_claim_def Let_def split: option.splits if_splits bind_splits dest: adc_bring_up_spec(3-5))
  show "d_i2c (host_adc_release n d) = d_i2c d" "d_uart (host_adc_release n d) = d_uart d" "d_spi (host_adc_release n d) = d_spi d"
    by (simp_all add: host_adc_release_def Let_def split: option.split)
qed

section \<open>Bring-up and readings\<close>

text \<open>The calls of the bring-up, up to each of its waits.\<close>

definition adc_start_ops :: "dev_op list" where
  "adc_start_ops = [Clock ''ADC1'' True, AdcCommonConfig, AdcBaseConfig, AdcResolution, AdcTrigger, AdcEnable True]"

lemma adc_bring_up_returns:
  "adc_bring_up v d = None \<longleftrightarrow> \<not> s_adc_up d \<and>
     \<not> ((\<exists>k. v_flag v ''ADC1'' ''RDY'' (d_ops d @ adc_start_ops) k)
       \<and> (\<exists>k. \<not> v_flag v ''ADC1'' ''CALINIT'' (d_ops d @ adc_start_ops @ [AdcCalInit]) k)
       \<and> (\<exists>k. \<not> v_flag v ''ADC1'' ''CAL'' (d_ops d @ adc_start_ops @ [AdcCalInit, AdcCalStart]) k))"
proof -
  have w: "wait_until f 0 = None \<longleftrightarrow> \<not> (\<exists>k. f k)" for f using wait_until_ends [of f 0] by auto
  show ?thesis
    by (auto simp: adc_bring_up_def Let_def adc_start_ops_def bind_eq_None_conv w)
qed


lemma convert_once_cases:
  obtains (timeout) "convert_once v ch d = (-1, hw [AdcChannel ch, AdcClear, AdcSoftTrigger True, AdcSoftTrigger False] d)"
  | (ended) d' where "convert_once v ch d = (uint (v_conv v (d_ops d')), d')"
      "d' = hw [AdcChannel ch, AdcClear, AdcSoftTrigger True, AdcSoftTrigger False, AdcData] d"
proof -
  have h: "hw a (hw b d) = hw (b @ a) d" for a b by (simp add: hw_def)
  let ?ops = "d_ops d @ [AdcChannel ch, AdcClear, AdcSoftTrigger True]"
  show thesis
  proof (cases "poll (v_flag v ''ADC1'' ''OCCE'' ?ops) 0 ADC_POLL_LIMIT")
    case True
    show ?thesis by (rule ended [OF _ refl]) (use True in \<open>simp add: convert_once_def Let_def h\<close>)
  next
    case False
    show ?thesis by (rule timeout) (use False in \<open>simp add: convert_once_def Let_def h\<close>)
  qed
qed

lemma checked_chan_priv [simp]: "checked_chan ch (s\<lparr>privileged := b\<rparr>) = checked_chan ch s"
  by (auto simp: checked_chan_def split: option.split)

lemma mv_exact:
  assumes "0 \<le> raw" "raw < 65536" "0 < ref" "ref < 65536"
  shows "sint ((of_int raw * ADC_VREF_MV) div (of_int ref :: u32)) = raw * 1200 div ref"
proof -
  have p: "uint (of_int raw * 1200 :: u32) = raw * 1200"
    using assms by (simp add: uint_word_ariths(3) uint_word_of_int)
  have r: "uint (of_int ref :: u32) = ref" using assms by (simp add: uint_word_of_int)
  have q: "uint ((of_int raw * 1200) div (of_int ref :: u32)) = raw * 1200 div ref"
    by (simp only: uint_div p r)
  have "raw * 1200 div ref \<le> raw * 1200" using zdiv_mono2 [of "raw * 1200" 1 ref] assms by simp
  then have "raw * 1200 div ref < 2 ^ 31" using assms by simp
  moreover have "0 \<le> raw * 1200 div ref" using assms by (simp add: pos_imp_zdiv_nonneg_iff)
  ultimately show ?thesis using q by (simp add: sint_uint signed_take_bit_int_eq_self)
qed

text \<open>A reading in millivolts is exact and needs no knowledge of the supply. For a channel the caller declared and
  the host holds, the result is the quotient \<open>raw * 1200 / ref\<close> of the two conversions, rounded down, with no
  overflow for any 16-bit values; it is -2 when either conversion does not complete or the reference reads
  zero; without the declaration or the claim it is -1 and the converter is not touched.\<close>

theorem host_adc_read_mv_exact:
  "case host_adc_read_mv v ch s of (r, s') \<Rightarrow> h_mem s' = h_mem s \<and>
    (case checked_chan ch s of
       None \<Rightarrow> r = -1 \<and> h_devs s' = h_devs s
     | Some i \<Rightarrow>
         (case convert_once v (ac_channel (d_adc (h_devs s) ! i)) (h_devs s) of (raw, d1) \<Rightarrow>
            case convert_once v ADC_VREF_CHANNEL d1 of (ref, d2) \<Rightarrow>
              r = (if 0 \<le> raw \<and> 0 < ref then raw * 1200 div ref else -2)))"
proof -
  let ?s = "s\<lparr>privileged := True\<rparr>"
  obtain r s1 where run: "host_adc_read_mv_impl v ch ?s = (r, s1)" by (cases "host_adc_read_mv_impl v ch ?s")
  obtain g where g: "host_adc_read_mv v ch s = (r, g)" "h_devs g = h_devs s1" "h_mem g = h_mem s1"
    using fed_gate_run [where body = "host_adc_read_mv_impl v ch", OF run]
    by (cases "fed_gate (host_adc_read_mv_impl v ch) s") (simp add: host_adc_read_mv_def)
  show ?thesis
  proof (cases "checked_chan ch s")
    case None
    then have "r = -1" "s1 = ?s" using run by (auto simp: host_adc_read_mv_impl_def)
    then show ?thesis using None g by simp
  next
    case (Some i)
    obtain raw d1 where a: "convert_once v (ac_channel (d_adc (h_devs s) ! i)) (h_devs s) = (raw, d1)" by fastforce
    obtain ref d2 where b: "convert_once v ADC_VREF_CHANNEL d1 = (ref, d2)" by fastforce
    have "raw < 65536"
    proof (cases rule: convert_once_cases [of v "ac_channel (d_adc (h_devs s) ! i)" "h_devs s"])
      case (ended d')
      then show ?thesis using a uint_lt2p [of "v_conv v (d_ops d')"] by auto
    qed (use a in simp)
    moreover have "ref < 65536"
    proof (cases rule: convert_once_cases [of v ADC_VREF_CHANNEL d1])
      case (ended d')
      then show ?thesis using b uint_lt2p [of "v_conv v (d_ops d')"] by auto
    qed (use b in simp)
    ultimately have "r = (if 0 \<le> raw \<and> 0 < ref then raw * 1200 div ref else -2) \<and> h_mem s1 = h_mem s"
      using run Some a b mv_exact [of raw ref] by (auto simp: host_adc_read_mv_impl_def split: if_splits)
    then show ?thesis using a b g Some by simp
  qed
qed

section \<open>Concrete instances\<close>


end
