(* ===== verification/Host_Spi.thy ===== *)
theory Host_Spi
  imports Periph_Spec
begin

text \<open>
  \<open>src/mdl/host/host_spi.c\<close> and the gated SPI entries of \<open>host_api.c\<close>: the choice of the clock divider, bring-up of
  the one bus, and the full-duplex transfer, byte by byte on the module's memory.
\<close>

abbreviation SPI_POLL_LIMIT :: nat where "SPI_POLL_LIMIT \<equiv> 2000000"
abbreviation SPI_MAX_LEN :: nat where "SPI_MAX_LEN \<equiv> 256"
abbreviation SPI_DEFAULT_HZ :: u32 where "SPI_DEFAULT_HZ \<equiv> 1000000"
abbreviation SPI_PCLK_HZ :: nat where "SPI_PCLK_HZ \<equiv> 144000000"

definition g_spis :: "spi_bus list" where
  "g_spis = [\<lparr>sb_instance = 3, sb_open = False, sb_mode = 0, sb_hz = SPI_DEFAULT_HZ\<rparr>]"

definition spi_lookup :: "int \<Rightarrow> devs \<Rightarrow> nat option" where
  "spi_lookup n d = find_idx (\<lambda>b. sb_instance b = of_int n) (d_spi d)"

definition upd_spi :: "nat \<Rightarrow> (spi_bus \<Rightarrow> spi_bus) \<Rightarrow> devs \<Rightarrow> devs" where
  "upd_spi i f d = d\<lparr>d_spi := (d_spi d)[i := f (d_spi d ! i)]\<rparr>"

text \<open>The dividers of the table, fastest first, and the choice: divider and achieved speed.\<close>

definition spi_divs :: "nat list" where
  "spi_divs = [2, 3, 4, 8, 16, 32, 64, 128, 256, 512]"

definition div_for :: "u32 \<Rightarrow> nat \<times> u32" where
  "div_for want = (case find (\<lambda>dv. SPI_PCLK_HZ div dv \<le> unat want) spi_divs of
     Some dv \<Rightarrow> (dv, of_nat (SPI_PCLK_HZ div dv))
   | None \<Rightarrow> (last spi_divs, of_nat (SPI_PCLK_HZ div last spi_divs)))"

text \<open>Polarity high? and second edge? of a mode.\<close>

definition spi_mode_bits :: "u8 \<Rightarrow> bool \<times> bool" where
  "spi_mode_bits m = (if m = 1 then (False, True) else if m = 2 then (True, False) else if m = 3 then (True, True) else (False, False))"

definition spi_apply :: "spi_bus \<Rightarrow> dev_op list \<times> spi_bus" where
  "spi_apply b = (case spi_mode_bits (sb_mode b) of (pol, pha) \<Rightarrow> case div_for (sb_hz b) of (dv, got) \<Rightarrow>
     ([SpiEnable (sb_instance b) False, SpiInit (sb_instance b) pol pha dv, SpiCsHigh (sb_instance b), SpiEnable (sb_instance b) True],
      b\<lparr>sb_hz := got\<rparr>))"

text \<open>SCK, MISO and MOSI of SPI3 are PB3, PB4 and PB5.\<close>

definition host_spi_claim :: "vendor \<Rightarrow> int \<Rightarrow> devs \<Rightarrow> bool \<times> devs" where
  "host_spi_claim v n d = (case spi_lookup n d of
     None \<Rightarrow> (False, d)
   | Some i \<Rightarrow>
       if sb_open (d_spi d ! i) then (True, d)
       else if unat (v_apb1 v) \<noteq> SPI_PCLK_HZ then
         (False, say [puts ''[host] spi: APB1 is '', console_put_u32 (v_apb1 v), puts '' Hz, but the divider table assumes '',
            console_put_u32 (of_nat SPI_PCLK_HZ), puts '' Hz -- refusing rather than reporting wrong speeds'', crlf] d)
       else (case spi_apply ((d_spi d ! i)\<lparr>sb_mode := 0, sb_hz := SPI_DEFAULT_HZ\<rparr>) of (ops, b) \<Rightarrow>
         (True, upd_spi i (\<lambda>_. b\<lparr>sb_open := True\<rparr>)
            (hw ([Clock ''GPIOB'' True, Clock ''SPI3'' True, PinInit [MDL_PIN 1 3, MDL_PIN 1 5] FUNC_MUX OUT_PUSH_PULL PULL_NONE,
                  PinInit [MDL_PIN 1 4] FUNC_MUX OUT_PUSH_PULL PULL_UP, PinMux (MDL_PIN 1 3) 6, PinMux (MDL_PIN 1 4) 6,
                  PinMux (MDL_PIN 1 5) 6] @ ops) d))))"

definition host_spi_release :: "int \<Rightarrow> devs \<Rightarrow> devs" where
  "host_spi_release n d = (case spi_lookup n d of
     None \<Rightarrow> d
   | Some i \<Rightarrow>
       let b = d_spi d ! i in
       if \<not> sb_open b then d
       else upd_spi i (\<lambda>b. b\<lparr>sb_open := False\<rparr>)
         (hw [SpiEnable (sb_instance b) False, SpiReset (sb_instance b), Clock ''SPI3'' False,
              PinInit [MDL_PIN 1 3, MDL_PIN 1 4, MDL_PIN 1 5] FUNC_INPUT OUT_DEFAULT PULL_NONE] d))"

definition host_spi_describe :: "int \<Rightarrow> devs \<Rightarrow> (u8 \<times> u32 \<times> u8) option" where
  "host_spi_describe k d =
     (if k < 0 \<or> int (length (d_spi d)) \<le> k then None
      else let b = d_spi d ! nat k in Some (sb_instance b, sb_hz b, sb_mode b))"

definition checked_spi :: "int \<Rightarrow> dhost \<Rightarrow> nat option" where
  "checked_spi n s =
     (if \<not> mdl_caller_declared (me s) (h_slots s) KIND_SPI (of_int n) then None
      else case spi_lookup n (h_devs s) of None \<Rightarrow> None
        | Some i \<Rightarrow> if sb_open (d_spi (h_devs s) ! i) then Some i else None)"

definition host_spi_config_impl :: "int \<Rightarrow> int \<Rightarrow> u32 \<Rightarrow> dhost \<Rightarrow> int \<times> dhost" where
  "host_spi_config_impl n mode hz s = (case checked_spi n s of
     None \<Rightarrow> (-1, s)
   | Some i \<Rightarrow>
       if mode < 0 \<or> 3 < mode \<or> hz = 0 then (-1, s)
       else (case spi_apply ((d_spi (h_devs s) ! i)\<lparr>sb_mode := of_int mode, sb_hz := hz\<rparr>) of (ops, b) \<Rightarrow>
         (sint (sb_hz b), s\<lparr>h_devs := hw ops (upd_spi i (\<lambda>_. b) (h_devs s))\<rparr>)))"

text \<open>
  The transfer loop: \<open>k\<close> bytes to go, the next at offset \<open>i\<close>. It reads the byte to send from memory when its
  turn comes, after the earlier answers were stored. A buffer at 0 is absent. The result says whether every wait
  came through.
\<close>

fun spi_loop :: "vendor \<Rightarrow> u8 \<Rightarrow> addr \<Rightarrow> addr \<Rightarrow> nat \<Rightarrow> nat \<Rightarrow> mem \<Rightarrow> devs \<Rightarrow> bool \<times> mem \<times> devs" where
  "spi_loop v n tx rx 0 i mm d = (True, mm, d)"
| "spi_loop v n tx rx (Suc k) i mm d =
     (if \<not> poll (v_flag v ''SPI3'' ''TDBE'' (d_ops d)) 0 SPI_POLL_LIMIT then (False, mm, d)
      else
        let d1 = hw [SpiSend n (if tx \<noteq> 0 then mm (tx + i) else 0)] d in
        if \<not> poll (v_flag v ''SPI3'' ''RDBF'' (d_ops d1)) 0 SPI_POLL_LIMIT then (False, mm, d1)
        else
          let d2 = hw [SpiRecv n] d1; got = v_data v (d_ops d2) in
          spi_loop v n tx rx k (Suc i) (if rx \<noteq> 0 then mm(rx + i := got) else mm) d2)"

definition host_spi_transfer_impl :: "vendor \<Rightarrow> int \<Rightarrow> addr \<Rightarrow> addr \<Rightarrow> u32 \<Rightarrow> dhost \<Rightarrow> int \<times> dhost" where
  "host_spi_transfer_impl v n tx rx len s = (case checked_spi n s of
     None \<Rightarrow> (-1, s)
   | Some i \<Rightarrow>
       if len = 0 \<or> SPI_MAX_LEN < unat len then (-1, s)
       else if tx = 0 \<and> rx = 0 then (-1, s)
       else if tx \<noteq> 0 \<and> \<not> host_ptr_owned_by_module s tx (unat len) then (-1, s)
       else if rx \<noteq> 0 \<and> \<not> host_ptr_owned_by_module s rx (unat len) then (-1, s)
       else (case spi_loop v (sb_instance (d_spi (h_devs s) ! i)) tx rx (unat len) 0 (h_mem s) (h_devs s) of (ok, mm, d) \<Rightarrow>
         (if \<not> ok then -2
          else if poll (\<lambda>k. \<not> v_flag v ''SPI3'' ''BF'' (d_ops d) k) 0 SPI_POLL_LIMIT then 0 else -2,
          s\<lparr>h_mem := mm, h_devs := d\<rparr>)))"

definition host_spi_config :: "int \<Rightarrow> int \<Rightarrow> u32 \<Rightarrow> dhost \<Rightarrow> int \<times> dhost" where
  "host_spi_config n mode hz = fed_gate (host_spi_config_impl n mode hz)"

definition host_spi_transfer :: "vendor \<Rightarrow> int \<Rightarrow> addr \<Rightarrow> addr \<Rightarrow> u32 \<Rightarrow> dhost \<Rightarrow> int \<times> dhost" where
  "host_spi_transfer v n tx rx len = fed_gate (host_spi_transfer_impl v n tx rx len)"

section \<open>The divider\<close>

lemma spi_divs_hz:
  "sorted_wrt (\<lambda>a b. SPI_PCLK_HZ div b < SPI_PCLK_HZ div a) spi_divs" "d \<in> set spi_divs \<Longrightarrow> SPI_PCLK_HZ div d < 2 ^ 32"
  "last spi_divs = 512" "SPI_PCLK_HZ div 512 = 281250" "512 \<in> set spi_divs"
  by (auto simp: spi_divs_def)

text \<open>Searching a table that gets smaller: what is found is the largest entry within the bound.\<close>

lemma find_largest:
  fixes f :: "'a \<Rightarrow> nat"
  assumes "sorted_wrt (\<lambda>a b. f b < f a) xs" "find (\<lambda>x. f x \<le> n) xs = Some d"
  shows "d \<in> set xs" "f d \<le> n" "e \<in> set xs \<Longrightarrow> f e \<le> n \<Longrightarrow> f e \<le> f d"
  using assms by (induction xs) (auto split: if_splits)

text \<open>C38: The bus never runs faster than asked. For every requested speed that the slowest divider can reach, the achieved
  speed is at most the requested one and is the fastest of the table's that is; below that the slowest
  divider is used.\<close>

theorem div_for_rounds_down:
  "case div_for want of (dv, got) \<Rightarrow> dv \<in> set spi_divs \<and> unat got = SPI_PCLK_HZ div dv
    \<and> (if 281250 \<le> unat want then got \<le> want \<and> \<not> (\<exists>e \<in> set spi_divs. SPI_PCLK_HZ div e \<le> unat want \<and> unat got < SPI_PCLK_HZ div e)
       else dv = 512)"
proof (cases "find (\<lambda>dv. SPI_PCLK_HZ div dv \<le> unat want) spi_divs")
  case None
  then have "\<not> SPI_PCLK_HZ div 512 \<le> unat want" using spi_divs_hz(5) unfolding find_None_iff by blast
  then show ?thesis using None by (simp add: div_for_def spi_divs_hz)
next
  case (Some dv)
  note d = find_largest [OF spi_divs_hz(1) Some]
  have u: "unat (of_nat (SPI_PCLK_HZ div dv) :: u32) = SPI_PCLK_HZ div dv"
    using spi_divs_hz(2) [OF d(1)] by (simp add: unat_of_nat)
  have "dv = 512" if "\<not> 281250 \<le> unat want"
    using d(1,2) that by (auto simp: spi_divs_def)
  then show ?thesis using d u by (fastforce simp: div_for_def Some word_le_nat_alt)
qed

section \<open>The driver's contract\<close>

definition spi_inv :: "devs \<Rightarrow> bool" where
  "spi_inv d \<longleftrightarrow> map sb_instance (d_spi d) = [3]"

definition spi_open :: "u8 \<Rightarrow> devs \<Rightarrow> bool" where
  "spi_open n d \<longleftrightarrow> (\<exists>b \<in> set (d_spi d). sb_instance b = n \<and> sb_open b)"

lemma spi_invE:
  assumes "spi_inv d"
  obtains b where "d_spi d = [b]" "sb_instance b = 3"
  using assms by (auto simp: spi_inv_def)

lemma spi_apply_keeps:
  "spi_apply b = (ops, b') \<Longrightarrow> sb_instance b' = sb_instance b" "spi_apply b = (ops, b') \<Longrightarrow> sb_open b' = sb_open b"
  by (auto simp: spi_apply_def split: prod.splits)

lemma upd_spi_simps [simp]:
  "d_spi (upd_spi i f d) = (d_spi d)[i := f (d_spi d ! i)]" "d_uart (upd_spi i f d) = d_uart d" "d_adc (upd_spi i f d) = d_adc d"
  "s_adc_up (upd_spi i f d) = s_adc_up d" "d_i2c (upd_spi i f d) = d_i2c d" "d_ops (upd_spi i f d) = d_ops d" "d_tx (upd_spi i f d) = d_tx d"
  by (simp_all add: upd_spi_def)

lemma host_spi_claim_spec:
  assumes "spi_inv d" "host_spi_claim v (uint n) d = (ok, d')"
  shows "spi_inv d' \<and> (ok \<longleftrightarrow> spi_open n d') \<and> (\<forall>j. j \<noteq> n \<or> spi_open j d \<longrightarrow> spi_open j d' = spi_open j d)"
proof -
  obtain b where b: "d_spi d = [b]" "sb_instance b = 3" by (rule spi_invE [OF assms(1)])
  show ?thesis using assms(2) b
    by (cases "n = 3")
      (auto simp: host_spi_claim_def spi_lookup_def spi_inv_def spi_open_def split: if_splits prod.splits dest: spi_apply_keeps)
qed

lemma host_spi_release_spec:
  assumes "spi_inv d"
  shows "spi_inv (host_spi_release (uint n) d) \<and> \<not> spi_open n (host_spi_release (uint n) d)
    \<and> (\<forall>j. j \<noteq> n \<longrightarrow> spi_open j (host_spi_release (uint n) d) = spi_open j d)"
proof -
  obtain b where b: "d_spi d = [b]" "sb_instance b = 3" by (rule spi_invE [OF assms])
  show ?thesis using b
    by (cases "n = 3") (auto simp: host_spi_release_def spi_lookup_def spi_inv_def spi_open_def Let_def split: if_splits)
qed

interpretation spi: periph_driver spi_inv spi_open "\<lambda>n d. Some (host_spi_claim v (uint n) d)" "\<lambda>n. host_spi_release (uint n)" for v
proof
  fix d d' :: devs and n j :: u8 and ok
  assume inv: "spi_inv d"
  {
    assume "Some (host_spi_claim v (uint n) d) = Some (ok, d')"
    then show "spi_inv d'" "ok = spi_open n d'" using host_spi_claim_spec [OF inv] by simp_all
  }
  {
    assume "Some (host_spi_claim v (uint n) d) = Some (ok, d')" "j \<noteq> n \<or> spi_open j d"
    then show "spi_open j d' = spi_open j d" using host_spi_claim_spec [OF inv] by simp
  }
  show "spi_inv (host_spi_release (uint n) d)" "\<not> spi_open n (host_spi_release (uint n) d)"
    using host_spi_release_spec [OF inv] by simp_all
  show "spi_open j (host_spi_release (uint n) d) = spi_open j d" if "j \<noteq> n"
    using host_spi_release_spec [OF inv, of n] that by simp
qed

lemma spi_only:
  "d_uart (snd (host_spi_claim v n d)) = d_uart d" "d_adc (snd (host_spi_claim v n d)) = d_adc d"
  "s_adc_up (snd (host_spi_claim v n d)) = s_adc_up d" "d_i2c (snd (host_spi_claim v n d)) = d_i2c d"
  "d_uart (host_spi_release n d) = d_uart d" "d_adc (host_spi_release n d) = d_adc d"
  "s_adc_up (host_spi_release n d) = s_adc_up d" "d_i2c (host_spi_release n d) = d_i2c d"
  by (simp_all add: host_spi_claim_def host_spi_release_def Let_def split: option.split prod.split)

section \<open>The transfer\<close>

text \<open>The exchange of \<open>k\<close> bytes from offset \<open>i\<close>: each byte out is followed by its byte in.\<close>

fun spi_pairs :: "u8 \<Rightarrow> (nat \<Rightarrow> u8) \<Rightarrow> nat \<Rightarrow> nat \<Rightarrow> dev_op list" where
  "spi_pairs n out i 0 = []"
| "spi_pairs n out i (Suc k) = SpiSend n (out i) # SpiRecv n # spi_pairs n out (Suc i) k"

lemma spi_loop_confined:
  "spi_loop v n tx rx k i mm d = (ok, mm', d') \<Longrightarrow> mm' x \<noteq> mm x \<Longrightarrow> rx \<noteq> 0 \<and> rx + i \<le> x \<and> x < rx + i + k"
proof (induction k arbitrary: i mm d)
  case (Suc k)
  show ?case
  proof (cases "poll (v_flag v ''SPI3'' ''TDBE'' (d_ops d)) 0 SPI_POLL_LIMIT")
    case True
    show ?thesis
      using Suc.prems Suc.IH True by (fastforce simp: Let_def simp del: poll.simps split: if_splits)
  qed (use Suc.prems in \<open>simp del: poll.simps\<close>)
qed simp

lemma spi_loop_paired:
  assumes "spi_loop v n tx rx k i mm d = (True, mm', d')" "tx = 0 \<or> rx = 0 \<or> \<not> (tx < rx \<and> rx < tx + i + k)"
    "\<And>j. tx \<noteq> 0 \<Longrightarrow> i \<le> j \<Longrightarrow> j < i + k \<Longrightarrow> mm (tx + j) = out j" "\<And>j. tx = 0 \<Longrightarrow> out j = 0"
  shows "d_ops d' = d_ops d @ spi_pairs n out i k
    \<and> (rx \<noteq> 0 \<longrightarrow> (\<forall>j < k. mm' (rx + i + j) = v_data v (d_ops d @ spi_pairs n out i (Suc j))))"
  using assms
proof (induction k arbitrary: i mm d)
  case (Suc k)
  define d2 where "d2 = hw [SpiRecv n] (hw [SpiSend n (if tx \<noteq> 0 then mm (tx + i) else 0)] d)"
  define got where "got = v_data v (d_ops d2)"
  define mm2 where "mm2 = (if rx \<noteq> 0 then mm(rx + i := got) else mm)"
  have o: "(if tx \<noteq> 0 then mm (tx + i) else 0) = out i" 
  proof (cases "tx = 0")
    case True
    then show ?thesis using Suc.prems(4) [OF True, of i] by simp
  next
    case False
    then show ?thesis using Suc.prems(3) [OF False, of i] by simp
  qed
  have d2: "d_ops d2 = d_ops d @ [SpiSend n (out i), SpiRecv n]" unfolding d2_def o by simp
  have run: "spi_loop v n tx rx k (Suc i) mm2 d2 = (True, mm', d')"
    using Suc.prems(1) by (simp add: d2_def got_def mm2_def Let_def del: poll.simps split: if_splits)
  have clash: "tx = 0 \<or> rx = 0 \<or> \<not> (tx < rx \<and> rx < tx + Suc i + k)" using Suc.prems(2) by simp
  have later: "mm2 (tx + j) = out j" if "tx \<noteq> 0" "Suc i \<le> j" "j < Suc i + k" for j
    using Suc.prems(2) Suc.prems(3) [of j] that by (auto simp: mm2_def)
  note IH = Suc.IH [OF run clash later Suc.prems(4)]
  have first: "mm' (rx + i) = got" if "rx \<noteq> 0"
    using spi_loop_confined [OF run, of "rx + i"] that by (fastforce simp: mm2_def)
  show ?case
  proof (intro conjI impI allI)
    show "d_ops d' = d_ops d @ spi_pairs n out i (Suc k)" using IH d2 by simp
  next
    fix j assume "rx \<noteq> 0" "j < Suc k"
    then show "mm' (rx + i + j) = v_data v (d_ops d @ spi_pairs n out i (Suc j))"
      using first IH d2 by (cases j) (auto simp: got_def)
  qed
qed simp

definition may_spi :: "int \<Rightarrow> addr \<Rightarrow> addr \<Rightarrow> u32 \<Rightarrow> dhost \<Rightarrow> bool" where
  "may_spi n tx rx len s \<longleftrightarrow> mdl_caller_declared (me s) (h_slots s) KIND_SPI (of_int n) \<and> spi_open (of_int n) (h_devs s)
     \<and> 0 < unat len \<and> unat len \<le> 256 \<and> \<not> (tx = 0 \<and> rx = 0)
     \<and> (tx = 0 \<or> ptr_owned_by_module s tx (unat len)) \<and> (rx = 0 \<or> ptr_owned_by_module s rx (unat len))"

lemma checked_spi_iff:
  assumes "spi_inv (h_devs s)"
  shows "checked_spi n s = (if mdl_caller_declared (me s) (h_slots s) KIND_SPI (of_int n) \<and> spi_open (of_int n) (h_devs s) then Some 0 else None)"
proof -
  obtain b where b: "d_spi (h_devs s) = [b]" "sb_instance b = 3" by (rule spi_invE [OF assms])
  then show ?thesis by (auto simp: checked_spi_def spi_lookup_def spi_open_def)
qed

lemma transfer_denied:
  assumes "spi_inv (h_devs s)" "\<not> may_spi n tx rx len s"
  shows "host_spi_transfer_impl v n tx rx len s = (-1, s)"
proof -
  have u: "len = 0 \<longleftrightarrow> unat len = 0" by (simp add: unat_eq_0)
  show ?thesis
    using assms(2) checked_spi_iff [OF assms(1), of n]
    by (auto simp: host_spi_transfer_impl_def may_spi_def host_ptr_owned_by_module_def u)
qed

text \<open>What the module sends: its own bytes, or zeros.\<close>

definition spi_out :: "addr \<Rightarrow> mem \<Rightarrow> nat \<Rightarrow> u8" where
  "spi_out tx mm j = (if tx = 0 then 0 else mm (tx + j))"

lemma transfer_runs:
  assumes "spi_inv (h_devs s)" "may_spi n tx rx len s" "tx = 0 \<or> rx = 0 \<or> \<not> (tx < rx \<and> rx < tx + unat len)"
    "host_spi_transfer_impl v n tx rx len s = (r, s')"
  shows "r = 0 \<or> r = -2"
    "\<forall>x. h_mem s' x \<noteq> h_mem s x \<longrightarrow> rx \<noteq> 0 \<and> rx \<le> x \<and> x < rx + unat len"
    "r = 0 \<Longrightarrow> d_ops (h_devs s') = d_ops (h_devs s) @ spi_pairs (of_int n) (spi_out tx (h_mem s)) 0 (unat len)
       \<and> (rx \<noteq> 0 \<longrightarrow> (\<forall>j < unat len. h_mem s' (rx + j)
            = v_data v (d_ops (h_devs s) @ spi_pairs (of_int n) (spi_out tx (h_mem s)) 0 (Suc j))))"
proof -
  have u: "len = 0 \<longleftrightarrow> unat len = 0" by (simp add: unat_eq_0)
  obtain b where b: "d_spi (h_devs s) = [b]" "sb_instance b = 3" by (rule spi_invE [OF assms(1)])
  have n: "sb_instance (d_spi (h_devs s) ! 0) = of_int n" using assms(2) b by (auto simp: may_spi_def spi_open_def)
  obtain ok mm d where l: "spi_loop v (of_int n) tx rx (unat len) 0 (h_mem s) (h_devs s) = (ok, mm, d)"
    by (cases "spi_loop v (of_int n) tx rx (unat len) 0 (h_mem s) (h_devs s)") auto
  have res: "s' = s\<lparr>h_mem := mm, h_devs := d\<rparr>" "r = 0 \<or> r = -2" "r = 0 \<Longrightarrow> ok"
    using assms(2,4) checked_spi_iff [OF assms(1), of n] l n
    by (auto simp: host_spi_transfer_impl_def may_spi_def host_ptr_owned_by_module_def u simp del: poll.simps split: if_splits)
  show "r = 0 \<or> r = -2" by (rule res)
  show "\<forall>x. h_mem s' x \<noteq> h_mem s x \<longrightarrow> rx \<noteq> 0 \<and> rx \<le> x \<and> x < rx + unat len"
    using spi_loop_confined [OF l] res(1) by simp
  assume "r = 0"
  then have "spi_loop v (of_int n) tx rx (unat len) 0 (h_mem s) (h_devs s) = (True, mm, d)" using l res(3) by simp
  from spi_loop_paired [OF this, of "spi_out tx (h_mem s)"] assms(3)
  show "d_ops (h_devs s') = d_ops (h_devs s) @ spi_pairs (of_int n) (spi_out tx (h_mem s)) 0 (unat len)
       \<and> (rx \<noteq> 0 \<longrightarrow> (\<forall>j < unat len. h_mem s' (rx + j)
            = v_data v (d_ops (h_devs s) @ spi_pairs (of_int n) (spi_out tx (h_mem s)) 0 (Suc j))))"
    using res(1) by (simp add: spi_out_def)
qed

text \<open>A full-duplex transfer pairs the bytes. One that is not permitted (bus not declared by the caller, or closed, a length of 0 or
  above 256, no buffer at all, a buffer outside the module) returns -1 with nothing sent and nothing changed. A permitted
  one changes memory in the receive buffer only; when it returns 0 the bus has seen exactly the module's bytes (zeros
  without a send buffer), each followed by the byte read back, and byte \<open>j\<close> of the receive buffer is the answer that came
  in with byte \<open>j\<close> sent. The buffers may coincide; the receive buffer must not start inside the send buffer.\<close>

theorem host_spi_transfer_paired:
  assumes "spi_inv (h_devs s)" "\<not> privileged s" "tx = 0 \<or> rx = 0 \<or> \<not> (tx < rx \<and> rx < tx + unat len)"
  shows "case host_spi_transfer v n tx rx len s of (r, s') \<Rightarrow>
    \<not> privileged s'
    \<and> (if may_spi n tx rx len s then
         (r = 0 \<or> r = -2)
         \<and> (\<forall>x. h_mem s' x \<noteq> h_mem s x \<longrightarrow> rx \<noteq> 0 \<and> rx \<le> x \<and> x < rx + unat len)
         \<and> (r = 0 \<longrightarrow> d_ops (h_devs s') = d_ops (h_devs s) @ spi_pairs (of_int n) (spi_out tx (h_mem s)) 0 (unat len)
            \<and> (rx \<noteq> 0 \<longrightarrow> (\<forall>j < unat len. h_mem s' (rx + j)
                 = v_data v (d_ops (h_devs s) @ spi_pairs (of_int n) (spi_out tx (h_mem s)) 0 (Suc j)))))
       else r = -1 \<and> h_devs s' = h_devs s \<and> h_mem s' = h_mem s)"
proof -
  let ?s = "s\<lparr>privileged := True\<rparr>"
  obtain r s' where run: "host_spi_transfer_impl v n tx rx len ?s = (r, s')" by (cases "host_spi_transfer_impl v n tx rx len ?s")
  note gate = fed_gate_run [where body = "host_spi_transfer_impl v n tx rx len", OF run]
  obtain g where g: "host_spi_transfer v n tx rx len s = (r, g)" "h_devs g = h_devs s'" "h_mem g = h_mem s'" "\<not> privileged g"
    using gate assms(2) by (cases "fed_gate (host_spi_transfer_impl v n tx rx len) s") (simp add: host_spi_transfer_def)
  have inv: "spi_inv (h_devs ?s)" using assms(1) by simp
  have same: "may_spi n tx rx len ?s = may_spi n tx rx len s" by (simp add: may_spi_def)
  show ?thesis
  proof (cases "may_spi n tx rx len s")
    case True
    then have "may_spi n tx rx len ?s" using same by simp
    note t = transfer_runs [OF inv this assms(3) run]
    show ?thesis unfolding g(1) prod.case g(2,3) using True g(4) t by simp
  next
    case False
    then have "\<not> may_spi n tx rx len ?s" using same by simp
    then have "r = -1" "s' = ?s" using transfer_denied [OF inv, of n tx rx len v] run by simp_all
    then show ?thesis unfolding g(1) prod.case g(2,3) using False g(4) by simp
  qed
qed

text \<open>The bus open, in its default mode.\<close>

definition spi_devs0 :: devs where
  "spi_devs0 = \<lparr>d_tx = [], d_ops = [], d_i2c = [], d_uart = [], d_adc = [], s_adc_up = False,
     d_spi = [\<lparr>sb_instance = 3, sb_open = True, sb_mode = 0, sb_hz = SPI_DEFAULT_HZ\<rparr>]\<rparr>"

lemma poll_now: "flag k \<Longrightarrow> 0 < spin \<Longrightarrow> poll flag k spin"
  unfolding poll_iff by (intro exI [of _ 0]) simp

theorem host_spi_transfer_paired_witness:
  "case host_spi_transfer (vendor0\<lparr>v_flag := \<lambda>_ f _ _. f \<noteq> ''BF'', v_data := \<lambda>_. 0xEF\<rparr>) 3 0 0x20020500 1 (dhost0 KIND_SPI 3 spi_devs0) of
    (r, s') \<Rightarrow> (r = 0 \<or> r = -2) \<and> (r = 0 \<longrightarrow> h_mem s' 0x20020500 = 0xEF \<and> d_ops (h_devs s') = [SpiSend 3 0, SpiRecv 3])"
proof -
  let ?s = "dhost0 KIND_SPI 3 spi_devs0"
  have inv: "spi_inv (h_devs ?s)" by (simp add: spi_inv_def spi_devs0_def)
  have "may_spi 3 0 0x20020500 1 ?s"
    by (simp add: may_spi_def dhost0_declared spi_open_def spi_devs0_def dhost0_owned)
  then show ?thesis
    using host_spi_transfer_paired [OF inv, where v = "vendor0\<lparr>v_flag := \<lambda>_ f _ _. f \<noteq> ''BF'', v_data := \<lambda>_. 0xEF\<rparr>"
        and n = 3 and tx = 0 and rx = "0x20020500" and len = 1]
    by (auto simp: spi_devs0_def spi_out_def split: prod.splits)
qed

end
