(* ===== verification/Persist.thy ===== *)
theory Persist
  imports Crc32 Registry
begin

text \<open>
  \<open>src/mdl/tests/hil/common/board_persist.c\<close>: the flash store behind \<open>persist.h\<close>. Sixteen kilobytes in two banks, one of
  which holds the current set of module images; a save writes the whole new set into the other bank and marks it valid with
  its last word. The flash controller is a parameter: which operation it is asked for, and how many came before it, decide
  whether it reports success and what the cells hold afterwards.
\<close>

section \<open>The store\<close>

text \<open>\<open>MDLSTORE\<close> in the linker script.\<close>

abbreviation STORE_ADDR :: addr where "STORE_ADDR \<equiv> 0x0803C000"
abbreviation STORE_SIZE :: nat where "STORE_SIZE \<equiv> 0x4000"
abbreviation STORE_MAGIC :: u32 where "STORE_MAGIC \<equiv> 0x4D444C53"
abbreviation SECTOR_STEP :: nat where "SECTOR_STEP \<equiv> 2048"
abbreviation BANK_SIZE :: nat where "BANK_SIZE \<equiv> 0x2000"
abbreviation MAX_ENTRIES :: nat where "MAX_ENTRIES \<equiv> 4"

record store_entry =
  e_off :: nat
  e_len :: nat
  e_crc32 :: u32

record store_header =
  sh_magic :: u32
  sh_seq :: u32
  sh_count :: nat
  sh_e :: "store_entry list"

text \<open>\<open>sizeof(store_header_t)\<close>\<close>

abbreviation STORE_HDR :: nat where "STORE_HDR \<equiv> 80"

definition entry_at :: "mem \<Rightarrow> addr \<Rightarrow> store_entry" where
  "entry_at m a = \<lparr>e_off = unat (ld32 m a), e_len = unat (ld32 m (a + 4)), e_crc32 = ld32 m (a + 8)\<rparr>"

definition store_header_at :: "mem \<Rightarrow> addr \<Rightarrow> store_header" where
  "store_header_at m a = \<lparr>sh_magic = ld32 m a, sh_seq = ld32 m (a + 4), sh_count = unat (ld32 m (a + 8)),
     sh_e = map (\<lambda>i. entry_at m (a + 16 + 16 * i)) [0 ..< MAX_ENTRIES]\<rparr>"

definition bank_addr :: "nat \<Rightarrow> addr" where
  "bank_addr bank = STORE_ADDR + (if bank = 0 then 0 else BANK_SIZE)"

abbreviation bank_header :: "mem \<Rightarrow> nat \<Rightarrow> store_header" where
  "bank_header m b \<equiv> store_header_at m (bank_addr b)"

definition bank_entries :: "mem \<Rightarrow> nat \<Rightarrow> store_entry list" where
  "bank_entries m b = take (sh_count (bank_header m b)) (sh_e (bank_header m b))"

definition bank_valid :: "mem \<Rightarrow> nat \<Rightarrow> bool" where
  "bank_valid m b = (let h = bank_header m b in
     sh_magic h = STORE_MAGIC \<and> sh_count h \<noteq> 0 \<and> sh_count h \<le> MAX_ENTRIES
     \<and> list_all (\<lambda>e. e_len e \<noteq> 0 \<and> add32 (e_off e) (e_len e) \<le> BANK_SIZE
         \<and> mdl_crc32 (mem_read m (add32 (bank_addr b) (e_off e)) (e_len e)) = e_crc32 e) (bank_entries m b))"

definition active_bank :: "mem \<Rightarrow> nat option" where
  "active_bank m =
     (if bank_valid m 0 \<and> bank_valid m 1
      then Some (if 0 < sint (sh_seq (bank_header m 1) - sh_seq (bank_header m 0)) then 1 else 0)
      else if bank_valid m 0 then Some 0 else if bank_valid m 1 then Some 1 else None)"

definition board_persist_count :: "mem \<Rightarrow> nat" where
  "board_persist_count m = (case active_bank m of None \<Rightarrow> 0 | Some b \<Rightarrow> sh_count (bank_header m b))"

definition board_persist_entry :: "mem \<Rightarrow> nat \<Rightarrow> (addr \<times> nat) option" where
  "board_persist_entry m i = (case active_bank m of None \<Rightarrow> None
     | Some b \<Rightarrow> let h = bank_header m b in
         if sh_count h \<le> i then None else Some (add32 (bank_addr b) (e_off (sh_e h ! i)), e_len (sh_e h ! i)))"

section \<open>The flash controller\<close>

datatype flash_op = Erase addr | Program addr u32

type_synonym chip = "nat \<Rightarrow> flash_op \<Rightarrow> mem \<Rightarrow> bool \<times> mem"

record flash =
  cells :: mem
  f_ops :: nat
  f_unlocked :: bool

text \<open>\<open>guarded\<close>, with the interrupts and the MPU off: one operation of the controller.\<close>

definition guarded :: "chip \<Rightarrow> flash_op \<Rightarrow> flash \<Rightarrow> bool \<times> flash" where
  "guarded chip op s = (case chip (f_ops s) op (cells s) of (ok, m) \<Rightarrow> (ok, s\<lparr>cells := m, f_ops := Suc (f_ops s)\<rparr>))"

fun erase_sectors :: "chip \<Rightarrow> addr list \<Rightarrow> flash \<Rightarrow> bool \<times> flash" where
  "erase_sectors chip [] s = (True, s)"
| "erase_sectors chip (a # as) s =
     (case guarded chip (Erase a) s of (ok, s1) \<Rightarrow> if ok then erase_sectors chip as s1 else (False, s1))"

definition erase_bank :: "chip \<Rightarrow> nat \<Rightarrow> flash \<Rightarrow> bool \<times> flash" where
  "erase_bank chip bank = erase_sectors chip (map (\<lambda>k. bank_addr bank + SECTOR_STEP * k) [0 ..< BANK_SIZE div SECTOR_STEP])"

definition board_persist_forget :: "chip \<Rightarrow> flash \<Rightarrow> bool \<times> flash" where
  "board_persist_forget chip s =
     (case erase_bank chip 0 (s\<lparr>f_unlocked := True\<rparr>) of (ok0, s1) \<Rightarrow>
       case (if ok0 then erase_bank chip 1 s1 else (False, s1)) of (ok, s2) \<Rightarrow> (ok, s2\<lparr>f_unlocked := False\<rparr>))"

section \<open>Writing\<close>

text \<open>Words at \<open>dst + 4 i\<close>, each computed from memory just before it is programmed.\<close>

fun program_words :: "chip \<Rightarrow> addr \<Rightarrow> (nat \<Rightarrow> mem \<Rightarrow> u32) \<Rightarrow> nat list \<Rightarrow> flash \<Rightarrow> bool \<times> flash" where
  "program_words chip dst f [] s = (True, s)"
| "program_words chip dst f (i # is) s =
     (case guarded chip (Program (dst + 4 * i) (f i (cells s))) s of (ok, s1) \<Rightarrow>
        if ok then program_words chip dst f is s1 else (False, s1))"

text \<open>The \<open>i\<close>-th word of a source of \<open>len\<close> bytes, the last padded with ones.\<close>

definition padded_word :: "addr \<Rightarrow> nat \<Rightarrow> nat \<Rightarrow> mem \<Rightarrow> u32" where
  "padded_word src len i m = ld32 (mem_write 0 (mem_read m (src + 4 * i) (min 4 (len - 4 * i))) (\<lambda>_. 0xFF)) 0"

definition write_bytes :: "chip \<Rightarrow> addr \<Rightarrow> addr \<Rightarrow> nat \<Rightarrow> flash \<Rightarrow> bool \<times> flash" where
  "write_bytes chip dst src len = program_words chip dst (padded_word src len) [0 ..< (len + 3) div 4]"

definition image_name_of :: "mem \<Rightarrow> addr \<Rightarrow> nat \<Rightarrow> u8 list option" where
  "image_name_of m img len = (if len < 72 + NAME_MAX then None else Some (mem_read m (img + 72) NAME_MAX))"

definition same_name :: "mem \<Rightarrow> addr \<Rightarrow> nat \<Rightarrow> addr \<Rightarrow> nat \<Rightarrow> bool" where
  "same_name m a alen b blen =
     (case (image_name_of m a alen, image_name_of m b blen) of (Some na, Some nb) \<Rightarrow> strncmp_eq NAME_MAX na nb | _ \<Rightarrow> False)"

definition align8 :: "nat \<Rightarrow> nat" where
  "align8 n = add32 n 7 div 8 * 8"

text \<open>The images of the old bank that the new one does not replace. \<open>None\<close>: full, or a write failed.\<close>

fun carry_over :: "chip \<Rightarrow> nat \<Rightarrow> nat \<Rightarrow> addr \<Rightarrow> nat \<Rightarrow> nat list \<Rightarrow> store_entry list \<Rightarrow> nat \<Rightarrow> flash
    \<Rightarrow> (store_entry list \<times> nat) option \<times> flash" where
  "carry_over chip src dst img len [] es cursor s = (Some (es, cursor), s)"
| "carry_over chip src dst img len (i # is) es cursor s =
     (let e = sh_e (bank_header (cells s) src) ! i; old = add32 (bank_addr src) (e_off e) in
      if same_name (cells s) old (e_len e) img len then carry_over chip src dst img len is es cursor s
      else if MAX_ENTRIES \<le> length es \<or> BANK_SIZE < add32 cursor (e_len e) then (None, s)
      else case write_bytes chip (bank_addr dst + cursor) old (e_len e) s of
        (ok, s1) \<Rightarrow> if \<not> ok then (None, s1)
          else carry_over chip src dst img len is (es @ [\<lparr>e_off = cursor, e_len = e_len e, e_crc32 = e_crc32 e\<rparr>])
                 (align8 (add32 cursor (e_len e))) s1)"

definition put_image :: "chip \<Rightarrow> nat \<Rightarrow> addr \<Rightarrow> nat \<Rightarrow> store_entry list \<Rightarrow> nat \<Rightarrow> flash \<Rightarrow> store_entry list option \<times> flash" where
  "put_image chip dst img len es cursor s =
     (if MAX_ENTRIES \<le> length es \<or> BANK_SIZE < add32 cursor len then (None, s)
      else case write_bytes chip (bank_addr dst + cursor) img len s of (ok, s1) \<Rightarrow>
        if \<not> ok then (None, s1)
        else (Some (es @ [\<lparr>e_off = cursor, e_len = len, e_crc32 = mdl_crc32 (mem_read (cells s1) img len)\<rparr>]), s1))"

text \<open>The header as words; the magic, the first, is programmed last.\<close>

definition entry_words :: "store_entry \<Rightarrow> u32 list" where
  "entry_words e = [of_nat (e_off e), of_nat (e_len e), e_crc32 e, 0]"

definition header_words :: "u32 \<Rightarrow> store_entry list \<Rightarrow> u32 list" where
  "header_words seq es = [STORE_MAGIC, seq, of_nat (length es), 0] @ concat (map entry_words es) @ replicate (4 * (MAX_ENTRIES - length es)) 0"

definition write_header :: "chip \<Rightarrow> nat \<Rightarrow> u32 \<Rightarrow> store_entry list \<Rightarrow> flash \<Rightarrow> bool \<times> flash" where
  "write_header chip dst seq es s = (let w = (\<lambda>i _. header_words seq es ! i) in
     case program_words chip (bank_addr dst) w [1 ..< STORE_HDR div 4] s of (ok, s1) \<Rightarrow>
       if ok then program_words chip (bank_addr dst) w [0] s1 else (False, s1))"

text \<open>Between unlocking and locking.\<close>

definition save_set :: "chip \<Rightarrow> nat option \<Rightarrow> nat \<Rightarrow> u32 \<Rightarrow> addr \<Rightarrow> nat \<Rightarrow> flash \<Rightarrow> bool \<times> flash" where
  "save_set chip src dst seq img len s =
     (case erase_bank chip dst s of (ok, s1) \<Rightarrow> if \<not> ok then (False, s1)
      else let old = (case src of None \<Rightarrow> [] | Some b \<Rightarrow> [0 ..< sh_count (bank_header (cells s1) b)]) in
        (case carry_over chip (the src) dst img len old [] (align8 STORE_HDR) s1 of
           (None, s2) \<Rightarrow> (False, s2)
         | (Some (es, cursor), s2) \<Rightarrow>
             (case put_image chip dst img len es cursor s2 of
                (None, s3) \<Rightarrow> (False, s3)
              | (Some es', s3) \<Rightarrow>
                  (case write_header chip dst seq es' s3 of (ok, s4) \<Rightarrow>
                     if \<not> ok then (False, s4)
                     else (True, case src of None \<Rightarrow> s4 | Some b \<Rightarrow> snd (erase_bank chip b s4))))))"

definition board_persist_save :: "chip \<Rightarrow> addr \<Rightarrow> nat \<Rightarrow> flash \<Rightarrow> bool \<times> flash" where
  "board_persist_save chip img len s =
     (if len = 0 \<or> BANK_SIZE < add32 len STORE_HDR then (False, s)
      else let src = active_bank (cells s);
               dst = (if src = Some 0 then 1 else 0);
               seq = (case src of None \<Rightarrow> 1 | Some b \<Rightarrow> sh_seq (bank_header (cells s) b) + 1)
           in case save_set chip src dst seq img len (s\<lparr>f_unlocked := True\<rparr>) of (ok, s1) \<Rightarrow> (ok, s1\<lparr>f_unlocked := False\<rparr>))"

end
