(* ===== verification/Persist_Safety.thy ===== *)
theory Persist_Safety
  imports Persist
begin

text \<open>
  A save replaces the stored set completely or leaves it as it was, whatever the flash controller does.
\<close>

section \<open>Words and bytes\<close>

lemma byte_of_le32:
  "byte_of 0 (le32 a b c d) = a" "byte_of (Suc 0) (le32 a b c d) = b" "byte_of 2 (le32 a b c d) = c" "byte_of 3 (le32 a b c d) = d"
  by (rule bit_word_eqI; auto simp: le32_def byte_of_def bit_simps dest: bit_imp_le_length)+

lemma ld32_byte: "j < 4 \<Longrightarrow> m (a + j) = byte_of j (ld32 m a)"
proof -
  assume "j < 4"
  then consider "j = 0" | "j = 1" | "j = 2" | "j = 3" by linarith
  then show ?thesis by cases (simp_all add: ld32_def byte_of_le32)
qed

lemma byte_FF: "j < 4 \<Longrightarrow> byte_of j 0xFFFFFFFF = 0xFF"
proof -
  assume "j < 4"
  then consider "j = 0" | "j = 1" | "j = 2" | "j = 3" by linarith
  then show ?thesis by cases (simp_all add: byte_of_def)
qed

lemma ld32_cong: "(\<And>j. j < 4 \<Longrightarrow> m' (a + j) = m (a + j)) \<Longrightarrow> ld32 m' a = ld32 m a"
proof -
  assume e: "\<And>j. j < 4 \<Longrightarrow> m' (a + j) = m (a + j)"
  have "m' a = m a" "m' (a + 1) = m (a + 1)" "m' (a + 2) = m (a + 2)" "m' (a + 3) = m (a + 3)"
    using e [of 0] e [of 1] e [of 2] e [of 3] by simp_all
  then show ?thesis by (simp only: ld32_def)
qed

lemma ld32_erased: "(\<And>j. j < 4 \<Longrightarrow> m (a + j) = 0xFF) \<Longrightarrow> ld32 m a = 0xFFFFFFFF"
proof -
  assume e: "\<And>j. j < 4 \<Longrightarrow> m (a + j) = 0xFF"
  have "m a = 0xFF" "m (a + 1) = 0xFF" "m (a + 2) = 0xFF" "m (a + 3) = 0xFF"
    using e [of 0] e [of 1] e [of 2] e [of 3] by simp_all
  moreover have "le32 0xFF 0xFF 0xFF 0xFF = 0xFFFFFFFF" by (simp add: le32_def)
  ultimately show ?thesis by (simp add: ld32_def)
qed

lemma mem_read_same: "(\<And>x. a \<le> x \<Longrightarrow> x < a + n \<Longrightarrow> m' x = m x) \<Longrightarrow> mem_read m' a n = mem_read m a n"
  by (simp add: mem_read_def)

section \<open>The controller\<close>

text \<open>What the code relies on: an operation touches its own sector or word only; an erase that fails leaves its sector as it
  was, or erased; a word that reported success holds its value, if it was erased before. What a failed program leaves in its
  word is open, so a loss of power at any operation is a controller that fails there.\<close>

definition chip_ok :: "chip \<Rightarrow> bool" where
  "chip_ok chip \<longleftrightarrow> (\<forall>k m a w.
     (case chip k (Erase a) m of (ok, m') \<Rightarrow>
        (\<forall>x. x < a \<or> a + SECTOR_STEP \<le> x \<longrightarrow> m' x = m x)
        \<and> (let erased = (\<forall>x. a \<le> x \<and> x < a + SECTOR_STEP \<longrightarrow> m' x = 0xFF) in if ok then erased else m' = m \<or> erased))
     \<and> (case chip k (Program a w) m of (ok, m') \<Rightarrow>
        (\<forall>x. x < a \<or> a + 4 \<le> x \<longrightarrow> m' x = m x) \<and> (ok \<and> ld32 m a = 0xFFFFFFFF \<longrightarrow> ld32 m' a = w)))"

definition never_fails :: "chip \<Rightarrow> bool" where
  "never_fails chip \<longleftrightarrow> (\<forall>k op m. fst (chip k op m))"

lemma guarded_erase:
  assumes "chip_ok chip" "guarded chip (Erase a) s = (ok, s')"
  shows "x < a \<or> a + SECTOR_STEP \<le> x \<Longrightarrow> cells s' x = cells s x"
    "ok \<Longrightarrow> a \<le> x \<Longrightarrow> x < a + SECTOR_STEP \<Longrightarrow> cells s' x = 0xFF"
    "cells s' = cells s \<or> (\<forall>x. a \<le> x \<and> x < a + SECTOR_STEP \<longrightarrow> cells s' x = 0xFF)"
    "f_unlocked s' = f_unlocked s"
proof -
  obtain ok' m' where c: "chip (f_ops s) (Erase a) (cells s) = (ok', m')" by fastforce
  then have s: "ok' = ok" "cells s' = m'" "f_unlocked s' = f_unlocked s" using assms(2) by (auto simp: guarded_def)
  have "(\<forall>x. x < a \<or> a + SECTOR_STEP \<le> x \<longrightarrow> m' x = cells s x)
      \<and> (let erased = (\<forall>x. a \<le> x \<and> x < a + SECTOR_STEP \<longrightarrow> m' x = 0xFF) in if ok then erased else m' = cells s \<or> erased)"
    using assms(1) [unfolded chip_ok_def, THEN spec, of "f_ops s", THEN spec, of "cells s", THEN spec, of a, THEN spec, of 0] c s(1) by simp
  then show "x < a \<or> a + SECTOR_STEP \<le> x \<Longrightarrow> cells s' x = cells s x"
    "ok \<Longrightarrow> a \<le> x \<Longrightarrow> x < a + SECTOR_STEP \<Longrightarrow> cells s' x = 0xFF"
    "cells s' = cells s \<or> (\<forall>x. a \<le> x \<and> x < a + SECTOR_STEP \<longrightarrow> cells s' x = 0xFF)"
    "f_unlocked s' = f_unlocked s"
    using s by (auto simp: Let_def split: if_splits)
qed

lemma guarded_program:
  assumes "chip_ok chip" "guarded chip (Program a w) s = (ok, s')"
  shows "x < a \<or> a + 4 \<le> x \<Longrightarrow> cells s' x = cells s x"
    "ok \<Longrightarrow> ld32 (cells s) a = 0xFFFFFFFF \<Longrightarrow> ld32 (cells s') a = w" "f_unlocked s' = f_unlocked s"
proof -
  obtain ok' m' where c: "chip (f_ops s) (Program a w) (cells s) = (ok', m')" by fastforce
  then have s: "ok' = ok" "cells s' = m'" "f_unlocked s' = f_unlocked s" using assms(2) by (auto simp: guarded_def)
  have "(\<forall>x. x < a \<or> a + 4 \<le> x \<longrightarrow> m' x = cells s x) \<and> (ok \<and> ld32 (cells s) a = 0xFFFFFFFF \<longrightarrow> ld32 m' a = w)"
    using assms(1) [unfolded chip_ok_def, THEN spec, of "f_ops s", THEN spec, of "cells s", THEN spec, of a, THEN spec, of w] c s(1) by simp
  then show "x < a \<or> a + 4 \<le> x \<Longrightarrow> cells s' x = cells s x"
    "ok \<Longrightarrow> ld32 (cells s) a = 0xFFFFFFFF \<Longrightarrow> ld32 (cells s') a = w" "f_unlocked s' = f_unlocked s"
    using s by auto
qed

lemma guarded_works: "never_fails chip \<Longrightarrow> guarded chip op s = (ok, s') \<Longrightarrow> ok"
  by (auto simp: never_fails_def guarded_def split: prod.splits) (metis fst_conv)

section \<open>Erasing a bank\<close>

abbreviation in_bank :: "nat \<Rightarrow> addr \<Rightarrow> bool" where
  "in_bank b x \<equiv> bank_addr b \<le> x \<and> x < bank_addr b + BANK_SIZE"

lemma guarded_erase_mono:
  assumes "chip_ok chip" "guarded chip (Erase a) s = (ok, s')"
  shows "cells s' x = cells s x \<or> cells s' x = 0xFF"
  using guarded_erase(1) [OF assms, of x] guarded_erase(3) [OF assms] by (cases "x < a \<or> a + SECTOR_STEP \<le> x") auto

lemma erase_sectors_spec:
  assumes "chip_ok chip" "erase_sectors chip as s = (ok, s')"
  shows "(\<forall>x. (\<forall>a \<in> set as. x < a \<or> a + SECTOR_STEP \<le> x) \<longrightarrow> cells s' x = cells s x)
    \<and> (\<forall>x. cells s' x = cells s x \<or> cells s' x = 0xFF) \<and> f_unlocked s' = f_unlocked s
    \<and> (ok \<longrightarrow> (\<forall>a \<in> set as. \<forall>x. a \<le> x \<and> x < a + SECTOR_STEP \<longrightarrow> cells s' x = 0xFF))"
  using assms(2)
proof (induction "as" arbitrary: s)
  case (Cons a "as")
  obtain ok1 s1 where g: "guarded chip (Erase a) s = (ok1, s1)" by fastforce
  note G = guarded_erase [OF assms(1) g] and mono = guarded_erase_mono [OF assms(1) g]
  show ?case
  proof (cases ok1)
    case False
    then have "s' = s1" "\<not> ok" using Cons.prems g by simp_all
    then show ?thesis using G mono by auto
  next
    case True
    then have r: "erase_sectors chip as s1 = (ok, s')" using Cons.prems g by simp
    note I = Cons.IH [OF r]
    have "cells s' x = 0xFF" if "ok" "a \<le> x" "x < a + SECTOR_STEP" for x
      using I G(2) [OF True that(2,3)] by metis
    moreover have "cells s' x = cells s x \<or> cells s' x = 0xFF" for x using I mono [of x] by metis
    ultimately show ?thesis using I G(1,4) by auto
  qed
qed simp

lemma erase_bank_spec:
  assumes "chip_ok chip" "erase_bank chip b s = (ok, s')"
  shows "\<not> in_bank b x \<Longrightarrow> cells s' x = cells s x" "ok \<Longrightarrow> in_bank b x \<Longrightarrow> cells s' x = 0xFF"
    "cells s' = cells s \<or> (\<forall>x. bank_addr b \<le> x \<and> x < bank_addr b + SECTOR_STEP \<longrightarrow> cells s' x = 0xFF)"
    "f_unlocked s' = f_unlocked s" "never_fails chip \<Longrightarrow> ok"
proof -
  let ?as = "map (\<lambda>k. bank_addr b + SECTOR_STEP * k) [0 ..< 4]"
  have as: "?as = [bank_addr b, bank_addr b + 2048, bank_addr b + 4096, bank_addr b + 6144]" by (simp add: upt_rec)
  have run: "erase_sectors chip ?as s = (ok, s')" using assms(2) by (simp add: erase_bank_def)
  note E = erase_sectors_spec [OF assms(1) run, unfolded as]
  show "cells s' x = cells s x" if "\<not> in_bank b x"
    using E that by auto
  show "f_unlocked s' = f_unlocked s" using E by blast
  show "cells s' x = 0xFF" if "ok" "in_bank b x"
  proof -
    have "\<exists>a \<in> {bank_addr b, bank_addr b + 2048, bank_addr b + 4096, bank_addr b + 6144}. a \<le> x \<and> x < a + SECTOR_STEP"
      using that(2) by auto
    then show ?thesis using E that(1) by auto
  qed
  obtain ok1 s1 where g: "guarded chip (Erase (bank_addr b)) s = (ok1, s1)" by fastforce
  show "cells s' = cells s \<or> (\<forall>x. bank_addr b \<le> x \<and> x < bank_addr b + SECTOR_STEP \<longrightarrow> cells s' x = 0xFF)"
  proof (cases ok1)
    case False
    then have "s' = s1" using run g by (simp add: as)
    then show ?thesis using guarded_erase(3) [OF assms(1) g] by blast
  next
    case True
    then have r: "erase_sectors chip [bank_addr b + 2048, bank_addr b + 4096, bank_addr b + 6144] s1 = (ok, s')"
      using run g by (simp add: as)
    show ?thesis using erase_sectors_spec [OF assms(1) r] guarded_erase(2) [OF assms(1) g True] by metis
  qed
  show "ok" if "never_fails chip"
  proof -
    have "erase_sectors chip as t = (q, t') \<Longrightarrow> q" for as t q t'
      by (induction "as" arbitrary: t) (auto split: prod.splits if_splits dest: guarded_works [OF that])
    then show ok using run by blast
  qed
qed

section \<open>Programming words\<close>

text \<open>Words that are erased before, each computed from bytes no word of the loop overlaps.\<close>

lemma program_words_spec:
  assumes chip: "chip_ok chip" and run: "program_words chip dst f is s = (ok, s')"
    and erased: "\<And>i. i \<in> set is \<Longrightarrow> ld32 (cells s) (dst + 4 * i) = 0xFFFFFFFF" and dist: "distinct is"
    and stable: "\<And>i m. i \<in> set is \<Longrightarrow> (\<And>x. (\<forall>j \<in> set is. x < dst + 4 * j \<or> dst + 4 * j + 4 \<le> x) \<Longrightarrow> m x = cells s x) \<Longrightarrow> f i m = f i (cells s)"
  shows "(\<forall>x. (\<forall>i \<in> set is. x < dst + 4 * i \<or> dst + 4 * i + 4 \<le> x) \<longrightarrow> cells s' x = cells s x)
    \<and> f_unlocked s' = f_unlocked s \<and> (ok \<longrightarrow> (\<forall>i \<in> set is. ld32 (cells s') (dst + 4 * i) = f i (cells s)))"
  using run erased dist stable
proof (induction "is" arbitrary: s)
  case (Cons i "is")
  obtain ok1 s1 where g: "guarded chip (Program (dst + 4 * i) (f i (cells s))) s = (ok1, s1)" by fastforce
  note G = guarded_program [OF chip g]
  show ?case
  proof (cases ok1)
    case False
    then have "s' = s1" "\<not> ok" using Cons.prems(1) g by simp_all
    then show ?thesis using G by auto
  next
    case True
    then have r: "program_words chip dst f is s1 = (ok, s')" using Cons.prems(1) g by simp
    have same: "ld32 (cells s1) (dst + 4 * j) = ld32 (cells s) (dst + 4 * j)" if "j \<noteq> i" for j
      by (rule ld32_cong) (use that in \<open>auto intro!: G(1)\<close>)
    have fi: "f j (cells s1) = f j (cells s)" if "j \<in> set is" for j
      by (rule Cons.prems(4)) (use that in \<open>auto intro: G(1)\<close>)
    have I: "(\<forall>x. (\<forall>i \<in> set is. x < dst + 4 * i \<or> dst + 4 * i + 4 \<le> x) \<longrightarrow> cells s' x = cells s1 x)
      \<and> f_unlocked s' = f_unlocked s1 \<and> (ok \<longrightarrow> (\<forall>i \<in> set is. ld32 (cells s') (dst + 4 * i) = f i (cells s1)))"
    proof (rule Cons.IH [OF r])
      show "ld32 (cells s1) (dst + 4 * j) = 0xFFFFFFFF" if "j \<in> set is" for j
        using that Cons.prems(2) [of j] Cons.prems(3) same [of j] by auto
      show "distinct is" using Cons.prems(3) by simp
      show "f j m = f j (cells s1)"
        if "j \<in> set is" and m: "\<And>x. (\<forall>k \<in> set is. x < dst + 4 * k \<or> dst + 4 * k + 4 \<le> x) \<Longrightarrow> m x = cells s1 x" for j m
        unfolding fi [OF that(1)] by (rule Cons.prems(4)) (use that(1) m G(1) in auto)
    qed
    have w: "ld32 (cells s') (dst + 4 * i) = f i (cells s)"
    proof -
      have "ld32 (cells s') (dst + 4 * i) = ld32 (cells s1) (dst + 4 * i)"
      proof (rule ld32_cong)
        fix j :: nat assume j: "j < 4"
        have "dst + 4 * i + j < dst + 4 * k \<or> dst + 4 * k + 4 \<le> dst + 4 * i + j" if "k \<in> set is" for k
        proof -
          have "k \<noteq> i" using that Cons.prems(3) by auto
          then show ?thesis using j by linarith
        qed
        then show "cells s' (dst + 4 * i + j) = cells s1 (dst + 4 * i + j)" using I by blast
      qed
      then show ?thesis using G(2) [OF True] Cons.prems(2) [of i] by simp
    qed
    have fis: "ld32 (cells s') (dst + 4 * k) = f k (cells s)" if "ok" "k \<in> set (i # is)" for k
      using that w I fi by (cases "k = i") auto
    have "cells s' x = cells s x" if "\<forall>i \<in> set (i # is). x < dst + 4 * i \<or> dst + 4 * i + 4 \<le> x" for x
      using that I G(1) [of x] by auto
    then show ?thesis using I G(3) fis by blast
  qed
qed simp

lemma program_words_works: "never_fails chip \<Longrightarrow> program_words chip dst f is s = (ok, s') \<Longrightarrow> ok"
  by (induction "is" arbitrary: s) (auto split: prod.splits if_splits dest: guarded_works)

text \<open>Copying bytes, up to the next word boundary.\<close>

abbreviation span4 :: "nat \<Rightarrow> nat" where "span4 len \<equiv> 4 * ((len + 3) div 4)"

lemma span4: "len \<le> span4 len" "span4 len < len + 4"
  by presburger+

lemma padded_word_cong:
  "(\<And>x. src \<le> x \<Longrightarrow> x < src + len \<Longrightarrow> m' x = m x) \<Longrightarrow> padded_word src len i m' = padded_word src len i m"
  unfolding padded_word_def by (subst mem_read_same [of _ _ m' m]) auto

lemma padded_word_byte: "j < 4 \<Longrightarrow> 4 * i + j < len \<Longrightarrow> byte_of j (padded_word src len i m) = m (src + 4 * i + j)"
  unfolding padded_word_def by (subst ld32_byte [symmetric]) (auto simp: mem_write_def)

lemma write_bytes_spec:
  assumes chip: "chip_ok chip" and run: "write_bytes chip dst src len s = (ok, s')"
    and erased: "\<forall>x. dst \<le> x \<and> x < dst + span4 len \<longrightarrow> cells s x = 0xFF"
    and apart: "\<forall>x. src \<le> x \<and> x < src + len \<longrightarrow> x < dst \<or> dst + span4 len \<le> x"
  shows "x < dst \<or> dst + span4 len \<le> x \<Longrightarrow> cells s' x = cells s x" "f_unlocked s' = f_unlocked s"
    "ok \<Longrightarrow> mem_read (cells s') dst len = mem_read (cells s) src len" "never_fails chip \<Longrightarrow> ok"
proof -
  let ?n = "(len + 3) div 4"
  have run': "program_words chip dst (padded_word src len) [0 ..< ?n] s = (ok, s')" using run by (simp add: write_bytes_def)
  have spec: "(\<forall>x. (\<forall>i \<in> set [0 ..< ?n]. x < dst + 4 * i \<or> dst + 4 * i + 4 \<le> x) \<longrightarrow> cells s' x = cells s x)
    \<and> f_unlocked s' = f_unlocked s \<and> (ok \<longrightarrow> (\<forall>i \<in> set [0 ..< ?n]. ld32 (cells s') (dst + 4 * i) = padded_word src len i (cells s)))"
  proof (rule program_words_spec [OF chip run'])
    show "ld32 (cells s) (dst + 4 * i) = 0xFFFFFFFF" if "i \<in> set [0 ..< ?n]" for i
      by (rule ld32_erased) (use that erased in auto)
    show "padded_word src len i m = padded_word src len i (cells s)"
      if m: "\<And>x. (\<forall>j \<in> set [0 ..< ?n]. x < dst + 4 * j \<or> dst + 4 * j + 4 \<le> x) \<Longrightarrow> m x = cells s x" for i m
    proof (rule padded_word_cong)
      fix x assume "src \<le> x" "x < src + len"
      then have "x < dst \<or> dst + span4 len \<le> x" using apart by blast
      then show "m x = cells s x" by (intro m) auto
    qed
  qed simp
  have "\<forall>i \<in> set [0 ..< ?n]. x < dst + 4 * i \<or> dst + 4 * i + 4 \<le> x" if "x < dst \<or> dst + span4 len \<le> x" for x
    using that by auto
  then show "x < dst \<or> dst + span4 len \<le> x \<Longrightarrow> cells s' x = cells s x" "f_unlocked s' = f_unlocked s" using spec by blast+
  show "mem_read (cells s') dst len = mem_read (cells s) src len" if ok
  proof (rule nth_equalityI)
    fix k assume "k < length (mem_read (cells s') dst len)"
    then have k: "k < len" by simp
    let ?i = "k div 4" and ?j = "k mod 4"
    have d: "4 * ?i + ?j = k" "?j < 4" by simp_all
    have i: "?i < ?n" using k by presburger
    have "cells s' (dst + 4 * ?i + ?j) = byte_of ?j (ld32 (cells s') (dst + 4 * ?i))" by (rule ld32_byte [OF d(2)])
    also have "\<dots> = byte_of ?j (padded_word src len ?i (cells s))" using spec \<open>ok\<close> i by simp
    also have "\<dots> = cells s (src + 4 * ?i + ?j)" by (rule padded_word_byte) (use d k in simp_all)
    finally show "mem_read (cells s') dst len ! k = mem_read (cells s) src len ! k" using k d(1) by (simp add: add.assoc)
  qed simp
  show "never_fails chip \<Longrightarrow> ok" using program_words_works run' by blast
qed

section \<open>What a bank holds\<close>

abbreviation entry_image :: "mem \<Rightarrow> nat \<Rightarrow> store_entry \<Rightarrow> u8 list" where
  "entry_image m b e \<equiv> mem_read m (add32 (bank_addr b) (e_off e)) (e_len e)"

definition bank_images :: "mem \<Rightarrow> nat \<Rightarrow> u8 list list" where
  "bank_images m b = map (entry_image m b) (bank_entries m b)"

text \<open>The images a reader gets.\<close>

definition images :: "mem \<Rightarrow> u8 list list" where
  "images m = map (\<lambda>i. case board_persist_entry m i of None \<Rightarrow> [] | Some (a, n) \<Rightarrow> mem_read m a n) [0 ..< board_persist_count m]"

lemma active_valid: "active_bank m = Some b \<Longrightarrow> bank_valid m b \<and> b < 2"
  by (auto simp: active_bank_def split: if_splits)

lemma images_bank: "images m = (case active_bank m of None \<Rightarrow> [] | Some b \<Rightarrow> bank_images m b)"
proof (cases "active_bank m")
  case None
  then show ?thesis by (simp add: images_def board_persist_count_def)
next
  case (Some b)
  let ?h = "bank_header m b"
  have c: "sh_count ?h \<le> 4" "length (sh_e ?h) = 4" using active_valid [OF Some] by (auto simp: bank_valid_def Let_def store_header_at_def)
  have "images m = map (\<lambda>i. entry_image m b (sh_e ?h ! i)) [0 ..< sh_count ?h]"
    using Some by (auto simp: images_def board_persist_count_def board_persist_entry_def Let_def)
  also have "\<dots> = bank_images m b"
    using c by (intro nth_equalityI) (simp_all add: bank_images_def bank_entries_def)
  finally show ?thesis using Some by simp
qed

text \<open>The entries of a marked bank lie in it, without a wrap of their bounds.\<close>

definition bank_inside :: "mem \<Rightarrow> nat \<Rightarrow> bool" where
  "bank_inside m b \<longleftrightarrow> (sh_magic (bank_header m b) = STORE_MAGIC \<longrightarrow>
     list_all (\<lambda>e. add32 (e_off e) (e_len e) \<le> BANK_SIZE \<longrightarrow> e_off e + e_len e \<le> BANK_SIZE) (bank_entries m b))"

definition store_ok :: "mem \<Rightarrow> bool" where
  "store_ok m \<longleftrightarrow> bank_inside m 0 \<and> bank_inside m 1"

definition bank_same :: "nat \<Rightarrow> mem \<Rightarrow> mem \<Rightarrow> bool" where
  "bank_same b m m' \<longleftrightarrow> (\<forall>x. in_bank b x \<longrightarrow> m' x = m x)"

lemma bank_addr_simps [simp]: "bank_addr 0 = STORE_ADDR" "b \<noteq> 0 \<Longrightarrow> bank_addr b = STORE_ADDR + BANK_SIZE"
  by (simp_all add: bank_addr_def)

lemma bank_addr_cases: "bank_addr b = STORE_ADDR \<or> bank_addr b = STORE_ADDR + BANK_SIZE"
  by (simp add: bank_addr_def)

lemma header_cong:
  assumes "\<And>x. a \<le> x \<Longrightarrow> x < a + STORE_HDR \<Longrightarrow> m' x = m x"
  shows "store_header_at m' a = store_header_at m a"
proof -
  have w: "ld32 m' (a + k) = ld32 m (a + k)" if "k + 4 \<le> STORE_HDR" for k
    by (rule ld32_cong) (use that assms in simp)
  have "entry_at m' (a + 16 + 16 * i) = entry_at m (a + 16 + 16 * i)" if "i < 4" for i
    using w [of "16 + 16 * i"] w [of "20 + 16 * i"] w [of "24 + 16 * i"] that by (simp add: entry_at_def add.assoc)
  then show ?thesis using w [of 0] w [of 4] w [of 8] by (simp add: store_header_at_def)
qed

lemma bank_cong:
  assumes "bank_same b m m'" "bank_inside m b"
  shows "bank_header m' b = bank_header m b" "bank_inside m' b" "bank_valid m' b = bank_valid m b"
    "bank_valid m b \<Longrightarrow> bank_images m' b = bank_images m b"
proof -
  show h: "bank_header m' b = bank_header m b"
    by (rule header_cong) (use assms(1) in \<open>auto simp: bank_same_def\<close>)
  then have e: "bank_entries m' b = bank_entries m b" by (simp add: bank_entries_def)
  show "bank_inside m' b" using assms(2) by (simp add: bank_inside_def h e)
  have img: "entry_image m' b x = entry_image m b x"
    if "sh_magic (bank_header m b) = STORE_MAGIC" "x \<in> set (bank_entries m b)" "add32 (e_off x) (e_len x) \<le> BANK_SIZE" for x
  proof -
    have "e_off x + e_len x \<le> BANK_SIZE" using assms(2) that by (simp add: bank_inside_def list_all_iff)
    moreover then have "add32 (bank_addr b) (e_off x) = bank_addr b + e_off x" using bank_addr_cases [of b] by (intro add32_small) auto
    ultimately show ?thesis using assms(1) by (intro mem_read_same) (auto simp: bank_same_def)
  qed
  show "bank_valid m' b = bank_valid m b"
    unfolding bank_valid_def Let_def h e list_all_iff using img by metis
  show "bank_images m' b = bank_images m b" if "bank_valid m b"
    using that img by (simp add: bank_images_def e bank_valid_def Let_def list_all_iff)
qed

section \<open>Building the new set\<close>

text \<open>Entries laid out below the cursor, everything else of the bank erased.\<close>

definition header_erased :: "mem \<Rightarrow> nat \<Rightarrow> bool" where
  "header_erased m b \<longleftrightarrow> (\<forall>x. bank_addr b \<le> x \<and> x < bank_addr b + STORE_HDR \<longrightarrow> m x = 0xFF)"

definition laid :: "mem \<Rightarrow> nat \<Rightarrow> store_entry list \<Rightarrow> nat \<Rightarrow> bool" where
  "laid m b es cur \<longleftrightarrow> STORE_HDR \<le> cur \<and> 8 dvd cur \<and> cur \<le> BANK_SIZE \<and> length es \<le> MAX_ENTRIES
     \<and> (\<forall>e \<in> set es. e_len e \<noteq> 0 \<and> STORE_HDR \<le> e_off e \<and> e_off e + e_len e \<le> cur \<and> mdl_crc32 (entry_image m b e) = e_crc32 e)
     \<and> header_erased m b \<and> (\<forall>x. bank_addr b + cur \<le> x \<and> x < bank_addr b + BANK_SIZE \<longrightarrow> m x = 0xFF)"

lemma align8_room: "8 dvd cur \<Longrightarrow> cur + n \<le> BANK_SIZE \<Longrightarrow>
    align8 (add32 cur n) = (cur + n + 7) div 8 * 8 \<and> 8 dvd align8 (add32 cur n) \<and> cur + n \<le> align8 (add32 cur n)
    \<and> align8 (add32 cur n) \<le> BANK_SIZE \<and> cur + span4 n \<le> align8 (add32 cur n)"
proof -
  assume a: "8 dvd cur" "cur + n \<le> BANK_SIZE"
  then have e: "align8 (add32 cur n) = (cur + n + 7) div 8 * 8" by (simp add: align8_def)
  have up: "k \<le> (k + 7) div 8 * 8" "span4 k \<le> (k + 7) div 8 * 8" for k :: nat by presburger+
  obtain q where q: "cur = 8 * q" using a(1) by (rule dvdE)
  have "(cur + n + 7) div 8 = q + (n + 7) div 8" unfolding q by (simp add: add.assoc)
  then have s: "(cur + n + 7) div 8 * 8 = cur + (n + 7) div 8 * 8" using q by simp
  have "(cur + n + 7) div 8 \<le> (BANK_SIZE + 7) div 8" using a(2) by (intro div_le_mono) simp
  then have "(cur + n + 7) div 8 * 8 \<le> BANK_SIZE" by simp
  moreover have "cur + span4 n \<le> (cur + n + 7) div 8 * 8" unfolding s using up(2) [of n] by simp
  ultimately have "cur + n \<le> (cur + n + 7) div 8 * 8 \<and> (cur + n + 7) div 8 * 8 \<le> BANK_SIZE \<and> cur + span4 n \<le> (cur + n + 7) div 8 * 8"
    using up(1) [of "cur + n"] by blast
  then show ?thesis unfolding e by simp
qed

lemma entry_addr: "e_off e + n \<le> BANK_SIZE \<Longrightarrow> add32 (bank_addr b) (e_off e) = bank_addr b + e_off e"
  using bank_addr_cases [of b] by (intro add32_small) auto

lemma write_entry:
  assumes chip: "chip_ok chip" and laid: "laid (cells s) b es cur" and n: "n \<noteq> 0" "cur + n \<le> BANK_SIZE" "length es < MAX_ENTRIES"
    and apart: "\<forall>x. src \<le> x \<and> x < src + n \<longrightarrow> \<not> in_bank b x"
    and crc: "mdl_crc32 (mem_read (cells s) src n) = c"
    and run: "write_bytes chip (bank_addr b + cur) src n s = (ok, s')"
  shows "\<not> in_bank b x \<Longrightarrow> cells s' x = cells s x" "header_erased (cells s') b" "f_unlocked s' = f_unlocked s"
    "ok \<Longrightarrow> laid (cells s') b (es @ [\<lparr>e_off = cur, e_len = n, e_crc32 = c\<rparr>]) (align8 (add32 cur n))
       \<and> map (entry_image (cells s') b) (es @ [\<lparr>e_off = cur, e_len = n, e_crc32 = c\<rparr>])
          = map (entry_image (cells s) b) es @ [mem_read (cells s) src n]"
    "never_fails chip \<Longrightarrow> ok"
proof -
  have L: "STORE_HDR \<le> cur" "8 dvd cur" "cur \<le> BANK_SIZE" "header_erased (cells s) b"
    "\<And>e. e \<in> set es \<Longrightarrow> e_len e \<noteq> 0 \<and> STORE_HDR \<le> e_off e \<and> e_off e + e_len e \<le> cur \<and> mdl_crc32 (entry_image (cells s) b e) = e_crc32 e"
    "\<And>x. bank_addr b + cur \<le> x \<Longrightarrow> x < bank_addr b + BANK_SIZE \<Longrightarrow> cells s x = 0xFF"
    using laid by (auto simp: laid_def)
  note A = align8_room [OF L(2) n(2)]
  have sp: "cur + span4 n \<le> BANK_SIZE" using A by linarith
  have er: "\<forall>x. bank_addr b + cur \<le> x \<and> x < bank_addr b + cur + span4 n \<longrightarrow> cells s x = 0xFF"
  proof (intro allI impI)
    fix x assume "bank_addr b + cur \<le> x \<and> x < bank_addr b + cur + span4 n"
    then show "cells s x = 0xFF" using sp by (intro L(6)) linarith+
  qed
  have ap: "\<forall>x. src \<le> x \<and> x < src + n \<longrightarrow> x < bank_addr b + cur \<or> bank_addr b + cur + span4 n \<le> x"
  proof (intro allI impI)
    fix x assume "src \<le> x \<and> x < src + n"
    then have "\<not> in_bank b x" using apart by blast
    then show "x < bank_addr b + cur \<or> bank_addr b + cur + span4 n \<le> x" using sp by linarith
  qed
  note W = write_bytes_spec [OF chip run er ap]
  show "\<not> in_bank b x \<Longrightarrow> cells s' x = cells s x"
    using sp by (intro W(1)) auto
  show "f_unlocked s' = f_unlocked s" by (rule W(2))
  show "never_fails chip \<Longrightarrow> ok" by (rule W(4))
  have below: "cells s' x = cells s x" if "x < bank_addr b + cur" for x using that by (intro W(1)) auto
  show he: "header_erased (cells s') b"
    unfolding header_erased_def
  proof (intro allI impI)
    fix x assume x: "bank_addr b \<le> x \<and> x < bank_addr b + STORE_HDR"
    then have "cells s' x = cells s x" using L(1) by (intro below) linarith
    then show "cells s' x = 0xFF" using L(4) x by (simp add: header_erased_def)
  qed
  have old: "entry_image (cells s') b e = entry_image (cells s) b e" if "e \<in> set es" for e
  proof -
    have "e_off e + e_len e \<le> cur" using L(5) [OF that] by blast
    moreover then have "add32 (bank_addr b) (e_off e) = bank_addr b + e_off e" using L(3) entry_addr [of e "e_len e"] by simp
    ultimately show ?thesis by (intro mem_read_same below) simp
  qed
  assume ok: ok
  let ?e = "\<lparr>e_off = cur, e_len = n, e_crc32 = c\<rparr>"
  have new: "entry_image (cells s') b ?e = mem_read (cells s) src n"
    using W(3) [OF ok] entry_addr [of ?e n] n(2) by simp
  have maps: "map (entry_image (cells s') b) (es @ [?e]) = map (entry_image (cells s) b) es @ [mem_read (cells s) src n]"
    using old new by simp
  have "cells s' x = 0xFF" if "bank_addr b + align8 (add32 cur n) \<le> x" "x < bank_addr b + BANK_SIZE" for x
  proof -
    have "cells s' x = cells s x" using that A by (intro W(1)) linarith
    then show ?thesis using L(6) [of x] that A by simp
  qed
  moreover have "e_len e \<noteq> 0 \<and> STORE_HDR \<le> e_off e \<and> e_off e + e_len e \<le> align8 (add32 cur n) \<and> mdl_crc32 (entry_image (cells s') b e) = e_crc32 e"
    if "e \<in> set (es @ [?e])" for e
  proof (cases "e = ?e")
    case True
    then show ?thesis using n(1) L(1) A new crc by (simp del: add32_small)
  next
    case False
    then have e: "e \<in> set es" using that by simp
    have "cur \<le> align8 (add32 cur n)" using A by linarith
    then show ?thesis using L(5) [OF e] old [OF e] by (simp del: add32_small)
  qed
  moreover have "STORE_HDR \<le> align8 (add32 cur n)" using L(1) A by linarith
  ultimately have "laid (cells s') b (es @ [?e]) (align8 (add32 cur n))"
    unfolding laid_def using he A n(3) by (simp del: add32_small)
  then show "laid (cells s') b (es @ [?e]) (align8 (add32 cur n))
      \<and> map (entry_image (cells s') b) (es @ [?e]) = map (entry_image (cells s) b) es @ [mem_read (cells s) src n]"
    using maps by blast
qed

section \<open>The set as a list of images\<close>

text \<open>Two images with one identity: both long enough to have a name, and the names equal.\<close>

definition same_id :: "u8 list \<Rightarrow> u8 list \<Rightarrow> bool" where
  "same_id a b \<longleftrightarrow> 88 \<le> length a \<and> 88 \<le> length b \<and> strncmp_eq NAME_MAX (take NAME_MAX (drop 72 a)) (take NAME_MAX (drop 72 b))"

lemma same_name_id: "same_name m a alen b blen = same_id (mem_read m a alen) (mem_read m b blen)"
proof -
  have n: "take NAME_MAX (drop 72 (mem_read m x l)) = mem_read m (x + 72) NAME_MAX" if "88 \<le> l" for x l
    by (rule nth_equalityI) (use that in \<open>auto simp: add.assoc\<close>)
  show ?thesis
    by (cases "88 \<le> alen"; cases "88 \<le> blen") (simp_all add: same_name_def image_name_of_def same_id_def n)
qed

text \<open>What a save makes of the set: the image goes to the end, and replaces the one with its identity.\<close>

definition saved_set :: "u8 list \<Rightarrow> u8 list list \<Rightarrow> u8 list list" where
  "saved_set new olds = filter (\<lambda>old. \<not> same_id old new) olds @ [new]"

text \<open>Whether images of these sizes, one after the other from \<open>cur\<close>, each from a multiple of 8, stay in a bank.\<close>

fun room :: "nat \<Rightarrow> nat list \<Rightarrow> bool" where
  "room cur [] = True"
| "room cur (n # ns) = (cur + n \<le> BANK_SIZE \<and> room ((cur + n + 7) div 8 * 8) ns)"

lemma carry_over_spec:
  assumes chip: "chip_ok chip" and src: "bank_inside m0 src" "bank_valid m0 src" "bank_addr src \<noteq> bank_addr dst"
    and img: "\<And>x. img \<le> x \<Longrightarrow> x < img + len \<Longrightarrow> \<not> in_bank dst x"
    and run: "carry_over chip src dst img len is es cur s = (r, s')"
    and m0: "\<forall>x. \<not> in_bank dst x \<longrightarrow> cells s x = m0 x" and laid: "laid (cells s) dst es cur"
    and "is": "\<forall>i \<in> set is. i < sh_count (bank_header m0 src)"
  shows "(\<forall>x. \<not> in_bank dst x \<longrightarrow> cells s' x = cells s x) \<and> header_erased (cells s') dst \<and> f_unlocked s' = f_unlocked s
    \<and> (let rs = filter (\<lambda>old. \<not> same_id old (mem_read m0 img len)) (map (\<lambda>i. bank_images m0 src ! i) is) in
        (case r of None \<Rightarrow> True | Some (es', cur') \<Rightarrow> laid (cells s') dst es' cur'
           \<and> map (entry_image (cells s') dst) es' = map (entry_image (cells s) dst) es @ rs)
      \<and> (never_fails chip \<and> length es + length rs \<le> MAX_ENTRIES \<and> room cur (map length rs @ ns) \<longrightarrow>
           (\<exists>es' cur'. r = Some (es', cur') \<and> length es' = length es + length rs \<and> room cur' ns)))"
  using run m0 laid "is"
proof (induction "is" arbitrary: s es cur)
  case Nil
  then show ?case by (auto simp: laid_def)
next
  case (Cons i "is")
  let ?e = "sh_e (bank_header m0 src) ! i" and ?new = "mem_read m0 img len"
  let ?old = "add32 (bank_addr src) (e_off ?e)"
  have v: "sh_count (bank_header m0 src) \<le> 4" "length (sh_e (bank_header m0 src)) = 4"
    using src(2) by (auto simp: bank_valid_def Let_def store_header_at_def)
  have i: "i < sh_count (bank_header m0 src)" using Cons.prems(4) by simp
  have mem: "?e \<in> set (bank_entries m0 src)" using i v by (auto simp: bank_entries_def in_set_conv_nth intro: exI [of _ i])
  have E: "e_len ?e \<noteq> 0" "e_off ?e + e_len ?e \<le> BANK_SIZE" "mdl_crc32 (entry_image m0 src ?e) = e_crc32 ?e"
    using mem src(1,2) by (auto simp: bank_valid_def bank_inside_def Let_def list_all_iff)
  have oa: "?old = bank_addr src + e_off ?e" by (rule entry_addr [OF E(2)])
  have ob: "x < STORE_ADDR + 2 * BANK_SIZE" "\<not> in_bank dst x" if "?old \<le> x" "x < ?old + e_len ?e" for x
    using that E(2) src(3) bank_addr_cases [of src] bank_addr_cases [of dst] unfolding oa by auto
  have h: "bank_header (cells s) src = bank_header m0 src"
    by (rule header_cong) (use Cons.prems(2) src(3) bank_addr_cases [of src] bank_addr_cases [of dst] in auto)
  have rd: "mem_read (cells s) ?old (e_len ?e) = entry_image m0 src ?e"
    using ob(2) Cons.prems(2) by (intro mem_read_same) blast
  have new: "mem_read (cells s) img len = ?new" using img Cons.prems(2) by (intro mem_read_same) blast
  have bi: "bank_images m0 src ! i = entry_image m0 src ?e" using i v by (simp add: bank_images_def bank_entries_def)
  have sn: "same_name (cells s) ?old (e_len ?e) img len = same_id (bank_images m0 src ! i) ?new"
    by (simp add: same_name_id rd new bi)
  have lb: "length (bank_images m0 src ! i) = e_len ?e" by (simp add: bi)
  show ?case
  proof (cases "same_id (bank_images m0 src ! i) ?new")
    case True
    then have r: "carry_over chip src dst img len is es cur s = (r, s')"
      using Cons.prems(1) sn by (simp add: h Let_def)
    show ?thesis using Cons.IH [OF r Cons.prems(2,3)] Cons.prems(4) True by simp
  next
    case F: False
    show ?thesis
    proof (cases "MAX_ENTRIES \<le> length es \<or> BANK_SIZE < add32 cur (e_len ?e)")
      case True
      then have r: "r = None" "s' = s" using Cons.prems(1) F sn by (auto simp: h Let_def)
      have "add32 cur (e_len ?e) = cur + e_len ?e" using E(2) Cons.prems(3) by (intro add32_small) (auto simp: laid_def)
      then have "\<not> (length es < MAX_ENTRIES \<and> cur + e_len ?e \<le> BANK_SIZE)" using True by auto
      then show ?thesis using r Cons.prems(3) F lb by (auto simp: laid_def Let_def)
    next
      case False
      have cl: "8 dvd cur" "cur \<le> BANK_SIZE" using Cons.prems(3) by (auto simp: laid_def)
      have c: "add32 cur (e_len ?e) = cur + e_len ?e" using E(2) cl(2) by (intro add32_small) auto
      have fit: "cur + e_len ?e \<le> BANK_SIZE" "length es < MAX_ENTRIES" using False c by auto
      obtain ok s1 where w: "write_bytes chip (bank_addr dst + cur) ?old (e_len ?e) s = (ok, s1)" by fastforce
      have crc: "mdl_crc32 (mem_read (cells s) ?old (e_len ?e)) = e_crc32 ?e" using rd E(3) by simp
      have ap: "\<forall>x. ?old \<le> x \<and> x < ?old + e_len ?e \<longrightarrow> \<not> in_bank dst x" using ob(2) by blast
      note W = write_entry [OF chip Cons.prems(3) E(1) fit ap crc w]
      show ?thesis
      proof (cases ok)
        case False
        then have r: "r = None" "s' = s1" using Cons.prems(1) F sn w fit c by (auto simp: h Let_def)
        show ?thesis using r W(1,2,3,5) False by (auto simp: Let_def)
      next
        case True
        let ?es = "es @ [\<lparr>e_off = cur, e_len = e_len ?e, e_crc32 = e_crc32 ?e\<rparr>]" and ?cur = "align8 (add32 cur (e_len ?e))"
        have r: "carry_over chip src dst img len is ?es ?cur s1 = (r, s')"
          using Cons.prems(1) F sn w fit c True by (simp add: h Let_def)
        have m1: "\<forall>x. \<not> in_bank dst x \<longrightarrow> cells s1 x = m0 x" using W(1) Cons.prems(2) by simp
        have cu: "?cur = (cur + e_len ?e + 7) div 8 * 8" using align8_room [OF cl(1) fit(1)] by blast
        have i1: "\<forall>i \<in> set is. i < sh_count (bank_header m0 src)" using Cons.prems(4) by simp
        note I = Cons.IH [OF r m1 conjunct1 [OF W(4) [OF True]] i1]
        show ?thesis using I W(1,3) conjunct2 [OF W(4) [OF True]] F lb rd bi cu by (auto simp: Let_def split: option.splits)
      qed
    qed
  qed
qed

section \<open>The header\<close>

lemma nth_entry_words: "k < length es \<Longrightarrow> j < 4 \<Longrightarrow> concat (map entry_words es) ! (4 * k + j) = entry_words (es ! k) ! j"
proof (induction es arbitrary: k)
  case (Cons e es)
  have l: "length (entry_words e) = 4" by (simp add: entry_words_def)
  show ?case
  proof (cases k)
    case 0
    then show ?thesis using Cons.prems(2) l by (simp add: nth_append)
  next
    case (Suc k')
    then have "4 * k + j = length (entry_words e) + (4 * k' + j)" using l by simp
    then show ?thesis using Cons Suc by (simp add: nth_append)
  qed
qed simp

lemma length_entry_words [simp]: "length (concat (map entry_words es)) = 4 * length es"
  by (induction es) (simp_all add: entry_words_def)

lemma header_words_nth:
  assumes "length es \<le> MAX_ENTRIES"
  shows "length (header_words seq es) = 20" "header_words seq es ! 0 = STORE_MAGIC" "header_words seq es ! 1 = seq"
    "header_words seq es ! 2 = of_nat (length es)"
    "k < length es \<Longrightarrow> j < 4 \<Longrightarrow> header_words seq es ! (4 + 4 * k + j) = entry_words (es ! k) ! j"
proof -
  show "length (header_words seq es) = 20" using assms by (simp add: header_words_def)
  show "header_words seq es ! 0 = STORE_MAGIC" "header_words seq es ! 1 = seq" "header_words seq es ! 2 = of_nat (length es)"
    by (simp_all add: header_words_def nth_append numeral_2_eq_2)
  assume k: "k < length es" "j < 4"
  have "header_words seq es ! (4 + (4 * k + j)) = (concat (map entry_words es) @ replicate (4 * (MAX_ENTRIES - length es)) 0) ! (4 * k + j)"
    unfolding header_words_def by (subst nth_append) simp
  also have "\<dots> = entry_words (es ! k) ! j" using k by (subst nth_append) (simp add: nth_entry_words)
  finally show "header_words seq es ! (4 + 4 * k + j) = entry_words (es ! k) ! j" by (simp add: add.assoc)
qed

text \<open>The header that describes the entries.\<close>

definition describes :: "mem \<Rightarrow> nat \<Rightarrow> u32 \<Rightarrow> store_entry list \<Rightarrow> bool" where
  "describes m b seq es \<longleftrightarrow> sh_magic (bank_header m b) = STORE_MAGIC \<and> sh_seq (bank_header m b) = seq
     \<and> sh_count (bank_header m b) = length es \<and> bank_entries m b = es"

lemma unat_of_nat32: "n < 2 ^ 32 \<Longrightarrow> unat (of_nat n :: u32) = n"
  by (simp add: unat_of_nat)

lemma words_describe:
  assumes w: "\<forall>i < 20. ld32 m (bank_addr b + 4 * i) = header_words seq es ! i"
    and es: "length es \<le> MAX_ENTRIES" "\<And>e. e \<in> set es \<Longrightarrow> e_off e < 2 ^ 32 \<and> e_len e < 2 ^ 32"
  shows "describes m b seq es"
proof -
  note H = header_words_nth [OF es(1), where seq = seq]
  have c: "unat (of_nat (length es) :: u32) = length es" using es(1) by (intro unat_of_nat32) simp
  have h: "sh_magic (bank_header m b) = STORE_MAGIC" "sh_seq (bank_header m b) = seq" "sh_count (bank_header m b) = length es"
    using w [rule_format, of 0] w [rule_format, of 1] w [rule_format, of 2] H(2-4) c by (simp_all add: store_header_at_def)
  have e: "entry_at m (bank_addr b + 16 + 16 * k) = es ! k" if k: "k < length es" for k
  proof -
    have s: "e_off (es ! k) < 2 ^ 32" "e_len (es ! k) < 2 ^ 32" using es(2) [OF nth_mem [OF k]] by auto
    have x: "ld32 m (bank_addr b + 16 + 16 * k + 4 * j) = entry_words (es ! k) ! j" if "j < 4" for j
    proof -
      have "4 + 4 * k + j < 20" using k es(1) that by simp
      then have "ld32 m (bank_addr b + 4 * (4 + 4 * k + j)) = header_words seq es ! (4 + 4 * k + j)" using w by blast
      moreover have "bank_addr b + 4 * (4 + 4 * k + j) = bank_addr b + 16 + 16 * k + 4 * j" by simp
      ultimately show ?thesis using H(5) [OF k that] by metis
    qed
    have u: "unat (of_nat (e_off (es ! k)) :: u32) = e_off (es ! k)" "unat (of_nat (e_len (es ! k)) :: u32) = e_len (es ! k)"
      using s by (simp_all add: unat_of_nat32)
    show ?thesis using x [of 0] x [of 1] x [of 2] u by (simp add: entry_at_def entry_words_def)
  qed
  have "bank_entries m b = es"
  proof (rule nth_equalityI)
    show l: "length (bank_entries m b) = length es" using h(3) es(1) by (simp add: bank_entries_def store_header_at_def)
    show "bank_entries m b ! k = es ! k" if "k < length (bank_entries m b)" for k
      using that e [of k] es(1) unfolding l unfolding bank_entries_def h(3) by (simp add: store_header_at_def del: upt_rec_numeral upt_Suc)
  qed
  then show ?thesis using h by (simp add: describes_def)
qed

lemma write_header_spec:
  assumes chip: "chip_ok chip" and laid: "laid (cells s) b es cur" and run: "write_header chip b seq es s = (ok, s')"
  shows "(\<forall>x. x < bank_addr b \<or> bank_addr b + STORE_HDR \<le> x \<longrightarrow> cells s' x = cells s x) \<and> f_unlocked s' = f_unlocked s
    \<and> (sh_magic (bank_header (cells s') b) \<noteq> STORE_MAGIC \<or> describes (cells s') b seq es)
    \<and> (ok \<longrightarrow> describes (cells s') b seq es) \<and> (never_fails chip \<longrightarrow> ok)"
proof -
  let ?w = "\<lambda>i _. header_words seq es ! i"
  have es: "length es \<le> MAX_ENTRIES" "\<And>e. e \<in> set es \<Longrightarrow> e_off e < 2 ^ 32 \<and> e_len e < 2 ^ 32"
    using laid by (fastforce simp: laid_def)+
  have er: "ld32 (cells s) (bank_addr b + 4 * i) = 0xFFFFFFFF" if "i < 20" for i
    by (rule ld32_erased) (use laid that in \<open>auto simp: laid_def header_erased_def\<close>)
  obtain ok1 s1 where r1: "program_words chip (bank_addr b) ?w [1 ..< 20] s = (ok1, s1)" by fastforce
  have P1: "(\<forall>x. (\<forall>i \<in> set [1 ..< 20]. x < bank_addr b + 4 * i \<or> bank_addr b + 4 * i + 4 \<le> x) \<longrightarrow> cells s1 x = cells s x)
    \<and> f_unlocked s1 = f_unlocked s \<and> (ok1 \<longrightarrow> (\<forall>i \<in> set [1 ..< 20]. ld32 (cells s1) (bank_addr b + 4 * i) = ?w i (cells s)))"
    by (rule program_words_spec [OF chip r1]) (use er in auto)
  have same1: "cells s1 x = cells s x" if "x < bank_addr b + 4 \<or> bank_addr b + STORE_HDR \<le> x" for x
    using P1 that by auto
  have m1: "ld32 (cells s1) (bank_addr b) = 0xFFFFFFFF"
    using er [of 0] ld32_cong [of "cells s1" "bank_addr b" "cells s"] same1 by simp
  have split: "write_header chip b seq es s = (if ok1 then program_words chip (bank_addr b) ?w [0] s1 else (False, s1))"
    using r1 by (simp add: write_header_def Let_def del: upt_rec_numeral program_words.simps)
  show ?thesis
  proof (cases ok1)
    case False
    then have "ok = False" "s' = s1" using run split by auto
    moreover have "sh_magic (bank_header (cells s1) b) \<noteq> STORE_MAGIC" using m1 by (simp add: store_header_at_def)
    ultimately show ?thesis using same1 P1 False program_words_works r1 by auto
  next
    case True
    have r2: "program_words chip (bank_addr b) ?w [0] s1 = (ok, s')" using run split True by simp
    have P2: "(\<forall>x. (\<forall>i \<in> set [0]. x < bank_addr b + 4 * i \<or> bank_addr b + 4 * i + 4 \<le> x) \<longrightarrow> cells s' x = cells s1 x)
      \<and> f_unlocked s' = f_unlocked s1 \<and> (ok \<longrightarrow> (\<forall>i \<in> set [0]. ld32 (cells s') (bank_addr b + 4 * i) = ?w i (cells s1)))"
      by (rule program_words_spec [OF chip r2]) (use m1 in auto)
    have rest: "ld32 (cells s') (bank_addr b + 4 * i) = header_words seq es ! i" if i: "1 \<le> i" "i < 20" for i
    proof -
      have "ld32 (cells s') (bank_addr b + 4 * i) = ld32 (cells s1) (bank_addr b + 4 * i)"
        by (rule ld32_cong) (use P2 i in auto)
      then show ?thesis using P1 True i by simp
    qed
    have d: "describes (cells s') b seq es" if "sh_magic (bank_header (cells s') b) = STORE_MAGIC"
    proof (rule words_describe [OF _ es])
      have "ld32 (cells s') (bank_addr b) = STORE_MAGIC" using that by (simp add: store_header_at_def)
      then show "\<forall>i < 20. ld32 (cells s') (bank_addr b + 4 * i) = header_words seq es ! i"
        using rest header_words_nth(2) [OF es(1), where seq = seq] by (metis add.right_neutral less_one linorder_not_less mult_0_right)
    qed
    have "sh_magic (bank_header (cells s') b) = STORE_MAGIC" if ok
      using P2 that header_words_nth(2) [OF es(1), where seq = seq] by (simp add: store_header_at_def)
    moreover have "cells s' x = cells s x" if "x < bank_addr b \<or> bank_addr b + STORE_HDR \<le> x" for x
      using P2 same1 [of x] that by auto
    moreover have "never_fails chip \<Longrightarrow> ok" using program_words_works r2 by blast
    ultimately show ?thesis using d P1 P2 by blast
  qed
qed

section \<open>What a reader sees\<close>

text \<open>The bank a save writes to.\<close>

abbreviation inactive :: "mem \<Rightarrow> nat" where "inactive m \<equiv> (if active_bank m = Some 0 then 1 else 0)"

lemma banks_apart: "in_bank 0 x \<Longrightarrow> \<not> in_bank 1 x" "in_bank 1 x \<Longrightarrow> \<not> in_bank 0 x"
  by simp_all

lemma erased_unmarked: "(\<forall>x. bank_addr b \<le> x \<and> x < bank_addr b + 4 \<longrightarrow> m x = 0xFF) \<Longrightarrow> sh_magic (bank_header m b) \<noteq> STORE_MAGIC"
  using ld32_erased [of m "bank_addr b"] by (simp add: store_header_at_def)

lemma unmarked: "sh_magic (bank_header m b) \<noteq> STORE_MAGIC \<Longrightarrow> \<not> bank_valid m b \<and> bank_inside m b"
  by (simp add: bank_valid_def bank_inside_def Let_def)

text \<open>While the other bank is not marked, the old set is what is there.\<close>

lemma old_view:
  assumes ok: "store_ok m" and same: "\<forall>x. \<not> in_bank (inactive m) x \<longrightarrow> m' x = m x"
    and dst: "sh_magic (bank_header m' (inactive m)) \<noteq> STORE_MAGIC \<or> m' = m"
  shows "images m' = images m" "store_ok m'"
proof -
  have "images m' = images m \<and> store_ok m'"
  proof (cases "m' = m")
    case False
    then have un: "\<not> bank_valid m' (inactive m)" "bank_inside m' (inactive m)" using dst unmarked by blast+
    show ?thesis
    proof (cases "active_bank m = Some 0")
      case True
      have s: "bank_same 0 m m'" unfolding bank_same_def using same True banks_apart(1) by simp
      note C = bank_cong [OF s, OF conjunct1 [OF ok [unfolded store_ok_def]]]
      have v: "bank_valid m 0" using active_valid [OF True] by blast
      have "active_bank m' = Some 0" using v C(3) un(1) True by (simp add: active_bank_def)
      then show ?thesis using True C(2,4) v un(2) by (simp add: images_bank store_ok_def)
    next
      case F: False
      have s: "bank_same 1 m m'" unfolding bank_same_def using same F banks_apart(2) by simp
      note C = bank_cong [OF s, OF conjunct2 [OF ok [unfolded store_ok_def]]]
      have un': "\<not> bank_valid m' 0" "bank_inside m' 0" using un F by simp_all
      have a: "active_bank m = Some 1 \<and> bank_valid m 1 \<or> active_bank m = None \<and> \<not> bank_valid m 1"
        using F by (auto simp: active_bank_def split: if_splits)
      then have "active_bank m' = active_bank m" using C(3) un'(1) by (auto simp: active_bank_def)
      then show ?thesis using a C(2,4) un'(2) by (auto simp: images_bank store_ok_def)
    qed
  qed (use ok in simp)
  then show "images m' = images m" "store_ok m'" by blast+
qed

text \<open>Once it is, with the next sequence number, the new set is.\<close>

lemma new_view:
  assumes ok: "store_ok m" and dst: "b = inactive m" "bank_valid m' b" "bank_inside m' b"
    and seq: "sh_seq (bank_header m' b) = (case active_bank m of None \<Rightarrow> 1 | Some a \<Rightarrow> sh_seq (bank_header m a) + 1)"
    and other: "bank_same (1 - b) m m' \<or> sh_magic (bank_header m' (1 - b)) \<noteq> STORE_MAGIC"
  shows "images m' = bank_images m' b" "store_ok m'"
proof -
  have b: "b = 0 \<or> b = 1" using dst(1) by auto
  have in1: "bank_inside m (1 - b)" using ok b by (auto simp: store_ok_def)
  have "bank_inside m' (1 - b)" using other bank_cong(2) [OF _ in1] unmarked by blast
  then show "store_ok m'" using dst(3) b by (auto simp: store_ok_def)
  have "active_bank m' = Some b"
  proof (cases "bank_valid m' (1 - b)")
    case False
    then show ?thesis using b dst(2) by (auto simp: active_bank_def)
  next
    case True
    then have s: "bank_same (1 - b) m m'" using other unmarked by blast
    note C = bank_cong [OF s in1]
    have v: "bank_valid m (1 - b)" using C(3) True by simp
    have "active_bank m = Some (1 - b)"
      using v dst(1) b by (auto simp: active_bank_def split: if_splits)
    then have "sh_seq (bank_header m' b) = sh_seq (bank_header m' (1 - b)) + 1" using seq C(1) by simp
    then show ?thesis using b dst(2) True by (auto simp: active_bank_def)
  qed
  then show "images m' = bank_images m' b" by (simp add: images_bank)
qed

lemma described_valid:
  assumes laid: "laid m b es cur" and d: "describes m' b seq es" and ne: "es \<noteq> []"
    and same: "\<forall>x. in_bank b x \<and> bank_addr b + STORE_HDR \<le> x \<longrightarrow> m' x = m x"
  shows "bank_valid m' b" "bank_inside m' b" "bank_images m' b = map (entry_image m b) es"
proof -
  have E: "e_len e \<noteq> 0" "e_off e + e_len e \<le> BANK_SIZE" "mdl_crc32 (entry_image m b e) = e_crc32 e" "entry_image m' b e = entry_image m b e"
    if "e \<in> set es" for e
  proof -
    have l: "e_len e \<noteq> 0" "STORE_HDR \<le> e_off e" "e_off e + e_len e \<le> cur" "cur \<le> BANK_SIZE" "mdl_crc32 (entry_image m b e) = e_crc32 e"
      using laid that by (auto simp: laid_def)
    show 1: "e_len e \<noteq> 0" "e_off e + e_len e \<le> BANK_SIZE" "mdl_crc32 (entry_image m b e) = e_crc32 e" using l by auto
    have "add32 (bank_addr b) (e_off e) = bank_addr b + e_off e" by (rule entry_addr [OF 1(2)])
    then show "entry_image m' b e = entry_image m b e"
      using same l by (intro mem_read_same) simp
  qed
  have a32: "add32 (e_off e) (e_len e) = e_off e + e_len e" if "e \<in> set es" for e
    using E(2) [OF that] by (intro add32_small) simp
  have len: "length es \<le> 4" using laid by (simp add: laid_def)
  show "bank_valid m' b"
    using d ne len E a32 by (auto simp: describes_def bank_valid_def Let_def list_all_iff)
  show "bank_inside m' b"
    using d E(2) by (auto simp: describes_def bank_inside_def list_all_iff)
  show "bank_images m' b = map (entry_image m b) es"
    using d E(4) by (auto simp: describes_def bank_images_def)
qed

section \<open>Saving\<close>

abbreviation in_store :: "addr \<Rightarrow> bool" where
  "in_store x \<equiv> STORE_ADDR \<le> x \<and> x < STORE_ADDR + STORE_SIZE"

lemma in_bank_store: "in_bank b x \<Longrightarrow> in_store x"
  using bank_addr_cases [of b] by auto

text \<open>Filling the erased bank: the entries of the new set, or a bank without a header.\<close>

lemma fill_bank:
  assumes chip: "chip_ok chip" and ok0: "store_ok m" and dst: "dst = inactive m" and src: "src = active_bank m"
    and img: "\<forall>x. img \<le> x \<and> x < img + len \<longrightarrow> \<not> in_store x" and len: "len \<noteq> 0" "len + STORE_HDR < 2 ^ 32"
    and s: "\<forall>x. \<not> in_bank dst x \<longrightarrow> cells s x = m x" "\<forall>x. in_bank dst x \<longrightarrow> cells s x = 0xFF"
    and carry: "carry_over chip (the src) dst img len (case src of None \<Rightarrow> [] | Some b \<Rightarrow> [0 ..< sh_count (bank_header (cells s) b)])
      [] (align8 STORE_HDR) s = (r, s2)"
  shows "(\<forall>x. \<not> in_bank dst x \<longrightarrow> cells s2 x = m x) \<and> header_erased (cells s2) dst \<and> f_unlocked s2 = f_unlocked s
    \<and> (let rs = filter (\<lambda>old. \<not> same_id old (mem_read m img len)) (images m) in
        (case r of None \<Rightarrow> True | Some (es', cur') \<Rightarrow> laid (cells s2) dst es' cur' \<and> map (entry_image (cells s2) dst) es' = rs)
      \<and> (never_fails chip \<and> length rs \<le> MAX_ENTRIES \<and> room STORE_HDR (map length rs @ [len]) \<longrightarrow>
           (\<exists>es' cur'. r = Some (es', cur') \<and> length es' = length rs \<and> room cur' [len])))"
proof -
  have a8: "align8 STORE_HDR = STORE_HDR" by (simp add: align8_def)
  have laid0: "laid (cells s) dst [] STORE_HDR" using s(2) by (auto simp: laid_def header_erased_def)
  show ?thesis
  proof (cases src)
    case None
    then have "r = Some ([], STORE_HDR)" "s2 = s" using carry by (simp_all add: a8)
    moreover have "images m = []" using None src by (simp add: images_bank)
    ultimately show ?thesis using s laid0 by (auto simp: laid_def)
  next
    case (Some b)
    have v: "bank_valid m b" "b < 2" using active_valid Some src by auto
    have ib: "bank_inside m b" using ok0 v(2) less_2_cases [of b] by (auto simp: store_ok_def)
    have ne: "bank_addr b \<noteq> bank_addr dst" using dst Some src v(2) less_2_cases [of b] by auto
    have h: "bank_header (cells s) b = bank_header m b"
      by (rule header_cong) (use s(1) ne bank_addr_cases [of b] bank_addr_cases [of dst] in auto)
    have im: "images m = map (\<lambda>i. bank_images m b ! i) [0 ..< sh_count (bank_header m b)]"
    proof -
      have "length (bank_images m b) = sh_count (bank_header m b)"
        using v(1) by (auto simp: bank_images_def bank_entries_def bank_valid_def Let_def store_header_at_def)
      then have "map (\<lambda>i. bank_images m b ! i) [0 ..< sh_count (bank_header m b)] = bank_images m b"
        by (metis map_nth)
      then show ?thesis using Some src by (simp add: images_bank)
    qed
    have i: "\<And>x. img \<le> x \<Longrightarrow> x < img + len \<Longrightarrow> \<not> in_bank dst x" using img in_bank_store by blast
    have run: "carry_over chip b dst img len [0 ..< sh_count (bank_header m b)] [] STORE_HDR s = (r, s2)"
      using carry Some by (simp add: h a8)
    have lt: "\<forall>i \<in> set [0 ..< sh_count (bank_header m b)]. i < sh_count (bank_header m b)" by simp
    note S = carry_over_spec [OF chip ib v(1) ne i run s(1) laid0 lt, where ns = "[len]"]
    show ?thesis using S s(1) unfolding im [symmetric] by (auto simp: Let_def split: option.splits)
  qed
qed

text \<open>With the new header in place the old bank is erased, if it can be.\<close>

lemma after_header:
  assumes chip: "chip_ok chip" and dst: "dst = inactive m" and s4: "\<forall>x. \<not> in_bank dst x \<longrightarrow> cells s4 x = m x"
    and t: "t = (if ok4 then (case active_bank m of None \<Rightarrow> s4 | Some b \<Rightarrow> snd (erase_bank chip b s4)) else s4)"
  shows "bank_same dst (cells s4) (cells t)
    \<and> (bank_same (1 - dst) m (cells t) \<or> sh_magic (bank_header (cells t) (1 - dst)) \<noteq> STORE_MAGIC)
    \<and> (\<forall>x. \<not> in_store x \<longrightarrow> cells t x = m x)"
proof -
  have dd: "dst = 0 \<or> dst = 1" using dst by auto
  have o: "bank_same (1 - dst) m (cells s4)" using s4 dd banks_apart by (auto simp: bank_same_def)
  have out: "\<forall>x. \<not> in_store x \<longrightarrow> cells s4 x = m x" using s4 in_bank_store by blast
  show ?thesis
  proof (cases "ok4 \<and> active_bank m \<noteq> None")
    case False
    then have "t = s4" using t by (auto split: if_splits option.splits)
    then show ?thesis using o out by (simp add: bank_same_def)
  next
    case True
    then obtain b where b: "active_bank m = Some b" "ok4" by auto
    have bd: "b = 1 - dst" using b(1) active_valid [OF b(1)] dst less_2_cases [of b] by auto
    obtain ok5 where e: "erase_bank chip b s4 = (ok5, t)" using t b by (metis option.simps(5) prod.collapse)
    note E = erase_bank_spec [OF chip e]
    have "bank_same dst (cells s4) (cells t)" unfolding bank_same_def using E(1) bd dd banks_apart by auto
    moreover have "\<forall>x. \<not> in_store x \<longrightarrow> cells t x = m x" using E(1) out in_bank_store [of b] by metis
    moreover have "bank_same (1 - dst) m (cells t) \<or> sh_magic (bank_header (cells t) (1 - dst)) \<noteq> STORE_MAGIC"
      using E(3)
    proof
      assume "\<forall>x. bank_addr b \<le> x \<and> x < bank_addr b + SECTOR_STEP \<longrightarrow> cells t x = 0xFF"
      then have "sh_magic (bank_header (cells t) b) \<noteq> STORE_MAGIC" by (intro erased_unmarked) simp
      then show ?thesis unfolding bd ..
    qed (use o in simp)
    ultimately show ?thesis by blast
  qed
qed

lemma save_outcome:
  assumes chip: "chip_ok chip" and ok0: "store_ok (cells s)" and un0: "\<not> f_unlocked s"
    and img: "\<forall>x. img \<le> x \<and> x < img + len \<longrightarrow> \<not> in_store x" and len: "len + STORE_HDR < 2 ^ 32"
    and run: "board_persist_save chip img len s = (ok, s')"
  shows "store_ok (cells s') \<and> \<not> f_unlocked s' \<and> (\<forall>x. \<not> in_store x \<longrightarrow> cells s' x = cells s x)
    \<and> (images (cells s') = saved_set (mem_read (cells s) img len) (images (cells s)) \<or> \<not> ok \<and> images (cells s') = images (cells s))
    \<and> (let news = saved_set (mem_read (cells s) img len) (images (cells s)) in
        never_fails chip \<and> len \<noteq> 0 \<and> len + STORE_HDR \<le> BANK_SIZE \<and> length news \<le> MAX_ENTRIES \<and> room STORE_HDR (map length news) \<longrightarrow> ok)"
proof (cases "len = 0 \<or> BANK_SIZE < add32 len STORE_HDR")
  case True
  then have "ok = False" "s' = s" using run by (auto simp: board_persist_save_def)
  moreover have "\<not> (len \<noteq> 0 \<and> len + STORE_HDR \<le> BANK_SIZE)" using True len by auto
  ultimately show ?thesis using ok0 un0 by (auto simp: Let_def)
next
  case False
  let ?m = "cells s" and ?dst = "inactive (cells s)"
  let ?new = "mem_read ?m img len" and ?rs = "filter (\<lambda>old. \<not> same_id old (mem_read ?m img len)) (images ?m)"
  let ?seq = "case active_bank ?m of None \<Rightarrow> 1 | Some b \<Rightarrow> sh_seq (bank_header ?m b) + 1"
  obtain okr t where t: "save_set chip (active_bank ?m) ?dst ?seq img len (s\<lparr>f_unlocked := True\<rparr>) = (okr, t)" by fastforce
  have s': "ok = okr" "s' = t\<lparr>f_unlocked := False\<rparr>" using run t False by (simp_all add: board_persist_save_def)
  have in_dst: "in_bank ?dst x \<Longrightarrow> in_store x" for x by (rule in_bank_store)
  let ?goal = "\<lambda>okr t. store_ok (cells t) \<and> (\<forall>x. \<not> in_store x \<longrightarrow> cells t x = ?m x)
    \<and> (images (cells t) = ?rs @ [?new] \<or> \<not> okr \<and> images (cells t) = images ?m)
    \<and> (never_fails chip \<and> length (?rs @ [?new]) \<le> MAX_ENTRIES \<and> room STORE_HDR (map length (?rs @ [?new])) \<longrightarrow> okr)"
  have early: "?goal False u"
    if "\<forall>x. \<not> in_bank ?dst x \<longrightarrow> cells u x = ?m x" "sh_magic (bank_header (cells u) ?dst) \<noteq> STORE_MAGIC \<or> cells u = ?m"
      "\<not> (never_fails chip \<and> length (?rs @ [?new]) \<le> MAX_ENTRIES \<and> room STORE_HDR (map length (?rs @ [?new])))" for u
    using old_view [OF ok0 that(1,2)] that(1,3) in_dst by blast
  obtain ok1 s1 where e: "erase_bank chip ?dst (s\<lparr>f_unlocked := True\<rparr>) = (ok1, s1)" by fastforce
  note E = erase_bank_spec [OF chip e, simplified]
  have "?goal okr t"
  proof (cases ok1)
    case False
    then have r: "okr = False" "t = s1" using t e by (simp_all add: save_set_def)
    have "sh_magic (bank_header (cells s1) ?dst) \<noteq> STORE_MAGIC \<or> cells s1 = ?m"
      using E(3)
    proof
      assume "\<forall>x. bank_addr ?dst \<le> x \<and> x < bank_addr ?dst + SECTOR_STEP \<longrightarrow> cells s1 x = 0xFF"
      then have "sh_magic (bank_header (cells s1) ?dst) \<noteq> STORE_MAGIC" by (intro erased_unmarked) simp
      then show ?thesis ..
    qed simp
    then show ?thesis unfolding r using E(1,5) False by (intro early) blast+
  next
    case True
    have s1: "\<forall>x. \<not> in_bank ?dst x \<longrightarrow> cells s1 x = ?m x" "\<forall>x. in_bank ?dst x \<longrightarrow> cells s1 x = 0xFF"
      using E(1) E(2) [OF True] by blast+
    obtain r2 s2 where c: "carry_over chip (the (active_bank ?m)) ?dst img len
        (case active_bank ?m of None \<Rightarrow> [] | Some b \<Rightarrow> [0 ..< sh_count (bank_header (cells s1) b)]) [] (align8 STORE_HDR) s1 = (r2, s2)" by fastforce
    have l0: "len \<noteq> 0" using False by simp
    note F = fill_bank [OF chip ok0 refl refl img l0 len s1 c]
    have m2: "sh_magic (bank_header (cells s2) ?dst) \<noteq> STORE_MAGIC"
      using F by (intro erased_unmarked) (auto simp: header_erased_def)
    show ?thesis
    proof (cases r2)
      case None
      then have r: "okr = False" "t = s2" using t e c True by (simp_all add: save_set_def Let_def)
      show ?thesis unfolding r using F m2 None by (intro early) (auto simp: Let_def)
    next
      case (Some p)
      obtain es cur where p: "p = (es, cur)" by fastforce
      have L: "laid (cells s2) ?dst es cur" "map (entry_image (cells s2) ?dst) es = ?rs"
        using F Some p by (simp_all add: Let_def)
      have les: "length es = length ?rs" using arg_cong [OF L(2), of length] by simp
      have s2: "\<forall>x. \<not> in_bank ?dst x \<longrightarrow> cells s2 x = ?m x" using F by blast
      have new2: "mem_read (cells s2) img len = ?new"
        using img in_dst s2 by (intro mem_read_same) blast
      have cur: "cur \<le> BANK_SIZE" using L(1) by (simp add: laid_def)
      have ac: "add32 cur len = cur + len" using cur len False by (intro add32_small) auto
      show ?thesis
      proof (cases "MAX_ENTRIES \<le> length es \<or> BANK_SIZE < add32 cur len")
        case full: True
        then have r: "okr = False" "t = s2" using t e c True Some p by (auto simp: save_set_def Let_def put_image_def)
        have "\<not> (never_fails chip \<and> length (?rs @ [?new]) \<le> MAX_ENTRIES \<and> room STORE_HDR (map length (?rs @ [?new])))"
          using F Some p full les ac by (auto simp: Let_def)
        then show ?thesis unfolding r using s2 m2 by (intro early) blast+
      next
        case fits: False
        let ?c = "mdl_crc32 (mem_read (cells s2) img len)"
        let ?es = "es @ [\<lparr>e_off = cur, e_len = len, e_crc32 = ?c\<rparr>]" and ?cur = "align8 (add32 cur len)"
        obtain ok3 s3 where w: "write_bytes chip (bank_addr ?dst + cur) img len s2 = (ok3, s3)" by fastforce
        have fit: "cur + len \<le> BANK_SIZE" "length es < MAX_ENTRIES" using fits ac by simp_all
        have ap: "\<forall>x. img \<le> x \<and> x < img + len \<longrightarrow> \<not> in_bank ?dst x" using img in_dst by blast
        note W = write_entry [OF chip L(1) l0 fit ap refl w]
        have s3: "\<forall>x. \<not> in_bank ?dst x \<longrightarrow> cells s3 x = ?m x" using W(1) s2 by simp
        have new3: "mem_read (cells s3) img len = mem_read (cells s2) img len"
          using ap W(1) by (intro mem_read_same) blast
        have m3: "sh_magic (bank_header (cells s3) ?dst) \<noteq> STORE_MAGIC"
          using W(2) by (intro erased_unmarked) (auto simp: header_erased_def)
        show ?thesis
        proof (cases ok3)
          case f3: False
          then have r: "okr = False" "t = s3"
            using t e c True Some p w fit ac by (auto simp: save_set_def Let_def put_image_def)
          show ?thesis unfolding r using s3 m3 W(5) f3 by (intro early) blast+
        next
          case t3: True
          obtain ok4 s4 where h: "write_header chip ?dst ?seq ?es s3 = (ok4, s4)" by fastforce
          have L3: "laid (cells s3) ?dst ?es ?cur" and imgs: "map (entry_image (cells s3) ?dst) ?es = ?rs @ [?new]"
            using W(4) [OF t3] L(2) new2 by simp_all
          note H = write_header_spec [OF chip L3 h]
          have s4: "\<forall>x. \<not> in_bank ?dst x \<longrightarrow> cells s4 x = ?m x" using H s3 by auto
          have "put_image chip ?dst img len es cur s2 = (Some ?es, s3)"
            using w fit ac t3 new3 by (simp add: put_image_def)
          then have run3: "save_set chip (active_bank ?m) ?dst ?seq img len (s\<lparr>f_unlocked := True\<rparr>)
              = (if ok4 then (True, case active_bank ?m of None \<Rightarrow> s4 | Some b \<Rightarrow> snd (erase_bank chip b s4)) else (False, s4))"
            using e c True Some p h by (simp only: save_set_def Let_def prod.case option.case if_True if_False not_True_eq_False) simp
          have r: "okr = ok4" "t = (if ok4 then (case active_bank ?m of None \<Rightarrow> s4 | Some b \<Rightarrow> snd (erase_bank chip b s4)) else s4)"
            using run3 t by (simp_all split: if_splits)
          show ?thesis
          proof (cases "describes (cells s4) ?dst ?seq ?es")
            case nd: False
            then have f: "\<not> ok4" "sh_magic (bank_header (cells s4) ?dst) \<noteq> STORE_MAGIC" "\<not> never_fails chip" using H by blast+
            have r0: "okr = False" "t = s4" using r f(1) by (simp_all only: if_False)
            show ?thesis unfolding r0 using s4 f(2,3) by (intro early) blast+
          next
            case d: True
            have same: "\<forall>x. in_bank ?dst x \<and> bank_addr ?dst + STORE_HDR \<le> x \<longrightarrow> cells s4 x = cells s3 x" using H by blast
            note V = described_valid [OF L3 d _ same, simplified]
            have bt: "bank_same ?dst (cells s4) (cells t)
                \<and> (bank_same (1 - ?dst) ?m (cells t) \<or> sh_magic (bank_header (cells t) (1 - ?dst)) \<noteq> STORE_MAGIC)
                \<and> (\<forall>x. \<not> in_store x \<longrightarrow> cells t x = ?m x)"
              by (rule after_header [OF chip refl s4 r(2)])
            note C = bank_cong [OF conjunct1 [OF bt] V(2)]
            have sq: "sh_seq (bank_header (cells t) ?dst) = ?seq" using d C(1) by (simp add: describes_def)
            note N = new_view [OF ok0 refl _ C(2) sq conjunct1 [OF conjunct2 [OF bt]]]
            have v: "bank_valid (cells t) ?dst" using V(1) C(3) by blast
            have "images (cells t) = ?rs @ [?new]" using N(1) [OF v] C(4) [OF V(1)] V(3) imgs by simp
            then show ?thesis using N(2) [OF v] bt r(1) H by blast
          qed
        qed
      qed
    qed
  qed
  then show ?thesis using s' by (auto simp: saved_set_def Let_def)
qed

section \<open>Properties\<close>


text \<open>C15: A save succeeds when it can: on a controller that does what it is told, a set of at most four images that fit the bank one
  after the other, from multiples of eight, is stored, and read back byte for byte.\<close>

theorem persist_save_fits:
  assumes "chip_ok chip" "never_fails chip" "store_ok (cells s)" "\<forall>x. img \<le> x \<and> x < img + len \<longrightarrow> \<not> in_store x"
    "\<not> f_unlocked s" "len \<noteq> 0" "len + STORE_HDR \<le> BANK_SIZE"
    "news = saved_set (mem_read (cells s) img len) (images (cells s))" "length news \<le> MAX_ENTRIES" "room STORE_HDR (map length news)"
  shows "\<exists>s'. board_persist_save chip img len s = (True, s') \<and> images (cells s') = news"
proof -
  obtain ok s' where r: "board_persist_save chip img len s = (ok, s')" by fastforce
  have l: "len + STORE_HDR < 2 ^ 32" using assms(7) by simp
  note S = save_outcome [OF assms(1,3,5,4) l r]
  have "ok" using S assms(2,6-10) by (simp add: Let_def)
  then show ?thesis using S r assms(8) by auto
qed

text \<open>Forgetting empties the store.\<close>

lemma persist_forget_empties:
  assumes "chip_ok chip" "board_persist_forget chip s = (True, s')"
  shows "images (cells s') = []"
proof -
  obtain ok0 s1 where 0: "erase_bank chip 0 (s\<lparr>f_unlocked := True\<rparr>) = (ok0, s1)" by fastforce
  then have ok0 using assms(2) by (auto simp: board_persist_forget_def split: if_splits)
  obtain ok1 s2 where 1: "erase_bank chip 1 s1 = (ok1, s2)" by fastforce
  have s': "ok1" "cells s' = cells s2" using assms(2) 0 1 \<open>ok0\<close> by (auto simp: board_persist_forget_def)
  note A = erase_bank_spec(2) [OF assms(1) 0 \<open>ok0\<close>] and B = erase_bank_spec(1,2) [OF assms(1) 1]
  have "sh_magic (bank_header (cells s2) 0) \<noteq> STORE_MAGIC"
    by (rule erased_unmarked) (use A B(1) in auto)
  moreover have "sh_magic (bank_header (cells s2) 1) \<noteq> STORE_MAGIC"
    by (rule erased_unmarked) (use B(2) s'(1) in auto)
  ultimately show ?thesis using unmarked s'(2) by (simp add: images_bank active_bank_def)
qed

section \<open>Applied\<close>

text \<open>A controller that works, one that stops after ten operations, and a store never written.\<close>

definition chip0 :: chip where
  "chip0 k op m = (case op of
     Erase a \<Rightarrow> (True, \<lambda>x. if a \<le> x \<and> x < a + SECTOR_STEP then 0xFF else m x)
   | Program a w \<Rightarrow> (True, st32 a w m))"

definition flaky :: chip where
  "flaky k op m = (if k < 10 then chip0 k op m else (False, m))"

definition fresh :: flash where
  "fresh = \<lparr>cells = \<lambda>_. 0xFF, f_ops = 0, f_unlocked = False\<rparr>"

lemma chips: "chip_ok chip0" "chip_ok flaky" "never_fails chip0"
proof -
  show "chip_ok chip0" "chip_ok flaky" by (auto simp: chip_ok_def flaky_def chip0_def Let_def st32_other)
  show "never_fails chip0" by (simp add: never_fails_def chip0_def split: flash_op.split)
qed

lemma fresh_ok: "store_ok (cells fresh)" "images (cells fresh) = []" "\<not> f_unlocked fresh"
proof -
  have "sh_magic (bank_header (cells fresh) b) \<noteq> STORE_MAGIC" for b by (rule erased_unmarked) (simp add: fresh_def)
  then have "\<not> bank_valid (cells fresh) b \<and> bank_inside (cells fresh) b" for b by (rule unmarked)
  then show "store_ok (cells fresh)" "images (cells fresh) = []" by (simp_all only: store_ok_def images_bank active_bank_def if_False option.case simp_thms)
  show "\<not> f_unlocked fresh" by (simp add: fresh_def)
qed


theorem persist_save_fits_witness:
  "\<exists>s'. board_persist_save chip0 0x20010000 100 fresh = (True, s') \<and> images (cells s') = [mem_read (cells fresh) 0x20010000 100]"
  by (rule persist_save_fits [OF chips(1,3) fresh_ok(1) _ fresh_ok(3)]) (simp_all add: fresh_ok(2) saved_set_def)

end
