(* ===== verification/Host_Periph.thy ===== *)
theory Host_Periph
  imports Host_I2c Host_Uart Host_Adc Host_Spi
begin

text \<open>
  The four drivers as the supervisor uses them: a declared resource is brought up and released by its kind. The
  combination meets the contract of a driver again, with a kind and a number as the instance.
\<close>

type_synonym periph_id = "u8 \<times> u8"

definition host_claim :: "vendor \<Rightarrow> periph_id \<Rightarrow> devs \<Rightarrow> (bool \<times> devs) option" where
  "host_claim v p d = (case p of (k, n) \<Rightarrow>
     if k = KIND_I2C then Some (host_i2c_claim v (uint n) d)
     else if k = KIND_UART then Some (host_uart_claim v (uint n) d)
     else if k = KIND_ADC then host_adc_claim v (uint n) d
     else if k = KIND_SPI then Some (host_spi_claim v (uint n) d)
     else Some (False, d))"

definition host_release :: "periph_id \<Rightarrow> devs \<Rightarrow> devs" where
  "host_release p d = (case p of (k, n) \<Rightarrow>
     if k = KIND_I2C then host_i2c_release (uint n) d
     else if k = KIND_UART then host_uart_release (uint n) d
     else if k = KIND_ADC then host_adc_release (uint n) d
     else if k = KIND_SPI then host_spi_release (uint n) d
     else d)"

definition devs_inv :: "devs \<Rightarrow> bool" where
  "devs_inv d \<longleftrightarrow> i2c_inv d \<and> uart_inv d \<and> adc_inv d \<and> spi_inv d"

definition periph_open :: "periph_id \<Rightarrow> devs \<Rightarrow> bool" where
  "periph_open p d \<longleftrightarrow> (case p of (k, n) \<Rightarrow>
     (k = KIND_I2C \<and> i2c_open n d) \<or> (k = KIND_UART \<and> uart_open n d) \<or> (k = KIND_ADC \<and> adc_open n d) \<or> (k = KIND_SPI \<and> spi_open n d))"

text \<open>Each driver looks at its own table only.\<close>

lemma tables:
  "d_i2c d' = d_i2c d \<Longrightarrow> i2c_inv d' = i2c_inv d" "d_i2c d' = d_i2c d \<Longrightarrow> i2c_open n d' = i2c_open n d"
  "d_uart d' = d_uart d \<Longrightarrow> uart_inv d' = uart_inv d" "d_uart d' = d_uart d \<Longrightarrow> uart_open n d' = uart_open n d"
  "d_adc d' = d_adc d \<Longrightarrow> s_adc_up d' = s_adc_up d \<Longrightarrow> adc_inv d' = adc_inv d" "d_adc d' = d_adc d \<Longrightarrow> adc_open n d' = adc_open n d"
  "d_spi d' = d_spi d \<Longrightarrow> spi_inv d' = spi_inv d" "d_spi d' = d_spi d \<Longrightarrow> spi_open n d' = spi_open n d"
  by (simp_all add: i2c_inv_def i2c_open_def uart_inv_def uart_open_def adc_inv_def adc_open_def spi_inv_def spi_open_def)

text \<open>The five shapes of a kind.\<close>

lemma kind_cases:
  obtains "k = KIND_I2C" | "k = KIND_UART" | "k = KIND_ADC" | "k = KIND_SPI"
  | "k \<noteq> KIND_I2C" "k \<noteq> KIND_UART" "k \<noteq> KIND_ADC" "k \<noteq> KIND_SPI"
  by blast

lemma kinds_differ [simp]:
  "KIND_I2C \<noteq> KIND_UART" "KIND_I2C \<noteq> KIND_ADC" "KIND_I2C \<noteq> KIND_SPI" "KIND_UART \<noteq> KIND_ADC" "KIND_UART \<noteq> KIND_SPI" "KIND_ADC \<noteq> KIND_SPI"
  by simp_all

lemma host_claim_spec:
  assumes "devs_inv d" "host_claim v (k, n) d = Some (ok, d')"
  shows "devs_inv d' \<and> (ok \<longleftrightarrow> periph_open (k, n) d') \<and> (\<forall>j. j \<noteq> (k, n) \<or> periph_open j d \<longrightarrow> periph_open j d' = periph_open j d)"
proof -
  have inv: "i2c_inv d" "uart_inv d" "adc_inv d" "spi_inv d" using assms(1) by (simp_all add: devs_inv_def)
  show ?thesis
  proof (cases k rule: kind_cases)
    case 1
    then have run: "host_i2c_claim v (uint n) d = (ok, d')" using assms(2) by (simp add: host_claim_def)
    have o: "d_uart d' = d_uart d" "d_adc d' = d_adc d" "s_adc_up d' = s_adc_up d" "d_spi d' = d_spi d"
      using i2c_only(1-4) [of v "uint n" d] run by simp_all
    show ?thesis using host_i2c_claim_spec [OF inv(1) run] inv 1
      by (auto simp: devs_inv_def periph_open_def tables(3,4) [OF o(1)] tables(5) [OF o(2,3)] tables(6) [OF o(2)] tables(7,8) [OF o(4)])
  next
    case 2
    then have run: "host_uart_claim v (uint n) d = (ok, d')" using assms(2) by (simp add: host_claim_def)
    have o: "d_i2c d' = d_i2c d" "d_adc d' = d_adc d" "s_adc_up d' = s_adc_up d" "d_spi d' = d_spi d"
      using uart_only(1-4) [of v "uint n" d] run by simp_all
    show ?thesis using host_uart_claim_spec [OF inv(2) run] inv 2
      by (auto simp: devs_inv_def periph_open_def tables(1,2) [OF o(1)] tables(5) [OF o(2,3)] tables(6) [OF o(2)] tables(7,8) [OF o(4)])
  next
    case 3
    then have run: "host_adc_claim v (uint n) d = Some (ok, d')" using assms(2) by (simp add: host_claim_def)
    have o: "d_i2c d' = d_i2c d" "d_uart d' = d_uart d" "d_spi d' = d_spi d" using adc_only(1) [OF run] by simp_all
    show ?thesis using host_adc_claim_spec [OF inv(3) run] inv 3
      by (auto simp: devs_inv_def periph_open_def tables(1,2) [OF o(1)] tables(3,4) [OF o(2)] tables(7,8) [OF o(3)])
  next
    case 4
    then have run: "host_spi_claim v (uint n) d = (ok, d')" using assms(2) by (simp add: host_claim_def)
    have o: "d_i2c d' = d_i2c d" "d_uart d' = d_uart d" "d_adc d' = d_adc d" "s_adc_up d' = s_adc_up d"
      using spi_only(1-4) [of v "uint n" d] run by simp_all
    show ?thesis using host_spi_claim_spec [OF inv(4) run] inv 4
      by (auto simp: devs_inv_def periph_open_def tables(1,2) [OF o(1)] tables(3,4) [OF o(2)] tables(5) [OF o(3,4)] tables(6) [OF o(3)])
  next
    case 5
    then show ?thesis using assms by (auto simp: host_claim_def periph_open_def)
  qed
qed

lemma host_release_spec:
  assumes "devs_inv d"
  shows "devs_inv (host_release (k, n) d) \<and> \<not> periph_open (k, n) (host_release (k, n) d)
    \<and> (\<forall>j. j \<noteq> (k, n) \<longrightarrow> periph_open j (host_release (k, n) d) = periph_open j d)"
proof -
  have inv: "i2c_inv d" "uart_inv d" "adc_inv d" "spi_inv d" using assms by (simp_all add: devs_inv_def)
  show ?thesis
  proof (cases k rule: kind_cases)
    case 1
    note o = i2c_only(5-8) [of "uint n" d]
    show ?thesis using host_i2c_release_spec [OF inv(1), of n] inv 1
      by (auto simp: host_release_def devs_inv_def periph_open_def tables(3,4) [OF o(1)] tables(5) [OF o(2,3)] tables(6) [OF o(2)] tables(7,8) [OF o(4)])
  next
    case 2
    note o = uart_only(5-8) [of "uint n" d]
    show ?thesis using host_uart_release_spec [OF inv(2), of n] inv 2
      by (auto simp: host_release_def devs_inv_def periph_open_def tables(1,2) [OF o(1)] tables(5) [OF o(2,3)] tables(6) [OF o(2)] tables(7,8) [OF o(4)])
  next
    case 3
    note o = adc_only(2-4) [of "uint n" d]
    show ?thesis using host_adc_release_spec [OF inv(3), of n] inv 3
      by (auto simp: host_release_def devs_inv_def periph_open_def tables(1,2) [OF o(1)] tables(3,4) [OF o(2)] tables(7,8) [OF o(3)])
  next
    case 4
    note o = spi_only(5-8) [of "uint n" d]
    show ?thesis using host_spi_release_spec [OF inv(4), of n] inv 4
      by (auto simp: host_release_def devs_inv_def periph_open_def tables(1,2) [OF o(4)] tables(3,4) [OF o(1)] tables(5) [OF o(2,3)] tables(6) [OF o(2)])
  next
    case 5
    then show ?thesis using assms by (auto simp: host_release_def periph_open_def)
  qed
qed

interpretation periph: periph_driver devs_inv periph_open "host_claim v" host_release for v
proof
  fix d d' :: devs and i j :: periph_id and ok
  assume inv: "devs_inv d"
  obtain k n where i: "i = (k, n)" by (cases i)
  {
    assume "host_claim v i d = Some (ok, d')"
    then show "devs_inv d'" "ok = periph_open i d'" using host_claim_spec [OF inv] i by blast+
  }
  {
    assume "host_claim v i d = Some (ok, d')" "j \<noteq> i \<or> periph_open j d"
    then show "periph_open j d' = periph_open j d" using host_claim_spec [OF inv] i by blast
  }
  show "devs_inv (host_release i d)" "\<not> periph_open i (host_release i d)" using host_release_spec [OF inv] i by blast+
  show "periph_open j (host_release i d) = periph_open j d" if "j \<noteq> i" using host_release_spec [OF inv] i that by blast
qed

end
