(* ===== verification/Supervisor.thy ===== *)
theory Supervisor
  imports Host_Periph Arena Loader Protocol
begin

text \<open>
  \<open>src/mdl/core/supervisor.c\<close>: the one task that owns the slot table. Loading and starting a module, reclaiming
  everything one had, the watchdog, the frames of the wire protocol, and the commands modules offer to the console. The
  flash store, task creation and the peripherals are parameters; \<open>None\<close> is a call that does not return.
\<close>

section \<open>State\<close>

datatype store_op = Saved bytes | Forgotten

text \<open>The host with its peripherals, the arena allocator, the pins, the fault record; the task of the supervisor; the frame
  parser and the line editor; which tasks were deleted or notified, what was asked of the flash store, and which EXINT lines
  were triggered by software are recorded.\<close>

record sup = dhost +
  u_buddy :: buddy
  u_gpio :: gpio_hw
  u_fault :: fault_info
  u_deleted :: "nat list"
  u_store :: "store_op list"
  s_supervisor_handle :: nat
  u_given :: "nat list"
  u_proto :: proto
  u_line :: line_st
  u_swtrg :: "nat list"

text \<open>\<open>create_task\<close> is \<open>xTaskCreateRestricted\<close>, given the handles in use; the store answers by its history: the
  images it holds with their length, and whether a save or an erase succeeds.\<close>

record board =
  vend :: vendor
  create_task :: "nat list \<Rightarrow> task_def \<Rightarrow> nat option"
  persist_count :: "store_op list \<Rightarrow> nat"
  persist_entry :: "store_op list \<Rightarrow> nat \<Rightarrow> (addr \<times> nat) option"
  persist_save :: "store_op list \<Rightarrow> bytes \<Rightarrow> bool"
  persist_forget :: "store_op list \<Rightarrow> bool"

abbreviation ABI_VERSION :: u16 where "ABI_VERSION \<equiv> 10"

definition out :: "(devs \<Rightarrow> devs) list \<Rightarrow> sup \<Rightarrow> sup" where
  "out ps s = s\<lparr>h_devs := say ps (h_devs s)\<rparr>"

abbreviation RESP_OK :: u8 where "RESP_OK \<equiv> 0x81"
abbreviation RESP_ERROR :: u8 where "RESP_ERROR \<equiv> 0x82"
abbreviation RESP_STATUS :: u8 where "RESP_STATUS \<equiv> 0x83"

definition respond :: "u8 \<Rightarrow> bytes \<Rightarrow> u32 \<Rightarrow> sup \<Rightarrow> sup" where
  "respond r payload len s = s\<lparr>h_devs := fold mdl_transport_write (mdl_proto_send_response r payload len) (h_devs s)\<rparr>"

definition name_out :: "bytes \<Rightarrow> devs \<Rightarrow> devs" where
  "name_out bs = mdl_console_puts (cstr bs)"

section \<open>Choosing a slot\<close>

definition find_slot_by_name :: "bytes \<Rightarrow> slots \<Rightarrow> nat option" where
  "find_slot_by_name name ms =
     (if cstr name = [] then None else find_idx (\<lambda>m. m_state m \<noteq> SLOT_EMPTY \<and> strncmp_eq NAME_MAX (m_name m) name) ms)"

definition find_free_slot :: "slots \<Rightarrow> nat option" where
  "find_free_slot ms = find_idx (\<lambda>m. m_state m = SLOT_EMPTY) ms"

definition find_slot_by_command :: "bytes \<Rightarrow> slots \<Rightarrow> nat option" where
  "find_slot_by_command cmd ms =
     find_idx (\<lambda>m. m_state m = SLOT_RUNNING \<and> cmd_entry m \<noteq> 0 \<and> cstr (cmd_name m) \<noteq> [] \<and> cstr cmd = cstr (cmd_name m)) ms"

section \<open>Reclaiming\<close>

definition delete_task :: "nat \<Rightarrow> sup \<Rightarrow> sup" where
  "delete_task i s = (let h = task_handle (h_slots s ! i) in
     if h \<noteq> 0 then upd_module i (\<lambda>m. m\<lparr>task_handle := 0\<rparr>) (s\<lparr>u_deleted := u_deleted s @ [h]\<rparr>) else s)"

definition released_text :: "u32 \<Rightarrow> (devs \<Rightarrow> devs) list" where
  "released_text restored =
     (if restored = 0 then []
      else puts ''[host] gpio released -> default:''
        # concat (map (\<lambda>i. if bit restored i then [puts '' '', mdl_console_puts [of_nat (0x30 + i)]] else []) [0 ..< 32]) @ [crlf])"

definition claim_ids :: "module \<Rightarrow> periph_id list" where
  "claim_ids m = map (\<lambda>r. (r_kind r, r_id r)) (claims m)"

definition clear_names :: "module \<Rightarrow> module" where
  "clear_names m = m\<lparr>gpio_claimed := 0, res_count := 0, evt_entry := 0, cmd_pending := False, cmd_entry := 0,
     cmd_name := (cmd_name m)[0 := 0], m_name := (m_name m)[0 := 0], cmd_ret := 0\<rparr>"

definition clear_state :: "module \<Rightarrow> module" where
  "clear_state m = m\<lparr>m_state := SLOT_EMPTY, m_entry := 0, last_active_tick := 0, parked_until_tick := 0\<rparr>"

definition reclaim_slot :: "nat \<Rightarrow> sup \<Rightarrow> sup option" where
  "reclaim_slot i s =
     (let s2 = upd_module i host_api_pool_reset (delete_task i s) in
      case mdl_arena_release (h_slots s2 ! i) (u_buddy s2, h_mem s2) of
        None \<Rightarrow> None
      | Some (m, (b, mm)) \<Rightarrow>
          let s3 = s2\<lparr>h_slots := (h_slots s2)[i := clear_state m], h_mem := mm, u_buddy := b\<rparr>;
              s4 = s3\<lparr>h_ev := mdl_events_disarm_slot (int i) (h_ev s3)\<rparr>;
              s5 = s4\<lparr>h_devs := fold host_release (claim_ids m) (h_devs s4)\<rparr>;
              (restored, hw) = host_gpio_release_claims (gpio_claimed m) (u_gpio s5)
          in Some (out (released_text restored) (upd_module i clear_names (s5\<lparr>u_gpio := hw\<rparr>))))"

text \<open>Every slot in use, in order.\<close>

fun reclaim_used :: "nat list \<Rightarrow> sup \<Rightarrow> sup option" where
  "reclaim_used [] s = Some s"
| "reclaim_used (i # is) s =
     (if m_state (h_slots s ! i) \<noteq> SLOT_EMPTY then case reclaim_slot i s of None \<Rightarrow> None | Some s1 \<Rightarrow> reclaim_used is s1
      else reclaim_used is s)"

definition mdl_supervisor_request_unload :: "sup \<Rightarrow> sup option" where
  "mdl_supervisor_request_unload s = reclaim_used [0 ..< MAX_SLOTS] s"

section \<open>Starting\<close>

definition failed_text :: "u8 \<Rightarrow> (devs \<Rightarrow> devs) list" where
  "failed_text k =
     (if k = KIND_I2C then [puts ''[host] i2c bus could not be initialised'', crlf]
      else if k = KIND_UART then [puts ''[host] uart could not be initialised'', crlf]
      else if k = KIND_ADC then [puts ''[host] adc channel could not be claimed'', crlf]
      else if k = KIND_SPI then [puts ''[host] spi could not be initialised'', crlf] else [])"

text \<open>One entry of the table: an interrupt is armed, a peripheral is claimed.\<close>

definition start_claim :: "vendor \<Rightarrow> nat \<Rightarrow> res \<Rightarrow> sup \<Rightarrow> sup option" where
  "start_claim v i r s =
     (let s1 = (if r_kind r = KIND_GPIO \<and> r_edge r \<noteq> EDGE_NONE
                then s\<lparr>h_ev := snd (mdl_events_arm_gpio (int i) (uint (r_id r)) (r_edge r) (h_ev s))\<rparr> else s)
      in case host_claim v (r_kind r, r_id r) (h_devs s1) of
           None \<Rightarrow> None
         | Some (ok, d) \<Rightarrow> Some (out (if ok then [] else failed_text (r_kind r)) (s1\<lparr>h_devs := d\<rparr>)))"

fun start_claims :: "vendor \<Rightarrow> nat \<Rightarrow> res list \<Rightarrow> sup \<Rightarrow> sup option" where
  "start_claims v i [] s = Some s"
| "start_claims v i (r # rs) s = (case start_claim v i r s of None \<Rightarrow> None | Some s1 \<Rightarrow> start_claims v i rs s1)"

definition start_loaded_module :: "board \<Rightarrow> nat \<Rightarrow> sup \<Rightarrow> (bool \<times> sup) option" where
  "start_loaded_module brd i s =
     (case mdl_start_module_task (create_task brd (map task_handle (h_slots s))) i (upd_module i host_api_pool_reset s) of
        (False, s1) \<Rightarrow> Some (False, s1)
      | (True, s1) \<Rightarrow>
          let m = h_slots s1 ! i;
              s2 = s1\<lparr>h_ev := mdl_events_reset (int i) (evt_queue_depth m) (evt_rate_hz m) (task_handle m) (tick s1) (h_ev s1)\<rparr>
          in map_option (Pair True) (start_claims (vend brd) i (claims m) s2))"

section \<open>Loading\<close>

abbreviation ERROR_BUF :: nat where "ERROR_BUF \<equiv> 112"

definition load_error_text :: "load_status \<Rightarrow> string \<Rightarrow> bytes" where
  "load_error_text st detail =
     (if detail = [] then ascii (mdl_load_status_str st)
      else let head = take (ERROR_BUF - 2) (ascii (mdl_load_status_str st)) @ ascii '': '' in
        head @ take (ERROR_BUF - length head) (ascii detail))"

definition send_load_error :: "load_status \<Rightarrow> string \<Rightarrow> sup \<Rightarrow> sup" where
  "send_load_error st detail = (let t = load_error_text st detail in respond RESP_ERROR t (of_nat (length t)))"

definition image_name :: "mem \<Rightarrow> addr \<Rightarrow> nat \<Rightarrow> bytes" where
  "image_name mm img len = (if len < HDR_SIZE then [] else hd_name (read_header mm img))"

text \<open>The loader on the supervisor's state.\<close>

definition load_at :: "nat \<Rightarrow> addr \<Rightarrow> nat \<Rightarrow> sup \<Rightarrow> (load_status \<times> string \<times> sup) option" where
  "load_at i img len s = (case mdl_load i img len ABI_VERSION ARCH_ARMV7M (h_slots s) (u_buddy s, h_mem s) of
     None \<Rightarrow> None
   | Some (st, detail, ms, (b, mm)) \<Rightarrow> Some (st, detail, s\<lparr>h_slots := ms, h_mem := mm, u_buddy := b\<rparr>))"

definition set_empty :: "nat \<Rightarrow> sup \<Rightarrow> sup" where
  "set_empty i = upd_module i (\<lambda>m. m\<lparr>m_state := SLOT_EMPTY\<rparr>)"

text \<open>The slot that has the image's command already, if it is not the one being replaced.\<close>

definition command_taken :: "addr \<Rightarrow> nat \<Rightarrow> nat \<Rightarrow> sup \<Rightarrow> nat option" where
  "command_taken img len slot s =
     (let cmd = hd_cmd_name (read_header (h_mem s) img) in
      if len < HDR_SIZE \<or> cstr cmd = [] then None
      else case find_slot_by_command cmd (h_slots s) of None \<Rightarrow> None | Some j \<Rightarrow> if j \<noteq> slot then Some j else None)"

definition refuse_command :: "addr \<Rightarrow> nat \<Rightarrow> sup \<Rightarrow> sup" where
  "refuse_command img other s =
     (let m = h_slots s ! other in
      respond RESP_ERROR (ascii ''that console command name is already taken'') 41
        (out [puts ''[host] refusing: command `'', name_out (hd_cmd_name (read_header (h_mem s) img)), puts ''` is already '',
              if cstr (m_name m) \<noteq> [] then name_out (m_name m) else puts ''another module'', puts (CHR 0x27 # ''s''), crlf] s))"

text \<open>From the accepted image on: replace, load, start, save, answer.\<close>

definition replace_with :: "board \<Rightarrow> addr \<Rightarrow> nat \<Rightarrow> bool \<Rightarrow> nat \<Rightarrow> bool \<Rightarrow> sup \<Rightarrow> sup option" where
  "replace_with brd img len persist slot replacing s =
     (case (if replacing then reclaim_slot slot s else Some s) of None \<Rightarrow> None
      | Some s1 \<Rightarrow> (case load_at slot img len s1 of None \<Rightarrow> None
      | Some (st, detail, s2) \<Rightarrow>
          if st \<noteq> LOAD_OK then Some (send_load_error st detail (set_empty slot s2))
          else case start_loaded_module brd slot s2 of None \<Rightarrow> None
          | Some (started, s3) \<Rightarrow>
              if \<not> started then
                Some (respond RESP_ERROR
                  (ascii (if replacing then ''task creation failed; the previous MDL is gone, power-cycle to restore the saved one''
                          else ''xTaskCreateRestricted failed'')) (if replacing then 76 else 28) (set_empty slot s3))
              else
                let image = mem_read (h_mem s3) img len;
                    s4 = (if persist then s3\<lparr>u_store := u_store s3 @ [Saved image]\<rparr> else s3)
                in if persist \<and> \<not> persist_save brd (u_store s3) image
                   then Some (respond RESP_ERROR (ascii ''running, but the flash save failed'') 34 s4)
                   else Some (respond RESP_OK [] 0 s4)))"

definition handle_load :: "board \<Rightarrow> addr \<Rightarrow> nat \<Rightarrow> bool \<Rightarrow> sup \<Rightarrow> sup option" where
  "handle_load brd img len persist s =
     (let named = find_slot_by_name (image_name (h_mem s) img len) (h_slots s) in
      case (case named of Some i \<Rightarrow> Some i | None \<Rightarrow> find_free_slot (h_slots s)) of
        None \<Rightarrow> Some (respond RESP_ERROR (ascii ''all slots in use; unload one first'') 33 s)
      | Some slot \<Rightarrow>
          (case command_taken img len slot s of
             Some other \<Rightarrow> Some (refuse_command img other s)
           | None \<Rightarrow>
               (case mdl_load_validate (Some slot) img len ABI_VERSION ARCH_ARMV7M (h_slots s) (u_buddy s, h_mem s) of
                  None \<Rightarrow> None
                | Some (vst, detail) \<Rightarrow>
                    if vst \<noteq> LOAD_OK then Some (send_load_error vst detail s)
                    else replace_with brd img len persist slot (named \<noteq> None) s)))"

definition handle_unload :: "sup \<Rightarrow> sup option" where
  "handle_unload s = map_option (respond RESP_OK [] 0) (reclaim_used [0 ..< MAX_SLOTS] s)"

text \<open>\<open>mdl_slot_state_t\<close> and \<open>mdl_proto_status_t\<close> as bytes.\<close>

fun state_code :: "slot_state \<Rightarrow> u8" where
  "state_code SLOT_EMPTY = 0"
| "state_code SLOT_LOADED = 1"
| "state_code SLOT_RUNNING = 2"
| "state_code SLOT_FAULTED = 3"

definition handle_status :: "sup \<Rightarrow> sup" where
  "handle_status s = (let f = u_fault s in
     respond RESP_STATUS
       (state_code (m_state (h_slots s ! 0)) # [0, 0, 0] @ le32_bytes (if f_occurred f then f_pc f else 0)
          @ le32_bytes (if f_occurred f then f_text_offset f else 0xFFFFFFFF)) 12 s)"

section \<open>Boot\<close>

fun restore_from :: "board \<Rightarrow> nat list \<Rightarrow> sup \<Rightarrow> sup option" where
  "restore_from brd [] s = Some s"
| "restore_from brd (k # ks) s =
     (case persist_entry brd (u_store s) k of
        None \<Rightarrow> restore_from brd ks s
      | Some (img, len) \<Rightarrow>
          (case find_free_slot (h_slots s) of
             None \<Rightarrow> Some (out [puts ''[host] more saved MDLs than slots; stopping'', crlf] s)
           | Some i \<Rightarrow>
               (case load_at i img len s of None \<Rightarrow> None
                | Some (st, detail, s1) \<Rightarrow>
                    if st \<noteq> LOAD_OK then
                      restore_from brd ks (set_empty i (out
                        ([puts ''[host] saved MDL rejected at boot: '', puts (mdl_load_status_str st)]
                           @ (if detail \<noteq> [] then [puts '': '', puts detail] else []) @ [crlf]) s1))
                    else (case start_loaded_module brd i s1 of None \<Rightarrow> None
                      | Some (False, s2) \<Rightarrow> restore_from brd ks (set_empty i s2)
                      | Some (True, s2) \<Rightarrow>
                          restore_from brd ks (out [puts ''[host] restored: '', name_out (m_name (h_slots s2 ! i)), crlf] s2)))))"

definition mdl_supervisor_restore :: "board \<Rightarrow> sup \<Rightarrow> sup option" where
  "mdl_supervisor_restore brd s = restore_from brd [0 ..< persist_count brd (u_store s)] s"

definition mdl_supervisor_init :: "nat \<Rightarrow> sup \<Rightarrow> sup" where
  "mdl_supervisor_init current s = s\<lparr>h_ev := mdl_events_init (h_ev s), s_supervisor_handle := current,
     u_proto := mdl_proto_set_supervisor_handle (current \<noteq> 0) (u_proto s),
     u_line := mdl_console_set_supervisor_handle (current \<noteq> 0) (u_line s)\<rparr>"

definition mdl_supervisor_wake_from_isr :: "sup \<Rightarrow> sup" where
  "mdl_supervisor_wake_from_isr s = s\<lparr>u_given := u_given s @ [s_supervisor_handle s]\<rparr>"

section \<open>Module commands\<close>

datatype cmd_result = MDL_CMD_OK int | MDL_CMD_NO_MODULE | MDL_CMD_NAME_MISMATCH | MDL_CMD_START_FAILED | MDL_CMD_FAULTED | MDL_CMD_TIMEOUT

abbreviation CMD_POLLS :: nat where "CMD_POLLS \<equiv> 500"

text \<open>\<open>rest k\<close> is what the rest of the system does during the \<open>k\<close>-th delay of 10 ms; 5000 ms are 500 of them.\<close>

fun await_command :: "(nat \<Rightarrow> sup \<Rightarrow> sup) \<Rightarrow> nat \<Rightarrow> nat \<Rightarrow> nat \<Rightarrow> sup \<Rightarrow> (cmd_result \<times> sup) option" where
  "await_command rest i k 0 s = map_option (Pair MDL_CMD_TIMEOUT) (reclaim_slot i s)"
| "await_command rest i k (Suc n) s =
     (let s1 = rest k s; m = h_slots s1 ! i in
      if \<not> cmd_pending m then Some (MDL_CMD_OK (sint (cmd_ret m)), s1)
      else if m_state m = SLOT_FAULTED then map_option (Pair MDL_CMD_FAULTED) (reclaim_slot i s1)
      else await_command rest i (Suc k) n s1)"

definition mdl_supervisor_run_module_command :: "(nat \<Rightarrow> sup \<Rightarrow> sup) \<Rightarrow> bytes list \<Rightarrow> sup \<Rightarrow> (cmd_result \<times> sup) option" where
  "mdl_supervisor_run_module_command rest argv s =
     (if argv = [] then Some (MDL_CMD_NAME_MISMATCH, s)
      else case find_slot_by_command (argv ! 0) (h_slots s) of
        None \<Rightarrow> Some (if \<exists>m \<in> set (h_slots s). m_state m = SLOT_RUNNING \<and> cmd_entry m \<noteq> 0
                      then MDL_CMD_NAME_MISMATCH else MDL_CMD_NO_MODULE, s)
      | Some i \<Rightarrow>
          (case mdl_post_module_command i argv s of
             (False, s1) \<Rightarrow> Some (MDL_CMD_START_FAILED, s1)
           | (True, s1) \<Rightarrow> await_command rest i 0 CMD_POLLS s1))"

section \<open>The watchdog\<close>

abbreviation WATCHDOG_TIMEOUT_MS :: nat where "WATCHDOG_TIMEOUT_MS \<equiv> 3000"

definition parked :: "u32 \<Rightarrow> module \<Rightarrow> bool" where
  "parked now m \<longleftrightarrow> parked_until_tick m = PARKED_FOREVER \<or> (parked_until_tick m \<noteq> 0 \<and> sint (now - parked_until_tick m) < 0)"

definition check_slot :: "nat \<Rightarrow> sup \<Rightarrow> sup option" where
  "check_slot i s = (let m = h_slots s ! i in
     if m_state m = SLOT_FAULTED then reclaim_slot i s
     else if m_state m \<noteq> SLOT_RUNNING then Some s
     else if \<not> parked (tick s) m \<and> WATCHDOG_TIMEOUT_MS < unat (tick s - last_active_tick m)
       then reclaim_slot i (upd_module i (\<lambda>m. m\<lparr>m_state := SLOT_FAULTED\<rparr>) s)
     else Some s)"

fun check_slots :: "nat list \<Rightarrow> sup \<Rightarrow> sup option" where
  "check_slots [] s = Some s"
| "check_slots (i # is) s = (case check_slot i s of None \<Rightarrow> None | Some s1 \<Rightarrow> check_slots is s1)"

section \<open>Frames\<close>

abbreviation CMD_LOAD :: u8 where "CMD_LOAD \<equiv> 1"
abbreviation CMD_UNLOAD :: u8 where "CMD_UNLOAD \<equiv> 2"
abbreviation CMD_STATUS :: u8 where "CMD_STATUS \<equiv> 3"
abbreviation CMD_LOAD_PERSIST :: u8 where "CMD_LOAD_PERSIST \<equiv> 4"

text \<open>The receive buffer of the protocol is at \<open>rxbuf\<close>.\<close>

definition dispatch_frame :: "board \<Rightarrow> addr \<Rightarrow> u8 \<Rightarrow> bytes \<Rightarrow> sup \<Rightarrow> sup option" where
  "dispatch_frame brd rxbuf cmd payload s0 =
     (let s = s0\<lparr>h_mem := mem_write rxbuf payload (h_mem s0)\<rparr> in
      if cmd = CMD_LOAD then handle_load brd rxbuf (length payload) False s
      else if cmd = CMD_LOAD_PERSIST then handle_load brd rxbuf (length payload) True s
      else if cmd = CMD_UNLOAD then handle_unload s
      else if cmd = CMD_STATUS then Some (handle_status s)
      else Some s)"

end
