(* ===== verification/Supervisor_Inv.thy ===== *)
theory Supervisor_Inv
  imports Supervisor
begin

text \<open>
  The invariant of the supervisor's state, and what each of its steps keeps of it: printing, reclaiming one slot, all
  slots, the watchdog's round.
\<close>

section \<open>Printing\<close>

definition prints :: "sup \<Rightarrow> sup \<Rightarrow> bool" where
  "prints s s' \<longleftrightarrow> (\<exists>bs. s' = s\<lparr>h_devs := (h_devs s)\<lparr>d_tx := d_tx (h_devs s) @ bs\<rparr>\<rparr>)"

definition printing :: "(devs \<Rightarrow> devs) \<Rightarrow> bool" where
  "printing p \<longleftrightarrow> (\<exists>bs. p = mdl_transport_write bs)"

lemma printing_simps [simp]:
  "printing (mdl_transport_write bs)" "printing (mdl_console_puts bs)" "printing (puts t)" "printing crlf" "printing (name_out bs)"
  "printing (console_put_u32 v)"
  by (auto simp: printing_def mdl_console_puts_def puts_def crlf_def name_out_def console_put_u32_def fun_eq_iff)

lemma say_prints:
  assumes "\<And>p. p \<in> set ps \<Longrightarrow> printing p"
  shows "\<exists>bs. say ps d = d\<lparr>d_tx := d_tx d @ bs\<rparr>"
  using assms
proof (induction ps arbitrary: d)
  case Nil
  show ?case by (rule exI [of _ "[]"]) simp
next
  case (Cons p ps)
  obtain bs where p: "p = mdl_transport_write bs" using Cons.prems [of p] by (auto simp: printing_def)
  obtain cs where "say ps (p d) = (p d)\<lparr>d_tx := d_tx (p d) @ cs\<rparr>" using Cons.IH [of "p d"] Cons.prems by auto
  then show ?case by (intro exI [of _ "bs @ cs"]) (simp add: p mdl_transport_write_def)
qed

lemma prints_refl [simp]: "prints s s"
  unfolding prints_def by (rule exI [of _ "[]"]) simp

lemma prints_trans:
  assumes "prints s t" "prints t u"
  shows "prints s u"
proof -
  obtain bs cs where "t = s\<lparr>h_devs := (h_devs s)\<lparr>d_tx := d_tx (h_devs s) @ bs\<rparr>\<rparr>" "u = t\<lparr>h_devs := (h_devs t)\<lparr>d_tx := d_tx (h_devs t) @ cs\<rparr>\<rparr>"
    using assms by (auto simp: prints_def)
  then show ?thesis unfolding prints_def by (intro exI [of _ "bs @ cs"]) simp
qed

lemma prints_out: "(\<And>p. p \<in> set ps \<Longrightarrow> printing p) \<Longrightarrow> prints s (out ps s)"
  using say_prints [of ps "h_devs s"] by (auto simp: prints_def out_def)

lemma prints_respond [simp]: "prints s (respond r payload len s)"
proof -
  let ?bss = "mdl_proto_send_response r payload len"
  have "fold mdl_transport_write bss d = d\<lparr>d_tx := d_tx d @ concat bss\<rparr>" for bss d
    by (induction bss arbitrary: d) (simp_all add: mdl_transport_write_def)
  then show ?thesis unfolding prints_def respond_def by (intro exI [of _ "concat ?bss"]) simp
qed

lemma prints_send_load_error [simp]: "prints s (send_load_error st detail s)"
  by (simp add: send_load_error_def Let_def)

lemma released_text_prints [simp]: "prints s (out (released_text r) s)"
  by (rule prints_out) (auto simp: released_text_def split: if_splits)

lemma failed_text_prints [simp]: "prints s (out (failed_text k) s)"
  by (rule prints_out) (auto simp: failed_text_def split: if_splits)

text \<open>What printing does not touch.\<close>

lemma tx_tables [simp]: "devs_inv (d\<lparr>d_tx := x\<rparr>) = devs_inv d" "periph_open p (d\<lparr>d_tx := x\<rparr>) = periph_open p d"
  by (simp_all add: devs_inv_def periph_open_def i2c_inv_def i2c_open_def uart_inv_def uart_open_def adc_inv_def adc_open_def
      spi_inv_def spi_open_def)

lemma prints_fields:
  assumes "prints s s'"
  shows "h_slots s' = h_slots s" "h_mem s' = h_mem s" "h_ev s' = h_ev s" "u_buddy s' = u_buddy s" "u_gpio s' = u_gpio s"
    "u_deleted s' = u_deleted s" "u_store s' = u_store s" "u_fault s' = u_fault s" "tick s' = tick s"
    "devs_inv (h_devs s') = devs_inv (h_devs s)" "periph_open p (h_devs s') = periph_open p (h_devs s)"
  using assms by (auto simp: prints_def)

section \<open>The invariant\<close>

text \<open>Every armed pin belongs to a loaded module that declared it.\<close>

definition armed_ok :: "slots \<Rightarrow> events \<Rightarrow> bool" where
  "armed_ok ms ev \<longleftrightarrow> (\<forall>p < 32. \<forall>j < MAX_SLOTS. s_pin_slot ev ! p = int j \<longrightarrow>
     m_state (ms ! j) \<noteq> SLOT_EMPTY \<and> (\<exists>r \<in> set (claims (ms ! j)). r_kind r = KIND_GPIO \<and> uint (r_id r) = int p))"

text \<open>A free slot holds no memory.\<close>

definition empty_free :: "slots \<Rightarrow> bool" where
  "empty_free ms \<longleftrightarrow> (\<forall>m \<in> set ms. m_state m = SLOT_EMPTY \<longrightarrow> \<not> arena_held m)"

definition sup_inv :: "sup \<Rightarrow> bool" where
  "sup_inv s \<longleftrightarrow> length (h_slots s) = MAX_SLOTS \<and> arena_inv (h_slots s) (u_buddy s, h_mem s) \<and> events_inv (h_ev s)
     \<and> devs_inv (h_devs s) \<and> pins_exclusive (h_slots s) \<and> armed_ok (h_slots s) (h_ev s) \<and> empty_free (h_slots s)"

lemma sup_inv_prints: "prints s s' \<Longrightarrow> sup_inv s' = sup_inv s"
  by (simp add: sup_inv_def prints_fields)

section \<open>What releasing memory does to memory\<close>

lemma free_memory:
  assumes "buddy_ok st"
  shows "\<exists>st'. mdl_buddy_free p st = Some st' \<and> buddy_ok st' \<and> pool_of st' = pool_of st \<and> live_blocks st' \<subseteq> live_blocks st
    \<and> (\<forall>b \<in> live_blocks st'. \<forall>x \<in> blk b. snd st' x = snd st x) \<and> (\<forall>x. x \<notin> pool_of st \<longrightarrow> snd st' x = snd st x)"
proof -
  obtain st' where f: "mdl_buddy_free p st = Some st'" "buddy_ok st'" "s_base (fst st') = s_base (fst st)"
    "live_blocks st' = {b \<in> live_blocks st. snd b \<noteq> p}" "\<forall>b \<in> live_blocks st'. \<forall>x \<in> blk b. snd st' x = snd st x"
    "p \<notin> snd ` live_blocks st \<longrightarrow> st' = st"
    using free_full [OF assms, of p] by blast
  obtain s m where st: "st = (s, m)" by fastforce
  note c = buddy_ok_config [OF assms]
  have sub: "blk b \<subseteq> pool_of st" if "b \<in> live_blocks st \<or> b \<in> free_blocks st" for b
    using config_blockD [OF c, of "fst b" "snd b"] that by (auto simp: pool_of_def blk_def)
  have "snd st' x = snd st x" if "x \<notin> pool_of st" for x
  proof (cases "p \<in> snd ` live_blocks st")
    case True
    then obtain k where k: "(k, p) \<in> live_blocks st" by auto
    obtain s' m' where F: "mdl_buddy_free p (s, m) = Some (s', m')" "mem_eq_outside (blk (k, p) \<union> \<Union> (blk ` free_blocks (s, m))) m m'"
      using free_inv [of s m k p] assms k st by blast
    then have "st' = (s', m')" using f(1) st by simp
    moreover have "x \<notin> blk (k, p) \<union> \<Union> (blk ` free_blocks (s, m))" using that sub k st by blast
    ultimately show ?thesis using F(2) st by (simp add: mem_eq_outside_def)
  qed (use f(6) in simp)
  then show ?thesis using f by (auto simp: pool_of_def)
qed

definition keeps_rest :: "bstate \<Rightarrow> bstate \<Rightarrow> bool" where
  "keeps_rest st st' \<longleftrightarrow> pool_of st' = pool_of st \<and> live_blocks st' \<subseteq> live_blocks st
     \<and> (\<forall>b \<in> live_blocks st'. \<forall>x \<in> blk b. snd st' x = snd st x) \<and> (\<forall>x. x \<notin> pool_of st \<longrightarrow> snd st' x = snd st x)"

lemma keeps_rest_trans: "keeps_rest st st1 \<Longrightarrow> keeps_rest st1 st2 \<Longrightarrow> keeps_rest st st2"
  unfolding keeps_rest_def by (metis subset_trans subsetD)

lemma release_memory:
  assumes "buddy_ok st" "mdl_arena_release m st = Some (m', st')"
  shows "keeps_rest st st'"
proof (cases "arena_held m")
  case False
  then show ?thesis using assms(2) by (simp add: mdl_arena_release_def keeps_rest_def)
next
  case True
  obtain s1 where 1: "mdl_buddy_free (text_lo m) st = Some s1" "buddy_ok s1" "keeps_rest st s1"
    using free_memory [OF assms(1), of "text_lo m"] unfolding keeps_rest_def by blast
  obtain s2 where 2: "mdl_buddy_free (data_lo m) s1 = Some s2" "buddy_ok s2" "keeps_rest s1 s2"
    using free_memory [OF 1(2), of "data_lo m"] unfolding keeps_rest_def by blast
  obtain s3 where 3: "mdl_buddy_free (hs_lo m) s2 = Some s3" "keeps_rest s2 s3"
    using free_memory [OF 2(2), of "hs_lo m"] unfolding keeps_rest_def by blast
  show ?thesis
    using assms(2) True 1(1) 2(1) 3 keeps_rest_trans [OF keeps_rest_trans [OF 1(3) 2(3)] 3(2)]
    by (simp add: mdl_arena_release_def)
qed

section \<open>Changing one slot\<close>

lemma pins_exclusive_empty:
  assumes "pins_exclusive ms" "m_state m = SLOT_EMPTY"
  shows "pins_exclusive (ms[i := m])"
proof -
  have le: "held_elsewhere pin e (ms[i := m]) \<Longrightarrow> held_elsewhere pin e ms" for pin e
  proof -
    have "ms[i := m] ! k = ms ! k" if "m_state (ms[i := m] ! k) \<noteq> SLOT_EMPTY" "k < length ms" for k
      using that assms(2) by (cases "k = i") simp_all
    then show "held_elsewhere pin e (ms[i := m]) \<Longrightarrow> held_elsewhere pin e ms"
      unfolding held_elsewhere_def by auto
  qed
  show ?thesis
    unfolding pins_exclusive_def
  proof (intro allI impI)
    fix j assume j: "j < length (ms[i := m])" "m_state (ms[i := m] ! j) \<noteq> SLOT_EMPTY"
    then have "ms[i := m] ! j = ms ! j" using assms(2) by (cases "j = i") auto
    then have "claims_ok (Some j) ms (claims (ms[i := m] ! j))" using assms(1) j by (simp add: pins_exclusive_def)
    then show "claims_ok (Some j) (ms[i := m]) (claims (ms[i := m] ! j))" using le by (auto simp: claims_ok_def)
  qed
qed

lemma pins_exclusive_cong:
  assumes "pins_exclusive ms" "length ms' = length ms"
    "\<And>j. j < length ms \<Longrightarrow> claims (ms' ! j) = claims (ms ! j) \<and> (m_state (ms' ! j) = SLOT_EMPTY \<longleftrightarrow> m_state (ms ! j) = SLOT_EMPTY)"
  shows "pins_exclusive ms'"
proof -
  have h: "held_elsewhere pin e ms' = held_elsewhere pin e ms" for pin e
    using assms(2,3) unfolding held_elsewhere_def by (metis (no_types, lifting))
  show ?thesis using assms h by (simp add: pins_exclusive_def claims_ok_def)
qed

text \<open>A change that keeps the claims, the regions and whether the slot is free.\<close>

lemma sup_inv_upd:
  assumes "sup_inv s" "i < MAX_SLOTS"
    "claims (f (h_slots s ! i)) = claims (h_slots s ! i)" "regions_of (f (h_slots s ! i)) = regions_of (h_slots s ! i)"
    "m_state (f (h_slots s ! i)) = SLOT_EMPTY \<longleftrightarrow> m_state (h_slots s ! i) = SLOT_EMPTY"
    "arena_held (f (h_slots s ! i)) = arena_held (h_slots s ! i)"
  shows "sup_inv (upd_module i f s)"
proof -
  let ?ms = "h_slots s"
  have i: "i < length ?ms" using assms(1,2) by (simp add: sup_inv_def)
  have n: "?ms[i := f (?ms ! i)] ! j = (if j = i then f (?ms ! i) else ?ms ! j)" for j using i by simp
  have "arena_inv (?ms[i := f (?ms ! i)]) (u_buddy s, h_mem s)"
    by (rule arena_inv_cong [where ms = ?ms]) (use assms(1,4) i in \<open>auto simp: sup_inv_def map_update list_update_same_conv\<close>)
  moreover have "pins_exclusive (?ms[i := f (?ms ! i)])"
    by (rule pins_exclusive_cong [where ms = ?ms]) (use assms(1,3,5) n in \<open>auto simp: sup_inv_def\<close>)
  moreover have "armed_ok (?ms[i := f (?ms ! i)]) (h_ev s)"
    using assms(1,3,5) by (simp add: sup_inv_def armed_ok_def n)
  moreover have "empty_free (?ms[i := f (?ms ! i)])"
    using assms(1,5,6) i unfolding sup_inv_def empty_free_def all_set_conv_all_nth by (simp add: n)
  ultimately show ?thesis using assms(1) by (simp add: sup_inv_def upd_module_def)
qed

section \<open>Reclaiming a slot\<close>

definition reclaimed :: "module \<Rightarrow> module" where
  "reclaimed m = (let p = host_api_pool_reset (m\<lparr>task_handle := 0\<rparr>)
     in clear_names (clear_state (if arena_held p then clear_bounds p else p)))"

lemma reclaimed_simps [simp]:
  "m_state (reclaimed m) = SLOT_EMPTY" "task_handle (reclaimed m) = 0" "\<not> arena_held (reclaimed m)" "regions_of (reclaimed m) = []"
  "claims (reclaimed m) = []" "gpio_claimed (reclaimed m) = 0" "cmd_entry (reclaimed m) = 0" "evt_entry (reclaimed m) = 0"
  "m_entry (reclaimed m) = 0" "\<not> cmd_pending (reclaimed m)" "parked_until_tick (reclaimed m) = 0"
  "cmd_name (reclaimed m) = (cmd_name m)[0 := 0]" "m_name (reclaimed m) = (m_name m)[0 := 0]"
  by (simp_all add: reclaimed_def Let_def clear_names_def clear_state_def clear_bounds_def host_api_pool_reset_def regions_of_def claims_def)

text \<open>The effect of reclaiming slot \<open>i\<close>, from \<open>s\<close> to \<open>s'\<close>.\<close>

definition reclaim_effect :: "nat \<Rightarrow> sup \<Rightarrow> sup \<Rightarrow> bool" where
  "reclaim_effect i s s' \<longleftrightarrow> h_slots s' = (h_slots s)[i := reclaimed (h_slots s ! i)]
     \<and> mset_set (live_regions (u_buddy s, h_mem s)) = mset_set (live_regions (u_buddy s', h_mem s')) + mset (regions_of (h_slots s ! i))
     \<and> keeps_rest (u_buddy s, h_mem s) (u_buddy s', h_mem s')
     \<and> h_ev s' = mdl_events_disarm_slot (int i) (h_ev s)
     \<and> (\<forall>p. periph_open p (h_devs s') \<longleftrightarrow> periph_open p (h_devs s) \<and> p \<notin> set (claim_ids (h_slots s ! i)))
     \<and> u_gpio s' = snd (host_gpio_release_claims (gpio_claimed (h_slots s ! i)) (u_gpio s))
     \<and> u_deleted s' = u_deleted s @ (if task_handle (h_slots s ! i) = 0 then [] else [task_handle (h_slots s ! i)])
     \<and> u_store s' = u_store s \<and> u_fault s' = u_fault s \<and> tick s' = tick s"

lemma fold_release: "fold host_release ps d = periph.release_all ps d"
  by (simp add: periph.release_all_def)

lemma delete_task_run:
  "h_slots (delete_task i s) = (h_slots s)[i := (h_slots s ! i)\<lparr>task_handle := 0\<rparr>]" "h_mem (delete_task i s) = h_mem s"
  "u_buddy (delete_task i s) = u_buddy s" "h_ev (delete_task i s) = h_ev s" "h_devs (delete_task i s) = h_devs s"
  "u_gpio (delete_task i s) = u_gpio s" "u_store (delete_task i s) = u_store s" "u_fault (delete_task i s) = u_fault s"
  "tick (delete_task i s) = tick s"
  "u_deleted (delete_task i s) = u_deleted s @ (if task_handle (h_slots s ! i) = 0 then [] else [task_handle (h_slots s ! i)])"
proof -
  have "ms[i := (ms ! i)\<lparr>task_handle := 0\<rparr>] = ms" if "task_handle (ms ! i) = 0" for ms :: slots
  proof (cases "i < length ms")
    case True
    then show ?thesis using that by (simp add: list_update_same_conv)
  qed (simp add: list_update_beyond)
  then show "h_slots (delete_task i s) = (h_slots s)[i := (h_slots s ! i)\<lparr>task_handle := 0\<rparr>]"
    by (simp add: delete_task_def Let_def upd_module_def)
qed (simp_all add: delete_task_def Let_def upd_module_def)

lemma reclaim_slot_run:
  assumes inv: "sup_inv s" and i: "i < MAX_SLOTS"
  shows "\<exists>s'. reclaim_slot i s = Some s' \<and> reclaim_effect i s s' \<and> arena_inv (h_slots s') (u_buddy s', h_mem s') \<and> devs_inv (h_devs s')"
proof -
  let ?m = "h_slots s ! i"
  define p where "p = host_api_pool_reset (?m\<lparr>task_handle := 0\<rparr>)"
  have len: "i < length (h_slots s)" and ar: "arena_inv (h_slots s) (u_buddy s, h_mem s)" and dv: "devs_inv (h_devs s)"
    using inv i by (auto simp: sup_inv_def)
  define s2 where "s2 = upd_module i host_api_pool_reset (delete_task i s)"
  have s2: "h_slots s2 = (h_slots s)[i := p]" "h_mem s2 = h_mem s" "u_buddy s2 = u_buddy s"
    using len by (simp_all add: s2_def upd_module_def delete_task_run p_def)
  have pf: "regions_of p = regions_of ?m" "claims p = claims ?m" "gpio_claimed p = gpio_claimed ?m"
    by (simp_all add: p_def host_api_pool_reset_def regions_of_def claims_def)
  have "arena_inv (h_slots s2) (u_buddy s, h_mem s)"
    unfolding s2 by (rule arena_inv_cong [OF ar]) (use len pf in \<open>simp add: map_update list_update_same_conv\<close>)
  then obtain q b mm where R: "mdl_arena_release p (u_buddy s, h_mem s) = Some (q, (b, mm))" "arena_inv ((h_slots s)[i := q]) (b, mm)"
    "q = (if arena_held p then clear_bounds p else p)"
    "mset_set (live_regions (u_buddy s, h_mem s)) = mset_set (live_regions (b, mm)) + mset (regions_of p)"
    using arena_inv_release [of "h_slots s2" "(u_buddy s, h_mem s)" i] len
    unfolding s2 length_list_update nth_list_update_eq [OF len] list_update_overwrite by (metis surj_pair)
  have kr: "keeps_rest (u_buddy s, h_mem s) (b, mm)"
    by (rule release_memory [OF _ R(1)]) (use ar in \<open>simp add: arena_inv_def\<close>)
  have qf: "claims q = claims ?m" "gpio_claimed q = gpio_claimed ?m" using R(3) pf by (simp_all add: clear_bounds_def claims_def)
  have rq: "clear_names (clear_state q) = reclaimed ?m" by (simp add: R(3) reclaimed_def p_def Let_def)
  let ?g = "host_gpio_release_claims (gpio_claimed ?m) (u_gpio s)"
  define s5 where "s5 = s2\<lparr>h_slots := (h_slots s)[i := clear_state q], h_mem := mm, u_buddy := b,
     h_ev := mdl_events_disarm_slot (int i) (h_ev s), h_devs := fold host_release (claim_ids ?m) (h_devs s)\<rparr>"
  define s' where "s' = out (released_text (fst ?g)) (upd_module i clear_names (s5\<lparr>u_gpio := snd ?g\<rparr>))"
  have d2: "h_ev s2 = h_ev s" "h_devs s2 = h_devs s" "u_gpio s2 = u_gpio s" by (simp_all add: s2_def upd_module_def delete_task_run)
  have "reclaim_slot i s = Some s'"
    unfolding reclaim_slot_def s2_def [symmetric] Let_def
    using R(1) s2 len d2 qf by (simp add: s'_def s5_def claim_ids_def split: prod.split)
  moreover have pr: "prints (upd_module i clear_names (s5\<lparr>u_gpio := snd ?g\<rparr>)) s'" by (simp add: s'_def)
  note f = prints_fields [OF pr]
  have slots: "h_slots s' = (h_slots s)[i := reclaimed ?m]"
    using len by (simp add: f upd_module_def s5_def rq)
  have rel: "devs_inv (fold host_release (claim_ids ?m) (h_devs s))"
    "periph_open j (fold host_release (claim_ids ?m) (h_devs s)) \<longleftrightarrow> periph_open j (h_devs s) \<and> j \<notin> set (claim_ids ?m)" for j
    using periph.release_all_spec [OF dv, of "claim_ids ?m"] unfolding fold_release by blast+
  have "reclaim_effect i s s'"
    unfolding reclaim_effect_def slots f
    using R(4) pf(1) kr rel(2) by (simp add: upd_module_def s5_def s2_def delete_task_run)
  moreover have "arena_inv (h_slots s') (u_buddy s', h_mem s')"
    unfolding slots f
  proof (rule arena_inv_cong [where ms = "(h_slots s)[i := q]"])
    show "arena_inv ((h_slots s)[i := q]) (u_buddy (upd_module i clear_names (s5\<lparr>u_gpio := snd ?g\<rparr>)), h_mem (upd_module i clear_names (s5\<lparr>u_gpio := snd ?g\<rparr>)))"
      using R(2) by (simp add: upd_module_def s5_def)
    have "regions_of q = []" using R(3) by (simp add: regions_of_def clear_bounds_def)
    then show "map regions_of ((h_slots s)[i := reclaimed ?m]) = map regions_of ((h_slots s)[i := q])" by (simp add: map_update)
  qed
  moreover have "devs_inv (h_devs s')" using rel(1) by (simp add: f upd_module_def s5_def)
  ultimately show ?thesis by blast
qed

lemma reclaim_slot_inv:
  assumes inv: "sup_inv s" and i: "i < MAX_SLOTS"
  shows "\<exists>s'. reclaim_slot i s = Some s' \<and> reclaim_effect i s s' \<and> sup_inv s'"
proof -
  obtain s' where r: "reclaim_slot i s = Some s'" "reclaim_effect i s s'" "arena_inv (h_slots s') (u_buddy s', h_mem s')" "devs_inv (h_devs s')"
    using reclaim_slot_run [OF assms] by blast
  let ?ms = "h_slots s" and ?m = "reclaimed (h_slots s ! i)"
  have len: "length ?ms = 4" "i < length ?ms" using inv i by (auto simp: sup_inv_def)
  have sl: "h_slots s' = ?ms[i := ?m]" and ev: "h_ev s' = mdl_events_disarm_slot (int i) (h_ev s)"
    using r(2) by (simp_all add: reclaim_effect_def)
  have ei: "events_inv (h_ev s)" "slot_ok (int i)" using inv i by (auto simp: sup_inv_def slot_ok_def)
  note D = events_inv_disarm [OF ei]
  have n: "?ms[i := ?m] ! j = (if j = i then ?m else ?ms ! j)" for j using len by simp
  have "armed_ok (?ms[i := ?m]) (h_ev s')"
    unfolding armed_ok_def ev
  proof (intro allI impI)
    fix p j assume a: "p < (32 :: nat)" "j < (4 :: nat)" "s_pin_slot (mdl_events_disarm_slot (int i) (h_ev s)) ! p = int j"
    then have "s_pin_slot (h_ev s) ! p = int j" "j \<noteq> i" using D(6) [OF a(1)] by (auto split: if_splits)
    then show "m_state (?ms[i := ?m] ! j) \<noteq> SLOT_EMPTY \<and> (\<exists>r \<in> set (claims (?ms[i := ?m] ! j)). r_kind r = KIND_GPIO \<and> uint (r_id r) = int p)"
      using inv a(1,2) by (simp add: sup_inv_def armed_ok_def n)
  qed
  moreover have "empty_free (?ms[i := ?m])"
    using inv len by (simp add: sup_inv_def empty_free_def all_set_conv_all_nth n)
  moreover have "pins_exclusive (?ms[i := ?m])" by (rule pins_exclusive_empty) (use inv in \<open>auto simp: sup_inv_def\<close>)
  ultimately have "sup_inv s'" using r(3,4) D(1) len by (simp add: sup_inv_def sl ev)
  then show ?thesis using r by blast
qed

section \<open>The slots one by one\<close>

text \<open>What a neighbour of slot \<open>i\<close> keeps.\<close>

definition slot_kept :: "nat \<Rightarrow> sup \<Rightarrow> sup \<Rightarrow> bool" where
  "slot_kept j s s' \<longleftrightarrow> h_slots s' ! j = h_slots s ! j \<and> s_evt (h_ev s') ! j = s_evt (h_ev s) ! j
     \<and> (\<forall>r \<in> set (regions_of (h_slots s ! j)). \<forall>a \<in> {fst r ..< snd r}. h_mem s' a = h_mem s a)"

lemma slot_kept_refl [simp]: "slot_kept j s s"
  by (auto simp: slot_kept_def)

lemma slot_kept_trans: "slot_kept j s t \<Longrightarrow> slot_kept j t u \<Longrightarrow> slot_kept j s u"
  by (simp add: slot_kept_def)

lemma prints_kept: "prints s s' \<Longrightarrow> slot_kept j s s'"
  by (auto simp: slot_kept_def prints_fields)

lemma upd_module_kept: "j \<noteq> i \<Longrightarrow> slot_kept j s (upd_module i f s)"
  by (auto simp: slot_kept_def upd_module_def)

lemma live_memory:
  assumes "keeps_rest st st'" "r \<in> live_regions st'" "a \<in> {fst r ..< snd r}"
  shows "snd st' a = snd st a"
proof -
  obtain b where b: "b \<in> live_blocks st'" "r = region_of b" using assms(2) by (auto simp: live_regions_def)
  then have "a \<in> blk b" using assms(3) by (simp add: region_of_def blk_def)
  then show ?thesis using assms(1) b(1) unfolding keeps_rest_def by blast
qed

lemma reclaim_kept:
  assumes inv: "sup_inv s" and i: "i < MAX_SLOTS" and run: "reclaim_slot i s = Some s'" and j: "j < MAX_SLOTS" "j \<noteq> i"
  shows "slot_kept j s s'"
proof -
  have e: "reclaim_effect i s s'" "sup_inv s'" using reclaim_slot_inv [OF inv i] run by auto
  have len: "i < length (h_slots s)" "j < length (h_slots s)" "length (h_slots s') = 4" using inv i j e(2) by (auto simp: sup_inv_def)
  have sl: "h_slots s' ! j = h_slots s ! j" using e(1) len j(2) by (simp add: reclaim_effect_def)
  have ev: "s_evt (h_ev s') ! j = s_evt (h_ev s) ! j"
    using events_inv_disarm(5) [of "h_ev s" "int i" j] inv i j e(1) by (auto simp: reclaim_effect_def sup_inv_def slot_ok_def)
  have mem: "h_slots s ! j \<in> set (h_slots s')" using sl nth_mem [of j "h_slots s'"] len(3) j(1) by simp
  have "h_mem s' a = h_mem s a" if "r \<in> set (regions_of (h_slots s ! j))" "a \<in> {fst r ..< snd r}" for r a
  proof -
    have "r \<in> live_regions (u_buddy s', h_mem s')"
      by (rule arena_inv_live [OF _ mem that(1)]) (use e(2) in \<open>simp add: sup_inv_def\<close>)
    then show ?thesis
      using live_memory [of "(u_buddy s, h_mem s)" "(u_buddy s', h_mem s')" r a] e(1) that(2)
      by (simp add: reclaim_effect_def)
  qed
  then show ?thesis using sl ev by (auto simp: slot_kept_def)
qed

text \<open>Slot \<open>j\<close>, which held \<open>m\<close>, has nothing left.\<close>

definition gone :: "nat \<Rightarrow> module \<Rightarrow> sup \<Rightarrow> bool" where
  "gone j m s \<longleftrightarrow> h_slots s ! j = reclaimed m
     \<and> e_task (s_evt (h_ev s) ! j) = 0 \<and> pending (s_evt (h_ev s) ! j) = [] \<and> armed_lines (s_evt (h_ev s) ! j) = {}
     \<and> (\<forall>p \<in> set (claim_ids m). \<not> periph_open p (h_devs s))
     \<and> (task_handle m \<noteq> 0 \<longrightarrow> task_handle m \<in> set (u_deleted s))"

lemma gone_kept:
  assumes "gone j m s" "slot_kept j s s'" "\<And>p. periph_open p (h_devs s') \<Longrightarrow> periph_open p (h_devs s)" "set (u_deleted s) \<subseteq> set (u_deleted s')"
  shows "gone j m s'"
  using assms by (auto simp: gone_def slot_kept_def)

text \<open>What a step that may reclaim slot \<open>i\<close> does, by whether it was due.\<close>

definition reclaim_outcome :: "bool \<Rightarrow> nat \<Rightarrow> sup \<Rightarrow> sup \<Rightarrow> bool" where
  "reclaim_outcome b i s s' \<longleftrightarrow> sup_inv s' \<and> tick s' = tick s \<and> set (u_deleted s) \<subseteq> set (u_deleted s')
     \<and> (\<forall>j < MAX_SLOTS. j \<noteq> i \<longrightarrow> slot_kept j s s')
     \<and> (if b then gone i (h_slots s ! i) s' else slot_kept i s s')
     \<and> (\<forall>p. periph_open p (h_devs s') \<longleftrightarrow> periph_open p (h_devs s) \<and> \<not> (b \<and> p \<in> set (claim_ids (h_slots s ! i))))"

lemma reclaim_outcome_none: "sup_inv s \<Longrightarrow> reclaim_outcome False i s s"
  by (simp add: reclaim_outcome_def)

lemma reclaim_slot_outcome:
  assumes inv: "sup_inv s" and i: "i < MAX_SLOTS"
  shows "\<exists>s'. reclaim_slot i s = Some s' \<and> reclaim_outcome True i s s' \<and> reclaim_effect i s s'"
proof -
  obtain s' where r: "reclaim_slot i s = Some s'" "reclaim_effect i s s'" "sup_inv s'" using reclaim_slot_inv [OF assms] by blast
  have len: "i < length (h_slots s)" using assms by (simp add: sup_inv_def)
  have ei: "events_inv (h_ev s)" "slot_ok (int i)" using inv i by (auto simp: sup_inv_def slot_ok_def)
  have g: "gone i (h_slots s ! i) s'"
    using r(2) len events_inv_disarm(2-4) [OF ei] by (auto simp: gone_def reclaim_effect_def)
  have k: "\<forall>j < MAX_SLOTS. j \<noteq> i \<longrightarrow> slot_kept j s s'" using reclaim_kept [OF inv i r(1)] by blast
  have "tick s' = tick s" "set (u_deleted s) \<subseteq> set (u_deleted s')"
    "\<forall>p. periph_open p (h_devs s') \<longleftrightarrow> periph_open p (h_devs s) \<and> p \<notin> set (claim_ids (h_slots s ! i))"
    using r(2) by (auto simp: reclaim_effect_def)
  then show ?thesis using r g k unfolding reclaim_outcome_def by simp
qed

text \<open>A round over slots: what is due is reclaimed, each decision on the slot as the round finds it.\<close>

locale slot_round =
  fixes due :: "u32 \<Rightarrow> module \<Rightarrow> bool"
    and step :: "nat \<Rightarrow> sup \<Rightarrow> sup option"
  assumes step_spec: "sup_inv s \<Longrightarrow> i < MAX_SLOTS \<Longrightarrow>
    \<exists>s'. step i s = Some s' \<and> reclaim_outcome (due (tick s) (h_slots s ! i)) i s s'"
begin

fun round :: "nat list \<Rightarrow> sup \<Rightarrow> sup option" where
  "round [] s = Some s"
| "round (i # is) s = (case step i s of None \<Rightarrow> None | Some s1 \<Rightarrow> round is s1)"

lemma round_spec:
  assumes "sup_inv s" "distinct is" "set is \<subseteq> {..< MAX_SLOTS}"
  shows "\<exists>s'. round is s = Some s' \<and> sup_inv s' \<and> tick s' = tick s \<and> set (u_deleted s) \<subseteq> set (u_deleted s')
    \<and> (\<forall>j < MAX_SLOTS. if j \<in> set is \<and> due (tick s) (h_slots s ! j) then gone j (h_slots s ! j) s' else slot_kept j s s')
    \<and> (\<forall>p. periph_open p (h_devs s') \<longleftrightarrow> periph_open p (h_devs s)
         \<and> \<not> (\<exists>j \<in> set is. due (tick s) (h_slots s ! j) \<and> p \<in> set (claim_ids (h_slots s ! j))))"
  using assms
proof (induction "is" arbitrary: s)
  case (Cons i "is")
  have i: "i < MAX_SLOTS" "i \<notin> set is" using Cons.prems by auto
  obtain s1 where 1: "step i s = Some s1" "reclaim_outcome (due (tick s) (h_slots s ! i)) i s s1"
    using step_spec [OF Cons.prems(1) i(1)] by blast
  note o = 1(2) [unfolded reclaim_outcome_def]
  have inv1: "sup_inv s1" and t1: "tick s1 = tick s" using o by blast+
  obtain s' where 2: "round is s1 = Some s'" "sup_inv s'" "tick s' = tick s1" "set (u_deleted s1) \<subseteq> set (u_deleted s')"
    "\<forall>j < MAX_SLOTS. if j \<in> set is \<and> due (tick s1) (h_slots s1 ! j) then gone j (h_slots s1 ! j) s' else slot_kept j s1 s'"
    "\<forall>p. periph_open p (h_devs s') \<longleftrightarrow> periph_open p (h_devs s1)
         \<and> \<not> (\<exists>j \<in> set is. due (tick s1) (h_slots s1 ! j) \<and> p \<in> set (claim_ids (h_slots s1 ! j)))"
    using Cons.IH [OF inv1] Cons.prems by auto
  have same: "h_slots s1 ! j = h_slots s ! j" if "j < MAX_SLOTS" "j \<noteq> i" for j
    using o that by (auto simp: slot_kept_def)
  have in_is: "j < MAX_SLOTS \<and> j \<noteq> i" if "j \<in> set is" for j using that Cons.prems(3) i(2) by auto
  have slot: "if j \<in> set (i # is) \<and> due (tick s) (h_slots s ! j) then gone j (h_slots s ! j) s' else slot_kept j s s'"
    if j: "j < MAX_SLOTS" for j
  proof (cases "j = i")
    case True
    then have k: "slot_kept i s1 s'" using 2(5) i by auto
    show ?thesis
    proof (cases "due (tick s) (h_slots s ! i)")
      case d: True
      then have "gone i (h_slots s ! i) s1" using o by simp
      from gone_kept [OF this k] have "gone i (h_slots s ! i) s'" using 2(4,6) by blast
      then show ?thesis using True d by simp
    next
      case False
      then have "slot_kept i s s1" using o by simp
      then show ?thesis using slot_kept_trans [OF _ k] True False by simp
    qed
  next
    case False
    then have "slot_kept j s s1" using o j by blast
    then show ?thesis
      using 2(5) same [OF j False] slot_kept_trans [of j s s1 s'] False j t1 by (auto split: if_splits)
  qed
  have per: "periph_open p (h_devs s') \<longleftrightarrow> periph_open p (h_devs s)
      \<and> \<not> (\<exists>j \<in> set (i # is). due (tick s) (h_slots s ! j) \<and> p \<in> set (claim_ids (h_slots s ! j)))" for p
  proof -
    have "(\<exists>j \<in> set is. due (tick s1) (h_slots s1 ! j) \<and> p \<in> set (claim_ids (h_slots s1 ! j)))
        \<longleftrightarrow> (\<exists>j \<in> set is. due (tick s) (h_slots s ! j) \<and> p \<in> set (claim_ids (h_slots s ! j)))"
      (is "?A \<longleftrightarrow> ?B") using same in_is t1 by auto
    moreover have "periph_open p (h_devs s') \<longleftrightarrow> periph_open p (h_devs s1) \<and> \<not> ?A" by (rule 2(6) [rule_format])
    moreover have "periph_open p (h_devs s1) \<longleftrightarrow> periph_open p (h_devs s) \<and> \<not> (due (tick s) (h_slots s ! i) \<and> p \<in> set (claim_ids (h_slots s ! i)))"
      using o by blast
    moreover have "(\<exists>j \<in> set (i # is). due (tick s) (h_slots s ! j) \<and> p \<in> set (claim_ids (h_slots s ! j)))
        \<longleftrightarrow> (due (tick s) (h_slots s ! i) \<and> p \<in> set (claim_ids (h_slots s ! i))) \<or> ?B" by simp
    ultimately show ?thesis by blast
  qed
  have "round (i # is) s = Some s'" using 1(1) 2(1) by simp
  moreover have "set (u_deleted s) \<subseteq> set (u_deleted s')" using o 2(4) by blast
  ultimately show ?case using 2(2,3) t1 slot per by (intro exI [of _ s'] conjI allI impI) simp_all
qed simp

lemma full_round:
  assumes "sup_inv s"
  shows "\<exists>s'. round [0 ..< MAX_SLOTS] s = Some s' \<and> sup_inv s'
    \<and> (\<forall>j < MAX_SLOTS. if due (tick s) (h_slots s ! j) then gone j (h_slots s ! j) s' else slot_kept j s s')
    \<and> (\<forall>p. periph_open p (h_devs s') \<longleftrightarrow> periph_open p (h_devs s)
         \<and> \<not> (\<exists>j < MAX_SLOTS. due (tick s) (h_slots s ! j) \<and> p \<in> set (claim_ids (h_slots s ! j))))"
proof -
  have sub: "set [0 ..< MAX_SLOTS] \<subseteq> {..< MAX_SLOTS}" and mem: "j \<in> set [0 ..< MAX_SLOTS] \<longleftrightarrow> j < MAX_SLOTS" for j
    unfolding set_upt atLeastLessThan_iff by auto
  obtain s' where r: "round [0 ..< MAX_SLOTS] s = Some s'" "sup_inv s'"
    "\<forall>j < MAX_SLOTS. if j \<in> set [0 ..< MAX_SLOTS] \<and> due (tick s) (h_slots s ! j) then gone j (h_slots s ! j) s' else slot_kept j s s'"
    "\<forall>p. periph_open p (h_devs s') \<longleftrightarrow> periph_open p (h_devs s)
         \<and> \<not> (\<exists>j \<in> set [0 ..< MAX_SLOTS]. due (tick s) (h_slots s ! j) \<and> p \<in> set (claim_ids (h_slots s ! j)))"
    using round_spec [OF assms distinct_upt sub] by blast
  have ex: "(\<exists>j \<in> set [0 ..< MAX_SLOTS]. P j) \<longleftrightarrow> (\<exists>j < MAX_SLOTS. P j)" for P using mem by blast
  show ?thesis using r(1,2) r(3) [unfolded mem] r(4) [unfolded ex] by (intro exI [of _ s']) simp
qed

end

text \<open>The watchdog and the unloading of everything are such rounds.\<close>

definition overdue :: "u32 \<Rightarrow> module \<Rightarrow> bool" where
  "overdue now m \<longleftrightarrow> m_state m = SLOT_FAULTED
     \<or> (m_state m = SLOT_RUNNING \<and> \<not> parked now m \<and> WATCHDOG_TIMEOUT_MS < unat (now - last_active_tick m))"

lemma reclaimed_state [simp]: "reclaimed (m\<lparr>m_state := x\<rparr>) = reclaimed m"
  by (simp add: reclaimed_def Let_def host_api_pool_reset_def clear_names_def clear_state_def clear_bounds_def)

lemma check_slot_spec:
  assumes inv: "sup_inv s" and i: "i < MAX_SLOTS"
  shows "\<exists>s'. check_slot i s = Some s' \<and> reclaim_outcome (overdue (tick s) (h_slots s ! i)) i s s'"
proof -
  let ?m = "h_slots s ! i"
  consider (fault) "m_state ?m = SLOT_FAULTED"
    | (hung) "m_state ?m = SLOT_RUNNING" "\<not> parked (tick s) ?m" "WATCHDOG_TIMEOUT_MS < unat (tick s - last_active_tick ?m)"
    | (fine) "\<not> overdue (tick s) ?m" by (auto simp: overdue_def)
  then show ?thesis
  proof cases
    case fault
    then show ?thesis using reclaim_slot_outcome [OF assms] by (auto simp: check_slot_def overdue_def Let_def)
  next
    case hung
    let ?f = "\<lambda>m :: module. m\<lparr>m_state := SLOT_FAULTED\<rparr>"
    let ?s = "upd_module i ?f s"
    have len: "i < length (h_slots s)" using assms by (simp add: sup_inv_def)
    have inv2: "sup_inv ?s"
      by (rule sup_inv_upd [OF assms]) (use hung(1) in \<open>simp_all add: claims_def regions_of_def\<close>)
    obtain s' where r: "reclaim_slot i ?s = Some s'" "reclaim_outcome True i ?s s'" using reclaim_slot_outcome [OF inv2 i] by blast
    have c: "check_slot i s = Some s'" using hung r(1) by (simp add: check_slot_def Let_def)
    have eq: "h_slots ?s ! i = ?m\<lparr>m_state := SLOT_FAULTED\<rparr>" "claim_ids (?m\<lparr>m_state := SLOT_FAULTED\<rparr>) = claim_ids ?m"
      using len by (simp_all add: upd_module_def claim_ids_def claims_def)
    have g: "gone i (?m\<lparr>m_state := SLOT_FAULTED\<rparr>) s' \<longleftrightarrow> gone i ?m s'" by (simp add: gone_def eq)
    have "reclaim_outcome True i s s'"
      using r(2) slot_kept_trans [OF upd_module_kept [of _ i s ?f], of _ s']
      unfolding reclaim_outcome_def eq g by (simp add: upd_module_def)
    then show ?thesis using c hung by (auto simp: overdue_def)
  next
    case fine
    then have "check_slot i s = Some s" by (auto simp: check_slot_def overdue_def Let_def)
    then show ?thesis using reclaim_outcome_none [OF inv, of i] fine by simp
  qed
qed

interpretation watchdog: slot_round overdue check_slot
  by unfold_locales (rule check_slot_spec)

lemma check_slots_round: "check_slots is s = watchdog.round is s"
  by (induction "is" arbitrary: s) (auto split: option.split)

definition reclaim_if_used :: "nat \<Rightarrow> sup \<Rightarrow> sup option" where
  "reclaim_if_used i s = (if m_state (h_slots s ! i) \<noteq> SLOT_EMPTY then reclaim_slot i s else Some s)"

interpretation unload: slot_round "\<lambda>_ m. m_state m \<noteq> SLOT_EMPTY" reclaim_if_used
proof
  fix s i assume a: "sup_inv s" "i < MAX_SLOTS"
  show "\<exists>s'. reclaim_if_used i s = Some s' \<and> reclaim_outcome (m_state (h_slots s ! i) \<noteq> SLOT_EMPTY) i s s'"
    using reclaim_slot_outcome [OF a] reclaim_outcome_none [OF a(1), of i]
    by (cases "m_state (h_slots s ! i) \<noteq> SLOT_EMPTY") (auto simp: reclaim_if_used_def)
qed

lemma reclaim_used_round: "reclaim_used is s = unload.round is s"
  by (induction "is" arbitrary: s) (auto simp: reclaim_if_used_def split: option.split)

end
