(* ===== verification/Supervisor_Safety.thy ===== *)
theory Supervisor_Safety
  imports Supervisor_Inv
begin

text \<open>
  What the supervisor guarantees when it takes modules out: one slot, all slots, those the watchdog finds
  faulted or hung.
\<close>

section \<open>Everything free\<close>

lemma whole_pool:
  assumes "buddy_ok st" "live_blocks st = {}"
  shows "mdl_buddy_stats st = Some (2 ^ 17, 2 ^ 17)"
proof -
  obtain s m where st: "st = (s, m)" by fastforce
  have base: "pool_ok (s_base s)" using assms(1) st by (auto simp: buddy_ok_def buddy_inv_def)
  have "config (s_base s) (free_blocks st) {} {}" using buddy_ok_config [OF assms(1)] assms(2) st by simp
  then have "free_blocks st = {(17, s_base s)}" using base by (intro config_all_free) (auto simp: pool_ok_def)
  then show ?thesis using stats_ok(3) [of s m] assms(1) st by simp
qed

lemma all_empty_no_live:
  assumes "sup_inv s" "\<And>j. j < MAX_SLOTS \<Longrightarrow> m_state (h_slots s ! j) = SLOT_EMPTY"
  shows "live_blocks (u_buddy s, h_mem s) = {}" "p < 32 \<Longrightarrow> s_pin_slot (h_ev s) ! p = -1"
proof -
  have inv: "length (h_slots s) = 4" "arena_inv (h_slots s) (u_buddy s, h_mem s)" "empty_free (h_slots s)"
    using assms(1) by (auto simp: sup_inv_def)
  have "\<not> arena_held m" if mem: "m \<in> set (h_slots s)" for m
  proof -
    have "m_state m = SLOT_EMPTY" using mem inv(1) assms(2) unfolding in_set_conv_nth by auto
    then show ?thesis using inv(3) mem by (simp add: empty_free_def)
  qed
  then have "concat (map regions_of (h_slots s)) = []" by (simp add: regions_of_def)
  then have "live_regions (u_buddy s, h_mem s) = {}" using arena_inv_set [OF inv(2)] by simp
  then show "live_blocks (u_buddy s, h_mem s) = {}" by (simp add: live_regions_def)
  assume p: "p < 32"
  have ei: "events_inv (h_ev s)" "armed_ok (h_slots s) (h_ev s)" using assms(1) by (auto simp: sup_inv_def)
  show "s_pin_slot (h_ev s) ! p = -1"
  proof (rule ccontr)
    assume "s_pin_slot (h_ev s) ! p \<noteq> -1"
    then have "slot_ok (s_pin_slot (h_ev s) ! p)" using ei(1) p by (auto simp: events_inv_def)
    then obtain j where "j < 4" "s_pin_slot (h_ev s) ! p = int j" unfolding slot_ok_def by (metis nonneg_int_cases of_nat_less_iff)
    then show False using ei(2) p assms(2) by (auto simp: armed_ok_def)
  qed
qed

section \<open>Properties\<close>

text \<open>C9: Reclaiming a slot leaves nothing of its module behind and touches nobody else. From any consistent state the
  call returns and the state is consistent again; the slot is free, its task deleted, its queue empty and its lines disarmed;
  exactly its regions went back to the allocator; exactly the peripherals it declared were closed; the pins it claimed are in
  their default state; and every other slot keeps its record, its event queue and the contents of its memory.\<close>

theorem reclaim_slot_complete:
  assumes "sup_inv s" "i < MAX_SLOTS"
  shows "\<exists>s'. reclaim_slot i s = Some s' \<and> sup_inv s' \<and> gone i (h_slots s ! i) s'
    \<and> mset_set (live_regions (u_buddy s, h_mem s)) = mset_set (live_regions (u_buddy s', h_mem s')) + mset (regions_of (h_slots s ! i))
    \<and> (\<forall>p. periph_open p (h_devs s') \<longleftrightarrow> periph_open p (h_devs s) \<and> p \<notin> set (claim_ids (h_slots s ! i)))
    \<and> (\<forall>k < 6. bit (gpio_claimed (h_slots s ! i)) k \<and> configure (g_gpio_whitelist ! k) \<longrightarrow>
         (let pin = pin_id (g_gpio_whitelist ! k) in
           g_mode (u_gpio s') pin = (if is_output (g_gpio_whitelist ! k) then PM_OUTPUT else PM_INPUT)
           \<and> (is_output (g_gpio_whitelist ! k) \<longrightarrow> g_out (u_gpio s') pin)))
    \<and> (\<forall>j < MAX_SLOTS. j \<noteq> i \<longrightarrow> slot_kept j s s')"
proof -
  obtain s' where r: "reclaim_slot i s = Some s'" "reclaim_outcome True i s s'" "reclaim_effect i s s'"
    using reclaim_slot_outcome [OF assms] by blast
  have "u_gpio s' = snd (host_gpio_release_claims (gpio_claimed (h_slots s ! i)) (u_gpio s))" using r(3) by (simp add: reclaim_effect_def)
  then have "\<forall>k < 6. bit (gpio_claimed (h_slots s ! i)) k \<and> configure (g_gpio_whitelist ! k) \<longrightarrow>
      (let pin = pin_id (g_gpio_whitelist ! k) in
        g_mode (u_gpio s') pin = (if is_output (g_gpio_whitelist ! k) then PM_OUTPUT else PM_INPUT)
        \<and> (is_output (g_gpio_whitelist ! k) \<longrightarrow> g_out (u_gpio s') pin))"
    using gpio_release_restores [of "gpio_claimed (h_slots s ! i)" "u_gpio s"] by (simp add: Let_def split: prod.splits)
  moreover have "sup_inv s'" "gone i (h_slots s ! i) s'" "\<forall>j < MAX_SLOTS. j \<noteq> i \<longrightarrow> slot_kept j s s'"
    "\<forall>p. periph_open p (h_devs s') \<longleftrightarrow> periph_open p (h_devs s) \<and> p \<notin> set (claim_ids (h_slots s ! i))"
    using r(2) by (simp_all add: reclaim_outcome_def)
  moreover have "mset_set (live_regions (u_buddy s, h_mem s)) = mset_set (live_regions (u_buddy s', h_mem s')) + mset (regions_of (h_slots s ! i))"
    using r(3) by (simp add: reclaim_effect_def)
  ultimately show ?thesis using r(1) by blast
qed

text \<open>C10: The watchdog takes out exactly the modules that faulted or hung, each alone. In a round over the table a module goes when
  its slot is marked faulted, or when it runs, is not parked in the host, and made no host call for more than 3 seconds
  (a 32-bit difference, so across the wrap of the tick counter too); every other module keeps its
  record, memory, events and peripherals, and a parked one is never taken out.\<close>

theorem watchdog_round_exact:
  assumes "sup_inv s"
  shows "\<exists>s'. check_slots [0 ..< MAX_SLOTS] s = Some s' \<and> sup_inv s'
    \<and> (\<forall>j < MAX_SLOTS. if overdue (tick s) (h_slots s ! j) then gone j (h_slots s ! j) s' else slot_kept j s s')
    \<and> (\<forall>p. periph_open p (h_devs s') \<longleftrightarrow> periph_open p (h_devs s)
         \<and> \<not> (\<exists>j < MAX_SLOTS. overdue (tick s) (h_slots s ! j) \<and> p \<in> set (claim_ids (h_slots s ! j))))
    \<and> (\<forall>j < MAX_SLOTS. m_state (h_slots s ! j) = SLOT_RUNNING \<and> parked (tick s) (h_slots s ! j) \<longrightarrow> slot_kept j s s')"
proof -
  obtain s' where r: "watchdog.round [0 ..< MAX_SLOTS] s = Some s'" "sup_inv s'"
    "\<forall>j < MAX_SLOTS. if overdue (tick s) (h_slots s ! j) then gone j (h_slots s ! j) s' else slot_kept j s s'"
    "\<forall>p. periph_open p (h_devs s') \<longleftrightarrow> periph_open p (h_devs s)
         \<and> \<not> (\<exists>j < MAX_SLOTS. overdue (tick s) (h_slots s ! j) \<and> p \<in> set (claim_ids (h_slots s ! j)))"
    using watchdog.full_round [OF assms] by blast
  have "slot_kept j s s'" if "j < MAX_SLOTS" "m_state (h_slots s ! j) = SLOT_RUNNING" "parked (tick s) (h_slots s ! j)" for j
    using r(3) that by (auto simp: overdue_def)
  then show ?thesis using r unfolding check_slots_round by blast
qed

text \<open>Unloading gives the whole machine back. Whatever is resident, the UNLOAD frame is answered, afterwards every slot is free and
  every module that was resident is gone, the arena is one single free block of 128K again, no pin is mapped to anyone, and
  of the peripherals only those nobody had declared may still be open.\<close>

theorem unload_returns_everything:
  assumes "sup_inv s"
  shows "\<exists>s'. handle_unload s = Some s' \<and> sup_inv s'
    \<and> (\<forall>j < MAX_SLOTS. m_state (h_slots s' ! j) = SLOT_EMPTY)
    \<and> (\<forall>j < MAX_SLOTS. m_state (h_slots s ! j) \<noteq> SLOT_EMPTY \<longrightarrow> gone j (h_slots s ! j) s')
    \<and> mdl_buddy_stats (u_buddy s', h_mem s') = Some (2 ^ 17, 2 ^ 17)
    \<and> (\<forall>p < 32. s_pin_slot (h_ev s') ! p = -1)
    \<and> (\<forall>p. periph_open p (h_devs s') \<longleftrightarrow> periph_open p (h_devs s)
         \<and> \<not> (\<exists>j < MAX_SLOTS. m_state (h_slots s ! j) \<noteq> SLOT_EMPTY \<and> p \<in> set (claim_ids (h_slots s ! j))))"
proof -
  obtain t where r: "unload.round [0 ..< MAX_SLOTS] s = Some t" "sup_inv t"
    "\<forall>j < MAX_SLOTS. if m_state (h_slots s ! j) \<noteq> SLOT_EMPTY then gone j (h_slots s ! j) t else slot_kept j s t"
    "\<forall>p. periph_open p (h_devs t) \<longleftrightarrow> periph_open p (h_devs s)
         \<and> \<not> (\<exists>j < MAX_SLOTS. m_state (h_slots s ! j) \<noteq> SLOT_EMPTY \<and> p \<in> set (claim_ids (h_slots s ! j)))"
    using unload.full_round [OF assms] by blast
  let ?s' = "respond RESP_OK [] 0 t"
  note f = prints_fields [OF prints_respond [of t RESP_OK "[]" 0]]
  have inv: "sup_inv ?s'" using r(2) sup_inv_prints [OF prints_respond] by simp
  have g: "gone j (h_slots s ! j) t" if "j < MAX_SLOTS" "m_state (h_slots s ! j) \<noteq> SLOT_EMPTY" for j
    using r(3) that by simp
  have e: "m_state (h_slots t ! j) = SLOT_EMPTY" if "j < MAX_SLOTS" for j
    using r(3) that by (cases "m_state (h_slots s ! j) = SLOT_EMPTY") (auto simp: gone_def slot_kept_def)
  note E = all_empty_no_live [OF r(2) e]
  have b: "buddy_ok (u_buddy t, h_mem t)" using r(2) by (simp add: sup_inv_def arena_inv_def)
  have gone': "gone j m ?s' \<longleftrightarrow> gone j m t" for j m by (simp add: gone_def f)
  have run: "handle_unload s = Some ?s'" using r(1) by (simp add: handle_unload_def reclaim_used_round del: upt_Suc)
  show ?thesis
    by (intro exI [of _ ?s'] conjI allI impI) (use run inv e g whole_pool [OF b E(1)] E(2) r(4) in \<open>simp_all only: f gone'\<close>)
qed

end
