(* ===== verification/Supervisor_Load.thy ===== *)
theory Supervisor_Load
  imports Supervisor_Safety
begin

text \<open>
  Loading through the supervisor: what a push does to the slot it chooses, to the other slots, and to the
  command names of the console.
\<close>

section \<open>The image stays readable\<close>

lemma read_header_cong:
  assumes "\<And>x. img \<le> x \<Longrightarrow> x < img + HDR_SIZE \<Longrightarrow> mm' x = mm x"
  shows "read_header mm' img = read_header mm img"
  using assms by (simp add: read_header_def ld32_def ld16_def mem_read_def)

lemma image_ok_kept:
  assumes ok: "image_ok st img len" and len: "HDR_SIZE \<le> len" and pool: "pool_of st' = pool_of st"
    and mem: "\<And>x. x \<notin> pool_of st \<Longrightarrow> snd st' x = snd st x"
  shows "image_ok st' img len" "read_header (snd st') img = read_header (snd st) img"
proof -
  let ?h = "read_header (snd st) img"
  have same: "snd st' x = snd st x" if "img \<le> x" "x < img + len" for x
    using ok mem that unfolding image_ok_def Let_def by fastforce
  show h: "read_header (snd st') img = ?h" by (rule read_header_cong) (use same len in simp)
  have "reloc_off ?h + 8 * reloc_count ?h \<le> len - HDR_SIZE" using ok by (simp add: image_ok_def Let_def)
  then have "reloc_entries (snd st') (img + HDR_SIZE + reloc_off ?h) (reloc_count ?h) = reloc_entries (snd st) (img + HDR_SIZE + reloc_off ?h) (reloc_count ?h)"
    using len by (intro reloc_entries_cong same) auto
  then show "image_ok st' img len" using ok pool unfolding image_ok_def Let_def h by simp
qed

section \<open>Loading into a free slot\<close>

text \<open>The rest of the state, which the loader does not have.\<close>

definition same_rest :: "sup \<Rightarrow> sup \<Rightarrow> bool" where
  "same_rest s s' \<longleftrightarrow> h_ev s' = h_ev s \<and> h_devs s' = h_devs s \<and> tick s' = tick s \<and> u_gpio s' = u_gpio s
     \<and> u_store s' = u_store s \<and> u_deleted s' = u_deleted s"

lemma load_at_effect:
  assumes inv: "sup_inv s" and i: "i < MAX_SLOTS" and free: "m_state (h_slots s ! i) = SLOT_EMPTY"
    and wf: "image_ok (u_buddy s, h_mem s) img len"
  shows "\<exists>st detail s'. load_at i img len s = Some (st, detail, s') \<and> sup_inv s' \<and> same_rest s s'
    \<and> (\<forall>j < MAX_SLOTS. j \<noteq> i \<longrightarrow> slot_kept j s s')
    \<and> (if st = LOAD_OK then \<exists>m. h_slots s' = (h_slots s)[i := set_entries (read_header (h_mem s) img) m] \<and> arena_held m \<and> bounds_ok m
       else \<exists>m. h_slots s' = (h_slots s)[i := m] \<and> m_state m = SLOT_EMPTY)
    \<and> (st = LOAD_OK \<longrightarrow> keeps_outside (u_buddy s, h_mem s) (h_mem s'))"
proof -
  let ?ms = "h_slots s" and ?st = "(u_buddy s, h_mem s)"
  have I: "length ?ms = 4" "arena_inv ?ms ?st" "pins_exclusive ?ms" "armed_ok ?ms (h_ev s)" "empty_free ?ms" "i < length ?ms"
    using inv i by (auto simp: sup_inv_def)
  have nh: "\<not> arena_held (?ms ! i)" using I(5,6) free by (simp add: empty_free_def)
  obtain st d ms' b mm where L: "mdl_load i img len ABI_VERSION ARCH_ARMV7M ?ms ?st = Some (st, d, ms', (b, mm))"
    "if st \<noteq> LOAD_OK then (ms' = ?ms \<and> (b, mm) = ?st) \<or>
         (st = ERR_TEXT_TOO_BIG \<and> (\<exists>rs. ms' = ?ms[i := record_claims rs (?ms ! i)]) \<and> arena_inv ms' (b, mm) \<and> keeps_live ?st mm)
       else arena_inv ms' (b, mm) \<and> arena_held (ms' ! i) \<and> bounds_ok (ms' ! i) \<and> keeps_outside ?st mm \<and> keeps_live ?st mm"
  proof -
    obtain st d ms' st' where a: "mdl_load i img len ABI_VERSION ARCH_ARMV7M ?ms ?st = Some (st, d, ms', st')"
      "if st \<noteq> LOAD_OK then (ms' = ?ms \<and> st' = ?st) \<or>
         (st = ERR_TEXT_TOO_BIG \<and> (\<exists>rs. ms' = ?ms[i := record_claims rs (?ms ! i)]) \<and> arena_inv ms' st' \<and> keeps_live ?st (snd st'))
       else image_ok ?st img len \<longrightarrow>
         arena_inv ms' st' \<and> arena_held (ms' ! i) \<and> bounds_ok (ms' ! i) \<and> (\<forall>j. j \<noteq> i \<longrightarrow> ms' ! j = ?ms ! j)
         \<and> keeps_outside ?st (snd st') \<and> keeps_live ?st (snd st')"
      using load_isolated [OF I(2,6) nh, of img len ABI_VERSION ARCH_ARMV7M] by blast
    show thesis
    proof (rule that [of st d ms' "fst st'" "snd st'"])
      show "mdl_load i img len ABI_VERSION ARCH_ARMV7M ?ms ?st = Some (st, d, ms', (fst st', snd st'))" using a(1) by simp
    qed (use a(2) wf in \<open>simp split: if_splits\<close>)
  qed
  let ?s' = "s\<lparr>h_slots := ms', h_mem := mm, u_buddy := b\<rparr>"
  have run: "load_at i img len s = Some (st, d, ?s')" using L(1) by (simp add: load_at_def)
  have slot: "if st = LOAD_OK then \<exists>m. ms' = ?ms[i := set_entries (read_header (h_mem s) img) m] \<and> arena_held m \<and> bounds_ok m
      else \<exists>m. ms' = ?ms[i := m] \<and> m_state m = SLOT_EMPTY \<and> \<not> arena_held m"
  proof (cases "st = LOAD_OK")
    case True
    then obtain m2 where "ms' = ?ms[i := set_entries (read_header (h_mem s) img) m2]"
      using load_accepted [OF L(1) [unfolded True]] by (metis snd_conv)
    moreover have "bounds_ok (set_entries h m2) = bounds_ok m2" for h by (simp add: bounds_ok_def)
    ultimately show ?thesis using L(2) True I(6) by auto
  next
    case False
    have "?ms[i := ?ms ! i] = ?ms" by simp
    then show ?thesis using L(2) False free nh by (auto simp: record_claims_def intro: exI [of _ "?ms ! i"])
  qed
  have live: "keeps_live ?st mm" and ar: "arena_inv ms' (b, mm)"
    using L(2) I(2) by (auto simp: keeps_live_def split: if_splits)
  obtain m where m: "ms' = ?ms[i := m]" "m_state m = SLOT_EMPTY \<longrightarrow> \<not> arena_held m"
    using slot by (auto split: if_splits)
  have pins: "pins_exclusive ms'"
  proof (cases "st = LOAD_OK")
    case True
    obtain rs m where c: "ms' = ?ms[i := m]" "claims m = rs" "length rs \<le> MAX_RES" "fst (mdl_res_check rs (Some i) ?ms DETAIL_LEN)"
      using load_claims [OF L(1) [unfolded True] I(6)] by blast
    show ?thesis unfolding c(1) by (rule load_keeps_pins_exclusive [OF I(3,6) c(2-4)])
  next
    case False
    then obtain m where "ms' = ?ms[i := m]" "m_state m = SLOT_EMPTY" using slot by auto
    then show ?thesis using pins_exclusive_empty [OF I(3)] by simp
  qed
  have n: "ms' ! j = (if j = i then m else ?ms ! j)" for j using m(1) I(6) by simp
  have armed: "armed_ok ms' (h_ev s)"
    unfolding armed_ok_def
  proof (intro allI impI)
    fix q j assume a: "q < (32 :: nat)" "j < (4 :: nat)" "s_pin_slot (h_ev s) ! q = int j"
    then have "m_state (?ms ! j) \<noteq> SLOT_EMPTY" using I(4) unfolding armed_ok_def by blast
    then have "j \<noteq> i" using free by blast
    then show "m_state (ms' ! j) \<noteq> SLOT_EMPTY \<and> (\<exists>r \<in> set (claims (ms' ! j)). r_kind r = KIND_GPIO \<and> uint (r_id r) = int q)"
      using I(4) a by (simp add: armed_ok_def n)
  qed
  have ef: "empty_free ms'"
  proof -
    have "length ms' = length ?ms" using m(1) by simp
    then show ?thesis using I(5) m(2) unfolding empty_free_def all_set_conv_all_nth by (simp add: n)
  qed
  have inv': "sup_inv ?s'" using inv ar pins armed ef m(1) by (simp add: sup_inv_def)
  have kept: "slot_kept j s ?s'" if j: "j < MAX_SLOTS" "j \<noteq> i" for j
  proof -
    have "mm a = h_mem s a" if r: "r \<in> set (regions_of (?ms ! j))" "a \<in> {fst r ..< snd r}" for r a
    proof -
      have "r \<in> live_regions ?st" by (rule arena_inv_live [OF I(2) nth_mem r(1)]) (use j I(1) in simp)
      then show ?thesis using live r(2) by (cases r) (auto simp: keeps_live_def)
    qed
    then show ?thesis using j n by (simp add: slot_kept_def)
  qed
  have "same_rest s ?s'" by (simp add: same_rest_def)
  moreover have "if st = LOAD_OK then \<exists>m. h_slots ?s' = ?ms[i := set_entries (read_header (h_mem s) img) m] \<and> arena_held m \<and> bounds_ok m
      else \<exists>m. h_slots ?s' = ?ms[i := m] \<and> m_state m = SLOT_EMPTY"
    using slot by (auto split: if_splits)
  moreover have "st = LOAD_OK \<longrightarrow> keeps_outside ?st (h_mem ?s')" using L(2) by simp
  ultimately show ?thesis
    by (intro exI [of _ st] exI [of _ d] exI [of _ ?s'] conjI) (use run inv' kept in \<open>auto simp del: not_None_eq\<close>)
qed

section \<open>Starting\<close>

text \<open>Arming a pin that is nobody's or the slot's own.\<close>

lemma arm_step:
  fixes e :: u8
  assumes ev: "events_inv ev" and i: "i < MAX_SLOTS"
    and own: "0 \<le> p \<Longrightarrow> p < 32 \<Longrightarrow> s_pin_slot ev ! nat p = -1 \<or> s_pin_slot ev ! nat p = int i"
  defines "ev' \<equiv> snd (mdl_events_arm_gpio (int i) p e ev)"
  shows "events_inv ev'" "j \<noteq> i \<Longrightarrow> s_evt ev' ! j = s_evt ev ! j"
    "q < 32 \<Longrightarrow> s_pin_slot ev' ! q = s_pin_slot ev ! q \<or> (int q = p \<and> s_pin_slot ev' ! q = int i)"
proof -
  have len: "length (s_evt ev) = 4" "length (s_pin_slot ev) = 32" using ev by (auto simp: events_inv_def)
  consider "ev' = ev"
    | l where "0 \<le> p" "p < 32" "host_gpio_exti_info p = Some l"
      "ev' = upd_slot (int i) (\<lambda>e. e\<lparr>armed_lines := insert l (armed_lines e)\<rparr>)
         (ev\<lparr>exint_on := insert l (exint_on ev), nvic_on := insert l (nvic_on ev), s_pin_slot := (s_pin_slot ev)[nat p := int i]\<rparr>)"
  proof (cases "e = EDGE_NONE \<or> p < 0 \<or> 32 \<le> p \<or> host_gpio_exti_info p = None")
    case True
    then have "ev' = ev" by (auto simp: ev'_def mdl_events_arm_gpio_def)
    then show ?thesis using that(1) by blast
  next
    case False
    then obtain l where l: "host_gpio_exti_info p = Some l" by blast
    have "slot_ok (int i)" using i by (simp add: slot_ok_def)
    then show ?thesis using False l that(2) [of l] by (simp add: ev'_def mdl_events_arm_gpio_def)
  qed
  then have "events_inv ev' \<and> (\<forall>j. j \<noteq> i \<longrightarrow> s_evt ev' ! j = s_evt ev ! j)
    \<and> (\<forall>q < 32. s_pin_slot ev' ! q = s_pin_slot ev ! q \<or> (int q = p \<and> s_pin_slot ev' ! q = int i))"
  proof cases
    case 1
    then show ?thesis using ev by simp
  next
    case (2 l)
    let ?e = "(s_evt ev ! i)\<lparr>armed_lines := insert l (armed_lines (s_evt ev ! i))\<rparr>"
    have E: "s_evt ev' = (s_evt ev)[i := ?e]" and P: "s_pin_slot ev' = (s_pin_slot ev)[nat p := int i]"
      by (simp_all add: 2(4) upd_slot_def)
    have np: "nat p < 32" "int (nat p) = p" using 2(1,2) by auto
    have ej: "s_evt ev' ! j = (if j = i then ?e else s_evt ev ! j)" if "j < 4" for j using that len E by simp
    have pq: "s_pin_slot ev' ! q = (if q = nat p then int i else s_pin_slot ev ! q)" if "q < 32" for q using that len P by simp
    have "events_inv ev'"
      unfolding events_inv_def
    proof (intro conjI allI impI ballI)
      fix q assume q: "q < (32 :: nat)"
      show "s_pin_slot ev' ! q = -1 \<or> (slot_ok (s_pin_slot ev' ! q)
          \<and> (\<exists>l. host_gpio_exti_info (int q) = Some l \<and> l \<in> armed_lines (s_evt ev' ! nat (s_pin_slot ev' ! q))))"
      proof (cases "q = nat p")
        case True
        then show ?thesis using pq [OF q] ej [OF i] 2(3) np(2) i by (simp add: slot_ok_def)
      next
        case False
        then have s: "s_pin_slot ev' ! q = s_pin_slot ev ! q" using pq [OF q] by simp
        consider "s_pin_slot ev ! q = -1" | k where "slot_ok (s_pin_slot ev ! q)" "host_gpio_exti_info (int q) = Some k"
          "k \<in> armed_lines (s_evt ev ! nat (s_pin_slot ev ! q))" using ev q unfolding events_inv_def by blast
        then show ?thesis
        proof cases
          case (2 k)
          then have "nat (s_pin_slot ev ! q) < 4" by (auto simp: slot_ok_def)
          then show ?thesis using 2 s ej by auto
        qed (use s in simp)
      qed
    next
      fix j k assume j: "j < (4 :: nat)" "k \<in> armed_lines (s_evt ev' ! j)"
      show "\<exists>q < 32. host_gpio_exti_info (int q) = Some k \<and> s_pin_slot ev' ! q = int j"
      proof (cases "j = i \<and> k = l")
        case True
        then show ?thesis using pq [OF np(1)] np 2(3) by (intro exI [of _ "nat p"]) simp
      next
        case False
        then have "k \<in> armed_lines (s_evt ev ! j)" using j ej [OF j(1)] by (auto split: if_splits)
        then obtain q where q: "q < 32" "host_gpio_exti_info (int q) = Some k" "s_pin_slot ev ! q = int j"
          using ev j(1) unfolding events_inv_def by blast
        have "q = nat p \<Longrightarrow> j = i" using own 2(1,2) q(3) by auto
        then show ?thesis using q pq [OF q(1)] by (intro exI [of _ q]) auto
      qed
    qed (use len E P in simp_all)
    moreover have "s_evt ev' ! j = s_evt ev ! j" if "j \<noteq> i" for j using that E by simp
    ultimately show ?thesis using pq np(2) by auto
  qed
  then show "events_inv ev'" "j \<noteq> i \<Longrightarrow> s_evt ev' ! j = s_evt ev ! j"
    "q < 32 \<Longrightarrow> s_pin_slot ev' ! q = s_pin_slot ev ! q \<or> (int q = p \<and> s_pin_slot ev' ! q = int i)" by blast+
qed

text \<open>Two modules that declare one interrupt pin would share a wire.\<close>

lemma button_pin:
  assumes "r_kind r = KIND_GPIO" "uint (r_id r) = int p" "p = 2 \<or> p = 3"
  shows "fst (res_pins r) = (if p = 2 then [3] else [0x42])"
proof -
  have "r_id r = of_nat p" using assms(2) word_of_int_uint [of "r_id r"] by simp
  then show ?thesis using assms(1,3)
    by (auto simp: res_pins_def host_gpio_pin_id_def gpio_lookup_def g_gpio_whitelist_def MDL_PIN_def)
qed

lemma armed_by_self:
  assumes inv: "sup_inv s" and i: "i < MAX_SLOTS" "m_state (h_slots s ! i) \<noteq> SLOT_EMPTY"
    and r: "r \<in> set (claims (h_slots s ! i))" "r_kind r = KIND_GPIO" and p: "uint (r_id r) = int p" "p < 32"
  shows "s_pin_slot (h_ev s) ! p = -1 \<or> s_pin_slot (h_ev s) ! p = int i"
proof (rule ccontr)
  let ?ms = "h_slots s" and ?k = "s_pin_slot (h_ev s) ! p"
  assume no: "\<not> ?thesis"
  have ei: "events_inv (h_ev s)" "armed_ok ?ms (h_ev s)" "pins_exclusive ?ms" "length ?ms = 4" using inv by (auto simp: sup_inv_def)
  have ok: "slot_ok ?k" "\<exists>l. host_gpio_exti_info (int p) = Some l" using ei(1) p(2) no unfolding events_inv_def by blast+
  define j where "j = nat ?k"
  have j: "?k = int j" "j < 4" using ok(1) by (auto simp: slot_ok_def j_def)
  have "p = 2 \<or> p = 3" using ok(2) exti_lines [of "int p"] by auto
  obtain r' where r': "m_state (?ms ! j) \<noteq> SLOT_EMPTY" "r' \<in> set (claims (?ms ! j))" "r_kind r' = KIND_GPIO" "uint (r_id r') = int p"
    using ei(2) p(2) j unfolding armed_ok_def by blast
  define x :: u8 where "x = (if p = 2 then 3 else 0x42)"
  have x: "x \<in> set (fst (res_pins r))" "x \<in> set (fst (res_pins r'))"
    using button_pin [OF r(2) p(1) \<open>p = 2 \<or> p = 3\<close>] button_pin [OF r'(3,4) \<open>p = 2 \<or> p = 3\<close>] by (simp_all add: x_def)
  have "x \<in> set (pins_of (claims (?ms ! i)))" "x \<in> set (pins_of (claims (?ms ! j)))"
    using x r(1) r'(2) unfolding pins_of_mem by blast+
  moreover have "j \<noteq> i" using no j(1) by auto
  ultimately have "held_elsewhere x (Some i) ?ms" "x \<in> set (pins_of (claims (?ms ! i)))"
    using r'(1) j(2) ei(4) by (auto simp: held_elsewhere_def)
  then show False using ei(3,4) i by (simp add: pins_exclusive_def claims_ok_def)
qed

text \<open>What starting changes: the slot's own events, and peripherals that get opened.\<close>

definition start_effect :: "nat \<Rightarrow> sup \<Rightarrow> sup \<Rightarrow> bool" where
  "start_effect i s s' \<longleftrightarrow> sup_inv s' \<and> h_slots s' = h_slots s \<and> h_mem s' = h_mem s \<and> u_buddy s' = u_buddy s \<and> tick s' = tick s
     \<and> u_gpio s' = u_gpio s \<and> u_store s' = u_store s \<and> u_deleted s' = u_deleted s
     \<and> (\<forall>j. j \<noteq> i \<longrightarrow> s_evt (h_ev s') ! j = s_evt (h_ev s) ! j)
     \<and> (\<forall>p. periph_open p (h_devs s) \<longrightarrow> periph_open p (h_devs s'))"

lemma start_effect_refl: "sup_inv s \<Longrightarrow> start_effect i s s"
  by (simp add: start_effect_def)

lemma start_effect_trans: "start_effect i s t \<Longrightarrow> start_effect i t u \<Longrightarrow> start_effect i s u"
  by (auto simp: start_effect_def)

lemma start_effect_kept: "start_effect i s s' \<Longrightarrow> j \<noteq> i \<Longrightarrow> slot_kept j s s'"
  by (auto simp: start_effect_def slot_kept_def)

definition board_answers :: "board \<Rightarrow> bool" where
  "board_answers brd \<longleftrightarrow> (\<forall>p d. host_claim (vend brd) p d \<noteq> None)"

lemma start_claim_effect:
  assumes inv: "sup_inv s" and i: "i < MAX_SLOTS" "m_state (h_slots s ! i) \<noteq> SLOT_EMPTY"
    and r: "r \<in> set (claims (h_slots s ! i))" and ans: "\<And>p d. host_claim v p d \<noteq> None"
  shows "\<exists>s'. start_claim v i r s = Some s' \<and> start_effect i s s'"
proof -
  define s1 where "s1 = (if r_kind r = KIND_GPIO \<and> r_edge r \<noteq> EDGE_NONE
     then s\<lparr>h_ev := snd (mdl_events_arm_gpio (int i) (uint (r_id r)) (r_edge r) (h_ev s))\<rparr> else s)"
  have s1: "start_effect i s s1"
  proof (cases "r_kind r = KIND_GPIO \<and> r_edge r \<noteq> EDGE_NONE")
    case True
    let ?ev = "snd (mdl_events_arm_gpio (int i) (uint (r_id r)) (r_edge r) (h_ev s))"
    have ei: "events_inv (h_ev s)" "armed_ok (h_slots s) (h_ev s)" using inv by (auto simp: sup_inv_def)
    have own: "s_pin_slot (h_ev s) ! nat (uint (r_id r)) = -1 \<or> s_pin_slot (h_ev s) ! nat (uint (r_id r)) = int i"
      if "0 \<le> uint (r_id r)" "uint (r_id r) < 32"
    proof (rule armed_by_self [OF inv i r])
      show "r_kind r = KIND_GPIO" "uint (r_id r) = int (nat (uint (r_id r)))" "nat (uint (r_id r)) < 32" using True that by linarith+
    qed
    note A = arm_step [OF ei(1) i(1) own, where e = "r_edge r"]
    have armed: "armed_ok (h_slots s) ?ev"
      unfolding armed_ok_def
    proof (intro allI impI)
      fix q j assume q: "q < (32 :: nat)" "j < (4 :: nat)" "s_pin_slot ?ev ! q = int j"
      show "m_state (h_slots s ! j) \<noteq> SLOT_EMPTY \<and> (\<exists>r \<in> set (claims (h_slots s ! j)). r_kind r = KIND_GPIO \<and> uint (r_id r) = int q)"
        using A(3) [OF _ _ q(1)]
      proof
        assume "s_pin_slot ?ev ! q = s_pin_slot (h_ev s) ! q"
        then show ?thesis using ei(2) q by (simp add: armed_ok_def)
      next
        assume "int q = uint (r_id r) \<and> s_pin_slot ?ev ! q = int i"
        then have "j = i" "uint (r_id r) = int q" using q(3) by auto
        then show ?thesis using i(2) r True by auto
      qed
    qed
    have "s1 = s\<lparr>h_ev := ?ev\<rparr>" using True by (simp add: s1_def)
    moreover have "sup_inv (s\<lparr>h_ev := ?ev\<rparr>)" using inv A(1) armed by (simp add: sup_inv_def)
    ultimately show ?thesis using A(2) by (simp add: start_effect_def)
  next
    case False
    then have "s1 = s" unfolding s1_def by auto
    then show ?thesis using start_effect_refl [OF inv] by simp
  qed
  have inv1: "sup_inv s1" using s1 by (simp add: start_effect_def)
  obtain ok d where c: "host_claim v (r_kind r, r_id r) (h_devs s1) = Some (ok, d)"
    using ans [of "(r_kind r, r_id r)" "h_devs s1"] by fastforce
  let ?s2 = "s1\<lparr>h_devs := d\<rparr>" and ?s3 = "out (if ok then [] else failed_text (r_kind r)) (s1\<lparr>h_devs := d\<rparr>)"
  have "devs_inv (h_devs s1)" using inv1 by (simp add: sup_inv_def)
  note C = host_claim_spec [OF this c]
  have "sup_inv ?s2" using inv1 C by (simp add: sup_inv_def)
  moreover have "periph_open p (h_devs s1) \<Longrightarrow> periph_open p d" for p using C by blast
  ultimately have s2: "start_effect i s1 ?s2" by (simp add: start_effect_def)
  have pr: "prints ?s2 ?s3" using prints_out [of "[]" ?s2] by (cases ok) simp_all
  have i2: "sup_inv ?s2" using s2 by (simp add: start_effect_def)
  have "start_effect i ?s2 ?s3"
    using i2 sup_inv_prints [OF pr] unfolding start_effect_def by (simp add: prints_fields [OF pr])
  then have "start_effect i s ?s3" using start_effect_trans s1 s2 by blast
  moreover have "start_claim v i r s = Some ?s3" using c by (simp add: start_claim_def s1_def)
  ultimately show ?thesis by blast
qed

lemma start_claims_effect:
  assumes "sup_inv s" "i < MAX_SLOTS" "m_state (h_slots s ! i) \<noteq> SLOT_EMPTY"
    "set rs \<subseteq> set (claims (h_slots s ! i))" "\<And>p d. host_claim v p d \<noteq> None"
  shows "\<exists>s'. start_claims v i rs s = Some s' \<and> start_effect i s s'"
  using assms
proof (induction rs arbitrary: s)
  case Nil
  then show ?case using start_effect_refl by simp
next
  case (Cons r rs)
  obtain s1 where 1: "start_claim v i r s = Some s1" "start_effect i s s1"
    using start_claim_effect [OF Cons.prems(1-3) _ Cons.prems(5), of r] Cons.prems(4) by auto
  have "sup_inv s1" "h_slots s1 = h_slots s" using 1(2) by (simp_all add: start_effect_def)
  then obtain s' where "start_claims v i rs s1 = Some s'" "start_effect i s1 s'"
    using Cons.IH [of s1] Cons.prems by auto
  then show ?case using 1 start_effect_trans by auto
qed

text \<open>The events of a slot are reset: its lines and the pins stay.\<close>

lemma events_reset_keeps:
  assumes "events_inv ev" "i < MAX_SLOTS"
  shows "events_inv (mdl_events_reset (int i) d r t now ev)" "s_pin_slot (mdl_events_reset (int i) d r t now ev) = s_pin_slot ev"
    "j \<noteq> i \<Longrightarrow> s_evt (mdl_events_reset (int i) d r t now ev) ! j = s_evt ev ! j"
proof -
  let ?ev = "mdl_events_reset (int i) d r t now ev"
  have ok: "slot_ok (int i)" using assms(2) by (simp add: slot_ok_def)
  have e: "s_evt ?ev = (s_evt ev)[i := reset_slot d r t now (s_evt ev ! i)]" and p: "s_pin_slot ?ev = s_pin_slot ev"
    using ok by (simp_all add: mdl_events_reset_def upd_slot_def)
  have "armed_lines (s_evt ?ev ! j) = armed_lines (s_evt ev ! j)" for j
    unfolding e by (cases "j = i"; cases "i < length (s_evt ev)") (simp_all add: reset_slot_def list_update_beyond)
  then show "events_inv ?ev" using assms(1) unfolding events_inv_def p by (simp add: e)
  show "s_pin_slot ?ev = s_pin_slot ev" "j \<noteq> i \<Longrightarrow> s_evt ?ev ! j = s_evt ev ! j" using p e by simp_all
qed

definition running :: "nat \<Rightarrow> u32 \<Rightarrow> module \<Rightarrow> module" where
  "running h now m = (host_api_pool_reset m)\<lparr>task_handle := h, last_active_tick := now, m_state := SLOT_RUNNING\<rparr>"

lemma running_simps [simp]:
  "m_state (running h now m) = SLOT_RUNNING" "claims (running h now m) = claims m" "regions_of (running h now m) = regions_of m"
  "arena_held (running h now m) = arena_held m" "cmd_entry (running h now m) = cmd_entry m" "cmd_name (running h now m) = cmd_name m"
  "claims (host_api_pool_reset m) = claims m" "regions_of (host_api_pool_reset m) = regions_of m"
  "arena_held (host_api_pool_reset m) = arena_held m" "m_state (host_api_pool_reset m) = m_state m"
  by (simp_all add: running_def host_api_pool_reset_def claims_def regions_of_def)

lemma start_loaded_effect:
  assumes inv: "sup_inv s" and i: "i < MAX_SLOTS" "m_state (h_slots s ! i) = SLOT_LOADED" and ans: "board_answers brd"
  shows "\<exists>ok s'. start_loaded_module brd i s = Some (ok, s') \<and> sup_inv s' \<and> h_mem s' = h_mem s \<and> u_store s' = u_store s
    \<and> (\<forall>j < MAX_SLOTS. j \<noteq> i \<longrightarrow> slot_kept j s s') \<and> (\<forall>p. periph_open p (h_devs s) \<longrightarrow> periph_open p (h_devs s'))
    \<and> (if ok then \<exists>h. h_slots s' = (h_slots s)[i := running h (tick s) (h_slots s ! i)]
       else h_slots s' = (h_slots s)[i := host_api_pool_reset (h_slots s ! i)])
    \<and> (ok \<longleftrightarrow> create_task brd (map task_handle (h_slots s)) (fill_task_def (host_api_pool_reset (h_slots s ! i))) \<noteq> None)"
proof -
  let ?m = "h_slots s ! i"
  have len: "i < length (h_slots s)" using inv i(1) by (simp add: sup_inv_def)
  define s1 where "s1 = upd_module i host_api_pool_reset s"
  have sl1: "h_slots s1 = (h_slots s)[i := host_api_pool_reset ?m]" using len by (simp add: s1_def upd_module_def)
  have inv1: "sup_inv s1" unfolding s1_def by (rule sup_inv_upd [OF inv i(1)]) simp_all
  have k1: "slot_kept j s s1" if "j \<noteq> i" for j unfolding s1_def by (rule upd_module_kept [OF that])
  have o1: "h_devs s1 = h_devs s" "h_mem s1 = h_mem s" "u_store s1 = u_store s" "tick s1 = tick s" by (simp_all add: s1_def upd_module_def)
  show ?thesis
  proof (cases "create_task brd (map task_handle (h_slots s)) (fill_task_def (host_api_pool_reset ?m))")
    case None
    have "start_loaded_module brd i s = Some (False, s1)"
      using None sl1 len by (simp add: start_loaded_module_def mdl_start_module_task_def s1_def [symmetric])
    then show ?thesis using inv1 k1 o1 sl1 None by (intro exI [of _ False] exI [of _ s1]) simp
  next
    case (Some h)
    define s2 where "s2 = upd_module i (\<lambda>m. m\<lparr>task_handle := h, last_active_tick := tick s, m_state := SLOT_RUNNING\<rparr>) s1"
    have sl2: "h_slots s2 = (h_slots s)[i := running h (tick s) ?m]" using len by (simp add: s2_def upd_module_def sl1 running_def)
    have inv2: "sup_inv s2"
      unfolding s2_def by (rule sup_inv_upd [OF inv1 i(1)]) (use sl1 len i(2) in \<open>simp_all add: claims_def regions_of_def host_api_pool_reset_def\<close>)
    have k2: "slot_kept j s s2" if "j \<noteq> i" for j
      using slot_kept_trans [OF k1 [OF that]] upd_module_kept [OF that] unfolding s2_def by blast
    define m2 where "m2 = h_slots s2 ! i"
    define s3 where "s3 = s2\<lparr>h_ev := mdl_events_reset (int i) (evt_queue_depth m2) (evt_rate_hz m2) (task_handle m2) (tick s2) (h_ev s2)\<rparr>"
    have ei: "events_inv (h_ev s2)" using inv2 by (simp add: sup_inv_def)
    note R = events_reset_keeps [OF ei i(1)]
    have "sup_inv s3" using inv2 R(1,2) by (simp add: sup_inv_def s3_def armed_ok_def)
    then have s3: "start_effect i s2 s3" using R(3) by (simp add: start_effect_def s3_def)
    have sl3: "h_slots s3 = h_slots s2" by (simp add: s3_def)
    have m2: "m2 = running h (tick s) ?m" using sl2 len by (simp add: m2_def)
    obtain s4 where s4: "start_claims (vend brd) i (claims m2) s3 = Some s4" "start_effect i s3 s4"
      using start_claims_effect [OF \<open>sup_inv s3\<close> i(1), of "claims m2" "vend brd"] ans
      by (auto simp: sl3 m2_def [symmetric] m2 board_answers_def)
    have e: "start_effect i s2 s4" using start_effect_trans [OF s3 s4(2)] .
    have "start_loaded_module brd i s = Some (True, s4)"
      using Some sl1 len s4(1)
      by (simp add: start_loaded_module_def mdl_start_module_task_def s1_def [symmetric] s2_def [symmetric] o1(4) Let_def m2_def s3_def)
    moreover have "slot_kept j s s4" if "j \<noteq> i" for j
      using slot_kept_trans [OF k2 [OF that] start_effect_kept [OF e that]] .
    moreover have "h_devs s2 = h_devs s" "h_mem s2 = h_mem s" "u_store s2 = u_store s" using o1 by (simp_all add: s2_def upd_module_def)
    moreover have "sup_inv s4" "h_slots s4 = h_slots s2" "h_mem s4 = h_mem s2" "u_store s4 = u_store s2"
      "\<forall>p. periph_open p (h_devs s2) \<longrightarrow> periph_open p (h_devs s4)" using e by (simp_all add: start_effect_def)
    ultimately show ?thesis using sl2 Some by (intro exI [of _ True] exI [of _ s4]) auto
  qed
qed

section \<open>A push\<close>

text \<open>The slot a push goes to, and when it is turned away before anything is touched.\<close>

definition chosen_slot :: "addr \<Rightarrow> nat \<Rightarrow> sup \<Rightarrow> nat option" where
  "chosen_slot img len s = (case find_slot_by_name (image_name (h_mem s) img len) (h_slots s) of
     Some i \<Rightarrow> Some i | None \<Rightarrow> find_free_slot (h_slots s))"

definition load_refused :: "addr \<Rightarrow> nat \<Rightarrow> sup \<Rightarrow> bool" where
  "load_refused img len s \<longleftrightarrow> (case chosen_slot img len s of None \<Rightarrow> True | Some i \<Rightarrow> command_taken img len i s \<noteq> None
     \<or> map_option fst (mdl_load_validate (Some i) img len ABI_VERSION ARCH_ARMV7M (h_slots s) (u_buddy s, h_mem s)) \<noteq> Some LOAD_OK)"

definition tasks_start :: "board \<Rightarrow> bool" where
  "tasks_start brd \<longleftrightarrow> (\<forall>hs d. create_task brd hs d \<noteq> None)"

text \<open>What a push that was not refused does to the slot \<open>i\<close> it replaces.\<close>

definition replaced :: "board \<Rightarrow> bool \<Rightarrow> nat \<Rightarrow> addr \<Rightarrow> nat \<Rightarrow> sup \<Rightarrow> sup \<Rightarrow> bool" where
  "replaced brd persist i img len s s' \<longleftrightarrow> length (h_slots s') = MAX_SLOTS
     \<and> (\<forall>j < MAX_SLOTS. j \<noteq> i \<longrightarrow> slot_kept j s s')
     \<and> (\<forall>p. periph_open p (h_devs s) \<and> p \<notin> set (claim_ids (h_slots s ! i)) \<longrightarrow> periph_open p (h_devs s'))
     \<and> (let m = h_slots s' ! i in if m_state m = SLOT_RUNNING
         then sup_inv s' \<and> arena_held m \<and> bounds_ok m \<and> m_name m = take 15 (hd_name (read_header (h_mem s) img)) @ [0]
           \<and> (cmd_entry m \<noteq> 0 \<longrightarrow> cmd_name m = take 15 (hd_cmd_name (read_header (h_mem s) img)) @ [0])
           \<and> u_store s' = u_store s @ (if persist then [Saved (mem_read (h_mem s) img len)] else [])
         else m_state m = SLOT_EMPTY \<and> (tasks_start brd \<longrightarrow> sup_inv s') \<and> u_store s' = u_store s)"

lemma clear_slot_effect:
  assumes inv: "sup_inv s" and i: "i < MAX_SLOTS" and free: "\<not> replacing \<Longrightarrow> m_state (h_slots s ! i) = SLOT_EMPTY"
    and wf: "image_ok (u_buddy s, h_mem s) img len" "HDR_SIZE \<le> len"
  shows "\<exists>s1. (if replacing then reclaim_slot i s else Some s) = Some s1 \<and> sup_inv s1 \<and> m_state (h_slots s1 ! i) = SLOT_EMPTY
    \<and> (\<forall>j < MAX_SLOTS. j \<noteq> i \<longrightarrow> slot_kept j s s1)
    \<and> (\<forall>p. periph_open p (h_devs s) \<and> p \<notin> set (claim_ids (h_slots s ! i)) \<longrightarrow> periph_open p (h_devs s1))
    \<and> u_store s1 = u_store s \<and> image_ok (u_buddy s1, h_mem s1) img len
    \<and> pool_of (u_buddy s1, h_mem s1) = pool_of (u_buddy s, h_mem s) \<and> keeps_outside (u_buddy s, h_mem s) (h_mem s1)"
proof (cases replacing)
  case False
  then show ?thesis using inv free wf(1) by (simp add: keeps_outside_def)
next
  case True
  obtain s1 where r: "reclaim_slot i s = Some s1" "reclaim_outcome True i s s1" "reclaim_effect i s s1"
    using reclaim_slot_outcome [OF inv i] by blast
  have len: "i < length (h_slots s)" using inv i by (simp add: sup_inv_def)
  have k: "keeps_rest (u_buddy s, h_mem s) (u_buddy s1, h_mem s1)" and f: "u_store s1 = u_store s" "h_slots s1 ! i = reclaimed (h_slots s ! i)"
    using r(3) len by (auto simp: reclaim_effect_def)
  have o: "pool_of (u_buddy s1, h_mem s1) = pool_of (u_buddy s, h_mem s)" "keeps_outside (u_buddy s, h_mem s) (h_mem s1)"
    using k by (auto simp: keeps_rest_def keeps_outside_def)
  have "image_ok (u_buddy s1, h_mem s1) img len"
    by (rule image_ok_kept(1) [OF wf(1,2)]) (use o in \<open>auto simp: keeps_outside_def\<close>)
  then show ?thesis using True r(1,2) f o by (intro exI [of _ s1]) (simp add: reclaim_outcome_def)
qed

lemma image_outside: "image_ok st img len \<Longrightarrow> img \<le> x \<Longrightarrow> x < img + len \<Longrightarrow> x \<notin> pool_of st"
  unfolding image_ok_def Let_def by fastforce

lemma image_read_kept:
  assumes "image_ok st img len" "keeps_outside st mm" "n \<le> len"
  shows "mem_read mm img n = mem_read (snd st) img n"
  using assms image_outside [OF assms(1)] by (intro mem_read_cong) (auto simp: keeps_outside_def)

lemma header_kept:
  assumes "image_ok st img len" "keeps_outside st mm" "HDR_SIZE \<le> len"
  shows "read_header mm img = read_header (snd st) img"
  by (rule read_header_cong) (use assms image_outside [OF assms(1)] in \<open>auto simp: keeps_outside_def\<close>)

lemma set_entries_name: "m_name (set_entries h m) = take 15 (hd_name h) @ [0]" "m_state (set_entries h m) = SLOT_LOADED"
  "cmd_entry (set_entries h m) \<noteq> 0 \<Longrightarrow> cmd_name (set_entries h m) = take 15 (hd_cmd_name h) @ [0]"
  by (simp_all add: set_entries_def Let_def split: if_splits)

lemma running_name [simp]: "m_name (running h now m) = m_name m"
  by (simp add: running_def host_api_pool_reset_def)

lemma cstr_terminated [simp]: "cstr (bs @ [0]) = cstr bs"
  by (induction bs) simp_all

lemma set_empty_effect:
  assumes "i < length (h_slots s)"
  shows "h_slots (set_empty i s) = (h_slots s)[i := (h_slots s ! i)\<lparr>m_state := SLOT_EMPTY\<rparr>]" "h_devs (set_empty i s) = h_devs s"
    "u_store (set_empty i s) = u_store s" "j \<noteq> i \<Longrightarrow> slot_kept j s (set_empty i s)"
  using assms by (auto simp: set_empty_def upd_module_def slot_kept_def)

lemma set_empty_inv:
  assumes "sup_inv s" "i < MAX_SLOTS" "m_state (h_slots s ! i) = SLOT_EMPTY"
  shows "sup_inv (set_empty i s)"
  unfolding set_empty_def by (rule sup_inv_upd [OF assms(1,2)]) (use assms(3) in \<open>simp_all add: claims_def regions_of_def\<close>)

lemma replaced_prints:
  assumes "replaced brd persist i img len s t" "prints t s'"
  shows "replaced brd persist i img len s s'"
proof -
  note f = prints_fields [OF assms(2)] and inv = sup_inv_prints [OF assms(2)]
  have k: "slot_kept j s s' = slot_kept j s t" for j by (simp add: slot_kept_def f)
  show ?thesis using assms(1) unfolding replaced_def Let_def k inv f .
qed

lemma replaced_empty:
  assumes "\<forall>j < MAX_SLOTS. j \<noteq> i \<longrightarrow> slot_kept j s t" "\<forall>p. periph_open p (h_devs s) \<and> p \<notin> set (claim_ids (h_slots s ! i)) \<longrightarrow> periph_open p (h_devs t)"
    "u_store t = u_store s" "length (h_slots t) = MAX_SLOTS" "i < MAX_SLOTS" "tasks_start brd \<longrightarrow> sup_inv (set_empty i t)"
  shows "replaced brd persist i img len s (set_empty i t)"
proof -
  have "\<forall>j < MAX_SLOTS. j \<noteq> i \<longrightarrow> slot_kept j s (set_empty i t)"
    using assms(1) set_empty_effect(4) [of i t] assms(4,5) slot_kept_trans by auto
  then show ?thesis unfolding replaced_def Let_def using assms set_empty_effect(1-3) [of i t] by simp
qed

lemma replace_with_spec:
  assumes inv: "sup_inv s" and i: "i < MAX_SLOTS" and free: "\<not> replacing \<Longrightarrow> m_state (h_slots s ! i) = SLOT_EMPTY"
    and wf: "image_ok (u_buddy s, h_mem s) img len" "HDR_SIZE \<le> len" and ans: "board_answers brd"
  shows "\<exists>s'. replace_with brd img len persist i replacing s = Some s' \<and> replaced brd persist i img len s s'"
proof -
  obtain s1 where 1: "(if replacing then reclaim_slot i s else Some s) = Some s1" "sup_inv s1" "m_state (h_slots s1 ! i) = SLOT_EMPTY"
    "\<forall>j < MAX_SLOTS. j \<noteq> i \<longrightarrow> slot_kept j s s1"
    "\<forall>p. periph_open p (h_devs s) \<and> p \<notin> set (claim_ids (h_slots s ! i)) \<longrightarrow> periph_open p (h_devs s1)"
    "u_store s1 = u_store s" "image_ok (u_buddy s1, h_mem s1) img len"
    "pool_of (u_buddy s1, h_mem s1) = pool_of (u_buddy s, h_mem s)" "keeps_outside (u_buddy s, h_mem s) (h_mem s1)"
    using clear_slot_effect [OF inv i free wf] by blast
  obtain st d s2 where 2: "load_at i img len s1 = Some (st, d, s2)" "sup_inv s2" "same_rest s1 s2"
    "\<forall>j < MAX_SLOTS. j \<noteq> i \<longrightarrow> slot_kept j s1 s2"
    "if st = LOAD_OK then \<exists>m. h_slots s2 = (h_slots s1)[i := set_entries (read_header (h_mem s1) img) m] \<and> arena_held m \<and> bounds_ok m
     else \<exists>m. h_slots s2 = (h_slots s1)[i := m] \<and> m_state m = SLOT_EMPTY"
    "st = LOAD_OK \<longrightarrow> keeps_outside (u_buddy s1, h_mem s1) (h_mem s2)"
    using load_at_effect [OF 1(2) i 1(3,7)] by blast
  have L: "length (h_slots s1) = MAX_SLOTS" "length (h_slots s2) = MAX_SLOTS" using 1(2) 2(2) by (simp_all add: sup_inv_def)
  then have len: "i < length (h_slots s1)" "i < length (h_slots s2)" using i by simp_all
  have k2: "\<forall>j < MAX_SLOTS. j \<noteq> i \<longrightarrow> slot_kept j s s2" using slot_kept_trans 1(4) 2(4) by blast
  have p2: "\<forall>p. periph_open p (h_devs s) \<and> p \<notin> set (claim_ids (h_slots s ! i)) \<longrightarrow> periph_open p (h_devs s2)"
    and u2: "u_store s2 = u_store s" using 1(5,6) 2(3) by (simp_all add: same_rest_def)
  show ?thesis
  proof (cases "st = LOAD_OK")
    case False
    then have e: "m_state (h_slots s2 ! i) = SLOT_EMPTY" using 2(5) len by auto
    have "replaced brd persist i img len s (set_empty i s2)"
      by (rule replaced_empty [OF k2 p2 u2 L(2) i]) (simp add: set_empty_inv [OF 2(2) i e])
    then have "replaced brd persist i img len s (send_load_error st d (set_empty i s2))" by (rule replaced_prints) simp
    moreover have "replace_with brd img len persist i replacing s = Some (send_load_error st d (set_empty i s2))"
      using 1(1) 2(1) False by (simp add: replace_with_def)
    ultimately show ?thesis by blast
  next
    case ok: True
    obtain m where m: "h_slots s2 ! i = set_entries (read_header (h_mem s1) img) m" "arena_held m" "bounds_ok m" using 2(5) ok len by auto
    have l: "m_state (h_slots s2 ! i) = SLOT_LOADED" by (simp add: m(1) set_entries_name)
    obtain started s3 where 3: "start_loaded_module brd i s2 = Some (started, s3)" "sup_inv s3" "h_mem s3 = h_mem s2" "u_store s3 = u_store s2"
      "\<forall>j < MAX_SLOTS. j \<noteq> i \<longrightarrow> slot_kept j s2 s3" "\<forall>p. periph_open p (h_devs s2) \<longrightarrow> periph_open p (h_devs s3)"
      "if started then \<exists>h. h_slots s3 = (h_slots s2)[i := running h (tick s2) (h_slots s2 ! i)]
       else h_slots s3 = (h_slots s2)[i := host_api_pool_reset (h_slots s2 ! i)]"
      "started \<longleftrightarrow> create_task brd (map task_handle (h_slots s2)) (fill_task_def (host_api_pool_reset (h_slots s2 ! i))) \<noteq> None"
      using start_loaded_effect [OF 2(2) i l ans] by blast
    have len3: "length (h_slots s3) = MAX_SLOTS" using 3(2) by (simp add: sup_inv_def)
    have k3: "\<forall>j < MAX_SLOTS. j \<noteq> i \<longrightarrow> slot_kept j s s3" using slot_kept_trans k2 3(5) by blast
    have p3: "\<forall>p. periph_open p (h_devs s) \<and> p \<notin> set (claim_ids (h_slots s ! i)) \<longrightarrow> periph_open p (h_devs s3)" using p2 3(6) by blast
    show ?thesis
    proof (cases started)
      case False
      have nt: "\<not> tasks_start brd" using 3(8) False unfolding tasks_start_def by blast
      have "replaced brd persist i img len s (set_empty i s3)"
        by (rule replaced_empty [OF k3 p3 _ len3 i]) (use u2 3(4) nt in simp_all)
      then show ?thesis using 1(1) 2(1) 3(1) ok False replaced_prints [OF _ prints_respond]
        by (simp add: replace_with_def)
    next
      case True
      obtain h where h: "h_slots s3 ! i = running h (tick s2) (h_slots s2 ! i)" using 3(7) True len by auto
      have name: "m_name (h_slots s3 ! i) = take 15 (hd_name (read_header (h_mem s) img)) @ [0]"
        "cmd_entry (h_slots s3 ! i) \<noteq> 0 \<longrightarrow> cmd_name (h_slots s3 ! i) = take 15 (hd_cmd_name (read_header (h_mem s) img)) @ [0]"
        using header_kept [OF wf(1) 1(9) wf(2)] by (simp_all add: h m(1) set_entries_name)
      have held: "arena_held (h_slots s3 ! i)" "bounds_ok (h_slots s3 ! i)"
        using m(2,3) by (simp_all add: h m(1) bounds_ok_def running_def host_api_pool_reset_def)
      have ko: "keeps_outside (u_buddy s, h_mem s) (h_mem s3)"
        using 1(8,9) 2(6) 3(3) ok unfolding keeps_outside_def by simp
      have img: "mem_read (h_mem s3) img len = mem_read (h_mem s) img len" using image_read_kept [OF wf(1) ko] by simp
      let ?s4 = "if persist then s3\<lparr>u_store := u_store s3 @ [Saved (mem_read (h_mem s3) img len)]\<rparr> else s3"
      have i4: "sup_inv ?s4" using 3(2) by (simp add: sup_inv_def)
      have "replaced brd persist i img len s ?s4"
        unfolding replaced_def Let_def
        using k3 p3 u2 3(4) i4 name len3 held by (simp add: h slot_kept_def img)
      then have "replaced brd persist i img len s (respond r bs n ?s4)" for r bs n by (rule replaced_prints) simp
      moreover have "\<exists>r bs n. replace_with brd img len persist i replacing s = Some (respond r bs n ?s4)"
        using 1(1) 2(1) 3(1) ok True by (cases persist) (auto simp: replace_with_def Let_def)
      ultimately show ?thesis by metis
    qed
  qed
qed

end
