(* ===== verification/Supervisor_Push.thy ===== *)
theory Supervisor_Push
  imports Supervisor_Load
begin

text \<open>
  The properties of a push: it is isolated to one slot, command names stay unique, and a task that cannot be created
  leaves the memory of its module behind.
\<close>

section \<open>Isolation\<close>

lemma chosen_slot_some:
  assumes "chosen_slot img len s = Some i"
  shows "i < length (h_slots s)"
    "find_slot_by_name (image_name (h_mem s) img len) (h_slots s) = None \<Longrightarrow> m_state (h_slots s ! i) = SLOT_EMPTY"
  using assms find_idx_Some [of _ "h_slots s" i]
  by (auto simp: chosen_slot_def find_slot_by_name_def find_free_slot_def split: option.splits if_splits)

lemma push_outcome:
  assumes "sup_inv s" "board_answers brd" "image_ok (u_buddy s, h_mem s) img len"
  shows "\<exists>s'. handle_load brd img len persist s = Some s'
    \<and> (if load_refused img len s then prints s s'
       else \<exists>i < MAX_SLOTS. chosen_slot img len s = Some i \<and> replaced brd persist i img len s s')"
proof -
  let ?named = "find_slot_by_name (image_name (h_mem s) img len) (h_slots s)"
  have unfold: "handle_load brd img len persist s = (case chosen_slot img len s of
      None \<Rightarrow> Some (respond RESP_ERROR (ascii ''all slots in use; unload one first'') 33 s)
    | Some slot \<Rightarrow> (case command_taken img len slot s of
        Some other \<Rightarrow> Some (refuse_command img other s)
      | None \<Rightarrow> (case mdl_load_validate (Some slot) img len ABI_VERSION ARCH_ARMV7M (h_slots s) (u_buddy s, h_mem s) of
          None \<Rightarrow> None
        | Some (vst, detail) \<Rightarrow> if vst \<noteq> LOAD_OK then Some (send_load_error vst detail s)
            else replace_with brd img len persist slot (?named \<noteq> None) s)))"
    by (simp add: handle_load_def chosen_slot_def Let_def)
  have bo: "buddy_ok (u_buddy s, h_mem s)" using assms(1) by (simp add: sup_inv_def arena_inv_def)
  show ?thesis
  proof (cases "chosen_slot img len s")
    case None
    then show ?thesis by (simp add: unfold load_refused_def)
  next
    case (Some i)
    have i: "i < MAX_SLOTS" using chosen_slot_some(1) [OF Some] assms(1) by (simp add: sup_inv_def)
    show ?thesis
    proof (cases "command_taken img len i s")
      case other: (Some j)
      have "prints s (refuse_command img j s)"
        unfolding refuse_command_def Let_def by (rule prints_trans [OF prints_out prints_respond]) auto
      then show ?thesis using Some other by (simp add: unfold load_refused_def)
    next
      case None
      obtain vst d where v: "mdl_load_validate (Some i) img len ABI_VERSION ARCH_ARMV7M (h_slots s) (u_buddy s, h_mem s) = Some (vst, d)"
        using validate_total [OF bo] by (metis surj_pair)
      show ?thesis
      proof (cases "vst = LOAD_OK")
        case False
        then show ?thesis using Some None v by (simp add: unfold load_refused_def)
      next
        case True
        have len: "HDR_SIZE \<le> len" by (rule validate_accepted(1) [OF v [unfolded True]])
        have free: "\<not> ?named \<noteq> None \<Longrightarrow> m_state (h_slots s ! i) = SLOT_EMPTY" using chosen_slot_some(2) [OF Some] by simp
        obtain s' where "replace_with brd img len persist i (?named \<noteq> None) s = Some s'" "replaced brd persist i img len s s'"
          using replace_with_spec [OF assms(1) i free assms(3) len assms(2)] by blast
        moreover have "\<not> load_refused img len s" using Some None v True by (simp add: load_refused_def)
        ultimately show ?thesis using Some None v True i by (simp add: unfold)
      qed
    qed
  qed
qed


section \<open>Command names\<close>

definition offers :: "module \<Rightarrow> bytes \<Rightarrow> bool" where
  "offers m cmd \<longleftrightarrow> m_state m = SLOT_RUNNING \<and> cmd_entry m \<noteq> 0 \<and> cstr (cmd_name m) = cmd \<and> cmd \<noteq> []"

definition commands_unique :: "slots \<Rightarrow> bool" where
  "commands_unique ms \<longleftrightarrow> (\<forall>i < length ms. \<forall>j < length ms. \<forall>cmd. offers (ms ! i) cmd \<and> offers (ms ! j) cmd \<longrightarrow> i = j)"

lemma cstr_take: "length (cstr bs) < Suc n \<Longrightarrow> cstr (take n bs) = cstr bs"
  by (induction bs arbitrary: n) (auto simp: take_Cons split: nat.splits if_splits)

lemma find_command_offers: "find_slot_by_command cmd ms = find_idx (\<lambda>m. offers m (cstr cmd)) ms"
  unfolding find_slot_by_command_def offers_def by (rule arg_cong [where f = "\<lambda>P. find_idx P ms"]) auto

lemma replaced_commands_unique:
  assumes inv: "sup_inv s" and i: "i < MAX_SLOTS" "chosen_slot img len s = Some i" "replaced brd persist i img len s s'"
    and ref: "\<not> load_refused img len s" and cu: "commands_unique (h_slots s)"
    and short: "length (cstr (hd_cmd_name (read_header (h_mem s) img))) < 16"
  shows "commands_unique (h_slots s')" "length (h_slots s') = 4"
proof -
  let ?cmd = "hd_cmd_name (read_header (h_mem s) img)"
  have nt: "command_taken img len i s = None" and v: "map_option fst (mdl_load_validate (Some i) img len ABI_VERSION ARCH_ARMV7M (h_slots s) (u_buddy s, h_mem s)) = Some LOAD_OK"
    using ref i(2) by (simp_all add: load_refused_def)
  have len: "HDR_SIZE \<le> len" using v validate_accepted(1) by fastforce
  have L: "length (h_slots s) = 4" "length (h_slots s') = 4" using inv i(3) by (simp_all add: sup_inv_def replaced_def)
  have new: "cmd = cstr ?cmd" if "offers (h_slots s' ! i) cmd" for cmd
    using that i(3) cstr_take [of ?cmd 15] short by (auto simp: offers_def replaced_def Let_def)
  have old: "offers (h_slots s' ! j) cmd = offers (h_slots s ! j) cmd" if "j < 4" "j \<noteq> i" for j cmd
    using that i(3) by (simp add: replaced_def slot_kept_def)
  have clash: "\<not> (offers (h_slots s' ! i) cmd \<and> offers (h_slots s' ! j) cmd)" if j: "j < 4" "j \<noteq> i" for j cmd
  proof
    assume a: "offers (h_slots s' ! i) cmd \<and> offers (h_slots s' ! j) cmd"
    then have c: "cmd = cstr ?cmd" "offers (h_slots s ! j) (cstr ?cmd)" "cstr ?cmd \<noteq> []"
      using new old [OF j] by (auto simp: offers_def)
    have "find_slot_by_command ?cmd (h_slots s) = Some j"
      unfolding find_command_offers
      by (rule find_idx_unique) (use j L c cu in \<open>auto simp: commands_unique_def\<close>)
    then show False using nt j(2) len c(3) by (simp add: command_taken_def)
  qed
  have "i1 = i2" if a: "i1 < 4" "i2 < 4" "offers (h_slots s' ! i1) cmd" "offers (h_slots s' ! i2) cmd" for i1 i2 cmd
  proof (rule ccontr)
    assume ne: "i1 \<noteq> i2"
    then consider "i1 = i" "i2 \<noteq> i" | "i2 = i" "i1 \<noteq> i" | "i1 \<noteq> i" "i2 \<noteq> i" by blast
    then show False
    proof cases
      case 3
      then show False using old a cu ne L(1) unfolding commands_unique_def by metis
    qed (use clash a in blast)+
  qed
  then show "commands_unique (h_slots s')" "length (h_slots s') = 4" using L by (auto simp: commands_unique_def)
qed

lemma unique_found:
  assumes "commands_unique ms" "length ms = 4" "i < 4" "offers (ms ! i) (cstr cmd)"
  shows "find_slot_by_command cmd ms = Some i"
  unfolding find_command_offers
proof (rule find_idx_unique)
  show "i < length ms" "offers (ms ! i) (cstr cmd)" using assms by simp_all
  show "j = i" if "j < length ms" "offers (ms ! j) (cstr cmd)" for j
    using assms that unfolding commands_unique_def by metis
qed


section \<open>Restoring\<close>

text \<open>One image into a free slot, restored and pushed.\<close>

abbreviation rejected_text :: "load_status \<Rightarrow> string \<Rightarrow> (devs \<Rightarrow> devs) list" where
  "rejected_text st detail \<equiv> [puts ''[host] saved MDL rejected at boot: '', puts (mdl_load_status_str st)]
     @ (if detail \<noteq> [] then [puts '': '', puts detail] else []) @ [crlf]"

lemma restore_texts:
  "prints t (out (rejected_text st detail) t)" "prints t (out [puts ''[host] restored: '', name_out n, crlf] t)"
  by (rule prints_out, auto split: if_splits)+

lemma set_empty_out: "set_empty i (out ps t) = out ps (set_empty i t)"
  by (simp add: set_empty_def upd_module_def out_def)

lemma set_empty_same:
  assumes "m_state (h_slots s ! i) = SLOT_EMPTY"
  shows "set_empty i s = s"
proof -
  have "(h_slots s ! i)\<lparr>m_state := SLOT_EMPTY\<rparr> = h_slots s ! i" using assms by (cases "h_slots s ! i") simp
  then show ?thesis by (simp add: set_empty_def upd_module_def)
qed

lemma restore_into:
  assumes "persist_entry brd (u_store s) k = Some (img, len)" "find_free_slot (h_slots s) = Some i"
  shows "restore_from brd [k] s = (case load_at i img len s of None \<Rightarrow> None
      | Some (st, detail, s1) \<Rightarrow> if st \<noteq> LOAD_OK then Some (set_empty i (out (rejected_text st detail) s1))
          else case start_loaded_module brd i s1 of None \<Rightarrow> None
          | Some (False, s2) \<Rightarrow> Some (set_empty i s2)
          | Some (True, s2) \<Rightarrow> Some (out [puts ''[host] restored: '', name_out (m_name (h_slots s2 ! i)), crlf] s2))"
  using assms by (simp split: option.split prod.split bool.split)

lemma push_into:
  assumes "find_slot_by_name (image_name (h_mem s) img len) (h_slots s) = None" "\<And>i. command_taken img len i s = None"
    "find_free_slot (h_slots s) = Some i"
  shows "handle_load brd img len persist s =
    (case mdl_load_validate (Some i) img len ABI_VERSION ARCH_ARMV7M (h_slots s) (u_buddy s, h_mem s) of None \<Rightarrow> None
      | Some (vst, detail) \<Rightarrow> if vst \<noteq> LOAD_OK then Some (send_load_error vst detail s) else replace_with brd img len persist i False s)"
  using assms by (simp add: handle_load_def Let_def split: option.split)

text \<open>What the two do alike once the image has passed the check.\<close>

lemma restore_as_replace:
  assumes "persist_entry brd (u_store s) k = Some (img, len)" "find_free_slot (h_slots s) = Some i"
  shows "case restore_from brd [k] s of None \<Rightarrow> replace_with brd img len False i False s = None
    | Some a \<Rightarrow> \<exists>b u. replace_with brd img len False i False s = Some b \<and> prints u a \<and> prints u b"
proof (cases "load_at i img len s")
  case None
  then show ?thesis by (simp add: restore_into [OF assms] replace_with_def del: restore_from.simps)
next
  case (Some q)
  obtain st detail s1 where q: "q = (st, detail, s1)" by (cases q)
  show ?thesis
  proof (cases "st = LOAD_OK")
    case False
    have "restore_from brd [k] s = Some (out (rejected_text st detail) (set_empty i s1))"
      using Some q False by (simp only: restore_into [OF assms] option.case prod.case set_empty_out) simp
    then show ?thesis using Some q False restore_texts(1) [of "set_empty i s1" st detail]
      by (auto simp: replace_with_def simp del: restore_from.simps intro: exI [of _ "set_empty i s1"])
  next
    case True
    have ans: "\<exists>u. prints u t \<and> prints u (respond c bs n t)" "\<exists>u. prints u (out [puts ''[host] restored: '', name_out nm, crlf] t) \<and> prints u (respond c bs n t)"
      for t c bs n nm using restore_texts(2) prints_refl prints_respond by blast+
    show ?thesis using True Some q ans
      by (auto simp: restore_into [OF assms] replace_with_def simp del: restore_from.simps split: option.splits bool.splits)
  qed
qed


section \<open>A task that cannot be created\<close>


end
