(* ===== verification/Supervisor_Fixed.thy ===== *)
theory Supervisor_Fixed
  imports Supervisor_Push
begin

text \<open>
  What the supervisor's own work never touches: where the arena lies, the bytes outside it during the watchdog's rounds, the
  frame parser and the line editor.
\<close>

section \<open>Buffers of the receiving task\<close>

text \<open>The line editor belongs to the receiving task, and the frame parser too: the watchdog and the frames do not touch them.\<close>

lemma u_line_same [simp]:
  "u_line (out ps s) = u_line s" "u_proto (out ps s) = u_proto s" "u_line (upd_module i f s) = u_line s"
  "u_proto (upd_module i f s) = u_proto s" "u_line (respond r bs n s) = u_line s" "u_line (send_load_error st d s) = u_line s"
  "u_line (set_empty i s) = u_line s" "u_line (handle_status s) = u_line s" "u_line (refuse_command img j s) = u_line s"
  by (simp_all add: out_def upd_module_def respond_def send_load_error_def set_empty_def handle_status_def refuse_command_def Let_def)

lemma reclaim_line:
  assumes "reclaim_slot i s = Some s'"
  shows "u_line s' = u_line s" "u_proto s' = u_proto s"
proof -
  have d: "u_line (delete_task i s) = u_line s" "u_proto (delete_task i s) = u_proto s" by (simp_all add: delete_task_def Let_def)
  show "u_line s' = u_line s" "u_proto s' = u_proto s"
    using assms d by (auto simp: reclaim_slot_def Let_def split: option.splits prod.splits)
qed

lemma reclaim_used_line: "reclaim_used is s = Some s' \<Longrightarrow> u_line s' = u_line s"
  by (induction "is" arbitrary: s) (auto split: if_splits option.splits dest: reclaim_line)

lemma start_line:
  assumes "start_loaded_module brd i s = Some (ok, s')"
  shows "u_line s' = u_line s"
proof -
  have c: "start_claim v j r t = Some t' \<Longrightarrow> u_line t' = u_line t" for v j r t t'
    by (auto simp: start_claim_def Let_def split: option.splits)
  have cs: "start_claims v j rs t = Some t' \<Longrightarrow> u_line t' = u_line t" for v j rs t t'
    by (induction rs arbitrary: t) (auto split: option.splits dest: c)
  have m: "mdl_start_module_task f j t = (b, t') \<Longrightarrow> u_line t' = u_line t" for f j b and t t' :: sup
    by (auto simp: mdl_start_module_task_def Let_def split: option.splits)
  show ?thesis using assms by (auto simp: start_loaded_module_def Let_def split: prod.splits bool.splits dest!: cs m)
qed

lemma handle_load_line:
  assumes "handle_load brd img len persist s = Some s'"
  shows "u_line s' = u_line s"
proof -
  have l: "load_at i img len t = Some (st, d, t') \<Longrightarrow> u_line t' = u_line t" for i t st d t'
    by (auto simp: load_at_def split: option.splits)
  have r: "replace_with brd img len persist i b t = Some t' \<Longrightarrow> u_line t' = u_line t" for i b t t'
    by (auto simp: replace_with_def Let_def split: option.splits prod.splits if_splits dest!: l start_line reclaim_line(1))
  show ?thesis using assms by (auto simp: handle_load_def Let_def split: option.splits prod.splits if_splits dest: r)
qed

lemma dispatch_line: "dispatch_frame brd rxbuf cmd payload s = Some s' \<Longrightarrow> u_line s' = u_line s"
  by (auto simp: dispatch_frame_def Let_def handle_unload_def split: if_splits dest: handle_load_line reclaim_used_line
      simp del: upt_Suc reclaim_used.simps)

text \<open>A round of the watchdog leaves the bytes outside the arena as they are.\<close>

lemma check_slots_rest:
  assumes "sup_inv s" "set is \<subseteq> {..< MAX_SLOTS}" "check_slots is s = Some s'"
  shows "keeps_rest (u_buddy s, h_mem s) (u_buddy s', h_mem s') \<and> u_line s' = u_line s \<and> u_proto s' = u_proto s"
  using assms
proof (induction "is" arbitrary: s)
  case (Cons i "is")
  have i: "i < MAX_SLOTS" using Cons.prems(2) by simp
  obtain s1 where 1: "check_slot i s = Some s1" "check_slots is s1 = Some s'"
    using Cons.prems(3) by (auto split: option.splits)
  have inv1: "sup_inv s1" using check_slot_spec [OF Cons.prems(1) i] 1(1) by (auto simp: reclaim_outcome_def)
  have k: "keeps_rest (u_buddy s, h_mem s) (u_buddy s1, h_mem s1) \<and> u_line s1 = u_line s \<and> u_proto s1 = u_proto s"
  proof (cases "s1 = s")
    case True
    then show ?thesis by (simp add: keeps_rest_def)
  next
    case False
    then have f: "m_state (h_slots s ! i) \<noteq> SLOT_EMPTY" using 1(1) by (auto simp: check_slot_def Let_def split: if_splits)
    define t where "t = (if m_state (h_slots s ! i) = SLOT_FAULTED then s else upd_module i (\<lambda>m. m\<lparr>m_state := SLOT_FAULTED\<rparr>) s)"
    have r: "reclaim_slot i t = Some s1" using 1(1) False by (auto simp: check_slot_def t_def Let_def split: if_splits)
    have t: "sup_inv t" "u_buddy t = u_buddy s" "h_mem t = h_mem s" "u_line t = u_line s" "u_proto t = u_proto s"
      using Cons.prems(1) sup_inv_upd [OF Cons.prems(1) i, of "\<lambda>m. m\<lparr>m_state := SLOT_FAULTED\<rparr>"] f
      by (auto simp: t_def upd_module_def claims_def regions_of_def)
    have "reclaim_effect i t s1" using reclaim_slot_outcome [OF t(1) i] r by auto
    then show ?thesis using t reclaim_line [OF r] by (simp add: reclaim_effect_def)
  qed
  then show ?case using Cons.IH [OF inv1 _ 1(2)] Cons.prems(2) keeps_rest_trans by auto
qed (simp add: keeps_rest_def)

section \<open>Where the arena lies\<close>

lemma pool_base: "pool_of st' = pool_of st \<Longrightarrow> s_base (fst st') = s_base (fst st)"
  by (simp add: pool_of_def atLeastLessThan_eq_iff)

lemma acquire_base:
  assumes ok: "buddy_ok st" and run: "mdl_arena_acquire tb db m st = Some (granted, m', st')"
  shows "s_base (fst st') = s_base (fst st)"
proof -
  obtain t st1 where A: "mdl_buddy_alloc tb st = (t, st1)" by (cases "mdl_buddy_alloc tb st")
  obtain d st2 where B: "mdl_buddy_alloc db st1 = (d, st2)" by (cases "mdl_buddy_alloc db st1")
  obtain h st3 where C: "mdl_buddy_alloc HEAPSTACK_BYTES st2 = (h, st3)" by (cases "mdl_buddy_alloc HEAPSTACK_BYTES st2")
  note a = alloc_full [OF ok A]
  note b = alloc_full [OF conjunct1 [OF a] B]
  note c = alloc_full [OF conjunct1 [OF b] C]
  have k: "buddy_ok st3" "s_base (fst st3) = s_base (fst st)" using a b c by simp_all
  obtain st4 where 4: "mdl_buddy_free t st3 = Some st4" "buddy_ok st4" "s_base (fst st4) = s_base (fst st3)"
    using free_full [OF k(1), of t] by blast
  obtain st5 where 5: "mdl_buddy_free d st4 = Some st5" "buddy_ok st5" "s_base (fst st5) = s_base (fst st4)"
    using free_full [OF 4(2), of d] by blast
  obtain st6 where 6: "mdl_buddy_free h st5 = Some st6" "s_base (fst st6) = s_base (fst st5)"
    using free_full [OF 5(2), of h] by blast
  show ?thesis using run A B C k 4 5 6 by (auto simp: mdl_arena_acquire_def split: if_splits)
qed

lemma load_base:
  assumes "buddy_ok (u_buddy s, h_mem s)" "load_at i img len s = Some (st, d, s')"
  shows "s_base (u_buddy s') = s_base (u_buddy s)"
proof -
  have "s_base b = s_base (u_buddy s)" if "mdl_arena_acquire tb db m (u_buddy s, h_mem s) = Some (g, m', (b, mm))" for tb db m g m' b mm
    using acquire_base [OF assms(1) that] by simp
  then show ?thesis using assms(2)
    by (auto simp: load_at_def mdl_load_def Let_def split: option.splits prod.splits if_splits)
qed

lemma u_buddy_same [simp]:
  "u_buddy (out ps s) = u_buddy s" "u_buddy (upd_module i f s) = u_buddy s" "u_buddy (respond r bs n s) = u_buddy s"
  "u_buddy (send_load_error st d s) = u_buddy s" "u_buddy (set_empty i s) = u_buddy s" "u_buddy (refuse_command img j s) = u_buddy s"
  by (simp_all add: out_def upd_module_def respond_def send_load_error_def set_empty_def refuse_command_def Let_def)

lemma start_base:
  assumes "start_loaded_module brd i s = Some (ok, s')"
  shows "u_buddy s' = u_buddy s"
proof -
  have c: "start_claim v j r t = Some t' \<Longrightarrow> u_buddy t' = u_buddy t" for v j r t t'
    by (auto simp: start_claim_def Let_def split: option.splits)
  have cs: "start_claims v j rs t = Some t' \<Longrightarrow> u_buddy t' = u_buddy t" for v j rs t t'
    by (induction rs arbitrary: t) (auto split: option.splits dest: c)
  have m: "mdl_start_module_task f j t = (b, t') \<Longrightarrow> u_buddy t' = u_buddy t" for f j b and t t' :: sup
    by (auto simp: mdl_start_module_task_def Let_def split: option.splits)
  show ?thesis using assms by (auto simp: start_loaded_module_def Let_def split: prod.splits bool.splits dest!: cs m)
qed

lemma reclaim_base:
  assumes "sup_inv s" "i < MAX_SLOTS" "reclaim_slot i s = Some s'"
  shows "s_base (u_buddy s') = s_base (u_buddy s)" "sup_inv s'"
proof -
  have "reclaim_effect i s s'" "sup_inv s'" using reclaim_slot_inv [OF assms(1,2)] assms(3) by auto
  then show "s_base (u_buddy s') = s_base (u_buddy s)" "sup_inv s'"
    using pool_base [of "(u_buddy s', h_mem s')" "(u_buddy s, h_mem s)"] by (simp_all add: reclaim_effect_def keeps_rest_def)
qed

lemma reclaim_used_base:
  "sup_inv s \<Longrightarrow> set is \<subseteq> {..< MAX_SLOTS} \<Longrightarrow> reclaim_used is s = Some s' \<Longrightarrow> s_base (u_buddy s') = s_base (u_buddy s)"
proof (induction "is" arbitrary: s)
  case (Cons i "is")
  then show ?case using reclaim_base [of s i] by (auto split: if_splits option.splits)
qed simp

lemma sup_inv_buddy: "sup_inv s \<Longrightarrow> buddy_ok (u_buddy s, h_mem s)"
  by (simp add: sup_inv_def arena_inv_def)

lemma handle_load_base:
  assumes inv: "sup_inv s" and run: "handle_load brd img len persist s = Some s'"
  shows "s_base (u_buddy s') = s_base (u_buddy s)"
proof -
  have r: "s_base (u_buddy t') = s_base (u_buddy s)" if "replace_with brd img len persist i b s = Some t'" "i < MAX_SLOTS" for i b t'
  proof -
    note run = that(1)
    obtain s1 where 1: "(if b then reclaim_slot i s else Some s) = Some s1"
      using run by (cases b; cases "reclaim_slot i s") (simp_all add: replace_with_def)
    have b1: "s_base (u_buddy s1) = s_base (u_buddy s)" "sup_inv s1" using 1 reclaim_base [OF inv that(2)] inv by (auto split: if_splits)
    obtain st d s2 where 2: "load_at i img len s1 = Some (st, d, s2)" using run 1 by (auto simp: replace_with_def split: option.splits)
    note b2 = load_base [OF sup_inv_buddy [OF b1(2)] 2]
    show ?thesis using that(1) 1 2 b1 b2 by (auto simp: replace_with_def Let_def split: option.splits if_splits dest!: start_base)
  qed
  have L: "length (h_slots s) = 4" using inv by (simp add: sup_inv_def)
  have lt: "find_slot_by_name n (h_slots s) = Some i \<Longrightarrow> i < MAX_SLOTS" "find_free_slot (h_slots s) = Some i \<Longrightarrow> i < MAX_SLOTS" for n i
    using find_idx_Some [of _ "h_slots s" i] L by (auto simp: find_slot_by_name_def find_free_slot_def split: if_splits)
  show ?thesis using run lt by (auto simp: handle_load_def Let_def split: option.splits prod.splits if_splits dest: r)
qed

end
