(* ===== verification/Console_Cmds.thy ===== *)
theory Console_Cmds
  imports Supervisor Buddy_Selftest "HOL-Library.Monad_Syntax"
begin

text \<open>
  The commands of \<open>src/mdl/transport/console.c\<close> and their dispatch. A command's output is a list of calls that print,
  in order; what the board layer supplies (its build, its clock, the report on the last fault) is a
  parameter.
\<close>

section \<open>Output\<close>

abbreviation num :: "u32 \<Rightarrow> devs \<Rightarrow> devs" where "num \<equiv> console_put_u32"

definition hex32 :: "u32 \<Rightarrow> devs \<Rightarrow> devs" where
  "hex32 v = mdl_console_puts (put_hex32 v)"

definition hex8 :: "u8 \<Rightarrow> devs \<Rightarrow> devs" where
  "hex8 v = mdl_console_puts (put_hex8 v)"

text \<open>A literal of several lines.\<close>

definition put_lines :: "string list \<Rightarrow> devs \<Rightarrow> devs" where
  "put_lines ls = mdl_console_puts (concat (map (\<lambda>l. ascii l @ CRLF) ls))"

record board_info =
  system_core_clock :: u32
  board_build_id :: bytes
  mdl_build_id :: bytes
  board_write_buffer_disabled :: bool
  fault_report :: "bytes list"

section \<open>Reports\<close>

fun slot_state_str :: "slot_state \<Rightarrow> string" where
  "slot_state_str SLOT_EMPTY = ''EMPTY''"
| "slot_state_str SLOT_LOADED = ''LOADED (ran, idle)''"
| "slot_state_str SLOT_RUNNING = ''RUNNING''"
| "slot_state_str SLOT_FAULTED = ''FAULTED''"

abbreviation slot0 :: "sup \<Rightarrow> module" where "slot0 s \<equiv> h_slots s ! 0"

definition cmd_help :: "sup \<Rightarrow> sup" where
  "cmd_help s = (let m = slot0 s in out
     ([put_lines
        [''commands:'',
         ''  help              this list'',
         ''  status            which MDL is loaded, and the last fault'',
         ''  clk               system_core_clock, as configured'',
         ''  arena             arena region addresses'',
         ''  pins              gpio pins, and who owns each one'',
         ''  adc               adc channels, and which pin each one is'',
         ''  spi               spi buses, their pins and current settings'',
         ''  buddy             arena allocator: free space and self-test'',
         ''  slots             which modules are resident, and what each owns'',
         ''  json              the whole live state on one line, for machines'',
         ''  i2c scan|read|write  talk to an I2C device from here, no MDL needed'',
         ''  evt <pin> [n]     fire a pin'' @ [CHR 0x27] @ ''s interrupt from software (no button needed)'',
         ''  led <i> <0|1>     drive whitelisted output pin i (LEDs are active-low)'',
         ''  btn <i>           read whitelisted input pin i'',
         ''  mem <addr> [n]    dump n words (default 8) from addr'',
         ''  fault             fault record left by the previous run'',
         ''  ver               firmware build time + ABI version'',
         ''  persist           what is saved in flash, if anything'',
         ''  forget            erase the saved MDL'',
         ''  unload            unload the MDL, reclaim its resources'']]
      @ (if m_state m \<noteq> SLOT_EMPTY \<and> cstr (cmd_name m) \<noteq> []
         then [puts ''  '', name_out (cmd_name m), put_lines [''            <- from the loaded MDL'']] else [])
      @ [put_lines
          ['''',
           ''MDLs are pushed over this same port as binary frames by'',
           ''tools/watch.py -- typing here does not interfere with that.'']]) s)"

definition host_log_sink :: "bytes \<Rightarrow> (devs \<Rightarrow> devs) list" where
  "host_log_sink msg = [puts ''[mdl] '', mdl_console_puts msg, crlf]"

definition cmd_fault :: "board_info \<Rightarrow> sup \<Rightarrow> sup" where
  "cmd_fault fw = out (map mdl_console_puts (fault_report fw))"

text \<open>The defaults for a build with no board layer.\<close>

definition no_board :: board_info where
  "no_board = \<lparr>system_core_clock = 48000000, board_build_id = ascii ''(no board layer)'', mdl_build_id = ascii ''unknown'',
     board_write_buffer_disabled = False, fault_report = [ascii ''no fault reporter in this build'' @ CRLF]\<rparr>"

text \<open>The saved images, in order, and the sum of their lengths.\<close>

fun persist_rows :: "board \<Rightarrow> store_op list \<Rightarrow> nat list \<Rightarrow> u32 \<Rightarrow> (devs \<Rightarrow> devs) list \<times> u32" where
  "persist_rows brd h [] tot = ([], tot)"
| "persist_rows brd h (k # ks) tot =
     (case persist_entry brd h k of None \<Rightarrow> persist_rows brd h ks tot
      | Some (img, len) \<Rightarrow> (case persist_rows brd h ks (tot + of_nat len) of (ps, t) \<Rightarrow>
          ([puts ''  '', num (of_nat k), puts '': '', num (of_nat len), puts '' bytes at '', hex32 (of_nat img), crlf] @ ps, t)))"

definition cmd_persist :: "board \<Rightarrow> sup \<Rightarrow> sup" where
  "cmd_persist brd s = (let n = persist_count brd (u_store s) in
     if n = 0 then out [puts ''stored : nothing -- this board comes up empty'', crlf] s
     else case persist_rows brd (u_store s) [0 ..< n] 0 of (ps, tot) \<Rightarrow>
       out (ps @ [puts ''stored : '', num (of_nat n), puts '' image(s), '', num tot, puts '' bytes -- restored in order at boot'', crlf]) s)"

definition cmd_forget :: "board \<Rightarrow> sup \<Rightarrow> sup" where
  "cmd_forget brd s =
     out [puts (if persist_forget brd (u_store s) then ''store erased -- this board will come up empty'' else ''erase failed''), crlf]
       (s\<lparr>u_store := u_store s @ [Forgotten]\<rparr>)"

definition cmd_ver :: "board_info \<Rightarrow> sup \<Rightarrow> sup" where
  "cmd_ver fw = out [puts ''build  : '', mdl_console_puts (board_build_id fw), crlf, puts ''abi    : v'', num (ucast ABI_VERSION),
     puts ''   (an MDL packed for a different ABI is refused)'', crlf, puts ''wbuf   : '',
     puts (if board_write_buffer_disabled fw then ''DISABLED (bring-up; every store is slower -- do not benchmark)''
           else ''enabled (normal speed)''), crlf]"

definition status_events :: "sup \<Rightarrow> (devs \<Rightarrow> devs) list" where
  "status_events s = (if m_state (slot0 s) \<noteq> SLOT_EMPTY \<and> evt_entry (slot0 s) \<noteq> 0
     then case mdl_events_get_stats 0 (h_ev s) of (deliv, lst, coal, decl, peak) \<Rightarrow>
       [crlf, puts ''events : '', num deliv, puts '' delivered, '', num coal, puts '' merged, '', num lst, puts '' LOST'']
       @ (if decl \<noteq> 0 then [crlf, puts ''         declared '', num (ucast decl), puts ''/s, peak seen '', num peak, puts ''/s'']
             @ (if ucast decl < peak then [puts ''  <- OVER DECLARED RATE''] else []) else [])
     else [])"

definition status_fault :: "fault_info \<Rightarrow> (devs \<Rightarrow> devs) list" where
  "status_fault f = (if \<not> f_occurred f then [puts ''none on record'']
     else [puts ''pc='', hex32 (f_pc f), puts '' cfsr='', hex32 (f_cfsr f), puts '' mmfar='', hex32 (f_mmfar f), crlf,
           puts ''         module text offset: '']
       @ (if f_text_offset f = 0xFFFFFFFF then [puts ''n/a (fault was outside module text)'']
          else [hex32 (f_text_offset f), puts (''  <- addr2line this into the module'' @ [CHR 0x27] @ ''s own .so'')]))"

definition cmd_status :: "sup \<Rightarrow> sup" where
  "cmd_status s = (let m = slot0 s in out
     ([puts ''slot   : '', puts (slot_state_str (m_state m))]
      @ (if m_state m \<noteq> SLOT_EMPTY \<and> cstr (m_name m) \<noteq> [] then [puts ''   '', name_out (m_name m)] else [])
      @ [crlf, puts ''entry  : '', hex32 (of_nat (m_entry m))] @ status_events s
      @ [crlf, puts ''fault  : ''] @ status_fault (u_fault s) @ [crlf]) s)"

definition cmd_clk :: "board_info \<Rightarrow> sup \<Rightarrow> sup" where
  "cmd_clk fw = (let c = system_core_clock fw in out
     ([puts ''system_core_clock = '', num c, puts '' Hz'', crlf]
      @ (if c = 288000000 then [puts ''  (PLL from 24MHz HEXT: 24/3*144/4 -- at spec maximum)'', crlf]
         else if c = 48000000 then [puts ''  (HICK reset default -- board_clock_init() did NOT run)'', crlf] else [])))"

definition cmd_arena :: "sup \<Rightarrow> sup" where
  "cmd_arena s = (let m = slot0 s; rng = (\<lambda>lo hi. [hex32 (of_nat lo), puts '' .. '', hex32 (of_nat hi)]) in
     if \<not> arena_held m
     then out [puts ''no module loaded -- the slot holds no arena blocks'', crlf, puts ''(`buddy` shows what the pool has free)'', crlf] s
     else out ([puts ''text : ''] @ rng (text_lo m) (text_hi m) @ [crlf, puts ''data : ''] @ rng (data_lo m) (data_hi m)
        @ [crlf, puts ''heap : ''] @ rng (hs_lo m) (hs_hi m) @ [crlf, puts ''guard: ''] @ rng (guard_lo m) (guard_hi m)
        @ [puts ''  (no access, any privilege)'', crlf]) s)"

definition slot_row :: "nat \<Rightarrow> module \<Rightarrow> (devs \<Rightarrow> devs) list" where
  "slot_row i m = [num (of_nat i), puts '': ''] @
     (if m_state m = SLOT_EMPTY then [puts ''(empty)'', crlf]
      else [if cstr (m_name m) \<noteq> [] then name_out (m_name m) else puts ''(unnamed)'']
        @ (if cstr (cmd_name m) \<noteq> [] then [puts ''  cmd '', name_out (cmd_name m)] else [])
        @ [puts ''  text '', hex32 (of_nat (text_lo m)), puts ''  claims '', num (of_nat (res_count m)),
           puts (if m_state m = SLOT_RUNNING then ''  RUNNING'' else ''  loaded''), crlf])"

definition cmd_slots :: "sup \<Rightarrow> sup" where
  "cmd_slots s = out (concat (map (\<lambda>i. slot_row i (h_slots s ! i)) [0 ..< MAX_SLOTS])
     @ [num (of_nat (length (filter (\<lambda>i. m_state (h_slots s ! i) \<noteq> SLOT_EMPTY) [0 ..< MAX_SLOTS]))), puts '' of '', num (of_nat MAX_SLOTS),
        puts '' slots in use'', crlf]) s"

text \<open>The statistics do not return on a broken free list: \<open>None\<close>.\<close>

definition cmd_buddy :: "sup \<Rightarrow> sup option" where
  "cmd_buddy s = do {
     (fails, detail, (b, mm)) \<leftarrow> mdl_buddy_selftest 96 (u_buddy s, h_mem s);
     let s1 = s\<lparr>h_mem := mm, u_buddy := b\<rparr>;
     (tot, big) \<leftarrow> mdl_buddy_stats (b, mm);
     Some (out ([puts ''arena: '', num (of_nat (tot div 1024)), puts ''K free, largest block '', num (of_nat (big div 1024)), puts ''K'', crlf,
         puts (if fails = 0 then ''selftest OK: '' else ''selftest FAILED: ''), puts detail, crlf]
       @ (if fails \<noteq> 0 then [puts ''  (a failure here means the allocator is wrong on THIS target, whatever it does elsewhere)'', crlf] else [])) s1)
   }"

definition spi_row :: "u8 \<times> u32 \<times> u8 \<Rightarrow> (devs \<Rightarrow> devs) list" where
  "spi_row r = (case r of (inst, hz, mode) \<Rightarrow>
     [puts ''  MDL_RES_SPI('', num (ucast inst), puts '')  PB3 SCK / PB4 MISO / PB5 MOSI   mode '', num (ucast mode), puts ''  '', num hz,
      puts '' Hz'', crlf])"

text \<open>The rows a \<open>describe\<close> function gives, up to the first index it does not know.\<close>

definition rows :: "(int \<Rightarrow> 'r option) \<Rightarrow> nat \<Rightarrow> 'r list" where
  "rows f n = map (\<lambda>k. the (f (int k))) (takeWhile (\<lambda>k. f (int k) \<noteq> None) [0 ..< n])"

definition cmd_spi :: "sup \<Rightarrow> sup" where
  "cmd_spi s = (let d = h_devs s in
     if host_spi_describe 0 d = None then out [puts ''no SPI buses in this build'', crlf] s
     else out (concat (map spi_row (rows (\<lambda>k. host_spi_describe k d) (length (d_spi d))))
       @ [puts (''chip select is not the driver'' @ [CHR 0x27] @ ''s -- declare a GPIO and drive it''), crlf,
          puts ''onboard W25Q32 is on this bus (CS = PE3, whitelist pin 5) -- the spidemo MDL reads its JEDEC id'', crlf]) s)"

text \<open>Every row of the board's table has a pin.\<close>

definition adc_row_out :: "u8 \<times> string \<times> nat option \<times> bool \<Rightarrow> (devs \<Rightarrow> devs) list" where
  "adc_row_out r = (case r of (ch, port, pin, confirmed) \<Rightarrow>
     [puts ''  MDL_RES_ADC('', num (ucast ch), puts '')  ->  P'', puts port, num (case pin of None \<Rightarrow> 0 | Some p \<Rightarrow> of_nat p)]
     @ (if \<not> confirmed then [puts ''   [pin mapping from the datasheet, not an example]''] else []) @ [crlf])"

definition cmd_adc :: "sup \<Rightarrow> sup" where
  "cmd_adc s = (let d = h_devs s in
     if host_adc_describe 0 d = None then out [puts ''no ADC channels in this build'', crlf] s
     else out ([puts ''ADC1 channels this board offers:'', crlf] @ concat (map adc_row_out (rows (\<lambda>k. host_adc_describe k d) (length (d_adc d))))
       @ [puts ''declare one with MDL_MODULE_RESOURCES(MDL_RES_ADC(n)), then host->adc_read(n)'', crlf]) s)"

definition pin_holder :: "nat \<Rightarrow> slots \<Rightarrow> module option" where
  "pin_holder i ms = find (\<lambda>m. m_state m \<noteq> SLOT_EMPTY \<and> claim_bit (gpio_claimed m) i) ms"

definition pin_row :: "slots \<Rightarrow> nat \<Rightarrow> (devs \<Rightarrow> devs) list" where
  "pin_row ms i = (case host_gpio_name (int i) of None \<Rightarrow> []
     | Some name \<Rightarrow> [puts ''  '', num (of_nat i), puts ''  '', puts name]
        @ (case pin_holder i ms of
             Some m \<Rightarrow> [puts ''  ['', if cstr (m_name m) \<noteq> [] then name_out (m_name m) else puts ''a module'']
               @ (if host_gpio_host_owner (int i) \<noteq> None then [puts '', host yielded''] else []) @ [puts '']'']
           | None \<Rightarrow> (case host_gpio_host_owner (int i) of
               Some owner \<Rightarrow> [puts ''  ['', puts owner, puts '']'']
             | None \<Rightarrow> [puts ''  [free]'']))
        @ [crlf])"

definition cmd_pins :: "sup \<Rightarrow> sup" where
  "cmd_pins s = out (concat (map (pin_row (h_slots s)) (takeWhile (\<lambda>i. host_gpio_name (int i) \<noteq> None) [0 ..< Suc GPIO_WHITELIST_COUNT]))) s"

section \<open>Commands with arguments\<close>

definition host_gpio_trigger_exint :: "int \<Rightarrow> sup \<Rightarrow> bool \<times> sup" where
  "host_gpio_trigger_exint pin s = (case host_gpio_exti_info pin of None \<Rightarrow> (False, s)
     | Some line \<Rightarrow> (True, s\<lparr>u_swtrg := u_swtrg s @ [line]\<rparr>))"

fun fire_pin :: "nat \<Rightarrow> int \<Rightarrow> sup \<Rightarrow> bool \<times> sup" where
  "fire_pin 0 pin s = (True, s)"
| "fire_pin (Suc n) pin s = (case host_gpio_trigger_exint pin s of (ok, s1) \<Rightarrow> if \<not> ok then (False, s1) else fire_pin n pin s1)"

definition cmd_evt :: "bytes list \<Rightarrow> sup \<Rightarrow> sup" where
  "cmd_evt argv s =
     (if length argv < 2 then out [puts ''usage: evt <whitelist pin> [count]'', crlf] s
      else case parse_u32 (argv ! 1) of None \<Rightarrow> out [puts ''pin must be a number'', crlf] s
      | Some pinv \<Rightarrow>
          let nv = (if 3 \<le> length argv then case parse_u32 (argv ! 2) of None \<Rightarrow> 1 | Some v \<Rightarrow> v else 1);
              pin = sint pinv;
              n = (if nv < 1 then 1 else if 1000 < nv then 1000 else unat nv)
          in case fire_pin n pin s of (ok, s1) \<Rightarrow>
            if \<not> ok then out [puts ''that pin has no external interrupt on this board'', crlf] s1
            else out [puts ''fired '', num (of_nat n), puts '' interrupt(s) on pin '', num (of_int pin), crlf] s1)"

definition shell_i2c_err :: "int \<Rightarrow> sup \<Rightarrow> sup" where
  "shell_i2c_err r = out
     [puts (if r = -4 then ''that bus belongs to a loaded module -- unload it first''
        else if r = -2 then ''no answer (wrong address? not powered? no pull-ups?)''
        else if r = -3 then ''the transfer started and failed (NACK or bus error)''
        else ''refused (no such bus on this board?)''), crlf]"

definition i2c_shell :: "vendor \<Rightarrow> int \<Rightarrow> int \<Rightarrow> bytes \<Rightarrow> nat \<Rightarrow> sup \<Rightarrow> (int \<times> bytes) \<times> sup" where
  "i2c_shell v bus a tx rxlen s = (case host_i2c_shell v bus a tx rxlen (h_slots s) (h_devs s) of (r, d) \<Rightarrow> (r, s\<lparr>h_devs := d\<rparr>))"

text \<open>The scan: \<open>Inl\<close> the code it gave up with, or how many devices answered.\<close>

fun scan_bus :: "vendor \<Rightarrow> int \<Rightarrow> nat list \<Rightarrow> u32 \<Rightarrow> sup \<Rightarrow> (int + u32) \<times> sup" where
  "scan_bus v bus [] found s = (Inr found, s)"
| "scan_bus v bus (a # as) found s =
     (case i2c_shell v bus (int a) [] 1 s of ((r, _), s1) \<Rightarrow>
        if r = -4 \<or> r = -1 then (Inl r, s1)
        else if r = 0 then scan_bus v bus as (found + 1) (out [puts ''  device at 0x'', hex8 (of_nat a), crlf] s1)
        else scan_bus v bus as found s1)"

abbreviation I2C_BUF :: nat where "I2C_BUF \<equiv> 16"

text \<open>The bytes of a write: words that parse, as many as the buffer holds.\<close>

fun write_args :: "nat \<Rightarrow> bytes list \<Rightarrow> bytes" where
  "write_args 0 ws = []"
| "write_args (Suc n) [] = []"
| "write_args (Suc n) (w # ws) = (case parse_u32 w of None \<Rightarrow> [] | Some v \<Rightarrow> ucast v # write_args n ws)"

definition cmd_i2c_read :: "vendor \<Rightarrow> int \<Rightarrow> int \<Rightarrow> bytes list \<Rightarrow> sup \<Rightarrow> sup" where
  "cmd_i2c_read v bus a argv s =
     (let n1 = (if 5 \<le> length argv then case parse_u32 (argv ! 4) of None \<Rightarrow> 1 | Some n \<Rightarrow> n else 1);
          n = (if n1 = 0 \<or> of_nat I2C_BUF < n1 then I2C_BUF else unat n1)
      in case i2c_shell v bus a [] n s of ((r, bs), s1) \<Rightarrow>
        if r \<noteq> 0 then shell_i2c_err r s1
        else out (concat (map (\<lambda>b. [hex8 b, puts '' '']) bs) @ [crlf]) s1)"

definition cmd_i2c_write :: "vendor \<Rightarrow> int \<Rightarrow> int \<Rightarrow> bytes list \<Rightarrow> sup \<Rightarrow> sup" where
  "cmd_i2c_write v bus a argv s =
     (let bs = write_args I2C_BUF (drop 4 argv) in
      if bs = [] then out [puts ''nothing to write'', crlf] s
      else case i2c_shell v bus a bs 0 s of ((r, _), s1) \<Rightarrow>
        if r \<noteq> 0 then shell_i2c_err r s1
        else out [num (of_nat (length bs)), puts '' byte(s) written'', crlf] s1)"

definition cmd_i2c :: "vendor \<Rightarrow> bytes list \<Rightarrow> sup \<Rightarrow> sup" where
  "cmd_i2c v argv s =
     (if length argv < 2 then
        out [put_lines [''usage: i2c scan <bus>'', ''       i2c read <bus> <addr7> <n>'', ''       i2c write <bus> <addr7> <byte> [byte...]'']] s
      else case (if length argv < 3 then None else parse_u32 (argv ! 2)) of
        None \<Rightarrow> out [puts ''which bus? try `i2c scan 1`'', crlf] s
      | Some bus \<Rightarrow>
          if argv ! 1 = ascii ''scan'' then
            (case scan_bus v (sint bus) [0x08 ..< 0x78] 0 s of
               (Inl r, s1) \<Rightarrow> shell_i2c_err r s1
             | (Inr found, s1) \<Rightarrow> out [num found, puts '' device(s)'', crlf] s1)
          else case (if length argv < 4 then None else parse_u32 (argv ! 3)) of
            None \<Rightarrow> out [puts ''address must be 0..0x7F -- the 7-bit form, as printed on a datasheet'', crlf] s
          | Some a \<Rightarrow>
              if 0x7F < a then out [puts ''address must be 0..0x7F -- the 7-bit form, as printed on a datasheet'', crlf] s
              else if argv ! 1 = ascii ''read'' then cmd_i2c_read v (sint bus) (sint a) argv s
              else if argv ! 1 = ascii ''write'' then cmd_i2c_write v (sint bus) (sint a) argv s
              else out [puts ''i2c what? scan / read / write'', crlf] s)"

definition cmd_led :: "bytes list \<Rightarrow> sup \<Rightarrow> sup" where
  "cmd_led argv s =
     (case (if length argv < 3 then None else do { i \<leftarrow> parse_u32 (argv ! 1); l \<leftarrow> parse_u32 (argv ! 2); Some (i, l) }) of
        None \<Rightarrow> out [puts ''usage: led <index> <0|1>'', crlf] s
      | Some (i, l) \<Rightarrow> (case host_gpio_direct_set (sint i) (sint l) (u_gpio s) of (r, g) \<Rightarrow>
          if r \<noteq> 0 then out [puts ''not a whitelisted pin (see `pins`)'', crlf] (s\<lparr>u_gpio := g\<rparr>)
          else out [puts ''ok'', crlf] (s\<lparr>u_gpio := g\<rparr>)))"

definition cmd_btn :: "bytes list \<Rightarrow> sup \<Rightarrow> sup" where
  "cmd_btn argv s =
     (case (if length argv < 2 then None else parse_u32 (argv ! 1)) of
        None \<Rightarrow> out [puts ''usage: btn <index>'', crlf] s
      | Some i \<Rightarrow> (let v = host_gpio_direct_get (sint i) (u_gpio s) in
          if v < 0 then out [puts ''not a whitelisted pin (see `pins`)'', crlf] s
          else out [num (of_int v), puts (if v = 0 then ''  (pressed)'' else ''  (idle)''), crlf] s))"

text \<open>One word of the dump, with the address before every fourth.\<close>

definition mem_word :: "mem \<Rightarrow> u32 \<Rightarrow> nat \<Rightarrow> (devs \<Rightarrow> devs) list" where
  "mem_word mm a i = (let p = a + of_nat i * 4 in
     (if i mod 4 = 0 then (if i \<noteq> 0 then [crlf] else []) @ [hex32 p, puts '':''] else [])
     @ [puts '' '', hex32 (ld32 mm (unat p))])"

definition cmd_mem :: "bytes list \<Rightarrow> sup \<Rightarrow> sup" where
  "cmd_mem argv s =
     (case (if length argv < 2 then None
            else do { a \<leftarrow> parse_u32 (argv ! 1); n \<leftarrow> (if 3 \<le> length argv then parse_u32 (argv ! 2) else Some 8); Some (a, n) }) of
        None \<Rightarrow> out [puts ''usage: mem <addr> [words]'', crlf] s
      | Some (a, n) \<Rightarrow> (let k = (if n = 0 \<or> 64 < n then 8 else unat n) in
          out (concat (map (mem_word (h_mem s) (a AND NOT 3)) [0 ..< k]) @ [crlf]) s))"

section \<open>The machine-readable state\<close>

fun slot_state_name :: "slot_state \<Rightarrow> string" where
  "slot_state_name SLOT_EMPTY = ''empty''"
| "slot_state_name SLOT_LOADED = ''loaded''"
| "slot_state_name SLOT_RUNNING = ''running''"
| "slot_state_name SLOT_FAULTED = ''faulted''"

definition js :: "bytes \<Rightarrow> devs \<Rightarrow> devs" where
  "js bs = mdl_console_puts (json_str bs)"

definition json_slot :: "events \<Rightarrow> nat \<Rightarrow> module \<Rightarrow> (devs \<Rightarrow> devs) list" where
  "json_slot ev i m =
     (if i \<noteq> 0 then [puts '','' ] else []) @ [puts ''{\"i\":'', num (of_nat i), puts '',\"state\":'', js (ascii (slot_state_name (m_state m)))]
     @ (if m_state m \<noteq> SLOT_EMPTY then
          (case mdl_events_get_stats (int i) ev of (deliv, lst, coal, decl, peak) \<Rightarrow>
            [puts '',\"name\":'', js (m_name m), puts '',\"cmd\":'', js (cmd_name m), puts '',\"text\":'', num (of_nat (text_lo m)),
             puts '',\"claims\":'', num (of_nat (res_count m)), puts '',\"events\":{\"delivered\":'', num deliv, puts '',\"merged\":'', num coal,
             puts '',\"lost\":'', num lst, puts '',\"declared_hz\":'', num (ucast decl), puts '',\"peak_hz\":'', num peak, puts ''}''])
        else [])
     @ [puts ''}'']"

definition json_fault :: "fault_info \<Rightarrow> (devs \<Rightarrow> devs) list" where
  "json_fault f = (if f_occurred f
     then [puts ''{\"pc\":'', num (f_pc f), puts '',\"cfsr\":'', num (f_cfsr f), puts '',\"mmfar\":'', num (f_mmfar f), puts ''}'']
     else [puts ''null''])"

definition cmd_json :: "board \<Rightarrow> board_info \<Rightarrow> sup \<Rightarrow> sup option" where
  "cmd_json brd fw s = do {
     (afree, alargest) \<leftarrow> mdl_buddy_stats (u_buddy s, h_mem s);
     Some (out ([puts ''{\"abi\":'', num (ucast ABI_VERSION), puts '',\"build\":'', js (mdl_build_id fw),
         puts '',\"max_slots\":'', num (of_nat MAX_SLOTS), puts '',\"slots\":['']
       @ concat (map (\<lambda>i. json_slot (h_ev s) i (h_slots s ! i)) [0 ..< MAX_SLOTS])
       @ [puts '']'', puts '',\"arena\":{\"free\":'', num (of_nat afree), puts '',\"largest\":'', num (of_nat alargest), puts ''}'',
          puts '',\"stored\":'', num (of_nat (persist_count brd (u_store s))), puts '',\"fault\":'']
       @ json_fault (u_fault s) @ [puts ''}'', crlf]) s)
   }"

section \<open>Dispatch\<close>

abbreviation prompt :: "devs \<Rightarrow> devs" where "prompt \<equiv> puts ''mdl> ''"

definition unknown_text :: "bytes \<Rightarrow> string \<Rightarrow> (devs \<Rightarrow> devs) list" where
  "unknown_text word hint = [puts ''unknown command: '', mdl_console_puts word, puts hint, crlf]"

definition module_command :: "(nat \<Rightarrow> sup \<Rightarrow> sup) \<Rightarrow> bytes list \<Rightarrow> sup \<Rightarrow> sup option" where
  "module_command rest argv s = do {
     (r, s1) \<leftarrow> mdl_supervisor_run_module_command rest argv s;
     Some (out (case r of
         MDL_CMD_OK ret \<Rightarrow> [puts ''MDL returned '', num (of_int ret), crlf]
       | MDL_CMD_TIMEOUT \<Rightarrow> [puts ''MDL did not finish in time -- unloaded'', crlf]
       | MDL_CMD_FAULTED \<Rightarrow> [puts ''MDL faulted -- unloaded (see `status`)'', crlf]
       | MDL_CMD_START_FAILED \<Rightarrow> [puts ''could not start it (arguments too long?)'', crlf]
       | MDL_CMD_NAME_MISMATCH \<Rightarrow> unknown_text (argv ! 0) ''  (try `help`, or `slots` for module commands)''
       | MDL_CMD_NO_MODULE \<Rightarrow> unknown_text (argv ! 0) ''  (try `help`)'') s1)
   }"

definition run_command :: "board \<Rightarrow> board_info \<Rightarrow> (nat \<Rightarrow> sup \<Rightarrow> sup) \<Rightarrow> bytes list \<Rightarrow> sup \<Rightarrow> sup option" where
  "run_command brd fw rest argv s = (let w = (\<lambda>t. argv ! 0 = ascii t) in
     if w ''help'' then Some (cmd_help s)
     else if w ''status'' then Some (cmd_status s)
     else if w ''clk'' then Some (cmd_clk fw s)
     else if w ''arena'' then Some (cmd_arena s)
     else if w ''pins'' then Some (cmd_pins s)
     else if w ''adc'' then Some (cmd_adc s)
     else if w ''spi'' then Some (cmd_spi s)
     else if w ''buddy'' then cmd_buddy s
     else if w ''slots'' then Some (cmd_slots s)
     else if w ''json'' then cmd_json brd fw s
     else if w ''i2c'' then Some (cmd_i2c (vend brd) argv s)
     else if w ''evt'' then Some (cmd_evt argv s)
     else if w ''led'' then Some (cmd_led argv s)
     else if w ''btn'' then Some (cmd_btn argv s)
     else if w ''mem'' then Some (cmd_mem argv s)
     else if w ''fault'' then Some (cmd_fault fw s)
     else if w ''ver'' then Some (cmd_ver fw s)
     else if w ''persist'' then Some (cmd_persist brd s)
     else if w ''forget'' then Some (cmd_forget brd s)
     else if w ''unload'' then map_option (out [puts ''unload requested'', crlf]) (mdl_supervisor_request_unload s)
     else module_command rest argv s)"

definition mdl_console_execute :: "board \<Rightarrow> board_info \<Rightarrow> (nat \<Rightarrow> sup \<Rightarrow> sup) \<Rightarrow> bytes \<Rightarrow> sup \<Rightarrow> sup option" where
  "mdl_console_execute brd fw rest line s = (let argv = split_args 8 line in
     if argv = [] then Some (out [prompt] s) else map_option (out [prompt]) (run_command brd fw rest argv s))"

definition mdl_console_greet :: "sup \<Rightarrow> sup" where
  "mdl_console_greet = out
     [put_lines ['''', ''=== mdl console (AT32F435VCT7 / UYUP-RPI-A-2.4) ==='', ''type `help`. MDL pushes share this same port.''], prompt]"

section \<open>The strings of the report\<close>

text \<open>A reader of JSON strings, without the escapes that start with a letter: a control character ends it with an error.\<close>

fun json_body :: "bytes \<Rightarrow> (bytes \<times> bytes) option" where
  "json_body [] = None"
| "json_body (c # cs) =
     (if c = 0x22 then Some ([], cs)
      else if c < 0x20 then None
      else if c = 0x5C then
        (case cs of e # es \<Rightarrow> if e = 0x22 \<or> e = 0x5C then map_option (apfst (Cons e)) (json_body es) else None | [] \<Rightarrow> None)
      else map_option (apfst (Cons c)) (json_body cs))"

definition json_read :: "bytes \<Rightarrow> (bytes \<times> bytes) option" where
  "json_read bs = (case bs of q # cs \<Rightarrow> if q = 0x22 then json_body cs else None | [] \<Rightarrow> None)"

lemma json_body_escaped:
  "json_body (concat (map (\<lambda>c. if c = 0x22 \<or> c = 0x5C then [0x5C, c] else [c]) cs) @ 0x22 # tail) =
     (if list_all (\<lambda>c. 0x20 \<le> c) cs then Some (cs, tail) else None)"
  by (induction cs) (auto simp: not_le)

text \<open>A name in the machine-readable report is read back as it is, whatever it contains, and the reader stops exactly at its
  closing quote, so that quotes and backslashes in a name cannot disturb the rest of the report; but a name with a control
  character is not a string a JSON reader accepts, because only the quote and the backslash are escaped.\<close>

theorem json_str_roundtrip:
  "json_read (json_str name @ tail) = (if list_all (\<lambda>c. 0x20 \<le> c) (cstr name) then Some (cstr name, tail) else None)"
  by (simp add: json_str_def json_read_def json_body_escaped)

end
