(* ===== verification/Console_Safety.thy ===== *)
theory Console_Safety
  imports Supervisor_Fixed Console_Cmds
begin

text \<open>
  What a typed line can do to the system: every command returns, and keeps the supervisor's invariant.
\<close>

section \<open>Every module that is in use owns its memory\<close>

definition loaded_ok :: "slots \<Rightarrow> bool" where
  "loaded_ok ms \<longleftrightarrow> (\<forall>m \<in> set ms. m_state m \<noteq> SLOT_EMPTY \<longrightarrow> arena_held m \<and> bounds_ok m)"

text \<open>With the arena at \<open>B\<close>.\<close>

definition sup_ok :: "addr \<Rightarrow> sup \<Rightarrow> bool" where
  "sup_ok B s \<longleftrightarrow> sup_inv s \<and> loaded_ok (h_slots s) \<and> s_base (u_buddy s) = B"

lemma sup_ok_inv: "sup_ok B s \<Longrightarrow> sup_inv s" "sup_ok B s \<Longrightarrow> s_base (u_buddy s) = B"
  by (simp_all add: sup_ok_def)

lemma sup_ok_prints: "prints s s' \<Longrightarrow> sup_ok B s' = sup_ok B s"
  by (simp add: sup_ok_def sup_inv_prints prints_fields)

lemma sup_ok_slot:
  assumes "sup_ok B s" "i < MAX_SLOTS" "m_state (h_slots s ! i) \<noteq> SLOT_EMPTY"
  shows "arena_held (h_slots s ! i)" "bounds_ok (h_slots s ! i)"
proof -
  have "h_slots s ! i \<in> set (h_slots s)" using assms(1,2) by (simp add: sup_ok_def sup_inv_def)
  then show "arena_held (h_slots s ! i)" "bounds_ok (h_slots s ! i)" using assms(1,3) by (auto simp: sup_ok_def loaded_ok_def)
qed

lemma sup_ok_slots:
  assumes "sup_inv s'" "sup_ok B s" "s_base (u_buddy s') = B"
    "\<And>j. j < MAX_SLOTS \<Longrightarrow> h_slots s' ! j = h_slots s ! j \<or> m_state (h_slots s' ! j) = SLOT_EMPTY
       \<or> (arena_held (h_slots s' ! j) \<and> bounds_ok (h_slots s' ! j))"
  shows "sup_ok B s'"
proof -
  have "m_state (h_slots s' ! j) \<noteq> SLOT_EMPTY \<longrightarrow> arena_held (h_slots s' ! j) \<and> bounds_ok (h_slots s' ! j)" if "j < MAX_SLOTS" for j
    using assms(4) [OF that] sup_ok_slot [OF assms(2) that] by auto
  then show ?thesis using assms(1,3) unfolding sup_ok_def loaded_ok_def sup_inv_def by (auto simp: in_set_conv_nth)
qed

text \<open>Reclaiming, in a round or alone, and pushing keep it.\<close>

lemma sup_ok_round:
  assumes "sup_ok B s" "sup_inv s'" "s_base (u_buddy s') = B" "\<forall>j < MAX_SLOTS. if P j then gone j (h_slots s ! j) s' else slot_kept j s s'"
  shows "sup_ok B s'"
proof (rule sup_ok_slots [OF assms(2,1,3)])
  fix j :: nat assume "j < MAX_SLOTS"
  then show "h_slots s' ! j = h_slots s ! j \<or> m_state (h_slots s' ! j) = SLOT_EMPTY \<or> (arena_held (h_slots s' ! j) \<and> bounds_ok (h_slots s' ! j))"
    using assms(4) by (cases "P j") (auto simp: gone_def slot_kept_def)
qed

lemma reclaim_ok:
  assumes "sup_ok B s" "i < MAX_SLOTS"
  shows "\<exists>s'. reclaim_slot i s = Some s' \<and> sup_ok B s'"
proof -
  obtain s' where r: "reclaim_slot i s = Some s'" "reclaim_outcome True i s s'"
    using reclaim_slot_outcome [OF sup_ok_inv(1) [OF assms(1)] assms(2)] by blast
  have "s_base (u_buddy s') = B" using reclaim_base(1) [OF sup_ok_inv(1) [OF assms(1)] assms(2) r(1)] sup_ok_inv(2) [OF assms(1)] by simp
  then have "sup_ok B s'"
    by (intro sup_ok_round [OF assms(1), where P = "\<lambda>j. j = i"]) (use r(2) in \<open>auto simp: reclaim_outcome_def\<close>)
  then show ?thesis using r(1) by blast
qed

lemma all_slots: "set [0 ..< MAX_SLOTS] \<subseteq> {..< MAX_SLOTS}"
  unfolding set_upt by auto

lemma check_slots_ok:
  assumes "sup_ok B s"
  shows "\<exists>s'. check_slots [0 ..< MAX_SLOTS] s = Some s' \<and> sup_ok B s'"
proof -
  obtain s' where r: "watchdog.round [0 ..< MAX_SLOTS] s = Some s'" "sup_inv s'"
    "\<forall>j < MAX_SLOTS. if overdue (tick s) (h_slots s ! j) then gone j (h_slots s ! j) s' else slot_kept j s s'"
    using watchdog.full_round [OF sup_ok_inv(1) [OF assms]] by blast
  have "keeps_rest (u_buddy s, h_mem s) (u_buddy s', h_mem s')"
    using check_slots_rest [OF sup_ok_inv(1) [OF assms] all_slots, of s'] r(1) unfolding check_slots_round by blast
  then have "pool_of (u_buddy s', h_mem s') = pool_of (u_buddy s, h_mem s)" by (simp only: keeps_rest_def)
  then have "s_base (u_buddy s') = B" using pool_base [of "(u_buddy s', h_mem s')" "(u_buddy s, h_mem s)"] sup_ok_inv(2) [OF assms] by simp
  then show ?thesis using sup_ok_round [OF assms r(2) _ r(3)] r(1) unfolding check_slots_round by blast
qed

lemma reclaim_used_ok:
  assumes "sup_ok B s"
  shows "\<exists>s'. reclaim_used [0 ..< MAX_SLOTS] s = Some s' \<and> sup_ok B s'"
proof -
  obtain s' where r: "unload.round [0 ..< MAX_SLOTS] s = Some s'" "sup_inv s'"
    "\<forall>j < MAX_SLOTS. if m_state (h_slots s ! j) \<noteq> SLOT_EMPTY then gone j (h_slots s ! j) s' else slot_kept j s s'"
    using unload.full_round [OF sup_ok_inv(1) [OF assms]] by blast
  have "s_base (u_buddy s') = B"
    using reclaim_used_base [OF sup_ok_inv(1) [OF assms] all_slots, of s'] r(1) sup_ok_inv(2) [OF assms] unfolding reclaim_used_round by simp
  then show ?thesis using sup_ok_round [OF assms r(2) _ r(3)] r(1) unfolding reclaim_used_round by blast
qed

lemma handle_load_ok:
  assumes "sup_ok B s" "board_answers brd" "tasks_start brd" "image_ok (u_buddy s, h_mem s) img len"
  shows "\<exists>s'. handle_load brd img len persist s = Some s' \<and> sup_ok B s'"
proof -
  obtain s' where r: "handle_load brd img len persist s = Some s'"
    "if load_refused img len s then prints s s' else \<exists>i < MAX_SLOTS. chosen_slot img len s = Some i \<and> replaced brd persist i img len s s'"
    using push_outcome [OF sup_ok_inv(1) [OF assms(1)] assms(2,4), of persist] by blast
  have "sup_ok B s'"
  proof (cases "load_refused img len s")
    case True
    then show ?thesis using r(2) assms(1) sup_ok_prints by auto
  next
    case False
    then obtain i where i: "i < MAX_SLOTS" "replaced brd persist i img len s s'" using r(2) by auto
    have inv: "sup_inv s'" using i(2) assms(3) by (auto simp: replaced_def Let_def split: if_splits)
    show ?thesis
    proof (rule sup_ok_slots [OF inv assms(1)])
      show "s_base (u_buddy s') = B" using handle_load_base [OF sup_ok_inv(1) [OF assms(1)] r(1)] sup_ok_inv(2) [OF assms(1)] by simp
      fix j :: nat assume "j < MAX_SLOTS"
      then show "h_slots s' ! j = h_slots s ! j \<or> m_state (h_slots s' ! j) = SLOT_EMPTY \<or> (arena_held (h_slots s' ! j) \<and> bounds_ok (h_slots s' ! j))"
        using i(2) by (cases "j = i") (auto simp: replaced_def slot_kept_def Let_def split: if_splits)
    qed
  qed
  then show ?thesis using r(1) by blast
qed

section \<open>Reports only print\<close>

lemma printing_more [simp]: "printing (hex32 v)" "printing (hex8 b)" "printing (put_lines ls)" "printing (js bs)"
  by (simp_all add: hex32_def hex8_def put_lines_def js_def)

text \<open>A list of calls that print.\<close>

lemma list_prints: "list_all printing ps \<Longrightarrow> prints s (out ps s)"
  by (rule prints_out) (simp add: list_all_iff)

lemma list_all_concat_map: "(\<And>x. list_all P (f x)) \<Longrightarrow> list_all P (concat (map f xs))"
  by (induction xs) simp_all

lemma rows_print [simp]:
  "list_all printing (status_events s)"
  "list_all printing (status_fault f)"
  "list_all printing (slot_row i m)"
  "list_all printing (spi_row r)"
  "list_all printing (adc_row_out q)"
  "list_all printing (pin_row ms k)"
  "list_all printing (mem_word mm a k)"
  "list_all printing (json_slot ev k m)"
  "list_all printing (json_fault f)"
  "list_all printing (unknown_text w h)"
proof -
  show "list_all printing (status_events s)"
    by (cases "mdl_events_get_stats 0 (h_ev s)") (simp add: status_events_def)
  show "list_all printing (status_fault f)"
    by (simp add: status_fault_def)
  show "list_all printing (slot_row i m)"
    by (simp add: slot_row_def)
  show "list_all printing (spi_row r)"
    by (cases r) (simp add: spi_row_def)
  show "list_all printing (adc_row_out q)"
    by (cases q) (simp add: adc_row_out_def)
  show "list_all printing (pin_row ms k)"
    by (cases "host_gpio_name (int k)"; cases "host_gpio_host_owner (int k)"; cases "pin_holder k ms") (simp_all add: pin_row_def)
  show "list_all printing (mem_word mm a k)"
    by (simp add: mem_word_def Let_def)
  show "list_all printing (json_slot ev k m)"
    by (cases "mdl_events_get_stats (int k) ev") (simp add: json_slot_def)
  show "list_all printing (json_fault f)"
    by (simp add: json_fault_def)
  show "list_all printing (unknown_text w h)"
    by (simp add: unknown_text_def)
qed

lemma persist_rows_print [simp]: "list_all printing (fst (persist_rows brd h ks t))"
proof (induction ks arbitrary: t)
  case (Cons k ks)
  then show ?case by (cases "persist_entry brd h k") (simp_all add: split_beta split: prod.split)
qed simp

text \<open>The reports print, and change nothing.\<close>

lemma reports_print:
  "prints s (cmd_help s)" "prints s (cmd_fault fw s)" "prints s (cmd_ver fw s)" "prints s (cmd_status s)" "prints s (cmd_clk fw s)"
  "prints s (cmd_slots s)" "prints s (cmd_pins s)" "prints s (shell_i2c_err r s)" "prints s (cmd_arena s)" "prints s (cmd_spi s)"
  "prints s (cmd_adc s)" "prints s (cmd_btn argv s)" "prints s (cmd_mem argv s)" "prints s (cmd_persist brd s)"
proof -
  show "prints s (cmd_help s)" "prints s (cmd_ver fw s)" "prints s (cmd_status s)" "prints s (cmd_clk fw s)" "prints s (shell_i2c_err r s)"
    by (simp_all add: cmd_help_def cmd_ver_def cmd_status_def cmd_clk_def shell_i2c_err_def list_prints Let_def)
  show "prints s (cmd_fault fw s)" unfolding cmd_fault_def by (rule list_prints) (simp add: list_all_iff)
  show "prints s (cmd_slots s)" "prints s (cmd_pins s)"
    by (simp_all add: cmd_slots_def cmd_pins_def list_prints list_all_concat_map del: upt_Suc)
  show "prints s (cmd_arena s)" "prints s (cmd_spi s)" "prints s (cmd_adc s)" "prints s (cmd_btn argv s)"
    by (simp_all add: cmd_arena_def cmd_spi_def cmd_adc_def cmd_btn_def list_prints list_all_concat_map Let_def split: option.split)
  show "prints s (cmd_mem argv s)"
    by (simp add: cmd_mem_def list_prints list_all_concat_map Let_def split: option.split prod.split del: upt_Suc)
  obtain ps u where r: "persist_rows brd (u_store s) [0 ..< persist_count brd (u_store s)] 0 = (ps, u)" by fastforce
  then have "list_all printing ps" using persist_rows_print [of brd "u_store s" "[0 ..< persist_count brd (u_store s)]" 0] by simp
  then show "prints s (cmd_persist brd s)" using r by (simp add: cmd_persist_def list_prints Let_def del: upt_Suc)
qed

section \<open>Commands that act\<close>

lemma sup_ok_devs: "sup_ok B s \<Longrightarrow> devs_inv d \<Longrightarrow> sup_ok B (s\<lparr>h_devs := d\<rparr>)"
  by (simp add: sup_ok_def sup_inv_def)

lemma sup_ok_rest [simp]:
  "sup_ok B (s\<lparr>u_gpio := g\<rparr>) = sup_ok B s" "sup_ok B (s\<lparr>u_swtrg := t\<rparr>) = sup_ok B s" "sup_ok B (s\<lparr>u_store := u\<rparr>) = sup_ok B s"
  "sup_ok B (s\<lparr>u_proto := p\<rparr>) = sup_ok B s" "sup_ok B (s\<lparr>u_line := l\<rparr>) = sup_ok B s"
  by (simp_all add: sup_ok_def sup_inv_def)

lemma sup_ok_out [simp]: "list_all printing ps \<Longrightarrow> sup_ok B (out ps s) = sup_ok B s"
  by (rule sup_ok_prints [OF list_prints])

lemma fire_pin_ok: "fire_pin n pin s = (ok, s1) \<Longrightarrow> sup_ok B s \<Longrightarrow> sup_ok B s1"
  by (induction n arbitrary: s) (auto simp: host_gpio_trigger_exint_def split: option.splits)

lemma evt_ok:
  assumes "sup_ok B s"
  shows "sup_ok B (cmd_evt argv s)"
proof (cases "length argv < 2 \<or> parse_u32 (argv ! 1) = None")
  case True
  then show ?thesis using assms by (auto simp: cmd_evt_def)
next
  case False
  then obtain pinv where p: "parse_u32 (argv ! 1) = Some pinv" by auto
  define nv where "nv = (if 3 \<le> length argv then case parse_u32 (argv ! 2) of None \<Rightarrow> 1 | Some v \<Rightarrow> v else 1)"
  obtain ok s1 where f: "fire_pin (if nv < 1 then 1 else if 1000 < nv then 1000 else unat nv) (sint pinv) s = (ok, s1)" by fastforce
  show ?thesis
    using False p f fire_pin_ok [OF f assms] unfolding cmd_evt_def Let_def nv_def [symmetric] by (simp del: fire_pin.simps One_nat_def)
qed

text \<open>A transfer from the console leaves every driver's table as it found it.\<close>

definition same_tables :: "devs \<Rightarrow> devs \<Rightarrow> bool" where
  "same_tables d d' \<longleftrightarrow> map ib_instance (d_i2c d') = map ib_instance (d_i2c d) \<and> d_uart d' = d_uart d \<and> d_adc d' = d_adc d
     \<and> s_adc_up d' = s_adc_up d \<and> d_spi d' = d_spi d"

lemma same_tables_trans: "same_tables d d1 \<Longrightarrow> same_tables d1 d2 \<Longrightarrow> same_tables d d2"
  by (simp add: same_tables_def)

lemma same_tables_inv: "same_tables d d' \<Longrightarrow> devs_inv d' = devs_inv d"
  by (simp add: same_tables_def devs_inv_def i2c_inv_def uart_inv_def adc_inv_def spi_inv_def)

lemma same_tables_steps [simp]:
  "same_tables d d" "same_tables d (hw ops d)" "same_tables d (snd (host_i2c_claim v n d))" "same_tables d (host_i2c_release n d)"
  "same_tables d (recover_unless ok b d)" "same_tables d (snd (i2c_master_transmit v b a bs d))"
  "same_tables d (snd (i2c_master_receive v b a len d))"
proof -
  have names: "map ib_instance (xs[i := (xs ! i)\<lparr>ib_open := o1\<rparr>]) = map ib_instance xs" for xs :: "i2c_bus list" and i o1
    by (cases "i < length xs") (simp_all add: map_update list_update_same_conv list_update_beyond)
  show h: "same_tables d d" "same_tables d (hw ops d)" for d ops by (simp_all add: same_tables_def hw_def)
  have so: "same_tables d (set_open i o1 (hw ops d))" for d i o1 ops
    by (simp add: same_tables_def names hw_def)
  show "same_tables d (snd (host_i2c_claim v n d))"
    using so by (auto simp: host_i2c_claim_def same_tables_def split: option.split)
  show "same_tables d (host_i2c_release n d)" using so h by (simp add: host_i2c_release_def Let_def split: option.split)
  show "same_tables d (recover_unless ok b d)" using h by (simp add: recover_unless_def bus_recover_def)
  show "same_tables d (snd (i2c_master_transmit v b a bs d))" "same_tables d (snd (i2c_master_receive v b a len d))"
    using h by (simp_all add: i2c_master_transmit_def i2c_master_receive_def Let_def split: prod.split)
qed

lemma shell_tables: "same_tables d (snd (host_i2c_shell v n a tx rxlen ms d))"
proof (cases "\<not> shell_bus_free n ms \<or> bus_lookup n d = None \<or> a < 0 \<or> 0x7F < a
    \<or> I2C_MAX_LEN < length tx \<or> I2C_MAX_LEN < rxlen \<or> (tx = [] \<and> rxlen = 0)")
  case True
  then show ?thesis by (auto simp: host_i2c_shell_def split: option.split)
next
  case False
  then obtain i where i: "bus_lookup n d = Some i" by (cases "bus_lookup n d") simp_all
  let ?open = "ib_open (d_i2c d ! i)"
  obtain claimed d1 where c: "(if ?open then (True, d) else host_i2c_claim v n d) = (claimed, d1)" by fastforce
  have "d1 = (if ?open then d else snd (host_i2c_claim v n d))" using c by (cases ?open) simp_all
  then have 1: "same_tables d d1" by simp
  let ?b = "d_i2c d1 ! i"
  obtain st1 d2 where t: "(if tx = [] then (I2C_OK, d1)
      else case i2c_master_transmit v ?b (addr8 a) tx d1 of (st, d2) \<Rightarrow> (st, recover_unless (st = I2C_OK) ?b d2)) = (st1, d2)" by fastforce
  have 2: "same_tables d d2"
  proof (cases "tx = []")
    case True
    then show ?thesis using t 1 by simp
  next
    case False
    obtain st d' where s: "i2c_master_transmit v ?b (addr8 a) tx d1 = (st, d')" by fastforce
    have "same_tables d1 d'" using same_tables_steps(6) [of d1 v ?b "addr8 a" tx] unfolding s snd_conv .
    moreover have "recover_unless (st = I2C_OK) ?b d' = d2" using t False s by auto
    moreover have "same_tables d (recover_unless (st = I2C_OK) ?b d')"
      by (rule same_tables_trans [OF same_tables_trans [OF 1 calculation(1)] same_tables_steps(5)])
    ultimately show ?thesis by simp
  qed
  obtain q where q: "(if st1 = I2C_OK \<and> rxlen \<noteq> 0
      then case i2c_master_receive v ?b (addr8 a) rxlen d2 of ((st, bs), d3) \<Rightarrow> ((st, bs), recover_unless (st = I2C_OK) ?b d3)
      else ((st1, []), d2)) = q" by blast
  obtain st2 bs d3 where q3: "q = ((st2, bs), d3)" by (metis surj_pair)
  note r = q [unfolded q3]
  have 3: "same_tables d d3"
  proof (cases "st1 = I2C_OK \<and> rxlen \<noteq> 0")
    case False
    then show ?thesis using r 2 by auto
  next
    case True
    obtain st bs' d' where s: "i2c_master_receive v ?b (addr8 a) rxlen d2 = ((st, bs'), d')" by (metis surj_pair)
    have "same_tables d2 d'" using same_tables_steps(7) [of d2 v ?b "addr8 a" rxlen] unfolding s snd_conv .
    moreover have "recover_unless (st = I2C_OK) ?b d' = d3" using r True s by auto
    moreover have "same_tables d (recover_unless (st = I2C_OK) ?b d')"
      by (rule same_tables_trans [OF same_tables_trans [OF 2 calculation(1)] same_tables_steps(5)])
    ultimately show ?thesis by simp
  qed
  have "same_tables d (host_i2c_release n d3)" using same_tables_trans [OF 3 same_tables_steps(4)] .
  moreover have h: "shell_bus_free n ms = True" "(a < 0 \<or> 0x7F < a) = False"
    "(I2C_MAX_LEN < length tx \<or> I2C_MAX_LEN < rxlen \<or> (tx = [] \<and> rxlen = 0)) = False" using False by blast+
  have "host_i2c_shell v n a tx rxlen ms d = (if \<not> claimed then ((-1, []), d1)
      else ((status_to_ret st2, bs), if ?open then d3 else host_i2c_release n d3))"
    unfolding host_i2c_shell_def by (simp only: h i option.case Let_def c t r prod.case not_True_eq_False if_False)
  ultimately show ?thesis using 1 3 by simp
qed

lemma i2c_shell_ok: "i2c_shell v bus a tx rxlen s = (r, s1) \<Longrightarrow> sup_ok B s \<Longrightarrow> sup_ok B s1"
  using shell_tables [of "h_devs s" v bus a tx rxlen "h_slots s"] same_tables_inv sup_ok_devs
  by (auto simp: i2c_shell_def sup_ok_def sup_inv_def split: prod.splits)

lemma scan_bus_ok: "scan_bus v bus as found s = (r, s1) \<Longrightarrow> sup_ok B s \<Longrightarrow> sup_ok B s1"
proof (induction "as" arbitrary: found s)
  case (Cons a "as")
  obtain q bs s2 where q: "i2c_shell v bus (int a) [] 1 s = ((q, bs), s2)" by (metis surj_pair)
  have "sup_ok B s2" by (rule i2c_shell_ok [OF q Cons.prems(2)])
  then show ?case using Cons.prems(1) Cons.IH q by (auto split: if_splits)
qed simp

lemma i2c_ok:
  assumes "sup_ok B s"
  shows "sup_ok B (cmd_i2c v argv s)"
proof -
  have e: "sup_ok B t \<Longrightarrow> sup_ok B (shell_i2c_err r t)" for t r using sup_ok_prints [OF reports_print(8)] by blast
  have rd: "sup_ok B (cmd_i2c_read v b a argv s)" for b a
    using assms e i2c_shell_ok list_all_concat_map [of printing "\<lambda>b. [hex8 b, puts '' '']"]
    by (auto simp: cmd_i2c_read_def Let_def split: prod.split)
  have wr: "sup_ok B (cmd_i2c_write v b a argv s)" for b a
    using assms e i2c_shell_ok by (auto simp: cmd_i2c_write_def Let_def split: prod.split)
  have sc: "sup_ok B (case scan_bus v b xs 0 s of (Inl r, s1) \<Rightarrow> shell_i2c_err r s1 | (Inr found, s1) \<Rightarrow> out [num found, puts '' device(s)'', crlf] s1)" for b xs
    using assms e scan_bus_ok by (auto split: prod.split sum.split)
  show ?thesis unfolding cmd_i2c_def using assms sc rd wr by (auto split: option.split simp del: upt_Suc upt_rec_numeral scan_bus.simps)
qed

section \<open>Commands of modules\<close>

text \<open>A write into the memory of one module does not disturb the arena.\<close>

lemma own_write_ok:
  assumes ok: "sup_ok B s" and i: "i < MAX_SLOTS" "m_state (h_slots s ! i) \<noteq> SLOT_EMPTY"
    and same: "\<And>a. \<forall>(lo, hi) \<in> set (regions_of (h_slots s ! i)). a < lo \<or> hi \<le> a \<Longrightarrow> mm a = h_mem s a"
  shows "sup_ok B (s\<lparr>h_mem := mm\<rparr>)"
proof -
  let ?m = "h_slots s ! i" and ?st = "(u_buddy s, h_mem s)"
  have inv: "arena_inv (h_slots s) ?st" and mem: "?m \<in> set (h_slots s)" using ok i(1) by (simp_all add: sup_ok_def sup_inv_def)
  have bo: "buddy_ok ?st" using inv by (simp add: arena_inv_def)
  have "mem_eq_outside (\<Union> (blk ` live_blocks ?st)) (h_mem s) mm"
    unfolding mem_eq_outside_def
  proof (intro allI impI)
    fix x assume x: "x \<notin> \<Union> (blk ` live_blocks ?st)"
    have "x < lo \<or> hi \<le> x" if r: "(lo, hi) \<in> set (regions_of ?m)" for lo hi
    proof -
      have "(lo, hi) \<in> live_regions ?st" by (rule arena_inv_live [OF inv mem r])
      then have "(lo, hi) \<in> region_of ` live_blocks ?st" by (simp only: live_regions_def)
      then obtain b where b: "b \<in> live_blocks ?st" "(lo, hi) = region_of b" by (rule imageE)
      have "blk b = {lo ..< hi}" using b(2) by (cases b) (simp add: region_of_def blk_def)
      then show ?thesis using x b(1) by force
    qed
    then show "mm x = h_mem s x" by (intro same) auto
  qed
  then have "buddy_ok (u_buddy s, mm)" by (rule client_write_inv(1) [OF bo])
  moreover have "live_regions (u_buddy s, mm) = live_regions ?st" by (simp add: live_regions_def live_blocks_def)
  ultimately have "arena_inv (h_slots s) (u_buddy s, mm)" using inv by (simp add: arena_inv_def)
  then show ?thesis using ok by (simp add: sup_ok_def sup_inv_def)
qed

text \<open>The host writes a module's arguments into that module's own memory.\<close>

lemma write_inside_ok:
  assumes ok: "sup_ok B s" and i: "i < MAX_SLOTS" "m_state (h_slots s ! i) \<noteq> SLOT_EMPTY"
    and same: "\<And>a. a < hs_lo (h_slots s ! i) \<or> hs_lo (h_slots s ! i) + ARGBLOCK_SIZE \<le> a \<Longrightarrow> mm a = h_mem s a"
  shows "sup_ok B (s\<lparr>h_mem := mm\<rparr>)"
proof (rule own_write_ok [OF ok i])
  let ?m = "h_slots s ! i"
  fix a assume "\<forall>(lo, hi) \<in> set (regions_of ?m). a < lo \<or> hi \<le> a"
  moreover have "(hs_lo ?m, hs_hi ?m) \<in> set (regions_of ?m)" using sup_ok_slot(1) [OF ok i] by (simp add: regions_of_def)
  ultimately have "a < hs_lo ?m \<or> hs_hi ?m \<le> a" by blast
  moreover have "hs_hi ?m = hs_lo ?m + HEAPSTACK_BYTES" using sup_ok_slot(2) [OF ok i] by (simp add: bounds_ok_def)
  ultimately show "mm a = h_mem s a" by (intro same) linarith
qed

lemma copied_args_inside:
  assumes "\<forall>a \<in> set argv. a \<noteq> []" "length argv \<le> CMD_MAX_ARGS" "b + ARGBLOCK_SIZE < 2 ^ 32"
    "copy_args b (b + ARGBLOCK_SIZE) 0 (b + CMD_MAX_ARGS * 4) argv mm = (r, mm')"
  shows "a < b \<or> b + ARGBLOCK_SIZE \<le> a \<Longrightarrow> mm' a = mm a"
proof (cases "arg_bytes argv \<le> 96")
  case True
  assume a: "a < b \<or> b + ARGBLOCK_SIZE \<le> a"
  then show ?thesis using copy_args_fit [of argv "b + 32" "b + 128" b 0 mm] assms True by auto
next
  case False
  assume a: "a < b \<or> b + ARGBLOCK_SIZE \<le> a"
  then show ?thesis using copy_args_refuse [of argv "b + 128" "b + 32" b 0 mm] assms False by auto
qed

lemma post_console_events:
  assumes "mdl_events_post_console (int i) now cyc ev = (ok, ev')"
  shows "s_pin_slot ev' = s_pin_slot ev" "length (s_evt ev') = length (s_evt ev)"
    "armed_lines (s_evt ev' ! j) = armed_lines (s_evt ev ! j)"
proof -
  have w: "s_pin_slot (wake k e) = s_pin_slot e" "s_evt (wake k e) = s_evt e" for k e by (simp_all add: wake_def)
  have q: "armed_lines (enqueue x e) = armed_lines e" for x e by (simp add: enqueue_def)
  show "s_pin_slot ev' = s_pin_slot ev" "length (s_evt ev') = length (s_evt ev)"
    using assms by (auto simp: mdl_events_post_console_def Let_def w split: if_splits prod.splits)
  show "armed_lines (s_evt ev' ! j) = armed_lines (s_evt ev ! j)"
    using assms
    by (cases "j = i"; cases "i < length (s_evt ev)")
      (auto simp: mdl_events_post_console_def try_enqueue_def Let_def w q list_update_beyond split: if_splits prod.splits)
qed

lemma events_inv_cong:
  assumes "events_inv ev" "s_pin_slot ev' = s_pin_slot ev" "length (s_evt ev') = length (s_evt ev)"
    "\<And>j. armed_lines (s_evt ev' ! j) = armed_lines (s_evt ev ! j)"
  shows "events_inv ev'"
  using assms(1) unfolding events_inv_def assms(2-4) .

lemma pending_ok: "sup_ok B s \<Longrightarrow> i < MAX_SLOTS \<Longrightarrow> sup_ok B (upd_module i (\<lambda>m. m\<lparr>cmd_pending := True\<rparr>) s)"
proof -
  assume ok: "sup_ok B s" and i: "i < MAX_SLOTS"
  let ?s = "upd_module i (\<lambda>m. m\<lparr>cmd_pending := True\<rparr>) s"
  have inv: "sup_inv ?s" by (rule sup_inv_upd [OF sup_ok_inv(1) [OF ok] i]) (simp_all add: claims_def regions_of_def)
  have len: "length (h_slots s) = 4" using ok by (simp add: sup_ok_def sup_inv_def)
  have m: "h_slots ?s ! j = (if j = i then (h_slots s ! i)\<lparr>cmd_pending := True\<rparr> else h_slots s ! j)" if "j < MAX_SLOTS" for j
    using that len by simp
  have bo: "bounds_ok (m\<lparr>cmd_pending := True\<rparr>) = bounds_ok m" for m by (simp add: bounds_ok_def)
  show ?thesis
  proof (rule sup_ok_slots [OF inv ok])
    show "s_base (u_buddy ?s) = B" using sup_ok_inv(2) [OF ok] by simp
    fix j :: nat assume j: "j < MAX_SLOTS"
    have "m_state (h_slots s ! i) = SLOT_EMPTY \<or> (arena_held (h_slots s ! i) \<and> bounds_ok (h_slots s ! i))"
      using sup_ok_slot [OF ok i] by blast
    then show "h_slots ?s ! j = h_slots s ! j \<or> m_state (h_slots ?s ! j) = SLOT_EMPTY \<or> (arena_held (h_slots ?s ! j) \<and> bounds_ok (h_slots ?s ! j))"
      unfolding m [OF j] by (cases "j = i") (simp_all add: bo)
  qed
qed

lemma post_command_ok:
  assumes ok: "sup_ok B s" and i: "i < MAX_SLOTS" and argv: "\<forall>a \<in> set argv. a \<noteq> []" "length argv \<le> CMD_MAX_ARGS"
    and run: "mdl_post_module_command i argv s = (r, s')"
  shows "sup_ok B s'"
proof (cases "cmd_entry (h_slots s ! i) = 0 \<or> m_state (h_slots s ! i) \<noteq> SLOT_RUNNING \<or> argv = []")
  case True
  then have "s' = s" using run by (auto simp: mdl_post_module_command_def Let_def split: if_splits)
  then show ?thesis using ok by simp
next
  case False
  let ?m = "h_slots s ! i"
  have ne: "m_state ?m \<noteq> SLOT_EMPTY" using False by simp
  have b: "hs_lo ?m + ARGBLOCK_SIZE < 2 ^ 32" using sup_ok_slot(2) [OF ok i ne] by (simp add: bounds_ok_def)
  obtain c mm where c: "copy_args (hs_lo ?m) (hs_lo ?m + ARGBLOCK_SIZE) 0 (hs_lo ?m + CMD_MAX_ARGS * 4) argv (h_mem s) = (c, mm)" by fastforce
  have s1: "sup_ok B (s\<lparr>h_mem := mm\<rparr>)"
    by (rule write_inside_ok [OF ok i ne]) (rule copied_args_inside [OF argv b c])
  show ?thesis
  proof (cases c)
    case False
    then show ?thesis using run c s1 \<open>\<not> (cmd_entry ?m = 0 \<or> _ \<or> _)\<close> argv(2) by (auto simp: mdl_post_module_command_def Let_def)
  next
    case True
    obtain q ev where e: "mdl_events_post_console (int i) (tick s) (cyccnt s) (h_ev s) = (q, ev)" by fastforce
    let ?s2 = "s\<lparr>h_mem := mm, s_cmd_argc := length argv, s_cmd_argv := hs_lo ?m, h_ev := ev\<rparr>"
    have "events_inv (h_ev s)" using ok by (simp add: sup_ok_def sup_inv_def)
    then have "events_inv ev" by (rule events_inv_cong) (rule post_console_events [OF e])+
    then have "sup_ok B ?s2" using s1 post_console_events(1) [OF e] by (simp add: sup_ok_def sup_inv_def armed_ok_def)
    then have "sup_ok B (upd_module i (\<lambda>m. m\<lparr>cmd_pending := True\<rparr>) ?s2)" by (rule pending_ok [OF _ i])
    then show ?thesis using run c e True False argv(2) by (simp add: mdl_post_module_command_def Let_def)
  qed
qed

text \<open>\<open>rest\<close>: what the rest of the system does while the supervisor waits.\<close>

lemma await_ok:
  assumes "sup_ok B s" "i < MAX_SLOTS" "\<And>k s. sup_ok B s \<Longrightarrow> sup_ok B (rest k s)"
  shows "\<exists>r s'. await_command rest i k n s = Some (r, s') \<and> sup_ok B s'"
  using assms(1)
proof (induction n arbitrary: k s)
  case 0
  then show ?case using reclaim_ok [OF _ assms(2)] by auto
next
  case (Suc n)
  have ok: "sup_ok B (rest k s)" by (rule assms(3) [OF Suc.prems])
  obtain s1 where r: "reclaim_slot i (rest k s) = Some s1" "sup_ok B s1" using reclaim_ok [OF ok assms(2)] by blast
  show ?case using ok r Suc.IH [OF ok, of "Suc k"] by (auto simp: Let_def)
qed

lemma run_module_command_ok:
  assumes ok: "sup_ok B s" and rest: "\<And>k s. sup_ok B s \<Longrightarrow> sup_ok B (rest k s)"
    and argv: "\<forall>a \<in> set argv. a \<noteq> []" "length argv \<le> CMD_MAX_ARGS"
  shows "\<exists>r s'. mdl_supervisor_run_module_command rest argv s = Some (r, s') \<and> sup_ok B s'"
proof (cases "argv = [] \<or> find_slot_by_command (argv ! 0) (h_slots s) = None")
  case True
  then show ?thesis using ok by (auto simp: mdl_supervisor_run_module_command_def)
next
  case False
  then obtain i where i: "find_slot_by_command (argv ! 0) (h_slots s) = Some i" by auto
  then have lt: "i < MAX_SLOTS" using ok find_idx_Some [of _ "h_slots s" i] by (auto simp: find_slot_by_command_def sup_ok_def sup_inv_def)
  obtain q s1 where p: "mdl_post_module_command i argv s = (q, s1)" by fastforce
  have ok1: "sup_ok B s1" by (rule post_command_ok [OF ok lt argv p])
  show ?thesis using False i p ok1 await_ok [OF ok1 lt rest]
    by (cases q) (simp_all add: mdl_supervisor_run_module_command_def del: await_command.simps)
qed

section \<open>The self-check of the allocator\<close>

text \<open>With nothing allocated, the self-check leaves the allocator as it was, memory included as far as it matters.\<close>

lemma selftest_keeps_empty:
  assumes ok: "buddy_ok (s, m)" and none: "live_blocks (s, m) = {}"
  shows "\<exists>m'. mdl_buddy_selftest cap (s, m) = Some (0, summary cap [], s, m') \<and> buddy_ok (s, m')"
proof -
  have p: "pool_ok (s_base s)" using ok by (auto simp: buddy_ok_def buddy_inv_def)
  obtain m' where r: "mdl_buddy_selftest cap (s, m) = Some (0, summary cap [], s, m')" "ld32 m' (s_base s) = 0"
    using selftest_run [of "(s, m)" cap] p by auto
  have e: "empty_pool (s_base s) (s, m)" using ok none by (simp add: empty_pool_def)
  have w: "ld32 m (s_base s) = 0" using empty_pool_word [OF e p] by simp
  obtain F where inv: "buddy_inv (s_base s) s m F {}" and fb: "free_blocks (s, m) = frees F" using ok by (rule buddy_okE)
  have "next_of m' x = next_of m x" if "x \<in> set (F j)" for x j
  proof -
    have "(j, x) \<in> frees F" using that by (simp add: frees_mem)
    then have "x = s_base s" using empty_pool_free_blocks [OF e p] fb by simp
    then show ?thesis using r(2) w by (simp add: next_of_def)
  qed
  then have "chain m' h (F j) = chain m h (F j)" for h j by (rule chain_frame)
  then have "buddy_inv (s_base s) s m' F {}" using inv by (simp add: buddy_inv_def buddy_rep_def)
  then show ?thesis using r(1) buddy_okI by blast
qed

lemma buddy_command_ok:
  assumes ok: "sup_ok B s" and none: "live_blocks (u_buddy s, h_mem s) = {}"
  shows "\<exists>s'. cmd_buddy s = Some s' \<and> sup_ok B s'"
proof -
  have bo: "buddy_ok (u_buddy s, h_mem s)" using ok by (simp add: sup_ok_def sup_inv_def arena_inv_def)
  obtain m' where r: "mdl_buddy_selftest 96 (u_buddy s, h_mem s) = Some (0, summary 96 [], u_buddy s, m')" "buddy_ok (u_buddy s, m')"
    using selftest_keeps_empty [OF bo none] by blast
  obtain a b where st: "mdl_buddy_stats (u_buddy s, m') = Some (a, b)" using stats_full [OF r(2)] by blast
  have "live_regions (u_buddy s, m') = live_regions (u_buddy s, h_mem s)" by (simp add: live_regions_def live_blocks_def)
  then have "sup_ok B (s\<lparr>h_mem := m'\<rparr>)" using ok r(2) by (simp add: sup_ok_def sup_inv_def arena_inv_def)
  then show ?thesis using r(1) st by (simp add: cmd_buddy_def)
qed

section \<open>Every line\<close>

lemma json_ok:
  assumes "sup_ok B s"
  shows "\<exists>s'. cmd_json brd fw s = Some s' \<and> prints s s'"
proof -
  have "buddy_ok (u_buddy s, h_mem s)" using assms by (simp add: sup_ok_def sup_inv_def arena_inv_def)
  then obtain a b where st: "mdl_buddy_stats (u_buddy s, h_mem s) = Some (a, b)" using stats_full by blast
  show ?thesis by (simp add: cmd_json_def st list_prints list_all_concat_map del: upt_Suc)
qed

lemma split_args_words_ok: "length (split_args n line) \<le> n" "a \<in> set (split_args n line) \<Longrightarrow> a \<noteq> []"
proof -
  show "length (split_args n line) \<le> n" by (induction n line rule: split_args.induct) (simp_all add: Let_def)
  show "a \<in> set (split_args n line) \<Longrightarrow> a \<noteq> []"
  proof (induction n line rule: split_args.induct)
    case (2 n line)
    let ?p = "dropWhile (\<lambda>c. c = 32) line"
    have "takeWhile (\<lambda>c. c \<noteq> 32) ?p \<noteq> []" if "?p \<noteq> []" using that hd_dropWhile [of "\<lambda>c. c = 32" line] by (cases ?p) auto
    then show ?case using 2 by (auto simp: Let_def split: if_splits)
  qed simp
qed

text \<open>The first word of a line.\<close>

definition typed :: "bytes \<Rightarrow> string \<Rightarrow> bool" where
  "typed line w \<longleftrightarrow> split_args 8 line \<noteq> [] \<and> split_args 8 line ! 0 = ascii w"

lemma execute_outcome:
  assumes ok: "sup_ok B s" and rest: "\<And>k s. sup_ok B s \<Longrightarrow> sup_ok B (rest k s)"
    and safe: "typed line ''buddy'' \<Longrightarrow> live_blocks (u_buddy s, h_mem s) = {}"
  shows "\<exists>s'. mdl_console_execute brd fw rest line s = Some s' \<and> sup_ok B s'"
proof (cases "split_args 8 line = []")
  case True
  then show ?thesis using ok by (simp add: mdl_console_execute_def)
next
  case False
  define argv where "argv = split_args 8 line"
  have words: "argv \<noteq> []" "\<forall>a \<in> set argv. a \<noteq> []" "length argv \<le> CMD_MAX_ARGS" using False split_args_words_ok by (auto simp: argv_def)
  have pr: "prints s t \<Longrightarrow> sup_ok B t" for t using ok sup_ok_prints by blast
  note report = reports_print [THEN pr]
  obtain s2 where unl: "reclaim_used [0 ..< MAX_SLOTS] s = Some s2" "sup_ok B s2" using reclaim_used_ok [OF ok] by blast
  obtain r s3 where cmd: "mdl_supervisor_run_module_command rest argv s = Some (r, s3)" "sup_ok B s3"
    using run_module_command_ok [OF ok _ words(2,3), of rest] rest by blast
  obtain s4 where j: "cmd_json brd fw s = Some s4" "sup_ok B s4" using json_ok [OF ok] pr by blast
  have led: "sup_ok B (cmd_led argv s)" using ok by (simp add: cmd_led_def split: option.split prod.split)
  have forget: "sup_ok B (cmd_forget brd s)" using ok by (simp add: cmd_forget_def)
  have mod: "\<exists>t. module_command rest argv s = Some t \<and> sup_ok B t"
    using cmd by (cases r) (simp_all add: module_command_def)
  have bud: "argv ! 0 = ascii ''buddy'' \<Longrightarrow> \<exists>t. cmd_buddy s = Some t \<and> sup_ok B t"
    using buddy_command_ok [OF ok safe] False by (simp add: typed_def argv_def)
  have unload: "\<exists>t. map_option (out [puts ''unload requested'', crlf]) (mdl_supervisor_request_unload s) = Some t \<and> sup_ok B t"
    using unl by (simp add: mdl_supervisor_request_unload_def del: upt_Suc reclaim_used.simps)
  have "\<exists>t. run_command brd fw rest argv s = Some t \<and> sup_ok B t"
    unfolding run_command_def Let_def
    using report i2c_ok [OF ok] evt_ok [OF ok] led forget mod bud unload j by simp
  then show ?thesis using False by (auto simp: mdl_console_execute_def argv_def [symmetric])
qed


end
