(* ===== verification/Host_Calls.thy ===== *)
theory Host_Calls
  imports Console_Safety Host_Heap
begin

text \<open>
  The table \<open>g_host_api\<close> of \<open>src/mdl/host/host_api.c\<close>: the calls a module has into the host, as one datatype and its
  dispatch to the functions of the other theories. What a call of one module can touch is a relation between the states
  before and after it; every entry of the table is shown to stay inside it.
\<close>

section \<open>The table\<close>

text \<open>The entries in the order of \<open>host_api_t\<close>, with their arguments. A call of \<open>delay_ms\<close> is its two gated halves, because other
  tasks run between them; the second carries the pointer the first one left on the task's stack.\<close>

datatype host_call =
    C_log addr
  | C_gpio_set int int
  | C_gpio_get int
  | C_delay_park u32
  | C_delay_wake "nat option"
  | C_alloc u32
  | C_free addr
  | C_uptime_ms
  | C_atoi addr
  | C_watchdog_feed
  | C_cycles
  | C_i2c_write int int addr u32
  | C_i2c_read int int addr u32
  | C_i2c_write_read int int addr u32 addr u32
  | C_uart_config int u32
  | C_uart_write int addr u32
  | C_uart_read int addr u32
  | C_uart_loopback int bool
  | C_adc_read int
  | C_adc_read_mv int
  | C_spi_config int int u32
  | C_spi_transfer int addr addr u32

text \<open>What comes back; \<open>Ret_undefined\<close> is a signed overflow in \<open>atoi\<close>.\<close>

datatype host_ret = Ret_done | Ret_int int | Ret_word u32 | Ret_ptr addr | Ret_undefined

definition with_int :: "int \<times> dhost \<Rightarrow> (host_ret \<times> dhost) option" where
  "with_int r = (case r of (n, s) \<Rightarrow> Some (Ret_int n, s))"

definition log_text :: "bytes + string \<Rightarrow> bytes" where
  "log_text r = (case r of Inl bs \<Rightarrow> bs | Inr t \<Rightarrow> ascii t)"

text \<open>A result with the pins as they were. \<open>None\<close> is a call that does not return.\<close>

definition with_pins :: "gpio_hw \<Rightarrow> (host_ret \<times> dhost) option \<Rightarrow> (host_ret \<times> dhost \<times> gpio_hw) option" where
  "with_pins g r = map_option (\<lambda>(x, s). (x, s, g)) r"

fun g_host_api :: "vendor \<Rightarrow> host_call \<Rightarrow> dhost \<times> gpio_hw \<Rightarrow> (host_ret \<times> dhost \<times> gpio_hw) option" where
  "g_host_api v (C_log p) (s, g) = with_pins g (case host_log p s of (r, s1) \<Rightarrow> Some (Ret_done, s1\<lparr>h_devs := say (host_log_sink (log_text r)) (h_devs s1)\<rparr>))"
| "g_host_api v (C_gpio_set pin level) (s, g) = (case host_gpio_set (me s) (h_slots s) pin level g of (r, g1) \<Rightarrow> Some (Ret_int r, s, g1))"
| "g_host_api v (C_gpio_get pin) (s, g) = Some (Ret_int (host_gpio_get (me s) (h_slots s) pin g), s, g)"
| "g_host_api v (C_delay_park ms) (s, g) = with_pins g (Some (Ret_done, snd (delay_park ms s)))"
| "g_host_api v (C_delay_wake po) (s, g) = with_pins g (Some (Ret_done, snd (delay_wake po s)))"
| "g_host_api v (C_alloc n) (s, g) = with_pins g (case host_alloc n s of None \<Rightarrow> None | Some (p, s1) \<Rightarrow> Some (Ret_ptr p, s1))"
| "g_host_api v (C_free p) (s, g) = with_pins g (Some (Ret_done, snd (host_free p s)))"
| "g_host_api v C_uptime_ms (s, g) = with_pins g (case host_uptime_ms s of (t, s1) \<Rightarrow> Some (Ret_word t, s1))"
| "g_host_api v (C_atoi p) (s, g) = with_pins g (case host_atoi p s of None \<Rightarrow> None | Some (r, s1) \<Rightarrow> Some (case r of None \<Rightarrow> Ret_undefined | Some n \<Rightarrow> Ret_int n, s1))"
| "g_host_api v C_watchdog_feed (s, g) = with_pins g (Some (Ret_done, snd (host_watchdog_feed s)))"
| "g_host_api v C_cycles (s, g) = with_pins g (case host_cycles s of (t, s1) \<Rightarrow> Some (Ret_word t, s1))"
| "g_host_api v (C_i2c_write n a p len) (s, g) = with_pins g (with_int (host_i2c_write v n a p len s))"
| "g_host_api v (C_i2c_read n a p len) (s, g) = with_pins g (with_int (host_i2c_read v n a p len s))"
| "g_host_api v (C_i2c_write_read n a p len q qlen) (s, g) = with_pins g (with_int (host_i2c_write_read v n a p len q qlen s))"
| "g_host_api v (C_uart_config n baud) (s, g) = with_pins g (with_int (host_uart_config n baud s))"
| "g_host_api v (C_uart_write n p len) (s, g) = with_pins g (with_int (host_uart_write v n p len s))"
| "g_host_api v (C_uart_read n p len) (s, g) = with_pins g (with_int (host_uart_read n p len s))"
| "g_host_api v (C_uart_loopback n on) (s, g) = with_pins g (with_int (host_uart_loopback n on s))"
| "g_host_api v (C_adc_read ch) (s, g) = with_pins g (with_int (host_adc_read v ch s))"
| "g_host_api v (C_adc_read_mv ch) (s, g) = with_pins g (with_int (host_adc_read_mv v ch s))"
| "g_host_api v (C_spi_config n mode hz) (s, g) = with_pins g (with_int (host_spi_config n mode hz s))"
| "g_host_api v (C_spi_transfer n tx rx len) (s, g) = with_pins g (with_int (host_spi_transfer v n tx rx len s))"

text \<open>On the supervisor's state.\<close>

definition on_dhost :: "(dhost \<times> gpio_hw \<Rightarrow> ('r \<times> dhost \<times> gpio_hw) option) \<Rightarrow> sup \<Rightarrow> ('r \<times> sup) option" where
  "on_dhost f s = (case f (dhost.truncate s, u_gpio s) of None \<Rightarrow> None
     | Some (r, d, g) \<Rightarrow> Some (r, (dhost.extend d (dhost.more s))\<lparr>u_gpio := g\<rparr>))"

definition host_call :: "vendor \<Rightarrow> host_call \<Rightarrow> sup \<Rightarrow> (host_ret \<times> sup) option" where
  "host_call v c = on_dhost (g_host_api v c)"

section \<open>What a call may touch\<close>

text \<open>The slot's bookkeeping: the watchdog's ticks and the heap pool. Everything else of the slot is fixed.\<close>

definition ledger :: "module \<Rightarrow> module \<Rightarrow> bool" where
  "ledger m m' \<longleftrightarrow> m' = m\<lparr>last_active_tick := last_active_tick m', pool_next := pool_next m', free_list := free_list m',
     parked_until_tick := parked_until_tick m'\<rparr>"

definition own_bytes :: "module \<Rightarrow> addr set" where
  "own_bytes m = (\<Union>(lo, hi) \<in> user_regions m. {lo ..< hi})"

text \<open>Data moves over the peripherals the module declared, and the converter's reference.\<close>

fun op_allowed :: "module \<Rightarrow> dev_op \<Rightarrow> bool" where
  "op_allowed m (I2cTransmit n a bs) = declares m KIND_I2C n"
| "op_allowed m (I2cReceive n a len) = declares m KIND_I2C n"
| "op_allowed m (UsartSend p b) = list_ex (\<lambda>u. ub_periph u = p \<and> declares m KIND_UART (ub_instance u)) g_uarts"
| "op_allowed m (UsartRecv p) = False"
| "op_allowed m (SpiSend n b) = declares m KIND_SPI n"
| "op_allowed m (SpiRecv n) = declares m KIND_SPI n"
| "op_allowed m (AdcChannel ch) = (declares m KIND_ADC ch \<or> ch = ADC_VREF_CHANNEL)"
| "op_allowed m op = True"

definition same_port :: "uart_bus \<Rightarrow> uart_bus \<Rightarrow> bool" where
  "same_port u u' \<longleftrightarrow> ub_instance u' = ub_instance u \<and> ub_periph u' = ub_periph u \<and> ub_open u' = ub_open u \<and> (ring_ok u \<longrightarrow> ring_ok u')"

definition same_spi :: "spi_bus \<Rightarrow> spi_bus \<Rightarrow> bool" where
  "same_spi b b' \<longleftrightarrow> sb_instance b' = sb_instance b \<and> sb_open b' = sb_open b"

text \<open>The drivers: nothing is opened or closed, and only the rows of declared instances change.\<close>

definition devs_frame :: "module \<Rightarrow> devs \<Rightarrow> devs \<Rightarrow> bool" where
  "devs_frame m d d' \<longleftrightarrow> d_i2c d' = d_i2c d \<and> d_adc d' = d_adc d \<and> s_adc_up d' = s_adc_up d
     \<and> (\<exists>bs. d_tx d' = d_tx d @ bs)
     \<and> list_all2 (\<lambda>u u'. u' = u \<or> (declares m KIND_UART (ub_instance u) \<and> same_port u u')) (d_uart d) (d_uart d')
     \<and> list_all2 (\<lambda>b b'. b' = b \<or> (declares m KIND_SPI (sb_instance b) \<and> same_spi b b')) (d_spi d) (d_spi d')
     \<and> (\<exists>ops. d_ops d' = d_ops d @ ops \<and> list_all (op_allowed m) ops)"

definition frame :: "nat \<Rightarrow> dhost \<Rightarrow> dhost \<Rightarrow> bool" where
  "frame i s s' \<longleftrightarrow> (\<exists>m mm d. s' = s\<lparr>h_slots := (h_slots s)[i := m], h_mem := mm, h_devs := d\<rparr> \<and> ledger (h_slots s ! i) m
     \<and> (\<forall>x. x \<notin> own_bytes (h_slots s ! i) \<longrightarrow> mm x = h_mem s x) \<and> devs_frame (h_slots s ! i) (h_devs s) d)"

section \<open>The relation\<close>

lemma ledger_refl [simp]: "ledger m m"
  by (simp add: ledger_def)

lemma ledger_upd [simp]:
  "ledger m (m\<lparr>last_active_tick := a\<rparr>)" "ledger m (m\<lparr>pool_next := b\<rparr>)" "ledger m (m\<lparr>free_list := c\<rparr>)"
  "ledger m (m\<lparr>parked_until_tick := d\<rparr>)"
  by (cases m; simp add: ledger_def)+

lemma ledger_trans: "ledger m m1 \<Longrightarrow> ledger m1 m2 \<Longrightarrow> ledger m m2"
  unfolding ledger_def by (cases m; cases m1; cases m2) simp

lemma ledger_fields:
  assumes "ledger m m'"
  shows "m_state m' = m_state m" "task_handle m' = task_handle m" "arena_held m' = arena_held m" "text_lo m' = text_lo m"
    "text_hi m' = text_hi m" "data_lo m' = data_lo m" "data_hi m' = data_hi m" "hs_lo m' = hs_lo m" "hs_hi m' = hs_hi m"
    "m_res m' = m_res m" "res_count m' = res_count m" "gpio_claimed m' = gpio_claimed m"
  by (subst assms [unfolded ledger_def], simp)+

lemma ledger_same:
  assumes "ledger m m'"
  shows "user_regions m' = user_regions m" "own_bytes m' = own_bytes m" "declares m' = declares m" "claims m' = claims m"
    "regions_of m' = regions_of m" "bounds_ok m' = bounds_ok m"
  by (simp_all add: ledger_fields [OF assms] user_regions_def own_bytes_def declares_def claims_def regions_of_def bounds_ok_def fun_eq_iff)

lemma op_allowed_same: "ledger m m' \<Longrightarrow> op_allowed m' op = op_allowed m op"
  by (cases op) (simp_all add: ledger_same(3))

lemma same_port_refl [simp]: "same_port u u"
  by (simp add: same_port_def)

lemma same_port_trans: "same_port u u1 \<Longrightarrow> same_port u1 u2 \<Longrightarrow> same_port u u2"
  by (simp add: same_port_def)

lemma same_spi_trans: "same_spi b b1 \<Longrightarrow> same_spi b1 b2 \<Longrightarrow> same_spi b b2"
  by (simp add: same_spi_def)

lemma devs_frame_refl [simp]: "devs_frame m d d"
  by (auto simp: devs_frame_def list_all2_refl intro: exI [of _ "[]"])

lemma devs_frame_hw: "list_all (op_allowed m) ops \<Longrightarrow> devs_frame m d (hw ops d)"
  by (auto simp: devs_frame_def list_all2_refl)

lemma devs_frame_say: "list_all printing ps \<Longrightarrow> devs_frame m d (say ps d)"
  using say_prints [of ps d] by (auto simp: list_all_iff devs_frame_def list_all2_refl)

lemma devs_frame_trans:
  assumes "devs_frame m d d1" "devs_frame m d1 d2"
  shows "devs_frame m d d2"
proof -
  let ?U = "\<lambda>u u'. u' = u \<or> (declares m KIND_UART (ub_instance u) \<and> same_port u u')"
  let ?S = "\<lambda>b b'. b' = b \<or> (declares m KIND_SPI (sb_instance b) \<and> same_spi b b')"
  have "list_all2 ?U (d_uart d) (d_uart d2)"
    by (rule list_all2_trans [of ?U ?U ?U "d_uart d" "d_uart d1"]) (use assms in \<open>auto simp: devs_frame_def same_port_def\<close>)
  moreover have "list_all2 ?S (d_spi d) (d_spi d2)"
    by (rule list_all2_trans [of ?S ?S ?S "d_spi d" "d_spi d1"]) (use assms in \<open>auto simp: devs_frame_def same_spi_def\<close>)
  moreover obtain bs cs where "d_tx d1 = d_tx d @ bs" "d_tx d2 = d_tx d1 @ cs" using assms unfolding devs_frame_def by blast
  moreover obtain o1 o2 where "d_ops d1 = d_ops d @ o1" "list_all (op_allowed m) o1" "d_ops d2 = d_ops d1 @ o2" "list_all (op_allowed m) o2"
    using assms unfolding devs_frame_def by blast
  ultimately show ?thesis using assms unfolding devs_frame_def by auto
qed

lemma devs_frame_same: "ledger m m' \<Longrightarrow> devs_frame m' = devs_frame m"
  by (simp add: devs_frame_def ledger_same(3) fun_eq_iff list_all_iff op_allowed_same)

lemma frameI:
  "ledger (h_slots s ! i) m \<Longrightarrow> (\<And>x. x \<notin> own_bytes (h_slots s ! i) \<Longrightarrow> mm x = h_mem s x) \<Longrightarrow> devs_frame (h_slots s ! i) (h_devs s) d \<Longrightarrow>
    frame i s (s\<lparr>h_slots := (h_slots s)[i := m], h_mem := mm, h_devs := d\<rparr>)"
  unfolding frame_def by blast

lemma frameE:
  assumes "frame i s s'"
  obtains m mm d where "s' = s\<lparr>h_slots := (h_slots s)[i := m], h_mem := mm, h_devs := d\<rparr>" "ledger (h_slots s ! i) m"
    "\<And>x. x \<notin> own_bytes (h_slots s ! i) \<Longrightarrow> mm x = h_mem s x" "devs_frame (h_slots s ! i) (h_devs s) d"
  using assms unfolding frame_def by blast

lemma frame_refl [simp]: "frame i s s"
  using frameI [of s i "h_slots s ! i" "h_mem s" "h_devs s"] by simp

lemma frame_module: "ledger (h_slots s ! i) (f (h_slots s ! i)) \<Longrightarrow> frame i s (upd_module i f s)"
  using frameI [of s i "f (h_slots s ! i)" "h_mem s" "h_devs s"] by (simp add: upd_module_def)

lemma frame_devs: "devs_frame (h_slots s ! i) (h_devs s) d \<Longrightarrow> frame i s (s\<lparr>h_devs := d\<rparr>)"
  using frameI [of s i "h_slots s ! i" "h_mem s" d] by simp

lemma frame_mem: "(\<And>x. x \<notin> own_bytes (h_slots s ! i) \<Longrightarrow> mm x = h_mem s x) \<Longrightarrow> frame i s (s\<lparr>h_mem := mm\<rparr>)"
  using frameI [of s i "h_slots s ! i" mm "h_devs s"] by simp

lemma frame_trans:
  assumes "i < length (h_slots s)" "frame i s s1" "frame i s1 s2"
  shows "frame i s s2"
proof -
  obtain m mm d where 1: "s1 = s\<lparr>h_slots := (h_slots s)[i := m], h_mem := mm, h_devs := d\<rparr>" "ledger (h_slots s ! i) m"
    "\<And>x. x \<notin> own_bytes (h_slots s ! i) \<Longrightarrow> mm x = h_mem s x" "devs_frame (h_slots s ! i) (h_devs s) d"
    using assms(2) unfolding frame_def by blast
  obtain m' mm' d' where 2: "s2 = s1\<lparr>h_slots := (h_slots s1)[i := m'], h_mem := mm', h_devs := d'\<rparr>" "ledger (h_slots s1 ! i) m'"
    "\<And>x. x \<notin> own_bytes (h_slots s1 ! i) \<Longrightarrow> mm' x = h_mem s1 x" "devs_frame (h_slots s1 ! i) (h_devs s1) d'"
    using assms(3) unfolding frame_def by blast
  have i: "h_slots s1 ! i = m" "h_mem s1 = mm" "h_devs s1 = d" using 1(1) assms(1) by simp_all
  have "s2 = s\<lparr>h_slots := (h_slots s)[i := m'], h_mem := mm', h_devs := d'\<rparr>" using 1(1) 2(1) by simp
  moreover have "ledger (h_slots s ! i) m'" using ledger_trans [OF 1(2)] 2(2) i by simp
  moreover have "mm' x = h_mem s x" if "x \<notin> own_bytes (h_slots s ! i)" for x
    using 1(3) 2(3) that i ledger_same(2) [OF 1(2)] by simp
  moreover have "devs_frame (h_slots s ! i) (h_devs s) d'"
    using devs_frame_trans [OF 1(4)] 2(4) i devs_frame_same [OF 1(2)] by simp
  ultimately show ?thesis unfolding frame_def by blast
qed

lemma frame_length: "frame i s s' \<Longrightarrow> length (h_slots s') = length (h_slots s)"
  by (auto elim!: frameE)

lemma frame_caller:
  assumes "caller s = Some i" "i < length (h_slots s)" "frame i s s'"
  shows "caller s' = Some i"
proof -
  obtain m mm d where "s' = s\<lparr>h_slots := (h_slots s)[i := m], h_mem := mm, h_devs := d\<rparr>" "ledger (h_slots s ! i) m"
    using assms(3) by (rule frameE)
  then show ?thesis using assms(1,2) by (simp add: caller_def mdl_caller_slot_def find_idx_update ledger_fields)
qed

text \<open>The gate: privilege is raised and dropped again around a body that stays inside.\<close>

lemma frame_gate:
  assumes "frame i (s\<lparr>privileged := True\<rparr>) (snd (body (s\<lparr>privileged := True\<rparr>)))"
  shows "frame i s (snd (syscall_gate body s))"
proof -
  obtain r s2 where b: "body (s\<lparr>privileged := True\<rparr>) = (r, s2)" by fastforce
  obtain m mm d where 2: "s2 = s\<lparr>privileged := True\<rparr>\<lparr>h_slots := (h_slots s)[i := m], h_mem := mm, h_devs := d\<rparr>" "ledger (h_slots s ! i) m"
    "\<And>x. x \<notin> own_bytes (h_slots s ! i) \<Longrightarrow> mm x = h_mem s x" "devs_frame (h_slots s ! i) (h_devs s) d"
    using assms unfolding b snd_conv by (auto elim: frameE)
  have "snd (syscall_gate body s) = s\<lparr>h_slots := (h_slots s)[i := m], h_mem := mm, h_devs := d\<rparr>"
  proof -
    have "snd (syscall_gate body s) = (if privileged s then s2 else s2\<lparr>privileged := False\<rparr>)"
      by (simp add: syscall_gate_def xPortRaisePrivilege_def vPortResetPrivilege_def b)
    then show ?thesis using 2(1) by (cases s) simp
  qed
  then show ?thesis using frameI [OF 2(2-4)] by simp
qed

lemma frame_feed:
  assumes "caller s = Some i"
  shows "frame i s (feed_watchdog s)"
  using assms frame_module [of s i "\<lambda>m. m\<lparr>last_active_tick := tick s\<rparr>"] by (simp add: feed_watchdog_def)

lemma frame_fed:
  assumes "caller s = Some i" "i < length (h_slots s)" "frame i (s\<lparr>privileged := True\<rparr>) (snd (body (s\<lparr>privileged := True\<rparr>)))"
  shows "frame i s (snd (fed_gate body s))"
  unfolding fed_gate_def
proof (rule frame_gate)
  let ?s = "s\<lparr>privileged := True\<rparr>"
  obtain r s2 where b: "body ?s = (r, s2)" by fastforce
  have "caller s2 = Some i" using frame_caller [of ?s i s2] assms b by simp
  then have "frame i ?s (feed_watchdog s2)" using frame_trans [of i ?s s2] frame_feed assms(2,3) b by simp
  then show "frame i ?s (snd (case body ?s of (r, s') \<Rightarrow> (r, feed_watchdog s')))" using b by simp
qed

section \<open>Every entry stays inside\<close>

definition calls_as :: "nat \<Rightarrow> dhost \<Rightarrow> bool" where
  "calls_as i s \<longleftrightarrow> caller s = Some i \<and> i < length (h_slots s) \<and> bounds_ok (h_slots s ! i) \<and> devs_inv (h_devs s)"

lemma calls_asD:
  assumes "calls_as i s"
  shows "caller s = Some i" "i < length (h_slots s)" "bounds_ok (h_slots s ! i)" "devs_inv (h_devs s)"
    "i2c_inv (h_devs s)" "uart_inv (h_devs s)" "adc_inv (h_devs s)" "spi_inv (h_devs s)"
  using assms by (simp_all add: calls_as_def devs_inv_def)

lemma calls_as_priv [simp]: "calls_as i (s\<lparr>privileged := b\<rparr>) = calls_as i s"
  by (simp add: calls_as_def)

lemma owned_bytes:
  assumes "calls_as i s" "ptr_owned_by_module s p len" "p \<le> x" "x < p + len"
  shows "x \<in> own_bytes (h_slots s ! i)"
proof -
  have "0 < len" using assms(3,4) by simp
  then obtain lo hi where "(lo, hi) \<in> user_regions (h_slots s ! i)" "lo \<le> p" "p + len \<le> hi"
    using ptr_owned_iff [of s len p] assms(2) calls_asD [OF assms(1)] by auto
  then show ?thesis using assms(3,4) unfolding own_bytes_def by (intro UN_I [of "(lo, hi)"]) simp_all
qed

lemma declared_caller: "calls_as i s \<Longrightarrow> mdl_caller_declared (me s) (h_slots s) k n \<longleftrightarrow> declares (h_slots s ! i) k n"
  using calls_asD(1) [of i s] by (simp add: mdl_caller_declared_def caller_def)

lemma fed_entry:
  assumes "calls_as i s" "\<And>s. calls_as i s \<Longrightarrow> frame i s (snd (body s))"
  shows "frame i s (snd (fed_gate body s))"
  by (rule frame_fed) (use assms calls_asD(1,2) [OF assms(1)] in auto)

text \<open>I2C.\<close>

lemma recovery_allowed: "list_all (op_allowed m) (I2cReset n # i2c_config b)"
  by (simp add: i2c_config_def i2c_lowlevel_init_def)

lemma recover_frame: "devs_frame m d (recover_unless ok b d)"
  using devs_frame_hw [OF recovery_allowed] by (simp add: recover_unless_def bus_recover_def)

lemma checked_bus_Some:
  assumes "calls_as i s" "checked_bus n s = Some k"
  shows "declares (h_slots s ! i) KIND_I2C (ib_instance (d_i2c (h_devs s) ! k))"
proof -
  have "find_idx (\<lambda>b. ib_instance b = of_int n) (d_i2c (h_devs s)) = Some k" "declares (h_slots s ! i) KIND_I2C (of_int n)"
    using assms declared_caller [OF assms(1)] by (auto simp: checked_bus_def bus_lookup_def split: if_splits option.splits)
  then show ?thesis using find_idx_Some by fastforce
qed

lemma i2c_send_frame:
  assumes "declares (h_slots s ! i) KIND_I2C (ib_instance (d_i2c (h_devs s) ! k))"
  shows "frame i s (snd (i2c_send v k a p len s))"
proof -
  have "devs_frame (h_slots s ! i) (h_devs s) (hw [I2cTransmit (ib_instance (d_i2c (h_devs s) ! k)) (addr8 a) bs] (h_devs s))" for bs
    using assms by (intro devs_frame_hw) simp
  from devs_frame_trans [OF this recover_frame] show ?thesis
    by (auto simp: i2c_send_def i2c_master_transmit_def Let_def intro!: frame_devs)
qed

lemma i2c_recv_frame:
  assumes "declares (h_slots s ! i) KIND_I2C (ib_instance (d_i2c (h_devs s) ! k))"
    "\<And>x. p \<le> x \<Longrightarrow> x < p + unat len \<Longrightarrow> x \<in> own_bytes (h_slots s ! i)"
  shows "frame i s (snd (i2c_recv v k a p len s))"
proof -
  obtain st s' where r: "i2c_recv v k a p len s = (st, s')" by fastforce
  have m: "h_mem s' x = h_mem s x" if "x \<notin> own_bytes (h_slots s ! i)" for x
    using i2c_recv_run(2) [OF r] assms(2) that by blast
  have "devs_frame (h_slots s ! i) (h_devs s) (hw [I2cReceive (ib_instance (d_i2c (h_devs s) ! k)) (addr8 a) (unat len)] (h_devs s))"
    using assms(1) by (intro devs_frame_hw) simp
  from devs_frame_trans [OF this recover_frame]
  have d: "devs_frame (h_slots s ! i) (h_devs s) (h_devs s')"
    using r by (auto simp: i2c_recv_def i2c_master_receive_def Let_def split: prod.splits)
  have "s' = s\<lparr>h_slots := (h_slots s)[i := h_slots s ! i], h_mem := h_mem s', h_devs := h_devs s'\<rparr>"
    using r by (auto simp: i2c_recv_def Let_def split: prod.splits)
  moreover have "frame i s (s\<lparr>h_slots := (h_slots s)[i := h_slots s ! i], h_mem := h_mem s', h_devs := h_devs s'\<rparr>)"
    by (rule frameI) (use m d in simp_all)
  ultimately show ?thesis using r by simp
qed

lemma i2c_write_frame:
  assumes "calls_as i s"
  shows "frame i s (snd (host_i2c_write_impl v n a p len s))"
proof (cases "checked_bus n s")
  case (Some k)
  then show ?thesis using i2c_send_frame [OF checked_bus_Some [OF assms Some], of v a p len]
    by (auto simp: host_i2c_write_impl_def split: prod.split)
qed (simp add: host_i2c_write_impl_def)

lemma i2c_read_frame:
  assumes "calls_as i s"
  shows "frame i s (snd (host_i2c_read_impl v n a p len s))"
proof (cases "checked_bus n s")
  case (Some k)
  have "frame i s (snd (i2c_recv v k a p len s))" if "host_ptr_owned_by_module s p (unat len)"
    by (rule i2c_recv_frame [OF checked_bus_Some [OF assms Some]])
      (use owned_bytes [OF assms] that in \<open>auto simp: host_ptr_owned_by_module_def\<close>)
  then show ?thesis using Some by (auto simp: host_i2c_read_impl_def split: prod.split)
qed (simp add: host_i2c_read_impl_def)

lemma i2c_write_read_frame:
  assumes "calls_as i s"
  shows "frame i s (snd (host_i2c_write_read_impl v n a p len q qlen s))"
proof (cases "checked_bus n s")
  case (Some k)
  note dec = checked_bus_Some [OF assms Some]
  obtain st s1 where 1: "i2c_send v k a p len s = (st, s1)" by fastforce
  note r = i2c_send_run [OF 1]
  have f1: "frame i s s1" using i2c_send_frame [OF dec, of v a p len] 1 by simp
  have "frame i s1 (snd (i2c_recv v k a q qlen s1))" if "host_ptr_owned_by_module s q (unat qlen)"
    by (rule i2c_recv_frame) (use dec owned_bytes [OF assms] that r in \<open>auto simp: host_ptr_owned_by_module_def\<close>)
  then have "frame i s (snd (i2c_recv v k a q qlen s1))" if "host_ptr_owned_by_module s q (unat qlen)"
    using frame_trans [OF calls_asD(2) [OF assms] f1] that by blast
  then show ?thesis using Some 1 f1 by (auto simp: host_i2c_write_read_impl_def split: prod.split)
qed (simp add: host_i2c_write_read_impl_def)

text \<open>UART.\<close>

lemma checked_uart_Some:
  assumes "calls_as i s" "checked_uart n s = Some k"
  shows "k < length (d_uart (h_devs s))" "declares (h_slots s ! i) KIND_UART (ub_instance (d_uart (h_devs s) ! k))"
    "op_allowed (h_slots s ! i) (UsartSend (ub_periph (d_uart (h_devs s) ! k)) byte)"
proof -
  have f: "find_idx (\<lambda>u. ub_instance u = of_int n) (d_uart (h_devs s)) = Some k" "declares (h_slots s ! i) KIND_UART (of_int n)"
    using assms declared_caller [OF assms(1)] by (auto simp: checked_uart_def uart_lookup_def split: if_splits option.splits)
  then show 1: "k < length (d_uart (h_devs s))" "declares (h_slots s ! i) KIND_UART (ub_instance (d_uart (h_devs s) ! k))"
    using find_idx_Some by fastforce+
  obtain a b c where d: "d_uart (h_devs s) = [a, b, c]" "ub_instance a = 2" "ub_instance b = 4" "ub_instance c = 3"
    "ub_periph a = ''USART2''" "ub_periph b = ''USART2''" "ub_periph c = ''USART3''"
    using uart_invE [OF calls_asD(6) [OF assms(1)]] by metis
  have "k = 0 \<or> k = 1 \<or> k = 2" using 1(1) d(1) by auto
  then show "op_allowed (h_slots s ! i) (UsartSend (ub_periph (d_uart (h_devs s) ! k)) byte)"
    using 1(2) d by (auto simp: g_uarts_def uart_row_def numeral_2_eq_2)
qed

lemma uart_row_frame:
  assumes "k < length (d_uart d)" "declares m KIND_UART (ub_instance (d_uart d ! k))" "same_port (d_uart d ! k) (f (d_uart d ! k))"
  shows "devs_frame m d (upd_uart k f d)"
proof -
  have "list_all2 (\<lambda>u u'. u' = u \<or> (declares m KIND_UART (ub_instance u) \<and> same_port u u')) (d_uart d) ((d_uart d)[k := f (d_uart d ! k)])"
    unfolding list_all2_conv_all_nth using assms by (auto simp: nth_list_update)
  then show ?thesis by (auto simp: devs_frame_def upd_uart_def list_all2_refl)
qed

lemma uart_loopback_frame:
  assumes "calls_as i s"
  shows "frame i s (snd (host_uart_loopback_impl n on s))"
proof (cases "checked_uart n s")
  case (Some k)
  note c = checked_uart_Some [OF assms Some]
  have "devs_frame (h_slots s ! i) (h_devs s) (upd_uart k (\<lambda>u. u\<lparr>ub_head := 0, ub_tail := 0, ub_dropped := 0\<rparr>) (hw ops (h_devs s)))"
    if "list_all (op_allowed (h_slots s ! i)) ops" for ops
    by (rule devs_frame_trans [OF devs_frame_hw [OF that] uart_row_frame]) (use c in \<open>simp_all add: same_port_def ring_ok_def\<close>)
  then show ?thesis using Some by (auto simp: host_uart_loopback_impl_def Let_def intro!: frame_devs)
qed (simp add: host_uart_loopback_impl_def)

lemma uart_config_frame:
  assumes "calls_as i s"
  shows "frame i s (snd (host_uart_config_impl n baud s))"
proof (cases "checked_uart n s")
  case (Some k)
  note c = checked_uart_Some [OF assms Some]
  let ?u = "(d_uart (h_devs s) ! k)\<lparr>ub_baud := baud\<rparr>"
  have "devs_frame (h_slots s ! i) (h_devs s) (hw (uart_apply ?u) (upd_uart k (\<lambda>_. ?u) (h_devs s)))"
    by (rule devs_frame_trans [OF uart_row_frame devs_frame_hw]) (use c in \<open>simp_all add: same_port_def ring_ok_def uart_apply_def\<close>)
  then show ?thesis using Some by (auto simp: host_uart_config_impl_def Let_def intro!: frame_devs)
qed (simp add: host_uart_config_impl_def)

lemma uart_send_all_frame:
  assumes "\<And>b. op_allowed m (UsartSend p b)"
  shows "devs_frame m d (snd (uart_send_all v p bs d))"
proof (induction bs arbitrary: d)
  case (Cons b bs)
  have "devs_frame m d (hw [UsartSend p b] d)" using assms by (intro devs_frame_hw) simp
  from devs_frame_trans [OF this Cons.IH] show ?case by simp
qed simp

lemma uart_write_frame:
  assumes "calls_as i s"
  shows "frame i s (snd (host_uart_write_impl v n p len s))"
proof (cases "checked_uart n s")
  case (Some k)
  have "frame i s (s\<lparr>h_devs := d\<rparr>)" if "uart_send_all v (ub_periph (d_uart (h_devs s) ! k)) bs (h_devs s) = (r, d)" for bs r d
    using uart_send_all_frame [OF checked_uart_Some(3) [OF assms Some], where v = v and bs = bs and d = "h_devs s"] that by (intro frame_devs) simp
  then show ?thesis using Some by (auto simp: host_uart_write_impl_def split: prod.split)
qed (simp add: host_uart_write_impl_def)

lemma uart_drain_port: "same_port u (snd (uart_drain k u))" "length (fst (uart_drain k u)) \<le> k"
proof -
  have g: "same_port u (snd (uart_get u))" for u
    using uart_get_spec(1) [of u] by (auto simp: same_port_def uart_get_def)
  have "same_port u (snd (uart_drain k u)) \<and> length (fst (uart_drain k u)) \<le> k"
  proof (induction k arbitrary: u)
    case (Suc k)
    obtain x u1 where x: "uart_get u = (x, u1)" by fastforce
    then show ?case using Suc.IH [of u1] g [of u] same_port_trans by (auto split: prod.split option.split)
  qed simp
  then show "same_port u (snd (uart_drain k u))" "length (fst (uart_drain k u)) \<le> k" by simp_all
qed

lemma uart_read_frame:
  assumes "calls_as i s"
  shows "frame i s (snd (host_uart_read_impl n p len s))"
proof (cases "checked_uart n s")
  case (Some k)
  note c = checked_uart_Some [OF assms Some]
  obtain bs u1 where d: "uart_drain (unat len) (d_uart (h_devs s) ! k) = (bs, u1)" by fastforce
  note port = uart_drain_port [where u = "d_uart (h_devs s) ! k" and k = "unat len", unfolded d fst_conv snd_conv]
  have "frame i s (s\<lparr>h_slots := (h_slots s)[i := h_slots s ! i], h_mem := mem_write p bs (h_mem s), h_devs := upd_uart k (\<lambda>_. u1) (h_devs s)\<rparr>)"
    if own: "host_ptr_owned_by_module s p (unat len)"
  proof (rule frameI)
    show "devs_frame (h_slots s ! i) (h_devs s) (upd_uart k (\<lambda>_. u1) (h_devs s))" by (rule uart_row_frame) (use c port in simp_all)
    show "mem_write p bs (h_mem s) x = h_mem s x" if "x \<notin> own_bytes (h_slots s ! i)" for x
      using owned_bytes [OF assms own [unfolded host_ptr_owned_by_module_def], of x] that port(2) by (auto simp: mem_write_def)
  qed simp
  then show ?thesis using Some d by (auto simp: host_uart_read_impl_def split: prod.split)
qed (simp add: host_uart_read_impl_def)

text \<open>ADC.\<close>

lemma checked_chan_Some:
  assumes "calls_as i s" "checked_chan ch s = Some k"
  shows "declares (h_slots s ! i) KIND_ADC (ac_channel (d_adc (h_devs s) ! k))"
proof -
  have "find_idx (\<lambda>c. ac_channel c = of_int ch) (d_adc (h_devs s)) = Some k" "declares (h_slots s ! i) KIND_ADC (of_int ch)"
    using assms declared_caller [OF assms(1)] by (auto simp: checked_chan_def chan_lookup_def split: if_splits option.splits)
  then show ?thesis using find_idx_Some by fastforce
qed

lemma convert_frame:
  assumes "op_allowed m (AdcChannel ch)"
  shows "devs_frame m d (snd (convert_once v ch d))"
proof -
  have a: "devs_frame m d (hw [AdcChannel ch, AdcClear, AdcSoftTrigger True] d)" using assms by (intro devs_frame_hw) simp
  have "devs_frame m d1 (hw [AdcSoftTrigger False, AdcData] d1)" "devs_frame m d1 (hw [AdcSoftTrigger False] d1)" for d1
    by (intro devs_frame_hw; simp)+
  from this [THEN devs_frame_trans [OF a]] show ?thesis by (simp add: convert_once_def Let_def del: poll.simps)
qed

lemma adc_read_frame:
  assumes "calls_as i s"
  shows "frame i s (snd (host_adc_read_impl v ch s))"
proof (cases "checked_chan ch s")
  case (Some k)
  then show ?thesis
    using convert_frame [of "h_slots s ! i" "ac_channel (d_adc (h_devs s) ! k)" "h_devs s" v] checked_chan_Some [OF assms Some]
    by (auto simp: host_adc_read_impl_def split: prod.split intro!: frame_devs)
qed (simp add: host_adc_read_impl_def)

lemma adc_read_mv_frame:
  assumes "calls_as i s"
  shows "frame i s (snd (host_adc_read_mv_impl v ch s))"
proof (cases "checked_chan ch s")
  case (Some k)
  let ?m = "h_slots s ! i"
  obtain raw d where 1: "convert_once v (ac_channel (d_adc (h_devs s) ! k)) (h_devs s) = (raw, d)" by fastforce
  obtain ref d' where 2: "convert_once v ADC_VREF_CHANNEL d = (ref, d')" by fastforce
  have f1: "devs_frame ?m (h_devs s) d"
    using convert_frame [of ?m "ac_channel (d_adc (h_devs s) ! k)" "h_devs s" v] checked_chan_Some [OF assms Some] 1 by simp
  moreover have "devs_frame ?m d d'" using convert_frame [of ?m ADC_VREF_CHANNEL d v] 2 by simp
  ultimately have "devs_frame ?m (h_devs s) d'" by (rule devs_frame_trans)
  then show ?thesis using Some 1 2 f1 by (auto simp: host_adc_read_mv_impl_def intro!: frame_devs)
qed (simp add: host_adc_read_mv_impl_def)

text \<open>SPI.\<close>

lemma checked_spi_Some:
  assumes "calls_as i s" "checked_spi n s = Some k"
  shows "k < length (d_spi (h_devs s))" "declares (h_slots s ! i) KIND_SPI (sb_instance (d_spi (h_devs s) ! k))"
proof -
  have f: "find_idx (\<lambda>b. sb_instance b = of_int n) (d_spi (h_devs s)) = Some k" "declares (h_slots s ! i) KIND_SPI (of_int n)"
    using assms declared_caller [OF assms(1)] by (auto simp: checked_spi_def spi_lookup_def split: if_splits option.splits)
  then show "k < length (d_spi (h_devs s))" "declares (h_slots s ! i) KIND_SPI (sb_instance (d_spi (h_devs s) ! k))"
    using find_idx_Some by fastforce+
qed

lemma spi_row_frame:
  assumes "k < length (d_spi d)" "declares m KIND_SPI (sb_instance (d_spi d ! k))" "same_spi (d_spi d ! k) (f (d_spi d ! k))"
  shows "devs_frame m d (upd_spi k f d)"
proof -
  have "list_all2 (\<lambda>b b'. b' = b \<or> (declares m KIND_SPI (sb_instance b) \<and> same_spi b b')) (d_spi d) ((d_spi d)[k := f (d_spi d ! k)])"
    unfolding list_all2_conv_all_nth using assms by (auto simp: nth_list_update)
  then show ?thesis by (auto simp: devs_frame_def upd_spi_def list_all2_refl)
qed

lemma spi_apply_allowed: "spi_apply b = (ops, b') \<Longrightarrow> list_all (op_allowed m) ops"
  by (auto simp: spi_apply_def split: prod.splits)

lemma spi_config_frame:
  assumes "calls_as i s"
  shows "frame i s (snd (host_spi_config_impl n mode hz s))"
proof (cases "checked_spi n s")
  case (Some k)
  note c = checked_spi_Some [OF assms Some]
  obtain ops b where a: "spi_apply ((d_spi (h_devs s) ! k)\<lparr>sb_mode := of_int mode, sb_hz := hz\<rparr>) = (ops, b)" by fastforce
  have "devs_frame (h_slots s ! i) (h_devs s) (hw ops (upd_spi k (\<lambda>_. b) (h_devs s)))"
    by (rule devs_frame_trans [OF spi_row_frame devs_frame_hw])
      (use c spi_apply_keeps [OF a] spi_apply_allowed [OF a] in \<open>simp_all add: same_spi_def\<close>)
  then show ?thesis using Some a by (auto simp: host_spi_config_impl_def intro!: frame_devs)
qed (simp add: host_spi_config_impl_def)

lemma spi_loop_frame:
  assumes "declares m KIND_SPI n"
  shows "spi_loop v n tx rx k j mm d = (ok, mm', d') \<Longrightarrow> devs_frame m d d'"
proof (induction k arbitrary: j mm d)
  case (Suc k)
  have h: "devs_frame m d (hw [SpiSend n b] d)" "devs_frame m d (hw [SpiRecv n] d)" for d b
    using assms by (intro devs_frame_hw; simp)+
  have hh: "devs_frame m d (hw [SpiRecv n] (hw [SpiSend n b] d))" for b by (rule devs_frame_trans [OF h(1) h(2)])
  show ?case using Suc.prems Suc.IH devs_frame_trans [OF hh] h(1)
    by (fastforce simp: Let_def simp del: poll.simps split: if_splits)
qed simp

lemma spi_transfer_frame:
  assumes "calls_as i s"
  shows "frame i s (snd (host_spi_transfer_impl v n tx rx len s))"
proof (cases "checked_spi n s")
  case (Some k)
  note c = checked_spi_Some [OF assms Some]
  obtain ok mm d where l: "spi_loop v (sb_instance (d_spi (h_devs s) ! k)) tx rx (unat len) 0 (h_mem s) (h_devs s) = (ok, mm, d)"
    by (cases "spi_loop v (sb_instance (d_spi (h_devs s) ! k)) tx rx (unat len) 0 (h_mem s) (h_devs s)")
  have "frame i s (s\<lparr>h_slots := (h_slots s)[i := h_slots s ! i], h_mem := mm, h_devs := d\<rparr>)"
    if own: "rx \<noteq> 0 \<longrightarrow> host_ptr_owned_by_module s rx (unat len)"
  proof (rule frameI)
    show "devs_frame (h_slots s ! i) (h_devs s) d" by (rule spi_loop_frame [OF c(2) l])
    show "mm x = h_mem s x" if "x \<notin> own_bytes (h_slots s ! i)" for x
      using spi_loop_confined [OF l, of x] owned_bytes [OF assms, of rx "unat len" x] own that
      by (auto simp: host_ptr_owned_by_module_def)
  qed simp
  then show ?thesis using Some l by (auto simp: host_spi_transfer_impl_def simp del: poll.simps)
qed (simp add: host_spi_transfer_impl_def)

text \<open>The heap. The links of the free list lie in the module's own memory, so \<open>alloc\<close> is safe for an intact heap only.\<close>

lemma heap_bytes:
  assumes "hs_lo m \<le> x" "x < hs_lo m + HEAP_SIZE"
  shows "x \<in> own_bytes m"
  unfolding own_bytes_def by (rule UN_I [of "(hs_lo m, hs_lo m + HEAP_SIZE)"]) (use assms in \<open>simp_all add: user_regions_def\<close>)

definition slot_change :: "nat \<Rightarrow> dhost \<Rightarrow> dhost \<Rightarrow> bool" where
  "slot_change i s s' \<longleftrightarrow> (\<exists>m mm. s' = s\<lparr>h_slots := (h_slots s)[i := m], h_mem := mm\<rparr> \<and> ledger (h_slots s ! i) m)"

lemma slot_changeI:
  "slot_change i s s" "slot_change i s (s\<lparr>h_mem := mm\<rparr>)"
  "ledger (h_slots s ! i) (f (h_slots s ! i)) \<Longrightarrow> slot_change i s (upd_module i f s)"
  "ledger (h_slots s ! i) (f (h_slots s ! i)) \<Longrightarrow> slot_change i s (upd_module i f (s\<lparr>h_mem := mm\<rparr>))"
  unfolding slot_change_def
  by (rule exI [of _ "h_slots s ! i"] exI [of _ "f (h_slots s ! i)"], rule exI [of _ "h_mem s"] exI [of _ mm], simp add: upd_module_def)+

lemma slot_change_frame:
  assumes "slot_change i s s'" "\<And>x. x \<notin> own_bytes (h_slots s ! i) \<Longrightarrow> h_mem s' x = h_mem s x"
  shows "frame i s s'"
proof -
  obtain m mm where s': "s' = s\<lparr>h_slots := (h_slots s)[i := m], h_mem := mm\<rparr>" "ledger (h_slots s ! i) m"
    using assms(1) unfolding slot_change_def by blast
  have "frame i s (s\<lparr>h_slots := (h_slots s)[i := m], h_mem := mm, h_devs := h_devs s\<rparr>)"
    by (rule frameI [OF s'(2)]) (use assms(2) s'(1) in simp_all)
  then show ?thesis using s'(1) by simp
qed

lemma alloc_changes:
  assumes "host_alloc_impl n s = Some (p, s')" "caller s = Some i"
  shows "slot_change i s s'"
  using assms by (auto simp: host_alloc_impl_def Let_def slot_changeI split: if_splits option.splits)

definition heap_intact :: "nat \<Rightarrow> 'a host_scheme \<Rightarrow> bool" where
  "heap_intact i s \<longleftrightarrow> (\<exists>B fl. heap_ok (h_slots s ! i) (h_mem s) B fl)"

lemma alloc_frame:
  assumes c: "calls_as i s" and h: "n = 0 \<or> (unat n \<le> 0xFFFFFFF0 \<and> heap_intact i s)"
  shows "\<exists>p s'. host_alloc_impl n s = Some (p, s') \<and> frame i s s'"
proof (cases "n = 0")
  case False
  then obtain B fl where ok: "heap_ok (h_slots s ! i) (h_mem s) B fl" "unat n \<le> 0xFFFFFFF0" using h unfolding heap_intact_def by blast
  obtain p s' B' fl' where r: "host_alloc_impl n s = Some (p, s')" "alloc_outcome i s (unat n) B fl p s' B' fl'"
    using heap_alloc_full [OF calls_asD(1,2) [OF c] ok(1) False ok(2)] by blast
  have ch: "slot_change i s s'" by (rule alloc_changes [OF r(1) calls_asD(1) [OF c]])
  have lo: "hs_lo (h_slots s' ! i) = hs_lo (h_slots s ! i)"
    using ch calls_asD(2) [OF c] ledger_fields(8) unfolding slot_change_def by force
  have ok': "heap_ok (h_slots s' ! i) (h_mem s') B' fl'" "headers_only B' (h_mem s) (h_mem s')"
    using r(2) by (simp_all add: alloc_outcome_def)
  have "h_mem s' x = h_mem s x" if x: "x \<notin> own_bytes (h_slots s ! i)" for x
  proof -
    have "x < fst q \<or> fst q + 8 \<le> x" if "q \<in> B'" for q
    proof (rule ccontr)
      assume n: "\<not> ?thesis"
      obtain y k where q: "q = (y, k)" by fastforce
      have "block_ok (h_slots s' ! i) (h_mem s') (y, k)" using heap_okD(7) [OF ok'(1)] that q by blast
      from block_ok_bounds [OF ok'(1) this] have "hs_lo (h_slots s ! i) \<le> x" "x < hs_lo (h_slots s ! i) + HEAP_SIZE"
        using n q lo by simp_all
      then show False using heap_bytes x by blast
    qed
    then show ?thesis using ok'(2) unfolding headers_only_def by blast
  qed
  then show ?thesis using r(1) slot_change_frame [OF ch] by blast
qed (simp add: host_alloc_impl_def)

lemma free_frame:
  assumes "calls_as i s"
  shows "frame i s (host_free_impl p s)"
proof (cases "host_free_impl p s = s")
  case False
  let ?m = "h_slots s ! i" and ?hdr = "sub32 p 8"
  note c = calls_asD [OF assms]
  have b: "hs_lo ?m + HEAP_SIZE < 2 ^ 32" using c(3) by (simp add: bounds_ok_def)
  have run: "host_free_impl p s = upd_module i (\<lambda>m. m\<lparr>free_list := ?hdr\<rparr>) (s\<lparr>h_mem := st32 ?hdr (of_nat (free_list ?m)) (h_mem s)\<rparr>)"
    and hdr: "ptr_in_range ?hdr 8 (hs_lo ?m) (add32 (hs_lo ?m) HEAP_SIZE)"
    using False c(1) by (auto simp: host_free_impl_def Let_def split: if_splits)
  have in_heap: "hs_lo ?m \<le> ?hdr" "?hdr + 8 \<le> hs_lo ?m + HEAP_SIZE"
    using hdr ptr_in_range_iff [of "hs_lo ?m" "hs_lo ?m + HEAP_SIZE" ?hdr 8] b by simp_all
  show ?thesis
    unfolding run
  proof (rule slot_change_frame)
    show "slot_change i s (upd_module i (\<lambda>m. m\<lparr>free_list := ?hdr\<rparr>) (s\<lparr>h_mem := st32 ?hdr (of_nat (free_list ?m)) (h_mem s)\<rparr>))"
      by (rule slot_changeI(4)) simp
    fix x assume "x \<notin> own_bytes ?m"
    then have "\<not> (?hdr \<le> x \<and> x < ?hdr + 8)" using heap_bytes [of ?m x] in_heap by linarith
    then show "h_mem (upd_module i (\<lambda>m. m\<lparr>free_list := ?hdr\<rparr>) (s\<lparr>h_mem := st32 ?hdr (of_nat (free_list ?m)) (h_mem s)\<rparr>)) x = h_mem s x"
      using st32_other [of x ?hdr] by auto
  qed
qed simp

text \<open>The digit loop of \<open>atoi\<close> ends: the address grows, and the module's memory does not reach the top of the address space.\<close>

lemma atoi_loop_ends:
  assumes "calls_as i s"
  shows "\<exists>r. atoi_loop s p n = Some r"
proof (induction "2 ^ 32 - p" arbitrary: p n rule: less_induct)
  case less
  show ?case
  proof (cases "ptr_owned_by_module s p 1 \<and> is_digit (h_mem s p)")
    case True
    obtain lo hi where r: "(lo, hi) \<in> user_regions (h_slots s ! i)" "lo \<le> p" "p + 1 \<le> hi"
      using ptr_owned_iff [of s 1 p] True calls_asD [OF assms] by auto
    have "hi < 2 ^ 32" using r(1) calls_asD(3) [OF assms] by (auto simp: user_regions_def bounds_ok_def)
    then have "add32 p 1 = p + 1" "2 ^ 32 - (p + 1) < 2 ^ 32 - p" using r(3) by simp_all
    then have "\<exists>r. atoi_loop s (add32 p 1) w = Some r" for w using less [of "p + 1" w] by simp
    then show ?thesis by (subst atoi_loop.simps) (auto split: option.split sum.split)
  next
    case False
    then show ?thesis by (subst atoi_loop.simps) auto
  qed
qed

lemma atoi_frame:
  assumes "calls_as i s"
  shows "\<exists>r. host_atoi p s = Some (r, s)"
proof -
  let ?s = "s\<lparr>privileged := True\<rparr>"
  have "\<exists>r. host_atoi_impl p ?s = Some r"
    using atoi_loop_ends [of i ?s] assms by (auto simp: host_atoi_impl_def Let_def)
  then show ?thesis by (cases s) (auto simp: host_atoi_def xPortRaisePrivilege_def vPortResetPrivilege_def)
qed

text \<open>Every entry.\<close>

definition call_ok :: "nat \<Rightarrow> host_call \<Rightarrow> 'a host_scheme \<Rightarrow> bool" where
  "call_ok i c s \<longleftrightarrow> (case c of C_alloc n \<Rightarrow> n = 0 \<or> (unat n \<le> 0xFFFFFFF0 \<and> heap_intact i s)
     | C_delay_wake po \<Rightarrow> po = None \<or> po = Some i | _ \<Rightarrow> True)"

definition pins_frame :: "module \<Rightarrow> gpio_hw \<Rightarrow> gpio_hw \<Rightarrow> bool" where
  "pins_frame m g g' \<longleftrightarrow> g' = g \<or> (\<exists>k < 6. \<exists>level. bit (gpio_claimed m) k \<and> configure (g_gpio_whitelist ! k)
     \<and> g' = g\<lparr>g_out := (g_out g)(pin_id (g_gpio_whitelist ! k) := level)\<rparr>)"

lemma pins_frame_set:
  assumes "mdl_caller_slot self ms = Some i" "host_gpio_set self ms pin level g = (r, g')"
  shows "pins_frame (ms ! i) g g'"
proof (cases "module_claimed self ms pin \<and> gpio_lookup pin \<noteq> None")
  case False
  then show ?thesis using assms(2) by (auto simp: host_gpio_set_def host_gpio_set_impl_def pins_frame_def split: if_splits)
next
  case True
  then obtain e where e: "gpio_lookup pin = Some e" by auto
  then have p: "0 \<le> pin" "pin < 6" "e = g_gpio_whitelist ! nat pin" by (simp_all add: gpio_lookup_Some)
  have cl: "bit (gpio_claimed (ms ! i)) (nat pin)"
    using True assms(1) by (auto simp: module_claimed_def claim_bit_iff split: if_splits)
  show ?thesis
  proof (cases "configure e")
    case conf: True
    have "nat pin < 6" using p by simp
    moreover have "g' = g\<lparr>g_out := (g_out g)(pin_id (g_gpio_whitelist ! nat pin) := (level \<noteq> 0))\<rparr>"
      using assms(2) True e conf p(3) by (simp add: host_gpio_set_def host_gpio_set_impl_def)
    ultimately show ?thesis using cl conf p(3) unfolding pins_frame_def by blast
  qed (use assms(2) True e in \<open>simp add: host_gpio_set_def host_gpio_set_impl_def pins_frame_def\<close>)
qed

lemma gated_frames:
  assumes c: "calls_as i s"
  shows "frame i s (snd (host_log p s))" "frame i s (snd (delay_park ms s))" "po = None \<or> po = Some i \<Longrightarrow> frame i s (snd (delay_wake po s))"
    "frame i s (snd (host_free q s))" "frame i s (snd (host_uptime_ms s))" "frame i s (snd (host_watchdog_feed s))"
    "frame i s (snd (host_cycles s))"
proof -
  let ?s = "s\<lparr>privileged := True\<rparr>"
  have cs: "calls_as i ?s" using c by simp
  note c' = calls_asD(1,2) [OF cs]
  have up: "frame i ?s (upd_module i (\<lambda>m. m\<lparr>parked_until_tick := t\<rparr>) ?s)" for t by (rule frame_module) simp
  show "frame i s (snd (host_log p s))" unfolding host_log_def by (rule frame_gate) simp
  show "frame i s (snd (host_uptime_ms s))" unfolding host_uptime_ms_def by (rule frame_gate) simp
  show "frame i s (snd (host_cycles s))" unfolding host_cycles_def by (rule frame_gate) simp
  show "frame i s (snd (delay_park ms s))" unfolding delay_park_def by (rule frame_gate) (use c' up in simp)
  show "frame i s (snd (host_free q s))" unfolding host_free_def by (rule frame_gate) (use free_frame [OF cs] in simp)
  show "frame i s (snd (host_watchdog_feed s))"
    unfolding host_watchdog_feed_def by (rule frame_gate) (use frame_feed [OF c'(1)] in simp)
  show "frame i s (snd (delay_wake po s))" if "po = None \<or> po = Some i"
    unfolding delay_wake_def
  proof (rule frame_gate)
    let ?t = "case po of None \<Rightarrow> ?s | Some i \<Rightarrow> upd_module i (\<lambda>m. m\<lparr>parked_until_tick := 0\<rparr>) ?s"
    have t: "frame i ?s ?t" using that up [of 0] by auto
    have "frame i ?t (feed_watchdog ?t)" by (rule frame_feed) (rule frame_caller [OF c' t])
    then show "frame i ?s (snd ((), feed_watchdog ?t))" using frame_trans [OF c'(2) t] by simp
  qed
qed

lemma host_alloc_frame:
  assumes "calls_as i s" "n = 0 \<or> (unat n \<le> 0xFFFFFFF0 \<and> heap_intact i s)"
  shows "\<exists>p s'. host_alloc n s = Some (p, s') \<and> frame i s s'"
proof -
  let ?s = "s\<lparr>privileged := True\<rparr>"
  obtain p s2 where a: "host_alloc_impl n ?s = Some (p, s2)" "frame i ?s s2"
    using alloc_frame [of i ?s n] assms by (auto simp: heap_intact_def)
  have "frame i s (snd (syscall_gate (\<lambda>_. (p, s2)) s))" by (rule frame_gate) (use a in simp)
  then show ?thesis using a(1) by (simp add: host_alloc_def syscall_gate_def xPortRaisePrivilege_def)
qed

text \<open>The entries that go through the gate and feed the watchdog.\<close>

lemmas fed_frames =
  fed_entry [OF _ i2c_write_frame] fed_entry [OF _ i2c_read_frame] fed_entry [OF _ i2c_write_read_frame] fed_entry [OF _ uart_config_frame]
  fed_entry [OF _ uart_write_frame] fed_entry [OF _ uart_read_frame] fed_entry [OF _ uart_loopback_frame] fed_entry [OF _ adc_read_frame]
  fed_entry [OF _ adc_read_mv_frame] fed_entry [OF _ spi_config_frame] fed_entry [OF _ spi_transfer_frame]

lemma with_int_frame: "frame i s (snd q) \<Longrightarrow> \<exists>r s' g'. with_pins g (with_int q) = Some (r, s', g') \<and> frame i s s' \<and> pins_frame m g g'"
  by (cases q) (simp add: with_pins_def with_int_def pins_frame_def)

lemma host_api_frame:
  assumes c: "calls_as i s" and ok: "call_ok i call s"
  shows "\<exists>r s' g'. g_host_api v call (s, g) = Some (r, s', g') \<and> frame i s s' \<and> pins_frame (h_slots s ! i) g g'"
proof (cases call)
  case (C_log p)
  obtain r s1 where l: "host_log p s = (r, s1)" by fastforce
  have f: "frame i s s1" using gated_frames(1) [OF c, of p] l by simp
  have "devs_frame (h_slots s1 ! i) (h_devs s1) (say (host_log_sink bs) (h_devs s1))" for bs
    by (rule devs_frame_say) (simp add: host_log_sink_def)
  then have "frame i s (s1\<lparr>h_devs := say (host_log_sink bs) (h_devs s1)\<rparr>)" for bs
    using frame_trans [OF calls_asD(2) [OF c] f frame_devs] by blast
  then show ?thesis using C_log l by (simp add: with_pins_def pins_frame_def)
next
  case (C_gpio_set pin level)
  obtain r g1 where r: "host_gpio_set (me s) (h_slots s) pin level g = (r, g1)" by fastforce
  have "mdl_caller_slot (me s) (h_slots s) = Some i" using calls_asD(1) [OF c] by (simp add: caller_def)
  then show ?thesis using C_gpio_set r pins_frame_set [OF _ r] by simp
next
  case (C_alloc n)
  then show ?thesis using host_alloc_frame [OF c, of n] ok by (auto simp: with_pins_def call_ok_def pins_frame_def)
next
  case (C_atoi p)
  then show ?thesis using atoi_frame [OF c, of p] by (auto simp: with_pins_def pins_frame_def)
next
  case (C_delay_wake po)
  then show ?thesis using gated_frames(3) [OF c, of po] ok by (simp add: with_pins_def call_ok_def pins_frame_def)
next
  case C_uptime_ms
  then show ?thesis using gated_frames(5) [OF c] by (cases "host_uptime_ms s") (simp add: with_pins_def pins_frame_def)
next
  case C_cycles
  then show ?thesis using gated_frames(7) [OF c] by (cases "host_cycles s") (simp add: with_pins_def pins_frame_def)
qed (use gated_frames(2,4,6) [OF c] with_int_frame fed_frames [OF c] in
  \<open>simp_all add: with_pins_def pins_frame_def host_i2c_write_def host_i2c_read_def host_i2c_write_read_def host_uart_config_def
     host_uart_write_def host_uart_read_def host_uart_loopback_def host_adc_read_def host_adc_read_mv_def host_spi_config_def
     host_spi_transfer_def with_int_def split: prod.split\<close>)

end
