(* ===== verification/Supervisor_Examples.thy ===== *)
theory Supervisor_Examples
  imports Supervisor_Push
begin

text \<open>
  The supervisor after boot, a pushed image that runs, and the properties applied to it.
\<close>

section \<open>A board\<close>

text \<open>The converter gets ready, every task is created, the store is empty.\<close>

definition vend0 :: vendor where
  "vend0 = \<lparr>v_apb1 = 144000000, v_i2c_tx = (\<lambda>_. I2C_OK), v_i2c_rx = (\<lambda>_. (I2C_OK, [])), v_flag = (\<lambda>_ f _ _. f = ''RDY''),
     v_data = (\<lambda>_. 0), v_conv = (\<lambda>_. 0)\<rparr>"

definition brd0 :: board where
  "brd0 = \<lparr>vend = vend0, create_task = (\<lambda>hs _. Some (Suc (foldr max hs 0))), persist_count = (\<lambda>_. 1),
     persist_entry = (\<lambda>_ _. Some (IMG, IMG_LEN)), persist_save = (\<lambda>_ _. True), persist_forget = (\<lambda>_. True)\<rparr>"

definition devs0 :: devs where
  "devs0 = \<lparr>d_tx = [], d_ops = [], d_i2c = g_buses, d_uart = g_uarts, d_adc = g_chans, s_adc_up = False, d_spi = g_spis\<rparr>"

text \<open>The zeroed RAM of the C runtime, with the image in the receive buffer, before \<open>mdl_supervisor_init\<close>.\<close>

definition reset_sup :: sup where
  "reset_sup = \<lparr>h_slots = g_mdl_slots, h_mem = snd img_st, me = 0, tick = 0, cyccnt = 0, privileged = True,
     h_ev = \<lparr>s_evt = replicate 4 zero_evt_slot, s_pin_slot = replicate 32 0, exint_on = {}, nvic_on = {}, woken = []\<rparr>,
     s_cmd_argc = 0, s_cmd_argv = 0, h_devs = devs0, u_buddy = fst img_st,
     u_gpio = \<lparr>g_mode = (\<lambda>_. PM_INPUT), g_out = (\<lambda>_. False), g_in = (\<lambda>_. False)\<rparr>,
     u_fault = \<lparr>f_occurred = False, f_pc = 0, f_lr = 0, f_mmfar = 0, f_cfsr = 0, f_text_offset = 0\<rparr>,
     u_deleted = [], u_store = [], s_supervisor_handle = 0, u_given = [],
     u_proto = proto_init, u_line = \<lparr>s_line = [], s_ready_line = [], s_line_ready = False, s_last_was_cr = False, s_con_handle = False\<rparr>, u_swtrg = []\<rparr>"

abbreviation sup0 :: sup where "sup0 \<equiv> mdl_supervisor_init 2 reset_sup"

lemma sup0_fields: "h_slots sup0 = g_mdl_slots" "(u_buddy sup0, h_mem sup0) = img_st" "h_ev sup0 = ev0" "h_devs sup0 = devs0"
    "tick sup0 = 0" "u_store sup0 = []"
  by (simp_all add: mdl_supervisor_init_def reset_sup_def ev0_def)

lemma devs0_inv: "devs_inv devs0"
  by (simp add: devs_inv_def devs0_def i2c_inv_def uart_inv_def adc_inv_def spi_inv_def g_buses_def g_uarts_def g_chans_def g_spis_def
      uart_row_def adc_row_def ring_ok_def)

lemma sup0_inv: "sup_inv sup0"
proof -
  have "arena_inv g_mdl_slots img_st" unfolding img_st_def by (rule arena_inv_init [OF pool_ok_ARENA])
  moreover have "pins_exclusive g_mdl_slots" "empty_free g_mdl_slots" "length g_mdl_slots = 4"
    by (simp_all add: pins_exclusive_def empty_free_def g_mdl_slots_def)
  moreover have "armed_ok g_mdl_slots ev0" by (simp add: armed_ok_def ev0_slots)
  ultimately show ?thesis by (simp only: sup_inv_def sup0_fields ev0_inv devs0_inv)
qed

lemma brd0_answers: "board_answers brd0" "tasks_start brd0"
proof -
  have up: "\<exists>d'. adc_bring_up vend0 d = Some d'" for d
    using adc_bring_up_returns [of vend0 d] by (cases "adc_bring_up vend0 d") (auto simp: vend0_def)
  have "host_adc_claim vend0 n d \<noteq> None" for n d
  proof (cases "chan_lookup n d")
    case (Some i)
    let ?c = "d_adc d ! i"
    obtain d' where "adc_bring_up vend0 (hw [Clock (ac_gpio_clock ?c) True, PinInit [ac_pin ?c] FUNC_ANALOG OUT_DEFAULT PULL_NONE]
        (if \<not> ac_confirmed ?c then say [puts ''[host] adc: channel pin mapping not example-confirmed'', crlf] d else d)) = Some d'"
      using up by blast
    then show ?thesis using Some by (cases "ac_claimed ?c"; cases "ac_confirmed ?c") (simp_all add: host_adc_claim_def Let_def)
  qed (simp add: host_adc_claim_def)
  then have "host_claim vend0 p d \<noteq> None" for p d by (cases p) (simp add: host_claim_def del: not_None_eq)
  then show "board_answers brd0" by (simp add: board_answers_def brd0_def)
  show "tasks_start brd0" by (simp add: tasks_start_def brd0_def)
qed

section \<open>A module that runs\<close>

lemma img_names: "cstr (hd_name (read_header (snd img_st) IMG)) = []" "cstr (hd_cmd_name (read_header (snd img_st) IMG)) = []"
proof -
  have "image_header ! 72 = 0" "image_header ! 56 = 0" by (simp_all add: image_header_def le32_bytes_def byte_of_def)
  then have z: "snd img_st (IMG + 72) = 0" "snd img_st (IMG + 56) = 0" using img_byte [of 72] img_byte [of 56] by simp_all
  show "cstr (hd_name (read_header (snd img_st) IMG)) = []" "cstr (hd_cmd_name (read_header (snd img_st) IMG)) = []"
    using z by (simp_all add: read_header_def mem_read_def upt_rec)
qed

lemma sup0_push: "find_slot_by_name n (h_slots sup0) = None" "find_slot_by_command n (h_slots sup0) = None"
    "find_free_slot (h_slots sup0) = Some 0"
proof -
  have e: "m_state m = SLOT_EMPTY" if "m \<in> set (h_slots sup0)" for m using that by (simp add: sup0_fields g_mdl_slots_def)
  then show "find_slot_by_name n (h_slots sup0) = None" "find_slot_by_command n (h_slots sup0) = None"
    by (auto simp: find_slot_by_name_def find_slot_by_command_def find_idx_None)
  show "find_free_slot (h_slots sup0) = Some 0"
    unfolding sup0_fields g_mdl_slots_def find_free_slot_def by (simp add: numeral_eq_Suc)
qed

lemma sup0_image: "image_ok (u_buddy sup0, h_mem sup0) IMG IMG_LEN" "h_mem sup0 = snd img_st"
  using img_ok sup0_fields(2) by (metis, metis snd_conv)

lemma sup0_loads: "\<exists>s. load_at 0 IMG IMG_LEN sup0 = Some (LOAD_OK, [], s)"
  using img_loads unfolding load_at_def sup0_fields by auto

definition pushed :: sup where
  "pushed = the (handle_load brd0 IMG IMG_LEN False sup0)"

lemma pushed: "handle_load brd0 IMG IMG_LEN False sup0 = Some pushed" "sup_inv pushed" "m_state (h_slots pushed ! 0) = SLOT_RUNNING"
proof -
  obtain s where l: "load_at 0 IMG IMG_LEN sup0 = Some (LOAD_OK, [], s)" using sup0_loads by blast
  have z: "m_state (h_slots sup0 ! 0) = SLOT_EMPTY" by (simp add: sup0_fields g_mdl_slots_def)
  obtain m where e: "sup_inv s" "h_slots s = (h_slots sup0)[0 := set_entries (read_header (h_mem sup0) IMG) m]"
    using load_at_effect [OF sup0_inv _ z sup0_image(1)] l by auto
  have st: "m_state (h_slots s ! 0) = SLOT_LOADED" by (simp add: e(2) sup0_fields(1) g_mdl_slots_def set_entries_name)
  obtain s3 h where 3: "start_loaded_module brd0 0 s = Some (True, s3)" "sup_inv s3" "h_slots s3 = (h_slots s)[0 := running h (tick s) (h_slots s ! 0)]"
    using start_loaded_effect [OF e(1) _ st brd0_answers(1)] by (auto simp: brd0_def)
  have v: "mdl_load_validate (Some 0) IMG IMG_LEN ABI_VERSION ARCH_ARMV7M (h_slots sup0) (u_buddy sup0, h_mem sup0) = Some (LOAD_OK, [])"
    using l load_accepted by (auto simp: load_at_def split: option.splits)
  have run: "handle_load brd0 IMG IMG_LEN False sup0 = Some (respond RESP_OK [] 0 s3)"
    using v l 3(1) by (simp add: handle_load_def sup0_push command_taken_def Let_def replace_with_def del: One_nat_def)
  then have p: "pushed = respond RESP_OK [] 0 s3" by (simp add: pushed_def)
  then show "handle_load brd0 IMG IMG_LEN False sup0 = Some pushed" using run by simp
  note f = prints_fields [OF prints_respond]
  show "sup_inv pushed" unfolding p using 3(2) sup_inv_prints [OF prints_respond] by simp
  show "m_state (h_slots pushed ! 0) = SLOT_RUNNING" unfolding p f by (simp add: 3(3) e(2) sup0_fields(1) g_mdl_slots_def)
qed

section \<open>Witnesses\<close>

theorem reclaim_slot_complete_witness:
  "\<exists>s'. reclaim_slot 0 pushed = Some s' \<and> gone 0 (h_slots pushed ! 0) s' \<and> m_state (h_slots pushed ! 0) = SLOT_RUNNING"
  using reclaim_slot_complete [OF pushed(2), of 0] pushed(3) by auto

theorem watchdog_round_exact_witness:
  "\<exists>s'. check_slots [0 ..< MAX_SLOTS] (upd_module 0 (\<lambda>m. m\<lparr>m_state := SLOT_FAULTED\<rparr>) pushed) = Some s'
     \<and> m_state (h_slots s' ! 0) = SLOT_EMPTY"
proof -
  let ?s = "upd_module 0 (\<lambda>m. m\<lparr>m_state := SLOT_FAULTED\<rparr>) pushed"
  have inv: "sup_inv ?s" by (rule sup_inv_upd [OF pushed(2)]) (simp_all add: pushed(3) claims_def regions_of_def)
  have len: "0 < length (h_slots pushed)" using pushed(2) by (simp add: sup_inv_def)
  obtain s' where r: "check_slots [0 ..< MAX_SLOTS] ?s = Some s'"
    "\<forall>j < MAX_SLOTS. if overdue (tick ?s) (h_slots ?s ! j) then gone j (h_slots ?s ! j) s' else slot_kept j ?s s'"
    using watchdog_round_exact [OF inv] by blast
  have "overdue (tick ?s) (h_slots ?s ! 0)" using len by (simp add: overdue_def upd_module_def)
  moreover have "(0 :: nat) < 4" by simp
  ultimately have "gone 0 (h_slots ?s ! 0) s'" using r(2) by metis
  then show ?thesis using r(1) by (auto simp: gone_def simp del: check_slots.simps upt_Suc)
qed

theorem unload_returns_everything_witness:
  "\<exists>s'. handle_unload pushed = Some s' \<and> mdl_buddy_stats (u_buddy s', h_mem s') = Some (2 ^ 17, 2 ^ 17)"
  using unload_returns_everything [OF pushed(2)] by blast





end
