(* ===== verification/Supervisor_Run.thy ===== *)
theory Supervisor_Run
  imports Console_Safety Supervisor_Examples
begin

text \<open>
  The loop of \<open>mdl_supervisor_run\<close>: the watchdog, then a frame, then a typed line, for ever. Whatever arrives, every
  iteration comes to its end and leaves the system consistent.
\<close>

section \<open>One iteration\<close>

definition serve_frame :: "board \<Rightarrow> addr \<Rightarrow> sup \<Rightarrow> sup option" where
  "serve_frame brd rxbuf s =
     (case mdl_proto_take_frame (u_proto s) of
        (None, p) \<Rightarrow> Some (s\<lparr>u_proto := p\<rparr>)
      | (Some (cmd, payload), p) \<Rightarrow> dispatch_frame brd rxbuf cmd payload (s\<lparr>u_proto := p\<rparr>))"

definition serve_line :: "board \<Rightarrow> board_info \<Rightarrow> (nat \<Rightarrow> sup \<Rightarrow> sup) \<Rightarrow> sup \<Rightarrow> sup option" where
  "serve_line brd fw rest s =
     (case mdl_console_take_line (u_line s) of
        (None, l) \<Rightarrow> Some (s\<lparr>u_line := l\<rparr>)
      | (Some line, l) \<Rightarrow> mdl_console_execute brd fw rest line (s\<lparr>u_line := l\<rparr>))"

definition supervisor_iter :: "board \<Rightarrow> board_info \<Rightarrow> (nat \<Rightarrow> sup \<Rightarrow> sup) \<Rightarrow> addr \<Rightarrow> sup \<Rightarrow> sup option" where
  "supervisor_iter brd fw rest rxbuf s = do {
     s1 \<leftarrow> check_slots [0 ..< MAX_SLOTS] s;
     s2 \<leftarrow> serve_frame brd rxbuf s1;
     serve_line brd fw rest s2
   }"

text \<open>\<open>env k\<close> is what the interrupts and the other tasks do while the supervisor waits before iteration \<open>k\<close>.\<close>

fun mdl_supervisor_run :: "board \<Rightarrow> board_info \<Rightarrow> (nat \<Rightarrow> sup \<Rightarrow> sup) \<Rightarrow> addr \<Rightarrow> (nat \<Rightarrow> sup \<Rightarrow> sup) \<Rightarrow> nat \<Rightarrow> sup \<Rightarrow> sup option" where
  "mdl_supervisor_run brd fw rest rxbuf env 0 s = Some s"
| "mdl_supervisor_run brd fw rest rxbuf env (Suc n) s = do {
     s1 \<leftarrow> mdl_supervisor_run brd fw rest rxbuf env n s;
     supervisor_iter brd fw rest rxbuf (env n s1)
   }"

section \<open>What arrives\<close>

text \<open>The receive buffer lies outside the arena, and a pushed image is one the loader's reads stay inside of.\<close>

definition frame_ok :: "addr \<Rightarrow> sup \<Rightarrow> bool" where
  "frame_ok rxbuf s \<longleftrightarrow> {rxbuf ..< rxbuf + unat MDL_PROTO_MAX_PAYLOAD} \<inter> pool_of (u_buddy s, h_mem s) = {}
     \<and> (case fst (mdl_proto_take_frame (u_proto s)) of None \<Rightarrow> True
        | Some (cmd, payload) \<Rightarrow> length payload \<le> unat MDL_PROTO_MAX_PAYLOAD \<and>
            (cmd = CMD_LOAD \<or> cmd = CMD_LOAD_PERSIST \<longrightarrow>
               image_ok (u_buddy s, mem_write rxbuf payload (h_mem s)) rxbuf (length payload)))"

text \<open>No self-check of the allocator while modules may be resident.\<close>

definition line_ok :: "sup \<Rightarrow> bool" where
  "line_ok s \<longleftrightarrow> (case fst (mdl_console_take_line (u_line s)) of None \<Rightarrow> True | Some line \<Rightarrow> \<not> typed line ''buddy'')"

section \<open>The receive buffer\<close>

text \<open>A write outside the arena does not disturb the free lists, which live inside it.\<close>

lemma outside_write_buddy:
  assumes ok: "buddy_ok (b, m)" and same: "\<And>x. x \<in> pool_of (b, m) \<Longrightarrow> m' x = m x"
  shows "buddy_ok (b, m')"
proof -
  obtain F where inv: "buddy_inv (s_base b) b m F {}" using ok by (rule buddy_okE)
  have nx: "next_of m' x = next_of m x" if "x \<in> set (F j)" for x j
  proof -
    have fx: "(j, x) \<in> frees F \<union> lives b \<union> {}" using that by (simp add: frees_mem)
    note bl = buddy_inv_block [OF inv fx]
    have "(2 :: nat) ^ 2 \<le> 2 ^ j" using bl(1) by (intro power_increasing) auto
    then have "m' y = m y" if "y \<in> {x, x + 1, x + 2, x + 3}" for y
      using that bl(4,5) by (intro same) (auto simp: pool_of_def)
    then show ?thesis by (simp add: next_of_def ld32_def)
  qed
  have "chain m' h (F j) = chain m h (F j)" for h j by (rule chain_frame) (rule nx)
  then have "buddy_inv (s_base b) b m' F {}" using inv by (simp add: buddy_inv_def buddy_rep_def)
  then show ?thesis using buddy_okI by blast
qed

lemma outside_write_ok:
  assumes ok: "sup_ok B s" and out: "{a ..< a + length bs} \<inter> pool_of (u_buddy s, h_mem s) = {}"
  shows "sup_ok B (s\<lparr>h_mem := mem_write a bs (h_mem s)\<rparr>)"
proof -
  let ?mm = "mem_write a bs (h_mem s)"
  have bo: "buddy_ok (u_buddy s, h_mem s)" using ok by (simp add: sup_ok_def sup_inv_def arena_inv_def)
  have "buddy_ok (u_buddy s, ?mm)"
    by (rule outside_write_buddy [OF bo]) (use out in \<open>auto simp: mem_write_def\<close>)
  moreover have "live_regions (u_buddy s, ?mm) = live_regions (u_buddy s, h_mem s)" by (simp add: live_regions_def live_blocks_def)
  ultimately show ?thesis using ok by (simp add: sup_ok_def sup_inv_def arena_inv_def)
qed

text \<open>Whether an image is readable depends on its own bytes.\<close>

lemma image_ok_bytes:
  assumes ok: "image_ok st img len" and pool: "pool_of st' = pool_of st"
    and mem: "\<And>x. img \<le> x \<Longrightarrow> x < img + max HDR_SIZE len \<Longrightarrow> snd st' x = snd st x"
  shows "image_ok st' img len"
proof -
  let ?h = "read_header (snd st) img"
  have h: "read_header (snd st') img = ?h" by (rule read_header_cong) (auto intro: mem)
  have r: "reloc_off ?h + 8 * reloc_count ?h \<le> len - HDR_SIZE" using ok by (simp add: image_ok_def Let_def)
  have "reloc_entries (snd st') (img + HDR_SIZE + reloc_off ?h) (reloc_count ?h) = reloc_entries (snd st) (img + HDR_SIZE + reloc_off ?h) (reloc_count ?h)"
    by (rule reloc_entries_cong) (use r in \<open>auto intro: mem\<close>)
  then show ?thesis using ok pool unfolding image_ok_def Let_def h by simp
qed

section \<open>The loop\<close>

lemma sup_ok_buffers:
  assumes "sup_ok B s" "frame_ok rxbuf s" "line_ok s"
  shows "\<exists>s1. check_slots [0 ..< MAX_SLOTS] s = Some s1 \<and> sup_ok B s1 \<and> frame_ok rxbuf s1 \<and> line_ok s1"
proof -
  obtain s1 where 1: "check_slots [0 ..< MAX_SLOTS] s = Some s1" "sup_ok B s1" using check_slots_ok [OF assms(1)] by blast
  have k: "keeps_rest (u_buddy s, h_mem s) (u_buddy s1, h_mem s1)" "u_line s1 = u_line s" "u_proto s1 = u_proto s"
    using check_slots_rest [OF sup_ok_inv(1) [OF assms(1)] all_slots 1(1)] by blast+
  have pool: "pool_of (u_buddy s1, h_mem s1) = pool_of (u_buddy s, h_mem s)"
    and mem: "\<And>x. x \<notin> pool_of (u_buddy s, h_mem s) \<Longrightarrow> h_mem s1 x = h_mem s x"
    using k(1) by (simp_all add: keeps_rest_def)
  have pool': "pool_of (b, m) = pool_of (b, m')" for b m m' by (simp add: pool_of_def)
  have img: "image_ok (u_buddy s1, mem_write rxbuf p (h_mem s1)) rxbuf (length p)"
    if "image_ok (u_buddy s, mem_write rxbuf p (h_mem s)) rxbuf (length p)"
      "length p \<le> unat MDL_PROTO_MAX_PAYLOAD" for p
  proof (rule image_ok_bytes [OF that(1)])
    show "pool_of (u_buddy s1, mem_write rxbuf p (h_mem s1)) = pool_of (u_buddy s, mem_write rxbuf p (h_mem s))"
      using pool by (simp add: pool_of_def)
    fix x assume x: "rxbuf \<le> x" "x < rxbuf + max HDR_SIZE (length p)"
    have "x \<in> {rxbuf ..< rxbuf + unat MDL_PROTO_MAX_PAYLOAD}" using x that(2) by (auto simp: MDL_PROTO_MAX_PAYLOAD_def)
    then have "x \<notin> pool_of (u_buddy s, h_mem s)" using assms(2) unfolding frame_ok_def by blast
    then show "snd (u_buddy s1, mem_write rxbuf p (h_mem s1)) x = snd (u_buddy s, mem_write rxbuf p (h_mem s)) x"
      using mem [of x] by (simp add: mem_write_def)
  qed
  have "frame_ok rxbuf s1" using assms(2) img unfolding frame_ok_def k(3) pool by (auto split: option.splits)
  moreover have "line_ok s1" using assms(3) by (simp add: line_ok_def k(2))
  ultimately show ?thesis using 1 by blast
qed

lemma serve_frame_ok:
  assumes ok: "sup_ok B s" and fr: "frame_ok rxbuf s" and ans: "board_answers brd" "tasks_start brd"
  shows "\<exists>s'. serve_frame brd rxbuf s = Some s' \<and> sup_ok B s' \<and> u_line s' = u_line s"
proof (cases "mdl_proto_take_frame (u_proto s)")
  case (Pair fo p)
  show ?thesis
  proof (cases fo)
    case None
    then show ?thesis using ok Pair by (simp add: serve_frame_def)
  next
    case (Some f)
    obtain cmd payload where f: "f = (cmd, payload)" by fastforce
    define t where "t = s\<lparr>u_proto := p, h_mem := mem_write rxbuf payload (h_mem s)\<rparr>"
    have len: "length payload \<le> unat MDL_PROTO_MAX_PAYLOAD"
      and img: "cmd = CMD_LOAD \<or> cmd = CMD_LOAD_PERSIST \<Longrightarrow> image_ok (u_buddy t, h_mem t) rxbuf (length payload)"
      using fr Pair Some f by (auto simp: frame_ok_def t_def)
    have "{rxbuf ..< rxbuf + unat MDL_PROTO_MAX_PAYLOAD} \<inter> pool_of (u_buddy s, h_mem s) = {}" using fr by (simp only: frame_ok_def)
    moreover have "{rxbuf ..< rxbuf + length payload} \<subseteq> {rxbuf ..< rxbuf + unat MDL_PROTO_MAX_PAYLOAD}" using len by auto
    ultimately have "{rxbuf ..< rxbuf + length payload} \<inter> pool_of (u_buddy s, h_mem s) = {}" by blast
    then have "sup_ok B (s\<lparr>u_proto := p\<rparr>\<lparr>h_mem := mem_write rxbuf payload (h_mem (s\<lparr>u_proto := p\<rparr>))\<rparr>)"
      by (intro outside_write_ok) (use ok in simp_all)
    then have t: "sup_ok B t" by (simp add: t_def)
    obtain s1 where 1: "reclaim_used [0 ..< MAX_SLOTS] t = Some s1" "sup_ok B s1" using reclaim_used_ok [OF t] by blast
    have st: "sup_ok B (handle_status t)" using sup_ok_prints [OF prints_respond] t by (simp add: handle_status_def Let_def)
    have un: "\<exists>s'. handle_unload t = Some s' \<and> sup_ok B s'"
      using 1 sup_ok_prints [OF prints_respond] by (simp add: handle_unload_def del: upt_Suc reclaim_used.simps)
    have run: "serve_frame brd rxbuf s =
        (if cmd = CMD_LOAD then handle_load brd rxbuf (length payload) False t
         else if cmd = CMD_LOAD_PERSIST then handle_load brd rxbuf (length payload) True t
         else if cmd = CMD_UNLOAD then handle_unload t else if cmd = CMD_STATUS then Some (handle_status t) else Some t)"
      using Pair Some f by (simp only: serve_frame_def dispatch_frame_def t_def Let_def option.case prod.case) simp
    have ld: "cmd = CMD_LOAD \<or> cmd = CMD_LOAD_PERSIST \<Longrightarrow> \<exists>s'. handle_load brd rxbuf (length payload) b t = Some s' \<and> sup_ok B s'" for b
      using handle_load_ok [OF t ans img] by blast
    have "\<exists>s'. serve_frame brd rxbuf s = Some s' \<and> sup_ok B s'" unfolding run using ld st un t by simp
    moreover have "u_line s' = u_line s" if "serve_frame brd rxbuf s = Some s'" for s'
      using that Pair Some f dispatch_line by (fastforce simp: serve_frame_def)
    ultimately show ?thesis by blast
  qed
qed

lemma iter_ok:
  assumes "sup_ok B s" "frame_ok rxbuf s" "line_ok s" "board_answers brd" "tasks_start brd" "\<And>k s. sup_ok B s \<Longrightarrow> sup_ok B (rest k s)"
  shows "\<exists>s'. supervisor_iter brd fw rest rxbuf s = Some s' \<and> sup_ok B s'"
proof -
  obtain s1 where 1: "check_slots [0 ..< MAX_SLOTS] s = Some s1" "sup_ok B s1" "frame_ok rxbuf s1" "line_ok s1"
    using sup_ok_buffers [OF assms(1-3)] by blast
  obtain s2 where 2: "serve_frame brd rxbuf s1 = Some s2" "sup_ok B s2" "u_line s2 = u_line s1"
    using serve_frame_ok [OF 1(2,3) assms(4,5)] by blast
  have "\<exists>s'. serve_line brd fw rest s2 = Some s' \<and> sup_ok B s'"
  proof (cases "mdl_console_take_line (u_line s2)")
    case (Pair lo l)
    show ?thesis
    proof (cases lo)
      case None
      then show ?thesis using Pair 2(2) by (simp add: serve_line_def)
    next
      case (Some line)
      then have "\<not> typed line ''buddy''" using 1(4) Pair by (simp add: line_ok_def 2(3) [symmetric])
      then have "\<exists>s'. mdl_console_execute brd fw rest line (s2\<lparr>u_line := l\<rparr>) = Some s' \<and> sup_ok B s'"
        using 2(2) assms(6) by (intro execute_outcome) simp_all
      then show ?thesis using Pair Some by (simp add: serve_line_def)
    qed
  qed
  then show ?thesis using 1(1) 2(1) by (simp add: supervisor_iter_def del: check_slots.simps upt_Suc)
qed

text \<open>The supervisor never stops and never corrupts the system. Whatever frames and lines arrive, and whatever the modules and
  interrupts do in between as long as they leave the invariant alone, every iteration of its loop comes to an end, and after
  any number of them the slots still hold exactly the live memory, no pin has two owners, and the interrupt lines and
  the drivers agree with the slots.\<close>

theorem supervisor_runs_forever:
  assumes "sup_ok B s" "board_answers brd" "tasks_start brd" "\<And>k s. sup_ok B s \<Longrightarrow> sup_ok B (rest k s)"
    "\<And>k s. sup_ok B s \<Longrightarrow> sup_ok B (env k s) \<and> frame_ok rxbuf (env k s) \<and> line_ok (env k s)"
  shows "\<exists>s'. mdl_supervisor_run brd fw rest rxbuf env n s = Some s' \<and> sup_ok B s'"
proof (induction n)
  case 0
  then show ?case using assms(1) by simp
next
  case (Suc n)
  then obtain s1 where "mdl_supervisor_run brd fw rest rxbuf env n s = Some s1" "sup_ok B s1" by blast
  then show ?case using iter_ok [OF _ _ _ assms(2,3), of B "env n s1" rxbuf rest fw] assms(4,5) by simp
qed

section \<open>Applied\<close>

text \<open>The board after boot is pushed the example image, then asked for its status while an UNLOAD frame arrives.\<close>

definition env0 :: "nat \<Rightarrow> sup \<Rightarrow> sup" where
  "env0 k s = s\<lparr>u_proto := proto_init\<lparr>s_frame_ready := k < 2, s_ready_cmd := if k = 0 then CMD_LOAD else CMD_UNLOAD,
       s_ready_len := if k = 0 then of_nat IMG_LEN else 0, s_payload := \<lambda>i. snd img_st (IMG + i)\<rparr>,
     u_line := \<lparr>s_line = [], s_ready_line = ascii ''status'', s_line_ready = k = 1, s_last_was_cr = False, s_con_handle = True\<rparr>\<rparr>"

lemma sup0_ok: "sup_ok ARENA sup0"
proof -
  have "loaded_ok (h_slots sup0)" by (simp add: loaded_ok_def sup0_fields(1) g_mdl_slots_def)
  moreover have "s_base (fst img_st) = ARENA" using init_inv(4) [OF pool_ok_ARENA] by (simp add: img_st_def)
  ultimately show ?thesis using sup0_inv sup0_fields(2) by (auto simp: sup_ok_def dest: arg_cong [where f = fst])
qed

lemma not_buddy: "\<not> typed (ascii ''status'') ''buddy''" "\<not> typed (ascii ''unload'') ''buddy''"
  by code_simp+

lemma env0_ok:
  assumes "sup_ok ARENA s"
  shows "sup_ok ARENA (env0 k s) \<and> frame_ok IMG (env0 k s) \<and> line_ok (env0 k s)"
proof -
  have b: "s_base (u_buddy s) = ARENA" using assms by (simp add: sup_ok_def)
  let ?p = "payload_bytes (u_proto (env0 0 s)) (of_nat IMG_LEN)"
  have n: "length ?p = IMG_LEN" by (simp add: payload_bytes_def)
  have "image_ok (u_buddy s, mem_write IMG ?p (h_mem s)) IMG IMG_LEN"
  proof (rule image_ok_bytes [OF img_ok])
    have "s_base (fst img_st) = ARENA" using init_inv(4) [OF pool_ok_ARENA] by (simp add: img_st_def)
    then show "pool_of (u_buddy s, mem_write IMG ?p (h_mem s)) = pool_of img_st" using b by (simp add: pool_of_def)
    show "snd (u_buddy s, mem_write IMG ?p (h_mem s)) x = snd img_st x" if "IMG \<le> x" "x < IMG + max HDR_SIZE IMG_LEN" for x
    proof -
      have "x - IMG < IMG_LEN" using that by auto
      then have "[0 ..< IMG_LEN] ! (x - IMG) = x - IMG" by simp
      then show ?thesis using that by (simp add: mem_write_def n payload_bytes_def env0_def del: upt_rec_numeral)
    qed
  qed
  then have "frame_ok IMG (env0 k s)"
    using n b by (auto simp: frame_ok_def env0_def mdl_proto_take_frame_def MDL_PROTO_MAX_PAYLOAD_def pool_of_def payload_bytes_def)
  moreover have "line_ok (env0 k s)" using not_buddy by (simp add: line_ok_def env0_def mdl_console_take_line_def)
  ultimately show ?thesis using assms by (simp add: env0_def)
qed

theorem supervisor_runs_forever_witness:
  "\<exists>s'. mdl_supervisor_run brd0 no_board (\<lambda>_ s. s) IMG env0 3 sup0 = Some s' \<and> sup_ok ARENA s'"
  by (rule supervisor_runs_forever [OF sup0_ok brd0_answers _ env0_ok])

lemma pushed_ok: "sup_ok ARENA pushed"
  using handle_load_ok [OF sup0_ok brd0_answers sup0_image(1), of False] pushed(1) by simp


end
