(* ===== verification/Mdl_System.thy ===== *)
theory Mdl_System
  imports Host_Calls Supervisor_Run
begin

text \<open>
  The whole system: modules run unprivileged and call the host, interrupts arrive, bytes come in, and the supervisor goes
  round its loop. The steps of everything but the supervisor are an inductive relation; what they keep is what the supervisor
  relies on, and the other way round.
\<close>

section \<open>A host call on the whole state\<close>

definition call_frame :: "nat \<Rightarrow> sup \<Rightarrow> sup \<Rightarrow> bool" where
  "call_frame i s s' \<longleftrightarrow> (\<exists>m mm d g. s' = s\<lparr>h_slots := (h_slots s)[i := m], h_mem := mm, h_devs := d, u_gpio := g\<rparr>
     \<and> ledger (h_slots s ! i) m \<and> (\<forall>x. x \<notin> own_bytes (h_slots s ! i) \<longrightarrow> mm x = h_mem s x)
     \<and> devs_frame (h_slots s ! i) (h_devs s) d \<and> pins_frame (h_slots s ! i) (u_gpio s) g)"

lemma truncate_fields [simp]:
  "h_slots (dhost.truncate s) = h_slots s" "h_mem (dhost.truncate s) = h_mem s" "me (dhost.truncate s) = me s"
  "h_devs (dhost.truncate s) = h_devs s" "caller (dhost.truncate s) = caller s"
  by (simp_all add: dhost.defs caller_def)

lemma host_call_frame:
  assumes "calls_as i (dhost.truncate s)" "call_ok i c s"
  shows "\<exists>r s'. host_call v c s = Some (r, s') \<and> call_frame i s s'"
proof -
  have "call_ok i c (dhost.truncate s)" using assms(2) by (simp add: call_ok_def heap_intact_def split: host_call.splits)
  then obtain r d g where a: "g_host_api v c (dhost.truncate s, u_gpio s) = Some (r, d, g)" "frame i (dhost.truncate s) d"
    "pins_frame (h_slots s ! i) (u_gpio s) g"
    using host_api_frame [OF assms(1), of c v "u_gpio s"] by auto
  obtain m mm e where d: "d = (dhost.truncate s)\<lparr>h_slots := (h_slots s)[i := m], h_mem := mm, h_devs := e\<rparr>" "ledger (h_slots s ! i) m"
    "\<And>x. x \<notin> own_bytes (h_slots s ! i) \<Longrightarrow> mm x = h_mem s x" "devs_frame (h_slots s ! i) (h_devs s) e"
    using a(2) unfolding frame_def truncate_fields by blast
  have "(dhost.extend d (dhost.more s))\<lparr>u_gpio := g\<rparr> = s\<lparr>h_slots := (h_slots s)[i := m], h_mem := mm, h_devs := e, u_gpio := g\<rparr>"
    unfolding d(1) by (cases s) (simp add: dhost.defs)
  then show ?thesis using a(1,3) d(2-4) by (auto simp: host_call_def on_dhost_def call_frame_def)
qed

text \<open>The drivers' invariant survives, and nothing is opened or closed.\<close>

lemma ports_same:
  assumes "list_all2 (\<lambda>u u'. u' = u \<or> (P u \<and> same_port u u')) us us'"
  shows "map (\<lambda>u. (ub_instance u, ub_periph u)) us' = map (\<lambda>u. (ub_instance u, ub_periph u)) us" "map ub_open us' = map ub_open us"
    "(\<forall>u \<in> set us. ring_ok u) \<Longrightarrow> (\<forall>u \<in> set us'. ring_ok u)" "(\<exists>u \<in> set us'. ub_instance u = n \<and> ub_open u) = (\<exists>u \<in> set us. ub_instance u = n \<and> ub_open u)"
  using assms by (induction rule: list_all2_induct) (auto simp: same_port_def)

lemma spis_same:
  assumes "list_all2 (\<lambda>b b'. b' = b \<or> (P b \<and> same_spi b b')) bs bs'"
  shows "map sb_instance bs' = map sb_instance bs" "(\<exists>b \<in> set bs'. sb_instance b = n \<and> sb_open b) = (\<exists>b \<in> set bs. sb_instance b = n \<and> sb_open b)"
  using assms by (induction rule: list_all2_induct) (auto simp: same_spi_def)

lemma devs_frame_inv:
  assumes "devs_frame m d d'"
  shows "devs_inv d \<Longrightarrow> devs_inv d'" "periph_open p d' = periph_open p d"
proof -
  have f: "d_i2c d' = d_i2c d" "d_adc d' = d_adc d" "s_adc_up d' = s_adc_up d" using assms by (simp_all add: devs_frame_def)
  note u = ports_same [of "\<lambda>u. declares m KIND_UART (ub_instance u)" "d_uart d" "d_uart d'"]
    and b = spis_same [of "\<lambda>b. declares m KIND_SPI (sb_instance b)" "d_spi d" "d_spi d'"]
  have us: "list_all2 (\<lambda>u u'. u' = u \<or> (declares m KIND_UART (ub_instance u) \<and> same_port u u')) (d_uart d) (d_uart d')"
    and bs: "list_all2 (\<lambda>b b'. b' = b \<or> (declares m KIND_SPI (sb_instance b) \<and> same_spi b b')) (d_spi d) (d_spi d')"
    using assms by (simp_all add: devs_frame_def)
  show "periph_open p d' = periph_open p d"
    using u(4) [OF us] b(2) [OF bs] f by (cases p) (simp add: periph_open_def i2c_open_def uart_open_def adc_open_def spi_open_def)
  assume inv: "devs_inv d"
  have "uart_inv d'"
  proof -
    have three: "length (d_uart d) = 3" "length (d_uart d') = 3"
      using inv arg_cong [OF u(2) [OF us], of length] uart_invE [of d] by (force simp: devs_inv_def)+
    then have "ub_open (d_uart d' ! k) = ub_open (d_uart d ! k)" if "k < 3" for k
      using arg_cong [OF u(2) [OF us], of "\<lambda>l. l ! k"] that by simp
    from this [of 0] this [of 1] show ?thesis using inv u(1,3) [OF us] by (simp add: devs_inv_def uart_inv_def)
  qed
  then show "devs_inv d'" using inv b(1) [OF bs] f by (simp add: devs_inv_def i2c_inv_def adc_inv_def spi_inv_def)
qed

section \<open>What keeps the invariant\<close>

lemma caller_slot:
  assumes "sup_ok B s" "caller s = Some i"
  shows "i < MAX_SLOTS" "m_state (h_slots s ! i) \<noteq> SLOT_EMPTY" "arena_held (h_slots s ! i)" "bounds_ok (h_slots s ! i)"
proof -
  have "i < length (h_slots s)" "m_state (h_slots s ! i) \<noteq> SLOT_EMPTY"
    using assms(2) find_idx_Some unfolding caller_def mdl_caller_slot_def by fastforce+
  then show i: "i < MAX_SLOTS" "m_state (h_slots s ! i) \<noteq> SLOT_EMPTY" using assms(1) by (simp_all add: sup_ok_def sup_inv_def)
  show "arena_held (h_slots s ! i)" "bounds_ok (h_slots s ! i)" by (rule sup_ok_slot [OF assms(1) i])+
qed

lemma caller_calls_as:
  assumes "sup_ok B s" "caller s = Some i"
  shows "calls_as i (dhost.truncate s)"
  using caller_slot [OF assms] assms by (simp add: calls_as_def sup_ok_def sup_inv_def)

text \<open>A change of a slot that keeps what the invariant speaks of.\<close>

lemma sup_ok_upd:
  assumes ok: "sup_ok B s" and i: "i < MAX_SLOTS"
    and f: "claims (f (h_slots s ! i)) = claims (h_slots s ! i)" "regions_of (f (h_slots s ! i)) = regions_of (h_slots s ! i)"
    "m_state (f (h_slots s ! i)) = SLOT_EMPTY \<longleftrightarrow> m_state (h_slots s ! i) = SLOT_EMPTY"
    "arena_held (f (h_slots s ! i)) = arena_held (h_slots s ! i)" "bounds_ok (f (h_slots s ! i)) = bounds_ok (h_slots s ! i)"
  shows "sup_ok B (upd_module i f s)"
proof (rule sup_ok_slots [OF _ ok])
  show "sup_inv (upd_module i f s)" by (rule sup_inv_upd) (use sup_ok_inv(1) [OF ok] i f in simp_all)
  show "s_base (u_buddy (upd_module i f s)) = B" using sup_ok_inv(2) [OF ok] by simp
  fix j :: nat assume j: "j < MAX_SLOTS"
  have len: "length (h_slots s) = MAX_SLOTS" using ok by (simp add: sup_ok_def sup_inv_def)
  show "h_slots (upd_module i f s) ! j = h_slots s ! j \<or> m_state (h_slots (upd_module i f s) ! j) = SLOT_EMPTY
      \<or> (arena_held (h_slots (upd_module i f s) ! j) \<and> bounds_ok (h_slots (upd_module i f s) ! j))"
    using sup_ok_slot [OF ok i] f len i by (cases "j = i") auto
qed

lemma own_bytes_regions:
  assumes "arena_held m" "bounds_ok m" "x \<in> own_bytes m"
  shows "\<exists>(lo, hi) \<in> set (regions_of m). lo \<le> x \<and> x < hi"
proof -
  obtain lo hi where "(lo, hi) \<in> user_regions m" "lo \<le> x" "x < hi" using assms(3) by (auto simp: own_bytes_def)
  moreover obtain l h where "(l, h) \<in> set (regions_of m)" "l \<le> lo" "hi \<le> h"
    using user_region_inside [OF assms(1,2) calculation(1)] by blast
  ultimately show ?thesis by (intro bexI [of _ "(l, h)"]) simp_all
qed

lemma own_bytes_ok:
  assumes ok: "sup_ok B s" and c: "caller s = Some i" and same: "\<And>x. x \<notin> own_bytes (h_slots s ! i) \<Longrightarrow> mm x = h_mem s x"
  shows "sup_ok B (s\<lparr>h_mem := mm\<rparr>)"
proof (rule own_write_ok [OF ok caller_slot(1,2) [OF ok c]])
  fix a assume "\<forall>(lo, hi) \<in> set (regions_of (h_slots s ! i)). a < lo \<or> hi \<le> a"
  then show "mm a = h_mem s a" using own_bytes_regions [OF caller_slot(3,4) [OF ok c], of a] by (intro same) force
qed

lemma call_frame_ok:
  assumes ok: "sup_ok B s" and c: "caller s = Some i" and f: "call_frame i s s'"
  shows "sup_ok B s'"
proof -
  obtain m mm d g where s': "s' = s\<lparr>h_slots := (h_slots s)[i := m], h_mem := mm, h_devs := d, u_gpio := g\<rparr>" "ledger (h_slots s ! i) m"
    "\<And>x. x \<notin> own_bytes (h_slots s ! i) \<Longrightarrow> mm x = h_mem s x" "devs_frame (h_slots s ! i) (h_devs s) d"
    using f unfolding call_frame_def by blast
  let ?s1 = "s\<lparr>h_mem := mm\<rparr>"
  have 1: "sup_ok B ?s1" by (rule own_bytes_ok [OF ok c s'(3)])
  have 2: "sup_ok B (upd_module i (\<lambda>_. m) ?s1)"
    by (rule sup_ok_upd [OF 1 caller_slot(1) [OF ok c]])
      (use ledger_fields [OF s'(2)] ledger_same [OF s'(2)] in simp_all)
  have "devs_inv d" using devs_frame_inv(1) [OF s'(4)] ok by (simp add: sup_ok_def sup_inv_def)
  from sup_ok_devs [OF 2 this] have "sup_ok B (upd_module i (\<lambda>_. m) ?s1\<lparr>h_devs := d, u_gpio := g\<rparr>)" by simp
  moreover have "upd_module i (\<lambda>_. m) ?s1\<lparr>h_devs := d, u_gpio := g\<rparr> = s'" using s'(1) by (simp add: upd_module_def)
  ultimately show ?thesis by simp
qed


section \<open>The other steps\<close>

text \<open>What unprivileged code can write: the module's data, heap and stack; its code is read-only.\<close>

definition writable_bytes :: "module \<Rightarrow> addr set" where
  "writable_bytes m = {data_lo m ..< data_hi m} \<union> {hs_lo m ..< hs_lo m + HEAP_SIZE} \<union> {hs_lo m + HEAP_SIZE + GUARD_SIZE ..< hs_hi m}"

text \<open>The gated helpers of the trampoline.\<close>

datatype helper = H_entry | H_ctx | H_cmd nat addr | H_take | H_park | H_wake "nat option" | H_finish_cmd int | H_finished

fun run_helper :: "helper \<Rightarrow> mhost \<Rightarrow> mhost" where
  "run_helper H_entry s = snd (module_task_read_entry s)"
| "run_helper H_ctx s = snd (module_task_read_ctx s)"
| "run_helper (H_cmd argc argv) s = snd (module_task_read_cmd argc argv s)"
| "run_helper H_take s = snd (module_task_take_event s)"
| "run_helper H_park s = snd (wait_park s)"
| "run_helper (H_wake po) s = snd (wait_wake po s)"
| "run_helper (H_finish_cmd ret) s = snd (module_task_finish_cmd ret s)"
| "run_helper H_finished s = snd (module_task_mark_finished s)"

definition on_mhost :: "(mhost \<Rightarrow> mhost) \<Rightarrow> sup \<Rightarrow> sup" where
  "on_mhost f s = mhost.extend (f (mhost.truncate s)) (mhost.more s)"

text \<open>Interrupts.\<close>

datatype irq = Exint2 | Exint3 | Usart2 | Usart3

definition on_events :: "(events \<Rightarrow> events) \<Rightarrow> sup \<Rightarrow> sup" where
  "on_events f s = s\<lparr>h_ev := f (h_ev s)\<rparr>"

fun interrupt :: "vendor \<Rightarrow> irq \<Rightarrow> sup \<Rightarrow> sup" where
  "interrupt v Exint2 s = on_events (EXINT2_IRQHandler (u_gpio s) (tick s) (cyccnt s)) s"
| "interrupt v Exint3 s = on_events (EXINT3_IRQHandler (u_gpio s) (tick s) (cyccnt s)) s"
| "interrupt v Usart2 s = dhost.extend (USART2_IRQHandler v (dhost.truncate s)) (dhost.more s)"
| "interrupt v Usart3 s = dhost.extend (USART3_IRQHandler v (dhost.truncate s)) (dhost.more s)"

text \<open>A MemManage fault with its frame and status; the handler's answer, unless it resets the board.\<close>

definition memmanage :: "u32 \<Rightarrow> u32 list \<Rightarrow> u32 \<Rightarrow> u32 \<Rightarrow> sup \<Rightarrow> sup option" where
  "memmanage trap stacked cfsr mmfar s =
     (let t = mdl_memmanage_handler_c trap \<lparr>fs_slots = h_slots s, fs_info = u_fault s, fs_stacked = stacked, SCB_CFSR = cfsr, SCB_MMFAR = mmfar,
        fs_persisted = None, fs_reset = False, fs_woken = False\<rparr>
      in if fs_reset t then None else Some (s\<lparr>h_slots := fs_slots t, u_fault := fs_info t\<rparr>))"

text \<open>A received byte: the frame parser, and the line editor for what is text.\<close>

definition receive :: "u8 \<Rightarrow> sup \<Rightarrow> sup" where
  "receive b s = (case mdl_proto_rx_byte b (u_proto s) of (p, txt) \<Rightarrow>
     case console_rx txt (u_line s) of (echo, l) \<Rightarrow>
       s\<lparr>u_proto := p, u_line := l, h_devs := mdl_transport_write echo (h_devs s)\<rparr>)"

text \<open>Everything but the supervisor. Unprivileged code writes what its task may write in memory (the theory
  \<open>Task_Mpu\<close> derives this from the registers; stores to peripheral registers, which they let through, are not steps here); it may
  call the host, and the trampoline's helpers, at any time.\<close>

inductive world :: "vendor \<Rightarrow> sup \<Rightarrow> sup \<Rightarrow> bool" for v where
  switch: "world v s (s\<lparr>me := h, privileged := p\<rparr>)"
| clock: "world v s (s\<lparr>tick := t, cyccnt := c\<rparr>)"
| code: "caller s = Some i \<Longrightarrow> (\<And>x. x \<notin> writable_bytes (h_slots s ! i) \<Longrightarrow> mm x = h_mem s x) \<Longrightarrow> world v s (s\<lparr>h_mem := mm\<rparr>)"
| call: "caller s = Some i \<Longrightarrow> call_ok i c s \<Longrightarrow> host_call v c s = Some (r, s') \<Longrightarrow> world v s s'"
| helper: "caller s = Some i \<Longrightarrow> (\<And>po. h = H_wake po \<Longrightarrow> po = None \<or> po = Some i) \<Longrightarrow> world v s (on_mhost (run_helper h) s)"
| irq: "world v s (interrupt v q s)"
| fault: "memmanage trap stacked cfsr mmfar s = Some s' \<Longrightarrow> world v s s'"
| byte: "world v s (receive b s)"

inductive_cases world_elims: "world v s s'"

section \<open>They keep the invariant\<close>

definition events_same :: "events \<Rightarrow> events \<Rightarrow> bool" where
  "events_same ev ev' \<longleftrightarrow> s_pin_slot ev' = s_pin_slot ev \<and> length (s_evt ev') = length (s_evt ev)
     \<and> (\<forall>j. armed_lines (s_evt ev' ! j) = armed_lines (s_evt ev ! j))"

lemma events_same_ok: "sup_ok B s \<Longrightarrow> events_same (h_ev s) ev \<Longrightarrow> sup_ok B (s\<lparr>h_ev := ev\<rparr>)"
  using events_inv_cong [of "h_ev s" ev] by (simp add: sup_ok_def sup_inv_def armed_ok_def events_same_def)

lemma events_same_wake [simp]: "events_same ev (wake k e) = events_same ev e"
  by (simp add: events_same_def wake_def)

lemma events_same_upd:
  assumes "armed_lines (f (s_evt ev ! j)) = armed_lines (s_evt ev ! j)"
  shows "events_same ev (ev\<lparr>s_evt := (s_evt ev)[j := f (s_evt ev ! j)]\<rparr>)"
proof -
  have "armed_lines ((s_evt ev)[j := f (s_evt ev ! j)] ! n) = armed_lines (s_evt ev ! n)" for n
    using assms by (cases "j < length (s_evt ev)"; cases "n = j") (simp_all add: list_update_beyond)
  then show ?thesis by (simp add: events_same_def)
qed

lemma post_event_lines: "armed_lines (post_event src sid payload now cyc e) = armed_lines e"
  by (simp add: post_event_def roll_window_def enqueue_def Let_def split: option.split)

lemma post_isr_same: "events_same ev (post_from_isr k src sid payload now cyc ev)"
proof (cases "slot_ok k")
  case True
  then show ?thesis
    using events_same_upd [of "post_event src sid payload now cyc" ev "nat k"] by (simp add: post_from_isr_def upd_slot_def post_event_lines)
qed (simp add: post_from_isr_def events_same_def)

lemma post_uart_same: "events_same ev (mdl_events_post_uart ms n w now cyc ev)"
  using post_isr_same by (auto simp: mdl_events_post_uart_def events_same_def split: option.split)

lemma dequeue_lines: "armed_lines (snd (dequeue e)) = armed_lines e"
  by (simp add: dequeue_def)

lemma take_same:
  "mdl_events_take m ms ev = (r, ev') \<Longrightarrow> events_same ev ev'"
proof (cases "mdl_caller_slot m ms")
  case (Some j)
  assume "mdl_events_take m ms ev = (r, ev')"
  then have "ev' = ev\<lparr>s_evt := (s_evt ev)[j := snd (dequeue (s_evt ev ! j))]\<rparr>"
    using Some by (auto simp: mdl_events_take_def Let_def split: prod.splits)
  then show ?thesis using events_same_upd [of "\<lambda>e. snd (dequeue e)" ev j, OF dequeue_lines] by simp
qed (simp add: mdl_events_take_def events_same_def)

text \<open>The helpers, on the whole state.\<close>

lemma mhost_fields [simp]:
  "caller (mhost.truncate s) = caller s" "h_slots (mhost.truncate s) = h_slots s" "me (mhost.truncate s) = me s"
  "tick (mhost.truncate s) = tick s" "privileged (mhost.truncate s) = privileged s" "h_ev (mhost.truncate s) = h_ev s"
  by (simp_all add: mhost.defs caller_def)

lemma extend_truncate [simp]:
  "mhost.extend (mhost.truncate s) (mhost.more s) = s"
  "mhost.extend ((mhost.truncate s)\<lparr>h_slots := ms\<rparr>) (mhost.more s) = s\<lparr>h_slots := ms\<rparr>"
  "mhost.extend ((mhost.truncate s)\<lparr>h_ev := ev\<rparr>) (mhost.more s) = s\<lparr>h_ev := ev\<rparr>"
  by (cases s; simp add: mhost.defs)+

lemma gate_same:
  assumes "body (s\<lparr>privileged := True\<rparr>) = (r, t\<lparr>privileged := True\<rparr>)" "privileged t = privileged s"
  shows "syscall_gate body s = (r, t)"
  using assms by (cases t) (simp add: syscall_gate_def xPortRaisePrivilege_def vPortResetPrivilege_def)

lemma helper_runs:
  assumes "caller s = Some i"
  shows "on_mhost (run_helper H_entry) s = s" "on_mhost (run_helper H_ctx) s = s" "on_mhost (run_helper (H_cmd n a)) s = s"
    "on_mhost (run_helper H_take) s = s\<lparr>h_ev := snd (mdl_events_take (me s) (h_slots s) (h_ev s))\<rparr>"
    "on_mhost (run_helper H_park) s = upd_module i (\<lambda>m. m\<lparr>parked_until_tick := PARKED_FOREVER\<rparr>) s"
    "on_mhost (run_helper (H_wake None)) s = s"
    "on_mhost (run_helper (H_wake (Some i))) s = upd_module i (\<lambda>m. m\<lparr>parked_until_tick := 0, last_active_tick := tick s\<rparr>) s"
    "on_mhost (run_helper (H_finish_cmd ret)) s = upd_module i (\<lambda>m. m\<lparr>cmd_ret := word_of_int ret, cmd_pending := False\<rparr>) s"
    "on_mhost (run_helper H_finished) s = upd_module i (\<lambda>m. m\<lparr>m_state := SLOT_LOADED, task_handle := 0\<rparr>) s"
proof -
  let ?t = "mhost.truncate s"
  have c: "caller ?t = Some i" using assms by simp
  have restore: "vPortResetPrivilege (privileged u) (u\<lparr>privileged := True\<rparr>) = u" for u :: mhost
    by (cases u) (simp add: vPortResetPrivilege_def)
  show "on_mhost (run_helper H_entry) s = s" "on_mhost (run_helper H_ctx) s = s" "on_mhost (run_helper (H_cmd n a)) s = s"
    using assms restore [of ?t]
    by (simp_all add: on_mhost_def module_task_read_entry_def module_task_read_ctx_def module_task_read_cmd_def xPortRaisePrivilege_def)
  have "module_task_take_event ?t = (fst (mdl_events_take (me s) (h_slots s) (h_ev s)), ?t\<lparr>h_ev := snd (mdl_events_take (me s) (h_slots s) (h_ev s))\<rparr>)"
    unfolding module_task_take_event_def by (rule gate_same) (simp_all split: prod.split)
  then show "on_mhost (run_helper H_take) s = s\<lparr>h_ev := snd (mdl_events_take (me s) (h_slots s) (h_ev s))\<rparr>"
    by (simp add: on_mhost_def)
  have "wait_park ?t = (Some i, upd_module i (\<lambda>m. m\<lparr>parked_until_tick := PARKED_FOREVER\<rparr>) ?t)"
    unfolding wait_park_def by (rule gate_same) (use assms in \<open>simp_all add: upd_module_def\<close>)
  then show "on_mhost (run_helper H_park) s = upd_module i (\<lambda>m. m\<lparr>parked_until_tick := PARKED_FOREVER\<rparr>) s"
    by (simp add: on_mhost_def upd_module_def)
  have "wait_wake None ?t = ((), ?t)" unfolding wait_wake_def by (rule gate_same) simp_all
  then show "on_mhost (run_helper (H_wake None)) s = s" by (simp add: on_mhost_def)
  have "wait_wake (Some i) ?t = ((), upd_module i (\<lambda>m. m\<lparr>parked_until_tick := 0, last_active_tick := tick s\<rparr>) ?t)"
    unfolding wait_wake_def by (rule gate_same) (simp_all add: upd_module_def)
  then show "on_mhost (run_helper (H_wake (Some i))) s = upd_module i (\<lambda>m. m\<lparr>parked_until_tick := 0, last_active_tick := tick s\<rparr>) s"
    by (simp add: on_mhost_def upd_module_def)
  have "module_task_finish_cmd ret ?t = ((), upd_module i (\<lambda>m. m\<lparr>cmd_ret := word_of_int ret, cmd_pending := False\<rparr>) ?t)"
    unfolding module_task_finish_cmd_def by (rule gate_same) (use assms in \<open>simp_all add: upd_module_def\<close>)
  then show "on_mhost (run_helper (H_finish_cmd ret)) s = upd_module i (\<lambda>m. m\<lparr>cmd_ret := word_of_int ret, cmd_pending := False\<rparr>) s"
    by (simp add: on_mhost_def upd_module_def)
  have "module_task_mark_finished ?t = ((), upd_module i (\<lambda>m. m\<lparr>m_state := SLOT_LOADED, task_handle := 0\<rparr>) ?t)"
    unfolding module_task_mark_finished_def by (rule gate_same) (use assms in \<open>simp_all add: upd_module_def\<close>)
  then show "on_mhost (run_helper H_finished) s = upd_module i (\<lambda>m. m\<lparr>m_state := SLOT_LOADED, task_handle := 0\<rparr>) s"
    by (simp add: on_mhost_def upd_module_def)
qed

lemma helper_ok:
  assumes ok: "sup_ok B s" and c: "caller s = Some i" and w: "\<And>po. h = H_wake po \<Longrightarrow> po = None \<or> po = Some i"
  shows "sup_ok B (on_mhost (run_helper h) s)"
proof -
  note i = caller_slot [OF ok c] and run = helper_runs [OF c]
  show ?thesis
  proof (cases h)
    case H_take
    obtain r ev where "mdl_events_take (me s) (h_slots s) (h_ev s) = (r, ev)" by fastforce
    then show ?thesis using H_take run(4) events_same_ok [OF ok] take_same by simp
  next
    case H_park
    show ?thesis unfolding H_park run(5) by (rule sup_ok_upd [OF ok i(1)]) (simp_all add: claims_def regions_of_def bounds_ok_def)
  next
    case (H_wake po)
    have "sup_ok B (upd_module i (\<lambda>m. m\<lparr>parked_until_tick := 0, last_active_tick := tick s\<rparr>) s)"
      by (rule sup_ok_upd [OF ok i(1)]) (simp_all add: claims_def regions_of_def bounds_ok_def)
    then show ?thesis using H_wake w ok run(6,7) by auto
  next
    case (H_finish_cmd ret)
    show ?thesis unfolding H_finish_cmd run(8) by (rule sup_ok_upd [OF ok i(1)]) (simp_all add: claims_def regions_of_def bounds_ok_def)
  next
    case H_finished
    show ?thesis unfolding H_finished run(9)
      by (rule sup_ok_upd [OF ok i(1)]) (use i(2) in \<open>simp_all add: claims_def regions_of_def bounds_ok_def\<close>)
  qed (use ok run(1-3) in simp_all)
qed

text \<open>The interrupts.\<close>

lemma uart_put_port: "same_port u (snd (uart_put b u))"
  using uart_put_spec(1) [of u b] by (auto simp: same_port_def uart_put_def Let_def)

lemma uart_table:
  assumes "devs_inv d" "same_port (d_uart d ! k) u"
  shows "devs_inv (upd_uart k (\<lambda>_. u) (hw ops d))"
proof (cases "k < length (d_uart d)")
  case True
  let ?d = "upd_uart k (\<lambda>_. u) (hw ops d)"
  have l: "list_all2 (\<lambda>u u'. u' = u \<or> (True \<and> same_port u u')) (d_uart d) (d_uart ?d)"
    unfolding list_all2_conv_all_nth using assms(2) True by (auto simp: upd_uart_def nth_list_update)
  note u = ports_same(1-3) [OF l]
  have three: "length (d_uart d) = 3" using assms(1) uart_invE [of d] by (force simp: devs_inv_def)
  then have "ub_open (d_uart ?d ! j) = ub_open (d_uart d ! j)" if "j < 3" for j
    using arg_cong [OF u(2), of "\<lambda>l. l ! j"] that by (simp add: upd_uart_def)
  from this [of 0] this [of 1] have "uart_inv ?d" using assms(1) u(1,3) by (simp add: devs_inv_def uart_inv_def)
  then show ?thesis using assms(1) by (simp add: devs_inv_def i2c_inv_def adc_inv_def spi_inv_def upd_uart_def)
next
  case False
  then show ?thesis using assms(1) by (simp add: devs_inv_def i2c_inv_def adc_inv_def spi_inv_def uart_inv_def upd_uart_def list_update_beyond)
qed

text \<open>The receive interrupt changes the rings and the queues only.\<close>

lemma uart_isr_run:
  assumes "devs_inv (h_devs s)"
  shows "\<exists>d ev. uart_isr v k s = s\<lparr>h_devs := d, h_ev := ev\<rparr> \<and> devs_inv d \<and> events_same (h_ev s) ev"
proof -
  have rx: "\<exists>d ev. uart_rx_part v k s = s\<lparr>h_devs := d, h_ev := ev\<rparr> \<and> devs_inv d \<and> events_same (h_ev s) ev"
  proof (cases "v_flag v (ub_periph (d_uart (h_devs s) ! k)) ''RDBF'' (d_ops (h_devs s)) 0")
    case True
    let ?u = "d_uart (h_devs s) ! k"
    let ?d1 = "hw [UsartRecv (ub_periph ?u)] (h_devs s)"
    obtain ok u1 where p: "uart_put (v_data v (d_ops ?d1)) ?u = (ok, u1)" by fastforce
    let ?ev = "if ok then mdl_events_post_uart (h_slots s) (ub_instance u1) (of_nat (ring_used u1)) (tick s) (cyccnt s) (h_ev s) else h_ev s"
    have port: "same_port ?u u1" using uart_put_port [of ?u "v_data v (d_ops ?d1)"] p by simp
    then have "devs_inv (upd_uart k (\<lambda>_. u1) ?d1)" by (rule uart_table [OF assms])
    moreover have "events_same (h_ev s) ?ev" using post_uart_same by (simp add: events_same_def)
    moreover have "uart_rx_part v k s = s\<lparr>h_devs := upd_uart k (\<lambda>_. u1) ?d1, h_ev := ?ev\<rparr>"
      using True p port by (simp add: uart_rx_part_def Let_def same_port_def)
    ultimately show ?thesis by blast
  next
    case False
    show ?thesis
      by (rule exI [of _ "h_devs s"], rule exI [of _ "h_ev s"]) (use False assms in \<open>simp add: uart_rx_part_def Let_def events_same_def\<close>)
  qed
  then obtain d ev where 1: "uart_rx_part v k s = s\<lparr>h_devs := d, h_ev := ev\<rparr>" "devs_inv d" "events_same (h_ev s) ev" by blast
  have "devs_inv (upd_uart k (\<lambda>u. u\<lparr>ub_dropped := ub_dropped u + 1\<rparr>) (hw ops d))" for ops
    using uart_table [OF 1(2), of k "(d_uart d ! k)\<lparr>ub_dropped := ub_dropped (d_uart d ! k) + 1\<rparr>" ops]
    by (simp add: upd_uart_def same_port_def ring_ok_def)
  moreover have "\<exists>ops. uart_err_part v k (s\<lparr>h_devs := d, h_ev := ev\<rparr>)
      \<in> {s\<lparr>h_devs := d, h_ev := ev\<rparr>, s\<lparr>h_devs := upd_uart k (\<lambda>u. u\<lparr>ub_dropped := ub_dropped u + 1\<rparr>) (hw ops d), h_ev := ev\<rparr>}"
    by (rule exI [of _ "[UsartRecv (ub_periph (d_uart d ! k))]"]) (simp add: uart_err_part_def Let_def)
  ultimately have "\<exists>d'. uart_err_part v k (s\<lparr>h_devs := d, h_ev := ev\<rparr>) = s\<lparr>h_devs := d', h_ev := ev\<rparr> \<and> devs_inv d'"
    using 1(2) by blast
  then show ?thesis using 1 by (auto simp: uart_isr_def)
qed

lemma usart_ok:
  assumes ok: "sup_ok B s" and run: "t = dhost.truncate s \<or> (\<exists>k. t = uart_isr v k (dhost.truncate s))"
  shows "sup_ok B (dhost.extend t (dhost.more s))"
proof -
  have restore: "dhost.extend ((dhost.truncate s)\<lparr>h_devs := d, h_ev := ev\<rparr>) (dhost.more s) = s\<lparr>h_ev := ev, h_devs := d\<rparr>" for d ev
    by (cases s) (simp add: dhost.defs)
  have "devs_inv (h_devs (dhost.truncate s))" using ok by (simp add: sup_ok_def sup_inv_def)
  moreover have "events_same (h_ev s) (h_ev s)" "h_ev (dhost.truncate s) = h_ev s" by (simp_all add: events_same_def dhost.defs)
  ultimately have "\<exists>d ev. t = (dhost.truncate s)\<lparr>h_devs := d, h_ev := ev\<rparr> \<and> devs_inv d \<and> events_same (h_ev s) ev"
  proof -
    assume a: "devs_inv (h_devs (dhost.truncate s))" "events_same (h_ev s) (h_ev s)" "h_ev (dhost.truncate s) = h_ev s"
    have "dhost.truncate s = (dhost.truncate s)\<lparr>h_devs := h_devs s, h_ev := h_ev s\<rparr>" by (simp add: dhost.defs)
    then show ?thesis using run uart_isr_run [OF a(1), of v] a by (metis truncate_fields(4))
  qed
  then obtain d ev where t: "t = (dhost.truncate s)\<lparr>h_devs := d, h_ev := ev\<rparr>" "devs_inv d" "events_same (h_ev s) ev" by blast
  show ?thesis unfolding t(1) restore by (rule sup_ok_devs [OF events_same_ok [OF ok t(3)] t(2)])
qed

lemma interrupt_ok:
  assumes "sup_ok B s"
  shows "sup_ok B (interrupt v q s)"
proof (cases q)
  case Usart2
  have "USART2_IRQHandler v t = t \<or> (\<exists>k. USART2_IRQHandler v t = uart_isr v k t)" for t
    by (auto simp: USART2_IRQHandler_def split: option.split)
  then show ?thesis unfolding Usart2 interrupt.simps by (intro usart_ok [OF assms, where v = v])
next
  case Usart3
  have "USART3_IRQHandler v t = t \<or> (\<exists>k. USART3_IRQHandler v t = uart_isr v k t)" for t
    by (auto simp: USART3_IRQHandler_def split: option.split)
  then show ?thesis unfolding Usart3 interrupt.simps by (intro usart_ok [OF assms, where v = v])
qed (use events_same_ok [OF assms post_isr_same] in \<open>simp_all add: on_events_def EXINT2_IRQHandler_def EXINT3_IRQHandler_def gpio_isr_def\<close>)

text \<open>Faults and received bytes.\<close>

lemma memmanage_run:
  assumes "memmanage trap stacked cfsr mmfar s = Some s'"
  shows "\<exists>i f. pc_owner (stacked ! 6) (h_slots s) = Some i \<and> s' = s\<lparr>h_slots := (h_slots s)[i := (h_slots s ! i)\<lparr>m_state := SLOT_FAULTED\<rparr>], u_fault := f\<rparr>"
proof (cases "cfsr AND MSTKERR \<noteq> 0")
  case True
  then show ?thesis using assms by (simp add: memmanage_def mdl_memmanage_handler_c_def Let_def)
next
  case False
  show ?thesis
  proof (cases "pc_owner (stacked ! 6) (h_slots s)")
    case None
    then show ?thesis using assms False by (simp add: memmanage_def mdl_memmanage_handler_c_def mdl_record_fault_def Let_def)
  next
    case (Some i)
    then show ?thesis using assms False by (simp add: memmanage_def mdl_memmanage_handler_c_def mdl_record_fault_def Let_def) blast
  qed
qed

lemma memmanage_ok:
  assumes ok: "sup_ok B s" and run: "memmanage trap stacked cfsr mmfar s = Some s'"
  shows "sup_ok B s'"
proof -
  obtain i f where i: "pc_owner (stacked ! 6) (h_slots s) = Some i" and s': "s' = s\<lparr>h_slots := (h_slots s)[i := (h_slots s ! i)\<lparr>m_state := SLOT_FAULTED\<rparr>], u_fault := f\<rparr>"
    using memmanage_run [OF run] by blast
  have "i < length (h_slots s)" "m_state (h_slots s ! i) \<noteq> SLOT_EMPTY" using i find_idx_Some unfolding pc_owner_def by fastforce+
  then have "sup_ok B (upd_module i (\<lambda>m. m\<lparr>m_state := SLOT_FAULTED\<rparr>) s)"
    using ok by (intro sup_ok_upd [OF ok]) (simp_all add: sup_ok_def sup_inv_def claims_def regions_of_def bounds_ok_def)
  moreover have "sup_ok B (t\<lparr>u_fault := f\<rparr>) = sup_ok B t" for t by (simp add: sup_ok_def sup_inv_def)
  ultimately show ?thesis using s' by (simp add: upd_module_def)
qed

lemma receive_ok: "sup_ok B s \<Longrightarrow> sup_ok B (receive b s)"
  by (simp add: receive_def sup_ok_def sup_inv_def mdl_transport_write_def split: prod.split)

lemma writable_own: "x \<in> writable_bytes m \<Longrightarrow> x \<in> own_bytes m"
  by (auto simp: writable_bytes_def own_bytes_def user_regions_def)

lemma world_ok: "world v s s' \<Longrightarrow> sup_ok B s \<Longrightarrow> sup_ok B s'"
proof (induction rule: world.induct)
  case (code s i mm)
  then show ?case using own_bytes_ok writable_own by blast
next
  case (call s i c r s')
  have "\<exists>r t. host_call v c s = Some (r, t) \<and> call_frame i s t"
    by (rule host_call_frame [OF caller_calls_as [OF call.prems call.hyps(1)] call.hyps(2)])
  then have "call_frame i s s'" using call.hyps(3) by simp
  then show ?case by (rule call_frame_ok [OF call.prems call.hyps(1)])
next
  case (helper s i h)
  then show ?case using helper_ok by blast
next
  case (fault trap stacked cfsr mmfar s s')
  then show ?case using memmanage_ok by blast
next
  case (switch s h p)
  then show ?case by (simp add: sup_ok_def sup_inv_def)
next
  case (clock s t c)
  then show ?case by (simp add: sup_ok_def sup_inv_def)
qed (simp_all add: interrupt_ok receive_ok)

lemma world_steps_ok: "(world v)\<^sup>*\<^sup>* s s' \<Longrightarrow> sup_ok B s \<Longrightarrow> sup_ok B s'"
  by (induction rule: rtranclp_induct) (auto intro: world_ok)

section \<open>Isolation\<close>

lemma own_bytes_apart:
  assumes ok: "sup_ok B s" and i: "caller s = Some i" and j: "j < MAX_SLOTS" "j \<noteq> i" and r: "(lo, hi) \<in> set (regions_of (h_slots s ! j))"
    and x: "lo \<le> x" "x < hi"
  shows "x \<notin> own_bytes (h_slots s ! i)"
proof
  assume "x \<in> own_bytes (h_slots s ! i)"
  then obtain l h where lh: "(l, h) \<in> set (regions_of (h_slots s ! i))" "l \<le> x" "x < h"
    using own_bytes_regions [OF caller_slot(3,4) [OF ok i]] by blast
  have "arena_inv (h_slots s) (u_buddy s, h_mem s)" "i < length (h_slots s)" "j < length (h_slots s)"
    using ok j(1) caller_slot(1) [OF ok i] by (simp_all add: sup_ok_def sup_inv_def)
  then have "{l ..< h} \<inter> {lo ..< hi} = {}" by (rule arena_inv_isolation) (use j lh(1) r in auto)
  then show False using lh x by auto
qed

text \<open>A slot as it was, or marked faulted.\<close>

definition undisturbed :: "nat \<Rightarrow> sup \<Rightarrow> sup \<Rightarrow> bool" where
  "undisturbed j s s' \<longleftrightarrow> (h_slots s' ! j = h_slots s ! j \<or> h_slots s' ! j = (h_slots s ! j)\<lparr>m_state := SLOT_FAULTED\<rparr>)
     \<and> (\<forall>(lo, hi) \<in> set (regions_of (h_slots s ! j)). \<forall>x. lo \<le> x \<and> x < hi \<longrightarrow> h_mem s' x = h_mem s x)"

lemma interrupt_slots: "h_slots (interrupt v q s) = h_slots s" "h_mem (interrupt v q s) = h_mem s"
proof -
  have u: "h_slots (uart_isr v k t) = h_slots t" "h_mem (uart_isr v k t) = h_mem t" for k t
    by (simp_all add: uart_isr_def uart_err_part_def uart_rx_part_def Let_def split: prod.split)
  have i: "h_slots (USART2_IRQHandler v t) = h_slots t" "h_mem (USART2_IRQHandler v t) = h_mem t"
    "h_slots (USART3_IRQHandler v t) = h_slots t" "h_mem (USART3_IRQHandler v t) = h_mem t" for t
    by (simp_all add: USART2_IRQHandler_def USART3_IRQHandler_def u split: option.split)
  have e: "h_slots (dhost.extend t (dhost.more s)) = h_slots t" "h_mem (dhost.extend t (dhost.more s)) = h_mem t" for t
    by (simp_all add: dhost.defs)
  show "h_slots (interrupt v q s) = h_slots s" "h_mem (interrupt v q s) = h_mem s"
    by (cases q; simp add: on_events_def e i)+
qed

lemma helper_others:
  assumes "caller s = Some i" "j \<noteq> i" "\<And>po. h = H_wake po \<Longrightarrow> po = None \<or> po = Some i"
  shows "h_slots (on_mhost (run_helper h) s) ! j = h_slots s ! j" "h_mem (on_mhost (run_helper h) s) = h_mem s"
proof -
  note run = helper_runs [OF assms(1)]
  show "h_slots (on_mhost (run_helper h) s) ! j = h_slots s ! j"
    by (cases h) (use assms(2,3) run in auto)
  show "h_mem (on_mhost (run_helper h) s) = h_mem s"
    by (cases h) (use assms(3) run in auto)
qed


section \<open>The system\<close>

inductive system :: "board \<Rightarrow> board_info \<Rightarrow> (nat \<Rightarrow> sup \<Rightarrow> sup) \<Rightarrow> addr \<Rightarrow> sup \<Rightarrow> sup \<Rightarrow> bool" for brd fw rest rxbuf where
  others: "world (vend brd) s s' \<Longrightarrow> system brd fw rest rxbuf s s'"
| supervisor: "frame_ok rxbuf s \<Longrightarrow> line_ok s \<Longrightarrow> supervisor_iter brd fw rest rxbuf s = Some s' \<Longrightarrow> system brd fw rest rxbuf s s'"

lemma system_ok:
  assumes "(system brd fw rest rxbuf)\<^sup>*\<^sup>* s s'" "sup_ok B s" "board_answers brd" "tasks_start brd" "\<And>k t. (world (vend brd))\<^sup>*\<^sup>* t (rest k t)"
  shows "sup_ok B s'"
  using assms(1,2)
proof (induction rule: rtranclp_induct)
  have rest: "sup_ok B t \<Longrightarrow> sup_ok B (rest k t)" for k t by (rule world_steps_ok [OF assms(5)])
  case (step t u)
  then have t: "sup_ok B t" by blast
  show ?case using step(2)
  proof cases
    case others
    then show ?thesis by (rule world_ok [OF _ t])
  next
    case supervisor
    have "\<exists>s'. supervisor_iter brd fw rest rxbuf t = Some s' \<and> sup_ok B s'"
      by (rule iter_ok [OF t supervisor(1,2) assms(3,4)]) (rule rest)
    then show ?thesis using supervisor(3) by simp
  qed
qed simp

text \<open>The system never stops and stays consistent. From a consistent state, in any interleaving of the supervisor's iterations
  with module code, host calls, faults, interrupts and received bytes, every state is consistent: the slots hold exactly the live
  memory, no pin has two owners, interrupt lines and drivers agree with the slots. And wherever the supervisor is about to go round
  its loop again, with a frame and a line it can take, the iteration comes to its end and leaves a consistent state.\<close>

theorem system_never_stops:
  assumes "sup_ok B s" "board_answers brd" "tasks_start brd" "\<And>k t. (world (vend brd))\<^sup>*\<^sup>* t (rest k t)"
    "(system brd fw rest rxbuf)\<^sup>*\<^sup>* s s'"
  shows "sup_ok B s' \<and> (frame_ok rxbuf s' \<and> line_ok s' \<longrightarrow> (\<exists>s''. supervisor_iter brd fw rest rxbuf s' = Some s'' \<and> sup_ok B s''))"
proof -
  have ok: "sup_ok B s'" by (rule system_ok [OF assms(5,1-3) assms(4)])
  have rest: "sup_ok B t \<Longrightarrow> sup_ok B (rest k t)" for k t by (rule world_steps_ok [OF assms(4)])
  have "\<exists>s''. supervisor_iter brd fw rest rxbuf s' = Some s'' \<and> sup_ok B s''" if "frame_ok rxbuf s'" "line_ok s'"
    by (rule iter_ok [OF ok that assms(2,3)]) (rule rest)
  then show ?thesis using ok by blast
qed

section \<open>Applied\<close>

text \<open>The example module with its task running.\<close>

definition active :: sup where
  "active = (upd_module 0 (\<lambda>m. m\<lparr>task_handle := 7\<rparr>) pushed)\<lparr>me := 7\<rparr>"

lemma active_ok: "sup_ok ARENA active" "caller active = Some 0"
proof -
  have "sup_ok ARENA (upd_module 0 (\<lambda>m. m\<lparr>task_handle := 7\<rparr>) pushed)"
    by (rule sup_ok_upd [OF pushed_ok]) (simp_all add: claims_def regions_of_def bounds_ok_def)
  then show "sup_ok ARENA active" by (simp add: active_def sup_ok_def sup_inv_def)
  have "length (h_slots pushed) = 4" using pushed(2) by (simp add: sup_inv_def)
  then obtain m ms where m: "h_slots pushed = m # ms" by (cases "h_slots pushed") auto
  then show "caller active = Some 0" using pushed(3) by (simp add: active_def caller_def mdl_caller_slot_def)
qed



theorem system_never_stops_witness:
  "\<exists>s''. supervisor_iter brd0 no_board (\<lambda>_ s. s) IMG (receive 0x61 sup0) = Some s'' \<and> sup_ok ARENA s''"
proof -
  let ?s = "receive 0x61 sup0"
  have "mdl_proto_rx_byte 0x61 (u_proto sup0) = (u_proto sup0, [0x61])"
    by (simp add: mdl_supervisor_init_def reset_sup_def mdl_proto_set_supervisor_handle_def proto_init_def mdl_proto_rx_byte_def rx_magic_def magic_bytes_eq)
  then have "\<not> s_frame_ready (u_proto ?s)" "\<not> s_line_ready (u_line ?s)"
    by (simp_all add: receive_def mdl_supervisor_init_def reset_sup_def mdl_proto_set_supervisor_handle_def proto_init_def
        mdl_console_set_supervisor_handle_def mdl_console_rx_byte_def)
  moreover have "{IMG ..< IMG + unat MDL_PROTO_MAX_PAYLOAD} \<inter> pool_of (u_buddy ?s, h_mem ?s) = {}"
  proof -
    have "s_base (u_buddy ?s) = ARENA"
      using receive_ok [OF sup0_ok, of "0x61"] by (simp add: sup_ok_def)
    then show ?thesis by (auto simp: pool_of_def MDL_PROTO_MAX_PAYLOAD_def)
  qed
  ultimately have "frame_ok IMG ?s" "line_ok ?s" by (simp_all add: frame_ok_def line_ok_def mdl_proto_take_frame_def mdl_console_take_line_def)
  moreover have "(system brd0 no_board (\<lambda>_ s. s) IMG)\<^sup>*\<^sup>* sup0 ?s" by (intro r_into_rtranclp system.others world.byte)
  ultimately show ?thesis using system_never_stops [OF sup0_ok brd0_answers rtranclp.rtrancl_refl] by blast
qed

end
