(* ===== verification/Board_Fault.thy ===== *)
theory Board_Fault
  imports Console_Cmds
begin

text \<open>
  \<open>src/mdl/tests/hil/common/board_debug.c\<close>: the record of an unrecoverable fault, kept in memory that the reset leaves alone, and the
  report that the next run prints from it.
\<close>

section \<open>The record\<close>

text \<open>\<open>board_fault_record_t\<close>; \<open>bf_which\<close> is \<open>None\<close> for the null pointer.\<close>

record fault_record =
  bf_magic :: u32
  bf_which :: "string option"
  bf_r0 :: u32
  bf_r1 :: u32
  bf_r2 :: u32
  bf_r3 :: u32
  bf_r12 :: u32
  bf_lr :: u32
  bf_pc :: u32
  bf_xpsr :: u32
  bf_cfsr :: u32
  bf_hfsr :: u32
  bf_bfar :: u32
  bf_mmfar :: u32
  bf_shcsr :: u32
  bf_exc_return :: u32

abbreviation BOARD_FAULT_MAGIC :: u32 where "BOARD_FAULT_MAGIC \<equiv> 0xFA017ED0"
abbreviation BFARVALID :: u32 where "BFARVALID \<equiv> 0x8000"
abbreviation STKERR :: u32 where "STKERR \<equiv> 0x1000"

text \<open>The registers of the system control block that are read, and the two that start-up writes.\<close>

record scb_regs =
  sc_cfsr :: u32
  sc_hfsr :: u32
  sc_shcsr :: u32
  sc_bfar :: u32
  sc_mmfar :: u32
  sc_actlr :: u32

text \<open>\<open>precise\<close> is the build switch \<open>BOARD_DEBUG_PRECISE_BUS_FAULTS\<close>.\<close>

definition board_debug_faults_init :: "bool \<Rightarrow> scb_regs \<Rightarrow> scb_regs" where
  "board_debug_faults_init precise c =
     (let c1 = c\<lparr>sc_shcsr := sc_shcsr c OR (push_bit 17 1 OR push_bit 16 1 OR push_bit 18 1)\<rparr>
      in if precise then c1\<lparr>sc_actlr := sc_actlr c1 OR push_bit 1 1\<rparr> else c1)"

text \<open>The frame the hardware stacked: r0 r1 r2 r3 r12 lr pc xpsr.\<close>

definition take_frame :: "u32 list \<Rightarrow> fault_record \<Rightarrow> fault_record" where
  "take_frame stacked r = r\<lparr>bf_r0 := stacked ! 0, bf_r1 := stacked ! 1, bf_r2 := stacked ! 2, bf_r3 := stacked ! 3,
     bf_r12 := stacked ! 4, bf_lr := stacked ! 5, bf_pc := stacked ! 6, bf_xpsr := stacked ! 7\<rparr>"

definition arch_fault_persist :: "string \<Rightarrow> u32 list option \<Rightarrow> u32 \<Rightarrow> u32 \<Rightarrow> scb_regs \<Rightarrow> fault_record \<Rightarrow> fault_record" where
  "arch_fault_persist which stacked cfsr mmfar c r =
     (let r1 = r\<lparr>bf_which := Some which, bf_cfsr := cfsr, bf_hfsr := sc_hfsr c, bf_shcsr := sc_shcsr c, bf_exc_return := 0xFFFFFFFF,
            bf_bfar := (if cfsr AND BFARVALID \<noteq> 0 then sc_bfar c else 0xFFFFFFFF), bf_mmfar := mmfar\<rparr>;
          r2 = (case stacked of Some fr \<Rightarrow> take_frame fr r1 | None \<Rightarrow> r1\<lparr>bf_pc := 0xFFFFFFFF, bf_lr := 0xFFFFFFFF\<rparr>)
      in r2\<lparr>bf_magic := BOARD_FAULT_MAGIC\<rparr>)"

text \<open>\<open>board_fault_record\<close>, up to the reset that ends it (or the halt, under a debugger).\<close>

definition board_fault_record :: "u32 list \<Rightarrow> string \<Rightarrow> u32 \<Rightarrow> scb_regs \<Rightarrow> fault_record \<Rightarrow> fault_record" where
  "board_fault_record stacked which exc_return c r =
     (let cfsr = sc_cfsr c;
          r1 = r\<lparr>bf_which := Some which, bf_cfsr := cfsr, bf_hfsr := sc_hfsr c, bf_shcsr := sc_shcsr c, bf_exc_return := exc_return,
            bf_bfar := (if cfsr AND BFARVALID \<noteq> 0 then sc_bfar c else 0xFFFFFFFF),
            bf_mmfar := (if cfsr AND MMARVALID \<noteq> 0 then sc_mmfar c else 0xFFFFFFFF)\<rparr>;
          r2 = (if cfsr AND (MSTKERR OR STKERR) = 0 then take_frame stacked r1 else r1\<lparr>bf_pc := 0xFFFFFFFF\<rparr>)
      in r2\<lparr>bf_magic := BOARD_FAULT_MAGIC\<rparr>)"

definition board_fault_c_hard :: "u32 list \<Rightarrow> u32 \<Rightarrow> scb_regs \<Rightarrow> fault_record \<Rightarrow> fault_record" where
  "board_fault_c_hard sp exc = board_fault_record sp ''HardFault (check HFSR.FORCED: escalated?)'' exc"

definition board_fault_c_bus :: "u32 list \<Rightarrow> u32 \<Rightarrow> scb_regs \<Rightarrow> fault_record \<Rightarrow> fault_record" where
  "board_fault_c_bus sp exc = board_fault_record sp ''BusFault'' exc"

definition board_fault_c_usage :: "u32 list \<Rightarrow> u32 \<Rightarrow> scb_regs \<Rightarrow> fault_record \<Rightarrow> fault_record" where
  "board_fault_c_usage sp exc = board_fault_record sp ''UsageFault'' exc"

section \<open>The report\<close>

text \<open>The calls of \<open>out\<close>, in order.\<close>

definition fault_hex32 :: "u32 \<Rightarrow> bytes" where
  "fault_hex32 v = ascii ''0x'' @ map (\<lambda>i. hex_digits ! unat (drop_bit ((7 - i) * 4) v AND 0xF)) [0 ..< 8]"

definition fault_line :: "string \<Rightarrow> u32 \<Rightarrow> bytes list" where
  "fault_line label v = [ascii label, fault_hex32 v, CRLF]"

definition cfsr_lines :: "u32 \<Rightarrow> bytes list" where
  "cfsr_lines c =
     (if bit c 0 then [ascii ''  MMFSR.IACCVIOL   instruction fetch from a no-execute region'' @ CRLF] else [])
   @ (if bit c 1 then [ascii ''  MMFSR.DACCVIOL   data access denied by the MPU (see mmfar)'' @ CRLF] else [])
   @ (if bit c 3 then [ascii ''  MMFSR.MUNSTKERR  fault while UNstacking on exception return'' @ CRLF] else [])
   @ (if bit c 4 then [ascii ''  MMFSR.MSTKERR    fault while stacking on exception entry'' @ CRLF] else [])
   @ (if bit c 8 then [ascii ''  BFSR.IBUSERR     instruction bus error'' @ CRLF] else [])
   @ (if bit c 9 then [ascii ''  BFSR.PRECISERR   precise data bus error (see bfar)'' @ CRLF] else [])
   @ (if bit c 10 then [ascii ''  BFSR.IMPRECISERR imprecise -- pc is NOT the culprit'' @ CRLF] else [])
   @ (if bit c 16 then [ascii ''  UFSR.UNDEFINSTR  undefined instruction'' @ CRLF] else [])
   @ (if bit c 17 then [ascii ''  UFSR.INVSTATE    branched to an address with the Thumb bit clear'' @ CRLF] else [])
   @ (if bit c 18 then [ascii ''  UFSR.INVPC       bad EXC_RETURN / integrity check failed'' @ CRLF] else [])
   @ (if bit c 24 then [ascii ''  UFSR.UNALIGNED   unaligned access'' @ CRLF] else [])"

definition origin_lines :: "fault_record \<Rightarrow> bytes list" where
  "origin_lines r =
     (if bf_exc_return r \<noteq> 0xFFFFFFFF
      then if bit (bf_exc_return r) 2 then [ascii ''  came from a task stack (PSP)'' @ CRLF]
           else [ascii ''  came from the main stack (MSP) -- handler or pre-scheduler'' @ CRLF]
      else [ascii ''  (EXC_RETURN not captured on this path -- use xpsr IPSR instead)'' @ CRLF])
   @ (let ipsr = bf_xpsr r AND 0x1FF in
      if ipsr \<noteq> 0 then [ascii ''  faulted inside exception number '', fault_hex32 ipsr, ascii '' (14 = PendSV, i.e. a context switch)'' @ CRLF] else [])"

definition board_debug_print_fault :: "fault_record \<Rightarrow> bytes list" where
  "board_debug_print_fault r =
     (if bf_magic r \<noteq> BOARD_FAULT_MAGIC then [ascii ''no fault on record (clean boot)'' @ CRLF]
      else
        [ascii ''LAST RUN FAULTED -- record survived the reset'' @ CRLF, ascii ''  which : '',
         (case bf_which r of Some w \<Rightarrow> ascii w | None \<Rightarrow> ascii ''(null)''), CRLF]
        @ fault_line ''  pc    : '' (bf_pc r) @ fault_line ''  lr    : '' (bf_lr r) @ fault_line ''  xpsr  : '' (bf_xpsr r)
        @ fault_line ''  cfsr  : '' (bf_cfsr r) @ fault_line ''  hfsr  : '' (bf_hfsr r) @ fault_line ''  bfar  : '' (bf_bfar r)
        @ fault_line ''  mmfar : '' (bf_mmfar r) @ fault_line ''  excret: '' (bf_exc_return r)
        @ cfsr_lines (bf_cfsr r) @ origin_lines r)"

section \<open>Evidence\<close>

text \<open>The MemManage handler's two calls of \<open>arch_fault_persist\<close>, as the handler's model records them.\<close>

definition persist_call :: "fault_state \<Rightarrow> fault_state \<Rightarrow> scb_regs \<Rightarrow> fault_record \<Rightarrow> fault_record" where
  "persist_call s t c r = (case fs_persisted t of None \<Rightarrow> r
     | Some (False, cfsr, mmfar) \<Rightarrow> arch_fault_persist ''MemManage MSTKERR (no usable frame)'' None cfsr mmfar c r
     | Some (True, cfsr, mmfar) \<Rightarrow> arch_fault_persist ''MemManage in HOST code (pc outside module text)'' (Some (fs_stacked s)) cfsr mmfar c r)"

text \<open>Reading a report: the number that follows a label.\<close>

fun report_field :: "string \<Rightarrow> bytes list \<Rightarrow> u32 option" where
  "report_field label (l # v # ls) = (if l = ascii label then parse_u32 v else report_field label (v # ls))"
| "report_field label ls = None"

lemma fault_hex32_read: "parse_u32 (fault_hex32 v) = Some v"
proof -
  have "map (\<lambda>i. hex_digits ! unat (drop_bit ((7 - i) * 4) v AND 0xF)) [0 ..< 8]
      = map (\<lambda>i. hex_digits ! unat (drop_bit (28 - 4 * i) v AND 0xF)) [0 ..< 8]"
    by (rule map_cong) (auto simp: algebra_simps diff_mult_distrib)
  then have "fault_hex32 v = put_hex32 v" by (simp only: fault_hex32_def put_hex32_def)
  then show ?thesis by (simp only: parse_put_hex32)
qed

text \<open>The fields of a report, whatever follows them.\<close>

lemma report_field_skip: "l \<noteq> ascii label \<Longrightarrow> ls \<noteq> [] \<Longrightarrow> report_field label (l # ls) = report_field label ls"
  by (cases ls) simp_all

lemma hex_no_label: "label \<noteq> [] \<Longrightarrow> hd label = CHR '' '' \<Longrightarrow> fault_hex32 v \<noteq> ascii label \<and> CRLF \<noteq> ascii label"
  by (cases label) (auto simp: fault_hex32_def ascii_def)

lemma report_field_line:
  assumes "label \<noteq> []" "hd label = CHR '' ''" "ls \<noteq> []"
  shows "report_field label (fault_line l v @ ls) = (if ascii l = ascii label then Some v else report_field label ls)"
  using hex_no_label [OF assms(1,2), of v] assms(3) fault_hex32_read by (auto simp: fault_line_def report_field_skip)

lemma report_reads:
  assumes "bf_magic r = BOARD_FAULT_MAGIC" "bf_which r = Some w" "w \<noteq> []" "hd (ascii w) \<noteq> 0x20"
  shows "report_field ''  pc    : '' (board_debug_print_fault r) = Some (bf_pc r)" "report_field ''  lr    : '' (board_debug_print_fault r) = Some (bf_lr r)"
    "report_field ''  xpsr  : '' (board_debug_print_fault r) = Some (bf_xpsr r)" "report_field ''  cfsr  : '' (board_debug_print_fault r) = Some (bf_cfsr r)"
    "report_field ''  mmfar : '' (board_debug_print_fault r) = Some (bf_mmfar r)"
proof -
  have o: "origin_lines r \<noteq> []" by (simp add: origin_lines_def)
  have w: "map (\<lambda>c. of_nat (of_char c)) w \<noteq> 32 # xs" for xs :: bytes
    using assms(3,4) by (cases w) (auto simp: ascii_def)
  show "report_field ''  pc    : '' (board_debug_print_fault r) = Some (bf_pc r)" "report_field ''  lr    : '' (board_debug_print_fault r) = Some (bf_lr r)"
    "report_field ''  xpsr  : '' (board_debug_print_fault r) = Some (bf_xpsr r)" "report_field ''  cfsr  : '' (board_debug_print_fault r) = Some (bf_cfsr r)"
    "report_field ''  mmfar : '' (board_debug_print_fault r) = Some (bf_mmfar r)"
    using assms(1,2) o w by (simp_all add: board_debug_print_fault_def report_field_skip report_field_line ascii_def)
qed

text \<open>C37: A fault of the firmware leaves evidence. When the MemManage handler decides to reset, the report printed after the reset shows
  the fault status, and the program counter, the link register and the program status of the interrupted code when the hardware
  could stack them. When it could not, counter and link register read as all ones, but the program status is
  whatever the record held before; and a data address that the hardware did not supply reads as 0, like a null pointer.\<close>

theorem host_fault_evidence:
  assumes "\<not> fs_reset s" "fs_reset (mdl_memmanage_handler_c trap s)"
  shows "let rep = board_debug_print_fault (persist_call s (mdl_memmanage_handler_c trap s) c r); stacked = (SCB_CFSR s AND MSTKERR = 0) in
    report_field ''  cfsr  : '' rep = Some (SCB_CFSR s)
    \<and> report_field ''  pc    : '' rep = Some (if stacked then fs_stacked s ! 6 else 0xFFFFFFFF)
    \<and> report_field ''  lr    : '' rep = Some (if stacked then fs_stacked s ! 5 else 0xFFFFFFFF)
    \<and> report_field ''  xpsr  : '' rep = Some (if stacked then fs_stacked s ! 7 else bf_xpsr r)
    \<and> report_field ''  mmfar : '' rep = Some (if \<not> stacked then 0xFFFFFFFF else if SCB_CFSR s AND MMARVALID \<noteq> 0 then SCB_MMFAR s else 0)"
proof (cases "SCB_CFSR s AND MSTKERR = 0")
  case False
  let ?r = "arch_fault_persist ''MemManage MSTKERR (no usable frame)'' None (SCB_CFSR s) 0xFFFFFFFF c r"
  have "persist_call s (mdl_memmanage_handler_c trap s) c r = ?r"
    using False by (simp add: persist_call_def mdl_memmanage_handler_c_def Let_def)
  moreover have "bf_magic ?r = BOARD_FAULT_MAGIC" "bf_which ?r = Some ''MemManage MSTKERR (no usable frame)''"
    by (simp_all add: arch_fault_persist_def Let_def)
  note reads = report_reads [OF this]
  ultimately show ?thesis using False by (simp add: reads ascii_def, simp add: arch_fault_persist_def Let_def)
next
  case True
  let ?mmfar = "if SCB_CFSR s AND MMARVALID \<noteq> 0 then SCB_MMFAR s else 0"
  let ?r = "arch_fault_persist ''MemManage in HOST code (pc outside module text)'' (Some (fs_stacked s)) (SCB_CFSR s) ?mmfar c r"
  have "fs_persisted (mdl_memmanage_handler_c trap s) = Some (True, SCB_CFSR s, ?mmfar)"
    using assms True by (simp add: mdl_memmanage_handler_c_def Let_def split: prod.splits if_splits)
  then have "persist_call s (mdl_memmanage_handler_c trap s) c r = ?r" by (simp add: persist_call_def)
  moreover have "bf_magic ?r = BOARD_FAULT_MAGIC" "bf_which ?r = Some ''MemManage in HOST code (pc outside module text)''"
    by (simp_all add: arch_fault_persist_def Let_def take_frame_def)
  note reads = report_reads [OF this]
  ultimately show ?thesis using True by (simp add: reads ascii_def, simp add: arch_fault_persist_def Let_def take_frame_def)
qed

text \<open>A fetch from address 0 in the firmware, and one whose frame could not be stacked, after an earlier fault in PendSV.\<close>

definition bad_fetch :: "u32 \<Rightarrow> fault_state" where
  "bad_fetch cfsr = \<lparr>fs_slots = g_mdl_slots, fs_info = wit_info, fs_stacked = [0, 0, 0, 0, 0, 0x08012345, 0, 0x61000000], SCB_CFSR = cfsr,
     SCB_MMFAR = 0xE000ED34, fs_persisted = None, fs_reset = False, fs_woken = False\<rparr>"

definition scb0 :: scb_regs where
  "scb0 = \<lparr>sc_cfsr = 0, sc_hfsr = 0, sc_shcsr = 0x70000, sc_bfar = 0, sc_mmfar = 0, sc_actlr = 0\<rparr>"

definition earlier :: fault_record where
  "earlier = \<lparr>bf_magic = BOARD_FAULT_MAGIC, bf_which = Some ''BusFault'', bf_r0 = 0, bf_r1 = 0, bf_r2 = 0, bf_r3 = 0, bf_r12 = 0, bf_lr = 0,
     bf_pc = 0x08001000, bf_xpsr = 0x0100000E, bf_cfsr = 0x400, bf_hfsr = 0, bf_bfar = 0, bf_mmfar = 0, bf_shcsr = 0, bf_exc_return = 0xFFFFFFFD\<rparr>"

theorem host_fault_evidence_witness:
  "report_field ''  xpsr  : '' (board_debug_print_fault (persist_call (bad_fetch 0x10) (mdl_memmanage_handler_c 0 (bad_fetch 0x10)) scb0 earlier))
     = Some 0x0100000E"
proof -
  have "\<not> fs_reset (bad_fetch 0x10)" "fs_reset (mdl_memmanage_handler_c 0 (bad_fetch 0x10))"
    by (simp_all add: bad_fetch_def mdl_memmanage_handler_c_def Let_def)
  note e = host_fault_evidence [OF this, of scb0 earlier]
  have "SCB_CFSR (bad_fetch 0x10) AND MSTKERR \<noteq> 0" by (simp add: bad_fetch_def)
  then show ?thesis using e by (simp add: Let_def earlier_def)
qed

end
