(* ===== verification/Weak_Defaults.thy ===== *)
theory Weak_Defaults
  imports Supervisor_Push Mdl_System Board_Fault
begin

text \<open>
  The weak definitions of \<open>src/mdl/core/registry.c\<close> and of the files that declare a hook for the board: what a target without a flash store, an event layer, a console or drivers
  links instead. Each is a constant answer; those that only return are the identity on the state.
\<close>

section \<open>No store\<close>

text \<open>\<open>board_persist_count\<close>, \<open>_entry\<close>, \<open>_save\<close>, \<open>_forget\<close>.\<close>

definition weak_persist :: "board \<Rightarrow> board" where
  "weak_persist brd = brd\<lparr>persist_count := \<lambda>_. 0, persist_entry := \<lambda>_ _. None, persist_save := \<lambda>_ _. False, persist_forget := \<lambda>_. False\<rparr>"

lemma weak_persist_simps [simp]:
  "vend (weak_persist brd) = vend brd" "create_task (weak_persist brd) = create_task brd" "persist_count (weak_persist brd) h = 0"
  "persist_entry (weak_persist brd) h k = None" "\<not> persist_save (weak_persist brd) h bs" "\<not> persist_forget (weak_persist brd) h"
  by (simp_all add: weak_persist_def)

lemma weak_board_answers [simp]: "board_answers (weak_persist brd) = board_answers brd" "tasks_start (weak_persist brd) = tasks_start brd"
  by (simp_all add: board_answers_def tasks_start_def)

lemma weak_start [simp]: "start_loaded_module (weak_persist brd) i s = start_loaded_module brd i s"
  by (simp add: start_loaded_module_def Let_def split: prod.split bool.split)

text \<open>Two outcomes that differ in what was printed and asked of the store.\<close>

definition alike :: "sup option \<Rightarrow> sup option \<Rightarrow> bool" where
  "alike x y = (case x of None \<Rightarrow> y = None | Some a \<Rightarrow> \<exists>b u. y = Some b \<and> prints u (a\<lparr>u_store := u_store b\<rparr>) \<and> prints u b)"

lemma alike_refl [simp]: "alike x x"
  by (cases x) (auto simp: alike_def intro: prints_refl)

text \<open>Without a store nothing is lost but the copy in flash. Boot restores nothing, and a push that asks to be kept does to the
  modules exactly what a plain push does on a board with one: the same module comes up in the same slot with the same memory,
  events and peripherals, or the push is refused alike; only the answer differs, and nothing but the request is recorded.\<close>

theorem no_store_push:
  "mdl_supervisor_restore (weak_persist brd) s = Some s
   \<and> (case handle_load brd img len False s of None \<Rightarrow> handle_load (weak_persist brd) img len True s = None
      | Some a \<Rightarrow> \<exists>b u. handle_load (weak_persist brd) img len True s = Some b
          \<and> prints u (a\<lparr>u_store := u_store b\<rparr>) \<and> prints u b)"
proof -
  have res: "\<exists>u. prints u (respond r1 b1 n1 t1) \<and> prints u (respond r2 b2 n2 t2)" if "t1 = t2" for r1 b1 n1 t1 r2 b2 n2 t2
    using prints_respond that by blast
  have us: "(respond r bs n t)\<lparr>u_store := x\<rparr> = respond r bs n (t\<lparr>u_store := x\<rparr>)" for r bs n t x
    by (simp add: respond_def)
  have st: "u_store (respond r bs n t) = u_store t" for r bs n t by (rule prints_fields [OF prints_respond])
  have rep: "alike (replace_with brd img len False i b s) (replace_with (weak_persist brd) img len True i b s)" for i b
  proof (cases "if b then reclaim_slot i s else Some s")
    case (Some s1)
    show ?thesis
    proof (cases "load_at i img len s1")
      case l: (Some q)
      obtain stt d s2 where q: "q = (stt, d, s2)" by (cases q)
      show ?thesis
      proof (cases "stt = LOAD_OK")
        case False
        then show ?thesis using Some l q by (simp add: replace_with_def)
      next
        case ok: True
        show ?thesis
        proof (cases "start_loaded_module brd i s2")
          case None
          then show ?thesis using Some l q ok by (simp add: replace_with_def)
        next
          case t: (Some r)
          obtain started s3 where r: "r = (started, s3)" by fastforce
          show ?thesis
          proof (cases started)
            case False
            then show ?thesis using Some l q ok t r by (simp add: replace_with_def)
          next
            case True
            then show ?thesis using Some l q ok t r by (auto simp: replace_with_def alike_def Let_def us st intro!: res)
          qed
        qed
      qed
    qed (use Some in \<open>simp add: replace_with_def\<close>)
  qed (simp add: replace_with_def)
  have "alike (handle_load brd img len False s) (handle_load (weak_persist brd) img len True s)"
    using rep by (auto simp: handle_load_def Let_def split: option.split prod.split)
  then show ?thesis by (simp add: mdl_supervisor_restore_def alike_def)
qed

section \<open>No event layer\<close>

text \<open>Events, on the state of the real layer, which these never touch.\<close>

definition weak_events_take :: "nat \<Rightarrow> slots \<Rightarrow> events \<Rightarrow> event option \<times> events" where
  "weak_events_take m ms ev = (None, ev)"

definition weak_events_post_console :: "int \<Rightarrow> u32 \<Rightarrow> u32 \<Rightarrow> events \<Rightarrow> bool \<times> events" where
  "weak_events_post_console slot now cycles ev = (False, ev)"

definition weak_events_arm_gpio :: "int \<Rightarrow> int \<Rightarrow> u8 \<Rightarrow> events \<Rightarrow> bool \<times> events" where
  "weak_events_arm_gpio slot pin edge ev = (False, ev)"

definition weak_events_get_stats :: "int \<Rightarrow> events \<Rightarrow> u32 \<times> u32 \<times> u32 \<times> u16 \<times> u32" where
  "weak_events_get_stats slot ev = (0, 0, 0, 0, 0)"

definition weak_events_disarm_slot :: "int \<Rightarrow> events \<Rightarrow> events" where
  "weak_events_disarm_slot slot ev = ev"

definition weak_events_init :: "events \<Rightarrow> events" where
  "weak_events_init ev = ev"

definition weak_events_reset :: "int \<Rightarrow> u16 \<Rightarrow> u16 \<Rightarrow> nat \<Rightarrow> u32 \<Rightarrow> events \<Rightarrow> events" where
  "weak_events_reset slot depth rate_hz task now ev = ev"

definition weak_events_post_uart :: "slots \<Rightarrow> u8 \<Rightarrow> u16 \<Rightarrow> u32 \<Rightarrow> u32 \<Rightarrow> events \<Rightarrow> events" where
  "weak_events_post_uart ms inst w now cycles ev = ev"

text \<open>The layer as a queue: one that has no room. The laws of the queues of the real layer hold of it.\<close>

interpretation weak_evq: bounded_queue "\<lambda>ev. True" "\<lambda>ev. [] :: event list" "\<lambda>ev. 0"
    "\<lambda>x. weak_events_post_console 0 (e_tick x) (e_cycles x)" "weak_events_take 0 ms" for ms
  by unfold_locales (simp_all add: weak_events_post_console_def weak_events_take_def)

section \<open>No console\<close>

definition weak_console_put_u32 :: "u32 \<Rightarrow> devs \<Rightarrow> devs" where
  "weak_console_put_u32 v d = d"

definition weak_console_puts :: "bytes \<Rightarrow> devs \<Rightarrow> devs" where
  "weak_console_puts text d = d"

definition weak_console_set_supervisor_handle :: "bool \<Rightarrow> line_st \<Rightarrow> line_st" where
  "weak_console_set_supervisor_handle h st = st"

definition weak_console_take_line :: "line_st \<Rightarrow> bytes option \<times> line_st" where
  "weak_console_take_line st = (None, st)"

definition weak_console_execute :: "bytes \<Rightarrow> sup \<Rightarrow> sup option" where
  "weak_console_execute line s = Some s"

section \<open>No resource table, no transport, no fault record\<close>

text \<open>\<open>mdl_res_check\<close> of \<open>loader.c\<close>: every claim is granted, with an empty text.\<close>

definition weak_res_check :: "res list \<Rightarrow> nat option \<Rightarrow> slots \<Rightarrow> nat \<Rightarrow> bool \<times> string" where
  "weak_res_check rs excl ms detail_len = (True, [])"

definition weak_transport_write :: "bytes \<Rightarrow> devs \<Rightarrow> devs" where
  "weak_transport_write bs d = d"

definition weak_fault_persist :: "string \<Rightarrow> u32 list option \<Rightarrow> u32 \<Rightarrow> u32 \<Rightarrow> scb_regs \<Rightarrow> fault_record \<Rightarrow> fault_record" where
  "weak_fault_persist which stacked cfsr mmfar c r = r"

text \<open>\<open>host_log_sink\<close> of \<open>host_api.c\<close>, as the texts handed to the debugger; \<open>attached\<close> is \<open>DHCSR.C_DEBUGEN\<close>.\<close>

definition weak_log_sink :: "bool \<Rightarrow> bytes \<Rightarrow> bytes list" where
  "weak_log_sink attached msg = (if attached then [msg, [10]] else [])"

section \<open>No drivers\<close>

definition weak_gpio_release_claims :: "u32 \<Rightarrow> gpio_hw \<Rightarrow> u32 \<times> gpio_hw" where
  "weak_gpio_release_claims claimed g = (0, g)"

text \<open>Bringing up and giving back, the same for the four kinds.\<close>

fun weak_claim :: "periph_id \<Rightarrow> devs \<Rightarrow> (bool \<times> devs) option" where
  "weak_claim (kind, n) d = Some (False, d)"

fun weak_release :: "periph_id \<Rightarrow> devs \<Rightarrow> devs" where
  "weak_release (kind, n) d = d"

text \<open>They keep the contract of the real drivers: what is not there is never open.\<close>

interpretation weak_periph: periph_driver "\<lambda>d. True" "\<lambda>p d. False" weak_claim weak_release
  by unfold_locales auto

text \<open>Transfers: refused. \<open>-1\<close> on every call.\<close>

definition weak_i2c_shell :: "int \<Rightarrow> int \<Rightarrow> bytes \<Rightarrow> nat \<Rightarrow> devs \<Rightarrow> (int \<times> bytes) \<times> devs" where
  "weak_i2c_shell bus addr7 tx rxlen d = ((-1, []), d)"

definition weak_i2c_write_impl :: "int \<Rightarrow> int \<Rightarrow> addr \<Rightarrow> u32 \<Rightarrow> dhost \<Rightarrow> int \<times> dhost" where
  "weak_i2c_write_impl bus addr7 data len s = (-1, s)"

definition weak_i2c_read_impl :: "int \<Rightarrow> int \<Rightarrow> addr \<Rightarrow> u32 \<Rightarrow> dhost \<Rightarrow> int \<times> dhost" where
  "weak_i2c_read_impl bus addr7 data len s = (-1, s)"

definition weak_i2c_write_read_impl :: "int \<Rightarrow> int \<Rightarrow> addr \<Rightarrow> u32 \<Rightarrow> addr \<Rightarrow> u32 \<Rightarrow> dhost \<Rightarrow> int \<times> dhost" where
  "weak_i2c_write_read_impl bus addr7 tx txlen rx rxlen s = (-1, s)"

definition weak_uart_dropped :: "int \<Rightarrow> devs \<Rightarrow> u32" where
  "weak_uart_dropped instance_no d = 0"

definition weak_uart_config_impl :: "int \<Rightarrow> u32 \<Rightarrow> dhost \<Rightarrow> int \<times> dhost" where
  "weak_uart_config_impl bus baud s = (-1, s)"

definition weak_uart_write_impl :: "int \<Rightarrow> addr \<Rightarrow> u32 \<Rightarrow> dhost \<Rightarrow> int \<times> dhost" where
  "weak_uart_write_impl bus data len s = (-1, s)"

definition weak_uart_loopback_impl :: "int \<Rightarrow> bool \<Rightarrow> dhost \<Rightarrow> int \<times> dhost" where
  "weak_uart_loopback_impl bus enable s = (-1, s)"

definition weak_uart_read_impl :: "int \<Rightarrow> addr \<Rightarrow> u32 \<Rightarrow> dhost \<Rightarrow> int \<times> dhost" where
  "weak_uart_read_impl bus data maxlen s = (-1, s)"

definition weak_adc_read_impl :: "int \<Rightarrow> dhost \<Rightarrow> int \<times> dhost" where
  "weak_adc_read_impl channel s = (-1, s)"

definition weak_adc_read_mv_impl :: "int \<Rightarrow> dhost \<Rightarrow> int \<times> dhost" where
  "weak_adc_read_mv_impl channel s = (-1, s)"

text \<open>Enumerations: \<open>None\<close> is \<open>-1\<close>, past the end.\<close>

definition weak_adc_describe :: "int \<Rightarrow> devs \<Rightarrow> (u8 \<times> string \<times> nat option \<times> bool) option" where
  "weak_adc_describe k d = None"

definition weak_spi_describe :: "int \<Rightarrow> devs \<Rightarrow> (u8 \<times> u32 \<times> u8) option" where
  "weak_spi_describe k d = None"

definition weak_spi_config_impl :: "int \<Rightarrow> int \<Rightarrow> u32 \<Rightarrow> dhost \<Rightarrow> int \<times> dhost" where
  "weak_spi_config_impl bus mode hz s = (-1, s)"

definition weak_spi_transfer_impl :: "int \<Rightarrow> addr \<Rightarrow> addr \<Rightarrow> u32 \<Rightarrow> dhost \<Rightarrow> int \<times> dhost" where
  "weak_spi_transfer_impl bus tx rx len s = (-1, s)"

lemmas weak_defs = weak_i2c_write_impl_def weak_i2c_read_impl_def weak_i2c_write_read_impl_def weak_uart_config_impl_def
  weak_uart_write_impl_def weak_uart_loopback_impl_def weak_uart_read_impl_def weak_adc_read_impl_def weak_adc_read_mv_impl_def
  weak_spi_config_impl_def weak_spi_transfer_impl_def

section \<open>A target without drivers\<close>

text \<open>The table of a target without drivers: the peripheral calls go to the weak functions, through the same gates, the rest
  to the same functions as before.\<close>

fun weak_host_api :: "vendor \<Rightarrow> host_call \<Rightarrow> dhost \<times> gpio_hw \<Rightarrow> (host_ret \<times> dhost \<times> gpio_hw) option" where
  "weak_host_api v (C_i2c_write n a p len) (s, g) = with_pins g (with_int (fed_gate (weak_i2c_write_impl n a p len) s))"
| "weak_host_api v (C_i2c_read n a p len) (s, g) = with_pins g (with_int (fed_gate (weak_i2c_read_impl n a p len) s))"
| "weak_host_api v (C_i2c_write_read n a p len q qlen) (s, g) = with_pins g (with_int (fed_gate (weak_i2c_write_read_impl n a p len q qlen) s))"
| "weak_host_api v (C_uart_config n baud) (s, g) = with_pins g (with_int (fed_gate (weak_uart_config_impl n baud) s))"
| "weak_host_api v (C_uart_write n p len) (s, g) = with_pins g (with_int (fed_gate (weak_uart_write_impl n p len) s))"
| "weak_host_api v (C_uart_read n p len) (s, g) = with_pins g (with_int (fed_gate (weak_uart_read_impl n p len) s))"
| "weak_host_api v (C_uart_loopback n on) (s, g) = with_pins g (with_int (fed_gate (weak_uart_loopback_impl n on) s))"
| "weak_host_api v (C_adc_read ch) (s, g) = with_pins g (with_int (fed_gate (weak_adc_read_impl ch) s))"
| "weak_host_api v (C_adc_read_mv ch) (s, g) = with_pins g (with_int (fed_gate (weak_adc_read_mv_impl ch) s))"
| "weak_host_api v (C_spi_config n mode hz) (s, g) = with_pins g (with_int (fed_gate (weak_spi_config_impl n mode hz) s))"
| "weak_host_api v (C_spi_transfer n tx rx len) (s, g) = with_pins g (with_int (fed_gate (weak_spi_transfer_impl n tx rx len) s))"
| "weak_host_api v c (s, g) = g_host_api v c (s, g)"

definition no_peripherals :: "dhost \<Rightarrow> bool" where
  "no_peripherals s \<longleftrightarrow> (\<forall>k \<in> {KIND_I2C, KIND_UART, KIND_ADC, KIND_SPI}. \<forall>n. \<not> mdl_caller_declared (me s) (h_slots s) k n)"

lemma refused_alike:
  assumes "no_peripherals s"
  shows "host_i2c_write_impl v n a p len s = weak_i2c_write_impl n a p len s" "host_i2c_read_impl v n a p len s = weak_i2c_read_impl n a p len s"
    "host_i2c_write_read_impl v n a p len q qlen s = weak_i2c_write_read_impl n a p len q qlen s"
    "host_uart_config_impl n baud s = weak_uart_config_impl n baud s" "host_uart_write_impl v n p len s = weak_uart_write_impl n p len s"
    "host_uart_read_impl n p len s = weak_uart_read_impl n p len s" "host_uart_loopback_impl n on s = weak_uart_loopback_impl n on s"
    "host_adc_read_impl v n s = weak_adc_read_impl n s" "host_adc_read_mv_impl v n s = weak_adc_read_mv_impl n s"
    "host_spi_config_impl n mode hz s = weak_spi_config_impl n mode hz s" "host_spi_transfer_impl v n tx rx len s = weak_spi_transfer_impl n tx rx len s"
proof -
  have "checked_bus n s = None" "checked_uart n s = None" "checked_chan n s = None" "checked_spi n s = None"
    using assms by (simp_all add: no_peripherals_def checked_bus_def checked_uart_def checked_chan_def checked_spi_def)
  then show "host_i2c_write_impl v n a p len s = weak_i2c_write_impl n a p len s" "host_i2c_read_impl v n a p len s = weak_i2c_read_impl n a p len s"
    "host_i2c_write_read_impl v n a p len q qlen s = weak_i2c_write_read_impl n a p len q qlen s"
    "host_uart_config_impl n baud s = weak_uart_config_impl n baud s" "host_uart_write_impl v n p len s = weak_uart_write_impl n p len s"
    "host_uart_read_impl n p len s = weak_uart_read_impl n p len s" "host_uart_loopback_impl n on s = weak_uart_loopback_impl n on s"
    "host_adc_read_impl v n s = weak_adc_read_impl n s" "host_adc_read_mv_impl v n s = weak_adc_read_mv_impl n s"
    "host_spi_config_impl n mode hz s = weak_spi_config_impl n mode hz s" "host_spi_transfer_impl v n tx rx len s = weak_spi_transfer_impl n tx rx len s"
    by (simp_all add: weak_defs host_i2c_write_impl_def host_i2c_read_impl_def host_i2c_write_read_impl_def host_uart_config_impl_def
        host_uart_write_impl_def host_uart_read_impl_def host_uart_loopback_impl_def host_adc_read_impl_def host_adc_read_mv_impl_def
        host_spi_config_impl_def host_spi_transfer_impl_def)
qed

lemma alike_gate:
  "f (s\<lparr>privileged := True\<rparr>) = h (s\<lparr>privileged := True\<rparr>) \<Longrightarrow> with_pins g (with_int (fed_gate f s)) = with_pins g (with_int (fed_gate h s))"
  by (simp add: fed_gate_def syscall_gate_def xPortRaisePrivilege_def)

text \<open>A module that declared no peripheral cannot tell a target with drivers from one without: whatever it passes to whatever entry
  of the table, it gets the same answer and leaves the same state.\<close>

theorem no_drivers_alike:
  assumes "no_peripherals s"
  shows "g_host_api v c (s, g) = weak_host_api v c (s, g)"
proof -
  have "no_peripherals (s\<lparr>privileged := True\<rparr>)" using assms by (simp add: no_peripherals_def)
  note r = refused_alike [OF this]
  show ?thesis
    by (cases c; simp only: g_host_api.simps weak_host_api.simps host_i2c_write_def host_i2c_read_def host_i2c_write_read_def
        host_uart_config_def host_uart_write_def host_uart_read_def host_uart_loopback_def host_adc_read_def host_adc_read_mv_def
        host_spi_config_def host_spi_transfer_def) (rule alike_gate, rule r)+
qed

text \<open>A module that declared pin 1 only.\<close>

theorem no_drivers_alike_witness:
  "g_host_api vendor0 (C_i2c_write 1 0x50 0x20020400 4) (dhost0 KIND_GPIO 1 spi_devs0, u_gpio sup0)
     = weak_host_api vendor0 (C_i2c_write 1 0x50 0x20020400 4) (dhost0 KIND_GPIO 1 spi_devs0, u_gpio sup0)"
proof (rule no_drivers_alike)
  have "mdl_caller_slot 7 (declaring KIND_GPIO 1 # ms) = Some 0" for ms by (simp add: mdl_caller_slot_def)
  moreover have "take (res_count (declaring KIND_GPIO 1)) (m_res (declaring KIND_GPIO 1)) = [\<lparr>r_kind = KIND_GPIO, r_id = 1, r_edge = 0, r_rsv = 0\<rparr>]"
    by (simp add: declaring_def)
  ultimately show "no_peripherals (dhost0 KIND_GPIO 1 spi_devs0)"
    by (simp add: no_peripherals_def mdl_caller_declared_def declares_def claims_def)
qed

end
