(* ===== verification/Task_Mpu.thy ===== *)
theory Task_Mpu
  imports Mdl_System Mpu
begin

text \<open>
  The memory protection unit under FreeRTOS: the fixed regions that \<open>prvSetupMPU\<close> of
  \<open>src/mdl/third_party/freertos_mpu_port/port.c\<close> programs at start-up, the regions of one task as
  \<open>vPortStoreTaskMPUSettings\<close> translates them from the task definition of \<open>src/mdl/core/module_task.c\<close>, and the context
  switch that loads them. Together they decide what the code of a module can read, write and execute.
\<close>

section \<open>Registers\<close>

abbreviation REGION_READ_WRITE :: u32 where "REGION_READ_WRITE \<equiv> push_bit 24 3"
abbreviation REGION_PRIVILEGED_READ_ONLY :: u32 where "REGION_PRIVILEGED_READ_ONLY \<equiv> push_bit 24 5"
abbreviation REGION_READ_ONLY :: u32 where "REGION_READ_ONLY \<equiv> push_bit 24 6"
abbreviation REGION_PRIVILEGED_READ_WRITE :: u32 where "REGION_PRIVILEGED_READ_WRITE \<equiv> push_bit 24 1"
abbreviation REGION_EXECUTE_NEVER :: u32 where "REGION_EXECUTE_NEVER \<equiv> push_bit 28 1"
abbreviation TEX_S_C_B :: u32 where "TEX_S_C_B \<equiv> push_bit 16 (7 AND 0x3F)"
abbreviation REGION_VALID :: u32 where "REGION_VALID \<equiv> 0x10"
abbreviation REGION_ENABLE :: u32 where "REGION_ENABLE \<equiv> 1"
abbreviation STACK_REGION :: u32 where "STACK_REGION \<equiv> 4"
abbreviation CONFIGURABLE_REGIONS :: nat where "CONFIGURABLE_REGIONS \<equiv> 3"
abbreviation PERIPHERALS_START :: u32 where "PERIPHERALS_START \<equiv> 0x40000000"
abbreviation PERIPHERALS_END :: u32 where "PERIPHERALS_END \<equiv> 0x5FFFFFFF"

text \<open>Writing \<open>RBAR\<close> with its VALID bit selects the region that the low bits name; \<open>RASR\<close> then belongs to it.\<close>

definition mpu_write :: "u32 \<times> u32 \<Rightarrow> mpu_hw \<Rightarrow> mpu_hw" where
  "mpu_write r mp = (case r of (rbar, rasr) \<Rightarrow>
     let n = (if rbar AND REGION_VALID \<noteq> 0 then rbar AND 15 else MPU_RNR mp) in
     mp\<lparr>MPU_RNR := n, MPU_RBAR := (MPU_RBAR mp)(n := rbar AND 0xFFFFFFE0), MPU_RASR := (MPU_RASR mp)(n := rasr)\<rparr>)"

function size_setting_loop :: "u32 \<Rightarrow> u32 \<Rightarrow> u32 \<Rightarrow> u32" where
  "size_setting_loop bytes size_now ret =
     (if ret < 31 then if bytes \<le> size_now then ret else size_setting_loop bytes (push_bit 1 size_now) (ret + 1) else ret)"
  by auto
termination
  by (relation "measure (\<lambda>(_, _, ret). 31 - unat ret)") (auto simp: word_less_nat_alt unat_word_ariths)

declare size_setting_loop.simps [simp del]

definition prvGetMPURegionSizeSetting :: "u32 \<Rightarrow> u32" where
  "prvGetMPURegionSizeSetting bytes = push_bit 1 (size_setting_loop bytes 32 4)"

section \<open>Start-up\<close>

text \<open>The linker's symbols: start and end.\<close>

record port_syms =
  py_flash :: "u32 \<times> u32"
  py_functions :: "u32 \<times> u32"
  py_data :: "u32 \<times> u32"
  py_sram :: "u32 \<times> u32"

definition span :: "u32 \<times> u32 \<Rightarrow> u32" where
  "span r = prvGetMPURegionSizeSetting (snd r - fst r)"

definition fixed_regions :: "port_syms \<Rightarrow> (u32 \<times> u32) list" where
  "fixed_regions y =
     [(fst (py_flash y) OR REGION_VALID OR 0, REGION_READ_ONLY OR TEX_S_C_B OR span (py_flash y) OR REGION_ENABLE),
      (fst (py_functions y) OR REGION_VALID OR 1, REGION_PRIVILEGED_READ_ONLY OR TEX_S_C_B OR span (py_functions y) OR REGION_ENABLE),
      (fst (py_data y) OR REGION_VALID OR 2, REGION_PRIVILEGED_READ_WRITE OR TEX_S_C_B OR span (py_data y) OR REGION_ENABLE),
      (PERIPHERALS_START OR REGION_VALID OR 3, REGION_READ_WRITE OR REGION_EXECUTE_NEVER OR span (PERIPHERALS_START, PERIPHERALS_END)
         OR REGION_ENABLE)]"

text \<open>\<open>SHCSR\<close> gets MEMFAULTENA, \<open>CTRL\<close> gets ENABLE and PRIVDEFENA. The unit has the eight regions the port expects.\<close>

definition prvSetupMPU :: "port_syms \<Rightarrow> mpu_hw \<Rightarrow> mpu_hw" where
  "prvSetupMPU y mp = (let mp1 = fold mpu_write (fixed_regions y) mp in
     mp1\<lparr>SCB_SHCSR := SCB_SHCSR mp1 OR push_bit 16 1, MPU_CTRL := MPU_CTRL mp1 OR (1 OR push_bit 2 1)\<rparr>)"

section \<open>The regions of a task\<close>

definition disabled_region :: "nat \<Rightarrow> u32 \<times> u32" where
  "disabled_region ul = ((STACK_REGION + of_nat ul) OR REGION_VALID, 0)"

definition stack_region :: "u32 \<Rightarrow> u32 \<Rightarrow> u32 \<times> u32" where
  "stack_region bottom depth =
     (bottom OR REGION_VALID OR STACK_REGION,
      REGION_READ_WRITE OR prvGetMPURegionSizeSetting (depth * 4) OR TEX_S_C_B OR REGION_ENABLE)"

text \<open>One row of \<open>xRegions\<close>: base, length and parameters.\<close>

definition task_region :: "nat \<Rightarrow> u32 \<times> u32 \<times> u32 \<Rightarrow> u32 \<times> u32" where
  "task_region ul r = (case r of (base, len, params) \<Rightarrow>
     if 0 < len then (base OR REGION_VALID OR (STACK_REGION + of_nat ul), prvGetMPURegionSizeSetting len OR params OR REGION_ENABLE)
     else disabled_region ul)"

definition vPortStoreTaskMPUSettings :: "port_syms \<Rightarrow> (u32 \<times> u32 \<times> u32) list option \<Rightarrow> u32 \<Rightarrow> u32 \<Rightarrow> (u32 \<times> u32) list \<Rightarrow> (u32 \<times> u32) list" where
  "vPortStoreTaskMPUSettings y xRegions bottom depth st = (case xRegions of
     None \<Rightarrow>
       [(fst (py_sram y) OR REGION_VALID OR STACK_REGION, REGION_READ_WRITE OR TEX_S_C_B OR span (py_sram y) OR REGION_ENABLE),
        (fst (py_data y) OR REGION_VALID OR (STACK_REGION + 1), REGION_PRIVILEGED_READ_WRITE OR TEX_S_C_B OR span (py_data y) OR REGION_ENABLE)]
       @ map disabled_region [2 ..< Suc CONFIGURABLE_REGIONS]
   | Some rs \<Rightarrow>
       (if 0 < depth then stack_region bottom depth else st ! 0)
       # map (\<lambda>ul. task_region ul (rs ! (ul - 1))) [1 ..< Suc CONFIGURABLE_REGIONS])"

text \<open>The context switch: the unit is off while regions 4 to 7 are written.\<close>

definition restore_regions :: "(u32 \<times> u32) list \<Rightarrow> mpu_hw \<Rightarrow> mpu_hw" where
  "restore_regions st mp = (let mp1 = fold mpu_write (take 4 st) (mp\<lparr>MPU_CTRL := MPU_CTRL mp AND NOT 1\<rparr>) in
     mp1\<lparr>MPU_CTRL := MPU_CTRL mp1 OR 1\<rparr>)"

text \<open>The parameters that \<open>fill_task_def\<close> gives: register bits, as the port wants them.\<close>

fun ulParameters :: "region_perm \<Rightarrow> u32" where
  "ulParameters READ_ONLY = REGION_READ_ONLY OR TEX_S_C_B"
| "ulParameters READ_WRITE_XN = REGION_READ_WRITE OR REGION_EXECUTE_NEVER OR TEX_S_C_B"

text \<open>What the kernel passes on for a restricted task: its regions, and its stack with the depth in words.\<close>

definition task_settings :: "port_syms \<Rightarrow> task_def \<Rightarrow> (u32 \<times> u32) list" where
  "task_settings y td = vPortStoreTaskMPUSettings y
     (Some (map (\<lambda>(base, len, p). (of_nat base, of_nat len, ulParameters p)) (td_regions td)))
     (of_nat (td_stack_base td)) (of_nat (td_stack_depth td)) []"

section \<open>The size setting\<close>

lemma size_setting_bound: "ret \<le> 31 \<Longrightarrow> size_setting_loop bytes size_now ret \<le> 31"
proof (induction bytes size_now ret rule: size_setting_loop.induct)
  case (1 bytes size_now ret)
  have "ret + 1 \<le> 31" if "ret < 31" using that by (simp add: inc_le)
  then show ?case using 1 by (subst size_setting_loop.simps) auto
qed

lemma size_setting_pow:
  assumes "unat bytes = 2 ^ k" "5 \<le> i" "i \<le> k" "k \<le> 31"
  shows "size_setting_loop bytes (2 ^ i) (of_nat (i - 1)) = of_nat (k - 1)"
  using assms(2,3)
proof (induction "k - i" arbitrary: i)
  case 0
  then have "i = k" by simp
  moreover have "bytes \<le> 2 ^ k" using assms(1) unat_pow2 [OF assms(4)] by (simp add: word_le_nat_alt)
  ultimately show ?case by (subst size_setting_loop.simps) simp
next
  case (Suc d)
  have i: "i < k" "i \<le> 31" using Suc.hyps(2) assms(4) by simp_all
  then have "(2 :: nat) ^ i < 2 ^ k" by simp
  then have "\<not> bytes \<le> 2 ^ i" using assms(1) unat_pow2 [OF i(2)] by (simp add: word_le_nat_alt)
  moreover have "(of_nat (i - 1) :: u32) < 31" using i assms(4) by (simp add: word_less_nat_alt unat_of_nat)
  moreover have "(of_nat (i - 1) :: u32) + 1 = of_nat (Suc i - 1)" using Suc.prems(1) by (simp add: of_nat_diff)
  moreover have "push_bit 1 (2 ^ i :: u32) = 2 ^ Suc i" by (simp add: push_bit_eq_mult)
  ultimately have "size_setting_loop bytes (2 ^ i) (of_nat (i - 1)) = size_setting_loop bytes (2 ^ Suc i) (of_nat (Suc i - 1))"
    by (subst size_setting_loop.simps) (simp only: if_True if_False)
  also have "\<dots> = of_nat (k - 1)" by (rule Suc.hyps(1)) (use Suc.hyps(2) Suc.prems i in simp_all)
  finally show ?case .
qed

lemma setting_pow:
  assumes "unat bytes = 2 ^ k" "5 \<le> k" "k \<le> 31"
  shows "prvGetMPURegionSizeSetting bytes = push_bit 1 (of_nat (k - 1))"
  using size_setting_pow [OF assms(1) order_refl assms(2,3)] by (simp add: prvGetMPURegionSizeSetting_def)

lemma setting_some: "\<exists>j \<le> 31. prvGetMPURegionSizeSetting bytes = push_bit 1 (of_nat j)"
proof -
  let ?r = "size_setting_loop bytes 32 4"
  have "unat ?r \<le> 31" using size_setting_bound [of 4 bytes 32] by (simp add: word_le_nat_alt)
  then show ?thesis by (intro exI [of _ "unat ?r"]) (simp add: prvGetMPURegionSizeSetting_def)
qed

section \<open>Writing one region\<close>

lemma low_bits:
  assumes "32 dvd unat (b :: u32)"
  shows "b AND 31 = 0" "b AND 15 = 0" "b AND 16 = 0" "b AND 0xFFFFFFE0 = b"
proof -
  have "2 ^ 5 dvd unat b" using assms by simp
  from align_mask [OF this] show m: "b AND 0xFFFFFFE0 = b" by simp
  have "b AND n = 0" if "0xFFFFFFE0 AND n = 0" for n :: u32
  proof -
    have "b AND n = (b AND 0xFFFFFFE0) AND n" by (simp only: m)
    then show ?thesis using that by (simp only: and.assoc bit.conj_zero_right)
  qed
  then show "b AND 31 = 0" "b AND 15 = 0" "b AND 16 = 0" by simp_all
qed

lemma mpu_write_region:
  assumes "32 dvd unat b" "n AND 15 = n"
  shows "mpu_write (b OR REGION_VALID OR n, v) mp = mp\<lparr>MPU_RNR := n, MPU_RBAR := (MPU_RBAR mp)(n := b), MPU_RASR := (MPU_RASR mp)(n := v)\<rparr>"
proof -
  have n: "n AND 16 = 0" "n AND 0xFFFFFFE0 = 0"
  proof -
    have "n AND c = 0" if "15 AND c = 0" for c
      using that assms(2) by (metis and.assoc bit.conj_zero_right)
    then show "n AND 16 = 0" "n AND 0xFFFFFFE0 = 0" by simp_all
  qed
  show ?thesis using low_bits [OF assms(1)] assms(2) n
    by (simp add: mpu_write_def Let_def bit.conj_disj_distrib2)
qed

text \<open>The fields of an attribute word whose parameters lie above its low half.\<close>

lemma attribute_fields:
  assumes "j \<le> 31" "p AND 0xFFFF = (0 :: u32)"
  shows "drop_bit 24 (p OR push_bit 1 (of_nat j) OR REGION_ENABLE) AND 7 = drop_bit 24 p AND 7"
    "bit (p OR push_bit 1 (of_nat j) OR REGION_ENABLE) 28 = bit p 28" "bit (p OR push_bit 1 (of_nat j) OR REGION_ENABLE) 0"
    "unat (drop_bit 1 (p OR push_bit 1 (of_nat j) OR REGION_ENABLE) AND 31) = j"
proof -
  let ?sf = "of_nat j :: u32"
  have tj: "take_bit 5 j = j" using assms(1) by (simp add: take_bit_nat_eq_self_iff)
  then have j5: "\<not> bit j n" if "5 \<le> n" for n using that bit_take_bit_iff [of 5 j n] by simp
  from tj have "take_bit 5 ?sf = ?sf" by (metis of_nat_take_bit)
  then have sf5: "\<not> bit ?sf n" if "5 \<le> n" for n using that bit_take_bit_iff [of 5 ?sf n] by simp
  have p0: "\<not> bit p n" if "n < 16" for n
  proof -
    have "take_bit 16 p = 0" using assms(2) by (simp add: take_bit_eq_mask mask_eq_exp_minus_1)
    then show ?thesis using that bit_take_bit_iff [of 16 p n] by simp
  qed
  define q where "q = push_bit 1 ?sf"
  have q: "bit q n \<longleftrightarrow> 1 \<le> n \<and> n < 32 \<and> bit ?sf (n - 1)" for n
    unfolding q_def by (simp only: bit_push_bit_iff possible_bit_word) auto
  show "bit (p OR push_bit 1 ?sf OR REGION_ENABLE) 28 = bit p 28" "bit (p OR push_bit 1 ?sf OR REGION_ENABLE) 0"
    unfolding q_def [symmetric] by (auto simp: bit_simps q sf5 j5)
  show "drop_bit 24 (p OR push_bit 1 ?sf OR REGION_ENABLE) AND 7 = drop_bit 24 p AND 7"
    unfolding q_def [symmetric] by (rule bit_word_eqI) (auto simp: bit_simps q sf5 j5)
  have "drop_bit 1 (p OR q OR REGION_ENABLE) AND 31 = ?sf"
  proof (rule bit_word_eqI)
    fix n
    assume "n < LENGTH(32)"
    have m: "(31 :: u32) = mask 5" by (simp add: mask_eq_exp_minus_1)
    show "bit (drop_bit 1 (p OR q OR REGION_ENABLE) AND 31) n = bit ?sf n"
    proof (cases "n < 5")
      case True
      then show ?thesis unfolding m by (simp add: bit_drop_bit_eq bit_or_iff bit_and_iff q bit_1_iff p0 bit_mask_iff)
    next
      case False
      then show ?thesis unfolding m using sf5 [of n] by (simp add: bit_and_iff bit_mask_iff)
    qed
  qed
  then show "unat (drop_bit 1 (p OR push_bit 1 ?sf OR REGION_ENABLE) AND 31) = j"
    using assms(1) by (simp add: q_def unat_of_nat)
qed

section \<open>The blocks of a slot\<close>

text \<open>A block of a slot as a region of the unit: aligned to its size, inside the pool.\<close>

definition unit_block :: "addr \<Rightarrow> addr \<Rightarrow> nat \<Rightarrow> bool" where
  "unit_block B a k \<longleftrightarrow> 5 \<le> k \<and> k \<le> 17 \<and> 2 ^ k dvd a \<and> B \<le> a \<and> a + 2 ^ k \<le> B + POOL_SIZE"

lemma live_region_block:
  assumes "buddy_ok (st, m)" "(a, b) \<in> live_regions (st, m)"
  shows "\<exists>k \<ge> 10. b = a + 2 ^ k \<and> unit_block (s_base st) a k"
proof -
  obtain k where k: "(k, a) \<in> live_blocks (st, m)" "b = a + 2 ^ k"
    using assms(2) by (auto simp: live_regions_def region_of_def)
  from buddy_live_bounds [OF assms(1) k(1)] have "10 \<le> k \<and> unit_block (s_base st) a k"
    by (auto simp: unit_block_def)
  then show ?thesis using k(2) by blast
qed

lemma slot_blocks:
  assumes "sup_ok B s" "i < MAX_SLOTS" "m_state (h_slots s ! i) \<noteq> SLOT_EMPTY"
  defines "m \<equiv> h_slots s ! i"
  obtains kt kd where "text_hi m = text_lo m + 2 ^ kt" "unit_block B (text_lo m) kt" "data_hi m = data_lo m + 2 ^ kd"
    "unit_block B (data_lo m) kd" "hs_hi m = hs_lo m + 2 ^ 13" "unit_block B (hs_lo m) 13"
    "{text_lo m ..< text_hi m} \<inter> {data_lo m ..< data_hi m} = {}" "{text_lo m ..< text_hi m} \<inter> {hs_lo m ..< hs_hi m} = {}"
    "{data_lo m ..< data_hi m} \<inter> {hs_lo m ..< hs_hi m} = {}"
proof -
  have inv: "arena_inv (h_slots s) (u_buddy s, h_mem s)" "length (h_slots s) = MAX_SLOTS" "s_base (u_buddy s) = B"
    using assms(1) by (simp_all add: sup_ok_def sup_inv_def)
  have ok: "buddy_ok (u_buddy s, h_mem s)" using inv(1) by (simp add: arena_inv_def)
  have m: "arena_held m" "bounds_ok m" "m \<in> set (h_slots s)"
    using sup_ok_slot [OF assms(1-3)] inv(2) assms(2) by (simp_all add: m_def)
  have live: "r \<in> live_regions (u_buddy s, h_mem s)" if "r \<in> set (regions_of m)" for r
    by (rule arena_inv_live [OF inv(1) m(3) that])
  have r: "regions_of m = [(text_lo m, text_hi m), (data_lo m, data_hi m), (hs_lo m, hs_hi m)]" using m(1) by (simp add: regions_of_def)
  note lives = live [of "(text_lo m, text_hi m)"] live [of "(data_lo m, data_hi m)"] live [of "(hs_lo m, hs_hi m)"]
  obtain kt where t: "text_hi m = text_lo m + 2 ^ kt" "unit_block B (text_lo m) kt"
    using live_region_block [OF ok lives(1)] r inv(3) by auto
  obtain kd where d: "data_hi m = data_lo m + 2 ^ kd" "unit_block B (data_lo m) kd"
    using live_region_block [OF ok lives(2)] r inv(3) by auto
  obtain kh where h: "hs_hi m = hs_lo m + 2 ^ kh" "unit_block B (hs_lo m) kh"
    using live_region_block [OF ok lives(3)] r inv(3) by auto
  have "(2 :: nat) ^ kh = 2 ^ 13" using h(1) m(2) by (simp add: bounds_ok_def)
  then have "kh = 13" by (simp only: power_inject_exp [of 2] one_less_numeral_iff semiring_norm)
  then have h13: "hs_hi m = hs_lo m + 2 ^ 13" "unit_block B (hs_lo m) 13" using h by simp_all
  have "distinct (regions_of m)"
    using arena_inv_distinct [OF inv(1)] m(3) by (auto simp: distinct_concat_iff)
  then have ne: "(text_lo m, text_hi m) \<noteq> (data_lo m, data_hi m)" "(text_lo m, text_hi m) \<noteq> (hs_lo m, hs_hi m)"
    "(data_lo m, data_hi m) \<noteq> (hs_lo m, hs_hi m)" unfolding r by auto
  have l: "(text_lo m, text_hi m) \<in> live_regions (u_buddy s, h_mem s)" "(data_lo m, data_hi m) \<in> live_regions (u_buddy s, h_mem s)"
    "(hs_lo m, hs_hi m) \<in> live_regions (u_buddy s, h_mem s)" using lives by (simp_all add: r)
  show thesis
    by (rule that [OF t d h13]) (rule live_regions_disjoint [OF ok]; fact l ne)+
qed

section \<open>The registers while a module runs\<close>

definition module_unit :: "port_syms \<Rightarrow> module \<Rightarrow> mpu_hw \<Rightarrow> mpu_hw" where
  "module_unit y m mp = restore_regions (task_settings y (fill_task_def m)) (prvSetupMPU y mp)"

text \<open>An attribute word: parameters and the exponent of the size.\<close>

definition attributes :: "u32 \<Rightarrow> nat \<Rightarrow> u32" where
  "attributes p k = p OR push_bit 1 (of_nat (k - 1)) OR REGION_ENABLE"

definition syms_aligned :: "port_syms \<Rightarrow> bool" where
  "syms_aligned y \<longleftrightarrow> 32 dvd unat (fst (py_flash y)) \<and> 32 dvd unat (fst (py_functions y)) \<and> 32 dvd unat (fst (py_data y))"

lemma span_some: "\<exists>k. 1 \<le> k \<and> k \<le> 32 \<and> (\<forall>p q. p OR q OR span r OR REGION_ENABLE = attributes (p OR q) k)"
proof -
  obtain j where "j \<le> 31" "span r = push_bit 1 (of_nat j)" using setting_some unfolding span_def by blast
  then show ?thesis by (intro exI [of _ "Suc j"]) (simp add: attributes_def or.assoc)
qed

lemma peripheral_span: "span (PERIPHERALS_START, PERIPHERALS_END) = push_bit 1 (of_nat (29 - 1))"
  by (simp add: span_def prvGetMPURegionSizeSetting_def size_setting_loop.simps)

lemma setup_regs:
  assumes "syms_aligned y"
  shows "\<exists>k0 k1 k2. (\<forall>k \<in> {k0, k1, k2}. 1 \<le> k \<and> k \<le> 32) \<and> MPU_RASR (prvSetupMPU y mp) 0 = attributes (REGION_READ_ONLY OR TEX_S_C_B) k0
      \<and> MPU_RASR (prvSetupMPU y mp) 1 = attributes (REGION_PRIVILEGED_READ_ONLY OR TEX_S_C_B) k1
      \<and> MPU_RASR (prvSetupMPU y mp) 2 = attributes (REGION_PRIVILEGED_READ_WRITE OR TEX_S_C_B) k2
      \<and> MPU_RASR (prvSetupMPU y mp) 3 = attributes (REGION_READ_WRITE OR REGION_EXECUTE_NEVER) 29
      \<and> MPU_RBAR (prvSetupMPU y mp) 3 = PERIPHERALS_START"
proof -
  have al: "32 dvd unat (fst (py_flash y))" "32 dvd unat (fst (py_functions y))" "32 dvd unat (fst (py_data y))"
    "32 dvd unat PERIPHERALS_START" using assms by (simp_all add: syms_aligned_def)
  have n: "(0 :: u32) AND 15 = 0" "(1 :: u32) AND 15 = 1" "(2 :: u32) AND 15 = 2" "(3 :: u32) AND 15 = 3" by simp_all
  note w = mpu_write_region [OF al(1) n(1)] mpu_write_region [OF al(2) n(2)] mpu_write_region [OF al(3) n(3)] mpu_write_region [OF al(4) n(4)]
  obtain k0 where k0: "1 \<le> k0" "k0 \<le> 32" "\<And>p q. p OR q OR span (py_flash y) OR REGION_ENABLE = attributes (p OR q) k0" using span_some by blast
  obtain k1 where k1: "1 \<le> k1" "k1 \<le> 32" "\<And>p q. p OR q OR span (py_functions y) OR REGION_ENABLE = attributes (p OR q) k1" using span_some by blast
  obtain k2 where k2: "1 \<le> k2" "k2 \<le> 32" "\<And>p q. p OR q OR span (py_data y) OR REGION_ENABLE = attributes (p OR q) k2" using span_some by blast
  have p: "REGION_READ_WRITE OR REGION_EXECUTE_NEVER OR span (PERIPHERALS_START, PERIPHERALS_END) OR REGION_ENABLE
    = attributes (REGION_READ_WRITE OR REGION_EXECUTE_NEVER) 29" by (simp only: peripheral_span attributes_def or.assoc)
  have "prvSetupMPU y mp = (let mp1 = fold mpu_write (fixed_regions y) mp in
     mp1\<lparr>SCB_SHCSR := SCB_SHCSR mp1 OR push_bit 16 1, MPU_CTRL := MPU_CTRL mp1 OR (1 OR push_bit 2 1)\<rparr>)"
    by (simp only: prvSetupMPU_def)
  then have regs: "MPU_RASR (prvSetupMPU y mp) = (MPU_RASR mp)(0 := attributes (REGION_READ_ONLY OR TEX_S_C_B) k0,
      1 := attributes (REGION_PRIVILEGED_READ_ONLY OR TEX_S_C_B) k1, 2 := attributes (REGION_PRIVILEGED_READ_WRITE OR TEX_S_C_B) k2,
      3 := attributes (REGION_READ_WRITE OR REGION_EXECUTE_NEVER) 29)"
    "MPU_RBAR (prvSetupMPU y mp) 3 = PERIPHERALS_START"
    unfolding fixed_regions_def k0(3) k1(3) k2(3) p by (simp_all only: fold.simps o_apply id_apply w Let_def, simp_all)
  show ?thesis
    by (rule exI [of _ k0], rule exI [of _ k1], rule exI [of _ k2]) (use regs k0 k1 k2 in simp)
qed

lemma block_word:
  assumes "unit_block B a k" "B + POOL_SIZE \<le> 2 ^ 32"
  shows "unat (of_nat a :: u32) = a" "unat (of_nat (2 ^ k) :: u32) = 2 ^ k" "32 dvd a" "0 < (of_nat (2 ^ k) :: u32)"
    "5 \<le> k" "k \<le> 31"
proof -
  have k: "5 \<le> k" "k \<le> 17" "2 ^ k dvd a" "a + 2 ^ k \<le> B + POOL_SIZE" using assms(1) by (simp_all add: unit_block_def)
  have pos: "(0 :: nat) < 2 ^ k" by simp
  then have "a < 2 ^ 32" using k(4) assms(2) by linarith
  then show "unat (of_nat a :: u32) = a" by (simp add: unat_of_nat)
  have "(2 :: nat) ^ k \<le> 2 ^ 17" using k(2) by (intro power_increasing) auto
  then show u: "unat (of_nat (2 ^ k) :: u32) = 2 ^ k" by (simp only: unat_of_nat) simp
  show "0 < (of_nat (2 ^ k) :: u32)" using u pos by (simp only: word_less_nat_alt unat_0)
  show "32 dvd a" using dvd_trans [OF le_imp_power_dvd [OF k(1)] k(3)] by simp
  show "5 \<le> k" "k \<le> 31" using k by simp_all
qed

lemma block_setting:
  assumes "unit_block B a k" "B + POOL_SIZE \<le> 2 ^ 32"
  shows "prvGetMPURegionSizeSetting (of_nat (2 ^ k)) OR p OR REGION_ENABLE = attributes p k"
  using setting_pow [OF block_word(2,5,6) [OF assms]] by (simp only: attributes_def or.left_commute)

lemma store_three:
  "vPortStoreTaskMPUSettings y (Some [a, b, c]) bottom depth st =
     [if 0 < depth then stack_region bottom depth else st ! 0, task_region 1 a, task_region 2 b, task_region 3 c]"
  by (simp add: vPortStoreTaskMPUSettings_def upt_rec numeral_2_eq_2 numeral_3_eq_3)

lemma settings_eq:
  assumes "text_hi m = text_lo m + 2 ^ kt" "unit_block B (text_lo m) kt" "data_hi m = data_lo m + 2 ^ kd" "unit_block B (data_lo m) kd"
    "hs_hi m = hs_lo m + 2 ^ 13" "unit_block B (hs_lo m) 13" "B + POOL_SIZE \<le> 2 ^ 32"
  shows "task_settings y (fill_task_def m) =
    [(of_nat (hs_lo m + 6144) OR REGION_VALID OR 4, attributes (REGION_READ_WRITE OR TEX_S_C_B) 11),
     (of_nat (text_lo m) OR REGION_VALID OR 5, attributes (REGION_READ_ONLY OR TEX_S_C_B) kt),
     (of_nat (data_lo m) OR REGION_VALID OR 6, attributes (REGION_READ_WRITE OR REGION_EXECUTE_NEVER OR TEX_S_C_B) kd),
     (of_nat (hs_lo m) OR REGION_VALID OR 7, attributes (REGION_READ_WRITE OR REGION_EXECUTE_NEVER OR TEX_S_C_B) 12)]"
proof -
  note bt = block_word [OF assms(2,7)] and bd = block_word [OF assms(4,7)]
  have h: "unit_block B (hs_lo m) 12" "hs_lo m + 6144 < 2 ^ 32"
    using assms(6,7) dvd_trans [of 4096 8192 "hs_lo m"] by (simp_all add: unit_block_def)
  note bh = block_word [OF h(1) assms(7)]
  have len: "sub32 (text_hi m) (text_lo m) = 2 ^ kt" "sub32 (data_hi m) (data_lo m) = 2 ^ kd"
    using assms(2,4,7) unfolding assms(1,3) by (simp_all add: unit_block_def sub32_def)
  have stack: "add32 (hs_lo m) (HEAP_SIZE + GUARD_SIZE) = hs_lo m + 6144" using h(2) by (simp add: add32_def)
  have depth: "of_nat (STACK_SIZE div 4) * (4 :: u32) = of_nat (2 ^ 11)" by simp
  have "unat (of_nat (2 ^ 11) :: u32) = 2 ^ 11" by simp
  then have sset: "prvGetMPURegionSizeSetting (of_nat (2 ^ 11)) = push_bit 1 (of_nat (11 - 1))" by (rule setting_pow) simp_all
  have heap: "(of_nat HEAP_SIZE :: u32) = of_nat (2 ^ 12)" by simp
  have n: "STACK_REGION + of_nat 1 = 5" "STACK_REGION + of_nat 2 = 6" "STACK_REGION + of_nat 3 = 7" by simp_all
  have pos: "(0 :: u32) < of_nat (STACK_SIZE div 4)" by simp
  have "task_settings y (fill_task_def m) = vPortStoreTaskMPUSettings y
      (Some [(of_nat (text_lo m), of_nat (2 ^ kt), ulParameters READ_ONLY), (of_nat (data_lo m), of_nat (2 ^ kd), ulParameters READ_WRITE_XN),
        (of_nat (hs_lo m), of_nat (2 ^ 12), ulParameters READ_WRITE_XN)]) (of_nat (hs_lo m + 6144)) (of_nat (STACK_SIZE div 4)) []"
    by (simp only: task_settings_def fill_task_def_def Let_def task_def.simps list.map case_prod_conv len stack heap)
  then have "task_settings y (fill_task_def m) = [stack_region (of_nat (hs_lo m + 6144)) (of_nat (STACK_SIZE div 4)),
      task_region 1 (of_nat (text_lo m), of_nat (2 ^ kt), ulParameters READ_ONLY),
      task_region 2 (of_nat (data_lo m), of_nat (2 ^ kd), ulParameters READ_WRITE_XN),
      task_region 3 (of_nat (hs_lo m), of_nat (2 ^ 12), ulParameters READ_WRITE_XN)]"
    by (simp only: store_three pos if_True)
  moreover have "stack_region (of_nat (hs_lo m + 6144)) (of_nat (STACK_SIZE div 4))
      = (of_nat (hs_lo m + 6144) OR REGION_VALID OR 4, attributes (REGION_READ_WRITE OR TEX_S_C_B) 11)"
    by (simp only: stack_region_def depth sset attributes_def or.assoc or.left_commute)
  ultimately show ?thesis
    by (simp only: task_region_def case_prod_conv bt(4) bd(4) bh(4) if_True n block_setting [OF assms(2,7)] block_setting [OF assms(4,7)]
        block_setting [OF h(1) assms(7)] ulParameters.simps)
qed

lemma attributes_says:
  assumes "1 \<le> k" "k \<le> 32" "p AND 0xFFFF = (0 :: u32)"
  shows "drop_bit 24 (attributes p k) AND 7 = drop_bit 24 p AND 7" "bit (attributes p k) 28 = bit p 28" "bit (attributes p k) 0"
    "unat (drop_bit 1 (attributes p k) AND 31) + 1 = k"
proof -
  have "k - 1 \<le> 31" using assms(2) by simp
  note f = attribute_fields [OF this assms(3)]
  show "drop_bit 24 (attributes p k) AND 7 = drop_bit 24 p AND 7" "bit (attributes p k) 28 = bit p 28" "bit (attributes p k) 0"
    unfolding attributes_def by (fact f)+
  show "unat (drop_bit 1 (attributes p k) AND 31) + 1 = k" unfolding attributes_def using f(4) assms(1) by simp
qed

lemma region_matches_block:
  assumes "MPU_RBAR u n = b" "MPU_RASR u n = attributes p k" "1 \<le> k" "k \<le> 32" "p AND 0xFFFF = 0" "2 ^ k dvd unat b"
  shows "region_matches u n a \<longleftrightarrow> unat b \<le> a \<and> a < unat b + 2 ^ k"
  unfolding region_matches_def Let_def assms(1,2) attributes_says(4) [OF assms(3-5)]
  using attributes_says(3) [OF assms(3-5)] aligned_div [OF assms(6), of a] by simp

lemma restore_four:
  assumes u: "u = restore_regions [(b4 OR REGION_VALID OR 4, v4), (b5 OR REGION_VALID OR 5, v5), (b6 OR REGION_VALID OR 6, v6), (b7 OR REGION_VALID OR 7, v7)] mp"
    and al: "32 dvd unat b4" "32 dvd unat b5" "32 dvd unat b6" "32 dvd unat b7"
  shows "MPU_RBAR u = (MPU_RBAR mp)(4 := b4, 5 := b5, 6 := b6, 7 := b7)" "MPU_RASR u = (MPU_RASR mp)(4 := v4, 5 := v5, 6 := v6, 7 := v7)"
    "bit (MPU_CTRL u) 0"
proof -
  have n: "(4 :: u32) AND 15 = 4" "(5 :: u32) AND 15 = 5" "(6 :: u32) AND 15 = 6" "(7 :: u32) AND 15 = 7" by simp_all
  note w = mpu_write_region [OF al(1) n(1)] mpu_write_region [OF al(2) n(2)] mpu_write_region [OF al(3) n(3)] mpu_write_region [OF al(4) n(4)]
  have t: "take 4 [p, q, r, t] = [p, q, r, t]" for p q r t :: "u32 \<times> u32" by simp
  show "MPU_RBAR u = (MPU_RBAR mp)(4 := b4, 5 := b5, 6 := b6, 7 := b7)" "MPU_RASR u = (MPU_RASR mp)(4 := v4, 5 := v5, 6 := v6, 7 := v7)"
    "bit (MPU_CTRL u) 0"
    unfolding u restore_regions_def t by (simp_all only: fold.simps o_apply id_apply w Let_def, simp_all add: bit_or_iff)
qed

text \<open>The addresses of the general peripherals.\<close>

definition peripheral :: "addr \<Rightarrow> bool" where
  "peripheral a \<longleftrightarrow> 0x40000000 \<le> a \<and> a < 0x60000000"

text \<open>The region that decides, and what it allows to unprivileged code.\<close>

lemma module_unit_decides:
  assumes blocks: "text_hi m = text_lo m + 2 ^ kt" "unit_block B (text_lo m) kt" "data_hi m = data_lo m + 2 ^ kd" "unit_block B (data_lo m) kd"
    "hs_hi m = hs_lo m + 2 ^ 13" "unit_block B (hs_lo m) 13" and B: "B + POOL_SIZE \<le> 0x40000000" and y: "syms_aligned y"
    and unit: "u = module_unit y m mp"
  shows "mpu_allows u False acc a \<longleftrightarrow>
    (if hs_lo m \<le> a \<and> a < hs_lo m + HEAP_SIZE then acc \<noteq> Fetch
     else if data_lo m \<le> a \<and> a < data_hi m then acc \<noteq> Fetch
     else if text_lo m \<le> a \<and> a < text_hi m then acc \<noteq> Store
     else if hs_lo m + HEAP_SIZE + GUARD_SIZE \<le> a \<and> a < hs_hi m then True
     else if peripheral a then acc \<noteq> Fetch
     else deciding_region u a = Some 0 \<and> acc \<noteq> Store)"
    and "deciding_region u a = Some 0 \<Longrightarrow> a \<notin> own_bytes m \<and> \<not> peripheral a"
proof -
  have B32: "B + POOL_SIZE \<le> 2 ^ 32" using B by simp
  let ?u0 = "prvSetupMPU y mp"
  let ?bs = "of_nat (hs_lo m + 6144) :: u32" and ?bt = "of_nat (text_lo m) :: u32" and ?bd = "of_nat (data_lo m) :: u32" and ?bh = "of_nat (hs_lo m) :: u32"
  have hb: "unit_block B (hs_lo m) 12" "unit_block B (hs_lo m + 6144) 11"
    using blocks(6) dvd_trans [of 4096 8192 "hs_lo m"] dvd_trans [of 2048 8192 "hs_lo m"] by (simp_all add: unit_block_def)
  note wt = block_word [OF blocks(2) B32] and wd = block_word [OF blocks(4) B32] and wh = block_word [OF hb(1) B32] and ws = block_word [OF hb(2) B32]
  have u: "u = restore_regions [(?bs OR REGION_VALID OR 4, attributes (REGION_READ_WRITE OR TEX_S_C_B) 11),
     (?bt OR REGION_VALID OR 5, attributes (REGION_READ_ONLY OR TEX_S_C_B) kt),
     (?bd OR REGION_VALID OR 6, attributes (REGION_READ_WRITE OR REGION_EXECUTE_NEVER OR TEX_S_C_B) kd),
     (?bh OR REGION_VALID OR 7, attributes (REGION_READ_WRITE OR REGION_EXECUTE_NEVER OR TEX_S_C_B) 12)] ?u0"
    unfolding unit module_unit_def settings_eq [OF blocks B32] ..
  have al: "32 dvd unat ?bs" "32 dvd unat ?bt" "32 dvd unat ?bd" "32 dvd unat ?bh" using wt wd wh ws by metis+
  note regs = restore_four [OF u al]
  obtain k0 k1 k2 where k: "\<forall>k \<in> {k0, k1, k2}. 1 \<le> k \<and> k \<le> 32" and low: "MPU_RASR ?u0 0 = attributes (REGION_READ_ONLY OR TEX_S_C_B) k0"
      "MPU_RASR ?u0 1 = attributes (REGION_PRIVILEGED_READ_ONLY OR TEX_S_C_B) k1"
      "MPU_RASR ?u0 2 = attributes (REGION_PRIVILEGED_READ_WRITE OR TEX_S_C_B) k2"
      "MPU_RASR ?u0 3 = attributes (REGION_READ_WRITE OR REGION_EXECUTE_NEVER) 29" "MPU_RBAR ?u0 3 = PERIPHERALS_START"
    using setup_regs [OF y, of mp] by blast
  have kr: "1 \<le> kt" "kt \<le> 32" "1 \<le> kd" "kd \<le> 32" "1 \<le> k0" "k0 \<le> 32" "1 \<le> k1" "k1 \<le> 32" "1 \<le> k2" "k2 \<le> 32"
    using wt(5,6) wd(5,6) k by auto
  have rb: "MPU_RBAR u 7 = ?bh" "MPU_RBAR u 6 = ?bd" "MPU_RBAR u 5 = ?bt" "MPU_RBAR u 4 = ?bs" "MPU_RBAR u 3 = PERIPHERALS_START"
    and ra: "MPU_RASR u 7 = attributes (REGION_READ_WRITE OR REGION_EXECUTE_NEVER OR TEX_S_C_B) 12"
      "MPU_RASR u 6 = attributes (REGION_READ_WRITE OR REGION_EXECUTE_NEVER OR TEX_S_C_B) kd"
      "MPU_RASR u 5 = attributes (REGION_READ_ONLY OR TEX_S_C_B) kt" "MPU_RASR u 4 = attributes (REGION_READ_WRITE OR TEX_S_C_B) 11"
      "MPU_RASR u 3 = attributes (REGION_READ_WRITE OR REGION_EXECUTE_NEVER) 29" "MPU_RASR u 2 = attributes (REGION_PRIVILEGED_READ_WRITE OR TEX_S_C_B) k2"
      "MPU_RASR u 1 = attributes (REGION_PRIVILEGED_READ_ONLY OR TEX_S_C_B) k1" "MPU_RASR u 0 = attributes (REGION_READ_ONLY OR TEX_S_C_B) k0"
    unfolding regs(1,2) using low by simp_all
  have p0: "(REGION_READ_WRITE OR REGION_EXECUTE_NEVER OR TEX_S_C_B) AND 0xFFFF = 0" "(REGION_READ_ONLY OR TEX_S_C_B) AND 0xFFFF = 0"
    "(REGION_READ_WRITE OR TEX_S_C_B) AND 0xFFFF = 0" "(REGION_READ_WRITE OR REGION_EXECUTE_NEVER) AND 0xFFFF = 0"
    "(REGION_PRIVILEGED_READ_WRITE OR TEX_S_C_B) AND 0xFFFF = 0" "(REGION_PRIVILEGED_READ_ONLY OR TEX_S_C_B) AND 0xFFFF = 0" by simp_all
  have dv: "2 ^ 12 dvd unat ?bh" "2 ^ kd dvd unat ?bd" "2 ^ kt dvd unat ?bt" "2 ^ 11 dvd unat ?bs" "2 ^ 29 dvd unat PERIPHERALS_START"
    using hb blocks(2,4) wt(1) wd(1) wh(1) ws(1) by (simp_all only: unit_block_def) simp
  have m7: "region_matches u 7 a \<longleftrightarrow> hs_lo m \<le> a \<and> a < hs_lo m + HEAP_SIZE"
    using region_matches_block [OF rb(1) ra(1) _ _ p0(1) dv(1), of a] wh(1) by simp
  have m6: "region_matches u 6 a \<longleftrightarrow> data_lo m \<le> a \<and> a < data_hi m"
    using region_matches_block [OF rb(2) ra(2) kr(3,4) p0(1) dv(2), of a] wd(1) blocks(3) by simp
  have m5: "region_matches u 5 a \<longleftrightarrow> text_lo m \<le> a \<and> a < text_hi m"
    using region_matches_block [OF rb(3) ra(3) kr(1,2) p0(2) dv(3), of a] wt(1) blocks(1) by simp
  have m4: "region_matches u 4 a \<longleftrightarrow> hs_lo m + HEAP_SIZE + GUARD_SIZE \<le> a \<and> a < hs_hi m"
    using region_matches_block [OF rb(4) ra(4) _ _ p0(3) dv(4), of a] ws(1) blocks(5) by (simp add: ac_simps)
  have m3: "region_matches u 3 a \<longleftrightarrow> peripheral a"
    using region_matches_block [OF rb(5) ra(5) _ _ p0(4) dv(5), of a] by (simp add: peripheral_def)
  have ap: "drop_bit 24 (MPU_RASR u 7) AND 7 = 3" "drop_bit 24 (MPU_RASR u 6) AND 7 = 3" "drop_bit 24 (MPU_RASR u 5) AND 7 = 6"
    "drop_bit 24 (MPU_RASR u 4) AND 7 = 3" "drop_bit 24 (MPU_RASR u 3) AND 7 = 3" "drop_bit 24 (MPU_RASR u 2) AND 7 = 1"
    "drop_bit 24 (MPU_RASR u 1) AND 7 = 5" "drop_bit 24 (MPU_RASR u 0) AND 7 = 6"
    unfolding ra by (subst attributes_says(1); use kr in simp)+
  have xn: "bit (MPU_RASR u 7) 28" "bit (MPU_RASR u 6) 28" "\<not> bit (MPU_RASR u 5) 28" "\<not> bit (MPU_RASR u 4) 28"
    "bit (MPU_RASR u 3) 28" "\<not> bit (MPU_RASR u 0) 28"
    unfolding ra by (subst attributes_says(2); use kr in simp)+
  have "deciding_region u a = (if region_matches u 7 a then Some 7 else if region_matches u 6 a then Some 6
      else if region_matches u 5 a then Some 5 else if region_matches u 4 a then Some 4 else if region_matches u 3 a then Some 3
      else if region_matches u 2 a then Some 2 else if region_matches u 1 a then Some 1 else if region_matches u 0 a then Some 0 else None)"
    by (simp add: deciding_region_def)
  note d = this [unfolded m7 m6 m5 m4 m3]
  show "mpu_allows u False acc a \<longleftrightarrow>
    (if hs_lo m \<le> a \<and> a < hs_lo m + HEAP_SIZE then acc \<noteq> Fetch
     else if data_lo m \<le> a \<and> a < data_hi m then acc \<noteq> Fetch
     else if text_lo m \<le> a \<and> a < text_hi m then acc \<noteq> Store
     else if hs_lo m + HEAP_SIZE + GUARD_SIZE \<le> a \<and> a < hs_hi m then True
     else if peripheral a then acc \<noteq> Fetch
     else deciding_region u a = Some 0 \<and> acc \<noteq> Store)"
    using regs(3) ap xn by (auto simp: mpu_allows_def d ap_allows_def)
  show "deciding_region u a = Some 0 \<Longrightarrow> a \<notin> own_bytes m \<and> \<not> peripheral a"
    unfolding d by (auto simp: own_bytes_def user_regions_def split: if_splits)
qed

section \<open>What a module can access\<close>

text \<open>C7: What the hardware lets a module do. While the task of a module runs, its unprivileged code can store to its data, heap and
  stack and nowhere else in memory, load from these and from its code besides, and run its code; the firmware's flash, except
  the kernel, can be read and run. The guard below the stack is closed. Two things are open that the sandbox means to be closed: the
  stack can be executed, and every register of the general peripherals (\<open>0x40000000\<close> to \<open>0x5FFFFFFF\<close>) can be read and written.\<close>

theorem module_task_access:
  assumes "sup_ok B s" "i < MAX_SLOTS" "m_state (h_slots s ! i) \<noteq> SLOT_EMPTY" "B + POOL_SIZE \<le> 0x40000000" "syms_aligned y"
  shows "let m = h_slots s ! i; u = module_unit y m mp; firmware = (deciding_region u a = Some 0) in
    mpu_allows u False Store a = (a \<in> writable_bytes m \<or> peripheral a)
    \<and> mpu_allows u False Load a = (a \<in> own_bytes m \<or> peripheral a \<or> firmware)
    \<and> mpu_allows u False Fetch a = (a \<in> {text_lo m ..< text_hi m} \<or> a \<in> {hs_lo m + HEAP_SIZE + GUARD_SIZE ..< hs_hi m} \<or> firmware)"
proof -
  let ?m = "h_slots s ! i"
  obtain kt kd where b: "text_hi ?m = text_lo ?m + 2 ^ kt" "unit_block B (text_lo ?m) kt" "data_hi ?m = data_lo ?m + 2 ^ kd"
    "unit_block B (data_lo ?m) kd" "hs_hi ?m = hs_lo ?m + 2 ^ 13" "unit_block B (hs_lo ?m) 13"
    and apart: "{text_lo ?m ..< text_hi ?m} \<inter> {data_lo ?m ..< data_hi ?m} = {}" "{text_lo ?m ..< text_hi ?m} \<inter> {hs_lo ?m ..< hs_hi ?m} = {}"
    "{data_lo ?m ..< data_hi ?m} \<inter> {hs_lo ?m ..< hs_hi ?m} = {}"
    by (rule slot_blocks [OF assms(1-3)])
  note d = module_unit_decides [OF b assms(4,5) refl, where mp = mp and a = a]
  have np: "\<not> peripheral a" if "a \<in> own_bytes ?m"
    using that b assms(4) by (auto simp: own_bytes_def user_regions_def peripheral_def unit_block_def)
  have h: "hs_lo ?m + HEAP_SIZE \<le> hs_hi ?m" "hs_hi ?m = hs_lo ?m + 8192" using b(5) by simp_all
  have t: "a \<notin> {data_lo ?m ..< data_hi ?m} \<and> a \<notin> {hs_lo ?m ..< hs_hi ?m}" if "text_lo ?m \<le> a" "a < text_hi ?m"
    using that apart by auto
  have e: "a \<notin> {hs_lo ?m ..< hs_hi ?m}" if "data_lo ?m \<le> a" "a < data_hi ?m" using that apart by auto
  note own = own_bytes_def [of ?m] user_regions_def [of ?m] writable_bytes_def [of ?m]
  have "mpu_allows (module_unit y ?m mp) False Store a = (a \<in> writable_bytes ?m \<or> peripheral a)"
    unfolding d(1) using np t e h(2) by (auto simp: own)
  moreover have "mpu_allows (module_unit y ?m mp) False Load a = (a \<in> own_bytes ?m \<or> peripheral a \<or> deciding_region (module_unit y ?m mp) a = Some 0)"
    unfolding d(1) using h(2) by (auto simp: own)
  moreover have "mpu_allows (module_unit y ?m mp) False Fetch a = (a \<in> {text_lo ?m ..< text_hi ?m} \<or> a \<in> {hs_lo ?m + HEAP_SIZE + GUARD_SIZE ..< hs_hi ?m}
      \<or> deciding_region (module_unit y ?m mp) a = Some 0)"
    unfolding d(1) using d(2) np t e h(2) by (auto simp: own)
  ultimately show ?thesis by (simp add: Let_def)
qed

text \<open>The example module, with the linker script's layout of the flash and of the kernel's data.\<close>

definition psyms0 :: port_syms where
  "psyms0 = \<lparr>py_flash = (0x08000000, 0x0803C000), py_functions = (0x08008000, 0x08010000), py_data = (0x20000000, 0x20008000),
     py_sram = (0x20000000, 0x20060000)\<rparr>"

theorem module_task_access_witness:
  "mpu_allows (module_unit psyms0 (h_slots pushed ! 0) mpu0) False Store 0x40020C14"
proof -
  have "m_state (h_slots pushed ! 0) \<noteq> SLOT_EMPTY" using pushed(3) by simp
  moreover have "ARENA + POOL_SIZE \<le> 0x40000000" "syms_aligned psyms0" by (simp_all add: psyms0_def syms_aligned_def)
  ultimately show ?thesis
    using module_task_access [OF pushed_ok, of 0 psyms0 mpu0 "0x40020C14"] by (simp add: Let_def peripheral_def)
qed

end
