(* ===== verification/Module_Decl.thy ===== *)
theory Module_Decl
  imports Loader Host_Events
begin

text \<open>
  The macros of \<open>src/mdl/host/host_api.h\<close> with which the source of a module declares its name, its command, its resources and
  its events. They fix bytes in sections of their own; the packer copies these into the image, and the loader reads
  them back. The bounds of the arrays and the widths of the fields are those of C.
\<close>

section \<open>The macros\<close>

definition HOST_API_ABI_VERSION :: u16 where
  "HOST_API_ABI_VERSION = 10"

text \<open>\<open>const char a[n] = "..."\<close>: padded with zeros; the terminating NUL is dropped when the text fills the array, and a longer text
  does not compile.\<close>

definition char_array :: "nat \<Rightarrow> u8 list \<Rightarrow> u8 list option" where
  "char_array n text = (if length text \<le> n then Some (text @ replicate (n - length text) 0) else None)"

definition MDL_MODULE_NAME :: "u8 list \<Rightarrow> u8 list option" where
  "MDL_MODULE_NAME n = char_array NAME_MAX n"

definition MDL_MODULE_COMMAND :: "u8 list \<Rightarrow> u8 list option" where
  "MDL_MODULE_COMMAND name = char_array CMD_NAME_MAX name"

definition MDL_RES_GPIO :: "int \<Rightarrow> res" where
  "MDL_RES_GPIO pin = \<lparr>r_kind = KIND_GPIO, r_id = of_int pin, r_edge = EDGE_NONE, r_rsv = 0\<rparr>"

definition MDL_RES_GPIO_IRQ :: "int \<Rightarrow> u8 \<Rightarrow> res" where
  "MDL_RES_GPIO_IRQ pin edge = \<lparr>r_kind = KIND_GPIO, r_id = of_int pin, r_edge = edge, r_rsv = 0\<rparr>"

definition MDL_RES_I2C :: "int \<Rightarrow> res" where
  "MDL_RES_I2C n = \<lparr>r_kind = KIND_I2C, r_id = of_int n, r_edge = 0, r_rsv = 0\<rparr>"

definition MDL_RES_UART :: "int \<Rightarrow> res" where
  "MDL_RES_UART n = \<lparr>r_kind = KIND_UART, r_id = of_int n, r_edge = 0, r_rsv = 0\<rparr>"

definition MDL_RES_TIMER :: "int \<Rightarrow> res" where
  "MDL_RES_TIMER n = \<lparr>r_kind = KIND_TIMER, r_id = of_int n, r_edge = 0, r_rsv = 0\<rparr>"

definition MDL_RES_ADC :: "int \<Rightarrow> res" where
  "MDL_RES_ADC ch = \<lparr>r_kind = KIND_ADC, r_id = of_int ch, r_edge = 0, r_rsv = 0\<rparr>"

definition MDL_RES_SPI :: "int \<Rightarrow> res" where
  "MDL_RES_SPI n = \<lparr>r_kind = KIND_SPI, r_id = of_int n, r_edge = 0, r_rsv = 0\<rparr>"

text \<open>The array of \<open>mdl_res_t\<close> as it lies in its section: four bytes each.\<close>

definition MDL_MODULE_RESOURCES :: "res list \<Rightarrow> u8 list" where
  "MDL_MODULE_RESOURCES rs = concat (map (\<lambda>r. [r_kind r, r_id r, r_edge r, r_rsv r]) rs)"

definition MDL_MODULE_EVENTS :: "int \<Rightarrow> int \<Rightarrow> u16 \<times> u16" where
  "MDL_MODULE_EVENTS depth rate_hz = (of_int depth, of_int rate_hz)"

section \<open>Read back\<close>

lemma mem_read_Cons: "mem_read mm a (Suc n) = mm a # mem_read mm (a + 1) n"
  by (simp add: mem_read_def upt_conv_Cons del: upt_Suc)

lemma res_table_Suc: "res_table mm a (Suc n) = res_at mm a # res_table mm (a + 4) n"
proof -
  have "[0 ..< Suc n] = 0 # map Suc [0 ..< n]" by (simp only: upt_conv_Cons zero_less_Suc map_Suc_upt)
  then show ?thesis by (simp add: res_table_def o_def add.assoc del: upt_Suc)
qed

lemma resources_read_back:
  "mem_read mm a (4 * length rs) = MDL_MODULE_RESOURCES rs \<Longrightarrow> res_table mm a (length rs) = rs"
proof (induction rs arbitrary: a)
  case Nil
  then show ?case by (simp add: res_table_def)
next
  case (Cons r rs)
  have "mem_read mm a (4 * length (r # rs)) = mm a # mm (a + 1) # mm (a + 2) # mm (a + 3) # mem_read mm (a + 4) (4 * length rs)"
    by (simp add: mem_read_Cons numeral_eq_Suc)
  then have "res_at mm a = r" "mem_read mm (a + 4) (4 * length rs) = MDL_MODULE_RESOURCES rs"
    using Cons.prems by (simp_all add: MDL_MODULE_RESOURCES_def res_at_def)
  then show ?case using Cons.IH by (simp add: res_table_Suc)
qed

lemma cstr_pad: "0 \<notin> set cs \<Longrightarrow> cstr (cs @ replicate n 0) = cs"
proof (induction cs)
  case Nil
  then show ?case by (cases n) simp_all
qed auto

lemma cstr_cut:
  assumes "char_array 16 name = Some bs" "0 \<notin> set name"
  shows "cstr (take 15 bs @ [0]) = take 15 name"
proof -
  have "take 15 bs @ [0] = take 15 name @ replicate (15 - length name + 1) 0"
    using assms(1) by (auto simp: char_array_def replicate_append_same split: if_splits)
  moreover have "0 \<notin> set (take 15 name)" using assms(2) by (meson in_set_takeD)
  ultimately show ?thesis by (simp add: cstr_pad del: replicate_Suc)
qed


section \<open>Applied\<close>

text \<open>The example image declares nothing and has no name.\<close>

lemma mem_read_zeros: "(\<And>k. k < n \<Longrightarrow> mm (a + k) = 0) \<Longrightarrow> mem_read mm a n = replicate n 0"
  by (rule nth_equalityI) (simp_all add: mem_read_def)

lemma img_no_names:
  "hd_name (read_header (snd img_st) IMG) = replicate 16 0" "hd_cmd_name (read_header (snd img_st) IMG) = replicate 16 0"
  "hd_evt_rate_hz (read_header (snd img_st) IMG) = 0"
proof -
  let ?pre = "concat (map le32_bytes [MDL_MAGIC, 0x0001000A, mdl_crc32 (replicate 1508 0), 1000, 496, 0, 1496, 1, 5, 1500, 1])"
    and ?post = "concat (map le32_bytes [0, 0, 0, 0, 0, 0, 0, 0, 0, 0, 0, 0, 0])"
  have h: "image_header = ?pre @ ?post" by (simp add: image_header_def)
  have len: "length ?pre = 44" "length ?post = 52" by (simp_all add: le32_bytes_def)
  have "\<forall>x \<in> set ?post. x = 0" by (simp add: le32_bytes_def byte_of_def)
  then have post: "?post ! j = 0" if "j < 52" for j using nth_mem [of j ?post] that len(2) by metis
  have "snd img_st (IMG + k) = 0" if "44 \<le> k" "k < 96" for k
    using img_byte [of k] that post [of "k - 44"] unfolding h nth_append len(1) by simp
  then have z: "snd img_st (IMG + a + k) = 0" if "44 \<le> a + k" "a + k < 96" for a k
    using that by (simp only: add.assoc)
  show "hd_name (read_header (snd img_st) IMG) = replicate 16 0" "hd_cmd_name (read_header (snd img_st) IMG) = replicate 16 0"
    unfolding read_header_def header.simps by (rule mem_read_zeros, rule z; simp)+
  have "snd img_st (IMG + 94) = 0" "snd img_st (IMG + 95) = 0" using z [of 94 0] z [of 95 0] by simp_all
  then show "hd_evt_rate_hz (read_header (snd img_st) IMG) = 0" by (simp add: read_header_def ld16_def)
qed


end
