(* ===== verification/Firmware.thy ===== *)
theory Firmware
  imports Mdl_System Usb_Cdc
begin

text \<open>
  The firmware put together: \<open>src/mdl/tests/hil/at32f435_m4/main.c\<close>. The supervisor task initialises the components in order,
  restores the saved modules and enters its loop; the indicator task drives the two lamps of the board for as long as no
  module has declared them.
\<close>

section \<open>The supervisor task\<close>

text \<open>Everything before the loop. \<open>pool\<close> is where the linker put the arena, \<open>current\<close> the task's own handle.\<close>

definition supervisor_boot :: "board \<Rightarrow> nat \<Rightarrow> addr \<Rightarrow> sup \<Rightarrow> sup option" where
  "supervisor_boot brd current pool s =
     (case registry_init (h_slots s, u_fault s) of (ms, f) \<Rightarrow>
      case sandbox_bounds_init pool ms (h_mem s) of (ms1, b, mm) \<Rightarrow>
      case host_api_init (s\<lparr>h_slots := ms1, u_fault := f, u_buddy := b, h_mem := mm\<rparr>, u_gpio s) of (s1, g) \<Rightarrow>
        map_option mdl_console_greet (mdl_supervisor_restore brd (mdl_supervisor_init current (s1\<lparr>u_gpio := g\<rparr>))))"

text \<open>With \<open>n\<close> iterations of the loop.\<close>

definition supervisor_task :: "board \<Rightarrow> board_info \<Rightarrow> (nat \<Rightarrow> sup \<Rightarrow> sup) \<Rightarrow> addr \<Rightarrow> (nat \<Rightarrow> sup \<Rightarrow> sup) \<Rightarrow> nat \<Rightarrow> nat \<Rightarrow> addr \<Rightarrow> sup \<Rightarrow> sup option" where
  "supervisor_task brd fw rest rxbuf env n current pool s =
     Option.bind (supervisor_boot brd current pool s) (mdl_supervisor_run brd fw rest rxbuf env n)"

section \<open>The indicator task\<close>

abbreviation LEDB :: u8 where "LEDB \<equiv> 0x3A"
abbreviation LEDG :: u8 where "LEDG \<equiv> 0x4F"

definition set_led :: "int \<Rightarrow> int \<Rightarrow> sup \<Rightarrow> sup" where
  "set_led pin level s = s\<lparr>u_gpio := snd (host_gpio_direct_set pin level (u_gpio s))\<rparr>"

text \<open>The part of a round before its first delay: the greeting, the two questions, the green lamp, and the blue lamp lit.
  The result says whether the blue lamp is the host's.\<close>

definition indicator_check :: "bool \<Rightarrow> cdc \<times> sup \<Rightarrow> bool \<times> bool \<times> cdc \<times> sup" where
  "indicator_check was_up cs =
     (case cs of (c, s) \<Rightarrow>
      case usb_cdc_take_host_open_event c of (opened, c1) \<Rightarrow>
        let s1 = if opened then mdl_console_greet s else s;
            green_mine = \<not> host_gpio_yielded_to_module 1 (h_slots s1);
            blue_mine = \<not> host_gpio_yielded_to_module 0 (h_slots s1);
            up = usb_cdc_link_up c1;
            s2 = if green_mine \<and> up \<noteq> was_up then set_led 1 (if up then 0 else 1) s1 else s1
        in (blue_mine, green_mine \<and> up, c1, if blue_mine then set_led 0 0 s2 else s2))"

text \<open>A round. \<open>rest ms\<close> is what everything else does during a delay of \<open>ms\<close> milliseconds.\<close>

definition indicator_round :: "(nat \<Rightarrow> cdc \<times> sup \<Rightarrow> cdc \<times> sup) \<Rightarrow> bool \<times> cdc \<times> sup \<Rightarrow> bool \<times> cdc \<times> sup" where
  "indicator_round rest st =
     (case st of (was_up, cs) \<Rightarrow>
      case indicator_check was_up cs of (blue_mine, up, cs1) \<Rightarrow>
        (up, if blue_mine then rest 400 (apsnd (set_led 0 1) (rest 100 cs1)) else rest 500 cs1))"

section \<open>Restoring keeps the invariant\<close>

lemma acquire_outside:
  assumes ok: "buddy_ok st" and run: "mdl_arena_acquire tb db m st = Some (granted, m', st')"
  shows "keeps_outside st (snd st')"
proof (cases granted)
  case True
  then show ?thesis using acquire_memory(2) [OF ok run] by simp
next
  case False
  obtain t st1 where A: "mdl_buddy_alloc tb st = (t, st1)" by (cases "mdl_buddy_alloc tb st")
  obtain d st2 where B: "mdl_buddy_alloc db st1 = (d, st2)" by (cases "mdl_buddy_alloc db st1")
  obtain h st3 where C: "mdl_buddy_alloc HEAPSTACK_BYTES st2 = (h, st3)" by (cases "mdl_buddy_alloc HEAPSTACK_BYTES st2")
  note ok1 = bud.alloc_ok [OF ok A] note ok2 = bud.alloc_ok [OF ok1 B] note ok3 = bud.alloc_ok [OF ok2 C]
  note a = alloc_memory(2,3) [OF ok A] and b = alloc_memory(2,3) [OF ok1 B] and c = alloc_memory(2,3) [OF ok2 C]
  obtain st4 where 4: "mdl_buddy_free t st3 = Some st4" "buddy_ok st4" "pool_of st4 = pool_of st3"
    "\<forall>x. x \<notin> pool_of st3 \<longrightarrow> snd st4 x = snd st3 x" using free_memory [OF ok3, of t] by blast
  obtain st5 where 5: "mdl_buddy_free d st4 = Some st5" "buddy_ok st5" "pool_of st5 = pool_of st4"
    "\<forall>x. x \<notin> pool_of st4 \<longrightarrow> snd st5 x = snd st4 x" using free_memory [OF 4(2), of d] by blast
  obtain st6 where 6: "mdl_buddy_free h st5 = Some st6" "\<forall>x. x \<notin> pool_of st5 \<longrightarrow> snd st6 x = snd st5 x"
    using free_memory [OF 5(2), of h] by blast
  have "st' = st6" using run A B C 4(1) 5(1) 6(1) False by (auto simp: mdl_arena_acquire_def split: if_splits)
  then show ?thesis using a b c 4(3,4) 5(3,4) 6(2) by (simp add: keeps_outside_def)
qed

text \<open>A load writes inside the arena only, whether it succeeds or not.\<close>

lemma load_outside:
  assumes inv: "sup_inv s" and i: "i < MAX_SLOTS" "m_state (h_slots s ! i) = SLOT_EMPTY" and wf: "image_ok (u_buddy s, h_mem s) img len"
    and run: "load_at i img len s = Some (st, d, s')"
  shows "keeps_outside (u_buddy s, h_mem s) (h_mem s')"
proof (cases "st = LOAD_OK")
  case True
  then show ?thesis using load_at_effect [OF inv i wf] run by auto
next
  case False
  have "keeps_outside (u_buddy s, h_mem s) mm" if "mdl_arena_acquire tb db m (u_buddy s, h_mem s) = Some (g, m', (b, mm))" for tb db m g m' b mm
    using acquire_outside [OF sup_inv_buddy [OF inv] that] by simp
  moreover have "keeps_outside (u_buddy s, h_mem s) (h_mem s)" by (simp add: keeps_outside_def)
  ultimately show ?thesis using run False
    by (auto simp: load_at_def mdl_load_def Let_def split: option.splits prod.splits if_splits)
qed

text \<open>The saved images lie outside the arena, each is one the loader's reads stay inside of.\<close>

definition stored_ok :: "board \<Rightarrow> store_op list \<Rightarrow> nat set \<Rightarrow> bstate \<Rightarrow> bool" where
  "stored_ok brd ops ks st \<longleftrightarrow> (\<forall>k \<in> ks. \<forall>img len. persist_entry brd ops k = Some (img, len) \<longrightarrow>
     image_ok st img len \<and> {img ..< img + max HDR_SIZE len} \<inter> pool_of st = {})"

lemma stored_ok_kept:
  assumes "stored_ok brd ops ks st" "pool_of st' = pool_of st" "keeps_outside st (snd st')"
  shows "stored_ok brd ops ks st'"
  unfolding stored_ok_def
proof (intro ballI allI impI)
  fix k img len assume k: "k \<in> ks" "persist_entry brd ops k = Some (img, len)"
  have i: "image_ok st img len" "{img ..< img + max HDR_SIZE len} \<inter> pool_of st = {}" using assms(1) k by (auto simp: stored_ok_def)
  have "snd st' x = snd st x" if "img \<le> x" "x < img + max HDR_SIZE len" for x
    using that i(2) assms(3) by (auto simp: keeps_outside_def)
  then show "image_ok st' img len \<and> {img ..< img + max HDR_SIZE len} \<inter> pool_of st' = {}"
    using image_ok_bytes [OF i(1) assms(2)] i(2) assms(2) by blast
qed

lemma restore_one:
  assumes ok: "sup_ok B s" and i: "i < MAX_SLOTS" "m_state (h_slots s ! i) = SLOT_EMPTY"
    and wf: "image_ok (u_buddy s, h_mem s) img len" and ans: "board_answers brd" "tasks_start brd"
  shows "\<exists>st d s1. load_at i img len s = Some (st, d, s1) \<and> sup_ok B s1 \<and> u_store s1 = u_store s
    \<and> pool_of (u_buddy s1, h_mem s1) = pool_of (u_buddy s, h_mem s) \<and> keeps_outside (u_buddy s, h_mem s) (h_mem s1)
    \<and> (if st = LOAD_OK then \<exists>s2. start_loaded_module brd i s1 = Some (True, s2) \<and> sup_ok B s2 \<and> u_store s2 = u_store s
         \<and> u_buddy s2 = u_buddy s1 \<and> h_mem s2 = h_mem s1
       else m_state (h_slots s1 ! i) = SLOT_EMPTY)"
proof -
  have inv: "sup_inv s" using ok by (simp add: sup_ok_def)
  obtain st d s1 where 1: "load_at i img len s = Some (st, d, s1)" "sup_inv s1" "same_rest s s1"
    "\<forall>j < MAX_SLOTS. j \<noteq> i \<longrightarrow> slot_kept j s s1"
    "if st = LOAD_OK then \<exists>m. h_slots s1 = (h_slots s)[i := set_entries (read_header (h_mem s) img) m] \<and> arena_held m \<and> bounds_ok m
     else \<exists>m. h_slots s1 = (h_slots s)[i := m] \<and> m_state m = SLOT_EMPTY"
    using load_at_effect [OF inv i wf] by blast
  have L: "length (h_slots s) = MAX_SLOTS" "length (h_slots s1) = MAX_SLOTS" using inv 1(2) by (simp_all add: sup_inv_def)
  have base: "s_base (u_buddy s1) = B" using load_base [OF sup_inv_buddy [OF inv] 1(1)] ok by (simp add: sup_ok_def)
  have ok1: "sup_ok B s1"
  proof (rule sup_ok_slots [OF 1(2) ok base])
    fix j :: nat assume "j < MAX_SLOTS"
    then show "h_slots s1 ! j = h_slots s ! j \<or> m_state (h_slots s1 ! j) = SLOT_EMPTY \<or> (arena_held (h_slots s1 ! j) \<and> bounds_ok (h_slots s1 ! j))"
      using 1(5) L i by (cases "j = i") (auto simp: bounds_ok_def split: if_splits)
  qed
  have pool: "pool_of (u_buddy s1, h_mem s1) = pool_of (u_buddy s, h_mem s)" using base ok by (simp add: pool_of_def sup_ok_def)
  have started: "\<exists>s2. start_loaded_module brd i s1 = Some (True, s2) \<and> sup_ok B s2 \<and> u_store s2 = u_store s
      \<and> u_buddy s2 = u_buddy s1 \<and> h_mem s2 = h_mem s1" if st: "st = LOAD_OK"
  proof -
    have l: "m_state (h_slots s1 ! i) = SLOT_LOADED" using 1(5) st L i by (auto simp: set_entries_name)
    obtain go s2 where 2: "start_loaded_module brd i s1 = Some (go, s2)" "sup_inv s2" "h_mem s2 = h_mem s1" "u_store s2 = u_store s1"
      "if go then \<exists>h. h_slots s2 = (h_slots s1)[i := running h (tick s1) (h_slots s1 ! i)]
       else h_slots s2 = (h_slots s1)[i := host_api_pool_reset (h_slots s1 ! i)]"
      "go \<longleftrightarrow> create_task brd (map task_handle (h_slots s1)) (fill_task_def (host_api_pool_reset (h_slots s1 ! i))) \<noteq> None"
      using start_loaded_effect [OF 1(2) i(1) l ans(1)] by blast
    have go: "go" using 2(6) ans(2) unfolding tasks_start_def by blast
    have b: "u_buddy s2 = u_buddy s1" using start_base [OF 2(1)] .
    have held: "arena_held (h_slots s1 ! i)" "bounds_ok (h_slots s1 ! i)" using sup_ok_slot [OF ok1 i(1)] l by simp_all
    have "sup_ok B s2"
    proof (rule sup_ok_slots [OF 2(2) ok1])
      show "s_base (u_buddy s2) = B" using b base by simp
      fix j :: nat assume "j < MAX_SLOTS"
      then show "h_slots s2 ! j = h_slots s1 ! j \<or> m_state (h_slots s2 ! j) = SLOT_EMPTY \<or> (arena_held (h_slots s2 ! j) \<and> bounds_ok (h_slots s2 ! j))"
        using 2(5) go L i held by (cases "j = i") (auto simp: bounds_ok_def running_def host_api_pool_reset_def)
    qed
    then show ?thesis using 2 go b 1(3) by (auto simp: same_rest_def)
  qed
  have "m_state (h_slots s1 ! i) = SLOT_EMPTY" if "st \<noteq> LOAD_OK" using that 1(5) L i by auto
  then show ?thesis using 1(1,3) ok1 pool load_outside [OF inv i wf 1(1)] started by (auto simp: same_rest_def)
qed

lemma set_empty_ok:
  assumes "sup_ok B s" "i < MAX_SLOTS" "m_state (h_slots s ! i) = SLOT_EMPTY"
  shows "sup_ok B (set_empty i s)"
  unfolding set_empty_def by (rule sup_ok_upd [OF assms(1,2)]) (use assms(3) in \<open>simp_all add: claims_def regions_of_def bounds_ok_def\<close>)

lemma restore_from_ok:
  assumes "sup_ok B s" "stored_ok brd (u_store s) (set ks) (u_buddy s, h_mem s)" "board_answers brd" "tasks_start brd"
  shows "\<exists>s'. restore_from brd ks s = Some s' \<and> sup_ok B s'"
  using assms(1,2)
proof (induction ks arbitrary: s)
  case Nil
  then show ?case by simp
next
  case (Cons k ks)
  have out_ok: "sup_ok B (out ps t)" if "\<And>p. p \<in> set ps \<Longrightarrow> printing p" "sup_ok B t" for ps and t :: sup
    using sup_ok_prints [OF prints_out [of ps t]] that by blast
  have rest: "\<exists>s'. restore_from brd ks t = Some s' \<and> sup_ok B s'"
    if "sup_ok B t" "u_store t = u_store s" "pool_of (u_buddy t, h_mem t) = pool_of (u_buddy s, h_mem s)"
      "keeps_outside (u_buddy s, h_mem s) (h_mem t)" for t :: sup
  proof (rule Cons.IH [OF that(1)])
    have "stored_ok brd (u_store s) (set ks) (u_buddy s, h_mem s)" using Cons.prems(2) by (simp add: stored_ok_def)
    then show "stored_ok brd (u_store t) (set ks) (u_buddy t, h_mem t)"
      using stored_ok_kept [of brd "u_store s" "set ks" "(u_buddy s, h_mem s)" "(u_buddy t, h_mem t)"] that(2-4) by simp
  qed
  show ?case
  proof (cases "persist_entry brd (u_store s) k")
    case None
    then show ?thesis using rest [OF Cons.prems(1)] by (simp add: keeps_outside_def)
  next
    case (Some e)
    obtain img len where e: "persist_entry brd (u_store s) k = Some (img, len)" using Some by (cases e) simp
    have wf: "image_ok (u_buddy s, h_mem s) img len" using Cons.prems(2) e by (simp add: stored_ok_def)
    show ?thesis
    proof (cases "find_free_slot (h_slots s)")
      case None
      have "sup_ok B (out [puts ''[host] more saved MDLs than slots; stopping'', crlf] s)" by (rule out_ok [OF _ Cons.prems(1)]) auto
      then show ?thesis using e None by simp
    next
      case (Some i)
      have i: "i < MAX_SLOTS" "m_state (h_slots s ! i) = SLOT_EMPTY"
        using find_idx_Some [of _ "h_slots s" i] Some Cons.prems(1) by (auto simp: find_free_slot_def sup_ok_def sup_inv_def)
      obtain st d s1 where 1: "load_at i img len s = Some (st, d, s1)" "sup_ok B s1" "u_store s1 = u_store s"
        "pool_of (u_buddy s1, h_mem s1) = pool_of (u_buddy s, h_mem s)" "keeps_outside (u_buddy s, h_mem s) (h_mem s1)"
        "if st = LOAD_OK then \<exists>s2. start_loaded_module brd i s1 = Some (True, s2) \<and> sup_ok B s2 \<and> u_store s2 = u_store s
           \<and> u_buddy s2 = u_buddy s1 \<and> h_mem s2 = h_mem s1
         else m_state (h_slots s1 ! i) = SLOT_EMPTY"
        using restore_one [OF Cons.prems(1) i wf assms(3,4)] by blast
      show ?thesis
      proof (cases "st = LOAD_OK")
        case True
        then obtain s2 where 2: "start_loaded_module brd i s1 = Some (True, s2)" "sup_ok B s2" "u_store s2 = u_store s"
          "u_buddy s2 = u_buddy s1" "h_mem s2 = h_mem s1" using 1(6) by auto
        let ?t = "out [puts ''[host] restored: '', name_out (m_name (h_slots s2 ! i)), crlf] s2"
        have t: "sup_ok B ?t" by (rule out_ok [OF _ 2(2)]) auto
        have "\<exists>s'. restore_from brd ks ?t = Some s' \<and> sup_ok B s'"
          by (rule rest [OF t]) (use 2(3-5) 1(4,5) in \<open>simp_all add: out_def\<close>)
        then show ?thesis using e Some 1(1) 2(1) True by simp
      next
        case False
        let ?ps = "[puts ''[host] saved MDL rejected at boot: '', puts (mdl_load_status_str st)]
                     @ (if d \<noteq> [] then [puts '': '', puts d] else []) @ [crlf]"
        have "\<exists>s'. restore_from brd ks (set_empty i (out ?ps s1)) = Some s' \<and> sup_ok B s'"
        proof (rule rest)
          have "sup_ok B (out ?ps s1)" by (rule out_ok [OF _ 1(2)]) (auto split: if_splits)
          then show "sup_ok B (set_empty i (out ?ps s1))" using i(1) 1(6) False by (intro set_empty_ok) (simp_all add: out_def)
        qed (use 1(3-5) in \<open>simp_all add: out_def set_empty_def upd_module_def\<close>)
        then show ?thesis using e Some 1(1) False by simp
      qed
    qed
  qed
qed

section \<open>From reset\<close>

text \<open>The memory the C runtime leaves, as far as the firmware relies on it: the tables have their sizes, the drivers are down.\<close>

definition reset_state :: "sup \<Rightarrow> bool" where
  "reset_state s \<longleftrightarrow> length (h_slots s) = MAX_SLOTS \<and> length (s_evt (h_ev s)) = MAX_SLOTS \<and> devs_inv (h_devs s)"

lemma init_state_ok:
  assumes "reset_state s" "pool_ok pool"
    and "registry_init (h_slots s, u_fault s) = (ms, f)" "sandbox_bounds_init pool ms (h_mem s) = (ms1, b, mm)"
    and "t = mdl_supervisor_init current (s\<lparr>h_slots := ms1, u_fault := f, u_buddy := b, h_mem := mm, cyccnt := 0, u_gpio := g\<rparr>)"
  shows "sup_ok pool t"
proof -
  have L: "length (h_slots s) = 4" "0 < length (h_slots s)" using assms(1) by (simp_all add: reset_state_def)
  have ms: "ms = (map clear_slot (h_slots s))[0 := (clear_slot (h_slots s ! 0))\<lparr>last_active_tick := 0\<rparr>]"
    using assms(3) by (simp add: registry_init_def)
  have ms1: "ms1 = ms[0 := clear_bounds (ms ! 0)]" and bm: "(b, mm) = mdl_buddy_init pool (h_mem s)"
    using assms(4) by (simp_all add: sandbox_bounds_init_def)
  have len: "length ms1 = 4" using L by (simp add: ms ms1)
  have free: "m_state m = SLOT_EMPTY \<and> \<not> arena_held m" if "m \<in> set ms1" for m
  proof -
    have "m = clear_bounds (ms ! 0) \<or> m \<in> set ms" using that set_update_subset_insert [of ms 0 "clear_bounds (ms ! 0)"] unfolding ms1 by blast
    moreover have c: "m_state m' = SLOT_EMPTY \<and> \<not> arena_held m'" if "m' \<in> set ms" for m'
    proof -
      have "m' = (clear_slot (h_slots s ! 0))\<lparr>last_active_tick := 0\<rparr> \<or> m' \<in> clear_slot ` set (h_slots s)"
        using that set_update_subset_insert [of "map clear_slot (h_slots s)" 0 "(clear_slot (h_slots s ! 0))\<lparr>last_active_tick := 0\<rparr>"]
        unfolding ms set_map by blast
      then show ?thesis by (auto simp: clear_slot_def)
    qed
    moreover have "ms ! 0 \<in> set ms" using L by (intro nth_mem) (simp add: ms)
    ultimately show ?thesis by (auto simp: clear_bounds_def)
  qed
  note init = init_inv [OF assms(2), of "h_mem s", folded bm]
  have "concat (map regions_of ms1) = []" using free by (auto simp: regions_of_def)
  then have arena: "arena_inv ms1 (b, mm)" using init(1,2) by (simp add: arena_inv_def live_regions_def)
  have ev: "s_pin_slot (h_ev t) = replicate 32 (-1)" "length (s_evt (h_ev t)) = 4" "\<forall>j < 4. armed_lines (s_evt (h_ev t) ! j) = {}"
    using assms(1) by (simp_all add: assms(5) mdl_supervisor_init_def mdl_events_init_def reset_state_def)
  have "events_inv (h_ev t)" using ev by (simp add: events_inv_def)
  moreover have "armed_ok ms1 (h_ev t)" using ev(1) by (simp add: armed_ok_def)
  moreover have "pins_exclusive ms1" "empty_free ms1" "loaded_ok ms1" using free by (auto simp: pins_exclusive_def empty_free_def loaded_ok_def)
  moreover have "h_slots t = ms1" "u_buddy t = b" "h_mem t = mm" "h_devs t = h_devs s" by (simp_all add: assms(5) mdl_supervisor_init_def)
  ultimately show ?thesis using arena len assms(1) init(4) by (simp add: sup_ok_def sup_inv_def reset_state_def)
qed

lemma supervisor_boot_ok:
  assumes "reset_state s" "pool_ok pool" "board_answers brd" "tasks_start brd"
    and "stored_ok brd (u_store s) {..< persist_count brd (u_store s)} (mdl_buddy_init pool (h_mem s))"
  shows "\<exists>s'. supervisor_boot brd current pool s = Some s' \<and> sup_ok pool s'"
proof -
  obtain ms f where 1: "registry_init (h_slots s, u_fault s) = (ms, f)" by fastforce
  obtain ms1 b mm where 2: "sandbox_bounds_init pool ms (h_mem s) = (ms1, b, mm)" by (metis surj_pair)
  let ?t = "mdl_supervisor_init current (s\<lparr>h_slots := ms1, u_fault := f, u_buddy := b, h_mem := mm, cyccnt := 0, u_gpio := gpio_whitelist_init (u_gpio s)\<rparr>)"
  have ok: "sup_ok pool ?t" by (rule init_state_ok [OF assms(1,2) 1 2]) simp
  have bm: "(b, mm) = mdl_buddy_init pool (h_mem s)" using 2 by (simp add: sandbox_bounds_init_def)
  have k: "set [0 ..< persist_count brd (u_store s)] = {..< persist_count brd (u_store s)}" by auto
  have "stored_ok brd (u_store ?t) (set [0 ..< persist_count brd (u_store s)]) (u_buddy ?t, h_mem ?t)"
    using assms(5) unfolding k bm [symmetric] by (simp add: mdl_supervisor_init_def)
  then obtain s' where r: "restore_from brd [0 ..< persist_count brd (u_store s)] ?t = Some s'" "sup_ok pool s'"
    using restore_from_ok [OF ok _ assms(3,4)] by blast
  have "sup_ok pool (mdl_console_greet s')"
    unfolding mdl_console_greet_def using sup_ok_prints [OF list_prints] r(2) by simp
  moreover have "supervisor_boot brd current pool s = Some (mdl_console_greet s')"
    using r(1) 1 2 by (simp add: supervisor_boot_def host_api_init_def mdl_supervisor_restore_def mdl_supervisor_init_def)
  ultimately show ?thesis by blast
qed


section \<open>The lamps\<close>

lemma set_led_fields:
  "set_led 0 l s = s\<lparr>u_gpio := (u_gpio s)\<lparr>g_out := (g_out (u_gpio s))(LEDB := (l \<noteq> 0))\<rparr>\<rparr>"
  "set_led 1 l s = s\<lparr>u_gpio := (u_gpio s)\<lparr>g_out := (g_out (u_gpio s))(LEDG := (l \<noteq> 0))\<rparr>\<rparr>"
proof -
  have "pin_id (g_gpio_whitelist ! 0) = LEDB" "pin_id (g_gpio_whitelist ! 1) = LEDG" "configure (g_gpio_whitelist ! 0)" "configure (g_gpio_whitelist ! 1)"
    by code_simp+
  then show "set_led 0 l s = s\<lparr>u_gpio := (u_gpio s)\<lparr>g_out := (g_out (u_gpio s))(LEDB := (l \<noteq> 0))\<rparr>\<rparr>"
    "set_led 1 l s = s\<lparr>u_gpio := (u_gpio s)\<lparr>g_out := (g_out (u_gpio s))(LEDG := (l \<noteq> 0))\<rparr>\<rparr>"
    by (simp_all add: set_led_def host_gpio_direct_set_def host_gpio_set_impl_def gpio_lookup_def)
qed

lemma greet_prints: "prints s (mdl_console_greet s)"
  unfolding mdl_console_greet_def by (rule list_prints) simp


text \<open>A lamp handed over is written once more. When the blue lamp was the host's at the look, the host
  switches it off after its delay whatever happened meanwhile: a module that was loaded in that time, declared the lamp
  and lit it, finds it dark.\<close>

theorem indicator_overrides_module:
  assumes "\<not> host_gpio_yielded_to_module 0 (h_slots s)" "rest 100 (snd (snd (indicator_check was_up (c, s)))) = (c2, t)"
  shows "\<exists>up. indicator_round rest (was_up, c, s) =
    (up, rest 400 (c2, t\<lparr>u_gpio := (u_gpio t)\<lparr>g_out := (g_out (u_gpio t))(LEDB := True)\<rparr>\<rparr>))"
proof -
  obtain blue up c1 s1 where i: "indicator_check was_up (c, s) = (blue, up, c1, s1)" by (metis surj_pair)
  have "h_slots (if b then mdl_console_greet s else s) = h_slots s" for b using prints_fields(1) [OF greet_prints] by simp
  then have "blue" using i assms(1) by (auto simp: indicator_check_def Let_def split: prod.splits if_splits)
  then show ?thesis using i assms(2) by (simp add: indicator_round_def set_led_fields)
qed

section \<open>Applied\<close>

lemma boot_stored: "stored_ok brd0 [] {..< 1} (mdl_buddy_init ARENA (snd img_st))"
proof -
  let ?st = "mdl_buddy_init ARENA (snd img_st)"
  have base: "s_base (fst (mdl_buddy_init ARENA mm)) = ARENA" for mm by (rule init_inv(4) [OF pool_ok_ARENA])
  have pool: "pool_of ?st = pool_of img_st" by (simp only: pool_of_def base img_st_def)
  have low: "snd ?st x = snd img_st x" if "x < ARENA" for x using that by (simp add: mdl_buddy_init_def push_def st32_other)
  have "image_ok ?st IMG IMG_LEN" by (rule image_ok_bytes [OF img_ok pool]) (use low in simp)
  moreover have "{IMG ..< IMG + max HDR_SIZE IMG_LEN} \<inter> pool_of ?st = {}"
    unfolding pool_of_def base by auto
  ultimately show ?thesis by (simp add: stored_ok_def brd0_def)
qed


definition link_up :: cdc where
  "link_up = \<lparr>s_tx_lock = True, tx_held = False, s_host_opened_port = True, usb_configured = True, cdc_ops = [], cdc_tries = 0, cdc_sent = []\<rparr>"

definition lamps_off :: sup where
  "lamps_off = reset_sup\<lparr>u_gpio := gpio_whitelist_init (u_gpio reset_sup)\<rparr>"

lemma lamps_free: "\<not> host_gpio_yielded_to_module k (h_slots lamps_off)"
  by (auto simp: host_gpio_yielded_to_module_def lamps_off_def reset_sup_def g_mdl_slots_def)


text \<open>A module that declared the blue lamp arrives during the delay and lights it.\<close>

definition lamp_taken :: sup where
  "lamp_taken = (upd_module 0 (\<lambda>m. m\<lparr>m_state := SLOT_RUNNING, gpio_claimed := 1\<rparr>) lamps_off)\<lparr>u_gpio := (u_gpio lamps_off)\<lparr>g_out := \<lambda>_. False\<rparr>\<rparr>"

theorem indicator_overrides_module_witness:
  "\<exists>up t. indicator_round (\<lambda>ms cs. if ms = 100 then (link_up, lamp_taken) else cs) (False, link_up, lamps_off) = (up, link_up, t)
     \<and> host_gpio_yielded_to_module 0 (h_slots t) \<and> \<not> g_out (u_gpio lamp_taken) LEDB \<and> g_out (u_gpio t) LEDB"
proof -
  let ?rest = "\<lambda>ms cs. if ms = 100 then (link_up, lamp_taken) else cs"
  have "\<exists>m \<in> set (h_slots lamp_taken). m_state m \<noteq> SLOT_EMPTY \<and> claim_bit (gpio_claimed m) 0"
    by (simp add: lamp_taken_def lamps_off_def reset_sup_def upd_module_def g_mdl_slots_def numeral_eq_Suc claim_bit_def)
  then have "host_gpio_yielded_to_module 0 (h_slots lamp_taken)" by (simp add: host_gpio_yielded_to_module_def g_gpio_owner_def)
  moreover define t where "t = lamp_taken\<lparr>u_gpio := (u_gpio lamp_taken)\<lparr>g_out := (g_out (u_gpio lamp_taken))(LEDB := True)\<rparr>\<rparr>"
  moreover obtain up where "indicator_round ?rest (False, link_up, lamps_off) = (up, link_up, t)"
    using indicator_overrides_module [OF lamps_free, of ?rest False link_up link_up lamp_taken] by (auto simp: t_def)
  moreover have "\<not> g_out (u_gpio lamp_taken) LEDB" by (simp add: lamp_taken_def)
  ultimately show ?thesis by (intro exI [of _ up] exI [of _ t]) simp
qed

end
