(* ===== verification/Board_Clock.thy ===== *)
theory Board_Clock
  imports Periph_Spec
begin

text \<open>
  The clocks of the board, \<open>src/mdl/tests/hil/common/board_clock.c\<close>, and the start of the firmware in
  \<open>src/mdl/tests/hil/at32f435_m4/main.c\<close>. Calls into the vendor library are recorded in order; when the hardware
  reports the oscillator, the PLL and the switch as ready is a parameter. What the recorded calls mean for the
  frequencies is the formula the file quotes from the vendor's driver.
\<close>

section \<open>The calls\<close>

datatype clk_op = CrmReset | PwcClock | Ldo1V3 | FlashDiv nat | HextOn | PllConfig nat nat nat | PllOn | AhbDiv nat | Apb2Div nat
  | Apb1Div nat | AutoStep bool | SwitchToPll | ClockUpdate | UsbFromPll | UsbDiv nat

abbreviation BOARD_PLL_MS :: nat where "BOARD_PLL_MS \<equiv> 3"
abbreviation BOARD_PLL_NS :: nat where "BOARD_PLL_NS \<equiv> 144"

text \<open>A loop that polls until the hardware is ready.\<close>

definition await_clock :: "(clk_op list \<Rightarrow> nat \<Rightarrow> bool) \<Rightarrow> clk_op list \<Rightarrow> clk_op list option" where
  "await_clock ready ops = map_option (\<lambda>_. ops) (wait_until (ready ops) 0)"

definition board_clock_init :: "(clk_op list \<Rightarrow> nat \<Rightarrow> bool) \<Rightarrow> clk_op list \<Rightarrow> clk_op list option" where
  "board_clock_init ready ops =
     Option.bind (await_clock ready (ops @ [CrmReset, PwcClock, Ldo1V3, FlashDiv 3, HextOn])) (\<lambda>ops1.
     Option.bind (await_clock ready (ops1 @ [PllConfig BOARD_PLL_NS BOARD_PLL_MS 4, PllOn])) (\<lambda>ops2.
     Option.bind (await_clock ready (ops2 @ [AhbDiv 1, Apb2Div 2, Apb1Div 2, AutoStep True, SwitchToPll])) (\<lambda>ops3.
     Some (ops3 @ [AutoStep False, ClockUpdate]))))"

definition board_usb_clock_init :: "clk_op list \<Rightarrow> clk_op list" where
  "board_usb_clock_init ops = ops @ [UsbFromPll, UsbDiv 6]"

section \<open>What they amount to\<close>

text \<open>The frequencies in MHz after the calls, from the 24 MHz crystal: reference and output of the PLL's oscillator, core, the two
  peripheral buses, USB. A divider keeps its reset value 1 until it is set.\<close>

record clocks =
  pll_ref :: nat
  pll_vco :: nat
  sclk :: nat
  apb1 :: nat
  apb2 :: nat
  usbclk :: nat

abbreviation HEXT_MHZ :: nat where "HEXT_MHZ \<equiv> 24"

definition last_div :: "(clk_op \<Rightarrow> nat option) \<Rightarrow> clk_op list \<Rightarrow> nat" where
  "last_div f ops = foldl (\<lambda>n op. case f op of None \<Rightarrow> n | Some d \<Rightarrow> d) 1 ops"

definition frequencies :: "clk_op list \<Rightarrow> clocks" where
  "frequencies ops =
     (let ns = last_div (\<lambda>op. case op of PllConfig n m f \<Rightarrow> Some n | _ \<Rightarrow> None) ops;
          ms = last_div (\<lambda>op. case op of PllConfig n m f \<Rightarrow> Some m | _ \<Rightarrow> None) ops;
          fr = last_div (\<lambda>op. case op of PllConfig n m f \<Rightarrow> Some f | _ \<Rightarrow> None) ops;
          core = HEXT_MHZ * ns div ms div fr
      in \<lparr>pll_ref = HEXT_MHZ div ms, pll_vco = HEXT_MHZ * ns div ms, sclk = core,
          apb1 = core div last_div (\<lambda>op. case op of Apb1Div d \<Rightarrow> Some d | _ \<Rightarrow> None) ops,
          apb2 = core div last_div (\<lambda>op. case op of Apb2Div d \<Rightarrow> Some d | _ \<Rightarrow> None) ops,
          usbclk = core div last_div (\<lambda>op. case op of UsbDiv d \<Rightarrow> Some d | _ \<Rightarrow> None) ops\<rparr>)"

lemma last_div_append: "last_div f (xs @ ys) = foldl (\<lambda>n op. case f op of None \<Rightarrow> n | Some d \<Rightarrow> d) (last_div f xs) ys"
  by (simp add: last_div_def)

lemma await_clock_eq: "await_clock ready ops = (if \<exists>k. ready ops k then Some ops else None)"
  using wait_until_ends [of "ready ops" 0] by (auto simp: await_clock_def)

text \<open>The clock comes up exactly when crystal, PLL and switch each answer at some time. Then the core runs at 288 MHz with every
  frequency inside the limits that the driver documents, USB gets its 48 MHz, and the supply and the flash wait states
  were raised before the core was switched over.\<close>

theorem board_clock_comes_up:
  "(board_clock_init ready ops \<noteq> None) =
     (\<exists>i j k. ready (ops @ [CrmReset, PwcClock, Ldo1V3, FlashDiv 3, HextOn]) i
        \<and> ready (ops @ [CrmReset, PwcClock, Ldo1V3, FlashDiv 3, HextOn, PllConfig 144 3 4, PllOn]) j
        \<and> ready (ops @ [CrmReset, PwcClock, Ldo1V3, FlashDiv 3, HextOn, PllConfig 144 3 4, PllOn, AhbDiv 1, Apb2Div 2, Apb1Div 2, AutoStep True, SwitchToPll]) k)
   \<and> (case board_clock_init ready ops of None \<Rightarrow> True | Some ops' \<Rightarrow>
        let f = frequencies (board_usb_clock_init ops') in
        sclk f = 288 \<and> usbclk f = 48 \<and> apb1 f = 144 \<and> apb2 f = 144 \<and> 2 \<le> pll_ref f \<and> pll_ref f \<le> 16 \<and> 500 \<le> pll_vco f \<and> pll_vco f \<le> 1200
        \<and> (\<exists>before after. ops' = before @ SwitchToPll # after \<and> Ldo1V3 \<in> set before \<and> FlashDiv 3 \<in> set before))"
proof (cases "board_clock_init ready ops")
  case None
  then show ?thesis by (auto simp: board_clock_init_def await_clock_eq split: if_splits)
next
  case (Some ops')
  then have e: "ops' = ops @ [CrmReset, PwcClock, Ldo1V3, FlashDiv 3, HextOn, PllConfig 144 3 4, PllOn, AhbDiv 1, Apb2Div 2, Apb1Div 2,
      AutoStep True, SwitchToPll, AutoStep False, ClockUpdate]"
    and r: "\<exists>i j k. ready (ops @ [CrmReset, PwcClock, Ldo1V3, FlashDiv 3, HextOn]) i
        \<and> ready (ops @ [CrmReset, PwcClock, Ldo1V3, FlashDiv 3, HextOn, PllConfig 144 3 4, PllOn]) j
        \<and> ready (ops @ [CrmReset, PwcClock, Ldo1V3, FlashDiv 3, HextOn, PllConfig 144 3 4, PllOn, AhbDiv 1, Apb2Div 2, Apb1Div 2, AutoStep True, SwitchToPll]) k"
    by (auto simp: board_clock_init_def await_clock_eq split: if_splits)
  have "\<exists>before after. ops' = before @ SwitchToPll # after \<and> Ldo1V3 \<in> set before \<and> FlashDiv 3 \<in> set before"
    by (rule exI [of _ "ops @ [CrmReset, PwcClock, Ldo1V3, FlashDiv 3, HextOn, PllConfig 144 3 4, PllOn, AhbDiv 1, Apb2Div 2, Apb1Div 2, AutoStep True]"],
        rule exI [of _ "[AutoStep False, ClockUpdate]"]) (simp add: e)
  moreover have "frequencies (board_usb_clock_init ops') = \<lparr>pll_ref = 8, pll_vco = 1152, sclk = 288, apb1 = 144, apb2 = 144, usbclk = 48\<rparr>"
    by (simp add: e board_usb_clock_init_def frequencies_def last_div_append)
  ultimately show ?thesis using Some r by simp
qed

section \<open>The start of the firmware\<close>

text \<open>\<open>main\<close> up to the scheduler. A host task is created with the bit that makes it privileged.\<close>

datatype main_op = FaultsInit | ClockInit | MemManagePriority nat | UsbCdcInit | CreateTask string nat nat bool | StartScheduler

abbreviation configMAX_PRIORITIES :: nat where "configMAX_PRIORITIES \<equiv> 8"
abbreviation MDL_MODULE_TASK_PRIORITY :: nat where "MDL_MODULE_TASK_PRIORITY \<equiv> 1"

definition firmware_main :: "main_op list" where
  "firmware_main =
    [FaultsInit, ClockInit, MemManagePriority (push_bit 4 5 div 2 ^ (8 - 4)), UsbCdcInit,
     CreateTask ''supervisor'' 256 (configMAX_PRIORITIES - 3) True,
     CreateTask ''usb_cdc'' 256 (configMAX_PRIORITIES - 2) True,
     CreateTask ''indicator'' 256 (MDL_MODULE_TASK_PRIORITY + 1) True, StartScheduler]"

text \<open>No module outranks a host task, every host task is privileged, and the clock is up before the USB clock is derived from it.\<close>

theorem main_ranks_tasks:
  "(\<forall>op \<in> set firmware_main. case op of CreateTask n d p priv \<Rightarrow> priv \<and> MDL_MODULE_TASK_PRIORITY < p \<and> p < configMAX_PRIORITIES | _ \<Rightarrow> True)
   \<and> takeWhile (\<lambda>op. op \<noteq> UsbCdcInit) firmware_main = [FaultsInit, ClockInit, MemManagePriority 5]"
  by (simp add: firmware_main_def)

end
