(* ===== verification/Spec2Isabelle.thy ===== *)
theory Spec2Isabelle
  imports Protocol Usb_Cdc Buddy_Selftest Arena Host_Resources Host_Events Host_Heap Loader Module_Task Mpu Console_Line Host_I2c Host_Uart Host_Adc Host_Spi Persist_Safety Weak_Defaults Mdl_System Task_Mpu Module_Decl Firmware Board_Clock
begin

text \<open>
  \<^bold>\<open>The program.\<close> The firmware under \<open>src/mdl/\<close> makes a Cortex-M4 board (AT32F435) into a host for small native
  programs, \<^emph>\<open>modules\<close>. A PC sends a module's image over USB; the firmware checks it, finds memory for it, relocates
  it, starts it as an unprivileged FreeRTOS task behind the memory protection unit, serves its calls into the host, watches
  over it, and takes it out again without leaving anything behind. Four modules can be resident at once. This library
  models the C code of that firmware and proves what the isolation, the bookkeeping and the liveness of it rest on.

  \<^bold>\<open>How the parts work together.\<close> Received bytes go through the frame parser (\<open>transport/protocol.c\<close>), which
  separates binary frames from typed text; text goes to the line editor (\<open>transport/console.c\<close>). The supervisor task
  (\<open>core/supervisor.c\<close>) goes round a loop: the watchdog over the slots, a waiting frame, a waiting line. A pushed image
  goes to the loader (\<open>core/loader.c\<close>), which asks the resource arbiter (\<open>host/host_resources.c\<close>) whether the declared
  pins are free, takes memory from the arena (\<open>core/arena.c\<close> over \<open>core/buddy.c\<close>) and relocates
  (\<open>arch/arm_cm4/reloc_arm.c\<close>); the supervisor then claims the declared peripherals (\<open>host/host_i2c.c\<close>,
  \<open>host_uart.c\<close>, \<open>host_adc.c\<close>, \<open>host_spi.c\<close>), arms the interrupt lines (\<open>host/host_events.c\<close>) and creates the task
  (\<open>core/module_task.c\<close>). A running module calls the host through a table of gated functions (\<open>host/host_api.c\<close>), each
  of which raises the privilege, checks the caller against the slot table (\<open>core/registry.c\<close>) and its pointers against
  its own regions. Interrupts post events into the queue of the owner. A fault enters \<open>arch/arm_cm4/fault_arm.c\<close>: if
  the address is in a module, its slot is marked and the task parked; otherwise the evidence is kept
  (\<open>tests/hil/common/board_debug.c\<close>) and the board resets. Images can be kept in flash
  (\<open>tests/hil/common/board_persist.c\<close>) and are restored at the next start (\<open>tests/hil/at32f435_m4/main.c\<close>).

  \<^bold>\<open>Conventions.\<close> Addresses and sizes are natural numbers with the 32-bit arithmetic of the C code written out
  (\<open>add32\<close>, \<open>sub32\<close>); registers, sizes from the wire and flags are words of their width. Memory is a function
  from addresses to bytes, shared by the allocator's intrusive lists, the loader, the module heap and the drivers' buffers. A C
  structure is a record, a table of structures a list of them, a handle or a null pointer a number or \<open>None\<close>. A status is a
  datatype with the constructors of the source. \<open>None\<close> as the result of a whole operation is a call that does not return.
  Loops that need not end are \<open>partial_function\<close>s; loops with a bound in the source (retries, polls, queue depths)
  have that bound as their fuel, so no bound is added by the model. The one exception is the supervisor's infinite
  loop, which is iterated any number of times. What the firmware sends is appended to the output of the state, in order.

  \<^bold>\<open>The theories.\<close> From the bottom up:

  \<^item> \<open>Mdl_Prelude\<close>: machine types, 32-bit arithmetic, little-endian words, byte memory, C strings. \<open>Crc32\<close>: \<open>core/crc32.c\<close>.
  \<^item> \<open>Queue_Spec\<close>: the contract of a bounded queue, a locale; ring index arithmetic.
  \<^item> \<open>Buddy_Spec\<close>, \<open>Buddy\<close>, \<open>Buddy_Selftest\<close>: \<open>core/buddy.c\<close>. The pool as a tiling by blocks, the allocator on
    memory against it, and the self-check. The locale \<open>block_allocator\<close> states the contract and is interpreted on the code's allocator.
  \<^item> \<open>Registry\<close>: \<open>core/registry.c\<close>, \<open>registry.h\<close>, caller identity and the fault handler. \<open>Arena\<close>: \<open>core/arena.c\<close>.
  \<^item> \<open>Loader\<close>: \<open>core/loader.c\<close>, \<open>core/mdl_format.h\<close>, \<open>arch/arm_cm4/reloc_arm.c\<close>. \<open>Module_Decl\<close>: the declaration macros
    of \<open>host/host_api.h\<close> and what the loader reads back from them.
  \<^item> \<open>Host_Gpio\<close>, \<open>Host_Api\<close>, \<open>Host_Heap\<close>, \<open>Host_Calls\<close>: \<open>host/host_api.c\<close>: pins; privilege gate, pointer check, log,
    clock; the module heap; the table of calls as a datatype with its dispatch, and the frame of what one call may touch.
  \<^item> \<open>Host_Resources\<close>: \<open>host/host_resources.c\<close> with \<open>board_pins.def\<close>. \<open>Host_Events\<close>: \<open>host/host_events.c\<close>, an interpretation of the queue contract.
  \<^item> \<open>Periph_Spec\<close>, \<open>Host_I2c\<close>, \<open>Host_Uart\<close>, \<open>Host_Adc\<close>, \<open>Host_Spi\<close>, \<open>Host_Periph\<close>: the four drivers. The locale \<open>periph_driver\<close>
    (claim and release of one instance) is interpreted on each and on their combination; the receive ring of a UART interprets the queue contract.
  \<^item> \<open>Module_Task\<close>: \<open>core/module_task.c\<close>; the trampoline of a module is an inductive step relation over its gated helpers.
  \<^item> \<open>Mpu\<close>: \<open>arch/arm_cm4/mpu_armv7m.c\<close> and \<open>core/sandbox.c\<close>. \<open>Task_Mpu\<close>: the regions of a task in
    \<open>third_party/freertos_mpu_port/port.c\<close>, from start-up to the registers a context switch writes.
  \<^item> \<open>Protocol\<close>, \<open>Usb_Cdc\<close>, \<open>Console_Line\<close>: \<open>transport/protocol.c\<close>, \<open>transport/usb_cdc.c\<close> and the line editor and parsers of \<open>transport/console.c\<close>.
  \<^item> \<open>Supervisor\<close> and \<open>Supervisor_Inv\<close>, \<open>_Fixed\<close>, \<open>_Safety\<close>, \<open>_Load\<close>, \<open>_Push\<close>, \<open>_Run\<close>, \<open>_Examples\<close>: \<open>core/supervisor.c\<close>. The
    locale \<open>slot_round\<close> (do something to each slot that a condition picks) is interpreted for the watchdog and for unloading.
  \<^item> \<open>Console_Cmds\<close>, \<open>Console_Safety\<close>: the commands of \<open>transport/console.c\<close>, as the list of calls that print, and what a typed line can do.
  \<^item> \<open>Persist\<close>, \<open>Persist_Safety\<close>: the flash store. \<open>Board_Fault\<close>: the fault record and its report. \<open>Board_Clock\<close>: the clocks and \<open>main\<close>.
  \<^item> \<open>Weak_Defaults\<close>: every weak function, that is, what a target without a store, drivers, events or a console
    links; the contracts are interpreted on these too.
  \<^item> \<open>Mdl_System\<close>: everything outside the supervisor as one inductive relation (\<open>world\<close>), and the whole system (\<open>system\<close>). \<open>Firmware\<close>: from reset into that system, and the indicator task.

  \<^bold>\<open>What is shown.\<close>
  The allocator implements its tiling, refuses only when nothing fits, and coalesces completely; the
  slots and the live blocks always match, so nothing leaks and no two modules share memory. A load places a well-formed image
  exactly and, refused or not, harms nobody; a push changes one slot; reclaiming leaves nothing; the watchdog takes out exactly
  the faulted and the hung. The invariant of the supervisor's state (\<open>sup_ok\<close>: memory, pins, interrupt lines, events and
  drivers agree with the slots) is established from reset and kept by every command, frame and round. A
  host call returns and touches only what is the caller's; nothing outside the supervisor disturbs a module that
  is not running. The registers of the memory protection unit mean what the region tables say, and
  what module code can reach with them is stated exactly. Bytes, frames, numbers, declarations and stored images
  survive their round trips; queues keep order and account for what they lose; a save to flash is atomic under
  failure and loss of power. Where the code does less than its comments promise, a theorem states what it does instead: a
  module that overwrites a free-list link gets a privileged write anywhere; a failed task creation leaks its memory; the self-check
  overwrites live blocks; the allocator's size arithmetic and a relocation bound wrap; the indicator writes a lamp once after handing it over.

  \<^bold>\<open>Hypotheses.\<close>
  Theorems about a running system assume \<open>sup_ok\<close>, which is proved of every state reached from reset.
  \<open>image_ok\<close> is what the packer guarantees of an image (tables inside it, sizes that do not wrap); pushed frames
  (\<open>frame_ok\<close>) and saved images (\<open>stored_ok\<close>) are assumed to have it, because without it the loader writes outside its regions.
  \<open>line_ok\<close> excludes the self-check command while the supervisor's invariant is claimed. \<open>board_answers\<close> says that the
  converter becomes ready, without which a claim waits for ever; \<open>tasks_start\<close> that a task can be created, without which memory
  leaks. \<open>call_ok\<close> asks for an intact heap when a module allocates. The step of module code in \<open>world\<close> writes only the module's own writable
  regions in memory; its access to peripheral registers, which the port leaves open, is stated in \<open>Task_Mpu\<close> and is not part of \<open>world\<close>.

  \<^bold>\<open>Parameters.\<close> The vendor library and the peripherals behind it (\<open>vendor\<close>: statuses, flags and data as functions
  of the calls made so far), the flash controller, the USB stack, task creation and the flash store as the supervisor sees them
  (\<open>board\<close>), what the board layer prints (\<open>board_info\<close>), the code of a module, and, at every
  wait, what the rest of the system does meanwhile (\<open>rest\<close>, \<open>env\<close>). Each is an argument of the definitions that use it, and the witnesses supply concrete ones.

  \<^bold>\<open>Not modelled.\<close> The inline assembly that enters a module and the exception entries; the scheduler and
  the context switch of the FreeRTOS port apart from the regions; the vendor's USB stack, its interrupt
  handler and its pin set-up; cache and write barriers, which have no effect on the modelled state; the build id, the semihosting trap
  and the assertion traps, which only stop; the guard around a single flash operation. The
  sample modules, the earlier bring-up targets and the emulated board are tests of this code. The packer, the file watcher and the PC console are Python programs on the other side of the wire.
\<close>

end
